(* ===== verification/Prelude.thy ===== *)
theory Prelude
  imports Main "HOL-Library.Word" "HOL-Library.Signed_Division"
begin

text \<open>
  What every component of the development shares: the names of the machine integers of the
  C code, the signed operations C performs on them, exhaustive checking of a byte by
  evaluation, and the facts on lists updated by index that the message buffers need.

  The conventions are those of the compilers the Makefiles call: two's complement, wrap-around
  on overflow, arithmetic right shift of signed values, truncating division, and \<open>char\<close> as a
  signed 8-bit integer.
\<close>

unbundle bit_operations_syntax

section \<open>Machine integers\<close>

type_synonym u8 = "8 word"     \<comment> \<open>\<open>char\<close> and \<open>unsigned char\<close>\<close>
type_synonym u16 = "16 word"   \<comment> \<open>\<open>uint16_t\<close>, and \<open>int\<close> on the mote\<close>
type_synonym u32 = "32 word"   \<comment> \<open>\<open>uint32_t\<close>, \<open>int32\<close>, and \<open>int\<close> on the PC\<close>

named_theorems sint_simps \<open>values of word operations as integers, where they do not wrap\<close>

definition c_sdiv :: "'a::len word \<Rightarrow> 'a word \<Rightarrow> 'a word" where
  "c_sdiv a b = word_of_int (sint a sdiv sint b)"

definition c_smod :: "'a::len word \<Rightarrow> 'a word \<Rightarrow> 'a word" where
  "c_smod a b = word_of_int (sint a smod sint b)"

lemma sint32_word_of_int:
  "- 2147483648 \<le> k \<Longrightarrow> k < 2147483648 \<Longrightarrow> sint (word_of_int k :: u32) = k"
  by (simp add: sint_sbintrunc' signed_take_bit_int_eq_self)

lemma sint32_ge: "- 2147483648 \<le> sint (x :: u32)"
  using sint_ge [of x] by simp

lemma sint32_lt: "sint (x :: u32) < 2147483648"
  using sint_lt [of x] by simp

lemma sint32_add [sint_simps]:
  "- 2147483648 \<le> sint a + sint b \<Longrightarrow> sint a + sint b < 2147483648 \<Longrightarrow>
   sint (a + b :: u32) = sint a + sint b"
  by (simp add: sint_word_add signed_take_bit_int_eq_self)

lemma sint32_sub [sint_simps]:
  "- 2147483648 \<le> sint a - sint b \<Longrightarrow> sint a - sint b < 2147483648 \<Longrightarrow>
   sint (a - b :: u32) = sint a - sint b"
  by (simp add: sint_word_diff signed_take_bit_int_eq_self)

lemma sint32_mult [sint_simps]:
  "- 2147483648 \<le> sint a * sint b \<Longrightarrow> sint a * sint b < 2147483648 \<Longrightarrow>
   sint (a * b :: u32) = sint a * sint b"
  by (simp add: sint_word_mult signed_take_bit_int_eq_self)

lemma sint32_minus [sint_simps]:
  "sint a \<noteq> - 2147483648 \<Longrightarrow> sint (- a :: u32) = - sint a"
  using sint32_ge [of a] sint32_lt [of a]
  by (simp add: sint_word_minus signed_take_bit_int_eq_self)

lemma uint32_eq_sint: "uint (x :: u32) = sint x mod 4294967296"
  by (simp add: uint_sint take_bit_eq_mod)

lemma uint32_nonneg: "0 \<le> sint x \<Longrightarrow> uint (x :: u32) = sint x"
  using sint32_lt [of x] by (simp add: uint32_eq_sint)

lemma sint32_eq_uint: "sint (x :: u32) = (if uint x < 2147483648 then uint x else uint x - 4294967296)"
  using sint32_ge [of x] sint32_lt [of x]
  by (auto simp: uint32_eq_sint)
     (smt (verit) mod_add_self2 mod_pos_pos_trivial)+

lemma uint32_lt: "uint (x :: u32) < 4294967296"
  using uint_lt2p [of x] by simp

lemma sint32_sdiv:
  assumes "0 < sint b"
  shows "sint (c_sdiv a b :: u32) = sgn (sint a) * (\<bar>sint a\<bar> div sint b)"
proof -
  have "0 \<le> \<bar>sint a\<bar> div sint b" "\<bar>sint a\<bar> div sint b \<le> \<bar>sint a\<bar>"
    using assms int_div_le_self [of "\<bar>sint a\<bar>" "sint b"]
    by (cases "sint a = 0"; simp add: pos_imp_zdiv_nonneg_iff)+
  then show ?thesis
    unfolding c_sdiv_def signed_divide_int_def using assms sint32_ge [of a] sint32_lt [of a]
    by (subst sint32_word_of_int) (auto simp: sgn_if)
qed

lemma sint32_sdiv_nonneg:
  "0 \<le> sint a \<Longrightarrow> 0 < sint b \<Longrightarrow> sint (c_sdiv a b :: u32) = sint a div sint b"
  by (cases "sint a = 0") (simp_all add: sint32_sdiv)

lemma sint32_smod_nonneg:
  assumes "0 \<le> sint a" and "0 < sint b"
  shows "sint (c_smod a b :: u32) = sint a mod sint b"
proof -
  have "0 \<le> sint a mod sint b" "sint a mod sint b < sint b"
    using assms by simp_all
  moreover have "sint a smod sint b = sint a mod sint b"
    using assms by (rule smod_mod_positive [OF _ less_imp_le])
  ultimately show ?thesis
    unfolding c_smod_def using sint32_lt [of b] by (subst sint32_word_of_int) simp_all
qed

lemma sint8_nonneg: "unat (x :: u8) < 128 \<Longrightarrow> sint x = int (unat x)"
proof -
  assume "unat x < 128"
  then have "int (unat x) < 128" by linarith
  moreover have "- 128 \<le> uint x" by (rule order_trans [OF _ unsigned_greater_eq]) simp
  ultimately show ?thesis by (simp add: sint_uint signed_take_bit_int_eq_self)
qed

section \<open>Checking a property of a byte by evaluation\<close>

lemma u8_all_iff: "(\<forall>x::u8. P x) \<longleftrightarrow> list_all (\<lambda>n. P (word_of_nat n)) [0..<256]"
proof
  assume all: "list_all (\<lambda>n. P (word_of_nat n)) [0..<256]"
  show "\<forall>x. P x"
  proof
    fix x :: u8
    have "unat x \<in> set [0..<256]" using unsigned_less [of x] by simp
    with all have "P (word_of_nat (unat x))" by (simp only: list_all_iff)
    then show "P x" by simp
  qed
qed (simp add: list_all_iff)

text \<open>The same with the predicate a constant, which is unfolded for evaluated bytes only.\<close>

primrec all_below :: "nat \<Rightarrow> (u8 \<Rightarrow> bool) \<Rightarrow> bool" where
  "all_below 0 P \<longleftrightarrow> True"
| "all_below (Suc n) P \<longleftrightarrow> P (word_of_nat n) \<and> all_below n P"

lemma all_below_iff: "all_below n P \<longleftrightarrow> (\<forall>k<n. P (word_of_nat k))"
  by (induction n) (auto simp: less_Suc_eq)

lemma all_bytesD: "all_below 256 P \<Longrightarrow> P x"
proof -
  assume "all_below 256 P"
  moreover have "unat x < 256" using unsigned_less [of x] by simp
  ultimately have "P (word_of_nat (unat x))" unfolding all_below_iff by blast
  then show ?thesis by simp
qed

section \<open>Linear functions of a byte\<close>

lemma u16_eqI:
  assumes "list_all (\<lambda>n. bit a n = bit b n) [0..<16]" shows "a = (b :: u16)"
  by (rule bit_word_eqI) (use assms in \<open>simp add: list_all_iff\<close>)

lemma u8_bits_eqI:
  assumes "bit a 0 = bit b 0" "bit a 1 = bit b 1" "bit a 2 = bit b 2" "bit a 3 = bit b 3"
    and "bit a 4 = bit b 4" "bit a 5 = bit b 5" "bit a 6 = bit b 6" "bit a 7 = bit (b :: u8) 7"
  shows "a = b"
proof (rule bit_word_eqI)
  fix n assume "n < LENGTH(8)"
  then have "n < 8" by simp
  then have "n \<in> {0, 1, 2, 3, 4, 5, 6, 7}" by auto
  then show "bit a n = bit b n" using assms by blast
qed

definition linear :: "(u8 \<Rightarrow> u8) \<Rightarrow> bool" where
  "linear f \<longleftrightarrow> (\<forall>a b. f (a XOR b) = f a XOR f b)"

lemma linear_zero: "linear f \<Longrightarrow> f 0 = 0"
  unfolding linear_def by (metis xor_self_eq)

lemma byte_split:
  "(x :: u8) = (x AND push_bit 0 1) XOR (x AND push_bit 1 1) XOR (x AND push_bit 2 1) XOR (x AND push_bit 3 1)
     XOR (x AND push_bit 4 1) XOR (x AND push_bit 5 1) XOR (x AND push_bit 6 1) XOR (x AND push_bit 7 1)"
  by (rule u8_bits_eqI; simp add: bit_and_iff bit_xor_iff bit_push_bit_iff bit_1_iff)

lemma and_push_bit_cases: "(x :: u8) AND push_bit k 1 = 0 \<or> x AND push_bit k 1 = push_bit k 1"
proof (cases "bit x k")
  case True
  then show ?thesis by (intro disjI2 bit_word_eqI) (auto simp: bit_and_iff bit_exp_iff)
next
  case False
  then show ?thesis by (intro disjI1 bit_word_eqI) (auto simp: bit_and_iff bit_exp_iff)
qed

text \<open>Two linear functions that agree on the eight single bits agree.\<close>

lemma linear_ext:
  assumes f: "linear f" and g: "linear g"
    and eq: "f (push_bit 0 1) = g (push_bit 0 1)" "f (push_bit 1 1) = g (push_bit 1 1)"
      "f (push_bit 2 1) = g (push_bit 2 1)" "f (push_bit 3 1) = g (push_bit 3 1)"
      "f (push_bit 4 1) = g (push_bit 4 1)" "f (push_bit 5 1) = g (push_bit 5 1)"
      "f (push_bit 6 1) = g (push_bit 6 1)" "f (push_bit 7 1) = g (push_bit 7 1)"
  shows "f x = g x"
proof -
  have part: "f (x AND push_bit k 1) = g (x AND push_bit k 1)"
    if "f (push_bit k 1) = g (push_bit k 1)" for k
    using and_push_bit_cases [of x k] that linear_zero [OF f] linear_zero [OF g] by auto
  have F: "\<And>a b. f (a XOR b) = f a XOR f b" and G: "\<And>a b. g (a XOR b) = g a XOR g b"
    using f g unfolding linear_def by blast+
  show ?thesis
    by (subst (1 2) byte_split) (simp only: F G part [OF eq(1)] part [OF eq(2)] part [OF eq(3)] part [OF eq(4)]
      part [OF eq(5)] part [OF eq(6)] part [OF eq(7)] part [OF eq(8)])
qed

section \<open>Bytes in memory\<close>

text \<open>Both machines are little-endian.\<close>

definition bytes16 :: "u16 \<Rightarrow> u8 list" where
  "bytes16 w = [ucast w, ucast (drop_bit 8 w)]"

definition word16 :: "u8 list \<Rightarrow> u16" where
  "word16 bs = ucast (bs ! 0) OR push_bit 8 (ucast (bs ! 1))"

definition bytes32 :: "u32 \<Rightarrow> u8 list" where
  "bytes32 w = [ucast w, ucast (drop_bit 8 w), ucast (drop_bit 16 w), ucast (drop_bit 24 w)]"

definition word32 :: "u8 list \<Rightarrow> u32" where
  "word32 bs = ucast (bs ! 0) OR push_bit 8 (ucast (bs ! 1)) OR push_bit 16 (ucast (bs ! 2))
     OR push_bit 24 (ucast (bs ! 3))"

lemma length_bytes [simp]: "length (bytes16 w) = 2" "length (bytes32 v) = 4"
  by (simp_all add: bytes16_def bytes32_def)

lemma word16_bytes16 [simp]: "word16 (bytes16 w) = w"
  unfolding word16_def bytes16_def by (rule bit_word_eqI) (auto simp: bit_simps)

lemma word32_bytes32 [simp]: "word32 (bytes32 w) = w"
  unfolding word32_def bytes32_def
  apply (rule bit_word_eqI)
  apply (auto simp: bit_simps nth_Cons')
  subgoal for n by (cases "24 \<le> n") simp_all
  done

fun write_bytes :: "nat \<Rightarrow> 'a list \<Rightarrow> 'a list \<Rightarrow> 'a list" where
  "write_bytes i [] xs = xs"
| "write_bytes i (b # bs) xs = write_bytes (Suc i) bs (xs[i := b])"

definition read_bytes :: "nat \<Rightarrow> nat \<Rightarrow> 'a list \<Rightarrow> 'a list" where
  "read_bytes i n xs = map (\<lambda>k. xs ! (i + k)) [0..<n]"

lemma length_write_bytes [simp]: "length (write_bytes i bs xs) = length xs"
  by (induction bs arbitrary: i xs) simp_all

lemma length_read_bytes [simp]: "length (read_bytes i n xs) = n"
  by (simp add: read_bytes_def)

lemma nth_read_bytes [simp]: "k < n \<Longrightarrow> read_bytes i n xs ! k = xs ! (i + k)"
  by (simp add: read_bytes_def)

lemma nth_write_bytes:
  "k < length xs \<Longrightarrow> write_bytes i bs xs ! k = (if i \<le> k \<and> k < i + length bs then bs ! (k - i) else xs ! k)"
proof (induction bs arbitrary: i xs)
  case (Cons b bs)
  then show ?case by (cases "k = i") (auto simp: nth_Cons')
qed auto

lemma read_write_same:
  assumes "i + length bs \<le> length xs" and "n = length bs"
  shows "read_bytes i n (write_bytes i bs xs) = bs"
  using assms by (intro nth_equalityI) (simp_all add: nth_write_bytes)

lemma read_write_other:
  assumes "i + n \<le> length xs" and "i + n \<le> j \<or> j + length bs \<le> i"
  shows "read_bytes i n (write_bytes j bs xs) = read_bytes i n xs"
  using assms by (intro nth_equalityI) (auto simp: nth_write_bytes)

section \<open>Addresses\<close>

definition TOS_BCAST_ADDR :: u8 where "TOS_BCAST_ADDR = 0xff"
definition TOS_UART_ADDR :: u8 where "TOS_UART_ADDR = 0x7e"

text \<open>The number of data bytes of a message.\<close>

definition DATA_LENGTH :: nat where "DATA_LENGTH = 30"

section \<open>The light pins\<close>

text \<open>The components show what they do on three light-emitting diodes; setting a pin turns the
  light off.\<close>

datatype led_pin =
    SET_RED_LED_PIN | CLR_RED_LED_PIN | SET_YELLOW_LED_PIN | CLR_YELLOW_LED_PIN
  | SET_GREEN_LED_PIN | CLR_GREEN_LED_PIN

end
