(* ===== verification/Fixpoint.thy ===== *)
theory Fixpoint
  imports Prelude
begin

text \<open>
  The fixed-point package of the positioning system, \<open>aps_proj/system/fixpoint32.c\<close>: a value
  is a signed 32-bit word that stands for its integer value over $2^{16}$. The definitions
  translate every function of the file that does not use \<open>double\<close>; the messages
  \<open>MY_ERROR\<close> prints are left out, the error indicator \<open>fp_error\<close> is kept.

  The lemmas give each operation's value over the integers: truncation, fraction, exact
  multiplication or the reported overflow, division within 602 units of the last place, and a
  square root that is right up to its integer part.
\<close>

section \<open>The operations\<close>

type_synonym fixpoint = u32

definition HIBITS :: nat where "HIBITS = 16"
definition LOBITS :: nat where "LOBITS = 16"
definition LOMASK :: u32 where "LOMASK = NOT (push_bit LOBITS 0xffffffff)"
definition HIMASK :: u32 where "HIMASK = push_bit LOBITS (NOT (push_bit HIBITS 0xffffffff))"
definition SIGNBIT :: u32 where "SIGNBIT = push_bit (HIBITS + LOBITS - 1) 1"
definition OVERFLOWMASK :: u32 where "OVERFLOWMASK = SIGNBIT OR NOT (HIMASK OR LOMASK)"

definition fp_ten_1 :: fixpoint where "fp_ten_1 = 0x1999"
definition fp_ten_2 :: fixpoint where "fp_ten_2 = 0x028f"
definition fp_ten_3 :: fixpoint where "fp_ten_3 = 0x0041"
definition fp_ten_4 :: fixpoint where "fp_ten_4 = 0x0006"

definition fp_max :: fixpoint where "fp_max = NOT OVERFLOWMASK"
definition fp_min :: fixpoint where "fp_min = OVERFLOWMASK"

definition fp_integer :: "fixpoint \<Rightarrow> u32" where
  "fp_integer x =
     (let floor = signed_drop_bit LOBITS x; bits = x AND LOMASK
      in if x <s 0 then (if bits = 0 then floor else floor + 1) else floor)"

definition fp_abs :: "fixpoint \<Rightarrow> fixpoint" where
  "fp_abs x = (if x <s 0 then - x else x)"

definition fp_fraction :: "fixpoint \<Rightarrow> u32" where
  "fp_fraction x = (if x <s 0 then (- x) AND LOMASK else x AND LOMASK)"

definition fp_floor :: "fixpoint \<Rightarrow> fixpoint" where
  "fp_floor x = x AND HIMASK"

text \<open>\<open>fp_printb\<close> shifts a one-bit mask through the word; it returns what it prints.\<close>

fun fp_printb_loop :: "nat \<Rightarrow> u32 \<Rightarrow> fixpoint \<Rightarrow> string \<times> u32" where
  "fp_printb_loop 0 m x = ([], m)"
| "fp_printb_loop (Suc n) m x =
     (let c = (if m AND x \<noteq> 0 then CHR ''1'' else CHR ''0'');
          (cs, m') = fp_printb_loop n (drop_bit 1 m) x
      in (c # cs, m'))"

definition fp_printb :: "fixpoint \<Rightarrow> string" where
  "fp_printb x =
     (let x = (if x <s 0 then - x else x);
          m = push_bit (HIBITS + LOBITS - 1) 1;
          (hi, m) = fp_printb_loop HIBITS m x;
          (lo, m) = fp_printb_loop LOBITS m x
      in hi @ ''.'' @ lo)"

definition fp_int_fix :: "u32 \<Rightarrow> fixpoint" where
  "fp_int_fix x =
     (let negative = x <s 0; x = fp_abs x; p = push_bit LOBITS x
      in if negative then - p else p)"

definition fp_floor_div :: "fixpoint \<Rightarrow> fixpoint \<Rightarrow> fixpoint" where
  "fp_floor_div x y =
     (if y = 0 then fp_int_fix 0
      else if y <s 0 then fp_int_fix 0
      else if 0 \<le>s x then (let tmp = c_sdiv x y in push_bit LOBITS tmp)
      else (let tmp = c_sdiv x y + (if c_smod x y = 0 then 0 else -1) in push_bit LOBITS tmp))"

text \<open>
  Multiplication: the result and the value it leaves in the global \<open>fp_error\<close>. The four
  early returns come with the codes \<open>-1\<close> to \<open>-4\<close>.
\<close>

definition fp_multiply_err :: "fixpoint \<Rightarrow> fixpoint \<Rightarrow> fixpoint \<times> u32" where
  "fp_multiply_err x y =
     (let xhi = (if x <s 0 then - fp_integer x else fp_integer x);
          yhi = (if y <s 0 then - fp_integer y else fp_integer y);
          xlo = fp_fraction x;
          ylo = fp_fraction y;
          tmp = xhi * yhi
      in if tmp AND signed_drop_bit LOBITS OVERFLOWMASK \<noteq> 0 then (0x44, -1)
         else
           (let answer = push_bit LOBITS tmp + xhi * ylo + xlo * yhi
                         + (drop_bit LOBITS (xlo * ylo) AND LOMASK)
            in if answer AND NOT (HIMASK OR LOMASK) \<noteq> 0 then (1, -2)
               else if answer AND SIGNBIT \<noteq> 0 then (2, -3)
               else if drop_bit LOBITS xlo \<noteq> 0 \<and> drop_bit LOBITS ylo \<noteq> 0 then (3, -4)
               else ((if (x <s 0 \<and> 0 <s y) \<or> (0 <s x \<and> y <s 0) then - answer else answer), 0)))"

definition fp_multiply :: "fixpoint \<Rightarrow> fixpoint \<Rightarrow> fixpoint" where
  "fp_multiply x y = fst (fp_multiply_err x y)"

text \<open>
  The loop of \<open>fp_div_fractionpart\<close> over the decimal digits: \<open>ret\<close>, \<open>answer\<close>,
  \<open>remainder\<close> and the counter \<open>i\<close> as it leaves them.
\<close>

function fp_digits :: "nat \<Rightarrow> u32 \<Rightarrow> fixpoint \<Rightarrow> fixpoint \<Rightarrow> fixpoint \<Rightarrow> nat \<times> u32 \<times> fixpoint" where
  "fp_digits i ret answer remainder y =
     (if i \<le> 3 \<and> remainder \<noteq> 0 then
        (let tmp = fp_multiply remainder (fp_int_fix 10);
             answer = c_sdiv tmp y
         in fp_digits (Suc i) (10 * ret + fp_fraction answer) answer (c_smod tmp y) y)
      else (i, ret, answer))"
  by pat_completeness auto
termination by (relation "measure (\<lambda>(i, _). 4 - i)") auto

definition fp_div_fractionpart :: "fixpoint \<Rightarrow> fixpoint \<Rightarrow> fixpoint" where
  "fp_div_fractionpart remainder y =
     (let (i, ret, answer) = fp_digits 1 0 0 remainder y
      in if i = 2 then fp_multiply (fp_int_fix ret) fp_ten_1
         else if i = 3 then fp_multiply (fp_int_fix ret) fp_ten_2
         else if i = 4 then fp_multiply (fp_int_fix ret) fp_ten_3
         else if i = 5 then fp_multiply (fp_int_fix ret) fp_ten_4
         else answer)"

definition fp_div :: "fixpoint \<Rightarrow> fixpoint \<Rightarrow> fixpoint" where
  "fp_div x y =
     (let absx = fp_abs x; absy = fp_abs y
      in if absy = 0 then fp_int_fix 0
         else
           (let tmp = push_bit LOBITS (c_sdiv absx absy);
                remainder = c_smod absx absy;
                answer = (if remainder \<noteq> 0 then tmp OR fp_div_fractionpart remainder absy else tmp)
            in if (x <s 0 \<and> 0 <s y) \<or> (0 <s x \<and> y <s 0) then - answer else answer))"

text \<open>The loop of \<open>int_sqrt\<close> has no bound of its own: it returns, or it does not.\<close>

partial_function (option) int_sqrt_loop :: "u32 \<Rightarrow> u32 \<Rightarrow> u32 option" where
  "int_sqrt_loop x sq_rt =
     (if sq_rt * sq_rt = x then Some sq_rt
      else if x <s sq_rt * sq_rt then Some (sq_rt - 1)
      else int_sqrt_loop x (sq_rt + 1))"

declare int_sqrt_loop.simps [code]

definition int_sqrt :: "u32 \<Rightarrow> u32 option" where
  "int_sqrt x = (if x = 0 then Some 0 else int_sqrt_loop x 1)"

definition fp_sqrt :: "fixpoint \<Rightarrow> fixpoint option" where
  "fp_sqrt x =
     (case int_sqrt (fp_integer x) of None \<Rightarrow> None
      | Some res \<Rightarrow> Some (push_bit HIBITS res OR fp_fraction x))"

section \<open>Values of the masks and of truncation\<close>

lemmas fp_const_defs = HIBITS_def LOBITS_def LOMASK_def HIMASK_def SIGNBIT_def OVERFLOWMASK_def

lemma LOMASK_value [simp]: "LOMASK = 0xffff"
  by (simp add: fp_const_defs)

lemma HIMASK_value [simp]: "HIMASK = 0xffff0000"
  by (simp add: fp_const_defs)

lemma SIGNBIT_value [simp]: "SIGNBIT = 0x80000000"
  by (simp add: fp_const_defs)

lemma OVERFLOWMASK_value [simp]: "OVERFLOWMASK = 0x80000000"
  by (simp add: fp_const_defs)

lemma fp_max_value: "sint fp_max = 2147483647"
  by (simp add: fp_max_def)

lemma fp_min_value: "sint fp_min = - 2147483648"
  by (simp add: fp_min_def)

lemma and_lomask: "uint (x AND 0xffff :: u32) = uint x mod 65536"
proof -
  have "(0xffff :: u32) = mask 16" by (simp add: mask_eq_exp_minus_1)
  then have "uint (x AND 0xffff) = uint (take_bit 16 x)" by (simp only: take_bit_eq_mask)
  also have "\<dots> = take_bit 16 (uint x)" by (rule unsigned_take_bit_eq)
  finally show ?thesis by (simp add: take_bit_eq_mod)
qed

lemma sint_sshift16: "sint (signed_drop_bit 16 (x :: u32)) = sint x div 65536"
  by (simp add: sint_signed_drop_bit_eq drop_bit_eq_div)

lemma uint_push16: "uint (push_bit 16 (x :: u32)) = (uint x * 65536) mod 4294967296"
  unfolding unsigned_push_bit_eq by (simp add: push_bit_eq_mult take_bit_eq_mod)

lemma uint_drop16: "uint (drop_bit 16 (x :: u32)) = uint x div 65536"
  unfolding unsigned_drop_bit_eq using uint32_lt [of x] by (simp add: drop_bit_eq_div take_bit_eq_mod)

lemma sint_push16:
  "- 32768 \<le> sint x \<Longrightarrow> sint x < 32768 \<Longrightarrow> sint (push_bit 16 (x :: u32)) = sint x * 65536"
  unfolding signed_push_bit_eq by (simp add: push_bit_eq_mult signed_take_bit_int_eq_self)

lemma slt_0_iff [simp]: "(x :: u32) <s 0 \<longleftrightarrow> sint x < 0"
  by (simp add: word_sless_alt)

lemma sgt_0_iff [simp]: "0 <s (x :: u32) \<longleftrightarrow> 0 < sint x"
  by (simp add: word_sless_alt)

lemma sge_0_iff [simp]: "0 \<le>s (x :: u32) \<longleftrightarrow> 0 \<le> sint x"
  by (simp add: word_sle_eq)

lemma eq_0_iff_sint: "(x :: u32) = 0 \<longleftrightarrow> sint x = 0"
  by (simp add: signed_eq_0_iff)

lemma uint_minus_mod:
  "sint (x :: u32) < 0 \<Longrightarrow> uint (- x) = - sint x"
  using sint32_ge [of x] unfolding uint_word_ariths by (simp add: uint32_eq_sint mod_minus_eq)

lemma uint_abs_fraction: "uint (fp_fraction x) = \<bar>sint x\<bar> mod 65536"
  by (simp add: fp_fraction_def and_lomask uint_minus_mod uint32_nonneg)

lemma sint_fp_fraction: "sint (fp_fraction x) = \<bar>sint x\<bar> mod 65536"
  using uint_abs_fraction [of x] sint32_eq_uint [of "fp_fraction x"]
    pos_mod_bound [of 65536 "\<bar>sint x\<bar>"]
  by simp

lemma and_lomask_eq_0: "x AND 0xffff = (0 :: u32) \<longleftrightarrow> sint x mod 65536 = 0"
proof -
  have "x AND 0xffff = (0 :: u32) \<longleftrightarrow> uint x mod 65536 = 0"
    by (simp add: word_uint_eq_iff and_lomask)
  then show ?thesis by (simp add: uint32_eq_sint mod_mod_cancel)
qed

section \<open>The value of each operation\<close>

lemma trunc_div_neg:
  fixes v :: int
  assumes "v < 0"
  shows "- (\<bar>v\<bar> div 65536) = (if v mod 65536 = 0 then v div 65536 else v div 65536 + 1)"
proof -
  have "v = 65536 * (v div 65536) + v mod 65536" by simp
  moreover have "0 \<le> v mod 65536" "v mod 65536 < 65536" by simp_all
  ultimately show ?thesis using assms by (auto simp: zdiv_zminus1_eq_if)
qed

lemma sint_fp_integer:
  "sint (fp_integer x) = sgn (sint x) * (\<bar>sint x\<bar> div 65536)"
proof (cases "sint x < 0")
  case True
  have b: "- 32768 \<le> sint x div 65536" "sint x div 65536 < 0"
    using True sint32_ge [of x] by linarith+
  then have "sint (signed_drop_bit 16 x + 1) = sint x div 65536 + 1"
    by (subst sint32_add) (simp_all add: sint_sshift16)
  with True show ?thesis
    using trunc_div_neg [OF True]
    by (simp add: fp_integer_def LOBITS_def and_lomask_eq_0 sint_sshift16)
next
  case False
  then show ?thesis
    by (cases "sint x = 0") (simp_all add: fp_integer_def LOBITS_def sint_sshift16)
qed

lemma abs_sint_fp_integer: "\<bar>sint (fp_integer x)\<bar> = \<bar>sint x\<bar> div 65536"
  by (cases "sint x = 0") (simp_all add: sint_fp_integer abs_mult pos_imp_zdiv_nonneg_iff)

lemma sint_fp_abs: "sint x \<noteq> - 2147483648 \<Longrightarrow> sint (fp_abs x) = \<bar>sint x\<bar>"
  by (simp add: fp_abs_def sint32_minus)

lemma uint_fp_abs: "uint (fp_abs x) = \<bar>sint x\<bar>"
  by (simp add: fp_abs_def uint_minus_mod uint32_nonneg)

lemma sint_fp_int_fix:
  assumes "- 32768 \<le> sint x" and "sint x < 32768"
  shows "sint (fp_int_fix x) = sint x * 65536"
proof (cases "sint x = - 32768")
  case True
  then have "of_int (sint x) = (of_int (- 32768) :: u32)" by simp
  then have "x = - 32768" by simp
  then show ?thesis by (simp add: fp_int_fix_def fp_abs_def LOBITS_def)
next
  case False
  with assms have a: "sint (fp_abs x) = \<bar>sint x\<bar>" by (simp add: sint_fp_abs)
  then have "sint (push_bit 16 (fp_abs x)) = \<bar>sint x\<bar> * 65536"
    using assms False by (subst sint_push16) auto
  then show ?thesis
    using assms by (simp add: fp_int_fix_def LOBITS_def sint32_minus Let_def)
qed

section \<open>Multiplication\<close>

lemma and_hi_mask_iff:
  "n < 32 \<Longrightarrow> (t :: u32) AND NOT (mask n) = 0 \<longleftrightarrow> uint t < 2 ^ n"
proof -
  assume "n < 32"
  have "t AND NOT (mask n) = 0 \<longleftrightarrow> take_bit n t = t"
    by (metis (no_types) and_zero_eq bit.conj_cancel_right bit.conj_disj_distrib bit.disj_cancel_right
        or.right_neutral take_bit_eq_mask word_bw_assocs(1) bit.conj_one_right)
  also have "\<dots> \<longleftrightarrow> uint t < 2 ^ n"
    using \<open>n < 32\<close>
    by (metis take_bit_eq_mask and_mask_lt_2p  word_uint_eq_iff unsigned_take_bit_eq take_bit_int_eq_self uint_ge_0)
  finally show ?thesis .
qed

lemma and_0xffff8000_iff: "(t :: u32) AND 0xffff8000 = 0 \<longleftrightarrow> uint t < 32768"
proof -
  have "(0xffff8000 :: u32) = NOT (mask 15)" by (simp add: mask_eq_exp_minus_1)
  then show ?thesis using and_hi_mask_iff [of 15 t] by simp
qed

lemma overflow_test: "signed_drop_bit LOBITS OVERFLOWMASK = 0xffff8000"
  by (simp add: LOBITS_def)

lemma not_masks: "NOT (HIMASK OR LOMASK) = 0"
  by code_simp

lemma and_signbit_iff: "(t :: u32) AND 0x80000000 = 0 \<longleftrightarrow> uint t < 2147483648"
proof -
  have "(0x80000000 :: u32) = NOT (mask 31)" by (simp add: mask_eq_exp_minus_1)
  then show ?thesis using and_hi_mask_iff [of 31 t] by simp
qed

lemma uint_hi: "uint (if sint x < 0 then - fp_integer x else fp_integer x) = \<bar>sint x\<bar> div 65536"
proof (cases "sint x < 0")
  case True
  then have neg: "sint (fp_integer x) = - (\<bar>sint x\<bar> div 65536)" by (simp add: sint_fp_integer)
  show ?thesis
  proof (cases "sint (fp_integer x) = 0")
    case True
    then show ?thesis using neg by (simp add: uint32_eq_sint eq_0_iff_sint [symmetric])
  next
    case False
    moreover have "0 \<le> \<bar>sint x\<bar> div 65536" by simp
    ultimately have "sint (fp_integer x) < 0" using neg by linarith
    then show ?thesis using True neg uint_minus_mod [of "fp_integer x"] by simp
  qed
next
  case False
  then have "sint (fp_integer x) = \<bar>sint x\<bar> div 65536"
    by (cases "sint x = 0") (simp_all add: sint_fp_integer)
  with False show ?thesis by (simp add: uint32_nonneg)
qed

lemma mult_split:
  fixes X Y :: int
  shows "X * Y div 65536 = 65536 * ((X div 65536) * (Y div 65536)) + (X div 65536) * (Y mod 65536)
     + (X mod 65536) * (Y div 65536) + (X mod 65536) * (Y mod 65536) div 65536"
proof -
  let ?a = "X div 65536" and ?b = "Y div 65536" and ?c = "X mod 65536" and ?d = "Y mod 65536"
  have "X * Y = (65536 * ?a + ?c) * (65536 * ?b + ?d)" by simp
  also have "\<dots> = 65536 * (65536 * (?a * ?b) + ?a * ?d + ?c * ?b) + ?c * ?d"
    by (simp only: algebra_simps)
  finally show ?thesis by (simp only: div_mult_self4 zero_neq_numeral not_False_eq_True) 
qed

lemma mult_bounds:
  fixes a b c d :: int
  assumes "0 \<le> a" "a \<le> 32768" "0 \<le> b" "b \<le> 32768" "0 \<le> c" "c < 65536" "0 \<le> d" "d < 65536"
    and "a * b < 32768"
  shows "65536 * (a * b) + a * d + c * b + c * d div 65536 < 4294967296"
proof -
  have "a * d \<le> a * 65535" "c * b \<le> 65535 * b"
    using assms by (simp_all add: mult_left_mono mult_right_mono)
  moreover have "c * d \<le> 65535 * 65535" using assms by (intro mult_mono) simp_all
  then have "c * d div 65536 \<le> 65535" by linarith
  moreover have "65536 * (a * b) + (a + b) * 65535 \<le> 4294901760"
  proof (cases "a = 0 \<or> b = 0")
    case True
    then show ?thesis using assms by auto
  next
    case False
    with assms have "0 \<le> (a - 1) * (b - 1)" by simp
    then have "a + b \<le> a * b + 1" by (simp add: algebra_simps)
    then show ?thesis using assms(9) by (simp add: distrib_right)
  qed
  ultimately show ?thesis by (simp add: algebra_simps)
qed

lemma uint_mult32: "uint a * uint b < 4294967296 \<Longrightarrow> uint (a * b :: u32) = uint a * uint b"
  by (simp add: uint_word_ariths)

lemma uint_mid_product:
  fixes a b :: u32
  assumes "uint a < 65536" and "uint b < 65536"
  shows "uint (drop_bit LOBITS (a * b) AND LOMASK) = uint a * uint b div 65536"
proof -
  have "uint a * uint b \<le> 65535 * 65535" using assms by (intro mult_mono) simp_all
  moreover from this have "uint a * uint b div 65536 < 65536" by linarith
  moreover have "0 \<le> uint a * uint b div 65536" by (simp add: pos_imp_zdiv_nonneg_iff)
  ultimately show ?thesis
    by (simp add: LOBITS_def and_lomask uint_drop16 uint_mult32)
qed

lemma uint_answer:
  fixes a b c d m :: u32
  assumes "65536 * (uint a * uint b) + uint a * uint d + uint c * uint b + uint m < 4294967296"
  shows "uint (push_bit LOBITS (a * b) + a * d + c * b + m)
       = 65536 * (uint a * uint b) + uint a * uint d + uint c * uint b + uint m"
proof -
  let ?k = "65536 * (uint a * uint b) + uint a * uint d + uint c * uint b + uint m"
  have "push_bit LOBITS (a * b) + a * d + c * b + m = word_of_int ?k"
    by (simp add: LOBITS_def push_bit_eq_mult)
  then have "uint (push_bit LOBITS (a * b) + a * d + c * b + m) = take_bit 32 ?k"
    by (simp only: uint_word_of_int_eq) (simp add: take_bit_eq_mod)
  also have "\<dots> = ?k" using assms by (simp add: take_bit_int_eq_self)
  finally show ?thesis .
qed

text \<open>
  \<open>fp_multiply\<close> against the integers: the product of the absolute values, truncated to the
  last place, with the sign of the product; or an error when it does not fit 31 bits.
\<close>

definition mag_product :: "fixpoint \<Rightarrow> fixpoint \<Rightarrow> int" where
  "mag_product x y = \<bar>sint x\<bar> * \<bar>sint y\<bar> div 65536"

lemma mag_product_nonneg [simp]: "0 \<le> mag_product x y"
  by (simp add: mag_product_def pos_imp_zdiv_nonneg_iff)

lemma mag_product_zero: "sint x = 0 \<or> sint y = 0 \<Longrightarrow> mag_product x y = 0"
  by (auto simp: mag_product_def)

lemma fp_multiply_err_eq:
  "fp_multiply_err x y =
     (let hh = (\<bar>sint x\<bar> div 65536) * (\<bar>sint y\<bar> div 65536)
      in if 32768 \<le> hh then (0x44, -1)
         else if 2147483648 \<le> mag_product x y then (2, -3)
         else (word_of_int (sgn (sint x * sint y) * mag_product x y), 0))"
proof -
  define xhi where "xhi = (if sint x < 0 then - fp_integer x else fp_integer x)"
  define yhi where "yhi = (if sint y < 0 then - fp_integer y else fp_integer y)"
  define xlo where "xlo = fp_fraction x"
  define ylo where "ylo = fp_fraction y"
  define ans where "ans = push_bit LOBITS (xhi * yhi) + xhi * ylo + xlo * yhi
                         + (drop_bit LOBITS (xlo * ylo) AND LOMASK)"
  have u: "uint xhi = \<bar>sint x\<bar> div 65536" "uint yhi = \<bar>sint y\<bar> div 65536"
    "uint xlo = \<bar>sint x\<bar> mod 65536" "uint ylo = \<bar>sint y\<bar> mod 65536"
    unfolding xhi_def yhi_def xlo_def ylo_def by (simp_all only: uint_hi uint_abs_fraction)
  have hb: "uint xhi \<le> 32768" "uint yhi \<le> 32768"
    using sint32_ge [of x] sint32_lt [of x] sint32_ge [of y] sint32_lt [of y] unfolding u by linarith+
  have lb: "uint xlo < 65536" "uint ylo < 65536" unfolding u by simp_all
  have "uint xhi * uint yhi \<le> 32768 * 32768" using hb by (intro mult_mono) simp_all
  then have hh: "uint (xhi * yhi) = uint xhi * uint yhi" by (simp add: uint_mult32)
  have test1: "(xhi * yhi) AND signed_drop_bit LOBITS OVERFLOWMASK = 0
      \<longleftrightarrow> uint xhi * uint yhi < 32768"
    by (simp only: overflow_test and_0xffff8000_iff hh)
  have low: "drop_bit LOBITS xlo = 0"
    using lb by (simp add: LOBITS_def word_uint_eq_iff uint_drop16)
  have ans: "uint ans = mag_product x y" "mag_product x y < 4294967296" if "uint xhi * uint yhi < 32768"
  proof -
    have P: "mag_product x y = 65536 * (uint xhi * uint yhi) + uint xhi * uint ylo + uint xlo * uint yhi
        + uint xlo * uint ylo div 65536"
      unfolding mag_product_def u by (rule mult_split)
    have "65536 * (uint xhi * uint yhi) + uint xhi * uint ylo + uint xlo * uint yhi
        + uint xlo * uint ylo div 65536 < 4294967296"
      using hb lb that by (intro mult_bounds) simp_all
    then show "uint ans = mag_product x y" "mag_product x y < 4294967296"
      using uint_answer [of xhi yhi ylo xlo "drop_bit LOBITS (xlo * ylo) AND LOMASK"]
      unfolding ans_def P uint_mid_product [OF lb] by simp_all
  qed
  have "fp_multiply_err x y =
     (if xhi * yhi AND signed_drop_bit LOBITS OVERFLOWMASK \<noteq> 0 then (0x44, -1)
      else if ans AND NOT (HIMASK OR LOMASK) \<noteq> 0 then (1, -2)
      else if ans AND SIGNBIT \<noteq> 0 then (2, -3)
      else if drop_bit LOBITS xlo \<noteq> 0 \<and> drop_bit LOBITS ylo \<noteq> 0 then (3, -4)
      else ((if (sint x < 0 \<and> 0 < sint y) \<or> (0 < sint x \<and> sint y < 0) then - ans else ans), 0))"
    unfolding fp_multiply_err_def ans_def xhi_def yhi_def xlo_def ylo_def Let_def slt_0_iff sgt_0_iff ..
  also have "\<dots> = (if 32768 \<le> uint xhi * uint yhi then (0x44, -1)
         else if 2147483648 \<le> mag_product x y then (2, -3)
         else (word_of_int (sgn (sint x * sint y) * mag_product x y), 0))"
  proof (cases "uint xhi * uint yhi < 32768")
    case True
    have "word_of_int (uint ans) = ans" by simp
    then have "word_of_int (mag_product x y) = ans" by (simp only: ans(1) [OF True])
    then have "(if (sint x < 0 \<and> 0 < sint y) \<or> (0 < sint x \<and> sint y < 0) then - ans else ans)
       = word_of_int (sgn (sint x * sint y) * mag_product x y)"
      using mag_product_zero [of x y] unfolding sgn_mult by (auto simp: sgn_if)
    moreover have "ans AND SIGNBIT = 0 \<longleftrightarrow> mag_product x y < 2147483648"
      by (simp add: and_signbit_iff ans(1) [OF True])
    ultimately show ?thesis
      using True by (simp only: test1 low not_masks and_zero_eq if_False) auto
  next
    case False
    then show ?thesis by (simp only: test1) auto
  qed
  finally show ?thesis by (simp add: u Let_def)
qed

lemma hh_overflows:
  fixes X Y :: int
  assumes "0 \<le> X" "0 \<le> Y" "32768 \<le> (X div 65536) * (Y div 65536)"
  shows "2147483648 \<le> X * Y div 65536"
proof -
  have "0 \<le> (X div 65536) * (Y mod 65536)" "0 \<le> (X mod 65536) * (Y div 65536)"
    "0 \<le> (X mod 65536) * (Y mod 65536) div 65536"
    using assms by (simp_all add: pos_imp_zdiv_nonneg_iff)
  then show ?thesis using assms(3) mult_split [of X Y] by linarith
qed

lemma sgn_times_range:
  fixes m v :: int
  assumes "0 \<le> m" and "m < 2147483648"
  shows "- 2147483648 \<le> sgn v * m" and "sgn v * m < 2147483648"
  using assms by (simp_all add: sgn_if)

lemma fp_multiply_ok:
  assumes "mag_product x y < 2147483648"
  shows "sint (fp_multiply x y) = sgn (sint x * sint y) * mag_product x y"
    and "snd (fp_multiply_err x y) = 0"
proof -
  have "\<not> 32768 \<le> (\<bar>sint x\<bar> div 65536) * (\<bar>sint y\<bar> div 65536)"
    using hh_overflows [of "\<bar>sint x\<bar>" "\<bar>sint y\<bar>"] assms by (auto simp: mag_product_def)
  then have eq: "fp_multiply_err x y = (word_of_int (sgn (sint x * sint y) * mag_product x y), 0)"
    using assms by (simp add: fp_multiply_err_eq Let_def)
  show "snd (fp_multiply_err x y) = 0" by (simp add: eq)
  show "sint (fp_multiply x y) = sgn (sint x * sint y) * mag_product x y"
    unfolding fp_multiply_def eq fst_conv
    using sgn_times_range [OF mag_product_nonneg assms] by (intro sint32_word_of_int) simp_all
qed

text \<open>The same as a function on integers, which evaluates faster.\<close>

fun int_product :: "int \<Rightarrow> int \<Rightarrow> fixpoint" where
  "int_product a b =
     (if 32768 \<le> (\<bar>a\<bar> div 65536) * (\<bar>b\<bar> div 65536) then 0x44
      else if 2147483648 \<le> \<bar>a\<bar> * \<bar>b\<bar> div 65536 then 2
      else word_of_int (sgn (a * b) * (\<bar>a\<bar> * \<bar>b\<bar> div 65536)))"

lemma fp_multiply_code [code]: "fp_multiply x y = int_product (sint x) (sint y)"
  unfolding fp_multiply_def fp_multiply_err_eq by (simp add: Let_def mag_product_def)

lemma fp_multiply_overflow:
  assumes "2147483648 \<le> mag_product x y"
  shows "fp_multiply_err x y \<in> {(0x44, -1), (2, -3)}"
  using assms by (simp add: fp_multiply_err_eq Let_def)

section \<open>Division\<close>

lemma fp_multiply_int:
  assumes "0 \<le> sint n" "sint n < 32768" "0 \<le> sint c" "sint n * sint c < 2147483648"
  shows "sint (fp_multiply (fp_int_fix n) c) = sint n * sint c"
proof -
  have n: "sint (fp_int_fix n) = sint n * 65536" using assms by (simp add: sint_fp_int_fix)
  have "sint n * 65536 * sint c = (sint n * sint c) * 65536" by simp
  then have mag: "mag_product (fp_int_fix n) c = sint n * sint c"
    using assms(1,3) by (simp add: mag_product_def n)
  then show ?thesis
    using fp_multiply_ok(1) [of "fp_int_fix n" c] assms(1,3,4)
    by (cases "sint n = 0 \<or> sint c = 0") (auto simp: n sgn_mult)
qed

lemma fp_multiply_comm: "fp_multiply x y = fp_multiply y x"
  by (simp add: fp_multiply_def fp_multiply_err_eq mag_product_def mult.commute)

lemma sint_ten: "sint (10 :: u32) = 10"
  by simp

lemma int_div_less:
  fixes a y n :: int
  assumes "0 < y" and "a < n * y"
  shows "a div y < n"
proof -
  have "a div y \<le> (n * y - 1) div y" using assms by (intro zdiv_mono1) simp_all
  also have "\<dots> = n + (- 1) div y" using assms div_mult_self3 [of y n "- 1"] by simp
  also have "\<dots> < n" using assms by (simp add: pos_imp_zdiv_neg_iff)
  finally show ?thesis .
qed

lemma digit_step:
  assumes "0 \<le> sint r" "sint r < sint y" "10 * sint y \<le> 2147483648"
  shows "sint (fp_multiply r (fp_int_fix 10)) = 10 * sint r"
    and "sint (c_sdiv (fp_multiply r (fp_int_fix 10)) y) = (10 * sint r) div sint y"
    and "sint (c_smod (fp_multiply r (fp_int_fix 10)) y) = (10 * sint r) mod sint y"
    and "sint (fp_fraction (c_sdiv (fp_multiply r (fp_int_fix 10)) y)) = (10 * sint r) div sint y"
proof -
  show ten: "sint (fp_multiply r (fp_int_fix 10)) = 10 * sint r"
    using fp_multiply_int [of 10 r] assms by (simp add: fp_multiply_comm)
  show dv: "sint (c_sdiv (fp_multiply r (fp_int_fix 10)) y) = (10 * sint r) div sint y"
    using assms by (simp add: sint32_sdiv_nonneg ten)
  show "sint (c_smod (fp_multiply r (fp_int_fix 10)) y) = (10 * sint r) mod sint y"
    using assms by (simp add: sint32_smod_nonneg ten)
  have "0 \<le> (10 * sint r) div sint y" "(10 * sint r) div sint y < 10"
    using assms by (simp_all add: pos_imp_zdiv_nonneg_iff int_div_less)
  then show "sint (fp_fraction (c_sdiv (fp_multiply r (fp_int_fix 10)) y)) = (10 * sint r) div sint y"
    by (simp add: sint_fp_fraction dv)
qed

lemma sint_digit_acc:
  "0 \<le> sint a \<Longrightarrow> sint a < 1000 \<Longrightarrow> 0 \<le> sint d \<Longrightarrow> sint d < 10 \<Longrightarrow>
   sint (10 * a + d :: u32) = 10 * sint a + sint d"
  by (simp add: sint32_add sint32_mult)

text \<open>What the digit loop leaves after \<open>k\<close> rounds: the first \<open>k\<close> decimal digits of
  \<open>r / y\<close>, with the remainder not lost.\<close>

definition digits_inv :: "int \<Rightarrow> int \<Rightarrow> nat \<Rightarrow> u32 \<Rightarrow> int \<Rightarrow> bool" where
  "digits_inv r y k ret rk \<longleftrightarrow>
     0 \<le> sint ret \<and> sint ret < 10 ^ k \<and> 10 ^ k * r = sint ret * y + rk \<and> 0 \<le> rk \<and> rk < y"

lemma digits_inv_step:
  assumes inv: "digits_inv r (sint y) k ret (sint rk)" and "10 * sint y \<le> 2147483648" and "k < 3"
  shows "digits_inv r (sint y) (Suc k)
           (10 * ret + fp_fraction (c_sdiv (fp_multiply rk (fp_int_fix 10)) y))
           (sint (c_smod (fp_multiply rk (fp_int_fix 10)) y))"
proof -
  let ?d = "(10 * sint rk) div sint y"
  have rk: "0 \<le> sint rk" "sint rk < sint y" and y: "0 < sint y"
    using inv by (auto simp: digits_inv_def)
  have d: "0 \<le> ?d" "?d < 10"
    using rk y by (simp_all add: pos_imp_zdiv_nonneg_iff int_div_less)
  have "(10::int) ^ k \<le> 10 ^ 2" using \<open>k < 3\<close> by (intro power_increasing) simp_all
  then have small: "0 \<le> sint ret" "sint ret < 1000" using inv by (auto simp: digits_inv_def)
  have ret: "sint (10 * ret + fp_fraction (c_sdiv (fp_multiply rk (fp_int_fix 10)) y)) = 10 * sint ret + ?d"
    using small d digit_step(4) [OF rk assms(2)] by (subst sint_digit_acc) simp_all
  have "10 * sint rk = ?d * sint y + (10 * sint rk) mod sint y" by simp
  moreover have "10 ^ Suc k * r = 10 * (sint ret * sint y) + 10 * sint rk"
    using inv by (simp add: digits_inv_def)
  ultimately have "10 ^ Suc k * r = (10 * sint ret + ?d) * sint y + (10 * sint rk) mod sint y"
    by (simp add: algebra_simps)
  then show ?thesis
    using inv d y unfolding digits_inv_def ret digit_step(3) [OF rk assms(2)] by simp
qed

declare fp_digits.simps [simp del]

lemma fp_digits_stop: "3 < i \<or> r = 0 \<Longrightarrow> fp_digits i ret ans r y = (i, ret, ans)"
  by (subst fp_digits.simps) auto

lemma fp_digits_continue:
  "i \<le> 3 \<Longrightarrow> r \<noteq> 0 \<Longrightarrow> fp_digits i ret ans r y =
     (let tmp = fp_multiply r (fp_int_fix 10); ans = c_sdiv tmp y
      in fp_digits (Suc i) (10 * ret + fp_fraction ans) ans (c_smod tmp y) y)"
  by (subst fp_digits.simps) simp

text \<open>The loop ends after one to three rounds with the digits it has read: all of them, if the
  quotient has no more, or three.\<close>

lemma fp_digits_result:
  assumes "digits_inv r (sint y) k ret (sint rk)" and "k \<le> 3" and "10 * sint y \<le> 2147483648"
  shows "\<exists>j ret' ans' r'. fp_digits (Suc k) ret ans rk y = (Suc j, ret', ans') \<and> k \<le> j \<and> j \<le> 3
     \<and> digits_inv r (sint y) j ret' r' \<and> (j < 3 \<longrightarrow> r' = 0)"
  using assms
proof (induction "3 - k" arbitrary: k ret ans rk)
  case 0
  then show ?case
    by (intro exI [of _ k] exI [of _ ret] exI [of _ ans] exI [of _ "sint rk"])
       (simp add: fp_digits_stop)
next
  case (Suc n)
  then have k: "k < 3" "n = 3 - Suc k" by simp_all
  show ?case
  proof (cases "rk = 0")
    case True
    then show ?thesis
      using Suc.prems by (intro exI [of _ k] exI [of _ ret] exI [of _ ans] exI [of _ 0])
        (simp add: fp_digits_stop)
  next
    case False
    let ?tmp = "fp_multiply rk (fp_int_fix 10)"
    have "digits_inv r (sint y) (Suc k) (10 * ret + fp_fraction (c_sdiv ?tmp y)) (sint (c_smod ?tmp y))"
      using Suc.prems k(1) by (intro digits_inv_step) simp_all
    from Suc.hyps(1) [OF k(2) this, of "c_sdiv ?tmp y"] k(1) Suc.prems(3) False
    show ?thesis by (auto simp: fp_digits_continue Let_def dest: Suc_leD)
  qed
qed

lemma fp_ten_values: "sint fp_ten_1 = 6553" "sint fp_ten_2 = 655" "sint fp_ten_3 = 65"
  by (simp_all add: fp_ten_1_def fp_ten_2_def fp_ten_3_def)

lemma fraction_bound_arith:
  fixes r y ret rk f :: int
  assumes y: "0 < y" and ret: "0 \<le> ret" and rk: "0 \<le> rk" "rk < y"
  shows "10 * r = ret * y + rk \<Longrightarrow> rk = 0 \<Longrightarrow> ret < 10 \<Longrightarrow> f = ret * 6553 \<Longrightarrow>
           y * f \<le> r * 65536 \<and> r * 65536 < y * (f + 602)"
    and "100 * r = ret * y + rk \<Longrightarrow> rk = 0 \<Longrightarrow> ret < 100 \<Longrightarrow> f = ret * 655 \<Longrightarrow>
           y * f \<le> r * 65536 \<and> r * 65536 < y * (f + 602)"
    and "1000 * r = ret * y + rk \<Longrightarrow> ret < 1000 \<Longrightarrow> f = ret * 65 \<Longrightarrow>
           y * f \<le> r * 65536 \<and> r * 65536 < y * (f + 602)"
proof -
  have le: "ret * y \<le> n * y" if "ret \<le> n" for n using that y by (simp add: mult_right_mono)
  have nn: "0 \<le> ret * y" using y ret by simp
  have dist: "y * (f + 602) = y * f + 602 * y" by (simp add: algebra_simps)
  { assume a: "10 * r = ret * y + rk" "rk = 0" "ret < 10" "f = ret * 6553"
    have "y * f = 6553 * (ret * y)" using a(4) by simp
    with a(1,2) le [of 9] a(3) nn y dist
    show "y * f \<le> r * 65536 \<and> r * 65536 < y * (f + 602)" by linarith }
  { assume a: "100 * r = ret * y + rk" "rk = 0" "ret < 100" "f = ret * 655"
    have "y * f = 655 * (ret * y)" using a(4) by simp
    with a(1,2) le [of 99] a(3) nn y dist
    show "y * f \<le> r * 65536 \<and> r * 65536 < y * (f + 602)" by linarith }
  { assume a: "1000 * r = ret * y + rk" "ret < 1000" "f = ret * 65"
    have "y * f = 65 * (ret * y)" using a(3) by simp
    with a(1,2) le [of 999] nn y rk dist
    show "y * f \<le> r * 65536 \<and> r * 65536 < y * (f + 602)" by linarith }
qed

lemma fp_div_fractionpart_bounds:
  assumes r: "0 < sint r" "sint r < sint y" and y: "10 * sint y \<le> 2147483648"
  shows "0 \<le> sint (fp_div_fractionpart r y)" and "sint (fp_div_fractionpart r y) < 65536"
    and "sint y * sint (fp_div_fractionpart r y) \<le> sint r * 65536"
    and "sint r * 65536 < sint y * (sint (fp_div_fractionpart r y) + 602)"
proof -
  have "digits_inv (sint r) (sint y) 0 0 (sint r)" using r by (simp add: digits_inv_def)
  from fp_digits_result [OF this _ y, of 0]
  obtain j ret ans r' where dg: "fp_digits (Suc 0) 0 0 r y = (Suc j, ret, ans)" "j \<le> 3"
    and inv: "digits_inv (sint r) (sint y) j ret r'" and stop: "j < 3 \<longrightarrow> r' = 0" by auto
  have "j \<noteq> 0"
  proof
    assume "j = 0"
    with inv have "sint ret = 0" by (simp add: digits_inv_def)
    with \<open>j = 0\<close> inv stop r show False by (simp add: digits_inv_def)
  qed
  with \<open>j \<le> 3\<close> have j: "j = 1 \<or> j = 2 \<or> j = 3" by linarith
  have y0: "0 < sint y" and ret: "0 \<le> sint ret" "sint ret < 10 ^ j" and r': "0 \<le> r'" "r' < sint y"
    using r inv by (auto simp: digits_inv_def)
  note arith = fraction_bound_arith [OF y0 ret(1) r']
  let ?f = "sint (fp_div_fractionpart r y)"
  have "(0 \<le> ?f \<and> ?f < 65536) \<and> sint y * ?f \<le> sint r * 65536 \<and> sint r * 65536 < sint y * (?f + 602)"
    using j
  proof (elim disjE)
    assume "j = 1"
    then have "?f = sint ret * 6553"
      using ret by (simp add: fp_div_fractionpart_def dg fp_multiply_int fp_ten_values)
    with arith(1) inv stop \<open>j = 1\<close> ret show ?thesis by (simp add: digits_inv_def)
  next
    assume "j = 2"
    then have "?f = sint ret * 655"
      using ret by (simp add: fp_div_fractionpart_def dg fp_multiply_int fp_ten_values)
    with arith(2) inv stop \<open>j = 2\<close> ret show ?thesis by (simp add: digits_inv_def)
  next
    assume "j = 3"
    then have "?f = sint ret * 65"
      using ret by (simp add: fp_div_fractionpart_def dg fp_multiply_int fp_ten_values)
    with arith(3) inv \<open>j = 3\<close> ret show ?thesis by (simp add: digits_inv_def)
  qed
  then show "0 \<le> ?f" "?f < 65536" "sint y * ?f \<le> sint r * 65536"
    "sint r * 65536 < sint y * (?f + 602)" by blast+
qed

lemma or_high_low:
  fixes q f :: u32
  assumes "uint f < 65536"
  shows "push_bit 16 q OR f = push_bit 16 q + f"
proof -
  have "take_bit 16 f = f"
    using assms by (simp add: word_uint_eq_iff unsigned_take_bit_eq take_bit_int_eq_self)
  then have "\<not> bit f n" if "16 \<le> n" for n
    using that by (metis bit_take_bit_iff not_less)
  then have "\<not> bit (push_bit 16 q) n \<or> \<not> bit f n" for n
    by (cases "16 \<le> n") (auto simp: bit_push_bit_iff)
  then show ?thesis by (rule disjunctive_add [symmetric])
qed

text \<open>The magnitude \<open>fp_div\<close> computes before it applies the sign.\<close>

definition fp_div_mag :: "fixpoint \<Rightarrow> fixpoint \<Rightarrow> fixpoint" where
  "fp_div_mag a b =
     (let tmp = push_bit LOBITS (c_sdiv a b); remainder = c_smod a b
      in if remainder \<noteq> 0 then tmp OR fp_div_fractionpart remainder b else tmp)"

lemma fp_div_mag_bounds:
  assumes a: "0 \<le> sint a" and b: "0 < sint b" "10 * sint b \<le> 2147483648"
    and q: "sint a div sint b < 32768"
  shows "0 \<le> sint (fp_div_mag a b)"
    and "sint b * sint (fp_div_mag a b) \<le> sint a * 65536"
    and "sint a * 65536 < sint b * (sint (fp_div_mag a b) + 602)"
proof -
  let ?q = "sint a div sint b" and ?r = "sint a mod sint b"
  have q0: "0 \<le> ?q" using a b by (simp add: pos_imp_zdiv_nonneg_iff)
  have sq: "sint (c_sdiv a b) = ?q" and sr: "sint (c_smod a b) = ?r"
    using a b by (simp_all add: sint32_sdiv_nonneg sint32_smod_nonneg)
  have tmp: "sint (push_bit LOBITS (c_sdiv a b)) = ?q * 65536"
    using q q0 by (simp add: LOBITS_def sint_push16 sq)
  have qr: "sint a * 65536 = sint b * (?q * 65536) + ?r * 65536"
  proof -
    have "sint a * 65536 = (sint b * ?q + ?r) * 65536" by (simp only: mult_div_mod_eq)
    then show ?thesis by (simp only: distrib_right mult.assoc)
  qed
  have "0 \<le> sint (fp_div_mag a b) \<and> sint b * sint (fp_div_mag a b) \<le> sint a * 65536 \<and>
     sint a * 65536 < sint b * (sint (fp_div_mag a b) + 602)"
  proof (cases "c_smod a b = 0")
    case True
    then have "?r = 0" using sr by simp
    then show ?thesis using True q0 qr b by (simp add: fp_div_mag_def tmp distrib_left)
  next
    case False
    let ?f = "fp_div_fractionpart (c_smod a b) b"
    have "?r \<noteq> 0" using False sr by (simp add: eq_0_iff_sint)
    moreover have "0 \<le> ?r" using b(1) by simp
    ultimately have "0 < ?r" by linarith
    moreover have "?r < sint b" using b(1) by simp
    ultimately have r: "0 < ?r" "?r < sint b" .
    note f = fp_div_fractionpart_bounds [of "c_smod a b" b, unfolded sr, OF r b(2)]
    have "uint ?f < 65536" using f(1,2) by (simp add: uint32_nonneg)
    then have "fp_div_mag a b = push_bit LOBITS (c_sdiv a b) + ?f"
      using False by (simp add: fp_div_mag_def LOBITS_def or_high_low)
    then have m: "sint (fp_div_mag a b) = ?q * 65536 + sint ?f"
      using tmp f(1,2) q q0 by (simp add: sint32_add)
    show ?thesis
      unfolding m qr using f q0 by (simp add: distrib_left)
  qed
  then show "0 \<le> sint (fp_div_mag a b)" "sint b * sint (fp_div_mag a b) \<le> sint a * 65536"
    "sint a * 65536 < sint b * (sint (fp_div_mag a b) + 602)" by blast+
qed

lemma fp_div_eq:
  "fp_div x y =
     (if y = 0 then 0
      else if (sint x < 0 \<and> 0 < sint y) \<or> (0 < sint x \<and> sint y < 0) then - fp_div_mag (fp_abs x) (fp_abs y)
      else fp_div_mag (fp_abs x) (fp_abs y))"
proof -
  have "fp_int_fix 0 = 0" by (simp add: fp_int_fix_def fp_abs_def)
  moreover have "fp_abs y = 0 \<longleftrightarrow> y = 0" by (simp add: fp_abs_def)
  ultimately show ?thesis by (simp add: fp_div_def fp_div_mag_def Let_def)
qed

lemma fp_div_zero: "fp_div x 0 = 0"
  by (simp add: fp_div_eq)

lemma fp_div_value:
  assumes y: "sint y \<noteq> 0" "10 * \<bar>sint y\<bar> \<le> 2147483648" and x: "\<bar>sint x\<bar> < 2147483648"
    and q: "\<bar>sint x\<bar> div \<bar>sint y\<bar> < 32768"
  shows "\<exists>m\<ge>0. sint (fp_div x y) = sgn (sint x) * sgn (sint y) * m \<and>
     \<bar>sint y\<bar> * m \<le> \<bar>sint x\<bar> * 65536 \<and> \<bar>sint x\<bar> * 65536 < \<bar>sint y\<bar> * (m + 602)"
proof -
  let ?m = "sint (fp_div_mag (fp_abs x) (fp_abs y))"
  have ax: "sint (fp_abs x) = \<bar>sint x\<bar>" and ay: "sint (fp_abs y) = \<bar>sint y\<bar>"
    using x y by (auto intro!: sint_fp_abs)
  note b = fp_div_mag_bounds [of "fp_abs x" "fp_abs y", unfolded ax ay]
  have m: "0 \<le> ?m" "\<bar>sint y\<bar> * ?m \<le> \<bar>sint x\<bar> * 65536" "\<bar>sint x\<bar> * 65536 < \<bar>sint y\<bar> * (?m + 602)"
    using b y q by simp_all
  have yz: "y \<noteq> 0" using y by (simp add: eq_0_iff_sint)
  have "sint (fp_div x y) = sgn (sint x) * sgn (sint y) * ?m"
  proof (cases "sint x = 0")
    case True
    then have "?m = 0"
      using m(1,2) y by (auto simp: mult_le_0_iff)
    with True yz show ?thesis by (simp add: fp_div_eq eq_0_iff_sint [symmetric])
  next
    case False
    with y yz m(1) show ?thesis
      by (auto simp: fp_div_eq sgn_if sint32_minus)
  qed
  with m show ?thesis by blast
qed

section \<open>Floor, floor division, square root\<close>

lemma sint_fp_floor: "sint (fp_floor x) = 65536 * (sint x div 65536)"
proof -
  have m: "(0xffff0000 :: u32) = NOT (mask 16)" by (simp add: mask_eq_exp_minus_1)
  have "fp_floor x = push_bit 16 (signed_drop_bit 16 x)"
    unfolding fp_floor_def HIMASK_value m
    by (rule bit_word_eqI) (auto simp: bit_simps)
  moreover have "- 32768 \<le> sint x div 65536" "sint x div 65536 < 32768"
    using sint32_ge [of x] sint32_lt [of x] by linarith+
  ultimately show ?thesis by (simp add: sint_push16 sint_sshift16)
qed

lemma sint_mod_zero_iff: "0 < sint y \<Longrightarrow> c_smod x y = (0 :: u32) \<longleftrightarrow> sint x mod sint y = 0"
  unfolding c_smod_def eq_0_iff_sint
proof -
  assume y: "0 < sint y"
  have eq: "sint x smod sint y = sgn (sint x) * (\<bar>sint x\<bar> mod sint y)"
    using y by (simp add: smod_int_alt_def)
  have b: "0 \<le> \<bar>sint x\<bar> mod sint y" "\<bar>sint x\<bar> mod sint y < sint y" using y by simp_all
  have "sint (word_of_int (sint x smod sint y) :: u32) = sint x smod sint y"
    unfolding eq using sgn_times_range [OF b(1)] b(2) sint32_lt [of y]
    by (intro sint32_word_of_int) simp_all
  moreover have "sint x mod sint y \<noteq> sint y" using pos_mod_bound [OF y, of "sint x"] by linarith
  ultimately show "sint (word_of_int (sint x smod sint y) :: u32) = 0 \<longleftrightarrow> sint x mod sint y = 0"
    unfolding eq
    by (cases "sint x = 0") (auto simp: abs_if zmod_zminus1_eq_if split: if_splits)
qed

lemma fp_floor_div_value:
  assumes y: "0 < sint y" and q: "- 32768 \<le> sint x div sint y" "sint x div sint y < 32768"
  shows "sint (fp_floor_div x y) = 65536 * (sint x div sint y)"
proof -
  have nz: "y \<noteq> 0" "\<not> sint y < 0" using y by (auto simp: eq_0_iff_sint)
  show ?thesis
  proof (cases "0 \<le> sint x")
    case True
    then have "sint (c_sdiv x y) = sint x div sint y" using y by (simp add: sint32_sdiv_nonneg)
    with True nz q show ?thesis by (simp add: fp_floor_div_def LOBITS_def sint_push16)
  next
    case False
    then have d: "sint (c_sdiv x y) = - (- sint x div sint y)" using y by (simp add: sint32_sdiv)
    have "sint (c_sdiv x y + (if c_smod x y = 0 then 0 else -1)) = sint x div sint y"
      using y q by (auto simp: sint_mod_zero_iff sint32_add d zdiv_zminus1_eq_if sint_n1)
    with False nz q show ?thesis by (simp add: fp_floor_div_def LOBITS_def sint_push16 Let_def)
  qed
qed

lemma int_sqrt_loop_correct:
  assumes "0 \<le> sint x" "sint x < 2147395600" "0 < sint s" "sint s \<le> 46340"
    and "(sint s - 1) * (sint s - 1) \<le> sint x"
  shows "\<exists>r. int_sqrt_loop x s = Some r \<and> 0 \<le> sint r \<and> sint r * sint r \<le> sint x
           \<and> sint x < (sint r + 1) * (sint r + 1)"
  using assms
proof (induction "nat (46340 - sint s)" arbitrary: s rule: less_induct)
  case less
  have "sint s * sint s \<le> 46340 * 46340" using less.prems by (intro mult_mono) simp_all
  moreover have "0 \<le> sint s * sint s" by (rule zero_le_square)
  ultimately have sq: "sint (s * s) = sint s * sint s" by (intro sint32_mult) linarith+
  show ?case
  proof (cases "s * s = x")
    case True
    then show ?thesis
      using less.prems sq by (simp add: int_sqrt_loop.simps algebra_simps)
  next
    case neq: False
    show ?thesis
    proof (cases "x <s s * s")
      case True
      then show ?thesis
        using less.prems neq sq
        by (simp add: int_sqrt_loop.simps [of x s] word_sless_alt sint32_sub)
    next
      case False
      then have lt: "sint s * sint s < sint x"
        using neq sq by (metis linorder_neqE_linordered_idom signed_word_eqI word_sless_alt)
      have "sint s \<noteq> 46340" using lt less.prems by auto
      then have s1: "sint (s + 1) = sint s + 1" "sint s < 46340"
        using less.prems by (simp_all add: sint32_add)
      have "\<exists>r. int_sqrt_loop x (s + 1) = Some r \<and> 0 \<le> sint r \<and> sint r * sint r \<le> sint x
           \<and> sint x < (sint r + 1) * (sint r + 1)"
        using less.prems lt s1 by (intro less.hyps) simp_all
      then show ?thesis using neq False by (simp add: int_sqrt_loop.simps [of x s])
    qed
  qed
qed

lemma int_sqrt_correct:
  assumes "0 \<le> sint x" and "sint x < 2147395600"
  shows "\<exists>r. int_sqrt x = Some r \<and> 0 \<le> sint r \<and> sint r * sint r \<le> sint x
           \<and> sint x < (sint r + 1) * (sint r + 1)"
proof (cases "x = 0")
  case True
  then show ?thesis by (simp add: int_sqrt_def)
next
  case False
  have "\<exists>r. int_sqrt_loop x 1 = Some r \<and> 0 \<le> sint r \<and> sint r * sint r \<le> sint x
           \<and> sint x < (sint r + 1) * (sint r + 1)"
    using assms by (intro int_sqrt_loop_correct) simp_all
  with False show ?thesis by (simp add: int_sqrt_def)
qed

lemma int_sqrt_negative: "sint x < 0 \<Longrightarrow> int_sqrt x = Some 0"
  by (auto simp: int_sqrt_def int_sqrt_loop.simps [of x 1] word_sless_alt)

lemma fp_integer_range: "- 32768 \<le> sint (fp_integer x)" "sint (fp_integer x) < 32768"
proof -
  have "\<bar>sint x\<bar> div 65536 \<le> 32768" "0 \<le> \<bar>sint x\<bar> div 65536"
    using sint32_ge [of x] sint32_lt [of x] by linarith+
  moreover have "\<bar>sint x\<bar> div 65536 < 32768" if "0 < sint x"
    using that sint32_lt [of x] by linarith
  ultimately show "- 32768 \<le> sint (fp_integer x)" "sint (fp_integer x) < 32768"
    by (auto simp: sint_fp_integer sgn_if)
qed

lemma fp_sqrt_nonneg:
  assumes "0 \<le> sint x"
  shows "\<exists>r. fp_sqrt x = Some r \<and> 0 \<le> sint r \<and>
     (sint r div 65536) * (sint r div 65536) \<le> sint x div 65536 \<and>
     sint x div 65536 < (sint r div 65536 + 1) * (sint r div 65536 + 1) \<and>
     sint r mod 65536 = sint x mod 65536"
proof -
  let ?i = "fp_integer x"
  have i: "sint ?i = sint x div 65536" using assms by (cases "sint x = 0") (simp_all add: sint_fp_integer)
  have ir: "0 \<le> sint ?i" "sint ?i < 32768"
    using assms fp_integer_range(2) [of x] by (simp_all add: i pos_imp_zdiv_nonneg_iff)
  then obtain s where s: "int_sqrt ?i = Some s" "0 \<le> sint s" "sint s * sint s \<le> sint ?i"
      "sint ?i < (sint s + 1) * (sint s + 1)"
    using int_sqrt_correct [of ?i] by auto
  have "sint s < 182"
  proof (rule ccontr)
    assume "\<not> sint s < 182"
    then have "182 * 182 \<le> sint s * sint s" by (intro mult_mono) simp_all
    then show False using s(3) ir(2) by linarith
  qed
  then have hi: "sint (push_bit 16 s) = sint s * 65536" using s(2) by (simp add: sint_push16)
  have fr: "sint (fp_fraction x) = sint x mod 65536" using assms by (simp add: sint_fp_fraction)
  then have "uint (fp_fraction x) < 65536" by (simp add: uint32_nonneg)
  then have r: "fp_sqrt x = Some (push_bit 16 s + fp_fraction x)"
    by (simp add: fp_sqrt_def s(1) HIBITS_def or_high_low)
  have m: "0 \<le> sint x mod 65536" "sint x mod 65536 < 65536" by simp_all
  have v: "sint (push_bit 16 s + fp_fraction x) = sint s * 65536 + sint x mod 65536"
    using hi fr s(2) \<open>sint s < 182\<close> m by (subst sint32_add) simp_all
  show ?thesis
    using r v s(2,3,4) i m by (intro exI [of _ "push_bit 16 s + fp_fraction x"]) simp
qed

lemma fp_sqrt_negative: "sint x \<le> - 65536 \<Longrightarrow> fp_sqrt x = Some (fp_fraction x)"
proof -
  assume x: "sint x \<le> - 65536"
  then have "1 \<le> \<bar>sint x\<bar> div 65536" by linarith
  then have "sint (fp_integer x) < 0" using x by (simp add: sint_fp_integer)
  then show ?thesis by (simp add: fp_sqrt_def int_sqrt_negative HIBITS_def)
qed

lemma fp_sqrt_returns: "\<exists>r. fp_sqrt x = Some r"
proof (cases "sint (fp_integer x) < 0")
  case True
  then show ?thesis by (simp add: fp_sqrt_def int_sqrt_negative)
next
  case False
  then have "\<exists>r. int_sqrt (fp_integer x) = Some r"
    using int_sqrt_correct [of "fp_integer x"] fp_integer_range(2) [of x] by auto
  then show ?thesis by (auto simp: fp_sqrt_def)
qed

section \<open>Printing in binary\<close>

lemma fp_printb_loop_eq:
  "k + n \<le> 32 \<Longrightarrow>
   fp_printb_loop n (push_bit (k + n - 1) 1) x =
     (map (\<lambda>i. if bit x i then CHR ''1'' else CHR ''0'') (rev [k..<k + n]),
      if n = 0 then push_bit (k - 1) 1 else if k = 0 then 0 else push_bit (k - 1) 1)"
proof (induction n)
  case (Suc n)
  have d: "drop_bit 1 (push_bit (k + n) (1 :: u32)) = (if k + n = 0 then 0 else push_bit (k + n - 1) 1)"
  proof (rule bit_word_eqI)
    fix i assume "i < LENGTH(32)"
    then show "bit (drop_bit 1 (push_bit (k + n) (1 :: u32))) i = bit (if k + n = 0 then 0 else push_bit (k + n - 1) (1 :: u32)) i"
      using Suc.prems by (auto simp: bit_simps)
  qed
  have t: "push_bit (k + n) 1 AND x \<noteq> (0 :: u32) \<longleftrightarrow> bit x (k + n)"
    by (simp only: bit_iff_and_push_bit_not_eq_0 and.commute)
  show ?case
  proof (cases "n = 0")
    case True
    with d t show ?thesis by simp
  next
    case False
    with d t Suc show ?thesis by (simp add: upt_Suc_append split: if_splits)
  qed
qed simp

text \<open>A digit for every bit of a 16-bit half, the highest first.\<close>

lemma fp_printb_loop_high: "fp_printb_loop 16 0x80000000 x =
  (map (\<lambda>i. if bit x i then CHR ''1'' else CHR ''0'') (rev [16..<32]), 0x8000)"
  using fp_printb_loop_eq [of 16 16 x] by simp

lemma fp_printb_loop_low: "fp_printb_loop 16 0x8000 x =
  (map (\<lambda>i. if bit x i then CHR ''1'' else CHR ''0'') (rev [0..<16]), 0)"
  using fp_printb_loop_eq [of 0 16 x] by simp

lemma fp_printb_eq:
  "fp_printb x = map (\<lambda>i. if bit (fp_abs x) i then CHR ''1'' else CHR ''0'') (rev [16..<32]) @ ''.'' @
     map (\<lambda>i. if bit (fp_abs x) i then CHR ''1'' else CHR ''0'') (rev [0..<16])"
  unfolding fp_printb_def
  by (simp add: HIBITS_def LOBITS_def Let_def fp_printb_loop_high fp_printb_loop_low fp_abs_def
           del: upt.simps)

section \<open>Properties\<close>

text \<open>C31: \<open>fp_multiply\<close> is the product of the two fixed-point numbers with the magnitude
  truncated to $2^{-16}$, and leaves \<open>fp_error = 0\<close>, whenever the result fits in the
  format, that is, its magnitude is below $2^{31}$ units; whenever it does not fit, or is exactly $-2^{31}$,
  \<open>fp_error\<close> is set, to \<open>-1\<close> or to \<open>-3\<close>.\<close>

theorem fp_multiply_correct:
  "(if \<bar>sint x\<bar> * \<bar>sint y\<bar> div 65536 < 2147483648
    then sint (fp_multiply x y) = sgn (sint x * sint y) * (\<bar>sint x\<bar> * \<bar>sint y\<bar> div 65536)
      \<and> snd (fp_multiply_err x y) = 0
    else fp_multiply_err x y \<in> {(0x44, -1), (2, -3)})"
  using fp_multiply_ok [of x y] fp_multiply_overflow [of x y] by (simp add: mag_product_def)

text \<open>C32: \<open>fp_div\<close> has the sign of the quotient, its magnitude never exceeds the true
  one and falls short of it by less than 602 units of the last place ($0.0092$), as long as
  the quotient fits and ten times the divisor fits in a word (the digit loop multiplies the
  remainder by ten).\<close>

theorem fp_div_correct:
  assumes "sint y \<noteq> 0" and "10 * \<bar>sint y\<bar> \<le> 2147483648" and "\<bar>sint x\<bar> < 2147483648"
    and "\<bar>sint x\<bar> div \<bar>sint y\<bar> < 32768"
  shows "\<exists>m\<ge>0. sint (fp_div x y) = sgn (sint x) * sgn (sint y) * m \<and>
     \<bar>sint y\<bar> * m \<le> \<bar>sint x\<bar> * 65536 \<and> \<bar>sint x\<bar> * 65536 < \<bar>sint y\<bar> * (m + 602)"
  using assms by (rule fp_div_value)

theorem fp_div_correct_witness:
  "\<exists>m\<ge>0. sint (fp_div 65536 196608) = sgn (sint (65536 :: u32)) * sgn (sint (196608 :: u32)) * m \<and>
     \<bar>sint (196608 :: u32)\<bar> * m \<le> \<bar>sint (65536 :: u32)\<bar> * 65536 \<and>
     \<bar>sint (65536 :: u32)\<bar> * 65536 < \<bar>sint (196608 :: u32)\<bar> * (m + 602)"
  by (rule fp_div_correct [of 196608 65536]) simp_all

text \<open>C33: \<open>fp_sqrt\<close> returns for every argument, although the loop of \<open>int_sqrt\<close> has no
  bound, and for a non-negative one the integer part of the result is the floor of the square
  root of the argument's integer part, while the fraction bits are those of the argument.\<close>

theorem fp_sqrt_correct:
  "\<exists>r. fp_sqrt x = Some r \<and>
     (if 0 \<le> sint x then
        0 \<le> sint r \<and> (sint r div 65536)\<^sup>2 \<le> sint x div 65536
        \<and> sint x div 65536 < (sint r div 65536 + 1)\<^sup>2 \<and> sint r mod 65536 = sint x mod 65536
      else sint x \<le> - 65536 \<longrightarrow> r = fp_fraction x)"
proof (cases "0 \<le> sint x")
  case True
  then show ?thesis using fp_sqrt_nonneg [OF True] by (simp add: power2_eq_square)
next
  case False
  then show ?thesis using fp_sqrt_negative [of x] fp_sqrt_returns [of x]
    by (cases "sint x \<le> - 65536") auto
qed

theorem fp_sqrt_correct_witness: "\<exists>r. fp_sqrt 0x90000 = Some r \<and> sint r div 65536 = 3"
proof -
  obtain r where r: "fp_sqrt 0x90000 = Some r" "0 \<le> sint r"
    "(sint r div 65536)\<^sup>2 \<le> 9" "9 < (sint r div 65536 + 1)\<^sup>2"
    using fp_sqrt_correct [of "0x90000"] by auto
  have "sint r div 65536 \<le> 3" using r(3) power2_le_imp_le [of "sint r div 65536" 3] by simp
  moreover have "3 < sint r div 65536 + 1"
    using r(2,4) power_less_imp_less_base [of 3 2 "sint r div 65536 + 1"] by simp
  ultimately show ?thesis using r(1) by auto
qed

text \<open>
  The bound on the divisor in the property of \<open>fp_div\<close> is needed: dividing 14000 by 15000
  leaves a remainder whose tenfold overflows, and the error value of \<open>fp_multiply\<close> goes into
  the digits unnoticed; the result is 0 and not 0.93.
\<close>

lemma fp_div_large_divisor: "sint (fp_div (fp_int_fix 14000) (fp_int_fix 15000)) = 0"
  by code_simp

end
