(* ===== verification/LeastSquares.thy ===== *)
theory LeastSquares
  imports Fixpoint
begin

text \<open>
  The linear least-squares solver of the positioning system,
  \<open>aps_proj/system/least_squares-ash.c\<close> (the part outside \<open>#ifdef FALSE\<close>): the normal
  equations $A^T A\,d = A^T b$ of an overdetermined system in two unknowns, formed with the
  fixed-point operations and solved by Cramer's rule.

  A matrix is the list of its rows. The solver writes to the arrays its caller passes; the
  definitions take their old contents and return the new ones.

  The lemmas bound what truncation loses in a sum of products, and the solver's result on
  integer data is compared with the exact solution.
\<close>

section \<open>The operations\<close>

type_synonym matrix = "fixpoint list list"

text \<open>The accumulation loop \<open>for (k = 0; k < n; k++) s += fp_multiply(...)\<close>.\<close>

definition mult_sum :: "nat \<Rightarrow> (nat \<Rightarrow> fixpoint) \<Rightarrow> (nat \<Rightarrow> fixpoint) \<Rightarrow> fixpoint" where
  "mult_sum n f g = fold (\<lambda>k s. s + fp_multiply (f k) (g k)) [0..<n] 0"

definition matvectmult ::
  "nat \<Rightarrow> nat \<Rightarrow> matrix \<Rightarrow> matrix \<Rightarrow> fixpoint list \<Rightarrow> fixpoint list \<Rightarrow> matrix \<times> fixpoint list" where
  "matvectmult n m a c b d =
     (let c = fold (\<lambda>i c. fold (\<lambda>j c.
                let s = mult_sum n (\<lambda>k. a ! k ! i) (\<lambda>k. a ! k ! j) in c[i := (c ! i)[j := s]])
                [0..<m] c) [0..<m] c;
          d = fold (\<lambda>i d.
                let s = mult_sum n (\<lambda>j. a ! j ! i) (\<lambda>j. b ! j) in d[i := s]) [0..<m] d
      in (c, d))"

text \<open>\<open>c\<close> is a local array of two by two, \<open>c0\<close> is what the stack held there.\<close>

definition least_squares ::
  "matrix \<Rightarrow> nat \<Rightarrow> nat \<Rightarrow> matrix \<Rightarrow> fixpoint list \<Rightarrow> fixpoint list \<Rightarrow> fixpoint list" where
  "least_squares c0 N M a b d =
     (let (c, d) = matvectmult N M a c0 b d;
          delta = fp_multiply (c ! 1 ! 0) (c ! 0 ! 1) - fp_multiply (c ! 0 ! 0) (c ! 1 ! 1);
          x = fp_div (fp_multiply (d ! 1) (c ! 0 ! 1) - fp_multiply (d ! 0) (c ! 1 ! 1)) delta;
          y = fp_div (fp_multiply (d ! 0) (c ! 1 ! 0) - fp_multiply (d ! 1) (c ! 0 ! 0)) delta
      in d[0 := x, 1 := y])"

section \<open>Sums of products\<close>

lemma mult_sum_0 [simp]: "mult_sum 0 f g = 0"
  by (simp add: mult_sum_def)

lemma mult_sum_Suc [simp]: "mult_sum (Suc n) f g = mult_sum n f g + fp_multiply (f n) (g n)"
  by (simp add: mult_sum_def)

lemma mult_sum_comm: "mult_sum n f g = mult_sum n g f"
  by (simp add: mult_sum_def fp_multiply_comm)

lemma sgn_cases: "sgn (z :: int) = 1 \<or> sgn z = 0 \<or> sgn z = - 1"
  by (simp add: sgn_if)

lemma error_step:
  fixes a b x y :: int
  shows "\<bar>65536 * a - x\<bar> \<le> 65535 * int n \<Longrightarrow> \<bar>65536 * b - y\<bar> < 65536 \<Longrightarrow>
    \<bar>65536 * (a + b) - (x + y)\<bar> \<le> 65535 * int (Suc n)"
  by simp

text \<open>A truncated product loses less than one unit of the last place.\<close>

lemma fp_multiply_error:
  assumes "\<bar>sint x\<bar> \<le> F" and "\<bar>sint y\<bar> \<le> G" and "F * G < 2147483648 * 65536"
  shows "\<bar>65536 * sint (fp_multiply x y) - sint x * sint y\<bar> < 65536"
    and "\<bar>sint (fp_multiply x y)\<bar> \<le> F * G div 65536"
    and "65536 dvd sint x * sint y \<Longrightarrow> 65536 * sint (fp_multiply x y) = sint x * sint y"
proof -
  have FG: "\<bar>sint x\<bar> * \<bar>sint y\<bar> \<le> F * G" using assms by (intro mult_mono) auto
  define p where "p = \<bar>sint x\<bar> * \<bar>sint y\<bar>"
  have p0: "0 \<le> p" "p = \<bar>sint x * sint y\<bar>" by (simp_all add: p_def abs_mult)
  have pm: "p div 65536 * 65536 + p mod 65536 = p" "0 \<le> p mod 65536" "p mod 65536 < 65536" by simp_all
  have bound: "p div 65536 \<le> F * G div 65536"
    using FG by (simp add: p_def zdiv_mono1)
  have "p < 2147483648 * 65536" using FG assms(3) by (simp add: p_def)
  then have "p div 65536 < 2147483648" by linarith
  then have v: "sint (fp_multiply x y) = sgn (sint x * sint y) * (p div 65536)"
    using fp_multiply_ok(1) [of x y] by (simp add: mag_product_def p_def)
  have s: "sint x * sint y = sgn (sint x * sint y) * p"
    unfolding p0(2) by (simp add: sgn_mult_abs)
  have d0: "0 \<le> p div 65536" using p0(1) by simp
  consider "sgn (sint x * sint y) = 1" | "sgn (sint x * sint y) = 0" | "sgn (sint x * sint y) = - 1"
    using sgn_cases [of "sint x * sint y"] by blast
  note cs = this
  show "\<bar>65536 * sint (fp_multiply x y) - sint x * sint y\<bar> < 65536"
    unfolding v using s pm by (cases rule: cs) auto
  show "\<bar>sint (fp_multiply x y)\<bar> \<le> F * G div 65536"
    unfolding v using bound d0 by (cases rule: cs) simp_all
  assume "65536 dvd sint x * sint y"
  then have "p mod 65536 = 0" unfolding p0(2) by (simp add: mod_eq_0_iff_dvd)
  then show "65536 * sint (fp_multiply x y) = sint x * sint y"
    unfolding v using s pm by (cases rule: cs) simp_all
qed

definition exact_sum :: "nat \<Rightarrow> (nat \<Rightarrow> fixpoint) \<Rightarrow> (nat \<Rightarrow> fixpoint) \<Rightarrow> int" where
  "exact_sum n f g = (\<Sum>k<n. sint (f k) * sint (g k))"

lemma mult_sum_bounds:
  assumes "\<And>k. k < n \<Longrightarrow> \<bar>sint (f k)\<bar> \<le> F" and "\<And>k. k < n \<Longrightarrow> \<bar>sint (g k)\<bar> \<le> G"
    and "F * G < 2147483648 * 65536" and "int n * (F * G div 65536) < 2147483648"
    and "0 \<le> F * G"
  shows "\<bar>65536 * sint (mult_sum n f g) - exact_sum n f g\<bar> \<le> 65535 * int n
    \<and> \<bar>sint (mult_sum n f g)\<bar> \<le> int n * (F * G div 65536)
    \<and> ((\<forall>k<n. 65536 dvd sint (f k) * sint (g k)) \<longrightarrow> 65536 * sint (mult_sum n f g) = exact_sum n f g)"
  using assms
proof (induction n)
  case (Suc n)
  define B where "B = F * G div 65536"
  have B: "0 \<le> B" "int (Suc n) * B < 2147483648"
    using Suc.prems(4,5) by (simp_all add: B_def pos_imp_zdiv_nonneg_iff)
  have nB: "int (Suc n) * B = int n * B + B" by (simp add: algebra_simps)
  have IH: "\<bar>65536 * sint (mult_sum n f g) - exact_sum n f g\<bar> \<le> 65535 * int n"
    "\<bar>sint (mult_sum n f g)\<bar> \<le> int n * B"
    "(\<forall>k<n. 65536 dvd sint (f k) * sint (g k)) \<longrightarrow> 65536 * sint (mult_sum n f g) = exact_sum n f g"
    using Suc.IH Suc.prems B nB unfolding B_def by auto
  note e = fp_multiply_error [of "f n" F "g n" G]
  have e1: "\<bar>65536 * sint (fp_multiply (f n) (g n)) - sint (f n) * sint (g n)\<bar> < 65536"
    and e2: "\<bar>sint (fp_multiply (f n) (g n))\<bar> \<le> B"
    using e(1,2) Suc.prems unfolding B_def by auto
  have sum: "sint (mult_sum (Suc n) f g) = sint (mult_sum n f g) + sint (fp_multiply (f n) (g n))"
    unfolding mult_sum_Suc using IH(2) e2 B nB by (intro sint32_add) linarith+
  have ex: "exact_sum (Suc n) f g = exact_sum n f g + sint (f n) * sint (g n)"
    by (simp add: exact_sum_def)
  have "\<bar>65536 * sint (mult_sum (Suc n) f g) - exact_sum (Suc n) f g\<bar> \<le> 65535 * int (Suc n)"
    unfolding sum ex using IH(1) e1 by (rule error_step)
  moreover have "\<bar>sint (mult_sum (Suc n) f g)\<bar> \<le> int (Suc n) * B"
    unfolding sum nB using IH(2) e2 by linarith
  moreover have "65536 * sint (mult_sum (Suc n) f g) = exact_sum (Suc n) f g"
    if "\<forall>k<Suc n. 65536 dvd sint (f k) * sint (g k)"
    unfolding sum ex using that IH(3) e(3) Suc.prems by auto
  ultimately show ?case unfolding B_def by blast
qed (simp add: exact_sum_def)

section \<open>The normal matrix\<close>

lemma matvectmult_2:
  assumes "length c = 2" and "length (c ! 0) = 2" and "length (c ! 1) = 2" and "length d = 2"
  shows "matvectmult n 2 a c b d =
    ([[mult_sum n (\<lambda>k. a ! k ! 0) (\<lambda>k. a ! k ! 0), mult_sum n (\<lambda>k. a ! k ! 0) (\<lambda>k. a ! k ! 1)],
      [mult_sum n (\<lambda>k. a ! k ! 1) (\<lambda>k. a ! k ! 0), mult_sum n (\<lambda>k. a ! k ! 1) (\<lambda>k. a ! k ! 1)]],
     [mult_sum n (\<lambda>k. a ! k ! 0) (\<lambda>k. b ! k), mult_sum n (\<lambda>k. a ! k ! 1) (\<lambda>k. b ! k)])"
proof -
  obtain p q r s t u where "c = [[p, q], [r, s]]" "d = [t, u]"
    using assms by (auto simp: numeral_2_eq_2 length_Suc_conv)
  then show ?thesis by (simp add: matvectmult_def upt_rec numeral_2_eq_2)
qed

text \<open>The matrix is symmetric to the last bit, whatever the products overflow to.\<close>

lemma matvectmult_symmetric:
  assumes "length c = 2" and "length (c ! 0) = 2" and "length (c ! 1) = 2" and "length d = 2"
    and "matvectmult n 2 a c b d = (c', d')"
  shows "c' ! 0 ! 1 = c' ! 1 ! 0"
  using assms mult_sum_comm by (auto simp: matvectmult_2)

section \<open>The solution on integer data\<close>

lemma fp_div_error:
  assumes "sint y \<noteq> 0" "10 * \<bar>sint y\<bar> \<le> 2147483648" "\<bar>sint x\<bar> < 2147483648"
    and "\<bar>sint x\<bar> div \<bar>sint y\<bar> < 32768"
  shows "\<bar>sint y * sint (fp_div x y) - 65536 * sint x\<bar> \<le> 602 * \<bar>sint y\<bar>"
proof -
  obtain m where m: "0 \<le> m" "sint (fp_div x y) = sgn (sint x) * sgn (sint y) * m"
    "\<bar>sint y\<bar> * m \<le> \<bar>sint x\<bar> * 65536" "\<bar>sint x\<bar> * 65536 < \<bar>sint y\<bar> * (m + 602)"
    using fp_div_value [OF assms] by auto
  have "\<bar>sint y\<bar> * (m + 602) = \<bar>sint y\<bar> * m + 602 * \<bar>sint y\<bar>" by (simp add: algebra_simps)
  with m(3,4) have "\<bar>\<bar>sint y\<bar> * m - 65536 * \<bar>sint x\<bar>\<bar> \<le> 602 * \<bar>sint y\<bar>" by linarith
  moreover have "sint y * sint (fp_div x y) = sgn (sint x) * (\<bar>sint y\<bar> * m)"
    unfolding m(2) by (simp add: abs_sgn)
  moreover have "sint x = sgn (sint x) * \<bar>sint x\<bar>" by (simp add: sgn_mult_abs)
  ultimately show ?thesis
  proof (cases "sint x" "0 :: int" rule: linorder_cases)
    case equal
    with m(2) show ?thesis by simp
  qed auto
qed

lemma fp_multiply_integers:
  assumes "sint x = 65536 * X" and "sint y = 65536 * Y" and "\<bar>X * Y\<bar> < 16384"
  shows "sint (fp_multiply x y) = 65536 * (X * Y)"
proof -
  have "\<bar>sint x\<bar> * \<bar>sint y\<bar> = 65536 * (65536 * \<bar>X * Y\<bar>)"
    using assms(1,2) by (simp add: abs_mult)
  then have "\<bar>sint x\<bar> * \<bar>sint y\<bar> < 2147483648 * 65536" using assms(3) by simp
  moreover have "65536 dvd sint x * sint y" using assms(1,2) by simp
  ultimately have "65536 * sint (fp_multiply x y) = sint x * sint y"
    using fp_multiply_error(3) [of x "\<bar>sint x\<bar>" y "\<bar>sint y\<bar>"] by simp
  then show ?thesis using assms(1,2) by simp
qed

text \<open>Cramer's rule on the integer system: one unknown.\<close>

lemma cramer_unknown:
  assumes num: "sint n = - (65536 * N)" "\<bar>N\<bar> < 32768"
    and det: "sint delta = - (65536 * D)" "D \<noteq> 0" "\<bar>D\<bar> \<le> 3276"
  shows "\<bar>D * sint (fp_div n delta) - 65536 * N\<bar> \<le> 602 * \<bar>D\<bar>"
proof -
  have "\<bar>sint n\<bar> div \<bar>sint delta\<bar> = \<bar>N\<bar> div \<bar>D\<bar>"
    using num(1) det(1) by (simp add: abs_mult)
  also have "\<dots> \<le> \<bar>N\<bar>" using int_div_le_self [of "\<bar>N\<bar>" "\<bar>D\<bar>"] det(2) by (cases "N = 0") auto
  finally have "\<bar>sint n\<bar> div \<bar>sint delta\<bar> < 32768" using num(2) by simp
  then have e: "\<bar>sint delta * sint (fp_div n delta) - 65536 * sint n\<bar> \<le> 602 * \<bar>sint delta\<bar>"
    using num det by (intro fp_div_error) (simp_all add: abs_mult)
  have "sint delta * sint (fp_div n delta) - 65536 * sint n
    = 65536 * (65536 * N - D * sint (fp_div n delta))"
    unfolding num(1) det(1) by (simp add: algebra_simps)
  moreover have "\<bar>sint delta\<bar> = 65536 * \<bar>D\<bar>" unfolding det(1) by (simp add: abs_mult)
  ultimately have "65536 * \<bar>65536 * N - D * sint (fp_div n delta)\<bar> \<le> 65536 * (602 * \<bar>D\<bar>)"
    using e by (simp add: abs_mult)
  then show ?thesis by (simp add: abs_minus_commute)
qed

text \<open>The matrix and right-hand side of the problem as integers.\<close>

definition gram :: "nat \<Rightarrow> (nat \<Rightarrow> int) \<Rightarrow> (nat \<Rightarrow> int) \<Rightarrow> int" where
  "gram n f g = (\<Sum>k<n. f k * g k)"

lemma mult_sum_integers:
  assumes "\<And>k. k < n \<Longrightarrow> sint (f k) = 65536 * u k" and "\<And>k. k < n \<Longrightarrow> sint (g k) = 65536 * v k"
    and "\<And>k. k < n \<Longrightarrow> \<bar>u k\<bar> \<le> P" and "\<And>k. k < n \<Longrightarrow> \<bar>v k\<bar> \<le> Q"
    and "int n * (P * Q) < 32768" and "0 \<le> P" and "0 \<le> Q" and "0 < n"
  shows "sint (mult_sum n f g) = 65536 * gram n u v"
proof -
  have PQ: "65536 * P * (65536 * Q) div 65536 = 65536 * (P * Q)" by simp
  have "P * Q \<le> int n * (P * Q)"
    using mult_right_mono [of 1 "int n" "P * Q"] assms(6,7,8) by simp
  then have "65536 * P * (65536 * Q) < 2147483648 * 65536" using assms(5) by simp
  moreover have "int n * (65536 * (P * Q)) = 65536 * (int n * (P * Q))" by simp
  then have "int n * (65536 * (P * Q)) < 2147483648" using assms(5) by linarith
  ultimately have "(\<forall>k<n. 65536 dvd sint (f k) * sint (g k)) \<longrightarrow> 65536 * sint (mult_sum n f g) = exact_sum n f g"
    using assms mult_sum_bounds [of n f "65536 * P" g "65536 * Q"] PQ by (simp add: abs_mult)
  moreover have "\<forall>k<n. 65536 dvd sint (f k) * sint (g k)" using assms(1) by simp
  moreover have "exact_sum n f g = 65536 * 65536 * gram n u v"
    using assms(1,2) by (simp add: exact_sum_def gram_def sum_distrib_left mult.assoc mult.left_commute)
  ultimately show ?thesis by simp
qed

lemma least_squares_cramer:
  assumes "length c0 = 2" and "length (c0 ! 0) = 2" and "length (c0 ! 1) = 2" and "length d = 2"
    and C: "sint (mult_sum n (\<lambda>k. a ! k ! 0) (\<lambda>k. a ! k ! 0)) = 65536 * C00"
      "sint (mult_sum n (\<lambda>k. a ! k ! 0) (\<lambda>k. a ! k ! 1)) = 65536 * C01"
      "sint (mult_sum n (\<lambda>k. a ! k ! 1) (\<lambda>k. a ! k ! 1)) = 65536 * C11"
    and R: "sint (mult_sum n (\<lambda>k. a ! k ! 0) (\<lambda>k. b ! k)) = 65536 * D0"
      "sint (mult_sum n (\<lambda>k. a ! k ! 1) (\<lambda>k. b ! k)) = 65536 * D1"
    and small: "\<bar>C01 * C01\<bar> < 16384" "\<bar>C00 * C11\<bar> < 16384" "\<bar>D1 * C01\<bar> < 16384"
      "\<bar>D0 * C11\<bar> < 16384" "\<bar>D0 * C01\<bar> < 16384" "\<bar>D1 * C00\<bar> < 16384"
    and det: "det = C00 * C11 - C01 * C01" "det \<noteq> 0" "\<bar>det\<bar> \<le> 3276"
  shows "\<bar>det * sint (least_squares c0 n 2 a b d ! 0) - 65536 * (D0 * C11 - D1 * C01)\<bar> \<le> 602 * \<bar>det\<bar>
    \<and> \<bar>det * sint (least_squares c0 n 2 a b d ! 1) - 65536 * (D1 * C00 - D0 * C01)\<bar> \<le> 602 * \<bar>det\<bar>"
proof -
  note C' = C C(2) [unfolded mult_sum_comm [of n "\<lambda>k. a ! k ! 0" "\<lambda>k. a ! k ! 1"]]
  define num where "num f g h k = fp_multiply f g - fp_multiply h k" for f g h k
  have num: "sint (num f g h k) = 65536 * (F * G - H * K)"
    if "sint f = 65536 * F" "sint g = 65536 * G" "sint h = 65536 * H" "sint k = 65536 * K"
      "\<bar>F * G\<bar> < 16384" "\<bar>H * K\<bar> < 16384" for f g h k F G H K
    unfolding num_def using that
    by (subst sint32_sub) (auto simp: fp_multiply_integers [of f F g G] fp_multiply_integers [of h H k K])
  note ls = least_squares_def matvectmult_2 [OF assms(1-4)] num_def [symmetric]
  have delta: "sint (num (mult_sum n (\<lambda>k. a ! k ! 1) (\<lambda>k. a ! k ! 0)) (mult_sum n (\<lambda>k. a ! k ! 0) (\<lambda>k. a ! k ! 1))
      (mult_sum n (\<lambda>k. a ! k ! 0) (\<lambda>k. a ! k ! 0)) (mult_sum n (\<lambda>k. a ! k ! 1) (\<lambda>k. a ! k ! 1))) = - (65536 * det)"
    using num [OF C'(4,2,1,3) small(1,2)] det(1) by simp
  have x: "sint (num (mult_sum n (\<lambda>k. a ! k ! 1) (\<lambda>k. b ! k)) (mult_sum n (\<lambda>k. a ! k ! 0) (\<lambda>k. a ! k ! 1))
      (mult_sum n (\<lambda>k. a ! k ! 0) (\<lambda>k. b ! k)) (mult_sum n (\<lambda>k. a ! k ! 1) (\<lambda>k. a ! k ! 1)))
      = - (65536 * (D0 * C11 - D1 * C01))"
    using num [OF R(2) C'(2) R(1) C'(3) small(3,4)] by simp
  have y: "sint (num (mult_sum n (\<lambda>k. a ! k ! 0) (\<lambda>k. b ! k)) (mult_sum n (\<lambda>k. a ! k ! 1) (\<lambda>k. a ! k ! 0))
      (mult_sum n (\<lambda>k. a ! k ! 1) (\<lambda>k. b ! k)) (mult_sum n (\<lambda>k. a ! k ! 0) (\<lambda>k. a ! k ! 0)))
      = - (65536 * (D1 * C00 - D0 * C01))"
    using num [OF R(1) C'(4) R(2) C'(1) small(5,6)] by simp
  have "\<bar>D0 * C11 - D1 * C01\<bar> < 32768" "\<bar>D1 * C00 - D0 * C01\<bar> < 32768"
    using small by linarith+
  then show ?thesis
    using cramer_unknown [OF x _ delta det(2,3)] cramer_unknown [OF y _ delta det(2,3)] assms(4)
    by (simp add: ls Let_def)
qed

section \<open>Properties\<close>

text \<open>C34: on small integer data the solver returns the solution of the normal equations: with
  $\Delta$ the determinant of $A^T A$ and Cramer's numerators over the exact integers, each
  unknown differs from numerator over $\Delta$ by at most 602 units of the last place. Small means: in
  $n$ rows with entries of $A$ up to $P$ and of the right side up to $Q$, $n P^2$ and $n P Q$ are below
  32768; every product of two sums of products that makes up the determinant or a numerator is below
  16384; and $\Delta$ is neither 0 nor, in absolute value, above 3276. Beyond these bounds the 16.16
  format overflows, or the division loses the divisor (\<open>fp_div_large_divisor\<close> of theory \<open>Fixpoint\<close>).\<close>

theorem least_squares_solves:
  assumes "length c0 = 2" and "length (c0 ! 0) = 2" and "length (c0 ! 1) = 2" and "length d = 2"
    and "0 < n"
    and "\<And>k. k < n \<Longrightarrow> sint (a ! k ! 0) = 65536 * u k" and "\<And>k. k < n \<Longrightarrow> sint (a ! k ! 1) = 65536 * v k"
    and "\<And>k. k < n \<Longrightarrow> sint (b ! k) = 65536 * w k"
    and "\<And>k. k < n \<Longrightarrow> \<bar>u k\<bar> \<le> P" and "\<And>k. k < n \<Longrightarrow> \<bar>v k\<bar> \<le> P" and "\<And>k. k < n \<Longrightarrow> \<bar>w k\<bar> \<le> Q"
    and "int n * (P * P) < 32768" and "int n * (P * Q) < 32768" and "0 \<le> P" and "0 \<le> Q"
    and "\<bar>gram n u v * gram n u v\<bar> < 16384" and "\<bar>gram n u u * gram n v v\<bar> < 16384"
    and "\<bar>gram n v w * gram n u v\<bar> < 16384" and "\<bar>gram n u w * gram n v v\<bar> < 16384"
    and "\<bar>gram n u w * gram n u v\<bar> < 16384" and "\<bar>gram n v w * gram n u u\<bar> < 16384"
    and "det = gram n u u * gram n v v - gram n u v * gram n u v" and "det \<noteq> 0" and "\<bar>det\<bar> \<le> 3276"
  shows "\<bar>det * sint (least_squares c0 n 2 a b d ! 0)
      - 65536 * (gram n u w * gram n v v - gram n v w * gram n u v)\<bar> \<le> 602 * \<bar>det\<bar>
    \<and> \<bar>det * sint (least_squares c0 n 2 a b d ! 1)
      - 65536 * (gram n v w * gram n u u - gram n u w * gram n u v)\<bar> \<le> 602 * \<bar>det\<bar>"
  using assms
  by (intro least_squares_cramer [OF assms(1-4) _ _ _ _ _ assms(16-21,22-24)]
        mult_sum_integers [where P = P and Q = P and u = u and v = u]
        mult_sum_integers [where P = P and Q = P and u = u and v = v]
        mult_sum_integers [where P = P and Q = P and u = v and v = v]
        mult_sum_integers [where P = P and Q = Q and u = u and v = w]
        mult_sum_integers [where P = P and Q = Q and u = v and v = w]) auto

text \<open>Two rows: $x + y = 3$ and $x - y = 1$.\<close>

definition example_sol :: "fixpoint list" where
  "example_sol = least_squares [[0, 0], [0, 0]] 2 2 [[65536, 65536], [65536, -65536]] [196608, 65536] [0, 0]"

theorem least_squares_solves_witness:
  "\<bar>4 * sint (example_sol ! 0) - 65536 * 8\<bar> \<le> 602 * 4 \<and> \<bar>4 * sint (example_sol ! 1) - 65536 * 4\<bar> \<le> 602 * 4"
proof -
  define u :: "nat \<Rightarrow> int" where "u = (\<lambda>k. 1)"
  define v :: "nat \<Rightarrow> int" where "v = (\<lambda>k. if k = 0 then 1 else -1)"
  define w :: "nat \<Rightarrow> int" where "w = (\<lambda>k. if k = 0 then 3 else 1)"
  have g: "gram 2 u u = 2" "gram 2 u v = 0" "gram 2 v v = 2" "gram 2 u w = 4" "gram 2 v w = 2"
    by (simp_all add: gram_def numeral_2_eq_2 u_def v_def w_def)
  have k2: "k < 2 \<Longrightarrow> k = 0 \<or> k = 1" for k :: nat by auto
  have "\<bar>4 * sint (example_sol ! 0) - 65536 * (gram 2 u w * gram 2 v v - gram 2 v w * gram 2 u v)\<bar> \<le> 602 * \<bar>4 :: int\<bar>
    \<and> \<bar>4 * sint (example_sol ! 1) - 65536 * (gram 2 v w * gram 2 u u - gram 2 u w * gram 2 u v)\<bar> \<le> 602 * \<bar>4 :: int\<bar>"
    unfolding example_sol_def
    by (rule least_squares_solves [where P = 1 and Q = 3])
       (simp_all only: g, (force dest!: k2 simp: u_def v_def w_def)+)
  then show ?thesis by (simp add: g)
qed

end
