(* ===== verification/DvHop.thy ===== *)
theory DvHop
  imports LeastSquares "HOL-Library.Monad_Syntax"
begin

text \<open>
  The DV-hop positioning component, \<open>aps_proj/DV_HOP-FIXPOINT.c\<close>, as \<open>MakefilePC\<close> builds it
  (\<open>FULLPC\<close>: \<open>int\<close> and \<open>fixpoint\<close> are 32 bits wide, \<open>char\<close> is a signed byte,
  \<open>sizeof(landmarks)\<close> is 12). A node keeps a table of at most three landmarks with their hop
  counts; a landmark derives the average length of a hop from it, any other node its position.

  A handler takes the frame and returns the new one with the list of commands it calls and tasks
  it posts, in order. Reading \<open>lms\<close> past its end yields what the memory there holds, the
  parameter \<open>beyond\<close>; a write past its end is the error \<open>Out_of_bounds\<close>. What
  \<open>printf\<close> prints is left out.

  The lemmas: the table's invariant and what a message does to it, the position iteration round
  by round, when it ends and a run that never does.
\<close>

section \<open>State\<close>

record landmark =
  lm_x :: fixpoint
  lm_y :: fixpoint
  lm_hops :: u8

definition NUM_LANDMARKS_TO_USE :: nat where "NUM_LANDMARKS_TO_USE = 3"
definition NUM_COORDINATES :: nat where "NUM_COORDINATES = 2"
definition EPSILON :: fixpoint where "EPSILON = 0x3333"
definition MAX_ITERATIONS :: nat where "MAX_ITERATIONS = 255"
definition TICK_SP :: nat where "TICK_SP = 10"
definition sizeof_landmarks :: nat where "sizeof_landmarks = 12"

record dv_hop =
  no_landmarks :: u8
  is_landmark :: u8
  estimate_x :: fixpoint
  estimate_y :: fixpoint
  correction_factor :: fixpoint
  dv_iterations :: u8
  lms :: "landmark list"
  current_tick :: u8

datatype dv_task = compute_corrections_TASK | aps_algorithm_TASK

datatype dv_out =
    DV_HOP_SUB_OUTPUT_INIT
  | DV_HOP_SUB_CLOCK_INIT u8 u8
  | DV_HOP_OUTPUT fixpoint fixpoint u8
  | DV_HOP_CORRECTION_OUTPUT fixpoint fixpoint fixpoint
  | DV_HOP_QUERY_REPLY "u8 list"
  | Post dv_task

datatype dv_error = Out_of_bounds | Exit

definition lm_get :: "(nat \<Rightarrow> landmark) \<Rightarrow> dv_hop \<Rightarrow> nat \<Rightarrow> landmark" where
  "lm_get beyond s i = (if i < length (lms s) then lms s ! i else beyond i)"

definition lm_put :: "dv_hop \<Rightarrow> nat \<Rightarrow> landmark \<Rightarrow> dv_error + dv_hop" where
  "lm_put s i l = (if i < length (lms s) then Inr (s\<lparr>lms := (lms s)[i := l]\<rparr>) else Inl Out_of_bounds)"

section \<open>The position iteration\<close>

text \<open>One pass of the loop of \<open>calculate_unit_vectors\<close> per landmark.\<close>

function unit_vectors_loop ::
  "dv_hop \<Rightarrow> nat \<Rightarrow> nat \<Rightarrow> matrix \<Rightarrow> fixpoint list \<Rightarrow> (matrix \<times> fixpoint list) option" where
  "unit_vectors_loop s N i a b =
     (if i < unat (no_landmarks s) \<and> i < N then
        (let l = lms s ! i;
             tmp_x = estimate_x s - lm_x l;
             tmp_y = estimate_y s - lm_y l
         in do {
              tmp_length \<leftarrow> fp_sqrt (fp_multiply tmp_x tmp_x + fp_multiply tmp_y tmp_y);
              unit_vectors_loop s N (Suc i)
                (a[i := [- fp_div tmp_x tmp_length, - fp_div tmp_y tmp_length]])
                (b[i := tmp_length - fp_multiply (fp_int_fix (scast (lm_hops l))) (correction_factor s)])
            })
      else Some (a, b))"
  by pat_completeness auto
termination by (relation "measure (\<lambda>(s, N, i, _). N - i)") auto

definition calculate_unit_vectors ::
  "dv_hop \<Rightarrow> matrix \<Rightarrow> fixpoint list \<Rightarrow> nat \<Rightarrow> (matrix \<times> fixpoint list) option" where
  "calculate_unit_vectors s a b N = unit_vectors_loop s N 0 a b"

text \<open>The local variables of \<open>aps_iterations\<close> that live from one round to the next.\<close>

record aps_locals =
  ap_a :: matrix
  ap_b :: "fixpoint list"
  ap_d :: "fixpoint list"
  ap_olderror :: fixpoint
  ap_alt_x :: fixpoint
  ap_alt_y :: fixpoint

text \<open>The body of \<open>while (1)\<close>: whether the function returns, the locals and the frame.\<close>

definition aps_round :: "matrix \<Rightarrow> aps_locals \<Rightarrow> dv_hop \<Rightarrow> (bool \<times> aps_locals \<times> dv_hop) option" where
  "aps_round c0 v s = do {
     let s = s\<lparr>dv_iterations := dv_iterations s + 1\<rparr>;
     (a, b) \<leftarrow> calculate_unit_vectors s (ap_a v) (ap_b v) NUM_LANDMARKS_TO_USE;
     let d = least_squares c0 NUM_LANDMARKS_TO_USE NUM_COORDINATES a b (ap_d v);
     newerror \<leftarrow> fp_sqrt (fp_multiply (d ! 0) (d ! 0) + fp_multiply (d ! 1) (d ! 1));
     let v = v\<lparr>ap_a := a, ap_b := b, ap_d := d\<rparr>;
     if newerror <s EPSILON then Some (True, v, s)
     else
       (let (v, s) =
          (if ap_olderror v <s newerror then
             (v\<lparr>ap_olderror := newerror\<rparr>, s\<lparr>estimate_x := ap_alt_x v, estimate_y := ap_alt_y v\<rparr>)
           else
             (v\<lparr>ap_alt_x := estimate_x s - d ! 0, ap_alt_y := estimate_y s - d ! 1, ap_olderror := newerror\<rparr>,
              s\<lparr>estimate_x := estimate_x s + d ! 0, estimate_y := estimate_y s + d ! 1\<rparr>))
        in Some (MAX_ITERATIONS < unat (dv_iterations s), v, s))
   }"

partial_function (option) aps_loop :: "matrix \<Rightarrow> aps_locals \<Rightarrow> dv_hop \<Rightarrow> dv_hop option" where
  "aps_loop c0 v s =
     Option.bind (aps_round c0 v s) (\<lambda>(stop, v, s). if stop then Some s else aps_loop c0 v s)"

declare aps_loop.simps [code]

text \<open>The arrays are not initialised: \<open>a0\<close>, \<open>b0\<close>, \<open>d0\<close> are their first contents.\<close>

definition aps_iterations ::
  "matrix \<Rightarrow> fixpoint list \<Rightarrow> fixpoint list \<Rightarrow> matrix \<Rightarrow> dv_hop \<Rightarrow> dv_hop option" where
  "aps_iterations a0 b0 d0 c0 s =
     aps_loop c0 \<lparr>ap_a = a0, ap_b = b0, ap_d = d0, ap_olderror = fp_int_fix 500, ap_alt_x = 0, ap_alt_y = 0\<rparr> s"

section \<open>The tasks\<close>

function corrections_loop ::
  "(nat \<Rightarrow> landmark) \<Rightarrow> dv_hop \<Rightarrow> nat \<Rightarrow> fixpoint \<Rightarrow> u8 \<Rightarrow> (fixpoint \<times> u8) option" where
  "corrections_loop beyond s i total_dist total_hops =
     (if i < unat (no_landmarks s) then
        (let tmpx = lm_x (lms s ! 0) - lm_x (lm_get beyond s i);
             tmpy = lm_y (lms s ! 0) - lm_y (lm_get beyond s i)
         in do {
              dist \<leftarrow> fp_sqrt (fp_multiply tmpx tmpx + fp_multiply tmpy tmpy);
              corrections_loop beyond s (Suc i) (total_dist + dist) (total_hops + lm_hops (lm_get beyond s i))
            })
      else Some (total_dist, total_hops))"
  by pat_completeness auto
termination by (relation "measure (\<lambda>(beyond, s, i, _). unat (no_landmarks s) - i)") auto

definition compute_corrections :: "(nat \<Rightarrow> landmark) \<Rightarrow> dv_hop \<Rightarrow> dv_hop option" where
  "compute_corrections beyond s = do {
     let s = s\<lparr>correction_factor := 1\<rparr>;
     (total_dist, total_hops) \<leftarrow> corrections_loop beyond s 1 0 0;
     Some (s\<lparr>correction_factor := fp_div total_dist (fp_int_fix (ucast total_hops))\<rparr>)
   }"

text \<open>The centre of the known landmarks is where \<open>aps_algorithm\<close> starts.\<close>

function sum_landmarks :: "(nat \<Rightarrow> landmark) \<Rightarrow> nat \<Rightarrow> dv_hop \<Rightarrow> dv_hop" where
  "sum_landmarks beyond i s =
     (if i < unat (no_landmarks s) then
        sum_landmarks beyond (Suc i)
          (s\<lparr>estimate_x := estimate_x s + lm_x (lm_get beyond s i),
             estimate_y := estimate_y s + lm_y (lm_get beyond s i)\<rparr>)
      else s)"
  by pat_completeness auto
termination by (relation "measure (\<lambda>(beyond, i, s). unat (no_landmarks s) - i)") auto

definition aps_algorithm ::
  "(nat \<Rightarrow> landmark) \<Rightarrow> matrix \<Rightarrow> fixpoint list \<Rightarrow> fixpoint list \<Rightarrow> matrix \<Rightarrow> dv_hop \<Rightarrow> dv_hop option" where
  "aps_algorithm beyond a0 b0 d0 c0 s =
     (let s = s\<lparr>dv_iterations := 1, estimate_x := 0, estimate_y := 0\<rparr>;
          s = sum_landmarks beyond 0 s;
          n = fp_int_fix (ucast (no_landmarks s));
          s = s\<lparr>estimate_x := fp_div (estimate_x s) n\<rparr>;
          s = s\<lparr>estimate_y := fp_div (estimate_y s) n\<rparr>
      in aps_iterations a0 b0 d0 c0 s)"

section \<open>The landmark table\<close>

text \<open>\<open>while (fscanf(...) != EOF)\<close> over the rows (node, x, y) of \<open>landmarks.txt\<close>.\<close>

fun landmark_file_loop :: "u8 \<Rightarrow> (u32 \<times> u32 \<times> u32) list \<Rightarrow> dv_hop \<Rightarrow> dv_hop" where
  "landmark_file_loop addr [] s = s"
| "landmark_file_loop addr ((node, x, y) # rows) s =
     (if node = ucast addr then
        s\<lparr>lms := (lms s)[0 := \<lparr>lm_x = fp_int_fix x, lm_y = fp_int_fix y, lm_hops = 0\<rparr>],
          no_landmarks := 1, is_landmark := 1\<rparr>
      else landmark_file_loop addr rows s)"

text \<open>\<open>None\<close> stands for a file that cannot be opened: the process exits.\<close>

definition check_if_landmark ::
  "u8 \<Rightarrow> (u32 \<times> u32 \<times> u32) list option \<Rightarrow> dv_hop \<Rightarrow> dv_error + dv_hop" where
  "check_if_landmark addr file s =
     (case file of
        None \<Rightarrow> Inl Exit
      | Some rows \<Rightarrow>
          (let s = landmark_file_loop addr rows s
           in Inr (if is_landmark s = 0 then s\<lparr>no_landmarks := 0, is_landmark := 0\<rparr> else s)))"

text \<open>The index, or \<open>None\<close> for the result \<open>-1\<close>.\<close>

function already_there_loop ::
  "(nat \<Rightarrow> landmark) \<Rightarrow> dv_hop \<Rightarrow> fixpoint \<Rightarrow> fixpoint \<Rightarrow> nat \<Rightarrow> nat option" where
  "already_there_loop beyond s x y i =
     (let l = lm_get beyond s i
      in if lm_x l = x \<and> lm_y l = y \<and> lm_hops l \<noteq> -1 then Some i
         else if i < unat (no_landmarks s) then already_there_loop beyond s x y (Suc i)
         else None)"
  by pat_completeness auto
termination by (relation "measure (\<lambda>(beyond, s, x, y, i). unat (no_landmarks s) - i)") auto

definition is_already_there ::
  "(nat \<Rightarrow> landmark) \<Rightarrow> dv_hop \<Rightarrow> fixpoint \<Rightarrow> fixpoint \<Rightarrow> nat option" where
  "is_already_there beyond s x y = already_there_loop beyond s x y 0"

definition append_landmark :: "fixpoint \<Rightarrow> fixpoint \<Rightarrow> u8 \<Rightarrow> dv_hop \<Rightarrow> dv_error + dv_hop" where
  "append_landmark x y hops s =
     (let s = (if NUM_LANDMARKS_TO_USE \<le> unat (no_landmarks s)
               then s\<lparr>no_landmarks := word_of_nat (NUM_LANDMARKS_TO_USE - 1)\<rparr> else s)
      in case lm_put s (unat (no_landmarks s)) \<lparr>lm_x = x, lm_y = y, lm_hops = hops\<rparr> of
           Inl e \<Rightarrow> Inl e
         | Inr s \<Rightarrow> Inr (s\<lparr>no_landmarks := no_landmarks s + 1\<rparr>))"

section \<open>Commands and events\<close>

definition DV_HOP_INIT ::
  "u8 \<Rightarrow> (u32 \<times> u32 \<times> u32) list option \<Rightarrow> dv_hop \<Rightarrow> dv_error + dv_hop \<times> dv_out list \<times> u8" where
  "DV_HOP_INIT addr file s =
     (let s = s\<lparr>no_landmarks := 0, is_landmark := 0, dv_iterations := 0, current_tick := 0,
                correction_factor := 0\<rparr>;
          s = fold (\<lambda>i s. s\<lparr>lms := (lms s)[i := (lms s ! i)\<lparr>lm_hops := -1\<rparr>]\<rparr>)
                [0..<NUM_LANDMARKS_TO_USE] s
      in case check_if_landmark addr file s of
           Inl e \<Rightarrow> Inl e
         | Inr s \<Rightarrow> Inr (s, [DV_HOP_SUB_OUTPUT_INIT], 1))"

text \<open>\<open>tick1ps\<close> is \<open>128,6\<close>; \<open>r\<close> is what the clock's command returns.\<close>

definition DV_HOP_START :: "u8 \<Rightarrow> dv_hop \<Rightarrow> dv_hop \<times> dv_out list \<times> u8" where
  "DV_HOP_START r s = (s, [DV_HOP_SUB_CLOCK_INIT 128 6], r)"

definition DV_HOP_CLOCK_EVENT :: "dv_hop \<Rightarrow> dv_hop \<times> dv_out list" where
  "DV_HOP_CLOCK_EVENT s =
     (let s = s\<lparr>current_tick := current_tick s + 1\<rparr>;
          s = (if TICK_SP < unat (current_tick s) then s\<lparr>current_tick := 0\<rparr> else s);
          l = lms s ! 0;
          out1 = (if current_tick s = 0 \<and> is_landmark s \<noteq> 0
                  then [DV_HOP_OUTPUT (lm_x l) (lm_y l) (lm_hops l)] else []);
          out2 = (if current_tick s = 1 \<and> correction_factor s \<noteq> 0
                  then [DV_HOP_CORRECTION_OUTPUT (lm_x l) (lm_y l) (correction_factor s)] else [])
      in (s, out1 @ out2))"

definition DV_HOP_OUTPUT_COMPLETE :: "u8 \<Rightarrow> dv_hop \<Rightarrow> dv_hop \<times> dv_out list \<times> u8" where
  "DV_HOP_OUTPUT_COMPLETE success s = (s, [], 1)"

definition DV_HOP_CORRECTION_INPUT ::
  "fixpoint \<Rightarrow> fixpoint \<Rightarrow> fixpoint \<Rightarrow> dv_hop \<Rightarrow> dv_hop \<times> dv_out list \<times> u8" where
  "DV_HOP_CORRECTION_INPUT fpx fpy fpfactor s =
     ((if correction_factor s = 0 then s\<lparr>correction_factor := fpfactor\<rparr> else s), [], 1)"

text \<open>The last part of \<open>DV_HOP_INPUT\<close>: a full table starts the computation.\<close>

definition dv_full_table :: "dv_hop \<Rightarrow> dv_out list" where
  "dv_full_table s =
     (if unat (no_landmarks s) = NUM_LANDMARKS_TO_USE then
        (if is_landmark s = 0 \<and> dv_iterations s = 0 \<and> correction_factor s \<noteq> 0
         then [Post aps_algorithm_TASK]
         else if is_landmark s \<noteq> 0 then
           (if correction_factor s = 0 then [Post compute_corrections_TASK] else [])
         else [])
      else [])"

definition DV_HOP_INPUT ::
  "(nat \<Rightarrow> landmark) \<Rightarrow> fixpoint \<Rightarrow> fixpoint \<Rightarrow> u8 \<Rightarrow> dv_hop \<Rightarrow> dv_error + dv_hop \<times> dv_out list \<times> u8" where
  "DV_HOP_INPUT beyond fpx fpy hops s =
     (let index = is_already_there beyond s fpx fpy;
          total_hops = hops + 1
      in case
           (case index of
              None \<Rightarrow>
                (if unat (no_landmarks s) < NUM_LANDMARKS_TO_USE
                 then (case append_landmark fpx fpy total_hops s of
                         Inl e \<Rightarrow> Inl e | Inr s \<Rightarrow> Inr (s, []))
                 else Inr (s, []))
            | Some i \<Rightarrow>
                (if 0 <s total_hops \<and> total_hops \<le>s lm_hops (lm_get beyond s i)
                 then (case lm_put s i ((lm_get beyond s i)\<lparr>lm_hops := total_hops\<rparr>) of
                         Inl e \<Rightarrow> Inl e
                       | Inr s \<Rightarrow> Inr (s, [DV_HOP_OUTPUT fpx fpy total_hops]))
                 else Inr (s, [])))
         of Inl e \<Rightarrow> Inl e
          | Inr (s, out) \<Rightarrow> Inr (s, out @ dv_full_table s, 1))"

section \<open>Queries\<close>

definition Q_ERROR :: u8 where "Q_ERROR = 0x0"
definition Q_IS_LM :: u8 where "Q_IS_LM = 0x1"
definition Q_SET_LM :: u8 where "Q_SET_LM = 0x2"
definition Q_GET_COORD :: u8 where "Q_GET_COORD = 0x3"
definition Q_GET_DV_ALGO :: u8 where "Q_GET_DV_ALGO = 0x4"
definition Q_SET_DV_ALGO :: u8 where "Q_SET_DV_ALGO = 0x5"
definition Q_DUMP_LMS :: u8 where "Q_DUMP_LMS = 0x6"
definition Q_RERUN_APS :: u8 where "Q_RERUN_APS = 0x8"
definition Q_APS_STATUS :: u8 where "Q_APS_STATUS = 0x9"
definition Q_GET_CORRECTION :: u8 where "Q_GET_CORRECTION = 0xa"

lemmas dv_query_codes = Q_ERROR_def Q_IS_LM_def Q_SET_LM_def Q_GET_COORD_def Q_GET_DV_ALGO_def
  Q_SET_DV_ALGO_def Q_DUMP_LMS_def Q_RERUN_APS_def Q_APS_STATUS_def Q_GET_CORRECTION_def

text \<open>
  A query message is its 30 bytes: \<open>node_id\<close>, \<open>toq\<close> and 28 bytes of data. A
  \<open>landmarks\<close> in it takes 12 bytes, the last three padding.
\<close>

definition get32 :: "u8 list \<Rightarrow> nat \<Rightarrow> u32" where
  "get32 q i = word32 (read_bytes i 4 q)"

definition q_data :: nat where "q_data = 2"

definition read_landmark :: "u8 list \<Rightarrow> nat \<Rightarrow> landmark" where
  "read_landmark q i = \<lparr>lm_x = get32 q i, lm_y = get32 q (i + 4), lm_hops = q ! (i + 8)\<rparr>"

definition write_landmark :: "u8 list \<Rightarrow> landmark \<Rightarrow> nat \<Rightarrow> u8 list \<Rightarrow> u8 list" where
  "write_landmark pad l i q = write_bytes i (bytes32 (lm_x l) @ bytes32 (lm_y l) @ [lm_hops l] @ pad) q"

definition c_string :: "string \<Rightarrow> u8 list" where
  "c_string cs = map (\<lambda>c. of_char c) cs @ [0]"

definition query_set_lm ::
  "(nat \<Rightarrow> landmark) \<Rightarrow> u8 list \<Rightarrow> dv_hop \<Rightarrow> dv_error + dv_hop" where
  "query_set_lm beyond q s =
     (let set_lm = q ! q_data; lm = read_landmark q (q_data + 1)
      in if set_lm \<noteq> 0 then
           (let s = s\<lparr>is_landmark := 1\<rparr>; n = no_landmarks s; s = s\<lparr>no_landmarks := n + 1\<rparr>
            in case lm_put s (unat n) (lms s ! 0) of
                 Inl e \<Rightarrow> Inl e
               | Inr s \<Rightarrow> lm_put s 0 lm)
         else
           (let s = s\<lparr>is_landmark := 0\<rparr>; n = no_landmarks s; s = s\<lparr>no_landmarks := n - 1\<rparr>
            in lm_put s 0 (lm_get beyond s (unat n))))"

text \<open>\<open>pad i\<close> is what the padding of \<open>lms[i]\<close> holds: a structure is copied with it.\<close>

function dump_lms_loop ::
  "(nat \<Rightarrow> landmark) \<Rightarrow> (nat \<Rightarrow> u8 list) \<Rightarrow> dv_hop \<Rightarrow> nat \<Rightarrow> nat \<Rightarrow> nat \<Rightarrow> u8 list \<Rightarrow> u8 list" where
  "dump_lms_loop beyond pad s whence i lmsptr q =
     (if i < unat (no_landmarks s) \<and> i < DATA_LENGTH div sizeof_landmarks + whence then
        (let q = write_landmark (pad i) (lm_get beyond s i) lmsptr q;
             q = q[q_data + 1 := q ! (q_data + 1) + 1]
         in dump_lms_loop beyond pad s whence (Suc i) (lmsptr + sizeof_landmarks) q)
      else q)"
  by pat_completeness auto
termination by (relation "measure (\<lambda>(beyond, pad, s, w, i, p, q). unat (no_landmarks s) - i)") auto

text \<open>The \<open>switch\<close>: the frame and the message it leaves, before \<open>toq\<close> is negated.\<close>

definition dv_query_switch ::
  "(nat \<Rightarrow> landmark) \<Rightarrow> (nat \<Rightarrow> u8 list) \<Rightarrow> u8 list \<Rightarrow> dv_hop \<Rightarrow> dv_error + dv_hop \<times> u8 list" where
  "dv_query_switch beyond pad q s =
     (let toq = q ! 1
      in if toq = Q_IS_LM then Inr (s, q[q_data := if is_landmark s \<noteq> 0 then 1 else 0])
         else if toq = Q_SET_LM then
           (case query_set_lm beyond q s of Inl e \<Rightarrow> Inl e | Inr s \<Rightarrow> Inr (s, q))
         else if toq = Q_GET_COORD then
           (if is_landmark s \<noteq> 0
            then Inr (s, write_bytes q_data (bytes32 (lm_x (lms s ! 0)) @ bytes32 (lm_y (lms s ! 0))) q)
            else Inr (s, write_bytes q_data (bytes32 (estimate_x s) @ bytes32 (estimate_y s)) q))
         else if toq = Q_GET_DV_ALGO \<or> toq = Q_SET_DV_ALGO then
           (let q = q[1 := Q_ERROR]; q = q[q_data := toq]
            in Inr (s, write_bytes (q_data + 1) (c_string ''Unimplemented'') q))
         else if toq = Q_DUMP_LMS then
           (let whence = unat (q ! q_data); q = q[q_data + 1 := 0]
            in Inr (s, dump_lms_loop beyond pad s whence whence (q_data + 2) q))
         else if toq = Q_GET_CORRECTION then
           Inr (s, write_bytes q_data (bytes32 (correction_factor s)) q)
         else if toq = Q_RERUN_APS then Inr (s\<lparr>dv_iterations := 0\<rparr>, q)
         else if toq = Q_APS_STATUS then Inr (s, q[q_data := dv_iterations s])
         else Inr (s, write_bytes q_data (c_string ''Invalid TOQ'') (q[1 := Q_ERROR])))"

text \<open>\<open>r\<close> is what the reply command returns.\<close>

definition DV_HOP_QUERY_INPUT ::
  "u8 \<Rightarrow> (nat \<Rightarrow> landmark) \<Rightarrow> (nat \<Rightarrow> u8 list) \<Rightarrow> u8 \<Rightarrow> u8 list \<Rightarrow> dv_hop
   \<Rightarrow> dv_error + dv_hop \<times> u8 list \<times> dv_out list \<times> u8" where
  "DV_HOP_QUERY_INPUT addr beyond pad r q s =
     (let q = q[0 := addr]
      in case dv_query_switch beyond pad q s of
           Inl e \<Rightarrow> Inl e
         | Inr (s, q) \<Rightarrow>
             (let q = (if q ! 1 \<noteq> Q_ERROR then q[1 := - (q ! 1)] else q)
              in Inr (s, q, [DV_HOP_QUERY_REPLY q], r)))"

section \<open>The table's invariant\<close>

declare already_there_loop.simps [simp del] unit_vectors_loop.simps [simp del]
  corrections_loop.simps [simp del] sum_landmarks.simps [simp del] dump_lms_loop.simps [simp del]

definition dv_key :: "landmark \<Rightarrow> fixpoint \<times> fixpoint" where
  "dv_key l = (lm_x l, lm_y l)"

definition dv_entries :: "dv_hop \<Rightarrow> landmark list" where
  "dv_entries s = take (unat (no_landmarks s)) (lms s)"

definition dv_inv :: "dv_hop \<Rightarrow> bool" where
  "dv_inv s \<longleftrightarrow> length (lms s) = 3 \<and> unat (no_landmarks s) \<le> 3
     \<and> distinct (map dv_key (dv_entries s))
     \<and> (\<forall>l \<in> set (dv_entries s). lm_hops l \<noteq> -1)
     \<and> (\<forall>l \<in> set (drop (unat (no_landmarks s)) (lms s)). lm_hops l = -1)"

text \<open>What the table promises: the least known hop count of at most three landmarks.\<close>

definition dv_table :: "dv_hop \<Rightarrow> fixpoint \<times> fixpoint \<Rightarrow> u8 option" where
  "dv_table s = map_of (map (\<lambda>l. (dv_key l, lm_hops l)) (dv_entries s))"

definition dv_learn ::
  "fixpoint \<times> fixpoint \<Rightarrow> u8 \<Rightarrow> (fixpoint \<times> fixpoint \<Rightarrow> u8 option) \<Rightarrow> fixpoint \<times> fixpoint \<Rightarrow> u8 option" where
  "dv_learn k h T =
     (case T k of
        Some h0 \<Rightarrow> if 0 <s h \<and> h \<le>s h0 then T(k \<mapsto> h) else T
      | None \<Rightarrow> if card (dom T) < NUM_LANDMARKS_TO_USE then T(k \<mapsto> h) else T)"

definition dv_match :: "fixpoint \<Rightarrow> fixpoint \<Rightarrow> landmark \<Rightarrow> bool" where
  "dv_match x y l \<longleftrightarrow> lm_x l = x \<and> lm_y l = y \<and> lm_hops l \<noteq> -1"

text \<open>The scan looks at the entries from 0 to \<open>no_landmarks\<close>, that one included.\<close>

lemma already_there_loop_find:
  "i \<le> unat (no_landmarks s) \<Longrightarrow> already_there_loop beyond s x y i =
     List.find (\<lambda>j. dv_match x y (lm_get beyond s j)) [i..<Suc (unat (no_landmarks s))]"
proof (induction "unat (no_landmarks s) - i" arbitrary: i)
  case 0
  then show ?case by (subst already_there_loop.simps) (simp add: dv_match_def Let_def)
next
  case (Suc d)
  then have "i < unat (no_landmarks s)" "d = unat (no_landmarks s) - Suc i" by simp_all
  then show ?case using Suc(1) [of "Suc i"]
    by (subst already_there_loop.simps) (simp add: dv_match_def Let_def upt_conv_Cons del: upt_Suc)
qed

lemma find_upt_Some:
  "List.find P [0..<n] = Some i \<longleftrightarrow> i < n \<and> P i \<and> (\<forall>j<i. \<not> P j)"
  by (auto simp: find_Some_iff)

lemma find_upt_None: "List.find P [0..<n] = None \<longleftrightarrow> (\<forall>i<n. \<not> P i)"
  by (auto simp: find_None_iff)

text \<open>Past the end of a full table the scan reads foreign memory; the hypothesis on \<open>beyond\<close>
  of the next lemmas says that it does not look like the landmark searched for.\<close>

definition dv_no_ghost :: "(nat \<Rightarrow> landmark) \<Rightarrow> fixpoint \<Rightarrow> fixpoint \<Rightarrow> bool" where
  "dv_no_ghost beyond x y \<longleftrightarrow> \<not> dv_match x y (beyond 3)"

lemma dv_entries_nth:
  "dv_inv s \<Longrightarrow> i < unat (no_landmarks s) \<Longrightarrow> dv_entries s ! i = lms s ! i \<and> i < length (lms s)"
  by (auto simp: dv_inv_def dv_entries_def)

lemma length_dv_entries: "dv_inv s \<Longrightarrow> length (dv_entries s) = unat (no_landmarks s)"
  by (simp add: dv_inv_def dv_entries_def)

lemma dv_unused_hidden:
  assumes "dv_inv s" and "dv_no_ghost beyond x y"
  shows "\<not> dv_match x y (lm_get beyond s (unat (no_landmarks s)))"
proof (cases "unat (no_landmarks s) < 3")
  case True
  with assms(1) have "lms s ! unat (no_landmarks s) \<in> set (drop (unat (no_landmarks s)) (lms s))"
    unfolding dv_inv_def by (metis Cons_nth_drop_Suc list.set_intros(1))
  with assms(1) True show ?thesis by (auto simp: dv_inv_def dv_match_def lm_get_def)
next
  case False
  with assms show ?thesis by (auto simp: dv_inv_def dv_no_ghost_def lm_get_def)
qed

lemma already_there_Some:
  assumes "dv_inv s" and "dv_no_ghost beyond x y"
  shows "is_already_there beyond s x y = Some i \<longleftrightarrow>
    i < unat (no_landmarks s) \<and> dv_key (lms s ! i) = (x, y)"
proof -
  have m: "dv_match x y (lm_get beyond s j) \<longleftrightarrow> dv_key (lms s ! j) = (x, y)" if "j < unat (no_landmarks s)" for j
    using assms(1) that dv_entries_nth [of s j] nth_mem [of j "dv_entries s"] length_dv_entries [of s]
    by (auto simp: dv_match_def dv_key_def lm_get_def dv_inv_def)
  have d: "j = i" if "j < unat (no_landmarks s)" "i < unat (no_landmarks s)"
    "dv_key (lms s ! j) = (x, y)" "dv_key (lms s ! i) = (x, y)" for i j
    using assms(1) that dv_entries_nth [of s j] dv_entries_nth [of s i] length_dv_entries [of s]
    nth_eq_iff_index_eq [of "map dv_key (dv_entries s)" i j] by (auto simp: dv_inv_def)
  have f: "is_already_there beyond s x y = Some i \<longleftrightarrow> i < Suc (unat (no_landmarks s))
      \<and> dv_match x y (lm_get beyond s i) \<and> (\<forall>j<i. \<not> dv_match x y (lm_get beyond s j))"
    unfolding is_already_there_def using already_there_loop_find [of 0 s beyond x y]
    by (simp add: find_upt_Some del: upt_Suc)
  show ?thesis
  proof
    assume "is_already_there beyond s x y = Some i"
    then show "i < unat (no_landmarks s) \<and> dv_key (lms s ! i) = (x, y)"
      using f m [of i] dv_unused_hidden [OF assms] by (cases "i = unat (no_landmarks s)") auto
  next
    assume i: "i < unat (no_landmarks s) \<and> dv_key (lms s ! i) = (x, y)"
    have "\<not> dv_match x y (lm_get beyond s j)" if "j < i" for j
      using that i m [of j] d [of j i] by auto
    then show "is_already_there beyond s x y = Some i" using f i m [of i] by auto
  qed
qed

lemma dv_entry_mem: "dv_inv s \<Longrightarrow> i < unat (no_landmarks s) \<Longrightarrow> lms s ! i \<in> set (dv_entries s)"
  using dv_entries_nth [of s i] length_dv_entries [of s] nth_mem [of i "dv_entries s"] by simp

lemma already_there_None:
  assumes "dv_inv s" and "dv_no_ghost beyond x y"
  shows "is_already_there beyond s x y = None \<longleftrightarrow> (x, y) \<notin> dv_key ` set (dv_entries s)"
proof -
  have "is_already_there beyond s x y = None \<longleftrightarrow>
    (\<forall>i. \<not> (i < unat (no_landmarks s) \<and> dv_key (lms s ! i) = (x, y)))"
    using already_there_Some [OF assms] by (metis option.exhaust option.distinct(1))
  also have "\<dots> \<longleftrightarrow> (x, y) \<notin> dv_key ` set (dv_entries s)"
  proof
    assume a: "\<forall>i. \<not> (i < unat (no_landmarks s) \<and> dv_key (lms s ! i) = (x, y))"
    show "(x, y) \<notin> dv_key ` set (dv_entries s)"
      using a assms(1) dv_entries_nth [of s] length_dv_entries [of s]
      by (auto simp: in_set_conv_nth) metis
  next
    assume "(x, y) \<notin> dv_key ` set (dv_entries s)"
    then show "\<forall>i. \<not> (i < unat (no_landmarks s) \<and> dv_key (lms s ! i) = (x, y))"
      using dv_entry_mem [OF assms(1)] by (metis imageI)
  qed
  finally show ?thesis .
qed

section \<open>What a message does to the table\<close>

lemma map_of_update_nth:
  assumes "distinct (map fst xs)" and "i < length xs" and "fst (xs ! i) = k"
  shows "map_of (xs[i := (k, v)]) = (map_of xs)(k \<mapsto> v)"
  using assms
proof (induction xs arbitrary: i)
  case (Cons p xs)
  show ?case
  proof (cases i)
    case (Suc j)
    then have "fst p \<noteq> k" using Cons.prems by auto
    then show ?thesis using Suc Cons by (auto simp: fun_eq_iff)
  qed (use Cons.prems in \<open>auto simp: fun_eq_iff\<close>)
qed simp

lemma map_of_snoc: "k \<notin> fst ` set xs \<Longrightarrow> map_of (xs @ [(k, v)]) = (map_of xs)(k \<mapsto> v)"
  by (induction xs) (auto simp: fun_eq_iff)

lemma distinct_map_update:
  assumes "distinct (map f xs)" and "i < length xs" and "f (xs ! i) = f l"
  shows "distinct (map f (xs[i := l]))"
  using assms by (metis length_map list_update_id map_update nth_map)

lemma set_drop_update_less: "i < n \<Longrightarrow> set (drop n (xs[i := v])) = set (drop n xs)"
  by simp

text \<open>The two ways the table changes.\<close>

lemma dv_append:
  assumes "dv_inv s" and "(x, y) \<notin> dv_key ` set (dv_entries s)" and "unat (no_landmarks s) < 3"
    and s': "s' = s\<lparr>lms := (lms s)[unat (no_landmarks s) := \<lparr>lm_x = x, lm_y = y, lm_hops = h\<rparr>],
      no_landmarks := no_landmarks s + 1\<rparr>"
  shows "append_landmark x y h s = Inr s'"
    and "dv_entries s' = dv_entries s @ [\<lparr>lm_x = x, lm_y = y, lm_hops = h\<rparr>]"
    and "dv_table s' = (dv_table s)((x, y) \<mapsto> h)"
    and "h \<noteq> -1 \<Longrightarrow> dv_inv s'"
proof -
  let ?n = "unat (no_landmarks s)" and ?l = "\<lparr>lm_x = x, lm_y = y, lm_hops = h\<rparr>"
  have len: "length (lms s) = 3" using assms(1) by (simp add: dv_inv_def)
  show "append_landmark x y h s = Inr s'"
    using assms(3) len by (simp add: append_landmark_def NUM_LANDMARKS_TO_USE_def lm_put_def s')
  have n1: "unat (no_landmarks s + 1) = Suc ?n"
    using assms(3) by (simp add: unat_plus_if_size word_size)
  show e: "dv_entries s' = dv_entries s @ [?l]"
    using assms(3) len by (simp add: dv_entries_def n1 s' take_Suc_conv_app_nth)
  show "dv_table s' = (dv_table s)((x, y) \<mapsto> h)"
    using assms(2) map_of_snoc [of "(x, y)" "map (\<lambda>l. (dv_key l, lm_hops l)) (dv_entries s)" h]
    unfolding dv_table_def e by (simp add: image_image) (simp add: dv_key_def)
  assume "h \<noteq> -1"
  moreover have "set (drop (Suc ?n) (lms s')) \<subseteq> set (drop ?n (lms s))"
    using assms(3) by (simp add: set_drop_subset_set_drop s')
  moreover have "length (lms s') = 3" "unat (no_landmarks s') = Suc ?n"
    using len n1 by (simp_all add: s')
  moreover have "dv_key ?l = (x, y)" by (simp add: dv_key_def)
  ultimately show "dv_inv s'"
    using assms(1,2,3) unfolding dv_inv_def e by auto
qed

lemma dv_improve:
  assumes "dv_inv s" and "i < unat (no_landmarks s)" and "dv_key (lms s ! i) = (x, y)"
    and s': "s' = s\<lparr>lms := (lms s)[i := (lms s ! i)\<lparr>lm_hops := h\<rparr>]\<rparr>"
  shows "lm_put s i ((lm_get beyond s i)\<lparr>lm_hops := h\<rparr>) = Inr s'"
    and "dv_table s' = (dv_table s)((x, y) \<mapsto> h)"
    and "h \<noteq> -1 \<Longrightarrow> dv_inv s'"
    and "dv_table s (x, y) = Some (lm_hops (lm_get beyond s i))"
proof -
  let ?l = "(lms s ! i)\<lparr>lm_hops := h\<rparr>"
  note i = dv_entries_nth [OF assms(1,2)] length_dv_entries [OF assms(1)] assms(2)
  show "lm_put s i ((lm_get beyond s i)\<lparr>lm_hops := h\<rparr>) = Inr s'"
    using i by (simp add: lm_put_def lm_get_def s')
  have k: "dv_key ?l = (x, y)" using assms(3) by (simp add: dv_key_def)
  have e: "dv_entries s' = (dv_entries s)[i := ?l]"
    using i by (simp add: dv_entries_def take_update_swap s')
  have ds: "distinct (map fst (map (\<lambda>l. (dv_key l, lm_hops l)) (dv_entries s)))"
    using assms(1) by (simp add: dv_inv_def comp_def)
  show "dv_table s' = (dv_table s)((x, y) \<mapsto> h)"
    unfolding dv_table_def e map_update k using i assms(3)
    by (subst map_of_update_nth [OF ds]) simp_all
  show "dv_table s (x, y) = Some (lm_hops (lm_get beyond s i))"
    unfolding dv_table_def
    using i assms(3) ds dv_entry_mem [OF assms(1,2)]
    by (intro map_of_is_SomeI) (auto simp: lm_get_def image_iff intro!: bexI [of _ "lms s ! i"])
  assume "h \<noteq> -1"
  moreover have "length (lms s') = length (lms s)" "no_landmarks s' = no_landmarks s"
    "drop (unat (no_landmarks s)) (lms s') = drop (unat (no_landmarks s)) (lms s)"
    using assms(2) by (simp_all add: s')
  moreover have "distinct (map dv_key ((dv_entries s)[i := ?l]))"
    using assms(1) i k assms(3) by (intro distinct_map_update) (auto simp: dv_inv_def)
  ultimately show "dv_inv s'"
    using assms(1) unfolding dv_inv_def e by (auto dest!: set_update_subset_insert [THEN subsetD])
qed

lemma dom_dv_table: "dom (dv_table s) = dv_key ` set (dv_entries s)"
  by (simp add: dv_table_def dom_map_of_conv_image_fst image_image)

lemma card_dv_table: "dv_inv s \<Longrightarrow> card (dom (dv_table s)) = unat (no_landmarks s)"
  unfolding dom_dv_table
  using distinct_card [of "map dv_key (dv_entries s)"] length_dv_entries [of s] by (simp add: dv_inv_def)

text \<open>
  The event on a table in order: no error, the table learns the hop count plus one, it stays in
  order (the one hop count it cannot hold is \<open>-1\<close>), and a relay is sent exactly for a known
  landmark that is not further away than it was.
\<close>

definition dv_relays :: "dv_hop \<Rightarrow> fixpoint \<Rightarrow> fixpoint \<Rightarrow> u8 \<Rightarrow> dv_out list" where
  "dv_relays s x y h =
     (case dv_table s (x, y) of
        Some h0 \<Rightarrow> if 0 <s h \<and> h \<le>s h0 then [DV_HOP_OUTPUT x y h] else []
      | None \<Rightarrow> [])"

lemma dv_input:
  assumes inv: "dv_inv s" and ghost: "dv_no_ghost beyond x y"
  obtains s' where "DV_HOP_INPUT beyond x y h s = Inr (s', dv_relays s x y (h + 1) @ dv_full_table s', 1)"
    and "dv_table s' = dv_learn (x, y) (h + 1) (dv_table s)"
    and "h \<noteq> -2 \<Longrightarrow> dv_inv s'"
    and "no_landmarks s \<noteq> 0 \<Longrightarrow> lm_hops (lms s ! 0) = 0 \<Longrightarrow> lms s' ! 0 = lms s ! 0 \<and> no_landmarks s' \<noteq> 0"
    and "is_landmark s' = is_landmark s" and "correction_factor s' = correction_factor s"
    and "dv_iterations s' = dv_iterations s"
proof -
  have hm: "h + 1 \<noteq> -1" if "h \<noteq> -2"
    using that by (metis add_diff_cancel_right' diff_add_eq_diff_diff_swap minus_add_distrib one_add_one uminus_add_conv_diff)
  show ?thesis
  proof (cases "is_already_there beyond s x y")
    case None
    then have new: "(x, y) \<notin> dv_key ` set (dv_entries s)" using already_there_None [OF inv ghost] by simp
    then have t: "dv_table s (x, y) = None" using dom_dv_table [of s] by (metis domIff)
    show ?thesis
    proof (cases "unat (no_landmarks s) < 3")
      case True
      define s' where "s' = s\<lparr>lms := (lms s)[unat (no_landmarks s) := \<lparr>lm_x = x, lm_y = y, lm_hops = h + 1\<rparr>],
        no_landmarks := no_landmarks s + 1\<rparr>"
      note a = dv_append [OF inv new True s'_def]
      have "unat (no_landmarks s + 1) = Suc (unat (no_landmarks s))"
        using True by (simp add: unat_plus_if_size word_size)
      then have "no_landmarks s \<noteq> 0 \<Longrightarrow> lms s' ! 0 = lms s ! 0 \<and> no_landmarks s' \<noteq> 0"
        by (cases "unat (no_landmarks s)") (auto simp: s'_def unat_eq_0)
      then show ?thesis
        using None True a hm t card_dv_table [OF inv]
        by (intro that [of s'])
           (auto simp: DV_HOP_INPUT_def NUM_LANDMARKS_TO_USE_def dv_learn_def dv_relays_def s'_def)
    next
      case False
      then show ?thesis
        using None t card_dv_table [OF inv] inv
        by (intro that [of s]) (auto simp: DV_HOP_INPUT_def NUM_LANDMARKS_TO_USE_def dv_learn_def dv_relays_def)
    qed
  next
    case (Some i)
    then have i: "i < unat (no_landmarks s)" "dv_key (lms s ! i) = (x, y)"
      using already_there_Some [OF inv ghost] by auto
    define s' where "s' = s\<lparr>lms := (lms s)[i := (lms s ! i)\<lparr>lm_hops := h + 1\<rparr>]\<rparr>"
    note a = dv_improve(1) [OF inv i s'_def, of beyond] dv_improve(2,3) [OF inv i s'_def]
    have t: "dv_table s (x, y) = Some (lm_hops (lm_get beyond s i))"
      by (rule dv_improve(4) [OF inv i s'_def])
    show ?thesis
    proof (cases "0 <s h + 1 \<and> h + 1 \<le>s lm_hops (lm_get beyond s i)")
      case True
      have "lm_hops (lms s ! 0) = 0 \<Longrightarrow> lms s' ! 0 = lms s ! 0"
        using True inv by (cases i) (auto simp: s'_def dv_inv_def lm_get_def word_sless_alt word_sle_eq nth_list_update split: if_splits)
      then show ?thesis
        using Some a True hm t
        by (intro that [of s']) (auto simp: DV_HOP_INPUT_def dv_learn_def dv_relays_def Let_def s'_def)
    next
      case False
      then show ?thesis
        using Some t inv
        by (intro that [of s]) (auto simp: DV_HOP_INPUT_def dv_learn_def dv_relays_def Let_def)
    qed
  qed
qed

text \<open>Foreign memory that looks like the landmark searched for makes no difference to the frame,
  or the event writes out of bounds.\<close>

lemma dv_input_ghost:
  assumes inv: "dv_inv s" and r: "DV_HOP_INPUT beyond x y h s = Inr (s', out, r)"
  shows "(s' = s \<and> out = dv_full_table s) \<or>
    (\<exists>b. dv_no_ghost b x y \<and> DV_HOP_INPUT b x y h s = Inr (s', out, r))"
proof (cases "is_already_there beyond s x y = Some 3 \<and> length (lms s) = 3")
  case True
  with r have "s' = s \<and> out = dv_full_table s"
    by (auto simp: DV_HOP_INPUT_def lm_put_def Let_def split: if_splits)
  then show ?thesis by blast
next
  case False
  define b where "b = beyond(3 := \<lparr>lm_x = x, lm_y = y, lm_hops = -1\<rparr>)"
  have ng: "dv_no_ghost b x y" by (simp add: dv_no_ghost_def b_def dv_match_def)
  have len: "length (lms s) = 3" "unat (no_landmarks s) \<le> 3" using inv by (auto simp: dv_inv_def)
  have g: "lm_get b s i = lm_get beyond s i" if "i \<noteq> 3" for i using that by (simp add: lm_get_def b_def)
  have ng3: "\<not> dv_match x y (lm_get b s 3)" using len ng by (simp add: lm_get_def dv_no_ghost_def)
  have f: "is_already_there c s x y = List.find (\<lambda>j. dv_match x y (lm_get c s j)) [0..<Suc (unat (no_landmarks s))]" for c
    unfolding is_already_there_def by (rule already_there_loop_find) simp
  have eq: "is_already_there b s x y = is_already_there beyond s x y"
  proof (cases "is_already_there beyond s x y")
    case None
    then have "\<forall>i<Suc (unat (no_landmarks s)). \<not> dv_match x y (lm_get beyond s i)"
      unfolding f find_upt_None .
    then have "\<forall>i<Suc (unat (no_landmarks s)). \<not> dv_match x y (lm_get b s i)"
      using g ng3 by metis
    then have "is_already_there b s x y = None" unfolding f find_upt_None .
    with None show ?thesis by simp
  next
    case (Some i)
    then have i: "i < Suc (unat (no_landmarks s))" "dv_match x y (lm_get beyond s i)"
      "\<forall>j<i. \<not> dv_match x y (lm_get beyond s j)"
      unfolding f find_upt_Some by auto
    have "i \<noteq> 3" using False Some len by auto
    then have "i < 3" using i(1) len(2) by linarith
    then have "is_already_there b s x y = Some i"
      unfolding f find_upt_Some using i g by auto
    with Some show ?thesis by simp
  qed
  have "DV_HOP_INPUT b x y h s = DV_HOP_INPUT beyond x y h s"
    using False len g unfolding DV_HOP_INPUT_def eq by (auto simp: Let_def split: option.splits)
  with r ng show ?thesis by auto
qed

section \<open>The other handlers and the table\<close>

definition dv_same :: "dv_hop \<Rightarrow> dv_hop \<Rightarrow> bool" where
  "dv_same s s' \<longleftrightarrow> lms s' = lms s \<and> no_landmarks s' = no_landmarks s \<and> is_landmark s' = is_landmark s"

lemma dv_same_refl [simp]: "dv_same s s"
  by (simp add: dv_same_def)

lemma dv_same_entries: "dv_same s s' \<Longrightarrow> dv_entries s' = dv_entries s"
  by (simp add: dv_same_def dv_entries_def)

lemma dv_same_inv: "dv_same s s' \<Longrightarrow> dv_inv s' = dv_inv s \<and> dv_table s' = dv_table s"
  using dv_same_entries [of s s'] by (simp add: dv_inv_def dv_table_def dv_same_def)

lemma dv_same_trans: "dv_same s t \<Longrightarrow> dv_same t u \<Longrightarrow> dv_same s u"
  by (simp add: dv_same_def)

lemma clock_same: "dv_same s (fst (DV_HOP_CLOCK_EVENT s))"
  by (simp add: DV_HOP_CLOCK_EVENT_def dv_same_def Let_def)

lemma correction_same: "dv_same s (fst (DV_HOP_CORRECTION_INPUT x y c s))"
  by (simp add: DV_HOP_CORRECTION_INPUT_def dv_same_def)

lemma compute_corrections_same: "compute_corrections beyond s = Some s' \<Longrightarrow> dv_same s s'"
  by (auto simp: compute_corrections_def dv_same_def Option.bind_eq_Some_conv)

lemma sum_landmarks_same: "dv_same s (sum_landmarks beyond i s)"
proof (induction beyond i s rule: sum_landmarks.induct)
  case (1 beyond i s)
  show ?case
  proof (cases "i < unat (no_landmarks s)")
    case True
    from 1 [OF True] show ?thesis
      using True by (subst sum_landmarks.simps) (simp add: dv_same_def)
  qed (subst sum_landmarks.simps, simp)
qed

lemma aps_round_same: "aps_round c0 v s = Some (stop, v', s') \<Longrightarrow> dv_same s s'"
  by (auto simp: aps_round_def dv_same_def Option.bind_eq_Some_conv Let_def split: if_splits)

lemma aps_loop_same:
  assumes "aps_loop c0 v s = Some s'"
  shows "dv_same s s'"
proof (rule aps_loop.raw_induct [OF _ assms])
  fix loop c0 v s s'
  assume IH: "\<And>c0 v s s'. loop c0 v s = Some s' \<Longrightarrow> dv_same s s'"
    and "Option.bind (aps_round c0 v s) (\<lambda>(stop, v, s). if stop then Some s else loop c0 v s) = Some s'"
  then obtain stop v1 s1 where "aps_round c0 v s = Some (stop, v1, s1)"
    "(if stop then Some s1 else loop c0 v1 s1) = Some s'"
    by (auto simp: Option.bind_eq_Some_conv)
  then show "dv_same s s'" using IH aps_round_same dv_same_trans by (auto split: if_splits) blast+
qed

lemma aps_algorithm_same: "aps_algorithm beyond a0 b0 d0 c0 s = Some s' \<Longrightarrow> dv_same s s'"
  unfolding aps_algorithm_def aps_iterations_def Let_def
  using sum_landmarks_same [of "s\<lparr>dv_iterations := 1, estimate_x := 0, estimate_y := 0\<rparr>" beyond 0]
  by (auto dest!: aps_loop_same simp: dv_same_def)

lemma query_same:
  "DV_HOP_QUERY_INPUT addr beyond pad r q s = Inr (s', q', out, r') \<Longrightarrow> q ! 1 \<noteq> Q_SET_LM \<Longrightarrow> dv_same s s'"
  by (auto simp: DV_HOP_QUERY_INPUT_def dv_query_switch_def dv_same_def Let_def split: sum.splits if_splits)

lemma landmark_file_loop_eq:
  "landmark_file_loop addr rows s =
     (case map_of rows (ucast addr) of
        None \<Rightarrow> s
      | Some (x, y) \<Rightarrow> s\<lparr>lms := (lms s)[0 := \<lparr>lm_x = fp_int_fix x, lm_y = fp_int_fix y, lm_hops = 0\<rparr>],
          no_landmarks := 1, is_landmark := 1\<rparr>)"
  by (induction addr rows s rule: landmark_file_loop.induct) simp_all

text \<open>A node starts with an empty table, or with itself at distance 0 if the file lists it.\<close>

definition dv_home :: "u8 \<Rightarrow> (u32 \<times> u32 \<times> u32) list \<Rightarrow> (fixpoint \<times> fixpoint) option" where
  "dv_home addr rows = map_option (\<lambda>(x, y). (fp_int_fix x, fp_int_fix y)) (map_of rows (ucast addr))"

lemma dv_init:
  assumes "length (lms s) = 3"
  obtains s' where "DV_HOP_INIT addr (Some rows) s = Inr (s', [DV_HOP_SUB_OUTPUT_INIT], 1)"
    and "dv_inv s'" and "dv_table s' = (case dv_home addr rows of None \<Rightarrow> Map.empty | Some k \<Rightarrow> [k \<mapsto> 0])"
    and "is_landmark s' \<noteq> 0 \<longleftrightarrow> dv_home addr rows \<noteq> None"
    and "is_landmark s' \<noteq> 0 \<Longrightarrow> no_landmarks s' \<noteq> 0 \<and> lm_hops (lms s' ! 0) = 0"
    and "correction_factor s' = 0" and "dv_iterations s' = 0" and "current_tick s' = 0"
proof -
  obtain l0 l1 l2 where l: "lms s = [l0, l1, l2]"
    using assms by (auto simp: numeral_3_eq_3 length_Suc_conv)
  have n: "[0..<3] = [0, 1, 2 :: nat]" by (simp add: upt_rec)
  show ?thesis
  proof (cases "map_of rows (ucast addr)")
    case None
    then show ?thesis
      using l by (intro that [of "s\<lparr>no_landmarks := 0, is_landmark := 0, dv_iterations := 0,
          current_tick := 0, correction_factor := 0,
          lms := [l0\<lparr>lm_hops := -1\<rparr>, l1\<lparr>lm_hops := -1\<rparr>, l2\<lparr>lm_hops := -1\<rparr>]\<rparr>"])
        (auto simp: DV_HOP_INIT_def check_if_landmark_def landmark_file_loop_eq NUM_LANDMARKS_TO_USE_def
           n dv_home_def dv_inv_def dv_entries_def dv_table_def)
  next
    case (Some p)
    obtain x y where p: "p = (x, y)" by (cases p)
    show ?thesis
      using l Some p by (intro that [of "s\<lparr>no_landmarks := 1, is_landmark := 1, dv_iterations := 0,
          current_tick := 0, correction_factor := 0,
          lms := [\<lparr>lm_x = fp_int_fix x, lm_y = fp_int_fix y, lm_hops = 0\<rparr>, l1\<lparr>lm_hops := -1\<rparr>, l2\<lparr>lm_hops := -1\<rparr>]\<rparr>"])
        (auto simp: DV_HOP_INIT_def check_if_landmark_def landmark_file_loop_eq NUM_LANDMARKS_TO_USE_def
           n dv_home_def dv_inv_def dv_entries_def dv_table_def dv_key_def)
  qed
qed

section \<open>When the position iteration returns\<close>

text \<open>The counter is a byte, so the test against \<open>MAX_ITERATIONS\<close> never succeeds.\<close>

lemma iteration_bound_never_met: "\<not> MAX_ITERATIONS < unat (n :: u8)"
  using unsigned_less [of n, where ?'a = nat] by (simp add: MAX_ITERATIONS_def)

text \<open>The size of the last correction, and a round that goes on.\<close>

definition aps_error :: "aps_locals \<Rightarrow> fixpoint option" where
  "aps_error v = fp_sqrt (fp_multiply (ap_d v ! 0) (ap_d v ! 0) + fp_multiply (ap_d v ! 1) (ap_d v ! 1))"

inductive aps_steps :: "matrix \<Rightarrow> aps_locals \<times> dv_hop \<Rightarrow> aps_locals \<times> dv_hop \<Rightarrow> bool" for c0 where
  aps_here: "aps_steps c0 p p"
| aps_next: "aps_round c0 v s = Some (False, v', s') \<Longrightarrow> aps_steps c0 (v', s') q \<Longrightarrow> aps_steps c0 (v, s) q"

lemma aps_round_stop:
  assumes "aps_round c0 v s = Some (True, v', s')"
  shows "\<exists>e. aps_error v' = Some e \<and> e <s EPSILON"
    and "estimate_x s' = estimate_x s" and "estimate_y s' = estimate_y s"
  using assms
  by (auto simp: aps_round_def aps_error_def Option.bind_eq_Some_conv Let_def iteration_bound_never_met
           split: if_splits prod.splits)

lemma aps_round_continue:
  assumes "aps_round c0 v s = Some (False, v', s')"
  shows "\<exists>e. aps_error v' = Some e \<and> \<not> e <s EPSILON"
  using assms
  by (auto simp: aps_round_def aps_error_def Option.bind_eq_Some_conv Let_def split: if_splits prod.splits)

lemma aps_loop_steps:
  assumes "aps_loop c0 v s = Some r"
  shows "\<exists>v1 s1 v2. aps_steps c0 (v, s) (v1, s1) \<and> aps_round c0 v1 s1 = Some (True, v2, r)"
proof (rule aps_loop.raw_induct [OF _ assms])
  fix loop c0 v s r
  assume IH: "\<And>c0 v s r. loop c0 v s = Some r \<Longrightarrow>
      \<exists>v1 s1 v2. aps_steps c0 (v, s) (v1, s1) \<and> aps_round c0 v1 s1 = Some (True, v2, r)"
    and "Option.bind (aps_round c0 v s) (\<lambda>(stop, v, s). if stop then Some s else loop c0 v s) = Some r"
  then obtain stop v' s' where rd: "aps_round c0 v s = Some (stop, v', s')"
    "(if stop then Some s' else loop c0 v' s') = Some r"
    by (auto simp: Option.bind_eq_Some_conv)
  show "\<exists>v1 s1 v2. aps_steps c0 (v, s) (v1, s1) \<and> aps_round c0 v1 s1 = Some (True, v2, r)"
  proof (cases stop)
    case True
    with rd have "aps_round c0 v s = Some (True, v', r)" by simp
    then show ?thesis using aps_here by blast
  next
    case False
    then obtain v1 s1 v2 where "aps_steps c0 (v', s') (v1, s1)" "aps_round c0 v1 s1 = Some (True, v2, r)"
      using rd IH [of c0 v' s' r] by auto
    moreover have "aps_steps c0 (v, s) (v1, s1)"
      using rd(1) False by (intro aps_next [OF _ calculation(1)]) simp
    ultimately show ?thesis by blast
  qed
qed

lemma aps_steps_loop:
  assumes "aps_steps c0 p q" and "aps_round c0 (fst q) (snd q) = Some (True, v2, r)"
  shows "aps_loop c0 (fst p) (snd p) = Some r"
  using assms
proof induction
  case (aps_here p)
  then show ?case by (subst aps_loop.simps) simp
next
  case (aps_next v s v' s' q)
  then show ?case by (subst aps_loop.simps) simp
qed

text \<open>A run inside a set of states in which no round stops has no result.\<close>

lemma aps_loop_diverges:
  assumes start: "P v s"
    and closed: "\<And>v s. P v s \<Longrightarrow> \<exists>v' s'. aps_round c0 v s = Some (False, v', s') \<and> P v' s'"
  shows "aps_loop c0 v s = None"
proof (rule ccontr)
  assume "aps_loop c0 v s \<noteq> None"
  then obtain v1 s1 v2 r where run: "aps_steps c0 (v, s) (v1, s1)" "aps_round c0 v1 s1 = Some (True, v2, r)"
    using aps_loop_steps by blast
  from run(1) start have "P v1 s1"
  proof (induction "(v, s)" "(v1, s1)" arbitrary: v s)
    case (aps_next v s v' s')
    then show ?case using closed by (metis Pair_inject option.inject)
  qed
  then show False using closed run(2) by fastforce
qed

section \<open>The uninitialised arrays\<close>

text \<open>With a full table the first round overwrites all of them before it reads.\<close>

lemma unit_vectors_loop_end: "N \<le> i \<Longrightarrow> unit_vectors_loop s N i a b = Some (a, b)"
  by (subst unit_vectors_loop.simps) simp

lemma unit_vectors_overwrite:
  assumes "unat (no_landmarks s) = 3" and "length a = 3" and "length b = 3" and "length a' = 3" and "length b' = 3"
  shows "calculate_unit_vectors s a b 3 = calculate_unit_vectors s a' b' 3"
proof -
  obtain p q r t u w p' q' r' t' u' w'
    where "a = [p, q, r]" "b = [t, u, w]" "a' = [p', q', r']" "b' = [t', u', w']"
    using assms by (auto simp: numeral_3_eq_3 length_Suc_conv)
  then show ?thesis
    using assms(1) unfolding calculate_unit_vectors_def
    by (subst (1 2) unit_vectors_loop.simps, simp add: Let_def,
        subst (1 2) unit_vectors_loop.simps, simp add: Let_def,
        subst (1 2) unit_vectors_loop.simps, simp add: Let_def unit_vectors_loop_end)
qed

definition aps_shape :: "matrix \<Rightarrow> fixpoint list \<Rightarrow> fixpoint list \<Rightarrow> matrix \<Rightarrow> bool" where
  "aps_shape a b d c \<longleftrightarrow> length a = 3 \<and> length b = 3 \<and> length d = 2
     \<and> length c = 2 \<and> length (c ! 0) = 2 \<and> length (c ! 1) = 2"

lemma least_squares_overwrite:
  assumes "length c = 2" "length (c ! 0) = 2" "length (c ! 1) = 2" "length d = 2"
  shows "least_squares c n 2 a b d = least_squares [[0, 0], [0, 0]] n 2 a b [0, 0]"
  unfolding least_squares_def
  by (subst matvectmult_2 [OF assms], subst matvectmult_2) simp_all

lemma length_least_squares:
  assumes "length c = 2" "length (c ! 0) = 2" "length (c ! 1) = 2" "length d = 2"
  shows "length (least_squares c n 2 a b d) = 2"
  unfolding least_squares_def by (subst matvectmult_2 [OF assms]) (simp add: Let_def)

lemma aps_round_overwrite:
  assumes "unat (no_landmarks s) = 3" and "aps_shape (ap_a v) (ap_b v) (ap_d v) c0"
  shows "aps_round c0 v s = aps_round [[0, 0], [0, 0]]
    (v\<lparr>ap_a := [[0, 0], [0, 0], [0, 0]], ap_b := [0, 0, 0], ap_d := [0, 0]\<rparr>) s"
  using assms least_squares_overwrite [of c0 "ap_d v" 3]
    unit_vectors_overwrite [of "s\<lparr>dv_iterations := dv_iterations s + 1\<rparr>" "ap_a v" "ap_b v"
       "[[0, 0], [0, 0], [0, 0]]" "[0, 0, 0]"]
  by (simp add: aps_round_def aps_shape_def NUM_LANDMARKS_TO_USE_def NUM_COORDINATES_def)

lemma unit_vectors_loop_shape:
  "unit_vectors_loop s N i a b = Some (a', b') \<Longrightarrow> length a' = length a \<and> length b' = length b"
proof (induction s N i a b rule: unit_vectors_loop.induct)
  case (1 s N i a b)
  show ?case
  proof (cases "i < unat (no_landmarks s) \<and> i < N")
    case True
    then show ?thesis using 1(2) by (subst (asm) unit_vectors_loop.simps)
      (auto simp: Let_def Option.bind_eq_Some_conv dest!: 1(1) [OF True refl refl refl])
  next
    case False
    then show ?thesis using 1(2) by (subst (asm) unit_vectors_loop.simps) auto
  qed
qed

lemma aps_round_shape:
  assumes "aps_round c0 v s = Some (stop, v', s')" and "aps_shape (ap_a v) (ap_b v) (ap_d v) c0"
  shows "aps_shape (ap_a v') (ap_b v') (ap_d v') c0"
proof -
  have "length (ap_a v') = 3 \<and> length (ap_b v') = 3 \<and> length (ap_d v') = 2"
    using assms length_least_squares [of c0 "ap_d v" 3]
    by (auto simp: aps_round_def Let_def Option.bind_eq_Some_conv calculate_unit_vectors_def aps_shape_def
             NUM_LANDMARKS_TO_USE_def NUM_COORDINATES_def
             split: if_splits dest!: unit_vectors_loop_shape)
  with assms(2) show ?thesis by (simp add: aps_shape_def)
qed

section \<open>A round as a computation on words\<close>

text \<open>With three landmarks in the table a round is a function of the estimate, the last error
  and the alternative estimate. The functions take evaluated arguments, so that rewriting with
  their equations computes a round.\<close>

definition sqrt_of :: "fixpoint \<Rightarrow> fixpoint" where
  "sqrt_of x = the (fp_sqrt x)"

lemma fp_sqrt_eq: "fp_sqrt x = Some (sqrt_of x)"
  using fp_sqrt_returns [of x] by (auto simp: sqrt_of_def)

definition norm_of :: "fixpoint \<Rightarrow> fixpoint \<Rightarrow> fixpoint" where
  "norm_of x y = sqrt_of (fp_multiply x x + fp_multiply y y)"

type_synonym row = "fixpoint \<times> fixpoint \<times> fixpoint"

definition row_at :: "fixpoint \<Rightarrow> fixpoint \<Rightarrow> fixpoint \<Rightarrow> fixpoint \<Rightarrow> row" where
  "row_at tx ty len dist = (- fp_div tx len, - fp_div ty len, len - dist)"

definition row_of :: "fixpoint \<Rightarrow> fixpoint \<Rightarrow> fixpoint \<Rightarrow> landmark \<Rightarrow> row" where
  "row_of ex ey cf l = row_at (ex - lm_x l) (ey - lm_y l) (norm_of (ex - lm_x l) (ey - lm_y l))
     (fp_multiply (fp_int_fix (scast (lm_hops l))) cf)"

lemma unit_vectors_rows:
  assumes "unat (no_landmarks s) = 3" and "lms s = [l0, l1, l2]"
    and "row_of (estimate_x s) (estimate_y s) (correction_factor s) l0 = (p, q, r)"
    and "row_of (estimate_x s) (estimate_y s) (correction_factor s) l1 = (p', q', r')"
    and "row_of (estimate_x s) (estimate_y s) (correction_factor s) l2 = (p'', q'', r'')"
  shows "calculate_unit_vectors s [[0, 0], [0, 0], [0, 0]] [0, 0, 0] 3 = Some ([[p, q], [p', q'], [p'', q'']], [r, r', r''])"
  using assms unfolding calculate_unit_vectors_def
  by (subst unit_vectors_loop.simps, simp add: Let_def fp_sqrt_eq,
      subst unit_vectors_loop.simps, simp add: Let_def fp_sqrt_eq,
      subst unit_vectors_loop.simps, simp add: Let_def fp_sqrt_eq unit_vectors_loop_end)
     (simp add: row_of_def row_at_def norm_of_def)

definition cramer :: "fixpoint \<Rightarrow> fixpoint \<Rightarrow> fixpoint \<Rightarrow> fixpoint \<Rightarrow> fixpoint \<Rightarrow> fixpoint \<Rightarrow> fixpoint \<times> fixpoint" where
  "cramer c00 c01 c11 d0 d1 delta =
     (fp_div (fp_multiply d1 c01 - fp_multiply d0 c11) delta,
      fp_div (fp_multiply d0 c01 - fp_multiply d1 c00) delta)"

definition solve_at :: "fixpoint \<Rightarrow> fixpoint \<Rightarrow> fixpoint \<Rightarrow> fixpoint \<Rightarrow> fixpoint \<Rightarrow> fixpoint \<times> fixpoint" where
  "solve_at c00 c01 c11 d0 d1 = cramer c00 c01 c11 d0 d1 (fp_multiply c01 c01 - fp_multiply c00 c11)"

fun solve_rows :: "row \<Rightarrow> row \<Rightarrow> row \<Rightarrow> fixpoint \<times> fixpoint" where
  "solve_rows (p, q, r) (p', q', r') (p'', q'', r'') =
     solve_at (fp_multiply p p + fp_multiply p' p' + fp_multiply p'' p'')
       (fp_multiply p q + fp_multiply p' q' + fp_multiply p'' q'')
       (fp_multiply q q + fp_multiply q' q' + fp_multiply q'' q'')
       (fp_multiply p r + fp_multiply p' r' + fp_multiply p'' r'')
       (fp_multiply q r + fp_multiply q' r' + fp_multiply q'' r'')"

lemma least_squares_rows:
  "least_squares [[0, 0], [0, 0]] 3 2 [[p, q], [p', q'], [p'', q'']] [r, r', r''] [0, 0] =
     [fst (solve_rows (p, q, r) (p', q', r') (p'', q'', r'')), snd (solve_rows (p, q, r) (p', q', r') (p'', q'', r''))]"
proof -
  have c: "length [[0, 0], [0, 0 :: fixpoint]] = 2" "length ([[0, 0], [0, 0 :: fixpoint]] ! 0) = 2"
    "length ([[0, 0], [0, 0 :: fixpoint]] ! 1) = 2" "length [0, 0 :: fixpoint] = 2" by simp_all
  have q: "fp_multiply q p = fp_multiply p q" "fp_multiply q' p' = fp_multiply p' q'"
    "fp_multiply q'' p'' = fp_multiply p'' q''" by (rule fp_multiply_comm)+
  show ?thesis
    unfolding least_squares_def
    by (subst matvectmult_2 [OF c]) (simp add: Let_def solve_at_def cramer_def numeral_3_eq_3 q)
qed

text \<open>The state of the iteration: estimate, last error, alternative estimate.\<close>

type_synonym aps_state = "fixpoint \<times> fixpoint \<times> fixpoint \<times> fixpoint \<times> fixpoint"

fun aps_decide :: "aps_state \<Rightarrow> fixpoint \<times> fixpoint \<Rightarrow> fixpoint \<Rightarrow> bool \<times> aps_state" where
  "aps_decide (ex, ey, olderr, ax, ay) (d0, d1) e =
     (if e <s 0x3333 then (True, (ex, ey, olderr, ax, ay))
      else if olderr <s e then (False, (ax, ay, e, ax, ay))
      else (False, (ex + d0, ey + d1, e, ex - d0, ey - d1)))"

fun aps_apply :: "aps_state \<Rightarrow> fixpoint \<times> fixpoint \<Rightarrow> bool \<times> aps_state" where
  "aps_apply st (d0, d1) = aps_decide st (d0, d1) (norm_of d0 d1)"

fun aps_fast :: "landmark \<Rightarrow> landmark \<Rightarrow> landmark \<Rightarrow> fixpoint \<Rightarrow> aps_state \<Rightarrow> bool \<times> aps_state" where
  "aps_fast l0 l1 l2 cf (ex, ey, olderr, ax, ay) =
     aps_apply (ex, ey, olderr, ax, ay) (solve_rows (row_of ex ey cf l0) (row_of ex ey cf l1) (row_of ex ey cf l2))"

definition aps_view :: "aps_locals \<Rightarrow> dv_hop \<Rightarrow> aps_state" where
  "aps_view v s = (estimate_x s, estimate_y s, ap_olderror v, ap_alt_x v, ap_alt_y v)"

lemma aps_round_fast:
  assumes "unat (no_landmarks s) = 3" and "lms s = [l0, l1, l2]" and "correction_factor s = cf"
    and "aps_shape (ap_a v) (ap_b v) (ap_d v) c0"
  obtains stop v' s' where "aps_round c0 v s = Some (stop, v', s')"
    and "aps_fast l0 l1 l2 cf (aps_view v s) = (stop, aps_view v' s')"
    and "aps_shape (ap_a v') (ap_b v') (ap_d v') c0"
    and "no_landmarks s' = no_landmarks s" and "lms s' = lms s" and "correction_factor s' = cf"
proof -
  let ?r = "row_of (estimate_x s) (estimate_y s) cf"
  obtain p q r p' q' r' p'' q'' r'' where rows: "?r l0 = (p, q, r)" "?r l1 = (p', q', r')" "?r l2 = (p'', q'', r'')"
    by (metis prod_cases3)
  obtain d0 d1 where d: "solve_rows (?r l0) (?r l1) (?r l2) = (d0, d1)" by (metis prod.exhaust)
  let ?s = "s\<lparr>dv_iterations := dv_iterations s + 1\<rparr>"
  have uv: "calculate_unit_vectors ?s [[0, 0], [0, 0], [0, 0]] [0, 0, 0] 3 =
      Some ([[p, q], [p', q'], [p'', q'']], [r, r', r''])"
    using assms(1,2,3) rows by (intro unit_vectors_rows) simp_all
  have e: "fp_sqrt (fp_multiply d0 d0 + fp_multiply d1 d1) = Some (norm_of d0 d1)"
    by (simp add: norm_of_def fp_sqrt_eq)
  have "\<exists>stop v' s'. aps_round c0 v s = Some (stop, v', s')
      \<and> aps_fast l0 l1 l2 cf (aps_view v s) = (stop, aps_view v' s')
      \<and> no_landmarks s' = no_landmarks s \<and> lms s' = lms s \<and> correction_factor s' = cf"
    unfolding aps_round_overwrite [OF assms(1,4)]
    using uv e d rows assms(3) least_squares_rows [of p q p' q' p'' q'' r r' r'']
    by (simp add: aps_round_def NUM_LANDMARKS_TO_USE_def NUM_COORDINATES_def aps_view_def EPSILON_def
                  iteration_bound_never_met Let_def) auto
  with that aps_round_shape [OF _ assms(4)] show ?thesis by blast
qed

primrec aps_run :: "nat \<Rightarrow> landmark \<Rightarrow> landmark \<Rightarrow> landmark \<Rightarrow> fixpoint \<Rightarrow> aps_state \<Rightarrow> aps_state option" where
  "aps_run 0 l0 l1 l2 cf st = Some st"
| "aps_run (Suc n) l0 l1 l2 cf st =
     (case aps_fast l0 l1 l2 cf st of (stop, st') \<Rightarrow> if stop then None else aps_run n l0 l1 l2 cf st')"

definition aps_ready :: "landmark \<Rightarrow> landmark \<Rightarrow> landmark \<Rightarrow> fixpoint \<Rightarrow> matrix \<Rightarrow> aps_locals \<Rightarrow> dv_hop \<Rightarrow> bool" where
  "aps_ready l0 l1 l2 cf c0 v s \<longleftrightarrow> unat (no_landmarks s) = 3 \<and> lms s = [l0, l1, l2]
     \<and> correction_factor s = cf \<and> aps_shape (ap_a v) (ap_b v) (ap_d v) c0"

lemma aps_ready_round:
  assumes "aps_ready l0 l1 l2 cf c0 v s" and "aps_fast l0 l1 l2 cf (aps_view v s) = (stop, st')"
  obtains v' s' where "aps_round c0 v s = Some (stop, v', s')" and "aps_view v' s' = st'"
    and "aps_ready l0 l1 l2 cf c0 v' s'"
proof -
  have a: "unat (no_landmarks s) = 3" "lms s = [l0, l1, l2]" "correction_factor s = cf"
    "aps_shape (ap_a v) (ap_b v) (ap_d v) c0"
    using assms(1) by (simp_all add: aps_ready_def)
  obtain stop2 v' s' where r: "aps_round c0 v s = Some (stop2, v', s')"
    "aps_fast l0 l1 l2 cf (aps_view v s) = (stop2, aps_view v' s')" "aps_shape (ap_a v') (ap_b v') (ap_d v') c0"
    "no_landmarks s' = no_landmarks s" "lms s' = lms s" "correction_factor s' = cf"
    by (rule aps_round_fast [OF a])
  with assms(2) a show ?thesis by (intro that [of v' s']) (simp_all add: aps_ready_def)
qed

lemma aps_run_diverges:
  assumes "aps_ready l0 l1 l2 cf c0 v s" and "aps_run n l0 l1 l2 cf (aps_view v s) = Some st"
    and loop: "aps_run (Suc m) l0 l1 l2 cf st = Some st"
  shows "aps_loop c0 v s = None"
proof (rule aps_loop_diverges)
  let ?P = "\<lambda>v s. aps_ready l0 l1 l2 cf c0 v s \<and> (\<exists>n. aps_run n l0 l1 l2 cf (aps_view v s) = Some st)"
  show "?P v s" using assms by blast
  fix v s assume P: "?P v s"
  then obtain n where n: "aps_run n l0 l1 l2 cf (aps_view v s) = Some st" by blast
  obtain k where "aps_run (Suc k) l0 l1 l2 cf (aps_view v s) = Some st"
  proof (cases n)
    case 0
    with n loop show ?thesis using that by simp
  next
    case (Suc k)
    with n show ?thesis using that by simp
  qed
  then obtain st' where f: "aps_fast l0 l1 l2 cf (aps_view v s) = (False, st')" "aps_run k l0 l1 l2 cf st' = Some st"
    by (auto split: prod.splits if_splits)
  obtain v' s' where "aps_round c0 v s = Some (False, v', s')" "aps_view v' s' = st'"
    "aps_ready l0 l1 l2 cf c0 v' s'"
    using aps_ready_round [of l0 l1 l2 cf c0 v s] P f(1) by blast
  then show "\<exists>v' s'. aps_round c0 v s = Some (False, v', s') \<and> ?P v' s'" using f(2) by blast
qed

lemma aps_run_returns:
  assumes "aps_ready l0 l1 l2 cf c0 v s" and "aps_run n l0 l1 l2 cf (aps_view v s) = Some st"
    and "aps_fast l0 l1 l2 cf st = (True, st')"
  shows "\<exists>s'. aps_loop c0 v s = Some s' \<and> estimate_x s' = fst st' \<and> estimate_y s' = fst (snd st')"
  using assms
proof (induction n arbitrary: v s)
  case 0
  then obtain v' s' where "aps_round c0 v s = Some (True, v', s')" "aps_view v' s' = st'"
    using aps_ready_round [of l0 l1 l2 cf c0 v s True st'] by (metis aps_run.simps(1) option.inject)
  then show ?case by (subst aps_loop.simps) (auto simp: aps_view_def)
next
  case (Suc n)
  then obtain st1 where f: "aps_fast l0 l1 l2 cf (aps_view v s) = (False, st1)" "aps_run n l0 l1 l2 cf st1 = Some st"
    by (auto split: prod.splits if_splits)
  obtain v' s' where r: "aps_round c0 v s = Some (False, v', s')" "aps_view v' s' = st1"
    "aps_ready l0 l1 l2 cf c0 v' s'"
    using aps_ready_round [of l0 l1 l2 cf c0 v s] Suc.prems(1) f(1) by blast
  with Suc.IH [of v' s'] f(2) Suc.prems(3) show ?case by (subst aps_loop.simps) simp
qed

text \<open>Landmarks at (-13,15), (-14,-5) and (-15,16), one, five and five hops away, 25 to a hop.\<close>

definition far_0 :: landmark where "far_0 = \<lparr>lm_x = -0xd0000, lm_y = 0xf0000, lm_hops = 1\<rparr>"
definition far_1 :: landmark where "far_1 = \<lparr>lm_x = -0xe0000, lm_y = -0x50000, lm_hops = 5\<rparr>"
definition far_2 :: landmark where "far_2 = \<lparr>lm_x = -0xf0000, lm_y = 0x100000, lm_hops = 5\<rparr>"

lemma far_round_0:
  "aps_fast far_0 far_1 far_2 0x190000 (-917504, 567578, 32768000, 0, 0)
     = (False, 18467291, -102212, 685061, -20302299, 1237368)"
  by code_simp

lemma far_round_1:
  "aps_fast far_0 far_1 far_2 0x190000 (18467291, -102212, 685061, -20302299, 1237368)
     = (False, 18532827, -102212, 65536, 18401755, -102212)"
  by code_simp

lemma far_round_2:
  "aps_fast far_0 far_1 far_2 0x190000 (18532827, -102212, 65536, 18401755, -102212)
     = (False, 18467291, -102212, 65536, 18598363, -102212)"
  by code_simp

lemma far_round_3:
  "aps_fast far_0 far_1 far_2 0x190000 (18467291, -102212, 65536, 18598363, -102212)
     = (False, 18532827, -102212, 65536, 18401755, -102212)"
  by code_simp

lemma far_start: "fp_div (-2752512) 0x30000 = -917504" "fp_div 1703936 0x30000 = 567578"
  "fp_int_fix 500 = 32768000" "fp_int_fix 3 = 0x30000"
  by code_simp+

section \<open>Runs on concrete tables\<close>

definition dv_example :: "landmark \<Rightarrow> landmark \<Rightarrow> landmark \<Rightarrow> fixpoint \<Rightarrow> dv_hop" where
  "dv_example l0 l1 l2 cf = \<lparr>no_landmarks = 3, is_landmark = 0, estimate_x = 0, estimate_y = 0,
     correction_factor = cf, dv_iterations = 0, lms = [l0, l1, l2], current_tick = 0\<rparr>"

lemma sum_landmarks_3:
  assumes "no_landmarks s = 3" and "lms s = [l0, l1, l2]"
  shows "sum_landmarks beyond 0 s =
    s\<lparr>estimate_x := estimate_x s + lm_x l0 + lm_x l1 + lm_x l2, estimate_y := estimate_y s + lm_y l0 + lm_y l1 + lm_y l2\<rparr>"
  using assms
  by (subst sum_landmarks.simps, simp add: lm_get_def, subst sum_landmarks.simps, simp add: lm_get_def,
      subst sum_landmarks.simps, simp add: lm_get_def, subst sum_landmarks.simps, simp)

definition aps_init :: "matrix \<Rightarrow> fixpoint list \<Rightarrow> fixpoint list \<Rightarrow> aps_locals" where
  "aps_init a0 b0 d0 = \<lparr>ap_a = a0, ap_b = b0, ap_d = d0, ap_olderror = fp_int_fix 500, ap_alt_x = 0, ap_alt_y = 0\<rparr>"

lemma aps_algorithm_example:
  obtains s where "aps_algorithm beyond a0 b0 d0 c0 (dv_example l0 l1 l2 cf) = aps_loop c0 (aps_init a0 b0 d0) s"
    and "aps_shape a0 b0 d0 c0 \<Longrightarrow> aps_ready l0 l1 l2 cf c0 (aps_init a0 b0 d0) s"
    and "aps_view (aps_init a0 b0 d0) s =
       (fp_div (lm_x l0 + lm_x l1 + lm_x l2) (fp_int_fix 3), fp_div (lm_y l0 + lm_y l1 + lm_y l2) (fp_int_fix 3),
        fp_int_fix 500, 0, 0)"
  by (rule that [of "(dv_example l0 l1 l2 cf)\<lparr>dv_iterations := 1,
        estimate_x := fp_div (lm_x l0 + lm_x l1 + lm_x l2) (fp_int_fix 3),
        estimate_y := fp_div (lm_y l0 + lm_y l1 + lm_y l2) (fp_int_fix 3)\<rparr>"])
     (simp_all add: aps_algorithm_def aps_iterations_def aps_init_def dv_example_def sum_landmarks_3 [of _ l0 l1 l2]
        aps_ready_def aps_view_def Let_def)

text \<open>The landmarks of \<open>landmarks.txt\<close>, one and two hops away, 1.5 to a hop.\<close>

definition near_0 :: landmark where "near_0 = \<lparr>lm_x = 0, lm_y = 0, lm_hops = 1\<rparr>"
definition near_1 :: landmark where "near_1 = \<lparr>lm_x = 0x40000, lm_y = 0, lm_hops = 2\<rparr>"
definition near_2 :: landmark where "near_2 = \<lparr>lm_x = 0x20000, lm_y = 0x30000, lm_hops = 2\<rparr>"

lemma near_rounds:
  "aps_fast near_0 near_1 near_2 0x18000 (0x20000, 0x10000, 32768000, 0, 0) = (False, 81947, 33036, 52940, 180197, 98036)"
  "aps_fast near_0 near_1 near_2 0x18000 (81947, 33036, 52940, 180197, 98036) = (True, 81947, 33036, 52940, 180197, 98036)"
  by code_simp+

lemma near_start: "fp_div 0x60000 0x30000 = 0x20000" "fp_div 0x30000 0x30000 = 0x10000"
  by code_simp+

lemma near_returns:
  assumes "aps_shape a0 b0 d0 c0"
  shows "\<exists>s'. aps_algorithm beyond a0 b0 d0 c0 (dv_example near_0 near_1 near_2 0x18000) = Some s'
    \<and> estimate_x s' = 81947 \<and> estimate_y s' = 33036"
proof -
  obtain s where s: "aps_algorithm beyond a0 b0 d0 c0 (dv_example near_0 near_1 near_2 0x18000) = aps_loop c0 (aps_init a0 b0 d0) s"
    "aps_ready near_0 near_1 near_2 0x18000 c0 (aps_init a0 b0 d0) s"
    "aps_view (aps_init a0 b0 d0) s = (0x20000, 0x10000, 32768000, 0, 0)"
    using aps_algorithm_example [of beyond a0 b0 d0 c0 near_0 near_1 near_2 "0x18000"] assms
    by (auto simp: near_0_def near_1_def near_2_def near_start far_start)
  have "aps_run 1 near_0 near_1 near_2 0x18000 (aps_view (aps_init a0 b0 d0) s) = Some (81947, 33036, 52940, 180197, 98036)"
    by (simp add: s(3) near_rounds del: aps_fast.simps)
  from aps_run_returns [OF s(2) this near_rounds(2)] show ?thesis by (simp add: s(1))
qed

section \<open>Properties\<close>

text \<open>C14: a coordinates message on a table in order acts as \<open>dv_learn\<close> on the map from
  landmarks to hop counts: an unknown landmark is entered with the hop count plus one while fewer
  than three are known, a known one keeps the smaller count. The table stays in order, the
  message is relayed exactly when it does not lengthen a known route, and nothing is written out
  of bounds. (A hop count of -2 cannot be entered: plus one it marks an unused entry.)\<close>

theorem dv_input_refines_learn:
  assumes "dv_inv s" and "dv_no_ghost beyond x y" and "h \<noteq> -2"
  shows "\<exists>s'. DV_HOP_INPUT beyond x y h s = Inr (s', dv_relays s x y (h + 1) @ dv_full_table s', 1)
    \<and> dv_table s' = dv_learn (x, y) (h + 1) (dv_table s) \<and> dv_inv s'"
  using dv_input [OF assms(1,2), of h] assms(3) by metis

theorem dv_input_refines_learn_witness:
  "\<exists>s'. DV_HOP_INPUT (\<lambda>_. near_0) 0x40000 0 0 (dv_example near_0 near_1 near_2 0x18000) =
      Inr (s', dv_relays (dv_example near_0 near_1 near_2 0x18000) 0x40000 0 (0 + 1) @ dv_full_table s', 1)
    \<and> dv_table s' = dv_learn (0x40000, 0) (0 + 1) (dv_table (dv_example near_0 near_1 near_2 0x18000)) \<and> dv_inv s'"
  by (rule dv_input_refines_learn)
     (simp_all add: dv_inv_def dv_example_def dv_entries_def dv_key_def near_0_def near_1_def near_2_def
        dv_no_ghost_def dv_match_def)

text \<open>the position iteration returns only by convergence: when it returns, some
  number of rounds led to a round whose correction was shorter than \<open>EPSILON\<close>, and the estimate
  is the one that round started from. The bound \<open>MAX_ITERATIONS\<close> never ends it.\<close>

theorem aps_iterations_converged:
  assumes "aps_iterations a0 b0 d0 c0 s = Some s'"
  shows "\<exists>v1 s1 v2 e. aps_steps c0 (aps_init a0 b0 d0, s) (v1, s1)
    \<and> aps_round c0 v1 s1 = Some (True, v2, s') \<and> aps_error v2 = Some e \<and> e <s EPSILON
    \<and> estimate_x s' = estimate_x s1 \<and> estimate_y s' = estimate_y s1"
  using aps_loop_steps [of c0 "aps_init a0 b0 d0" s s'] assms aps_round_stop
  unfolding aps_iterations_def aps_init_def by metis

theorem aps_iterations_converged_witness:
  "\<exists>s s' v1 s1 v2 e. aps_iterations [[0, 0], [0, 0], [0, 0]] [0, 0, 0] [0, 0] [[0, 0], [0, 0]] s = Some s'
    \<and> aps_round [[0, 0], [0, 0]] v1 s1 = Some (True, v2, s') \<and> aps_error v2 = Some e \<and> e <s EPSILON
    \<and> estimate_x s1 = 81947 \<and> estimate_y s1 = 33036"
proof -
  have sh: "aps_shape [[0, 0], [0, 0], [0, 0]] [0, 0, 0] [0, 0] [[0, 0], [0, 0]]" by (simp add: aps_shape_def)
  obtain s s' where r: "aps_iterations [[0, 0], [0, 0], [0, 0]] [0, 0, 0] [0, 0] [[0, 0], [0, 0]] s = Some s'"
    "estimate_x s' = 81947" "estimate_y s' = 33036"
    using near_returns [OF sh, of undefined] unfolding aps_algorithm_def Let_def by auto
  with aps_iterations_converged [OF r(1)] show ?thesis by metis
qed

text \<open>C36: there are tables on which the position iteration never returns, whatever the
  uninitialised arrays hold: here it alternates between two estimates 65536 units apart with a
  correction of length 1, five times \<open>EPSILON\<close>, from the third round on.\<close>

theorem aps_algorithm_diverges:
  assumes "aps_shape a0 b0 d0 c0"
  shows "aps_algorithm beyond a0 b0 d0 c0 (dv_example far_0 far_1 far_2 0x190000) = None"
proof -
  obtain s where s: "aps_algorithm beyond a0 b0 d0 c0 (dv_example far_0 far_1 far_2 0x190000) = aps_loop c0 (aps_init a0 b0 d0) s"
    "aps_ready far_0 far_1 far_2 0x190000 c0 (aps_init a0 b0 d0) s"
    "aps_view (aps_init a0 b0 d0) s = (-917504, 567578, 32768000, 0, 0)"
    using aps_algorithm_example [of beyond a0 b0 d0 c0 far_0 far_1 far_2 "0x190000"] assms
    by (auto simp: far_0_def far_1_def far_2_def far_start)
  have two: "2 = Suc (Suc 0)" by simp
  have "aps_run 2 far_0 far_1 far_2 0x190000 (aps_view (aps_init a0 b0 d0) s) = Some (18532827, -102212, 65536, 18401755, -102212)"
    by (simp only: s(3) two aps_run.simps far_round_0 far_round_1 prod.case if_False)
  moreover have "aps_run (Suc 1) far_0 far_1 far_2 0x190000 (18532827, -102212, 65536, 18401755, -102212)
      = Some (18532827, -102212, 65536, 18401755, -102212)"
    by (simp only: One_nat_def aps_run.simps far_round_2 far_round_3 prod.case if_False)
  ultimately show ?thesis unfolding s(1) by (rule aps_run_diverges [OF s(2)])
qed

theorem aps_algorithm_diverges_witness:
  "aps_algorithm (\<lambda>_. near_0) [[0, 0], [0, 0], [0, 0]] [0, 0, 0] [0, 0] [[0, 0], [0, 0]]
     (dv_example far_0 far_1 far_2 0x190000) = None"
  by (rule aps_algorithm_diverges) (simp add: aps_shape_def)

end
