(* ===== verification/SendCoord.thy ===== *)
theory SendCoord
  imports DvHop
begin

text \<open>
  The component between DV-hop and the message layer, \<open>aps_proj/SEND_COORD_DV.c\<close>, in the same
  PC build as \<open>DvHop\<close>: it lays the fields of a coordinates, correction or query message out in
  the data of its one message buffer, hands the buffer to the message layer, and unpacks the
  messages that come in. While a send is pending the buffer belongs to the message layer.

  A handler takes the answer \<open>accept\<close> of the send command it calls. The frame's \<open>TOS_Msg\<close> is
  reduced to its 30 bytes of data; the other fields are the message layer's.

  The lemmas: the buffer is not touched while pending, the messages survive the transport, and
  the buffer protocol as a step relation.
\<close>

section \<open>State and operations\<close>

record send_coord =
  sc_pending :: u8
  sc_data :: "u8 list"

definition REPLY_HANDLER :: u8 where "REPLY_HANDLER = 7"
definition QUERY_HANDLER :: u8 where "QUERY_HANDLER = 6"

text \<open>The handler numbers of the wiring \<open>SEND_COORD_DV.desc\<close>.\<close>

definition AM_INT_READING :: u8 where "AM_INT_READING = 4"
definition AM_CORRECTION_READING :: u8 where "AM_CORRECTION_READING = 5"

datatype sc_out =
    SEND_COORD_DV_SUB_INIT
  | SEND_COORD_DV_SUB_SEND_MSG u8 u8 "u8 list"
  | SEND_COORD_DV_COMPLETE u8
  | SEND_COORD_DV_INPUT fixpoint fixpoint u8
  | SEND_COORD_DV_CORRECTION_INPUT fixpoint fixpoint fixpoint
  | SEND_COORD_DV_QUERY_INPUT "u8 list"
  | Sc_led led_pin

definition SEND_COORD_DV_INIT :: "send_coord \<Rightarrow> send_coord \<times> sc_out list \<times> u8" where
  "SEND_COORD_DV_INIT s =
     (s, [Sc_led CLR_RED_LED_PIN, Sc_led CLR_GREEN_LED_PIN, Sc_led CLR_YELLOW_LED_PIN,
          SEND_COORD_DV_SUB_INIT,
          Sc_led SET_RED_LED_PIN, Sc_led SET_GREEN_LED_PIN, Sc_led SET_YELLOW_LED_PIN], 1)"

definition SEND_COORD_DV_OUTPUT ::
  "u8 \<Rightarrow> fixpoint \<Rightarrow> fixpoint \<Rightarrow> u8 \<Rightarrow> send_coord \<Rightarrow> send_coord \<times> sc_out list \<times> u8" where
  "SEND_COORD_DV_OUTPUT accept x y hops s =
     (if sc_pending s = 0 then
        (let s = s\<lparr>sc_data := write_bytes 0 (bytes32 x) (sc_data s)\<rparr>;
             s = s\<lparr>sc_data := write_bytes 4 (bytes32 y) (sc_data s)\<rparr>;
             s = s\<lparr>sc_data := (sc_data s)[8 := hops]\<rparr>;
             out = [Sc_led CLR_GREEN_LED_PIN,
                    SEND_COORD_DV_SUB_SEND_MSG TOS_BCAST_ADDR AM_INT_READING (sc_data s)]
         in if accept \<noteq> 0 then (s\<lparr>sc_pending := 1\<rparr>, out, 1)
            else (s, out @ [Sc_led SET_GREEN_LED_PIN], 0))
      else (s, [], 0))"

definition SEND_COORD_DV_CORRECTION_OUTPUT ::
  "u8 \<Rightarrow> fixpoint \<Rightarrow> fixpoint \<Rightarrow> fixpoint \<Rightarrow> send_coord \<Rightarrow> send_coord \<times> sc_out list \<times> u8" where
  "SEND_COORD_DV_CORRECTION_OUTPUT accept fpx fpy fpfactor s =
     (if sc_pending s = 0 then
        (let s = s\<lparr>sc_data := write_bytes 0 (bytes32 fpx) (sc_data s)\<rparr>;
             s = s\<lparr>sc_data := write_bytes 4 (bytes32 fpy) (sc_data s)\<rparr>;
             s = s\<lparr>sc_data := write_bytes 8 (bytes32 fpfactor) (sc_data s)\<rparr>;
             out = [Sc_led CLR_GREEN_LED_PIN,
                    SEND_COORD_DV_SUB_SEND_MSG TOS_BCAST_ADDR AM_CORRECTION_READING (sc_data s)]
         in if accept \<noteq> 0 then (s\<lparr>sc_pending := 1\<rparr>, out, 1)
            else (s, out @ [Sc_led SET_GREEN_LED_PIN], 0))
      else (s, [], 0))"

text \<open>\<open>*q_msg = *(query_msg *) reply_msg\<close> copies all 30 bytes.\<close>

definition SEND_COORD_DV_QUERY_REPLY ::
  "u8 \<Rightarrow> u8 list \<Rightarrow> send_coord \<Rightarrow> send_coord \<times> sc_out list \<times> u8" where
  "SEND_COORD_DV_QUERY_REPLY accept reply_msg s =
     (if sc_pending s = 0 then
        (let s = s\<lparr>sc_data := write_bytes 0 (take 30 reply_msg) (sc_data s)\<rparr>;
             out = [Sc_led CLR_GREEN_LED_PIN,
                    SEND_COORD_DV_SUB_SEND_MSG TOS_BCAST_ADDR REPLY_HANDLER (sc_data s)]
         in if accept \<noteq> 0 then (s\<lparr>sc_pending := 1\<rparr>, out, 1)
            else (s, out @ [Sc_led SET_GREEN_LED_PIN], 0))
      else (s, [], 0))"

text \<open>\<open>mine\<close> says whether \<open>sentBuffer == &VAR(data)\<close>.\<close>

definition SEND_COORD_DV_SUB_MSG_SEND_DONE :: "bool \<Rightarrow> send_coord \<Rightarrow> send_coord \<times> sc_out list \<times> u8" where
  "SEND_COORD_DV_SUB_MSG_SEND_DONE mine s =
     (if sc_pending s \<noteq> 0 \<and> mine
      then (s\<lparr>sc_pending := 0\<rparr>, [SEND_COORD_DV_COMPLETE 1, Sc_led SET_GREEN_LED_PIN], 1)
      else (s, [], 0))"

definition INT_READING :: "u8 list \<Rightarrow> send_coord \<Rightarrow> send_coord \<times> sc_out list" where
  "INT_READING msg s =
     (s, [Sc_led CLR_RED_LED_PIN, SEND_COORD_DV_INPUT (get32 msg 0) (get32 msg 4) (msg ! 8),
          Sc_led SET_RED_LED_PIN])"

definition CORRECTION_READING :: "u8 list \<Rightarrow> send_coord \<Rightarrow> send_coord \<times> sc_out list" where
  "CORRECTION_READING msg s =
     (s, [Sc_led CLR_RED_LED_PIN,
          SEND_COORD_DV_CORRECTION_INPUT (get32 msg 0) (get32 msg 4) (get32 msg 8),
          Sc_led SET_RED_LED_PIN])"

definition GOT_QUERY :: "u8 list \<Rightarrow> send_coord \<Rightarrow> send_coord \<times> sc_out list" where
  "GOT_QUERY msg s =
     (s, [Sc_led CLR_RED_LED_PIN, SEND_COORD_DV_QUERY_INPUT msg, Sc_led SET_RED_LED_PIN])"

section \<open>Messages survive the transport\<close>

lemma get32_write: "i + 4 \<le> length q \<Longrightarrow> get32 (write_bytes i (bytes32 w) q) i = w"
  by (simp add: get32_def read_write_same)

lemma get32_write_other:
  "i + 4 \<le> length q \<Longrightarrow> i + 4 \<le> j \<or> j + length bs \<le> i \<Longrightarrow> get32 (write_bytes j bs q) i = get32 q i"
  by (simp add: get32_def read_write_other)

lemma get32_update: "i + 4 \<le> j \<or> j < i \<Longrightarrow> get32 (q[j := b]) i = get32 q i"
  by (auto simp: get32_def read_bytes_def intro!: arg_cong [of _ _ word32])

lemmas transport_simps = get32_write get32_write_other get32_update

definition sc_coordinates :: "fixpoint \<Rightarrow> fixpoint \<Rightarrow> u8 \<Rightarrow> u8 list \<Rightarrow> u8 list" where
  "sc_coordinates x y hops d = (write_bytes 4 (bytes32 y) (write_bytes 0 (bytes32 x) d))[8 := hops]"

lemma output_sends:
  assumes "sc_pending s = 0"
  shows "SEND_COORD_DV_SUB_SEND_MSG TOS_BCAST_ADDR AM_INT_READING (sc_coordinates x y hops (sc_data s))
    \<in> set (fst (snd (SEND_COORD_DV_OUTPUT accept x y hops s)))"
  using assms by (simp add: SEND_COORD_DV_OUTPUT_def sc_coordinates_def Let_def)

lemma coordinates_received:
  assumes "length d = 30"
  shows "SEND_COORD_DV_INPUT x y hops \<in> set (snd (INT_READING (sc_coordinates x y hops d) r))"
  using assms by (simp add: INT_READING_def sc_coordinates_def transport_simps)

lemma int_reading_input:
  assumes "length d = 30" and "SEND_COORD_DV_INPUT x' y' h' \<in> set (snd (INT_READING (sc_coordinates x y h d) r))"
  shows "x' = x \<and> y' = y \<and> h' = h"
  using assms by (simp add: INT_READING_def sc_coordinates_def transport_simps)

section \<open>The buffer protocol\<close>

text \<open>Everything the component does, as a step with what it hands to the message layer.\<close>

inductive sc_step :: "send_coord \<Rightarrow> sc_out list \<Rightarrow> send_coord \<Rightarrow> bool" where
  coordinates: "SEND_COORD_DV_OUTPUT accept x y hops s = (s', out, r) \<Longrightarrow> sc_step s out s'"
| correction: "SEND_COORD_DV_CORRECTION_OUTPUT accept x y f s = (s', out, r) \<Longrightarrow> sc_step s out s'"
| reply: "SEND_COORD_DV_QUERY_REPLY accept q s = (s', out, r) \<Longrightarrow> sc_step s out s'"
| reading: "INT_READING msg s = (s', out) \<Longrightarrow> sc_step s out s'"
| creading: "CORRECTION_READING msg s = (s', out) \<Longrightarrow> sc_step s out s'"
| query: "GOT_QUERY msg s = (s', out) \<Longrightarrow> sc_step s out s'"
| other_done: "SEND_COORD_DV_SUB_MSG_SEND_DONE False s = (s', out, r) \<Longrightarrow> sc_step s out s'"

inductive_cases sc_stepE: "sc_step s out s'"

lemmas sc_handlers = SEND_COORD_DV_OUTPUT_def SEND_COORD_DV_CORRECTION_OUTPUT_def
  SEND_COORD_DV_QUERY_REPLY_def INT_READING_def CORRECTION_READING_def GOT_QUERY_def
  SEND_COORD_DV_SUB_MSG_SEND_DONE_def

lemma sc_step_pending:
  assumes "sc_step s out s'" and "sc_pending s \<noteq> 0"
  shows "s' = s \<and> (\<forall>a t d. SEND_COORD_DV_SUB_SEND_MSG a t d \<notin> set out)"
  using assms by (auto elim!: sc_stepE simp: sc_handlers)

inductive sc_steps :: "send_coord \<Rightarrow> sc_out list \<Rightarrow> send_coord \<Rightarrow> bool" where
  none: "sc_steps s [] s"
| more: "sc_step s out s1 \<Longrightarrow> sc_steps s1 outs s2 \<Longrightarrow> sc_steps s (out @ outs) s2"

section \<open>Properties\<close>

text \<open>from the moment the message layer accepts a buffer until it reports it sent, no
  sequence of calls and incoming messages changes the buffer or hands it over again, and the
  report frees the buffer and is passed on.\<close>

theorem buffer_untouched_while_sending:
  assumes "SEND_COORD_DV_OUTPUT accept x y hops s = (s1, out1, r1)" and "r1 \<noteq> 0"
    and "sc_steps s1 outs s2"
  shows "s2 = s1 \<and> (\<forall>a t d. SEND_COORD_DV_SUB_SEND_MSG a t d \<notin> set outs)
    \<and> SEND_COORD_DV_SUB_MSG_SEND_DONE True s2 =
        (s1\<lparr>sc_pending := 0\<rparr>, [SEND_COORD_DV_COMPLETE 1, Sc_led SET_GREEN_LED_PIN], 1)"
proof -
  have p: "sc_pending s1 \<noteq> 0"
    using assms(1,2) by (auto simp: SEND_COORD_DV_OUTPUT_def Let_def split: if_splits)
  from assms(3) p have "s2 = s1 \<and> (\<forall>a t d. SEND_COORD_DV_SUB_SEND_MSG a t d \<notin> set outs)"
  proof induction
    case (more s out s1 outs s2)
    then show ?case using sc_step_pending by fastforce
  qed simp
  with p show ?thesis by (simp add: SEND_COORD_DV_SUB_MSG_SEND_DONE_def)
qed

theorem buffer_untouched_while_sending_witness:
  "\<exists>s1. fst (SEND_COORD_DV_OUTPUT 1 5 6 7 \<lparr>sc_pending = 0, sc_data = replicate 30 0\<rparr>) = s1
    \<and> SEND_COORD_DV_SUB_MSG_SEND_DONE True s1 =
        (s1\<lparr>sc_pending := 0\<rparr>, [SEND_COORD_DV_COMPLETE 1, Sc_led SET_GREEN_LED_PIN], 1)"
proof -
  obtain s1 out1 r1 where r: "SEND_COORD_DV_OUTPUT 1 5 6 7 \<lparr>sc_pending = 0, sc_data = replicate 30 0\<rparr> = (s1, out1, r1)"
    by (metis prod_cases3)
  then have "r1 \<noteq> 0" by (auto simp: SEND_COORD_DV_OUTPUT_def Let_def)
  from buffer_untouched_while_sending [OF r this sc_steps.none] r show ?thesis by simp
qed

end
