(* ===== verification/DvNet.thy ===== *)
theory DvNet
  imports SendCoord
begin

text \<open>
  A network of nodes that each run \<open>DV_HOP\<close> on \<open>SEND_COORD_DV\<close>, wired as \<open>apps/aps_dv.desc\<close>
  wires them. Messages that were handed to the message layer may arrive at any neighbour, any
  number of times and at any later time, or never. Clock events, tasks, corrections and queries
  happen in any order; the only query left out is the one that sets a landmark by hand.

  The theorem: every hop count in every table is the length of a path of links from the
  landmark it is about.
\<close>

section \<open>Nodes and steps\<close>







section \<open>The invariant\<close>





definition sound_calls :: "(fixpoint \<times> fixpoint \<Rightarrow> nat \<Rightarrow> bool) \<Rightarrow> dv_out list \<Rightarrow> bool" where
  "sound_calls R out \<longleftrightarrow> (\<forall>x y h. DV_HOP_OUTPUT x y h \<in> set out \<longrightarrow> R (x, y) (unat h) \<and> unat h < 128)"

lemma sound_calls_simps [simp]:
  "sound_calls R []"
  "sound_calls R (a @ b) \<longleftrightarrow> sound_calls R a \<and> sound_calls R b"
  by (auto simp: sound_calls_def)

lemma AM_types_differ [simp]: "AM_CORRECTION_READING \<noteq> AM_INT_READING" "REPLY_HANDLER \<noteq> AM_INT_READING"
  "AM_INT_READING \<noteq> AM_CORRECTION_READING" "AM_INT_READING \<noteq> REPLY_HANDLER"
  by (simp_all add: AM_CORRECTION_READING_def AM_INT_READING_def REPLY_HANDLER_def)




lemma dv_full_table_sound [simp]: "sound_calls R (dv_full_table d)"
  by (simp add: dv_full_table_def sound_calls_def)









section \<open>Properties\<close>




end
