(* ===== verification/Sched.thy ===== *)
theory Sched
  imports Prelude
begin

text \<open>
  The task scheduler \<open>aps_proj/system/sched.c\<close> in its configuration (\<open>NEW_SCHED\<close>): a cyclic
  queue of six slots between the index \<open>TOS_sched_full\<close> of the next task and the index
  \<open>TOS_sched_free\<close> of the slot \<open>TOS_post\<close> fills next. A task is a number, 0 the null
  pointer. \<open>TOS_post\<close> may be interrupted by handlers that post as well: \<open>irqs\<close> lists, for
  every pass of its loop, what is posted between its reading of the index and its test, and
  between the test and \<open>cli()\<close>. A task runs to the end before its slot is cleared.

  The interface \<open>task_queue\<close> states what clients rely on, first in first out with a bounded
  capacity; the lemmas show that the cyclic buffer provides it, also under interrupts, and that
  the slot cleared after a task is never one that was filled meanwhile.
\<close>

section \<open>The queue and its operations\<close>

type_synonym task = nat

definition MAX_THREADS :: nat where "MAX_THREADS = 6"

record sched =
  TOS_queue :: "task list"
  TOS_sched_full :: u8
  TOS_sched_free :: u8

definition TOS_empty :: "sched \<Rightarrow> bool" where
  "TOS_empty s \<longleftrightarrow> TOS_sched_full s = TOS_sched_free s"

definition ADVANCE :: "u8 \<Rightarrow> u8" where
  "ADVANCE p = (if sint p + 1 = int MAX_THREADS then 0 else p + 1)"

text \<open>One pass of the loop of \<open>TOS_post\<close> without interrupts, which is how a handler posts.\<close>

definition post_pass :: "task \<Rightarrow> sched \<Rightarrow> sched \<times> u8" where
  "post_pass tp s =
     (let org = TOS_sched_free s; tmp = org + 1; tmp = (if unat tmp = MAX_THREADS then 0 else tmp)
      in if tmp = TOS_sched_full s then (s, 0)
         else (s\<lparr>TOS_sched_free := tmp, TOS_queue := (TOS_queue s)[unat org := tp]\<rparr>, 1))"

fun handler_posts :: "task list \<Rightarrow> sched \<Rightarrow> sched" where
  "handler_posts [] s = s"
| "handler_posts (t # ts) s = handler_posts ts (fst (post_pass t s))"

fun TOS_post :: "(task list \<times> task list) list \<Rightarrow> task \<Rightarrow> sched \<Rightarrow> sched \<times> u8" where
  "TOS_post [] tp s = post_pass tp s"
| "TOS_post ((w1, w2) # irqs) tp s =
     (let org = TOS_sched_free s; tmp = org + 1; tmp = (if unat tmp = MAX_THREADS then 0 else tmp);
          s = handler_posts w1 s
      in if tmp = TOS_sched_full s then (s, 0)
         else
           (let s = handler_posts w2 s
            in if org = TOS_sched_free s
               then (s\<lparr>TOS_sched_free := tmp, TOS_queue := (TOS_queue s)[unat org := tp]\<rparr>, 1)
               else TOS_post irqs tp s))"

text \<open>\<open>exec\<close> runs a task on the scheduler's state and the rest of the memory.\<close>

definition TOS_schedule_task ::
  "(task \<Rightarrow> sched \<times> 'm \<Rightarrow> sched \<times> 'm) \<Rightarrow> sched \<times> 'm \<Rightarrow> (sched \<times> 'm) \<times> int" where
  "TOS_schedule_task exec sm =
     (case sm of (s, m) \<Rightarrow>
        (let old_full = TOS_sched_full s
         in if TOS_empty s then ((s, m), -1)
            else
              (let s = s\<lparr>TOS_sched_full := ADVANCE old_full\<rparr>;
                   (s, m) = exec (TOS_queue s ! unat old_full) (s, m);
                   s = s\<lparr>TOS_queue := (TOS_queue s)[unat old_full := 0]\<rparr>
               in ((s, m), 0))))"

section \<open>What clients rely on\<close>

locale task_queue =
  fixes inv :: "'s \<Rightarrow> bool"
    and waiting :: "'s \<Rightarrow> task list"
    and capacity :: nat
    and post :: "task \<Rightarrow> 's \<Rightarrow> 's \<times> u8"
    and take_next :: "'s \<Rightarrow> (task \<times> 's) option"
  assumes post_room: "inv s \<Longrightarrow> length (waiting s) < capacity \<Longrightarrow>
      inv (fst (post t s)) \<and> snd (post t s) = 1 \<and> waiting (fst (post t s)) = waiting s @ [t]"
    and post_full: "inv s \<Longrightarrow> length (waiting s) = capacity \<Longrightarrow> post t s = (s, 0)"
    and bounded: "inv s \<Longrightarrow> length (waiting s) \<le> capacity"
    and take_empty: "inv s \<Longrightarrow> waiting s = [] \<Longrightarrow> take_next s = None"
    and take_first: "inv s \<Longrightarrow> waiting s = t # ts \<Longrightarrow>
      \<exists>s'. take_next s = Some (t, s') \<and> inv s' \<and> waiting s' = ts"
begin

fun posts :: "task list \<Rightarrow> 's \<Rightarrow> 's" where
  "posts [] s = s"
| "posts (t # ts) s = posts ts (fst (post t s))"

lemma posts_waiting:
  "inv s \<Longrightarrow> inv (posts ts s) \<and> waiting (posts ts s) = waiting s @ take (capacity - length (waiting s)) ts"
proof (induction ts arbitrary: s)
  case (Cons t ts)
  show ?case
  proof (cases "length (waiting s) < capacity")
    case True
    with Cons.prems post_room [of s t] Cons.IH [of "fst (post t s)"] show ?thesis
      by (simp add: take_Cons' Suc_diff_Suc)
  next
    case False
    with Cons.prems bounded [of s] have "length (waiting s) = capacity" by simp
    with Cons.prems post_full [of s t] Cons.IH [of s] show ?thesis by simp
  qed
qed simp

fun takes :: "nat \<Rightarrow> 's \<Rightarrow> task list" where
  "takes 0 s = []"
| "takes (Suc n) s = (case take_next s of None \<Rightarrow> [] | Some (t, s') \<Rightarrow> t # takes n s')"

lemma takes_waiting: "inv s \<Longrightarrow> takes n s = take n (waiting s)"
proof (induction n arbitrary: s)
  case (Suc n)
  show ?case
  proof (cases "waiting s")
    case Nil
    with Suc.prems take_empty show ?thesis by simp
  next
    case (Cons t ts)
    with take_first [OF Suc.prems] obtain s' where "take_next s = Some (t, s')" "inv s'" "waiting s' = ts"
      by blast
    with Cons Suc.IH [of s'] show ?thesis by simp
  qed
qed simp

text \<open>First in, first out: what fits comes out in the order it was posted.\<close>

lemma fifo: "inv s \<Longrightarrow> waiting s = [] \<Longrightarrow> takes capacity (posts ts s) = take capacity ts"
  using posts_waiting [of s ts] takes_waiting [of "posts ts s" capacity] by simp

end

section \<open>The cyclic buffer\<close>

definition sched_inv :: "sched \<Rightarrow> bool" where
  "sched_inv s \<longleftrightarrow> length (TOS_queue s) = 6 \<and> unat (TOS_sched_full s) < 6 \<and> unat (TOS_sched_free s) < 6"

definition sched_count :: "sched \<Rightarrow> nat" where
  "sched_count s = (unat (TOS_sched_free s) + 6 - unat (TOS_sched_full s)) mod 6"

definition sched_waiting :: "sched \<Rightarrow> task list" where
  "sched_waiting s = map (\<lambda>k. TOS_queue s ! ((unat (TOS_sched_full s) + k) mod 6)) [0..<sched_count s]"

lemma length_sched_waiting [simp]: "length (sched_waiting s) = sched_count s"
  by (simp add: sched_waiting_def)

lemma sched_count_le: "sched_count s \<le> 5"
proof -
  have "sched_count s < 6" unfolding sched_count_def by simp
  then show ?thesis by simp
qed

lemma unat_next:
  assumes "unat (p :: u8) < 6"
  shows "unat (if unat (p + 1) = MAX_THREADS then 0 else p + 1) = (unat p + 1) mod 6"
    and "unat (ADVANCE p) = (unat p + 1) mod 6"
proof -
  have "unat (p + 1) = unat p + 1" using assms by (simp add: unat_plus_if_size word_size)
  moreover have "sint p = int (unat p)" using assms by (simp add: sint8_nonneg)
  then have "sint p + 1 = int MAX_THREADS \<longleftrightarrow> unat p = 5" unfolding MAX_THREADS_def by linarith
  moreover have "(unat p + 1) mod 6 = (if unat p = 5 then 0 else unat p + 1)" using assms by auto
  ultimately show "unat (if unat (p + 1) = MAX_THREADS then 0 else p + 1) = (unat p + 1) mod 6"
    "unat (ADVANCE p) = (unat p + 1) mod 6"
    by (simp_all add: MAX_THREADS_def ADVANCE_def del: mod_Suc)
qed

text \<open>The indices of the waiting tasks and of the free slot are distinct.\<close>

definition below6 :: "(nat \<Rightarrow> nat \<Rightarrow> bool) \<Rightarrow> bool" where
  "below6 P \<longleftrightarrow> list_all (\<lambda>u. list_all (P u) [0..<6]) [0..<6]"

lemma below6D: "below6 P \<Longrightarrow> u < 6 \<Longrightarrow> f < 6 \<Longrightarrow> P u f"
  by (auto simp: below6_def list_all_iff)

lemma index_inj:
  fixes u k j :: nat
  assumes "u < 6" "k < 6" "j < 6" "(u + k) mod 6 = (u + j) mod 6"
  shows "k = j"
proof -
  have "below6 (\<lambda>u k. list_all (\<lambda>j. (u + k) mod 6 = (u + j) mod 6 \<longrightarrow> k = j) [0..<6])" by code_simp
  from below6D [OF this assms(1,2)] show ?thesis using assms(3,4) by (auto simp: list_all_iff)
qed

lemma free_index:
  fixes u f :: nat
  assumes "u < 6" "f < 6"
  shows "(u + (f + 6 - u) mod 6) mod 6 = f"
  using assms by (simp add: mod_add_right_eq)

lemma sched_free_index:
  "sched_inv s \<Longrightarrow> (unat (TOS_sched_full s) + sched_count s) mod 6 = unat (TOS_sched_free s)"
  unfolding sched_inv_def sched_count_def by (intro free_index) simp_all

lemma count_step:
  fixes u f :: nat
  assumes "u < 6" "f < 6"
  shows "((f + 1) mod 6 = u \<longleftrightarrow> (f + 6 - u) mod 6 = 5)"
    and "(f + 1) mod 6 \<noteq> u \<Longrightarrow> ((f + 1) mod 6 + 6 - u) mod 6 = (f + 6 - u) mod 6 + 1"
    and "f \<noteq> u \<Longrightarrow> (f + 6 - (u + 1) mod 6) mod 6 + 1 = (f + 6 - u) mod 6"
    and "f = u \<longleftrightarrow> (f + 6 - u) mod 6 = 0"
proof -
  have "below6 (\<lambda>u f. ((f + 1) mod 6 = u \<longleftrightarrow> (f + 6 - u) mod 6 = 5)
      \<and> ((f + 1) mod 6 \<noteq> u \<longrightarrow> ((f + 1) mod 6 + 6 - u) mod 6 = (f + 6 - u) mod 6 + 1)
      \<and> (f \<noteq> u \<longrightarrow> (f + 6 - (u + 1) mod 6) mod 6 + 1 = (f + 6 - u) mod 6)
      \<and> (f = u \<longleftrightarrow> (f + 6 - u) mod 6 = 0))"
    by code_simp
  note c = below6D [OF this assms]
  show "((f + 1) mod 6 = u \<longleftrightarrow> (f + 6 - u) mod 6 = 5)"
    and "(f + 1) mod 6 \<noteq> u \<Longrightarrow> ((f + 1) mod 6 + 6 - u) mod 6 = (f + 6 - u) mod 6 + 1"
    and "f \<noteq> u \<Longrightarrow> (f + 6 - (u + 1) mod 6) mod 6 + 1 = (f + 6 - u) mod 6"
    and "f = u \<longleftrightarrow> (f + 6 - u) mod 6 = 0"
    using c by metis+
qed

text \<open>Filling the free slot appends a task; a full buffer has its next index at the first task.\<close>

lemma sched_fill:
  assumes inv: "sched_inv s" and room: "sched_count s < 5"
    and s': "s' = s\<lparr>TOS_sched_free := f, TOS_queue := (TOS_queue s)[unat (TOS_sched_free s) := t]\<rparr>"
    and f: "unat f = (unat (TOS_sched_free s) + 1) mod 6"
  shows "sched_inv s'" and "sched_waiting s' = sched_waiting s @ [t]"
proof -
  have i: "unat (TOS_sched_full s) < 6" "unat (TOS_sched_free s) < 6" "length (TOS_queue s) = 6"
    using inv by (auto simp: sched_inv_def)
  show "sched_inv s'" using i f by (simp add: s' sched_inv_def)
  have c: "sched_count s' = sched_count s + 1"
    using count_step(1,2) [OF i(1,2)] room f by (simp add: s' sched_count_def)
  have "unat (TOS_sched_free s) \<noteq> (unat (TOS_sched_full s) + k) mod 6" if "k < sched_count s" for k
    using index_inj [OF i(1), of k "sched_count s"] sched_free_index [OF inv] that room by auto
  moreover have "unat (TOS_sched_full s') = unat (TOS_sched_full s)" by (simp add: s')
  ultimately show "sched_waiting s' = sched_waiting s @ [t]"
    unfolding sched_waiting_def c using i sched_free_index [OF inv] by (simp add: s')
qed

lemma post_full_iff:
  assumes "sched_inv s"
  shows "(if unat (TOS_sched_free s + 1) = MAX_THREADS then 0 else TOS_sched_free s + 1) = TOS_sched_full s
    \<longleftrightarrow> sched_count s = 5"
proof -
  have i: "unat (TOS_sched_full s) < 6" "unat (TOS_sched_free s) < 6" using assms by (auto simp: sched_inv_def)
  show ?thesis
    using count_step(1) [OF i] unat_next(1) [OF i(2)] unfolding sched_count_def word_unat_eq_iff by metis
qed

lemma post_pass_room:
  assumes "sched_inv s" and "sched_count s < 5"
  shows "sched_inv (fst (post_pass t s)) \<and> snd (post_pass t s) = 1
    \<and> sched_waiting (fst (post_pass t s)) = sched_waiting s @ [t]"
proof -
  have "unat (TOS_sched_free s) < 6" using assms(1) by (simp add: sched_inv_def)
  then show ?thesis
    using sched_fill [OF assms refl unat_next(1)] post_full_iff [OF assms(1)] assms(2)
    by (simp add: post_pass_def Let_def)
qed

lemma post_pass_full: "sched_inv s \<Longrightarrow> sched_count s = 5 \<Longrightarrow> post_pass t s = (s, 0)"
  using post_full_iff [of s] by (simp add: post_pass_def Let_def)

text \<open>Taking the first task, as \<open>TOS_schedule_task\<close> does before it runs it.\<close>

definition take_task :: "sched \<Rightarrow> (task \<times> sched) option" where
  "take_task s =
     (if TOS_empty s then None
      else Some (TOS_queue s ! unat (TOS_sched_full s), s\<lparr>TOS_sched_full := ADVANCE (TOS_sched_full s)\<rparr>))"

lemma TOS_empty_iff: "sched_inv s \<Longrightarrow> TOS_empty s \<longleftrightarrow> sched_waiting s = []"
proof -
  assume "sched_inv s"
  then have i: "unat (TOS_sched_full s) < 6" "unat (TOS_sched_free s) < 6" by (auto simp: sched_inv_def)
  have "TOS_empty s \<longleftrightarrow> unat (TOS_sched_free s) = unat (TOS_sched_full s)"
    unfolding TOS_empty_def word_unat_eq_iff by auto
  also have "\<dots> \<longleftrightarrow> sched_count s = 0" unfolding sched_count_def by (rule count_step(4) [OF i])
  finally show ?thesis by (metis length_0_conv length_sched_waiting)
qed

lemma take_task_first:
  assumes inv: "sched_inv s" and w: "sched_waiting s = t # ts"
  shows "\<exists>s'. take_task s = Some (t, s') \<and> sched_inv s' \<and> sched_waiting s' = ts"
proof -
  let ?s' = "s\<lparr>TOS_sched_full := ADVANCE (TOS_sched_full s)\<rparr>"
  have i: "unat (TOS_sched_full s) < 6" "unat (TOS_sched_free s) < 6" using inv by (auto simp: sched_inv_def)
  have ne: "\<not> TOS_empty s" using TOS_empty_iff [OF inv] w by simp
  then have d: "unat (TOS_sched_free s) \<noteq> unat (TOS_sched_full s)"
    unfolding TOS_empty_def word_unat_eq_iff by auto
  have c: "sched_count s = Suc (sched_count ?s')"
    using count_step(3) [OF i d] unat_next(2) [OF i(1)] by (simp add: sched_count_def)
  have f: "sched_waiting s = TOS_queue s ! unat (TOS_sched_full s) # sched_waiting ?s'"
    unfolding sched_waiting_def c using i unat_next(2) [OF i(1)]
    by (simp add: upt_conv_Cons map_Suc_upt [symmetric] mod_add_left_eq del: upt_Suc)
  have "sched_inv ?s'" using inv unat_next(2) [OF i(1)] by (simp add: sched_inv_def)
  with f w ne show ?thesis by (auto simp: take_task_def)
qed

interpretation tq: task_queue sched_inv sched_waiting 5 post_pass take_task
proof
  show "sched_inv s \<Longrightarrow> length (sched_waiting s) < 5 \<Longrightarrow>
      sched_inv (fst (post_pass t s)) \<and> snd (post_pass t s) = 1
      \<and> sched_waiting (fst (post_pass t s)) = sched_waiting s @ [t]" for s t
    using post_pass_room by simp
  show "sched_inv s \<Longrightarrow> sched_waiting s = [] \<Longrightarrow> take_task s = None" for s
    using TOS_empty_iff [of s] by (simp add: take_task_def)
qed (use post_pass_full sched_count_le take_task_first in auto)

section \<open>Posting under interrupts\<close>

lemma handler_posts_eq: "handler_posts ts s = tq.posts ts s"
  by (induction ts arbitrary: s) simp_all

lemma handler_posts_append: "handler_posts (a @ b) s = handler_posts b (handler_posts a s)"
  by (induction a arbitrary: s) simp_all

lemma handler_posts_waiting:
  "sched_inv s \<Longrightarrow> sched_inv (handler_posts ts s)
     \<and> sched_waiting (handler_posts ts s) = sched_waiting s @ take (5 - sched_count s) ts"
  unfolding handler_posts_eq using tq.posts_waiting [of s ts] by simp

lemma handler_posts_full: "TOS_sched_full (handler_posts ts s) = TOS_sched_full s"
  by (induction ts arbitrary: s) (simp_all add: post_pass_def Let_def)

lemma handler_posts_saturated: "sched_inv s \<Longrightarrow> sched_count s = 5 \<Longrightarrow> handler_posts ts s = s"
  by (induction ts) (simp_all add: post_pass_full)

lemma handler_posts_moves:
  assumes inv: "sched_inv s" and room: "sched_count s < 5" and same: "TOS_sched_free (handler_posts ts s) = TOS_sched_free s"
  shows "ts = []"
proof -
  have "sched_count (handler_posts ts s) = sched_count s"
    using same handler_posts_full [of ts s] by (simp add: sched_count_def)
  then have "length (sched_waiting (handler_posts ts s)) = length (sched_waiting s)" by simp
  then have "min (length ts) (5 - sched_count s) = 0" using handler_posts_waiting [OF inv, of ts] by simp
  then show ?thesis using room by (cases ts) auto
qed

text \<open>The loop goes round as long as a handler posted during the pass. What the handlers of these
  passes posted, in order:\<close>

definition posted_meanwhile :: "(task list \<times> task list) list \<Rightarrow> task list" where
  "posted_meanwhile irqs = concat (map (\<lambda>(w1, w2). w1 @ w2) (takeWhile (\<lambda>(w1, w2). w1 @ w2 \<noteq> []) irqs))"

lemma posted_meanwhile_simps [simp]:
  "posted_meanwhile [] = []"
  "posted_meanwhile ((w1, w2) # irqs) = (if w1 @ w2 = [] then [] else w1 @ w2 @ posted_meanwhile irqs)"
  by (simp_all add: posted_meanwhile_def)

lemma post_pass_serial:
  assumes "sched_inv s"
  shows "sched_inv (fst (post_pass tp s)) \<and> snd (post_pass tp s) = (if sched_count s < 5 then 1 else 0)
    \<and> sched_waiting (fst (post_pass tp s)) = sched_waiting s @ take (5 - sched_count s) [tp]"
  using post_pass_room [OF assms] post_pass_full [OF assms] assms sched_count_le [of s]
  by (cases "sched_count s < 5") auto

text \<open>One request after the other: first those of the handlers, then the interrupted one.\<close>

lemma TOS_post_serial:
  "sched_inv s \<Longrightarrow> sched_inv (fst (TOS_post irqs tp s))
     \<and> sched_waiting (fst (TOS_post irqs tp s)) = sched_waiting s @ take (5 - sched_count s) (posted_meanwhile irqs @ [tp])
     \<and> snd (TOS_post irqs tp s) = (if sched_count s + length (posted_meanwhile irqs) < 5 then 1 else 0)"
proof (induction irqs tp s rule: TOS_post.induct)
  case (1 tp s)
  then show ?case using post_pass_serial by simp
next
  case (2 w1 w2 irqs tp s)
  let ?tmp = "if unat (TOS_sched_free s + 1) = MAX_THREADS then 0 else TOS_sched_free s + 1"
  let ?s2 = "handler_posts w2 (handler_posts w1 s)"
  have s2: "?s2 = handler_posts (w1 @ w2) s" by (simp add: handler_posts_append)
  have full: "?tmp = TOS_sched_full (handler_posts w1 s) \<longleftrightarrow> sched_count s = 5"
    using post_full_iff [OF 2(2)] by (simp add: handler_posts_full)
  show ?case
  proof (cases "sched_count s = 5")
    case True
    then have "TOS_post ((w1, w2) # irqs) tp s = (s, 0)"
      using full handler_posts_saturated [OF 2(2)] by (simp add: Let_def)
    then show ?thesis using 2(2) True by simp
  next
    case room: False
    then have room': "sched_count s < 5" using sched_count_le [of s] by simp
    show ?thesis
    proof (cases "TOS_sched_free s = TOS_sched_free ?s2")
      case True
      then have "w1 @ w2 = []" using handler_posts_moves [OF 2(2) room', of "w1 @ w2"] s2 by simp
      moreover have "TOS_post (([], []) # irqs) tp s = post_pass tp s"
        using full room post_full_iff [OF 2(2)] by (simp add: post_pass_def Let_def)
      ultimately show ?thesis using post_pass_serial [OF 2(2), of tp] room' by simp
    next
      case False
      have w: "w1 @ w2 \<noteq> []" using False by auto
      have s2': "sched_inv ?s2" "sched_waiting ?s2 = sched_waiting s @ take (5 - sched_count s) (w1 @ w2)"
        unfolding s2 using handler_posts_waiting [OF 2(2)] by blast+
      then have c: "sched_count ?s2 = sched_count s + min (length (w1 @ w2)) (5 - sched_count s)"
        by (metis length_sched_waiting length_append length_take)
      have all: "posted_meanwhile ((w1, w2) # irqs) = (w1 @ w2) @ posted_meanwhile irqs" using w by auto
      have again: "TOS_post ((w1, w2) # irqs) tp s = TOS_post irqs tp ?s2"
        using full room False by (simp add: Let_def)
      from 2(1) [OF refl refl refl refl _ refl False s2'(1)] full room
      have IH: "sched_inv (fst (TOS_post irqs tp ?s2))"
          "sched_waiting (fst (TOS_post irqs tp ?s2)) = sched_waiting ?s2 @ take (5 - sched_count ?s2) (posted_meanwhile irqs @ [tp])"
          "snd (TOS_post irqs tp ?s2) = (if sched_count ?s2 + length (posted_meanwhile irqs) < 5 then 1 else 0)" by blast+
      have left: "5 - sched_count ?s2 = 5 - sched_count s - length (w1 @ w2)" unfolding c by linarith
      have "take (5 - sched_count s) (w1 @ w2) @ take (5 - sched_count ?s2) (posted_meanwhile irqs @ [tp])
          = take (5 - sched_count s) (posted_meanwhile ((w1, w2) # irqs) @ [tp])"
        unfolding all left append_assoc [of "w1 @ w2"] by (rule take_append [symmetric])
      moreover have "sched_count ?s2 + length (posted_meanwhile irqs) < 5
          \<longleftrightarrow> sched_count s + length (posted_meanwhile ((w1, w2) # irqs)) < 5"
        unfolding c all using room' by auto
      ultimately show ?thesis
        unfolding again using IH unfolding s2'(2) by (simp only: append_assoc)
    qed
  qed
qed

section \<open>Running a task\<close>

text \<open>The slot of the task that runs lies outside what is waiting, whatever is posted meanwhile.\<close>

lemma clear_slot:
  assumes inv: "sched_inv s" and i: "i < 6" and next_i: "unat (TOS_sched_full s) = (i + 1) mod 6"
  shows "sched_inv (s\<lparr>TOS_queue := (TOS_queue s)[i := 0]\<rparr>)
    \<and> sched_waiting (s\<lparr>TOS_queue := (TOS_queue s)[i := 0]\<rparr>) = sched_waiting s"
proof -
  have "below6 (\<lambda>i k. k < 5 \<longrightarrow> i \<noteq> ((i + 1) mod 6 + k) mod 6)" by code_simp
  from below6D [OF this i]
  have "i \<noteq> (unat (TOS_sched_full s) + k) mod 6" if "k < sched_count s" for k
    using that sched_count_le [of s] unfolding next_i by simp
  then show ?thesis using inv by (simp add: sched_inv_def sched_waiting_def sched_count_def)
qed

lemma schedule_task_runs:
  assumes inv: "sched_inv s" and w: "sched_waiting s = t # ts"
    and ex: "\<And>s1. exec t (s1, m) = (handler_posts ps s1, m')"
  shows "\<exists>s'. TOS_schedule_task exec (s, m) = ((s', m'), 0) \<and> sched_inv s'
    \<and> sched_waiting s' = ts @ take (5 - length ts) ps"
proof -
  have i: "unat (TOS_sched_full s) < 6" using inv by (simp add: sched_inv_def)
  have ne: "\<not> TOS_empty s" using TOS_empty_iff [OF inv] w by simp
  define s1 where "s1 = s\<lparr>TOS_sched_full := ADVANCE (TOS_sched_full s)\<rparr>"
  have "\<exists>s'. take_task s = Some (t, s') \<and> sched_inv s' \<and> sched_waiting s' = ts"
    by (rule take_task_first [OF inv w])
  then have s1: "TOS_queue s ! unat (TOS_sched_full s) = t" "sched_inv s1" "sched_waiting s1 = ts"
    using ne by (auto simp: take_task_def s1_def)
  have c: "sched_count s1 = length ts" using s1(3) by (metis length_sched_waiting)
  define s2 where "s2 = handler_posts ps s1"
  have s2: "sched_inv s2" "sched_waiting s2 = ts @ take (5 - length ts) ps"
    using handler_posts_waiting [OF s1(2), of ps] s1(3) c by (simp_all add: s2_def)
  have "unat (TOS_sched_full s2) = (unat (TOS_sched_full s) + 1) mod 6"
    using unat_next(2) [OF i] by (simp add: s2_def handler_posts_full s1_def)
  note s3 = clear_slot [OF s2(1) i this]
  have "TOS_schedule_task exec (s, m) = ((s2\<lparr>TOS_queue := (TOS_queue s2)[unat (TOS_sched_full s) := 0]\<rparr>, m'), 0)"
    using ne s1(1) ex by (simp add: TOS_schedule_task_def Let_def s1_def s2_def)
  with s3 s2(2) show ?thesis by auto
qed

section \<open>Properties\<close>

text \<open>C8: However the handlers interrupt a request to post and post themselves, the outcome is that of
  making all these requests one after the other, the handlers' first: what waits afterwards is what
  waited before, then everything the handlers posted in their order, then the task, cut to the five
  tasks the queue holds. So nothing that was accepted is lost, overwritten or doubled. The request
  answers 1 exactly when there was room left for the task, and the indices stay within the queue.
  (The handlers of a pass are those that ran in it; the first pass in which none posts anything is
  the last.)\<close>

theorem post_is_atomic:
  assumes "sched_inv s"
  shows "sched_waiting (fst (TOS_post irqs tp s)) = sched_waiting s @ take (5 - sched_count s) (posted_meanwhile irqs @ [tp])
    \<and> snd (TOS_post irqs tp s) = (if sched_count s + length (posted_meanwhile irqs) < 5 then 1 else 0)
    \<and> sched_inv (fst (TOS_post irqs tp s))"
  using TOS_post_serial [OF assms] by blast

theorem post_is_atomic_witness:
  "sched_waiting (fst (TOS_post [([4], []), ([], [5]), ([], []), ([6], [])] 9 \<lparr>TOS_queue = [0, 0, 0, 0, 7, 8], TOS_sched_full = 4, TOS_sched_free = 0\<rparr>))
      = [7, 8, 4, 5, 9]
    \<and> snd (TOS_post [([4], []), ([], [5]), ([], []), ([6], [])] 9 \<lparr>TOS_queue = [0, 0, 0, 0, 7, 8], TOS_sched_full = 4, TOS_sched_free = 0\<rparr>) = 1"
proof -
  let ?s = "\<lparr>TOS_queue = [0, 0, 0, 0, 7, 8], TOS_sched_full = 4, TOS_sched_free = 0\<rparr>"
  have "sched_waiting ?s = [7, 8]" "sched_count ?s = 2" "sched_inv ?s"
    by code_simp+
  with post_is_atomic [of ?s "[([4], []), ([], [5]), ([], []), ([6], [])]" 9] show ?thesis by simp
qed

text \<open>\<open>TOS_schedule_task\<close> runs the task that has waited longest and returns 0; what the
  task posts while it runs is appended, as far as it fits, and clearing the slot of the task
  afterwards erases none of it.\<close>

theorem schedule_task_fifo:
  assumes "sched_inv s" and "sched_waiting s = t # ts"
    and "\<And>s1. exec t (s1, m) = (handler_posts ps s1, m')"
  shows "\<exists>s'. TOS_schedule_task exec (s, m) = ((s', m'), 0) \<and> sched_inv s'
    \<and> sched_waiting s' = ts @ take (5 - length ts) ps"
  using assms by (rule schedule_task_runs)

theorem schedule_task_fifo_witness:
  "\<exists>s'. TOS_schedule_task (\<lambda>t (s, m). (handler_posts [1, 2, 3, 4, 5, 6] s, Suc m))
       (\<lparr>TOS_queue = [0, 0, 0, 0, 7, 8], TOS_sched_full = 4, TOS_sched_free = 0\<rparr>, 0) = ((s', 1), 0) \<and> sched_inv s'
    \<and> sched_waiting s' = [8] @ take (5 - length [8 :: nat]) [1, 2, 3, 4, 5, 6]"
proof (rule schedule_task_fifo)
  show "sched_waiting \<lparr>TOS_queue = [0, 0, 0, 0, 7, 8], TOS_sched_full = 4, TOS_sched_free = 0\<rparr> = 7 # [8]"
    by code_simp
qed (simp_all add: sched_inv_def)

end
