(* ===== verification/PacketLink.thy ===== *)
theory PacketLink
  imports Prelude
begin

text \<open>
  What the packet layers share: messages in memory, the calls they make, and their interface. The
  sender spools the bytes of a message down one at a time, each when the layer below reports the
  one before it taken; the receiver collects bytes in a buffer until a message is complete. Three
  components of the program provide it, \<open>PACKETOBJ\<close>, \<open>CRCPACKETOBJ\<close> and \<open>UART_PACKET\<close>.
\<close>

text \<open>A pointer names a message buffer; 0 is the null pointer.\<close>

type_synonym ptr = nat

type_synonym memory = "ptr \<Rightarrow> u8 list"

text \<open>Address, type, group, 30 bytes of data and a 16-bit signal strength, packed.\<close>

definition sizeof_TOS_Msg :: nat where "sizeof_TOS_Msg = 35"

text \<open>The first \<open>n\<close> bytes of the data.\<close>

definition data_of :: "u8 list \<Rightarrow> nat \<Rightarrow> u8 list" where
  "data_of m n = take n (drop 3 m)"

text \<open>A character compared with a size: it is widened with its sign, then taken as unsigned.\<close>

definition size_val :: "u8 \<Rightarrow> nat" where
  "size_val c = unat (scast c :: u16)"

datatype packet_out =
    PACKET_SUB_INIT
  | PACKET_SUB_TX_BYTES u8
  | PACKET_RX_PACKET_OVER
  | POST_TASK string

definition handed_down :: "packet_out list \<Rightarrow> u8 list" where
  "handed_down outs = [d. PACKET_SUB_TX_BYTES d \<leftarrow> outs]"

lemma handed_down_simps [simp]:
  "handed_down [] = []" "handed_down (PACKET_SUB_TX_BYTES d # outs) = d # handed_down outs"
  "handed_down (PACKET_SUB_INIT # outs) = handed_down outs"
  "handed_down (PACKET_RX_PACKET_OVER # outs) = handed_down outs" "handed_down (POST_TASK t # outs) = handed_down outs"
  "handed_down (xs @ ys) = handed_down xs @ handed_down ys"
  by (simp_all add: handed_down_def)

lemma size_val_small: "n < 128 \<Longrightarrow> size_val (word_of_nat n) = n"
proof -
  assume "n < 128"
  then have "unat (word_of_nat n :: u8) = n" by (simp add: unsigned_of_nat take_bit_nat_eq_self)
  with \<open>n < 128\<close> have "sint (word_of_nat n :: u8) = int n" by (simp add: sint8_nonneg)
  then have "(scast (word_of_nat n :: u8) :: u16) = word_of_nat n"
    by (simp only: scast_eq of_int_of_nat_eq)
  then show ?thesis using \<open>n < 128\<close> by (simp add: size_val_def unsigned_of_nat take_bit_nat_eq_self)
qed

section \<open>Sending\<close>

text \<open>\<open>sending m k s\<close>: message \<open>m\<close> is being sent and its first \<open>k\<close> bytes were handed down.\<close>

text \<open>\<open>taken\<close> is the report that a byte was taken, with the bytes it makes the sender hand down.\<close>

primrec spool :: "('s \<Rightarrow> 's \<times> 'b list) \<Rightarrow> nat \<Rightarrow> 's \<Rightarrow> 's \<times> 'b list" where
  "spool taken 0 s = (s, [])"
| "spool taken (Suc n) s = (case taken s of (s', ds) \<Rightarrow> case spool taken n s' of (s'', ds') \<Rightarrow> (s'', ds @ ds'))"

locale byte_spooler =
  fixes size :: nat
    and taken :: "'s \<Rightarrow> 's \<times> u8 list"
    and sending :: "u8 list \<Rightarrow> nat \<Rightarrow> 's \<Rightarrow> bool"
  assumes taken_next: "sending m k s \<Longrightarrow> length m = size \<Longrightarrow> k < size \<Longrightarrow>
      \<exists>s'. taken s = (s', [m ! k]) \<and> sending m (Suc k) s'"
begin

lemma spool_rest:
  "sending m k s \<Longrightarrow> length m = size \<Longrightarrow> k + n \<le> size \<Longrightarrow>
   \<exists>s'. spool taken n s = (s', take n (drop k m)) \<and> sending m (k + n) s'"
proof (induction n arbitrary: k s)
  case (Suc n)
  obtain s1 where 1: "taken s = (s1, [m ! k])" "sending m (Suc k) s1"
    using taken_next [OF Suc.prems(1,2)] Suc.prems(3) by auto
  obtain s2 where 2: "spool taken n s1 = (s2, take n (drop (Suc k) m))" "sending m (Suc k + n) s2"
    using Suc.IH [OF 1(2) Suc.prems(2)] Suc.prems(3) by auto
  have "take (Suc n) (drop k m) = m ! k # take n (drop (Suc k) m)"
    using Suc.prems by (simp add: Cons_nth_drop_Suc [symmetric])
  then show ?case using 1(1) 2 by simp
qed simp

end

section \<open>Both directions at once\<close>

text \<open>A driver with a sending and a receiving side, driven by reports that a byte was taken and by bytes
  that arrive, in any order.\<close>

datatype 'd line_event = Taken | Heard 'd

primrec both_ways :: "('s \<Rightarrow> 's \<times> 'b list) \<Rightarrow> ('d \<Rightarrow> 's \<Rightarrow> 's) \<Rightarrow> 'd line_event list \<Rightarrow> 's \<Rightarrow> 's \<times> 'b list" where
  "both_ways taken hears [] s = (s, [])"
| "both_ways taken hears (e # es) s =
     (case e of
        Taken \<Rightarrow> (case taken s of (s', bs) \<Rightarrow> case both_ways taken hears es s' of (s'', bs') \<Rightarrow> (s'', bs @ bs'))
      | Heard d \<Rightarrow> both_ways taken hears es (hears d s))"

primrec busy_for :: "('s \<Rightarrow> 's \<times> 'b list) \<Rightarrow> ('s \<Rightarrow> bool) \<Rightarrow> nat \<Rightarrow> 's \<Rightarrow> bool" where
  "busy_for taken busy 0 s \<longleftrightarrow> True"
| "busy_for taken busy (Suc n) s \<longleftrightarrow> busy s \<and> busy_for taken busy n (fst (taken s))"

text \<open>The two sides do not disturb each other while there is something to send.\<close>

locale two_sides =
  fixes taken :: "'s \<Rightarrow> 's \<times> 'b list"
    and hears :: "'d \<Rightarrow> 's \<Rightarrow> 's"
    and busy :: "'s \<Rightarrow> bool"
  assumes independent: "busy s \<Longrightarrow> taken (hears d s) = (hears d (fst (taken s)), snd (taken s))"
    and still_busy: "busy s \<Longrightarrow> busy (hears d s)"
begin

lemma busy_for_hears: "busy_for taken busy n s \<Longrightarrow> busy_for taken busy n (hears d s)"
  by (induction n arbitrary: s) (simp_all add: independent still_busy)

lemma spool_hears:
  "busy_for taken busy n s \<Longrightarrow> spool taken n (hears d s) = (hears d (fst (spool taken n s)), snd (spool taken n s))"
  by (induction n arbitrary: s) (simp_all add: independent split: prod.splits)

lemma any_order:
  "es \<in> shuffles (replicate n Taken) (map Heard ds) \<Longrightarrow> busy_for taken busy n s \<Longrightarrow>
   both_ways taken hears es s = (fold hears ds (fst (spool taken n s)), snd (spool taken n s))"
proof (induction es arbitrary: n ds s)
  case (Cons e es)
  show ?case
  proof (cases e)
    case Taken
    with Cons.prems obtain m where n: "n = Suc m" "es \<in> shuffles (replicate m Taken) (map Heard ds)"
      by (cases n; cases ds) (auto simp: Cons_in_shuffles_iff)
    then show ?thesis
      using Cons.IH [OF n(2), of "fst (taken s)"] Cons.prems(2) Taken by (simp add: case_prod_beta)
  next
    case (Heard d)
    with Cons.prems obtain ds' where ds: "ds = d # ds'" "es \<in> shuffles (replicate n Taken) (map Heard ds')"
      by (cases n; cases ds) (auto simp: Cons_in_shuffles_iff)
    then show ?thesis
      using Cons.IH [OF ds(2) busy_for_hears [OF Cons.prems(2)], of d] Cons.prems(2) Heard
      by (simp add: spool_hears)
  qed
qed simp

end

section \<open>Receiving\<close>

text \<open>\<open>collecting p s\<close>: the bytes \<open>p\<close> of a message have arrived; \<open>complete m s\<close>: all of them have.\<close>

locale byte_collector =
  fixes size :: nat
    and arrive :: "u8 \<Rightarrow> 's \<Rightarrow> 's"
    and collecting :: "u8 list \<Rightarrow> 's \<Rightarrow> bool"
    and complete :: "u8 list \<Rightarrow> 's \<Rightarrow> 's \<Rightarrow> bool"
  assumes arrive_next: "collecting p s \<Longrightarrow> Suc (length p) < size \<Longrightarrow> collecting (p @ [d]) (arrive d s)"
    and arrive_last: "collecting p s \<Longrightarrow> Suc (length p) = size \<Longrightarrow> complete (p @ [d]) s (arrive d s)"
begin

lemma collect_prefix:
  "collecting p s \<Longrightarrow> length p + length ds < size \<Longrightarrow> collecting (p @ ds) (fold arrive ds s)"
proof (induction ds arbitrary: p s)
  case (Cons d ds)
  then have "collecting ((p @ [d]) @ ds) (fold arrive ds (arrive d s))"
    by (intro Cons.IH arrive_next) simp_all
  then show ?case by simp
qed simp

lemma collect_all:
  assumes "collecting [] s" and "length m = size" and "0 < size"
  shows "\<exists>s1. collecting (butlast m) s1 \<and> complete m s1 (fold arrive m s)"
proof -
  obtain p d where m: "m = p @ [d]" using assms(2,3) by (cases m rule: rev_cases) auto
  have "collecting p (fold arrive p s)" using collect_prefix [OF assms(1), of p] assms(2) by (simp add: m)
  with arrive_last [OF this, of d] assms(2) show ?thesis by (auto simp: m)
qed

end

section \<open>Messages in memory\<close>

text \<open>The state the packet components keep: what they are doing (0 idle, 1 sending, 5 receiving), how
  many bytes were handed down or have arrived, the buffer received into and the message sent.\<close>

record packet =
  pk_state :: u8
  pk_count :: u8
  pk_rec_ptr :: ptr
  pk_send_ptr :: ptr

lemma size_val_numeral: "size_val 35 = 35" "size_val 36 = 36"
  using size_val_small [of 35] size_val_small [of 36] by simp_all

text \<open>Sending, from \<open>st0\<close> on, with \<open>k\<close> bytes gone.\<close>

definition pk_sending :: "packet \<times> memory \<Rightarrow> u8 list \<Rightarrow> nat \<Rightarrow> packet \<times> memory \<Rightarrow> bool" where
  "pk_sending st0 m k st \<longleftrightarrow> (case st0 of (s, mem) \<Rightarrow>
     st = (s\<lparr>pk_state := 1, pk_count := word_of_nat k\<rparr>, mem) \<and> mem (pk_send_ptr s) = m)"

definition taken_with ::
  "('s \<Rightarrow> 's \<times> packet_out list \<times> u8) \<Rightarrow> 's \<Rightarrow> 's \<times> u8 list" where
  "taken_with ready st = (case ready st of (st', out, _) \<Rightarrow> (st', handed_down out))"

lemma message_bytes: "length ((mem :: memory) msg) = sizeof_TOS_Msg \<Longrightarrow> mem msg ! 0 # tl (mem msg) = mem msg"
  by (cases "mem msg") (simp_all add: sizeof_TOS_Msg_def)

locale buffer_sender =
  fixes ready :: "packet \<times> memory \<Rightarrow> (packet \<times> memory) \<times> packet_out list \<times> u8"
  assumes ready_more: "pk_state s = 1 \<Longrightarrow> size_val (pk_count s) < sizeof_TOS_Msg \<Longrightarrow>
      ready (s, mem) = ((s\<lparr>pk_count := pk_count s + 1\<rparr>, mem),
        [PACKET_SUB_TX_BYTES (mem (pk_send_ptr s) ! unat (pk_count s))], 1)"

sublocale buffer_sender \<subseteq> byte_spooler sizeof_TOS_Msg "taken_with ready" "pk_sending st0" for st0
proof
  fix m k st
  assume *: "pk_sending st0 m k st" "length m = sizeof_TOS_Msg" "k < sizeof_TOS_Msg"
  then have "size_val (word_of_nat k) = k" "unat (word_of_nat k :: u8) = k"
    by (simp_all add: size_val_small sizeof_TOS_Msg_def unsigned_of_nat take_bit_nat_eq_self)
  with * show "\<exists>st'. taken_with ready st = (st', [m ! k]) \<and> pk_sending st0 m (Suc k) st'"
    by (cases st0) (simp add: pk_sending_def taken_with_def ready_more add.commute)
qed

context buffer_sender begin

lemma spool_message:
  assumes "length (mem msg) = sizeof_TOS_Msg"
  shows "spool (taken_with ready) 34 (s\<lparr>pk_send_ptr := msg, pk_state := 1, pk_count := 1\<rparr>, mem)
    = ((s\<lparr>pk_send_ptr := msg, pk_state := 1, pk_count := 35\<rparr>, mem), tl (mem msg))"
proof -
  have "pk_sending (s\<lparr>pk_send_ptr := msg\<rparr>, mem) (mem msg) 1 (s\<lparr>pk_send_ptr := msg, pk_state := 1, pk_count := 1\<rparr>, mem)"
    by (simp add: pk_sending_def)
  from spool_rest [OF this assms, where n = 34] show ?thesis
    using assms by (auto simp: pk_sending_def sizeof_TOS_Msg_def drop_Suc)
qed

end

text \<open>Receiving, from \<open>st0\<close> on, with the bytes \<open>p\<close> in the buffer.\<close>

definition pk_collecting :: "packet \<times> memory \<Rightarrow> u8 list \<Rightarrow> (packet \<times> memory) \<times> packet_out list \<times> u8 \<Rightarrow> bool" where
  "pk_collecting st0 p r \<longleftrightarrow> (case st0 of (s, mem) \<Rightarrow>
     pk_state s = 0 \<and> length (mem (pk_rec_ptr s)) = sizeof_TOS_Msg \<and> length p < sizeof_TOS_Msg
     \<and> r = (((if p = [] then s else s\<lparr>pk_state := 5, pk_count := word_of_nat (length p)\<rparr>),
             mem(pk_rec_ptr s := p @ drop (length p) (mem (pk_rec_ptr s)))), [], 1))"

lemma list_update_prefix: "length p < length xs \<Longrightarrow>
   (p @ drop (length p) xs)[length p := d] = (p @ [d]) @ drop (Suc (length p)) xs"
  by (simp add: list_update_append Cons_nth_drop_Suc [symmetric])

text \<open>\<open>deliver\<close> is what the last byte leads to, from the state it leaves.\<close>

definition arrive_with ::
  "(u8 \<Rightarrow> u8 \<Rightarrow> 's \<Rightarrow> 's \<times> 'o list \<times> u8) \<Rightarrow> u8 \<Rightarrow> 's \<times> 'o list \<times> u8 \<Rightarrow> 's \<times> 'o list \<times> u8" where
  "arrive_with rx d r = (case r of (st, outs, _) \<Rightarrow> (case rx d 0 st of (st', out, v) \<Rightarrow> (st', outs @ out, v)))"

text \<open>The bytes of a message arriving one after the other, with the calls made and the last answer,
  and the message in the buffer when the layer above is shown it.\<close>

definition receive_with ::
  "(u8 \<Rightarrow> u8 \<Rightarrow> 's \<Rightarrow> 's \<times> 'o list \<times> u8) \<Rightarrow> u8 list \<Rightarrow> 's \<Rightarrow> 's \<times> 'o list \<times> u8" where
  "receive_with rx ds st = fold (arrive_with rx) ds (st, [], 1)"

definition with_message :: "u8 list \<Rightarrow> packet \<times> memory \<Rightarrow> packet \<times> memory" where
  "with_message m st = (case st of (s, mem) \<Rightarrow> (s\<lparr>pk_state := 5, pk_count := 35\<rparr>, mem(pk_rec_ptr s := m)))"

locale buffer_receiver =
  fixes rx :: "u8 \<Rightarrow> u8 \<Rightarrow> packet \<times> memory \<Rightarrow> (packet \<times> memory) \<times> packet_out list \<times> u8"
    and deliver :: "packet \<times> memory \<Rightarrow> (packet \<times> memory) \<times> packet_out list \<times> u8"
  assumes rx_first: "pk_state s = 0 \<Longrightarrow>
      rx d 0 (s, mem) = ((s\<lparr>pk_state := 5, pk_count := 1\<rparr>, mem(pk_rec_ptr s := (mem (pk_rec_ptr s))[0 := d])), [], 1)"
    and rx_more: "pk_state s = 5 \<Longrightarrow> size_val (pk_count s + 1) \<noteq> sizeof_TOS_Msg \<Longrightarrow>
      rx d 0 (s, mem) = ((s\<lparr>pk_count := pk_count s + 1\<rparr>,
        mem(pk_rec_ptr s := (mem (pk_rec_ptr s))[unat (pk_count s) := d])), [], 1)"
    and rx_last: "pk_state s = 5 \<Longrightarrow> size_val (pk_count s + 1) = sizeof_TOS_Msg \<Longrightarrow>
      rx d 0 (s, mem) = deliver (s\<lparr>pk_count := pk_count s + 1\<rparr>,
        mem(pk_rec_ptr s := (mem (pk_rec_ptr s))[unat (pk_count s) := d]))"
    and rx_error: "error \<noteq> 0 \<Longrightarrow> rx d error (s, mem) = ((s\<lparr>pk_state := 0\<rparr>, mem), [], 0)"

sublocale buffer_receiver \<subseteq> byte_collector sizeof_TOS_Msg "arrive_with rx" "pk_collecting st0" "\<lambda>m r r'. r' = deliver (with_message m st0)" for st0
proof
  fix p :: "u8 list" and r d
  assume p: "pk_collecting st0 p r"
  obtain s mem where st0: "st0 = (s, mem)" by (cases st0)
  let ?rec = "pk_rec_ptr s"
  have facts: "pk_state s = 0" "length (mem ?rec) = 35" "length p < 35"
    "r = (((if p = [] then s else s\<lparr>pk_state := 5, pk_count := word_of_nat (length p)\<rparr>),
             mem(?rec := p @ drop (length p) (mem ?rec))), [], 1)"
    using p by (simp_all add: pk_collecting_def st0 sizeof_TOS_Msg_def)
  have inc: "word_of_nat (Suc (length p)) = word_of_nat (length p) + (1 :: u8)"
    by (simp add: add.commute)
  have count: "unat (word_of_nat (length p) :: u8) = length p" "size_val (word_of_nat (length p) + 1) = Suc (length p)"
    using facts(3) size_val_small [of "Suc (length p)"] unfolding inc
    by (simp_all add: unsigned_of_nat take_bit_nat_eq_self)
  have step: "p \<noteq> [] \<Longrightarrow> arrive_with rx d r =
      (if Suc (length p) = 35 then deliver (with_message (p @ [d]) st0)
       else ((s\<lparr>pk_state := 5, pk_count := word_of_nat (Suc (length p))\<rparr>,
         mem(?rec := (p @ [d]) @ drop (Suc (length p)) (mem ?rec))), [], 1))"
    unfolding facts(4) inc
    using facts(1,2) count list_update_prefix [of p "mem ?rec" d] facts(3)
    by (cases "Suc (length p) = 35")
       (simp_all add: arrive_with_def rx_more rx_last with_message_def st0 sizeof_TOS_Msg_def split: prod.splits)
  have first: "p = [] \<Longrightarrow> arrive_with rx d r = ((s\<lparr>pk_state := 5, pk_count := word_of_nat (Suc (length p))\<rparr>,
         mem(?rec := (p @ [d]) @ drop (Suc (length p)) (mem ?rec))), [], 1)"
    using facts list_update_prefix [of p "mem ?rec" d]
    by (simp add: arrive_with_def rx_first)
  show "pk_collecting st0 (p @ [d]) (arrive_with rx d r)" if "Suc (length p) < sizeof_TOS_Msg"
    using that facts step first
    by (cases "p = []") (simp_all add: pk_collecting_def st0 sizeof_TOS_Msg_def)
  show "arrive_with rx d r = deliver (with_message (p @ [d]) st0)" if "Suc (length p) = sizeof_TOS_Msg"
    using that step by (cases "p = []") (simp_all add: sizeof_TOS_Msg_def)
qed

context buffer_receiver begin

lemma receive_message:
  assumes "pk_state s = 0" and "length (mem (pk_rec_ptr s)) = sizeof_TOS_Msg" and "length m = sizeof_TOS_Msg"
  shows "receive_with rx m (s, mem) = deliver (with_message m (s, mem))"
    and "n < sizeof_TOS_Msg \<Longrightarrow> \<exists>st. receive_with rx (take n m) (s, mem) = (st, [], 1)"
proof -
  have start: "pk_collecting (s, mem) [] ((s, mem), [], 1)"
    using assms by (simp add: pk_collecting_def sizeof_TOS_Msg_def)
  show "receive_with rx m (s, mem) = deliver (with_message m (s, mem))"
    using collect_all [OF start assms(3)] by (simp add: sizeof_TOS_Msg_def receive_with_def)
  assume "n < sizeof_TOS_Msg"
  then have "pk_collecting (s, mem) (take n m) (receive_with rx (take n m) (s, mem))"
    using collect_prefix [OF start, of "take n m"] by (simp add: receive_with_def)
  then show "\<exists>st. receive_with rx (take n m) (s, mem) = (st, [], 1)"
    by (simp add: pk_collecting_def)
qed

lemma error_resync:
  assumes "pk_state s = 0" and "length (mem (pk_rec_ptr s)) = sizeof_TOS_Msg" and "length p < sizeof_TOS_Msg"
    and "error \<noteq> 0" and "length m = sizeof_TOS_Msg"
  shows "\<exists>st st'. receive_with rx p (s, mem) = (st, [], 1) \<and> rx d error st = (st', [], 0)
    \<and> receive_with rx m st' = deliver (with_message m (s, mem))"
proof -
  have "pk_collecting (s, mem) [] ((s, mem), [], 1)"
    using assms by (simp add: pk_collecting_def sizeof_TOS_Msg_def)
  from collect_prefix [OF this, of p] assms(3)
  obtain s1 mem1 where 1: "receive_with rx p (s, mem) = ((s1, mem1), [], 1)"
    "s1 = (if p = [] then s else s\<lparr>pk_state := 5, pk_count := word_of_nat (length p)\<rparr>)"
    "mem1 = mem(pk_rec_ptr s := p @ drop (length p) (mem (pk_rec_ptr s)))"
    by (auto simp: pk_collecting_def receive_with_def)
  let ?s2 = "s1\<lparr>pk_state := 0\<rparr>"
  have 2: "rx d error (s1, mem1) = ((?s2, mem1), [], 0)" by (rule rx_error [OF assms(4)])
  have "receive_with rx m (?s2, mem1) = deliver (with_message m (?s2, mem1))"
    by (rule receive_message) (use assms in \<open>simp_all add: 1(2,3) sizeof_TOS_Msg_def\<close>)
  also have "\<dots> = deliver (with_message m (s, mem))"
    by (simp add: with_message_def 1(2,3))
  finally show ?thesis using 1(1) 2 by blast
qed

end

end
