(* ===== verification/PacketObj.thy ===== *)
theory PacketObj
  imports PacketLink
begin

text \<open>
  The packet layer over the radio bytes, \<open>aps_proj/system/PACKETOBJ.c\<close>. State 0 is idle, 1 sending,
  5 receiving; \<open>count\<close> is the number of bytes handed down or collected. The message it was given to
  send and the one it receives into are buffers in memory; a receiver may keep the buffer and give
  another one in exchange.

  The lemmas: the bytes of a message handed down, and the message collected from its bytes.
\<close>

text \<open>\<open>accepted\<close> is what the layer below answers to a byte; \<open>upcall\<close> and \<open>sent\<close> are the events of the layer
  above, which may act on this component and on memory.\<close>

definition PACKET_TX_PACKET :: "u8 \<Rightarrow> ptr \<Rightarrow> packet \<times> memory \<Rightarrow> (packet \<times> memory) \<times> packet_out list \<times> u8" where
  "PACKET_TX_PACKET accepted msg st =
     (case st of (s, mem) \<Rightarrow>
        if pk_state s = 0 then
          (let s = s\<lparr>pk_send_ptr := msg, pk_state := 1, pk_count := 1\<rparr>;
               out = [PACKET_SUB_TX_BYTES (mem (pk_send_ptr s) ! 0)]
           in if accepted \<noteq> 0 then ((s, mem), out, 1) else ((s\<lparr>pk_state := 0, pk_count := 0\<rparr>, mem), out, 0))
        else ((s, mem), [], 0))"

definition PACKET_POWER :: "u8 \<Rightarrow> packet \<times> memory \<Rightarrow> packet \<times> memory" where
  "PACKET_POWER mode st = st"

definition PACKET_INIT :: "ptr \<Rightarrow> packet \<times> memory \<Rightarrow> (packet \<times> memory) \<times> packet_out list \<times> u8" where
  "PACKET_INIT buffer st =
     (case st of (s, mem) \<Rightarrow> ((s\<lparr>pk_rec_ptr := buffer, pk_state := 0\<rparr>, mem), [PACKET_SUB_INIT], 1))"

definition PACKET_RX_BYTE_READY ::
  "(ptr \<Rightarrow> packet \<times> memory \<Rightarrow> (packet \<times> memory) \<times> ptr) \<Rightarrow> u8 \<Rightarrow> u8 \<Rightarrow> packet \<times> memory
    \<Rightarrow> (packet \<times> memory) \<times> packet_out list \<times> u8" where
  "PACKET_RX_BYTE_READY upcall data error st =
     (case st of (s, mem) \<Rightarrow>
        if error \<noteq> 0 then ((s\<lparr>pk_state := 0\<rparr>, mem), [], 0)
        else if pk_state s = 0 then
          (let s = s\<lparr>pk_state := 5, pk_count := 1\<rparr>
           in ((s, mem(pk_rec_ptr s := (mem (pk_rec_ptr s))[0 := data])), [], 1))
        else if pk_state s = 5 then
          (let mem = mem(pk_rec_ptr s := (mem (pk_rec_ptr s))[unat (pk_count s) := data]);
               s = s\<lparr>pk_count := pk_count s + 1\<rparr>
           in if size_val (pk_count s) = sizeof_TOS_Msg then
                (case upcall (pk_rec_ptr s) (s, mem) of ((s, mem), tmp) \<Rightarrow>
                   (let s = (if tmp \<noteq> 0 then s\<lparr>pk_rec_ptr := tmp\<rparr> else s)
                    in ((s\<lparr>pk_state := 0\<rparr>, mem), [PACKET_RX_PACKET_OVER], 0)))
              else ((s, mem), [], 1))
        else ((s, mem), [], 1))"

definition PACKET_TX_BYTE_READY ::
  "(ptr \<Rightarrow> packet \<times> memory \<Rightarrow> packet \<times> memory) \<Rightarrow> u8 \<Rightarrow> packet \<times> memory
    \<Rightarrow> (packet \<times> memory) \<times> packet_out list \<times> u8" where
  "PACKET_TX_BYTE_READY sent success st =
     (case (if success = 0
            then (case sent (pk_send_ptr (fst st)) st of (s, mem) \<Rightarrow> (s\<lparr>pk_state := 0, pk_count := 0\<rparr>, mem))
            else st) of (s, mem) \<Rightarrow>
        if pk_state s = 1 then
          (if size_val (pk_count s) < sizeof_TOS_Msg
           then ((s\<lparr>pk_count := pk_count s + 1\<rparr>, mem),
                 [PACKET_SUB_TX_BYTES (mem (pk_send_ptr s) ! unat (pk_count s))], 1)
           else if size_val (pk_count s) = sizeof_TOS_Msg then ((s\<lparr>pk_count := pk_count s + 1\<rparr>, mem), [], 0)
           else
             (let s = s\<lparr>pk_state := 0, pk_count := 0\<rparr> in (sent (pk_send_ptr s) (s, mem), [], 0)))
        else ((s, mem), [], 1))"

definition PACKET_BYTE_TX_DONE :: "packet \<times> memory \<Rightarrow> (packet \<times> memory) \<times> u8" where
  "PACKET_BYTE_TX_DONE st = (st, 1)"

section \<open>Sending a message\<close>

interpretation pk_tx: buffer_sender "PACKET_TX_BYTE_READY sent 1" for sent
  by unfold_locales (simp add: PACKET_TX_BYTE_READY_def)

text \<open>A message accepted for sending is handed down byte by byte, in order and once each: one
  byte with the request and one with each of the next 34 reports that a byte was taken. One more
  report is let pass; with the next one the layer is idle and the sender is told, with memory as it
  was.\<close>

theorem packet_sent:
  assumes "pk_state s = 0" and "length (mem msg) = sizeof_TOS_Msg" and "accepted \<noteq> 0"
  shows "\<exists>st0 ds st1 st2. PACKET_TX_PACKET accepted msg (s, mem) = (st0, [PACKET_SUB_TX_BYTES (mem msg ! 0)], 1)
    \<and> spool (taken_with (PACKET_TX_BYTE_READY sent 1)) 34 st0 = (st1, ds) \<and> mem msg ! 0 # ds = mem msg
    \<and> PACKET_TX_BYTE_READY sent 1 st1 = (st2, [], 0)
    \<and> PACKET_TX_BYTE_READY sent 1 st2
        = (sent msg (s\<lparr>pk_send_ptr := msg, pk_state := 0, pk_count := 0\<rparr>, mem), [], 0)"
proof -
  let ?s = "\<lambda>n. s\<lparr>pk_send_ptr := msg, pk_state := 1, pk_count := n\<rparr>"
  have tx: "PACKET_TX_PACKET accepted msg (s, mem) = ((?s 1, mem), [PACKET_SUB_TX_BYTES (mem msg ! 0)], 1)"
    using assms by (simp add: PACKET_TX_PACKET_def)
  have "PACKET_TX_BYTE_READY sent 1 (?s 35, mem) = ((?s 36, mem), [], 0)"
    by (simp add: PACKET_TX_BYTE_READY_def size_val_numeral sizeof_TOS_Msg_def)
  moreover have "PACKET_TX_BYTE_READY sent 1 (?s 36, mem)
      = (sent msg (s\<lparr>pk_send_ptr := msg, pk_state := 0, pk_count := 0\<rparr>, mem), [], 0)"
    by (simp add: PACKET_TX_BYTE_READY_def size_val_numeral sizeof_TOS_Msg_def)
  ultimately show ?thesis
    using tx pk_tx.spool_message [of mem msg] message_bytes [of mem msg] assms(2) by blast
qed

definition pk_idle :: packet where
  "pk_idle = \<lparr>pk_state = 0, pk_count = 0, pk_rec_ptr = 1, pk_send_ptr = 0\<rparr>"

lemma packet_sent_witness:
  "\<exists>st0 ds st1 st2. PACKET_TX_PACKET 1 2 (pk_idle, \<lambda>p. map word_of_nat [0..<35]) = (st0, [PACKET_SUB_TX_BYTES 0], 1)
    \<and> spool (taken_with (PACKET_TX_BYTE_READY (\<lambda>p st. st) 1)) 34 st0 = (st1, ds) \<and> 0 # ds = map word_of_nat [0..<35]
    \<and> PACKET_TX_BYTE_READY (\<lambda>p st. st) 1 st1 = (st2, [], 0)
    \<and> PACKET_TX_BYTE_READY (\<lambda>p st. st) 1 st2 = ((pk_idle\<lparr>pk_send_ptr := 2\<rparr>, \<lambda>p. map word_of_nat [0..<35]), [], 0)"
  using packet_sent [of pk_idle "\<lambda>p. map word_of_nat [0..<35]" 2 1 "\<lambda>p st. st"]
  by (simp add: pk_idle_def sizeof_TOS_Msg_def del: upt_Suc)

section \<open>Receiving a message\<close>

text \<open>What the last byte leads to: the message is shown to the layer above while this one still
  refuses to send, and the buffer given in exchange is used from then on.\<close>

definition pk_deliver ::
  "(ptr \<Rightarrow> packet \<times> memory \<Rightarrow> (packet \<times> memory) \<times> ptr) \<Rightarrow> packet \<times> memory
    \<Rightarrow> (packet \<times> memory) \<times> packet_out list \<times> u8" where
  "pk_deliver upcall st =
     (case upcall (pk_rec_ptr (fst st)) st of ((s', mem'), tmp) \<Rightarrow>
        ((s'\<lparr>pk_rec_ptr := if tmp \<noteq> 0 then tmp else pk_rec_ptr s', pk_state := 0\<rparr>, mem'), [PACKET_RX_PACKET_OVER], 0))"

interpretation pk_rx: buffer_receiver "PACKET_RX_BYTE_READY upcall" "pk_deliver upcall" for upcall
  by unfold_locales (simp_all add: PACKET_RX_BYTE_READY_def pk_deliver_def split: prod.splits)

text \<open>The bytes of a message, arriving without error at an idle receiver, are exactly what the
  buffer holds when the layer above is shown it; that happens once, with the last byte, which is
  also the only one the layer below is told not to go on after.\<close>

theorem packet_received:
  assumes "pk_state s = 0" and "length (mem (pk_rec_ptr s)) = sizeof_TOS_Msg" and "length m = sizeof_TOS_Msg"
  shows "receive_with (PACKET_RX_BYTE_READY upcall) m (s, mem) = pk_deliver upcall (with_message m (s, mem)) \<and>
    (\<forall>n. n < sizeof_TOS_Msg \<longrightarrow> (\<exists>st. receive_with (PACKET_RX_BYTE_READY upcall) (take n m) (s, mem) = (st, [], 1)))"
  using pk_rx.receive_message [where s = s and mem = mem and m = m, OF assms] by blast

lemma packet_received_witness:
  "receive_with (PACKET_RX_BYTE_READY (\<lambda>p st. (st, 3))) (map word_of_nat [0..<35]) (pk_idle, \<lambda>p. replicate 35 0)
     = pk_deliver (\<lambda>p st. (st, 3)) (with_message (map word_of_nat [0..<35]) (pk_idle, \<lambda>p. replicate 35 0)) \<and>
    (\<exists>st. receive_with (PACKET_RX_BYTE_READY (\<lambda>p st. (st, 3))) (take 34 (map word_of_nat [0..<35]))
      (pk_idle, \<lambda>p. replicate 35 0) = (st, [], 1))"
proof -
  have "length (map word_of_nat [0..<35] :: u8 list) = sizeof_TOS_Msg" by (simp add: sizeof_TOS_Msg_def)
  from packet_received [where s = pk_idle and mem = "\<lambda>p. replicate 35 0" and upcall = "\<lambda>p st. (st, 3)", OF _ _ this]
  show ?thesis by (simp add: pk_idle_def sizeof_TOS_Msg_def del: upt_Suc)
qed

text \<open>After an error in the middle of a message, wherever it strikes, nothing of the broken
  message reaches the layer above and the next message is received as if the broken one had never
  been there.\<close>

theorem packet_error_resync:
  assumes "pk_state s = 0" and "length (mem (pk_rec_ptr s)) = sizeof_TOS_Msg" and "length p < sizeof_TOS_Msg"
    and "error \<noteq> 0" and "length m = sizeof_TOS_Msg"
  shows "\<exists>st st'. receive_with (PACKET_RX_BYTE_READY upcall) p (s, mem) = (st, [], 1) \<and> PACKET_RX_BYTE_READY upcall d error st = (st', [], 0)
    \<and> receive_with (PACKET_RX_BYTE_READY upcall) m st' = pk_deliver upcall (with_message m (s, mem))"
  by (rule pk_rx.error_resync) (use assms in simp_all)

lemma packet_error_resync_witness:
  "\<exists>st st'. receive_with (PACKET_RX_BYTE_READY (\<lambda>p st. (st, 0))) [7, 8, 9] (pk_idle, \<lambda>p. replicate 35 0) = (st, [], 1)
    \<and> PACKET_RX_BYTE_READY (\<lambda>p st. (st, 0)) 0 1 st = (st', [], 0)
    \<and> receive_with (PACKET_RX_BYTE_READY (\<lambda>p st. (st, 0))) (map word_of_nat [0..<35]) st'
        = pk_deliver (\<lambda>p st. (st, 0)) (with_message (map word_of_nat [0..<35]) (pk_idle, \<lambda>p. replicate 35 0))"
  by (rule packet_error_resync) (simp_all add: pk_idle_def sizeof_TOS_Msg_def)

end
