(* ===== verification/ByteLink.thy ===== *)
theory ByteLink
  imports Prelude
begin

text \<open>
  The interface of the radio byte layers: a byte goes on the air as a word of a fixed number of
  bits and comes back. Three components of the program provide it, \<open>SEC_DED_RADIO_BYTE\<close>,
  \<open>FOUR_B_RADIO_BYTE\<close> and \<open>RADIO_BYTE\<close>, each with a code of its own; a stream of bytes then
  survives the air, and a correcting code survives a flipped bit in every byte.
\<close>

text \<open>A bit as the value of a C expression.\<close>

definition bit_val :: "bool \<Rightarrow> u8" where
  "bit_val b = (if b then 1 else 0)"

lemma bit_val_simps [simp]: "bit_val True = 1" "bit_val False = 0" "bit_val b = 0 \<longleftrightarrow> \<not> b" "bit_val b = 1 \<longleftrightarrow> b"
  by (simp_all add: bit_val_def)

definition bits_of :: "u8 \<Rightarrow> bool list" where
  "bits_of w = map (bit w) [0..<8]"

lemma length_bits_of [simp]: "length (bits_of w) = 8"
  by (simp add: bits_of_def)

definition flip_at :: "nat \<Rightarrow> bool list \<Rightarrow> bool list" where
  "flip_at i bs = bs[i := \<not> bs ! i]"

lemma length_flip_at [simp]: "length (flip_at i bs) = length bs"
  by (simp add: flip_at_def)

lemma nth_bits_of [simp]: "i < 8 \<Longrightarrow> bits_of w ! i = bit w i"
  by (simp add: bits_of_def)

lemma bits_of_inject: "bits_of a = bits_of b \<Longrightarrow> a = b"
  by (rule bit_word_eqI) (metis len_num1 len_bit0 mult_2 nth_bits_of numeral_Bit0 numeral_One)

text \<open>The receivers clock a byte in from the top, lowest bit first.\<close>

definition shift_in :: "u8 \<Rightarrow> bool \<Rightarrow> u8" where
  "shift_in w b = (if b then (signed_drop_bit 1 w AND 0x7f) OR 0x80 else signed_drop_bit 1 w AND 0x7f)"

definition byte_of :: "bool list \<Rightarrow> u8" where
  "byte_of bs = foldl shift_in 0 bs"

lemma bits_of_shift_in: "bits_of (shift_in w b) = tl (bits_of w) @ [b]"
  by (simp add: shift_in_def bits_of_def upt_rec bit_simps)

lemma bits_of_foldl_shift_in:
  "bits_of (foldl shift_in w bs) = drop (length bs) (bits_of w @ bs)"
proof (induction bs arbitrary: w)
  case (Cons b bs)
  show ?case
    by (simp add: Cons bits_of_shift_in) (simp add: bits_of_def upt_rec)
qed simp

lemma foldl_shift_in_8: "length bs = 8 \<Longrightarrow> foldl shift_in w bs = byte_of bs"
  by (rule bits_of_inject) (simp add: byte_of_def bits_of_foldl_shift_in)

lemma bits_of_byte_of [simp]: "length bs = 8 \<Longrightarrow> bits_of (byte_of bs) = bs"
  by (simp add: byte_of_def bits_of_foldl_shift_in)

lemma byte_of_bits_of [simp]: "byte_of (bits_of w) = w"
  by (rule bits_of_inject) simp

lemma flip_at_append1: "i < length xs \<Longrightarrow> flip_at i (xs @ ys) = flip_at i xs @ ys"
  by (simp add: flip_at_def list_update_append nth_append)

lemma flip_at_append2: "length xs \<le> i \<Longrightarrow> flip_at i (xs @ ys) = xs @ flip_at (i - length xs) ys"
  by (simp add: flip_at_def list_update_append nth_append)

lemma flip_at_bits_of: "i < 8 \<Longrightarrow> flip_at i (bits_of w) = bits_of (w XOR push_bit i 1)"
  by (rule nth_equalityI) (auto simp: flip_at_def nth_list_update bit_simps)

locale byte_link =
  fixes width :: nat
    and tx_bits :: "u8 \<Rightarrow> bool list"
    and rx_byte :: "bool list \<Rightarrow> u8"
  assumes tx_length: "length (tx_bits b) = width"
    and rx_tx: "rx_byte (tx_bits b) = b"
begin

lemma tx_inj: "tx_bits a = tx_bits b \<Longrightarrow> a = b"
  using rx_tx by metis

end

text \<open>A code that survives a flipped bit at some positions.\<close>

definition noise :: "nat option \<Rightarrow> bool list \<Rightarrow> bool list" where
  "noise e bs = (case e of None \<Rightarrow> bs | Some i \<Rightarrow> flip_at i bs)"

lemma length_noise [simp]: "length (noise e bs) = length bs"
  by (simp add: noise_def split: option.splits)

locale correcting_link = byte_link +
  fixes protected :: "nat set"
  assumes rx_flip: "i \<in> protected \<Longrightarrow> rx_byte (flip_at i (tx_bits b)) = b"
begin

lemma rx_noise: "(\<forall>i. e = Some i \<longrightarrow> i \<in> protected) \<Longrightarrow> rx_byte (noise e (tx_bits b)) = b"
  using rx_tx rx_flip by (cases e) (simp_all add: noise_def)

lemma rx_noises:
  assumes "length es = length ds" and "\<forall>i. Some i \<in> set es \<longrightarrow> i \<in> protected"
  shows "map rx_byte (map2 noise es (map tx_bits ds)) = ds"
proof (rule nth_equalityI)
  let ?ws = "map2 noise es (map tx_bits ds)"
  fix i assume "i < length (map rx_byte ?ws)"
  then have i: "i < length ds" by simp
  then have "es ! i \<in> set es" using assms(1) by simp
  then have "rx_byte (noise (es ! i) (tx_bits (ds ! i))) = ds ! i"
    using assms(2) by (intro rx_noise) metis
  then show "map rx_byte ?ws ! i = ds ! i" using i assms(1) by simp
qed (use assms(1) in simp)

end

section \<open>What the radio components call\<close>

text \<open>Commands to the radio below, events to the packet layer above and tasks posted, with their
  arguments.\<close>

datatype radio_out =
    RADIO_SUB_INIT
  | RADIO_SUB_PWR u8
  | RADIO_SUB_RX_MODE
  | RADIO_SUB_TX_MODE
  | RADIO_SUB_SET_BIT_RATE u8
  | RADIO_SUB_TX_BIT u8
  | RADIO_BYTE_RX_BYTE_READY u8 u8
  | RADIO_BYTE_TX_BYTE_READY u8
  | RADIO_BYTE_TX_DONE
  | POST_ENCODE
  | POST_DECODE

fun sent_bit :: "radio_out \<Rightarrow> bool option" where
  "sent_bit (RADIO_SUB_TX_BIT b) = Some (b = 1)"
| "sent_bit _ = None"

definition sent_bits :: "radio_out list \<Rightarrow> bool list" where
  "sent_bits outs = List.map_filter sent_bit outs"

lemma sent_bits_simps [simp]:
  "sent_bits [] = []" "sent_bits (RADIO_SUB_TX_BIT b # outs) = (b = 1) # sent_bits outs"
  "sent_bits (RADIO_BYTE_TX_BYTE_READY v # outs) = sent_bits outs" "sent_bits (RADIO_BYTE_TX_DONE # outs) = sent_bits outs"
  "sent_bits (RADIO_SUB_RX_MODE # outs) = sent_bits outs" "sent_bits (RADIO_SUB_SET_BIT_RATE v # outs) = sent_bits outs"
  "sent_bits (xs @ ys) = sent_bits xs @ sent_bits ys"
  by (simp_all add: sent_bits_def List.map_filter_def)

lemma bit_times_2: "bit (w * 2 :: u8) k \<longleftrightarrow> 0 < k \<and> k < 8 \<and> bit w (k - 1)"
proof -
  have "bit (push_bit 1 w) k \<longleftrightarrow> 0 < k \<and> k < 8 \<and> bit w (k - 1)"
    unfolding bit_push_bit_iff by (auto simp: Suc_le_eq)
  then show ?thesis by (simp add: push_bit_eq_mult)
qed

lemma and_1_eq_1: "(w AND 1 = 1) = bit (w :: u8) 0"
  by (simp add: and_one_eq mod_2_eq_odd bit_0)

section \<open>Senders and receivers\<close>

text \<open>A sender is given each next byte while the one before it is on the air.\<close>

locale byte_sender = byte_link +
  fixes send_next :: "u8 \<Rightarrow> 's \<Rightarrow> bool list \<times> 's"
    and send_last :: "'s \<Rightarrow> bool list"
    and ready :: "u8 \<Rightarrow> 's \<Rightarrow> bool"
  assumes next_bits: "ready b s \<Longrightarrow> \<exists>s'. send_next d s = (tx_bits b, s') \<and> ready d s'"
    and last_bits: "ready b s \<Longrightarrow> send_last s = tx_bits b"
begin

primrec send :: "u8 list \<Rightarrow> 's \<Rightarrow> bool list list" where
  "send [] s = [send_last s]"
| "send (d # ds) s = (case send_next d s of (bs, s') \<Rightarrow> bs # send ds s')"

lemma send_code: "ready b s \<Longrightarrow> send ds s = map tx_bits (b # ds)"
proof (induction ds arbitrary: b s)
  case (Cons d ds)
  from next_bits [OF Cons.prems] obtain s' where "send_next d s = (tx_bits b, s')" "ready d s'" by blast
  with Cons.IH [of d s'] show ?case by simp
qed (simp add: last_bits)

end

text \<open>A receiver is run on the bits it samples and delivers bytes.\<close>

locale bit_receiver =
  fixes run :: "bool list \<Rightarrow> 's \<Rightarrow> u8 list \<times> 's"
  assumes run_Nil: "run [] r = ([], r)"
    and run_append: "run (bs @ cs) r = (case run bs r of (d1, r1) \<Rightarrow> case run cs r1 of (d2, r2) \<Rightarrow> (d1 @ d2, r2))"

locale byte_receiver = bit_receiver + byte_link +
  fixes listening :: "'a \<Rightarrow> bool"
  assumes run_word: "listening r \<Longrightarrow> length w = width \<Longrightarrow> \<exists>r'. run w r = ([rx_byte w], r') \<and> listening r'"
begin

lemma run_words:
  "listening r \<Longrightarrow> \<forall>w \<in> set ws. length w = width \<Longrightarrow>
   \<exists>r'. run (concat ws) r = (map rx_byte ws, r') \<and> listening r'"
proof (induction ws arbitrary: r)
  case (Cons w ws)
  obtain r1 where 1: "run w r = ([rx_byte w], r1)" "listening r1"
    using run_word [of r w] Cons.prems by auto
  obtain r2 where 2: "run (concat ws) r1 = (map rx_byte ws, r2)" "listening r2"
    using Cons.IH [OF 1(2)] Cons.prems by auto
  show ?case using 1 2 by (simp add: run_append)
qed (simp add: run_Nil)

lemma run_sent:
  "listening r \<Longrightarrow> \<exists>r'. run (concat (map tx_bits ds)) r = (ds, r') \<and> listening r'"
  using run_words [of r "map tx_bits ds"] by (auto simp: tx_length rx_tx comp_def)

end

locale correcting_receiver = byte_receiver + correcting_link
begin

lemma run_noisy:
  assumes "listening r" and "length es = length ds" and "\<forall>i. Some i \<in> set es \<longrightarrow> i \<in> protected"
  shows "\<exists>r'. run (concat (map2 noise es (map tx_bits ds))) r = (ds, r') \<and> listening r'"
proof -
  let ?ws = "map2 noise es (map tx_bits ds)"
  have len: "\<forall>w \<in> set ?ws. length w = width"
    by (auto simp: tx_length dest!: set_zip_rightD)
  show ?thesis using run_words [OF assms(1) len] rx_noises [OF assms(2,3)] by simp
qed

end

text \<open>Before a byte, the receiver looks for a start symbol: it samples every bit twice and compares
  a window on the last bits with a pattern.\<close>

primrec sampled_twice :: "bool list \<Rightarrow> bool list" where
  "sampled_twice [] = []"
| "sampled_twice (b # bs) = [b, b] @ sampled_twice bs"

text \<open>The pattern is first met with the last of the bits.\<close>

primrec meets_last :: "bool list \<Rightarrow> bool list \<Rightarrow> bool list \<Rightarrow> bool" where
  "meets_last p w [] = False"
| "meets_last p w (b # bs) = (if tl w @ [b] = p then bs = [] else meets_last p (tl w @ [b]) bs)"

locale start_search = bit_receiver +
  fixes searching :: "'a \<Rightarrow> bool"
    and window :: "'a \<Rightarrow> bool list"
    and found :: "'a \<Rightarrow> bool"
    and pattern :: "bool list"
  assumes run_twice: "searching r \<Longrightarrow> \<exists>r'. run [b, b] r = ([], r') \<and>
      (if tl (window r) @ [b] = pattern then found r' else searching r' \<and> window r' = tl (window r) @ [b])"
begin

lemma run_start:
  "searching r \<Longrightarrow> meets_last pattern (window r) bs \<Longrightarrow> \<exists>r'. run (sampled_twice bs) r = ([], r') \<and> found r'"
proof (induction bs arbitrary: r)
  case (Cons b bs)
  obtain r1 where r1: "run [b, b] r = ([], r1)"
    "if tl (window r) @ [b] = pattern then found r1 else searching r1 \<and> window r1 = tl (window r) @ [b]"
    using run_twice [OF Cons.prems(1)] by blast
  have run: "run (sampled_twice (b # bs)) r = run (sampled_twice bs) r1"
    by (simp only: sampled_twice.simps run_append r1(1) prod.case append_Nil case_prod_eta)
      (simp split: prod.splits)
  show ?case
  proof (cases "tl (window r) @ [b] = pattern")
    case True
    then show ?thesis using Cons.prems(2) r1 run by (simp add: run_Nil)
  next
    case False
    then show ?thesis using Cons.IH [of r1] Cons.prems(2) r1(2) run by simp
  qed
qed simp

end

section \<open>Shift registers\<close>

text \<open>A sender puts bit 0 of a register on the air and shifts it; at certain counts it does more.\<close>

locale shift_sender =
  fixes sends :: "'s \<Rightarrow> bool"
    and reg :: "'s \<Rightarrow> u8"
    and cnt :: "'s \<Rightarrow> u8"
    and put :: "u8 \<Rightarrow> u8 \<Rightarrow> 's \<Rightarrow> 's"
    and marks :: "u8 set"
    and run :: "nat \<Rightarrow> 's \<Rightarrow> bool list \<times> 's"
  assumes put_laws: "sends s \<Longrightarrow> sends (put w c s)" "reg (put w c s) = w" "cnt (put w c s) = c"
      "put w' c' (put w c s) = put w' c' s" "put (reg s) (cnt s) s = s"
    and run_0: "run 0 s = ([], s)"
    and run_quiet: "sends s \<Longrightarrow> cnt s + 1 \<notin> marks \<Longrightarrow>
      run (Suc n) s = (case run n (put (signed_drop_bit 1 (reg s)) (cnt s + 1) s) of (bs, s') \<Rightarrow> (bit (reg s) 0 # bs, s'))"
begin

lemma run_shift:
  "sends s \<Longrightarrow> \<forall>i<j. cnt s + word_of_nat (Suc i) \<notin> marks \<Longrightarrow> j < 8 \<Longrightarrow>
   run j s = (map (bit (reg s)) [0..<j], put (signed_drop_bit j (reg s)) (cnt s + word_of_nat j) s)"
proof (induction j arbitrary: s)
  case (Suc j)
  let ?s = "put (signed_drop_bit 1 (reg s)) (cnt s + 1) s"
  have "bit (signed_drop_bit 1 (reg s)) i = bit (reg s) (Suc i)" if "i < j" for i
    using that Suc.prems(3) by (simp add: bit_simps)
  then have "map (bit (signed_drop_bit 1 (reg s))) [0..<j] = map (bit (reg s)) (map Suc [0..<j])"
    by simp
  moreover have "\<forall>i<j. cnt ?s + word_of_nat (Suc i) \<notin> marks"
    using Suc.prems(2) [rule_format, of "Suc _"] by (simp add: put_laws add.assoc)
  ultimately show ?case
    using Suc.IH [of ?s] Suc.prems run_quiet [of s j] Suc.prems(2) [rule_format, of 0]
    by (simp add: put_laws upt_conv_Cons map_Suc_upt add.assoc del: map_map upt_Suc)
qed (simp add: run_0 put_laws)

end

end
