(* ===== verification/SecDed.thy ===== *)
theory SecDed
  imports ByteLink
begin

text \<open>
  The radio byte layer with single-error correction, \<open>aps_proj/system/SEC_DED_RADIO_BYTE.c\<close>, in
  the mote build (\<open>FULLPC\<close> not defined): a byte becomes 13 code bits and 3 filler bits, with a
  second copy of one of them, sent as 18 bits. The state machine: 0 looks for the start symbol,
  5 to 8 clock a byte in, 10 waits for a quiet channel, 1 has no byte encoded, 2 one, 3 one and
  one waiting, 4 two.

  The lemmas: encoding and decoding over all bytes and all single-bit errors. The bit events over
  whole bytes are theory \<open>SecDedLink\<close>.
\<close>

section \<open>State and operations\<close>

record secded =
  sd_primary :: "u8 list"
  sd_secondary :: "u8 list"
  sd_state :: u8
  sd_count :: u8
  sd_last_bit :: u8
  sd_waiting :: u8
  sd_wait_amount :: u8
  sd_shift_reg :: u16

definition xor_if :: "u8 \<Rightarrow> u8 \<Rightarrow> u8 \<Rightarrow> u8 \<Rightarrow> u8" where
  "xor_if val bit_mask w r = (if val AND bit_mask \<noteq> 0 then r XOR w else r)"

definition encodeData :: "secded \<Rightarrow> secded" where
  "encodeData s =
     (let val = sd_secondary s ! 0;
          ret_high = xor_if val 0x80 0x1 0;
          ret_mid = xor_if val 0x2 0x1 0;
          ret_mid = xor_if val 0x4 0x2 ret_mid;
          ret_mid = xor_if val 0x8 0x8 ret_mid;
          ret_mid = xor_if val 0x10 0x10 ret_mid;
          ret_mid = xor_if val 0x20 0x60 ret_mid;
          ret_mid = xor_if val 0x40 0x80 ret_mid;
          ret_low = xor_if val 0x1 0x77 0;
          ret_low = xor_if val 0x2 0x34 ret_low;
          ret_low = xor_if val 0x4 0x32 ret_low;
          ret_low = xor_if val 0x8 0x31 ret_low;
          ret_low = xor_if val 0x10 0x26 ret_low;
          ret_low = xor_if val 0x20 0x25 ret_low;
          ret_low = xor_if val 0x40 0x13 ret_low;
          ret_low = xor_if val 0x80 0x7 ret_low;
          ret_low = (if ret_low AND 0xc = 0 then ret_low OR 0x8 else ret_low);
          ret_low = (if ret_low AND 0x40 = 0 \<and> ret_mid AND 0x1 = 0 then ret_low OR 0x80 else ret_low);
          ret_mid = (if ret_mid AND 0xa = 0 then ret_mid OR 0x4 else ret_mid);
          ret_mid = (if ret_mid AND 0x50 = 0 then ret_mid OR 0x20 else ret_mid);
          ret_high = (if ret_high AND 0x1 = 0 then ret_high OR 0x2 else ret_high)
      in s\<lparr>sd_secondary := [ret_high, ret_mid, ret_low]\<rparr>)"

text \<open>The correction step: which bit of the two halves a non-zero syndrome names.\<close>

definition sd_correct :: "u8 \<Rightarrow> u8 \<Rightarrow> u8 \<Rightarrow> u8 \<times> u8" where
  "sd_correct out val val2 =
     (if out = 0 then (val, val2)
      else if out = 0x1 then (val XOR 0x1, val2)
      else if out = 0x2 then (val XOR 0x2, val2)
      else if out = 0x4 then (val XOR 0x4, val2)
      else if out = 0x8 then (val XOR 0x8, val2)
      else if out = 0x10 then (val XOR 0x10, val2)
      else if out = 0x1f then (val XOR 0x20, val2)
      else if out = 0x1c then (val XOR 0x40, val2)
      else if out = 0x1a then (val XOR 0x80, val2)
      else if out = 0x19 then (val, val2 XOR 0x1)
      else if out = 0x16 then (val, val2 XOR 0x2)
      else if out = 0x15 then (val, val2 XOR 0x4)
      else if out = 0xb then (val, val2 XOR 0x8)
      else if out = 0x7 then (val, val2 XOR 0x10)
      else (val, val2))"

definition decodeData :: "secded \<Rightarrow> u8" where
  "decodeData s =
     (let s0 = sd_secondary s ! 0; s1 = sd_secondary s ! 1; s2 = sd_secondary s ! 2;
          ret_high = push_bit 4 s0 AND 0x10;
          ret_high = ret_high OR (signed_drop_bit 4 s1 AND 0xc);
          ret_high = ret_high OR (signed_drop_bit 3 s1 AND 0x3);
          ret_low = push_bit 6 s1 AND 0xc0;
          ret_low = ret_low OR (signed_drop_bit 1 s2 AND 0x38);
          ret_low = ret_low OR (s2 AND 0x7);
          val = ret_low; val2 = ret_high;
          out = xor_if val 0x1 0x1 0;
          out = xor_if val 0x2 0x2 out;
          out = xor_if val 0x4 0x4 out;
          out = xor_if val 0x8 0x8 out;
          out = xor_if val 0x10 0x10 out;
          out = xor_if val 0x20 0x1f out;
          out = xor_if val 0x40 0x1c out;
          out = xor_if val 0x80 0x1a out;
          out = xor_if val2 0x1 0x19 out;
          out = xor_if val2 0x2 0x16 out;
          out = xor_if val2 0x4 0x15 out;
          out = xor_if val2 0x8 0xb out;
          out = xor_if val2 0x10 0x7 out;
          (val, val2) = sd_correct out val val2
      in (signed_drop_bit 5 val AND 0x7) OR (push_bit 3 val2 AND 0xf8))"

definition radio_encode_thread :: "secded \<Rightarrow> secded" where
  "radio_encode_thread s =
     (let s = encodeData s
      in if sd_state s = 1
         then s\<lparr>sd_primary := [0x2, 0x6b, 0x05], sd_count := 4, sd_state := 4\<rparr>
         else s\<lparr>sd_state := 4\<rparr>)"

definition radio_decode_thread :: "secded \<Rightarrow> secded \<times> radio_out list" where
  "radio_decode_thread s = (s, [RADIO_BYTE_RX_BYTE_READY (decodeData s) 0])"

definition secded_RADIO_PACKET_OVER :: "secded \<Rightarrow> secded \<times> radio_out list" where
  "secded_RADIO_PACKET_OVER s = (s\<lparr>sd_state := 0\<rparr>, [RADIO_SUB_SET_BIT_RATE 0])"

definition secded_RADIO_BYTE_INIT :: "u8 \<Rightarrow> secded \<Rightarrow> secded \<times> radio_out list \<times> u8" where
  "secded_RADIO_BYTE_INIT addr s =
     (s\<lparr>sd_state := 0, sd_wait_amount := 12, sd_shift_reg := 119 * ucast addr\<rparr>, [RADIO_SUB_INIT], 1)"

definition secded_RADIO_BYTE_TX_BYTES :: "u8 \<Rightarrow> secded \<Rightarrow> secded \<times> radio_out list \<times> u8" where
  "secded_RADIO_BYTE_TX_BYTES data s =
     (if sd_state s = 0 then (s\<lparr>sd_secondary := (sd_secondary s)[0 := data], sd_state := 10\<rparr>, [], 1)
      else if sd_state s = 2
      then (s\<lparr>sd_state := 3, sd_secondary := (sd_secondary s)[0 := data]\<rparr>, [POST_ENCODE], 1)
      else if sd_state s = 4 then (s, [], 0)
      else (s, [], 0))"

definition secded_RADIO_BYTE_PWR :: "u8 \<Rightarrow> secded \<Rightarrow> secded \<times> radio_out list \<times> u8" where
  "secded_RADIO_BYTE_PWR mode s =
     (if mode = 0 then (s\<lparr>sd_state := 0\<rparr>, [RADIO_SUB_PWR 0], 1)
      else (s\<lparr>sd_state := 0, sd_count := 0, sd_last_bit := 0xff, sd_waiting := 0\<rparr>,
            [RADIO_SUB_PWR 1, RADIO_SUB_RX_MODE, RADIO_SUB_SET_BIT_RATE 0], 1))"

text \<open>The bit events. A send event in a state that does not transmit is refused.\<close>

definition secded_TX_BIT_EVENT :: "secded \<Rightarrow> secded \<times> radio_out list \<times> u8" where
  "secded_TX_BIT_EVENT s =
     (if sd_state s \<noteq> 2 \<and> sd_state s \<noteq> 3 \<and> sd_state s \<noteq> 4 then (s, [], 0)
      else
        (let p = sd_primary s;
             out = [RADIO_SUB_TX_BIT (p ! 2 AND 0x01)];
             p = p[2 := signed_drop_bit 1 (p ! 2)];
             s = s\<lparr>sd_primary := p, sd_count := sd_count s + 1\<rparr>
         in if sd_count s = 8 then (s\<lparr>sd_primary := p[2 := p ! 1]\<rparr>, out, 1)
            else if sd_count s = 16 then (s\<lparr>sd_primary := p[2 := p ! 0]\<rparr>, out, 1)
            else if sd_count s = 18 then
              (if sd_state s = 4
               then (s\<lparr>sd_primary := [sd_secondary s ! 0, sd_secondary s ! 1, sd_secondary s ! 2],
                       sd_count := 0, sd_state := 2\<rparr>, out @ [RADIO_BYTE_TX_BYTE_READY 1], 1)
               else (s\<lparr>sd_state := 0\<rparr>,
                     out @ [RADIO_BYTE_TX_BYTE_READY 1, RADIO_BYTE_TX_DONE, RADIO_SUB_RX_MODE, RADIO_SUB_SET_BIT_RATE 0], 1))
            else (s, out, 1)))"

text \<open>The random back-off: three taps of a shift register are folded into its highest bit, and
  the low six bits give the time to wait.\<close>

definition secded_backoff :: "secded \<Rightarrow> secded" where
  "secded_backoff s =
     (let r = sd_shift_reg s;
          b = (ucast (drop_bit 1 (r AND 0x2)) :: u8);
          b = b XOR ucast (drop_bit 14 (r AND 0x4000));
          b = b XOR ucast (drop_bit 15 (r AND 0x8000));
          r = drop_bit 1 r;
          r = (if b AND 0x1 \<noteq> 0 then r OR 0x8000 else r)
      in s\<lparr>sd_shift_reg := r, sd_wait_amount := ucast (r AND 0x3f) + 12\<rparr>)"

definition secded_RX_BIT_EVENT :: "u8 \<Rightarrow> secded \<Rightarrow> secded \<times> radio_out list \<times> u8" where
  "secded_RX_BIT_EVENT data s =
     (let p = sd_primary s
      in if sd_state s = 0 then
           (if sd_last_bit s \<noteq> data then (s\<lparr>sd_last_bit := data\<rparr>, [], 1)
            else
              (let s = s\<lparr>sd_last_bit := 0xff\<rparr>;
                   p2 = signed_drop_bit 1 (p ! 2) AND 0x7f;
                   p2 = (if p ! 1 AND 0x1 \<noteq> 0 then p2 OR 0x80 else p2);
                   p1 = data AND 0x1;
                   s = s\<lparr>sd_primary := p[2 := p2, 1 := p1]\<rparr>
               in if p1 = 0x1 \<and> p2 = 0x35
                  then (s\<lparr>sd_state := 5, sd_count := 0\<rparr>, [RADIO_SUB_SET_BIT_RATE 1], 1)
                  else (s, [], 1)))
         else if sd_state s = 5 then
           (s\<lparr>sd_state := 6, sd_count := 1, sd_primary := p[1 := if data \<noteq> 0 then 0x80 else 0]\<rparr>,
            [RADIO_SUB_SET_BIT_RATE 2], 1)
         else if sd_state s = 6 then
           (let p1 = signed_drop_bit 1 (p ! 1) AND 0x7f;
                p1 = (if data \<noteq> 0 then p1 OR 0x80 else p1);
                s = s\<lparr>sd_count := sd_count s + 1, sd_primary := p[1 := p1]\<rparr>
            in if sd_count s = 8 then (s\<lparr>sd_secondary := (sd_secondary s)[2 := p1]\<rparr>, [], 1)
               else if sd_count s = 16
               then (s\<lparr>sd_count := sd_count s + 1, sd_secondary := (sd_secondary s)[1 := p1],
                       sd_state := 7\<rparr>, [], 1)
               else (s, [], 1))
         else if sd_state s = 7 then
           (s\<lparr>sd_secondary := (sd_secondary s)[0 := data], sd_state := 8\<rparr>, [], 1)
         else if sd_state s = 8 then (s\<lparr>sd_state := 5\<rparr>, [POST_DECODE], 1)
         else if sd_state s = 10 then
           (if data \<noteq> 0 then (s\<lparr>sd_waiting := 0\<rparr>, [], 1)
            else
              (let s = s\<lparr>sd_waiting := sd_waiting s + 1\<rparr>;
                   s = (if sd_waiting s = 11 then secded_backoff s else s)
               in if sd_wait_amount s <s sd_waiting s
                  then (s\<lparr>sd_state := 1, sd_waiting := 0\<rparr>,
                        [RADIO_SUB_TX_MODE, RADIO_SUB_SET_BIT_RATE 2, POST_ENCODE], 1)
                  else (s, [], 1)))
         else (s, [], 1))"

section \<open>The code\<close>

definition sd_code :: "u8 \<Rightarrow> u8 \<times> u8 \<times> u8" where
  "sd_code b = (let s = sd_secondary (encodeData \<lparr>sd_primary = [0, 0, 0], sd_secondary = [b, 0, 0], sd_state = 0,
      sd_count = 0, sd_last_bit = 0, sd_waiting = 0, sd_wait_amount = 0, sd_shift_reg = 0\<rparr>)
     in (s ! 0, s ! 1, s ! 2))"

lemma encodeData_code:
  "sd_secondary s ! 0 = b \<Longrightarrow> encodeData s = s\<lparr>sd_secondary := (case sd_code b of (h, m, l) \<Rightarrow> [h, m, l])\<rparr>"
  by (simp add: encodeData_def sd_code_def Let_def)

definition sd_decode :: "u8 \<Rightarrow> u8 \<Rightarrow> u8 \<Rightarrow> u8" where
  "sd_decode h m l = decodeData \<lparr>sd_primary = [0, 0, 0], sd_secondary = [h, m, l], sd_state = 0,
      sd_count = 0, sd_last_bit = 0, sd_waiting = 0, sd_wait_amount = 0, sd_shift_reg = 0\<rparr>"

lemma decodeData_eq: "sd_secondary s = [h, m, l] \<Longrightarrow> decodeData s = sd_decode h m l"
  by (simp add: decodeData_def sd_decode_def)

definition flip_byte :: "nat \<Rightarrow> u8 \<Rightarrow> u8" where
  "flip_byte i w = w XOR push_bit i 1"

text \<open>The 16 positions of the low two bytes and the lowest bit of the high byte carry code or
  filler; one wrong bit in any of them is corrected or ignored.\<close>

definition sd_flip :: "nat \<Rightarrow> u8 \<times> u8 \<times> u8 \<Rightarrow> u8 \<times> u8 \<times> u8" where
  "sd_flip i c = (case c of (h, m, l) \<Rightarrow>
     if i < 8 then (h, m, flip_byte i l) else if i < 16 then (h, flip_byte (i - 8) m, l)
     else (flip_byte (i - 16) h, m, l))"

definition sd_dec :: "u8 \<times> u8 \<times> u8 \<Rightarrow> u8" where
  "sd_dec c = (case c of (h, m, l) \<Rightarrow> sd_decode h m l)"

text \<open>The same as nested calls, which evaluate innermost first.\<close>

definition enc_high :: "u8 \<Rightarrow> u8" where "enc_high v = xor_if v 0x80 0x1 0"
definition enc_mid :: "u8 \<Rightarrow> u8" where
  "enc_mid v = xor_if v 0x40 0x80 (xor_if v 0x20 0x60 (xor_if v 0x10 0x10 (xor_if v 0x8 0x8
     (xor_if v 0x4 0x2 (xor_if v 0x2 0x1 0)))))"
definition enc_low :: "u8 \<Rightarrow> u8" where
  "enc_low v = xor_if v 0x80 0x7 (xor_if v 0x40 0x13 (xor_if v 0x20 0x25 (xor_if v 0x10 0x26
     (xor_if v 0x8 0x31 (xor_if v 0x4 0x32 (xor_if v 0x2 0x34 (xor_if v 0x1 0x77 0)))))))"
definition or_unless :: "bool \<Rightarrow> u8 \<Rightarrow> u8 \<Rightarrow> u8" where
  "or_unless c w r = (if c then r OR w else r)"
definition fill_low :: "u8 \<Rightarrow> u8 \<Rightarrow> u8" where
  "fill_low m r = or_unless (r AND 0x40 = 0 \<and> m AND 0x1 = 0) 0x80 r"
definition fill_low0 :: "u8 \<Rightarrow> u8" where "fill_low0 r = or_unless (r AND 0xc = 0) 0x8 r"
definition fill_mid0 :: "u8 \<Rightarrow> u8" where "fill_mid0 r = or_unless (r AND 0xa = 0) 0x4 r"
definition fill_mid :: "u8 \<Rightarrow> u8" where "fill_mid r = or_unless (r AND 0x50 = 0) 0x20 r"
definition fill_high :: "u8 \<Rightarrow> u8" where "fill_high r = or_unless (r AND 0x1 = 0) 0x2 r"

lemma sd_code_calls [code]:
  "sd_code b = (fill_high (enc_high b), fill_mid (fill_mid0 (enc_mid b)), fill_low (enc_mid b) (fill_low0 (enc_low b)))"
  by (simp add: sd_code_def encodeData_def Let_def enc_high_def enc_mid_def enc_low_def or_unless_def
       fill_low_def fill_low0_def fill_mid0_def fill_mid_def fill_high_def)

definition dec_low :: "u8 \<Rightarrow> u8 \<Rightarrow> u8" where
  "dec_low m l = ((push_bit 6 m AND 0xc0) OR (signed_drop_bit 1 l AND 0x38)) OR (l AND 0x7)"
definition dec_high :: "u8 \<Rightarrow> u8 \<Rightarrow> u8" where
  "dec_high h m = ((push_bit 4 h AND 0x10) OR (signed_drop_bit 4 m AND 0xc)) OR (signed_drop_bit 3 m AND 0x3)"
definition syndrome :: "u8 \<Rightarrow> u8 \<Rightarrow> u8" where
  "syndrome v v2 = xor_if v2 0x10 0x7 (xor_if v2 0x8 0xb (xor_if v2 0x4 0x15 (xor_if v2 0x2 0x16 (xor_if v2 0x1 0x19
     (xor_if v 0x80 0x1a (xor_if v 0x40 0x1c (xor_if v 0x20 0x1f (xor_if v 0x10 0x10 (xor_if v 0x8 0x8
     (xor_if v 0x4 0x4 (xor_if v 0x2 0x2 (xor_if v 0x1 0x1 0))))))))))))"
fun data_bits :: "u8 \<times> u8 \<Rightarrow> u8" where
  "data_bits (v, v2) = (signed_drop_bit 5 v AND 0x7) OR (push_bit 3 v2 AND 0xf8)"
definition dec_halves :: "u8 \<Rightarrow> u8 \<Rightarrow> u8" where
  "dec_halves v v2 = data_bits (sd_correct (syndrome v v2) v v2)"

lemma sd_decode_calls [code]: "sd_decode h m l = dec_halves (dec_low m l) (dec_high h m)"
  unfolding sd_decode_def decodeData_def dec_halves_def syndrome_def dec_low_def dec_high_def Let_def
  by (simp split: prod.splits)

text \<open>The syndrome is linear, so that of a damaged code word is that of the damage.\<close>

lemma and_push_bit: "(v AND push_bit k 1 \<noteq> 0) = bit (v :: u8) k"
  by (simp only: bit_iff_and_push_bit_not_eq_0)

lemma xor_if_linear:
  "xor_if (v XOR a) (push_bit k 1) w (r XOR s) = xor_if v (push_bit k 1) w r XOR xor_if a (push_bit k 1) w s"
  unfolding xor_if_def and_push_bit by (simp add: bit_xor_iff ac_simps xor.left_commute)

lemma masks: "0x1 = (push_bit 0 1 :: u8)" "0x2 = (push_bit 1 1 :: u8)" "0x4 = (push_bit 2 1 :: u8)"
  "0x8 = (push_bit 3 1 :: u8)" "0x10 = (push_bit 4 1 :: u8)" "0x20 = (push_bit 5 1 :: u8)"
  "0x40 = (push_bit 6 1 :: u8)" "0x80 = (push_bit 7 1 :: u8)"
  by simp_all

lemmas xor_if_masks =
  xor_if_linear [where k = 0, folded masks] xor_if_linear [where k = 1, folded masks]
  xor_if_linear [where k = 2, folded masks] xor_if_linear [where k = 3, folded masks]
  xor_if_linear [where k = 4, folded masks] xor_if_linear [where k = 5, folded masks]
  xor_if_linear [where k = 6, folded masks] xor_if_linear [where k = 7, folded masks]

lemma xor_if_innermost:
  "xor_if (v XOR a) 0x1 w 0 = xor_if v 0x1 w 0 XOR xor_if a 0x1 w 0"
  "xor_if (v XOR a) 0x2 w 0 = xor_if v 0x2 w 0 XOR xor_if a 0x2 w 0"
  "xor_if (v XOR a) 0x80 w 0 = xor_if v 0x80 w 0 XOR xor_if a 0x80 w 0"
  using xor_if_masks(1,2,8) [where r = 0 and s = 0] by simp_all

lemma syndrome_linear: "syndrome (v XOR a) (v2 XOR c) = syndrome v v2 XOR syndrome a c"
  unfolding syndrome_def by (simp only: xor_if_masks xor_if_innermost)

lemma enc_linear: "linear enc_high" "linear enc_mid" "linear enc_low"
  unfolding linear_def enc_high_def enc_mid_def enc_low_def by (simp_all only: xor_if_masks xor_if_innermost simp_thms)

text \<open>The filler bits are not read.\<close>

lemma dec_halves_fill:
  "dec_low (fill_mid (fill_mid0 m)) (fill_low m' (fill_low0 l)) = dec_low m l"
  "dec_high (fill_high h) (fill_mid (fill_mid0 m)) = dec_high h m"
  unfolding dec_low_def dec_high_def fill_low_def fill_low0_def fill_mid0_def fill_mid_def fill_high_def or_unless_def
  by (rule u8_bits_eqI; simp add: bit_simps)+

lemma bit_dec_low:
  "bit (dec_low m l) 0 = bit l 0" "bit (dec_low m l) 1 = bit l 1" "bit (dec_low m l) 2 = bit l 2"
  "bit (dec_low m l) 3 = bit l 4" "bit (dec_low m l) 4 = bit l 5" "bit (dec_low m l) 5 = bit l 6"
  "bit (dec_low m l) 6 = bit m 0" "bit (dec_low m l) 7 = bit m 1"
  unfolding dec_low_def by (simp_all add: bit_simps)

lemma bit_dec_high:
  "bit (dec_high h m) 0 = bit m 3" "bit (dec_high h m) 1 = bit m 4" "bit (dec_high h m) 2 = bit m 6"
  "bit (dec_high h m) 3 = bit m 7" "bit (dec_high h m) 4 = bit h 0" "\<not> bit (dec_high h m) 5"
  "\<not> bit (dec_high h m) 6" "\<not> bit (dec_high h m) 7"
  unfolding dec_high_def by (simp_all add: bit_simps)

lemma dec_linear:
  "dec_low (m XOR m') (l XOR l') = dec_low m l XOR dec_low m' l'"
  "dec_high (h XOR h') (m XOR m') = dec_high h m XOR dec_high h' m'"
  by (rule u8_bits_eqI; simp only: bit_dec_low bit_dec_high bit_xor_iff simp_thms)+

definition half_low :: "u8 \<Rightarrow> u8" where "half_low b = dec_low (enc_mid b) (enc_low b)"
definition half_high :: "u8 \<Rightarrow> u8" where "half_high b = dec_high (enc_high b) (enc_mid b)"

lemma half_linear: "linear half_low" "linear half_high"
  using enc_linear unfolding linear_def half_low_def half_high_def by (simp_all add: dec_linear)

lemma half_syndrome: "syndrome (half_low b) (half_high b) = 0"
proof -
  have "linear (\<lambda>b. syndrome (half_low b) (half_high b))"
    using half_linear unfolding linear_def by (simp add: syndrome_linear)
  moreover have "linear (\<lambda>b. 0)" by (simp add: linear_def)
  ultimately show ?thesis by (rule linear_ext [where x = b]) code_simp+
qed

lemma half_data: "data_bits (half_low b, half_high b) = b"
proof -
  have "linear (\<lambda>b. data_bits (half_low b, half_high b))"
    using half_linear unfolding linear_def by (auto intro!: u8_bits_eqI simp: bit_simps)
  moreover have "linear (\<lambda>b. b)" by (simp add: linear_def)
  ultimately show ?thesis by (rule linear_ext [where x = b]) code_simp+
qed

lemma sd_correct_xor:
  "sd_correct out x y = (x XOR fst (sd_correct out 0 0), y XOR snd (sd_correct out 0 0))"
  by (simp add: sd_correct_def)

text \<open>What a single error does to the two halves, and the correction undoing it.\<close>

definition damage :: "nat \<Rightarrow> u8 \<times> u8" where
  "damage i = (case sd_flip i (0, 0, 0) of (h, m, l) \<Rightarrow> (dec_low m l, dec_high h m))"

fun corrects :: "u8 \<times> u8 \<Rightarrow> bool" where
  "corrects (v, v2) \<longleftrightarrow> sd_correct (syndrome v v2) 0 0 = (v, v2)"

definition damages :: "(u8 \<times> u8) list" where
  "damages = [(1, 0), (2, 0), (4, 0), (0, 0), (8, 0), (16, 0), (32, 0), (0, 0), (64, 0), (128, 0), (0, 0), (0, 1),
     (0, 2), (0, 0), (0, 4), (0, 8), (0, 16), (0, 0)]"

lemma damages_corrected: "list_all corrects damages"
  by code_simp

lemma damage_nth: "i < 18 \<Longrightarrow> damage i = damages ! i"
proof -
  have "map damage [0..<18] = damages"
    unfolding upt_conv_Cons_Cons by (simp add: upt_rec damage_def damages_def sd_flip_def flip_byte_def
        dec_low_def dec_high_def)
  moreover assume "i < 18"
  ultimately show ?thesis by (metis (no_types, lifting) add_0 diff_zero length_upt nth_map nth_upt)
qed

lemma damage_corrected:
  assumes "i < 18"
  shows "sd_correct (syndrome (fst (damage i)) (snd (damage i))) 0 0 = damage i"
proof -
  have "i < length damages" using assms by (simp add: damages_def)
  then have "corrects (damage i)"
    using damages_corrected by (simp add: damage_nth [OF assms] list_all_length)
  then show ?thesis by (cases "damage i") simp
qed

lemma dec_halves_damage:
  assumes "i < 18"
  shows "dec_halves (half_low b XOR fst (damage i)) (half_high b XOR snd (damage i)) = b"
proof -
  have "sd_correct (syndrome (half_low b XOR fst (damage i)) (half_high b XOR snd (damage i)))
      (half_low b XOR fst (damage i)) (half_high b XOR snd (damage i)) = (half_low b, half_high b)"
    unfolding syndrome_linear half_syndrome xor.left_neutral
    by (subst sd_correct_xor) (simp add: damage_corrected [OF assms] xor.assoc)
  then show ?thesis by (simp add: dec_halves_def half_data del: data_bits.simps)
qed

lemma sd_flip_xor:
  "sd_flip i (h, m, l) = (case sd_flip i (0, 0, 0) of (eh, em, el) \<Rightarrow> (h XOR eh, m XOR em, l XOR el))"
  by (simp add: sd_flip_def flip_byte_def)

lemma sd_dec_code_damage:
  assumes "sd_code b = (h, m, l)"
  shows "sd_dec (h XOR eh, m XOR em, l XOR el)
    = dec_halves (half_low b XOR dec_low em el) (half_high b XOR dec_high eh em)"
proof -
  have "dec_low m l = half_low b" "dec_high h m = half_high b"
    using assms unfolding sd_code_calls half_low_def half_high_def by (auto simp: dec_halves_fill)
  then show ?thesis by (simp add: sd_dec_def sd_decode_calls dec_linear)
qed

text \<open>No error, and any one error in the 18 bits of a byte on the air.\<close>

lemma sd_dec_code: "sd_dec (sd_code b) = b"
proof -
  obtain h m l where c: "sd_code b = (h, m, l)" by (metis prod_cases3)
  have "dec_halves (half_low b) (half_high b) = b"
    by (simp add: dec_halves_def half_syndrome half_data sd_correct_def del: data_bits.simps)
  moreover have "dec_low 0 0 = 0" "dec_high 0 0 = 0" by (simp_all add: dec_low_def dec_high_def)
  ultimately show ?thesis using sd_dec_code_damage [OF c, of 0 0 0] c by simp
qed

lemma sd_dec_single_error:
  assumes "i < 18"
  shows "sd_dec (sd_flip i (sd_code b)) = b"
proof -
  obtain h m l where c: "sd_code b = (h, m, l)" by (metis prod_cases3)
  obtain eh em el where e: "sd_flip i (0, 0, 0) = (eh, em, el)" by (metis prod_cases3)
  have "damage i = (dec_low em el, dec_high eh em)" by (simp add: damage_def e)
  moreover have "sd_flip i (sd_code b) = (h XOR eh, m XOR em, l XOR el)"
    by (simp add: c sd_flip_xor [of i h m l] e)
  ultimately show ?thesis
    using dec_halves_damage [OF assms, of b] by (simp only: sd_dec_code_damage [OF c] fst_conv snd_conv)
qed

end
