(* ===== verification/SecDedLink.thy ===== *)
theory SecDedLink
  imports SecDed
begin

text \<open>
  The bit events of \<open>SEC_DED_RADIO_BYTE.c\<close> over whole bytes.
\<close>

section \<open>A byte through the bit events\<close>

primrec sd_tx_run :: "nat \<Rightarrow> secded \<Rightarrow> radio_out list \<times> secded" where
  "sd_tx_run 0 s = ([], s)"
| "sd_tx_run (Suc n) s = (case secded_TX_BIT_EVENT s of (s', out, _) \<Rightarrow>
     (case sd_tx_run n s' of (outs, s'') \<Rightarrow> (out @ outs, s'')))"

text \<open>The receiver's events; the decoding task runs between the event that posts it and the next.\<close>

primrec sd_rx_run :: "bool list \<Rightarrow> secded \<Rightarrow> u8 list \<times> secded" where
  "sd_rx_run [] r = ([], r)"
| "sd_rx_run (b # bs) r = (case secded_RX_BIT_EVENT (bit_val b) r of (r', out, _) \<Rightarrow>
     (case sd_rx_run bs r' of (ds, r'') \<Rightarrow>
        ((if POST_DECODE \<in> set out then decodeData r' # ds else ds), r'')))"

lemma sd_tx_run_add:
  "sd_tx_run (m + n) s = (case sd_tx_run m s of (o1, s1) \<Rightarrow> case sd_tx_run n s1 of (o2, s2) \<Rightarrow> (o1 @ o2, s2))"
  by (induction m arbitrary: s) (simp_all split: prod.splits)

lemma sd_rx_run_append:
  "sd_rx_run (bs @ cs) r = (case sd_rx_run bs r of (d1, r1) \<Rightarrow> case sd_rx_run cs r1 of (d2, r2) \<Rightarrow> (d1 @ d2, r2))"
  by (induction bs arbitrary: r) (simp_all split: prod.splits)

lemma sd_tx_quiet:
  assumes "sd_state s \<in> {2, 3, 4}" and "sd_primary s = [h, m, l]"
    and "\<forall>i<j. sd_count s + word_of_nat (Suc i) \<notin> {8, 16, 18}" and "j < 8"
  shows "\<exists>outs. sd_tx_run j s = (outs, s\<lparr>sd_primary := [h, m, signed_drop_bit j l],
      sd_count := sd_count s + word_of_nat j\<rparr>) \<and> sent_bits outs = map (bit l) [0..<j]"
  using assms
proof (induction j arbitrary: s l)
  case (Suc j)
  let ?s = "s\<lparr>sd_primary := [h, m, signed_drop_bit 1 l], sd_count := sd_count s + 1\<rparr>"
  have step: "secded_TX_BIT_EVENT s = (?s, [RADIO_SUB_TX_BIT (l AND 1)], 1)"
    using Suc.prems(1,2) Suc.prems(3) [rule_format, of 0] by (auto simp: secded_TX_BIT_EVENT_def)
  have hyp: "sd_state ?s \<in> {2, 3, 4}" "sd_primary ?s = [h, m, signed_drop_bit 1 l]"
    "\<forall>i<j. sd_count ?s + word_of_nat (Suc i) \<notin> {8, 16, 18}" "j < 8"
    using Suc.prems(1,4) Suc.prems(3) [rule_format, of "Suc _"] by (simp_all add: ac_simps)
  have "bit (signed_drop_bit 1 l) i = bit l (Suc i)" if "i < j" for i
    using that Suc.prems(4) by (simp add: bit_simps)
  then have "map (bit (signed_drop_bit 1 l)) [0..<j] = map (bit l) (map Suc [0..<j])"
    by simp
  then show ?case using Suc.IH [OF hyp]
    by (auto simp: step and_1_eq_1 upt_conv_Cons map_Suc_upt add.assoc simp del: map_map upt_Suc)
qed simp

lemma sd_tx_nth:
  assumes "sd_state s \<in> {2, 3, 4}" and "sd_primary s = [h, m, l]" and "sd_count s = 7 \<or> sd_count s = 15"
  shows "secded_TX_BIT_EVENT s = (s\<lparr>sd_primary := [h, m, if sd_count s = 7 then m else h],
    sd_count := sd_count s + 1\<rparr>, [RADIO_SUB_TX_BIT (l AND 1)], 1)"
  using assms by (auto simp: secded_TX_BIT_EVENT_def)

lemma sd_tx_byte:
  assumes "sd_state s \<in> {2, 3, 4}" and "sd_primary s = [h, m, l]" and "sd_count s = 0 \<or> sd_count s = 8"
  shows "\<exists>outs. sd_tx_run 8 s = (outs, s\<lparr>sd_primary := [h, m, if sd_count s = 0 then m else h],
      sd_count := sd_count s + 8\<rparr>) \<and> sent_bits outs = bits_of l"
proof -
  have "sd_count s + word_of_nat (Suc i) \<notin> {8, 16, 18}" if "i < 7" for i
  proof -
    have "i \<in> {0, 1, 2, 3, 4, 5, 6}" using that by auto
    then show ?thesis using assms(3) by auto
  qed
  then have "\<forall>i<7. sd_count s + word_of_nat (Suc i) \<notin> {8, 16, 18}" by blast
  from sd_tx_quiet [OF assms(1,2) this]
  obtain outs where run: "sd_tx_run 7 s = (outs, s\<lparr>sd_primary := [h, m, signed_drop_bit 7 l],
      sd_count := sd_count s + 7\<rparr>)" "sent_bits outs = map (bit l) [0..<7]"
    by auto
  have "sd_tx_run (7 + 1) s = (outs @ [RADIO_SUB_TX_BIT (signed_drop_bit 7 l AND 1)],
      s\<lparr>sd_primary := [h, m, if sd_count s = 0 then m else h], sd_count := sd_count s + 8\<rparr>)"
    unfolding sd_tx_run_add run using assms(1,3) by (auto simp: sd_tx_nth [of _ h m "signed_drop_bit 7 l"])
  moreover have "bits_of l = map (bit l) [0..<7] @ [bit l 7]"
    by (simp add: bits_of_def eval_nat_numeral)
  ultimately show ?thesis using run(2) by (simp add: and_1_eq_1 bit_simps)
qed

text \<open>Eighteen events send the three bytes, lowest bit first, and then the next byte is loaded or
  the transmission ends.\<close>

definition sd_next :: "u8 \<Rightarrow> secded \<Rightarrow> secded" where
  "sd_next h s = (if sd_state s = 4
     then s\<lparr>sd_primary := [sd_secondary s ! 0, sd_secondary s ! 1, sd_secondary s ! 2], sd_count := 0, sd_state := 2\<rparr>
     else s\<lparr>sd_primary := (sd_primary s)[2 := signed_drop_bit 2 h], sd_count := 18, sd_state := 0\<rparr>)"

lemma sd_tx_last:
  assumes "sd_state s \<in> {2, 3, 4}" and "sd_primary s = [h, m, h]" and "sd_count s = 16"
  shows "\<exists>outs. sd_tx_run 2 s = (outs, sd_next h s) \<and> sent_bits outs = [bit h 0, bit h 1]"
proof -
  let ?h = "signed_drop_bit 1 h"
  let ?s = "s\<lparr>sd_primary := [h, m, ?h], sd_count := 17\<rparr>"
  have 1: "secded_TX_BIT_EVENT s = (?s, [RADIO_SUB_TX_BIT (h AND 1)], 1)"
    using assms by (auto simp: secded_TX_BIT_EVENT_def)
  obtain outs where 2: "secded_TX_BIT_EVENT ?s = (sd_next h s, RADIO_SUB_TX_BIT (?h AND 1) # outs, 1)" "sent_bits outs = []"
    using assms by (auto simp: secded_TX_BIT_EVENT_def sd_next_def numeral_2_eq_2 [symmetric])
  have "sd_tx_run (Suc (Suc 0)) s = (RADIO_SUB_TX_BIT (h AND 1) # RADIO_SUB_TX_BIT (?h AND 1) # outs, sd_next h s)"
    using 1 2(1) by simp
  then show ?thesis using 2(2) by (simp add: numeral_2_eq_2 and_1_eq_1 bit_simps)
qed

theorem sd_tx_18:
  assumes "sd_state s \<in> {2, 3, 4}" and "sd_primary s = [h, m, l]" and "sd_count s = 0"
  shows "\<exists>outs. sd_tx_run 18 s = (outs, sd_next h (s\<lparr>sd_primary := [h, m, h], sd_count := 16\<rparr>))
    \<and> sent_bits outs = bits_of l @ bits_of m @ [bit h 0, bit h 1]"
proof -
  obtain o1 where 1: "sd_tx_run 8 s = (o1, s\<lparr>sd_primary := [h, m, m], sd_count := 8\<rparr>)" "sent_bits o1 = bits_of l"
    using sd_tx_byte [OF assms(1,2)] assms(3) by auto
  let ?s = "s\<lparr>sd_primary := [h, m, m], sd_count := 8\<rparr>"
  obtain o2 where 2: "sd_tx_run 8 ?s = (o2, ?s\<lparr>sd_primary := [h, m, h], sd_count := 16\<rparr>)" "sent_bits o2 = bits_of m"
    using sd_tx_byte [of ?s h m m] assms(1) by auto
  let ?t = "s\<lparr>sd_primary := [h, m, h], sd_count := 16\<rparr>"
  obtain o3 where 3: "sd_tx_run 2 ?t = (o3, sd_next h ?t)" "sent_bits o3 = [bit h 0, bit h 1]"
    using sd_tx_last [of ?t h m] assms(1) by auto
  have "sd_tx_run (8 + (8 + 2)) s = (o1 @ o2 @ o3, sd_next h ?t)"
    unfolding sd_tx_run_add 1(1) using 2(1) 3(1) by simp
  then show ?thesis using 1(2) 2(2) 3(2) by simp
qed

section \<open>The receiver\<close>

lemma sd_rx5:
  "sd_state s = 5 \<Longrightarrow> secded_RX_BIT_EVENT (bit_val b) s =
     (s\<lparr>sd_state := 6, sd_count := 1, sd_primary := (sd_primary s)[1 := shift_in 0 b]\<rparr>, [RADIO_SUB_SET_BIT_RATE 2], 1)"
  by (simp add: secded_RX_BIT_EVENT_def shift_in_def)

lemma sd_rx6:
  assumes "sd_state s = 6" and "length (sd_primary s) = 3"
  shows "secded_RX_BIT_EVENT (bit_val b) s =
     (let w = shift_in (sd_primary s ! 1) b; s = s\<lparr>sd_primary := (sd_primary s)[1 := w], sd_count := sd_count s + 1\<rparr>
      in (if sd_count s = 8 then s\<lparr>sd_secondary := (sd_secondary s)[2 := w]\<rparr>
          else if sd_count s = 16
          then s\<lparr>sd_count := 17, sd_secondary := (sd_secondary s)[1 := w], sd_state := 7\<rparr>
          else s, [], 1))"
  using assms by (simp add: secded_RX_BIT_EVENT_def shift_in_def Let_def)

lemma sd_rx_quiet:
  assumes "sd_state s = 6" and "sd_primary s = [a, w, c]"
    and "\<forall>i<length bs. sd_count s + word_of_nat (Suc i) \<notin> {8, 16}"
  shows "sd_rx_run bs s = ([], s\<lparr>sd_primary := [a, foldl shift_in w bs, c],
    sd_count := sd_count s + word_of_nat (length bs)\<rparr>)"
  using assms
proof (induction bs arbitrary: s w)
  case (Cons b bs)
  let ?s = "s\<lparr>sd_primary := [a, shift_in w b, c], sd_count := sd_count s + 1\<rparr>"
  have step: "secded_RX_BIT_EVENT (bit_val b) s = (?s, [], 1)"
    using Cons.prems(1,2) Cons.prems(3) [rule_format, of 0] by (simp add: sd_rx6)
  have "\<forall>i<length bs. sd_count ?s + word_of_nat (Suc i) \<notin> {8, 16}"
    using Cons.prems(3) [rule_format, of "Suc _"] by (simp add: add.assoc)
  then show ?case using Cons.IH [of ?s "shift_in w b"] Cons.prems(1)
    by (simp add: step add.assoc)
qed simp

lemma sd_rx_byte_8:
  assumes "sd_state s = 6" and "sd_primary s = [a, w, c]" and "length bs = 7" and "sd_count s = 1"
  shows "sd_rx_run bs s = ([], s\<lparr>sd_primary := [a, foldl shift_in w bs, c], sd_count := 8,
    sd_secondary := (sd_secondary s)[2 := foldl shift_in w bs]\<rparr>)"
proof -
  obtain cs b where bs: "bs = cs @ [b]" "length cs = 6"
    using assms(3) by (cases bs rule: rev_cases) auto
  have "sd_count s + word_of_nat (Suc i) \<notin> {8, 16}" if "i < 6" for i
  proof -
    have "i \<in> {0, 1, 2, 3, 4, 5}" using that by auto
    then show ?thesis using assms(4) by auto
  qed
  then have "\<forall>i<length cs. sd_count s + word_of_nat (Suc i) \<notin> {8, 16}" unfolding bs(2) by blast
  from sd_rx_quiet [OF assms(1,2) this] show ?thesis
    using assms bs by (simp add: sd_rx_run_append sd_rx6 Let_def)
qed

lemma sd_rx_byte_16:
  assumes "sd_state s = 6" and "sd_primary s = [a, w, c]" and "length bs = 8" and "sd_count s = 8"
  shows "sd_rx_run bs s = ([], s\<lparr>sd_primary := [a, foldl shift_in w bs, c], sd_count := 17,
    sd_secondary := (sd_secondary s)[1 := foldl shift_in w bs], sd_state := 7\<rparr>)"
proof -
  obtain cs b where bs: "bs = cs @ [b]" "length cs = 7"
    using assms(3) by (cases bs rule: rev_cases) auto
  have "sd_count s + word_of_nat (Suc i) \<notin> {8, 16}" if "i < 7" for i
  proof -
    have "i \<in> {0, 1, 2, 3, 4, 5, 6}" using that by auto
    then show ?thesis using assms(4) by auto
  qed
  then have "\<forall>i<length cs. sd_count s + word_of_nat (Suc i) \<notin> {8, 16}" unfolding bs(2) by blast
  from sd_rx_quiet [OF assms(1,2) this] show ?thesis
    using assms bs by (simp add: sd_rx_run_append sd_rx6 Let_def)
qed

definition sd_received :: "bool list \<Rightarrow> u8 \<times> u8 \<times> u8" where
  "sd_received bs = (bit_val (bs ! 16), byte_of (take 8 (drop 8 bs)), byte_of (take 8 bs))"

lemma sd_rx_17:
  assumes "sd_state r = 5" and "length (sd_primary r) = 3" and "length (sd_secondary r) = 3"
    and bs: "length bs = 17"
  shows "\<exists>r'. sd_rx_run bs r = ([], r') \<and> decodeData r' = sd_dec (sd_received (bs @ [v])) \<and> sd_state r' = 8
    \<and> length (sd_primary r') = 3 \<and> length (sd_secondary r') = 3"
proof -
  obtain a w c where p: "sd_primary r = [a, w, c]"
    using assms(2) by (auto simp: numeral_3_eq_3 length_Suc_conv)
  obtain x y z where q: "sd_secondary r = [x, y, z]"
    using assms(3) by (auto simp: numeral_3_eq_3 length_Suc_conv)
  define l8 m8 e where "l8 = take 8 bs" and "m8 = take 8 (drop 8 bs)" and "e = drop 8 (drop 8 bs)"
  have split: "bs = l8 @ m8 @ e"
    unfolding l8_def m8_def e_def by (simp only: append_take_drop_id)
  have len: "length l8 = Suc 7" "length m8 = 8" "length e = 1"
    using bs by (simp_all add: l8_def m8_def e_def)
  obtain b0 l7 where l8: "l8 = b0 # l7" "length l7 = 7"
    using len(1) by (cases l8) auto
  obtain u where e: "e = [u]"
    using len(3) by (cases e) auto
  let ?l = "foldl shift_in (shift_in 0 b0) l7" and ?m = "\<lambda>v. foldl shift_in v m8"
  let ?r1 = "r\<lparr>sd_state := 6, sd_count := 1, sd_primary := [a, shift_in 0 b0, c]\<rparr>"
  let ?r2 = "?r1\<lparr>sd_primary := [a, ?l, c], sd_count := 8, sd_secondary := [x, y, ?l]\<rparr>"
  let ?r3 = "?r2\<lparr>sd_primary := [a, ?m ?l, c], sd_count := 17, sd_secondary := [x, ?m ?l, ?l], sd_state := 7\<rparr>"
  have 1: "sd_rx_run (b0 # l7) r = ([], ?r2)"
    using sd_rx_byte_8 [of ?r1 a "shift_in 0 b0" c l7] l8 assms(1) by (simp add: sd_rx5 p q)
  have 2: "sd_rx_run m8 ?r2 = ([], ?r3)"
    using sd_rx_byte_16 [of ?r2 a ?l c m8] len by simp
  have "\<exists>r'. sd_rx_run [u] ?r3 = ([], r') \<and> decodeData r' = sd_dec (bit_val u, ?m ?l, ?l) \<and> sd_state r' = 8
      \<and> length (sd_primary r') = 3 \<and> length (sd_secondary r') = 3"
    by (simp add: secded_RX_BIT_EVENT_def decodeData_eq sd_dec_def)
  moreover have "?l = byte_of l8" "?m ?l = byte_of m8"
    using foldl_shift_in_8 [of l8 0] foldl_shift_in_8 [of m8] len by (simp_all add: l8)
  moreover have "sd_received (bs @ [v]) = (bit_val u, byte_of m8, byte_of l8)"
    using len by (simp add: sd_received_def split e nth_append)
  ultimately show ?thesis
    unfolding split l8 e append_Cons append_Nil
    using sd_rx_run_append [of "b0 # l7" "m8 @ [u]" r] 1 sd_rx_run_append [of m8 "[u]" ?r2] 2 by auto
qed

lemma sd_rx_decode:
  "sd_state r = 8 \<Longrightarrow> secded_RX_BIT_EVENT (bit_val b) r = (r\<lparr>sd_state := 5\<rparr>, [POST_DECODE], 1)"
  by (simp add: secded_RX_BIT_EVENT_def)

theorem sd_rx_18:
  assumes "sd_state r = 5" and "length (sd_primary r) = 3" and "length (sd_secondary r) = 3"
    and bs: "length bs = 18"
  shows "\<exists>r'. sd_rx_run bs r = ([sd_dec (sd_received bs)], r') \<and> sd_state r' = 5
    \<and> length (sd_primary r') = 3 \<and> length (sd_secondary r') = 3"
proof -
  obtain cs v where split: "bs = cs @ [v]" "length cs = 17" using bs by (cases bs rule: rev_cases) auto
  obtain r' where "sd_rx_run cs r = ([], r')" "decodeData r' = sd_dec (sd_received bs)" "sd_state r' = 8"
      "length (sd_primary r') = 3" "length (sd_secondary r') = 3"
    using sd_rx_17 [OF assms(1-3) split(2), of v] unfolding split(1) by blast
  moreover have "decodeData (r'\<lparr>sd_state := 5\<rparr>) = decodeData r'" by (simp add: decodeData_def)
  ultimately show ?thesis by (simp add: split(1) sd_rx_run_append sd_rx_decode)
qed

section \<open>The link\<close>

text \<open>The bits a byte goes out as, through the encoding task and eighteen send events, and the byte
  the receiver's events and the decoding task make of eighteen bits.\<close>

definition sd_idle :: secded where
  "sd_idle = \<lparr>sd_primary = [0, 0, 0], sd_secondary = [0, 0, 0], sd_state = 5, sd_count = 0, sd_last_bit = 0xff,
     sd_waiting = 0, sd_wait_amount = 12, sd_shift_reg = 1\<rparr>"

definition sd_loaded :: "u8 \<Rightarrow> secded \<Rightarrow> secded" where
  "sd_loaded b s = (let e = radio_encode_thread (s\<lparr>sd_secondary := [b, 0, 0], sd_state := 3\<rparr>)
     in e\<lparr>sd_primary := sd_secondary e, sd_count := 0\<rparr>)"

definition secded_tx_bits :: "u8 \<Rightarrow> bool list" where
  "secded_tx_bits b = sent_bits (fst (sd_tx_run 18 (sd_loaded b sd_idle)))"

definition secded_rx_byte :: "bool list \<Rightarrow> u8" where
  "secded_rx_byte bs = hd (fst (sd_rx_run bs sd_idle))"

definition sd_air :: "u8 \<times> u8 \<times> u8 \<Rightarrow> bool list" where
  "sd_air c = (case c of (h, m, l) \<Rightarrow> bits_of l @ bits_of m @ [bit h 0, bit h 1])"

lemma length_sd_air [simp]: "length (sd_air c) = 18"
  by (simp add: sd_air_def split: prod.splits)

lemma sd_tx_code:
  assumes "sd_state s \<in> {2, 3, 4}" and "sd_count s = 0" and "sd_code b = (h, m, l)" and "sd_primary s = [h, m, l]"
  shows "\<exists>outs. sd_tx_run 18 s = (outs, sd_next h (s\<lparr>sd_primary := [h, m, h], sd_count := 16\<rparr>))
    \<and> sent_bits outs = sd_air (sd_code b)"
  using sd_tx_18 [OF assms(1,4,2)] by (simp add: sd_air_def assms(3))

lemma secded_tx_bits_air: "secded_tx_bits b = sd_air (sd_code b)"
proof -
  obtain h m l where c: "sd_code b = (h, m, l)" by (metis prod_cases3)
  have "sd_loaded b sd_idle = (sd_loaded b sd_idle)\<lparr>sd_primary := [h, m, l], sd_state := 4, sd_count := 0\<rparr>"
    by (simp add: sd_loaded_def radio_encode_thread_def encodeData_code [of _ b] c sd_idle_def)
  then have "sd_state (sd_loaded b sd_idle) = 4" "sd_count (sd_loaded b sd_idle) = 0"
    "sd_primary (sd_loaded b sd_idle) = [h, m, l]"
    by (metis secded.select_convs(1,3,4) secded.surjective secded.update_convs(1,3,4))+
  then show ?thesis using sd_tx_code [OF _ _ c, of "sd_loaded b sd_idle"]
    by (auto simp: secded_tx_bits_def)
qed

lemma secded_rx_byte_eq:
  assumes "length bs = 18" shows "secded_rx_byte bs = sd_dec (sd_received bs)"
  using sd_rx_18 [of sd_idle, OF _ _ _ assms] by (auto simp: secded_rx_byte_def sd_idle_def)

text \<open>Of the high byte only bit 0 is read, so what the receiver gets decodes as what was sent.\<close>

lemma sd_dec_received: "sd_dec (sd_received (sd_air c)) = sd_dec c"
proof -
  obtain h m l where c: "c = (h, m, l)" by (metis prod_cases3)
  have "dec_high (bit_val (bit h 0)) m = dec_high h m"
    by (rule u8_bits_eqI; simp only: bit_dec_high; simp add: bit_val_def)
  then show ?thesis by (simp add: c sd_air_def sd_received_def sd_dec_def sd_decode_calls nth_append)
qed

lemma flip_sd_air: "i < 18 \<Longrightarrow> flip_at i (sd_air c) = sd_air (sd_flip i c)"
proof -
  assume i: "i < 18"
  obtain h m l where c: "c = (h, m, l)" by (metis prod_cases3)
  consider "i < 8" | "8 \<le> i" "i < 16" | "i = 16" | "i = 17" using i by linarith
  then show ?thesis
  proof cases
    case 1
    then show ?thesis
      by (simp add: c sd_air_def sd_flip_def flip_at_append1 flip_at_bits_of flip_byte_def)
  next
    case 2
    then show ?thesis
      by (simp add: c sd_air_def sd_flip_def flip_at_append1 flip_at_append2 flip_at_bits_of flip_byte_def)
  qed (simp_all add: c sd_air_def sd_flip_def flip_byte_def flip_at_def list_update_append nth_append bit_simps)
qed

interpretation sd: correcting_link 18 secded_tx_bits secded_rx_byte "{..<18}"
proof
  show "secded_rx_byte (flip_at i (secded_tx_bits b)) = b" if "i \<in> {..<18}" for i b
    using that by (simp add: secded_tx_bits_air flip_sd_air secded_rx_byte_eq sd_dec_received sd_dec_single_error)
qed (simp_all add: secded_tx_bits_air secded_rx_byte_eq sd_dec_received sd_dec_code)

section \<open>A stream of bytes\<close>

text \<open>The sender while bytes keep coming: each next byte is given and encoded while the one
  before it is on the air. The receiver sees the bits, each group of eighteen with at most one of
  them wrong.\<close>

definition sd_send_next :: "u8 \<Rightarrow> secded \<Rightarrow> bool list \<times> secded" where
  "sd_send_next d s = (case secded_RADIO_BYTE_TX_BYTES d s of (s', _, _) \<Rightarrow>
     (case sd_tx_run 18 (radio_encode_thread s') of (outs, s'') \<Rightarrow> (sent_bits outs, s'')))"

definition sd_send_last :: "secded \<Rightarrow> bool list" where
  "sd_send_last s = sent_bits (fst (sd_tx_run 18 s))"

primrec sd_send :: "u8 list \<Rightarrow> secded \<Rightarrow> bool list list" where
  "sd_send [] s = [sd_send_last s]"
| "sd_send (d # ds) s = (case sd_send_next d s of (bs, s') \<Rightarrow> bs # sd_send ds s')"

definition sd_ready :: "u8 \<Rightarrow> secded \<Rightarrow> bool" where
  "sd_ready b s \<longleftrightarrow> sd_state s = 2 \<and> sd_count s = 0 \<and> length (sd_secondary s) = 3
     \<and> sd_primary s = (case sd_code b of (h, m, l) \<Rightarrow> [h, m, l])"

interpretation sd_tx: byte_sender 18 secded_tx_bits secded_rx_byte sd_send_next sd_send_last sd_ready
proof
  fix b d :: u8 and s :: secded
  assume ready: "sd_ready b s"
  obtain h m l where c: "sd_code b = (h, m, l)" by (metis prod_cases3)
  obtain h' m' l' where d: "sd_code d = (h', m', l')" by (metis prod_cases3)
  let ?s = "s\<lparr>sd_state := 3, sd_secondary := (sd_secondary s)[0 := d]\<rparr>"
  let ?e = "s\<lparr>sd_secondary := [h', m', l'], sd_state := 4\<rparr>"
  have tx: "secded_RADIO_BYTE_TX_BYTES d s = (?s, [POST_ENCODE], 1)"
    using ready by (simp add: sd_ready_def secded_RADIO_BYTE_TX_BYTES_def)
  have enc: "radio_encode_thread ?s = ?e"
    using ready encodeData_code [of ?s d] by (simp add: sd_ready_def radio_encode_thread_def d Let_def)
  obtain outs where run: "sd_tx_run 18 ?e = (outs, sd_next h (?e\<lparr>sd_primary := [h, m, h], sd_count := 16\<rparr>))"
      "sent_bits outs = secded_tx_bits b"
    using sd_tx_code [OF _ _ c, of ?e] ready by (auto simp: sd_ready_def c secded_tx_bits_air)
  have "sd_ready d (sd_next h (?e\<lparr>sd_primary := [h, m, h], sd_count := 16\<rparr>))"
    by (simp add: sd_ready_def sd_next_def d)
  then show "\<exists>s'. sd_send_next d s = (secded_tx_bits b, s') \<and> sd_ready d s'"
    by (simp add: sd_send_next_def tx enc run)
  show "sd_send_last s = secded_tx_bits b"
    using sd_tx_code [OF _ _ c, of s] ready by (auto simp: sd_send_last_def sd_ready_def c secded_tx_bits_air)
qed

lemma sd_send_code: "sd_ready b s \<Longrightarrow> sd_send ds s = map secded_tx_bits (b # ds)"
proof -
  have "sd_send ds s = sd_tx.send ds s" by (induction ds arbitrary: s) simp_all
  moreover assume "sd_ready b s"
  ultimately show ?thesis by (simp only: sd_tx.send_code)
qed

definition sd_listening :: "secded \<Rightarrow> bool" where
  "sd_listening r \<longleftrightarrow> sd_state r = 5 \<and> length (sd_primary r) = 3 \<and> length (sd_secondary r) = 3"

lemma sd_rx_word:
  "sd_listening r \<Longrightarrow> length w = 18 \<Longrightarrow> \<exists>r'. sd_rx_run w r = ([secded_rx_byte w], r') \<and> sd_listening r'"
  using sd_rx_18 [of r w] by (auto simp: sd_listening_def secded_rx_byte_eq)

interpretation sd: correcting_receiver sd_rx_run 18 secded_tx_bits secded_rx_byte sd_listening "{..<18}"
  by unfold_locales (simp_all add: sd_rx_run_append sd_rx_word)

text \<open>C7: Whatever bytes are sent one after the other, each encoded while the previous one is on
  the air, and whichever single bit of the eighteen bits of each byte the air flips, a listening
  receiver delivers exactly these bytes in order and goes on listening.\<close>

theorem secded_corrects_stream:
  assumes "sd_ready d s" and "sd_listening r" and "length es = length (d # ds)"
    and "\<forall>i. Some i \<in> set es \<longrightarrow> i < 18"
  shows "\<exists>r'. sd_rx_run (concat (map2 noise es (sd_send ds s))) r = (d # ds, r') \<and> sd_listening r'"
  unfolding sd_send_code [OF assms(1)] by (rule sd.run_noisy) (use assms in simp_all)

lemma secded_corrects_stream_witness:
  "sd_ready 0x41 (sd_loaded 0x41 sd_idle\<lparr>sd_state := 2\<rparr>) \<and>
   (\<exists>r'. sd_rx_run (concat (map2 noise [Some 3, None] (sd_send [0x5a] (sd_loaded 0x41 sd_idle\<lparr>sd_state := 2\<rparr>)))) sd_idle
      = ([0x41, 0x5a], r') \<and> sd_listening r')"
proof -
  have s: "sd_ready 0x41 (sd_loaded 0x41 sd_idle\<lparr>sd_state := 2\<rparr>)"
    by (simp add: sd_ready_def sd_loaded_def radio_encode_thread_def encodeData_code [of _ "0x41"] sd_idle_def
        split: prod.splits)
  have "sd_listening sd_idle" by (simp add: sd_listening_def sd_idle_def)
  with secded_corrects_stream [OF s, of sd_idle "[Some 3, None]" "[0x5a]"] s show ?thesis by simp
qed

section \<open>The start symbol\<close>

text \<open>While it looks for a start symbol the receiver is a window on the last nine bits, each
  sampled twice.\<close>

definition sd_window :: "secded \<Rightarrow> bool list" where
  "sd_window s = bits_of (sd_primary s ! 2) @ [bit (sd_primary s ! 1) 0]"

definition sd_start :: "bool list" where
  "sd_start = [True, False, True, False, True, True, False, True, False, True, True, False, False, True]"

definition sd_searching :: "secded \<Rightarrow> bool" where
  "sd_searching s \<longleftrightarrow> sd_state s = 0 \<and> sd_last_bit s = 0xff \<and> length (sd_primary s) = 3
     \<and> length (sd_secondary s) = 3"

lemma bits_of_0x35: "(w = 0x35) = (bits_of w = [True, False, True, False, True, True, False, False])"
proof
  assume "bits_of w = [True, False, True, False, True, True, False, False]"
  also have "\<dots> = bits_of 0x35" by (simp add: bits_of_def upt_rec bit_simps)
  finally show "w = 0x35" by (rule bits_of_inject)
qed (simp add: bits_of_def upt_rec bit_simps)

lemma sd_rx_twice:
  assumes "sd_searching s"
  shows "\<exists>s'. sd_rx_run [b, b] s = ([], s') \<and> sd_window s' = tl (sd_window s) @ [b]
    \<and> (if tl (sd_window s) @ [b] = [True, False, True, False, True, True, False, False, True]
       then sd_state s' = 5 \<and> length (sd_primary s') = 3 \<and> sd_secondary s' = sd_secondary s
       else sd_searching s' \<and> sd_secondary s' = sd_secondary s)"
proof -
  obtain a w c where p: "sd_primary s = [a, w, c]"
    using assms by (auto simp: sd_searching_def numeral_3_eq_3 length_Suc_conv)
  have w: "w AND 1 \<noteq> 0 \<longleftrightarrow> bit w 0" by (simp add: and_one_eq mod_2_eq_odd bit_0)
  let ?c = "shift_in c (bit w 0)"
  let ?s = "s\<lparr>sd_primary := [a, bit_val b, ?c], sd_last_bit := 0xff\<rparr>"
  have ev: "sd_rx_run [b, b] s = ([], if b \<and> ?c = 0x35 then ?s\<lparr>sd_state := 5, sd_count := 0\<rparr> else ?s)"
    using assms by (cases b) (simp_all add: sd_searching_def secded_RX_BIT_EVENT_def p shift_in_def w)
  have "tl (sd_window s) @ [b] = bits_of ?c @ [b]"
    by (simp add: sd_window_def p bits_of_shift_in) (simp add: bits_of_def upt_rec)
  moreover have "(b \<and> ?c = 0x35) \<longleftrightarrow> bits_of ?c @ [b] = [True, False, True, False, True, True, False, False, True]"
    unfolding bits_of_0x35 by (cases "bits_of ?c" rule: rev_cases) auto
  moreover have "bit (bit_val b) 0 = b" by (simp add: bit_val_def)
  ultimately show ?thesis
    using assms unfolding ev by (auto simp: sd_window_def sd_searching_def)
qed

interpretation sd_search: start_search sd_rx_run sd_searching sd_window sd_listening
    "[True, False, True, False, True, True, False, False, True]"
proof
  fix r :: secded and b
  assume "sd_searching r"
  from sd_rx_twice [OF this, of b] this
  show "\<exists>r'. sd_rx_run [b, b] r = ([], r') \<and>
      (if tl (sd_window r) @ [b] = [True, False, True, False, True, True, False, False, True] then sd_listening r'
       else sd_searching r' \<and> sd_window r' = tl (sd_window r) @ [b])"
    by (auto simp: sd_listening_def sd_searching_def split: if_splits)
qed

lemma sd_start_locks:
  "length w = 9 \<Longrightarrow> tl w \<noteq> [True, False, True, False, True, True, False, False] \<Longrightarrow> meets_last [True, False, True, False, True, True, False, False, True] w sd_start"
proof -
  assume "length w = 9"
  then have "length w = Suc (Suc (Suc (Suc (Suc (Suc (Suc (Suc (Suc 0))))))))" by simp
  then obtain a b c d e f g h i where w: "w = [a, b, c, d, e, f, g, h, i]"
    by (auto simp: length_Suc_conv)
  assume "tl w \<noteq> [True, False, True, False, True, True, False, False]"
  then show ?thesis by (simp add: sd_start_def w)
qed

lemma sd_start_sent:
  assumes "sd_state s = 4" and "sd_primary s = [0x2, 0x6b, 0x05]" and "sd_count s = 4"
  shows "\<exists>outs. sd_tx_run 14 s = (outs, s\<lparr>sd_primary := [sd_secondary s ! 0, sd_secondary s ! 1, sd_secondary s ! 2],
       sd_count := 0, sd_state := 2\<rparr>) \<and> sent_bits outs = sd_start"
proof -
  have "sd_count s + word_of_nat (Suc i) \<notin> {8, 16, 18}" if "i < 3" for i
  proof -
    have "i \<in> {0, 1, 2}" using that by auto
    then show ?thesis using assms(3) by auto
  qed
  then have "\<forall>i<3. sd_count s + word_of_nat (Suc i) \<notin> {8, 16, 18}" by blast
  from sd_tx_quiet [OF _ assms(2) this]
  obtain o1 where 1: "sd_tx_run 3 s = (o1, s\<lparr>sd_primary := [0x2, 0x6b, signed_drop_bit 3 0x05], sd_count := 7\<rparr>)"
    "sent_bits o1 = map (bit (0x05 :: u8)) [0..<3]"
    using assms(1,3) by auto
  let ?s1 = "s\<lparr>sd_primary := [0x2, 0x6b, signed_drop_bit 3 0x05], sd_count := 7\<rparr>"
  let ?s2 = "s\<lparr>sd_primary := [0x2, 0x6b, 0x6b], sd_count := 8\<rparr>"
  have 2: "sd_tx_run 1 ?s1 = ([RADIO_SUB_TX_BIT (signed_drop_bit 3 0x05 AND 1)], ?s2)"
    using sd_tx_nth [of ?s1 "0x2" "0x6b" "signed_drop_bit 3 0x05"] assms(1) by simp
  obtain o3 where 3: "sd_tx_run 8 ?s2 = (o3, ?s2\<lparr>sd_primary := [0x2, 0x6b, 0x2], sd_count := 16\<rparr>)"
    "sent_bits o3 = bits_of 0x6b"
    using sd_tx_byte [of ?s2 "0x2" "0x6b" "0x6b"] assms(1) by auto
  let ?s3 = "s\<lparr>sd_primary := [0x2, 0x6b, 0x2], sd_count := 16\<rparr>"
  obtain o4 where 4: "sd_tx_run 2 ?s3 = (o4, sd_next 0x2 ?s3)" "sent_bits o4 = [bit (0x2 :: u8) 0, bit (0x2 :: u8) 1]"
    using sd_tx_last [of ?s3 "0x2" "0x6b"] assms(1) by auto
  have "sd_tx_run (3 + (1 + (8 + 2))) s = (o1 @ [RADIO_SUB_TX_BIT (signed_drop_bit 3 0x05 AND 1)] @ o3 @ o4, sd_next 0x2 ?s3)"
    unfolding sd_tx_run_add 1(1) 2 using 2 3(1) 4(1) by simp
  then show ?thesis
    using 1(2) 3(2) 4(2) assms(1)
    by (simp add: sd_next_def sd_start_def and_1_eq_1 bits_of_def upt_rec bit_simps)
qed

text \<open>A transmission opens with the start symbol and its first byte follows. A receiver that
  samples it twice a bit and has not just seen something like the symbol stays in its search
  through the first thirteen bits and is clocking the first byte in after the fourteenth, whatever
  bits it saw before.\<close>

theorem secded_start_locks:
  assumes s: "sd_state s = 1" "length (sd_secondary s) = 3" and r: "sd_searching r"
    and w: "tl (sd_window r) \<noteq> [True, False, True, False, True, True, False, False]"
  shows "\<exists>outs s' r'. sd_tx_run 14 (radio_encode_thread s) = (outs, s') \<and> sd_ready (sd_secondary s ! 0) s'
    \<and> sd_rx_run (sampled_twice (sent_bits outs)) r = ([], r') \<and> sd_listening r'"
proof -
  obtain h m l where c: "sd_code (sd_secondary s ! 0) = (h, m, l)" by (metis prod_cases3)
  let ?s = "s\<lparr>sd_secondary := [h, m, l], sd_primary := [0x2, 0x6b, 0x05], sd_count := 4, sd_state := 4\<rparr>"
  have enc: "radio_encode_thread s = ?s"
    using s encodeData_code [of s "sd_secondary s ! 0"] by (simp add: radio_encode_thread_def c Let_def)
  obtain outs where tx: "sd_tx_run 14 ?s = (outs, ?s\<lparr>sd_primary := [h, m, l], sd_count := 0, sd_state := 2\<rparr>)"
    "sent_bits outs = sd_start"
    using sd_start_sent [of ?s] by auto
  have "length (sd_window r) = 9" by (simp add: sd_window_def)
  from sd_search.run_start [OF r sd_start_locks [OF this w]]
  obtain r' where "sd_rx_run (sampled_twice sd_start) r = ([], r')" "sd_listening r'"
    by blast
  then show ?thesis using tx unfolding enc by (simp add: sd_ready_def c)
qed

lemma secded_start_locks_witness:
  "\<exists>outs s' r'. sd_tx_run 14 (radio_encode_thread (sd_idle\<lparr>sd_state := 1, sd_secondary := [0x41, 0, 0]\<rparr>)) = (outs, s')
    \<and> sd_ready 0x41 s' \<and> sd_rx_run (sampled_twice (sent_bits outs)) (sd_idle\<lparr>sd_state := 0\<rparr>) = ([], r') \<and> sd_listening r'"
  using secded_start_locks [of "sd_idle\<lparr>sd_state := 1, sd_secondary := [0x41, 0, 0]\<rparr>" "sd_idle\<lparr>sd_state := 0\<rparr>"]
  by (simp add: sd_idle_def sd_searching_def sd_window_def bits_of_def upt_rec)

section \<open>The back-off\<close>

text \<open>The time to wait stays between 12 and 75 samples, and the count of quiet samples below it.\<close>

definition sd_wait_ok :: "secded \<Rightarrow> bool" where
  "sd_wait_ok s \<longleftrightarrow> 12 \<le> unat (sd_wait_amount s) \<and> unat (sd_wait_amount s) \<le> 75
     \<and> unat (sd_waiting s) \<le> unat (sd_wait_amount s)"

lemma sd_backoff_wait:
  "12 \<le> unat (sd_wait_amount (secded_backoff s))" "unat (sd_wait_amount (secded_backoff s)) \<le> 75"
  "sd_waiting (secded_backoff s) = sd_waiting s" "sd_state (secded_backoff s) = sd_state s"
proof -
  obtain r :: u16 where r: "sd_wait_amount (secded_backoff s) = ucast (r AND 0x3f) + 12"
    "sd_waiting (secded_backoff s) = sd_waiting s" "sd_state (secded_backoff s) = sd_state s"
    by (simp add: secded_backoff_def Let_def)
  have "r AND 0x3f \<le> 0x3f" by (rule word_and_le1)
  then have "unat (r AND 0x3f) < 64" by (simp add: word_le_nat_alt)
  then have "unat (ucast (r AND 0x3f) :: u8) < 64"
    by (simp add: unsigned_ucast_eq take_bit_nat_eq_self)
  then have "unat (ucast (r AND 0x3f) + 12 :: u8) = unat (ucast (r AND 0x3f) :: u8) + 12"
    by (subst unat_add_lem [THEN iffD1]) simp_all
  then show "12 \<le> unat (sd_wait_amount (secded_backoff s))" "unat (sd_wait_amount (secded_backoff s)) \<le> 75"
    using \<open>unat (ucast (r AND 0x3f) :: u8) < 64\<close> unfolding r(1) by linarith+
  show "sd_waiting (secded_backoff s) = sd_waiting s" "sd_state (secded_backoff s) = sd_state s"
    by (rule r(2), rule r(3))
qed

lemma sd_wait_slt: "unat (a :: u8) < 128 \<Longrightarrow> unat (b :: u8) < 128 \<Longrightarrow> a <s b \<longleftrightarrow> unat a < unat b"
  by (simp only: word_sless_alt sint8_nonneg of_nat_less_iff)

lemma sd_wait_False:
  assumes "sd_state s = 10" and ok: "sd_wait_ok s"
  obtains s' out where "secded_RX_BIT_EVENT (bit_val False) s = (s', out, 1)" "sd_wait_ok s'" "POST_DECODE \<notin> set out"
    "sd_secondary s' = sd_secondary s" "sd_primary s' = sd_primary s"
    "sd_state s' = 1 \<and> out = [RADIO_SUB_TX_MODE, RADIO_SUB_SET_BIT_RATE 2, POST_ENCODE]
     \<or> sd_state s' = 10 \<and> out = [] \<and> unat (sd_waiting s') = Suc (unat (sd_waiting s))"
proof -
  have w: "unat (sd_waiting s + 1) = Suc (unat (sd_waiting s))"
    using ok by (subst unat_add_lem [THEN iffD1]) (simp_all add: sd_wait_ok_def)
  let ?s = "s\<lparr>sd_waiting := sd_waiting s + 1\<rparr>"
  show ?thesis
  proof (cases "sd_waiting s + 1 = 11")
    case True
    let ?b = "secded_backoff ?s"
    have "\<not> sd_wait_amount ?b <s 11"
      using sd_backoff_wait(1,2) [of ?s] by (simp add: sd_wait_slt)
    then have "secded_RX_BIT_EVENT (bit_val False) s = (?b, [], 1)"
      using assms(1) True sd_backoff_wait(3) [of ?s] by (simp add: secded_RX_BIT_EVENT_def)
    moreover have "sd_wait_ok ?b"
      using sd_backoff_wait(1,2,3) [of ?s] True by (simp add: sd_wait_ok_def)
    moreover have "sd_secondary ?b = sd_secondary s" "sd_primary ?b = sd_primary s"
      by (simp_all add: secded_backoff_def Let_def)
    ultimately show ?thesis
      using that [of ?b "[]"] sd_backoff_wait(3,4) [of ?s] assms(1) w by simp
  next
    case False
    have "sd_wait_amount s <s sd_waiting s + 1 \<longleftrightarrow> unat (sd_wait_amount s) < Suc (unat (sd_waiting s))"
      using ok w by (subst sd_wait_slt) (simp_all add: sd_wait_ok_def)
    then show ?thesis
      using that [of ?s "[]"] that [of "?s\<lparr>sd_state := 1, sd_waiting := 0\<rparr>"] assms False w
      by (cases "sd_wait_amount s <s sd_waiting s + 1") (simp_all add: secded_RX_BIT_EVENT_def sd_wait_ok_def)
  qed
qed

lemma sd_wait_exit:
  "sd_state s = 10 \<Longrightarrow> sd_wait_ok s \<Longrightarrow> 76 - unat (sd_waiting s) = m \<Longrightarrow>
   \<exists>n s' s'' v. n < m \<and> sd_rx_run (replicate n False) s = ([], s') \<and> sd_state s' = 10
    \<and> secded_RX_BIT_EVENT (bit_val False) s' = (s'', [RADIO_SUB_TX_MODE, RADIO_SUB_SET_BIT_RATE 2, POST_ENCODE], v)
    \<and> sd_state s'' = 1 \<and> sd_secondary s'' = sd_secondary s"
proof (induction m arbitrary: s)
  case 0
  then show ?case by (simp add: sd_wait_ok_def)
next
  case (Suc m)
  obtain s1 out where 1: "secded_RX_BIT_EVENT (bit_val False) s = (s1, out, 1)" "sd_wait_ok s1" "POST_DECODE \<notin> set out"
    "sd_secondary s1 = sd_secondary s"
    "sd_state s1 = 1 \<and> out = [RADIO_SUB_TX_MODE, RADIO_SUB_SET_BIT_RATE 2, POST_ENCODE]
     \<or> sd_state s1 = 10 \<and> out = [] \<and> unat (sd_waiting s1) = Suc (unat (sd_waiting s))"
    using Suc.prems(1,2) by (rule sd_wait_False)
  show ?case
  proof (cases "sd_state s1 = 1")
    case True
    then have "sd_rx_run (replicate 0 False) s = ([], s)"
      "secded_RX_BIT_EVENT (bit_val False) s = (s1, [RADIO_SUB_TX_MODE, RADIO_SUB_SET_BIT_RATE 2, POST_ENCODE], 1)"
      using 1(1,5) by auto
    then show ?thesis using True 1(4) Suc.prems(1) by blast
  next
    case False
    then have next1: "sd_state s1 = 10" "76 - unat (sd_waiting s1) = m" using 1(5) Suc.prems(3) by auto
    from Suc.IH [OF next1(1) 1(2) next1(2)] obtain n s' s'' v where
      "n < m" "sd_rx_run (replicate n False) s1 = ([], s')" "sd_state s' = 10"
      "secded_RX_BIT_EVENT (bit_val False) s' = (s'', [RADIO_SUB_TX_MODE, RADIO_SUB_SET_BIT_RATE 2, POST_ENCODE], v)"
      "sd_state s'' = 1" "sd_secondary s'' = sd_secondary s1"
      by blast
    moreover have "sd_rx_run (replicate (Suc n) False) s = ([], s')" using calculation(2) 1 by simp
    ultimately show ?thesis using 1(4) by (metis Suc_less_eq)
  qed
qed

section \<open>Every run of the component\<close>

inductive sd_step :: "secded \<Rightarrow> secded \<Rightarrow> bool" where
  tx_bytes: "secded_RADIO_BYTE_TX_BYTES data s = (s', out, v) \<Longrightarrow> sd_step s s'"
| tx_bit: "secded_TX_BIT_EVENT s = (s', out, v) \<Longrightarrow> sd_step s s'"
| rx_bit: "secded_RX_BIT_EVENT (bit_val b) s = (s', out, v) \<Longrightarrow> sd_step s s'"
| packet_over: "secded_RADIO_PACKET_OVER s = (s', out) \<Longrightarrow> sd_step s s'"
| pwr: "secded_RADIO_BYTE_PWR mode s = (s', out, v) \<Longrightarrow> sd_step s s'"
| encode: "sd_step s (radio_encode_thread s)"

definition sd_inv :: "secded \<Rightarrow> bool" where
  "sd_inv s \<longleftrightarrow> sd_wait_ok s \<and> length (sd_primary s) = 3 \<and> length (sd_secondary s) = 3
     \<and> sd_state s \<in> {0, 1, 2, 3, 4, 5, 6, 7, 8, 10}"

lemma sd_rx_inv:
  assumes "sd_inv s" shows "sd_inv (fst (secded_RX_BIT_EVENT (bit_val b) s))"
proof (cases "sd_state s = 10 \<and> \<not> b")
  case True
  then have "sd_state s = 10" "sd_wait_ok s" using assms by (simp_all add: sd_inv_def)
  then obtain s' out where "secded_RX_BIT_EVENT (bit_val False) s = (s', out, 1)" "sd_wait_ok s'"
    "sd_secondary s' = sd_secondary s" "sd_primary s' = sd_primary s" "sd_state s' = 1 \<or> sd_state s' = 10"
    by (rule sd_wait_False) blast
  then show ?thesis using True assms by (auto simp: sd_inv_def)
next
  case False
  have len: "length (sd_primary s) = 3" "length (sd_secondary s) = 3" using assms by (simp_all add: sd_inv_def)
  consider "sd_state s \<in> {1, 2, 3, 4}" | "sd_state s = 0" | "sd_state s = 5" | "sd_state s = 6" | "sd_state s = 7"
    | "sd_state s = 8" | "sd_state s = 10" "b"
    using assms False by (auto simp: sd_inv_def)
  then show ?thesis
  proof cases
    case 1
    then have "fst (secded_RX_BIT_EVENT (bit_val b) s) = s"
      by (auto simp: secded_RX_BIT_EVENT_def)
    then show ?thesis using assms by simp
  next
    case 4
    then show ?thesis using assms len by (simp add: sd_rx6 sd_inv_def sd_wait_ok_def Let_def)
  qed (use assms in \<open>simp_all add: secded_RX_BIT_EVENT_def sd_inv_def sd_wait_ok_def Let_def\<close>)
qed

lemma sd_tx_inv:
  assumes "sd_inv s" shows "sd_inv (fst (secded_TX_BIT_EVENT s))"
  using assms by (simp add: secded_TX_BIT_EVENT_def sd_inv_def sd_wait_ok_def Let_def) blast

lemma sd_encode_inv:
  assumes "sd_inv s" shows "sd_inv (radio_encode_thread s)"
proof -
  obtain h m l where "sd_code (sd_secondary s ! 0) = (h, m, l)" by (metis prod_cases3)
  then show ?thesis using assms encodeData_code [of s "sd_secondary s ! 0"]
    by (simp add: radio_encode_thread_def sd_inv_def sd_wait_ok_def Let_def)
qed

lemma sd_call_inv:
  assumes "sd_inv s"
  shows "sd_inv (fst (secded_RADIO_BYTE_TX_BYTES data s))" "sd_inv (fst (secded_RADIO_PACKET_OVER s))"
    "sd_inv (fst (secded_RADIO_BYTE_PWR mode s))"
  using assms
  by (simp_all add: secded_RADIO_BYTE_TX_BYTES_def secded_RADIO_PACKET_OVER_def secded_RADIO_BYTE_PWR_def
      sd_inv_def sd_wait_ok_def) blast

lemma sd_step_inv: "sd_step s s' \<Longrightarrow> sd_inv s \<Longrightarrow> sd_inv s'"
  by (induction rule: sd_step.induct) (metis fst_conv sd_rx_inv sd_tx_inv sd_call_inv sd_encode_inv)+

text \<open>The component is started with its state cleared.\<close>

definition sd_boot :: "u8 \<Rightarrow> secded" where
  "sd_boot addr = fst (secded_RADIO_BYTE_INIT addr \<lparr>sd_primary = [0, 0, 0], sd_secondary = [0, 0, 0], sd_state = 0,
     sd_count = 0, sd_last_bit = 0, sd_waiting = 0, sd_wait_amount = 0, sd_shift_reg = 0\<rparr>)"

lemma sd_boot_inv: "sd_inv (sd_boot addr)"
  by (simp add: sd_boot_def secded_RADIO_BYTE_INIT_def sd_inv_def sd_wait_ok_def)

lemma sd_reach_inv: "sd_step\<^sup>*\<^sup>* (sd_boot addr) s \<Longrightarrow> sd_inv s"
  by (induction rule: rtranclp_induct) (blast intro: sd_boot_inv sd_step_inv)+

text \<open>C20: However the component was used since it was started, when a byte waits for the channel
  it is not kept waiting for ever: within 76 quiet samples in a row the radio is switched to
  sending and the byte is handed to the encoder.\<close>

theorem secded_wait_ends:
  assumes "sd_step\<^sup>*\<^sup>* (sd_boot addr) s" and "sd_state s = 10"
  shows "\<exists>n s' s'' v. n < 76 \<and> sd_rx_run (replicate n False) s = ([], s') \<and> sd_state s' = 10
    \<and> secded_RX_BIT_EVENT (bit_val False) s' = (s'', [RADIO_SUB_TX_MODE, RADIO_SUB_SET_BIT_RATE 2, POST_ENCODE], v)
    \<and> sd_state s'' = 1 \<and> sd_secondary s'' = sd_secondary s"
proof -
  have "sd_wait_ok s" using sd_reach_inv [OF assms(1)] by (simp add: sd_inv_def)
  from sd_wait_exit [OF assms(2) this refl]
  obtain n s' s'' v where "n < 76 - unat (sd_waiting s)" "sd_rx_run (replicate n False) s = ([], s')" "sd_state s' = 10"
    "secded_RX_BIT_EVENT (bit_val False) s' = (s'', [RADIO_SUB_TX_MODE, RADIO_SUB_SET_BIT_RATE 2, POST_ENCODE], v)"
    "sd_state s'' = 1" "sd_secondary s'' = sd_secondary s"
    by blast
  moreover from this(1) have "n < 76" by simp
  ultimately show ?thesis by blast
qed

lemma secded_wait_ends_witness:
  "\<exists>n s' s'' v. n < 76 \<and> sd_rx_run (replicate n False) (fst (secded_RADIO_BYTE_TX_BYTES 7 (sd_boot 1))) = ([], s')
    \<and> sd_state s' = 10
    \<and> secded_RX_BIT_EVENT (bit_val False) s' = (s'', [RADIO_SUB_TX_MODE, RADIO_SUB_SET_BIT_RATE 2, POST_ENCODE], v)
    \<and> sd_state s'' = 1 \<and> sd_secondary s'' = sd_secondary (fst (secded_RADIO_BYTE_TX_BYTES 7 (sd_boot 1)))"
proof (rule secded_wait_ends)
  show "sd_step\<^sup>*\<^sup>* (sd_boot 1) (fst (secded_RADIO_BYTE_TX_BYTES 7 (sd_boot 1)))"
    by (rule r_into_rtranclp) (metis prod.exhaust_sel sd_step.tx_bytes)
  show "sd_state (fst (secded_RADIO_BYTE_TX_BYTES 7 (sd_boot 1))) = 10"
    by (simp add: secded_RADIO_BYTE_TX_BYTES_def sd_boot_def secded_RADIO_BYTE_INIT_def)
qed

end
