(* ===== verification/RadioStack.thy ===== *)
theory RadioStack
  imports PacketObj SecDedLink
begin

text \<open>
  The packet layer \<open>PACKETOBJ\<close> on the radio bytes of \<open>SEC_DED_RADIO_BYTE\<close>, wired as in
  \<open>aps_proj/system/GENERIC_COMM.desc\<close>: the byte layer's reports call the packet layer, the packet
  layer's bytes are given to the byte layer, whose encoding and decoding tasks run before the next
  bit event.

  The lemmas: a whole message from one node's memory to another's, through bits each of which may
  be disturbed once per byte.
\<close>

type_synonym node = "packet \<times> memory \<times> secded"

section \<open>The two layers together\<close>

definition give_byte :: "u8 \<Rightarrow> secded \<Rightarrow> secded" where
  "give_byte b d = (case secded_RADIO_BYTE_TX_BYTES b d of (d', out, _) \<Rightarrow>
     if POST_ENCODE \<in> set out then radio_encode_thread d' else d')"

definition stack_tx_event :: "(ptr \<Rightarrow> packet \<times> memory \<Rightarrow> packet \<times> memory) \<Rightarrow> node \<Rightarrow> bool list \<times> node" where
  "stack_tx_event sent n =
     (case n of (s, mem, d) \<Rightarrow>
        (case secded_TX_BIT_EVENT d of (d', out, _) \<Rightarrow>
           if RADIO_BYTE_TX_BYTE_READY 1 \<in> set out then
             (case PACKET_TX_BYTE_READY sent 1 (s, mem) of ((s', mem'), out', _) \<Rightarrow>
                (sent_bits out, (s', mem', fold give_byte (handed_down out') d')))
           else (sent_bits out, (s, mem, d'))))"

primrec stack_tx_run :: "(ptr \<Rightarrow> packet \<times> memory \<Rightarrow> packet \<times> memory) \<Rightarrow> nat \<Rightarrow> node \<Rightarrow> bool list \<times> node" where
  "stack_tx_run sent 0 n = ([], n)"
| "stack_tx_run sent (Suc k) n = (case stack_tx_event sent n of (bs, n') \<Rightarrow>
     case stack_tx_run sent k n' of (bs', n'') \<Rightarrow> (bs @ bs', n''))"

definition stack_rx_event ::
  "(ptr \<Rightarrow> packet \<times> memory \<Rightarrow> (packet \<times> memory) \<times> ptr) \<Rightarrow> bool \<Rightarrow> node \<Rightarrow> node" where
  "stack_rx_event upcall b n =
     (case n of (s, mem, d) \<Rightarrow>
        (case secded_RX_BIT_EVENT (bit_val b) d of (d', out, _) \<Rightarrow>
           if POST_DECODE \<in> set out then
             (case PACKET_RX_BYTE_READY upcall (decodeData d') 0 (s, mem) of ((s', mem'), out', _) \<Rightarrow>
                (s', mem', if PACKET_RX_PACKET_OVER \<in> set out' then fst (secded_RADIO_PACKET_OVER d') else d'))
           else (s, mem, d')))"

section \<open>Sending\<close>

lemma stack_tx_run_add:
  "stack_tx_run sent (j + k) n = (case stack_tx_run sent j n of (b1, n1) \<Rightarrow> case stack_tx_run sent k n1 of (b2, n2) \<Rightarrow> (b1 @ b2, n2))"
  by (induction j arbitrary: n) (simp_all split: prod.splits)

lemma sd_tx_not_ready:
  assumes "unat (sd_count d) < 17" and "sd_state d \<in> {2, 3, 4}"
  shows "\<exists>d' out v. secded_TX_BIT_EVENT d = (d', out, v) \<and> RADIO_BYTE_TX_BYTE_READY 1 \<notin> set out
    \<and> unat (sd_count d') = Suc (unat (sd_count d)) \<and> sd_state d' = sd_state d"
proof -
  have "unat (sd_count d + 1) = Suc (unat (sd_count d))"
    using assms by (subst unat_add_lem [THEN iffD1]) simp_all
  moreover from this have "sd_count d + 1 \<noteq> 18" using assms by auto
  ultimately show ?thesis
    using assms(2) by (auto simp: secded_TX_BIT_EVENT_def Let_def)
qed

lemma stack_tx_quiet:
  "unat (sd_count d) + k < 18 \<Longrightarrow> sd_state d \<in> {2, 3, 4} \<Longrightarrow>
   stack_tx_run sent k (s, mem, d) = (sent_bits (fst (sd_tx_run k d)), (s, mem, snd (sd_tx_run k d)))
   \<and> unat (sd_count (snd (sd_tx_run k d))) = unat (sd_count d) + k \<and> sd_state (snd (sd_tx_run k d)) \<in> {2, 3, 4}"
proof (induction k arbitrary: d)
  case (Suc k)
  then obtain d' out v where *: "secded_TX_BIT_EVENT d = (d', out, v)" "RADIO_BYTE_TX_BYTE_READY 1 \<notin> set out"
    "unat (sd_count d') = Suc (unat (sd_count d))" "sd_state d' = sd_state d"
    using sd_tx_not_ready [of d] by auto
  have "unat (sd_count d') + k < 18" "sd_state d' \<in> {2, 3, 4}" using Suc.prems *(3,4) by simp_all
  from Suc.IH [OF this] * show ?case
    by (cases "sd_tx_run k d'") (simp add: stack_tx_event_def)
qed simp

text \<open>The last of a run of events reports the byte taken and the packet layer acts.\<close>

definition pass_on :: "(ptr \<Rightarrow> packet \<times> memory \<Rightarrow> packet \<times> memory) \<Rightarrow> node \<Rightarrow> node" where
  "pass_on sent n = (case n of (s, mem, d) \<Rightarrow>
     (case PACKET_TX_BYTE_READY sent 1 (s, mem) of ((s', mem'), out', _) \<Rightarrow> (s', mem', fold give_byte (handed_down out') d)))"

lemma stack_tx_load:
  assumes "unat (sd_count d) + k = 17" and run: "sd_tx_run (Suc k) d = (outs, d')" and "sd_state d \<in> {2, 3, 4}"
  shows "stack_tx_run sent (Suc k) (s, mem, d) = (sent_bits outs, pass_on sent (s, mem, d'))"
proof -
  obtain b1 d1 where 1: "sd_tx_run k d = (b1, d1)" by fastforce
  have quiet: "stack_tx_run sent k (s, mem, d) = (sent_bits b1, (s, mem, d1))" "unat (sd_count d1) = 17"
    "sd_state d1 \<in> {2, 3, 4}"
    using stack_tx_quiet [of d k sent s mem] assms(1,3) by (simp_all add: 1)
  obtain d2 out v where 2: "secded_TX_BIT_EVENT d1 = (d2, out, v)" by (metis prod_cases3)
  have "sd_count d1 = word_of_nat (unat (sd_count d1))" by simp
  then have "sd_count d1 = 17" unfolding quiet(2) by simp
  with 2 quiet(3) have "RADIO_BYTE_TX_BYTE_READY 1 \<in> set out"
    by (auto simp: secded_TX_BIT_EVENT_def Let_def split: if_splits)
  moreover have "outs = b1 @ out" "d' = d2"
    using run sd_tx_run_add [of k 1 d] 1 2 by simp_all
  ultimately show ?thesis
    using stack_tx_run_add [of sent k 1 "(s, mem, d)"] quiet(1) 2
    by (simp add: stack_tx_event_def pass_on_def split: prod.splits)
qed

text \<open>Byte \<open>k\<close> of message \<open>m\<close> is on the air; the packet layer has given the next one, if any.\<close>

definition on_air :: "packet \<times> memory \<Rightarrow> u8 list \<Rightarrow> nat \<Rightarrow> node \<Rightarrow> bool" where
  "on_air st0 m k n \<longleftrightarrow> (case n of (s, mem, d) \<Rightarrow>
     sd_ready (m ! k) (d\<lparr>sd_state := 2\<rparr>)
     \<and> (if k < 34
        then sd_state d = 4 \<and> pk_sending st0 m (k + 2) (s, mem)
          \<and> sd_secondary d = (case sd_code (m ! (k + 1)) of (h, m, l) \<Rightarrow> [h, m, l])
        else sd_state d = 2 \<and> pk_sending st0 m 36 (s, mem)))"

lemma give_byte_ready:
  assumes "sd_ready b d"
  shows "sd_ready b ((give_byte c d)\<lparr>sd_state := 2\<rparr>)" "sd_state (give_byte c d) = 4"
    "sd_secondary (give_byte c d) = (case sd_code c of (h, m, l) \<Rightarrow> [h, m, l])"
proof -
  obtain h m l where c: "sd_code c = (h, m, l)" by (metis prod_cases3)
  have "give_byte c d = d\<lparr>sd_secondary := [h, m, l], sd_state := 4\<rparr>"
    using assms encodeData_code [of "d\<lparr>sd_state := 3, sd_secondary := (sd_secondary d)[0 := c]\<rparr>" c]
    by (simp add: sd_ready_def give_byte_def secded_RADIO_BYTE_TX_BYTES_def radio_encode_thread_def c Let_def)
  then show "sd_ready b ((give_byte c d)\<lparr>sd_state := 2\<rparr>)" "sd_state (give_byte c d) = 4"
    "sd_secondary (give_byte c d) = (case sd_code c of (h, m, l) \<Rightarrow> [h, m, l])"
    using assms by (simp_all add: sd_ready_def c)
qed

text \<open>When byte \<open>k\<close> has been loaded, the packet layer's answer puts the pair of layers in that state.\<close>

lemma pass_on_air:
  assumes "sd_ready (m ! k) d" and "pk_sending st0 m (Suc k) (s, mem)" and "k \<le> 34" and "length m = sizeof_TOS_Msg"
  shows "on_air st0 m k (pass_on sent (s, mem, d))"
proof (cases "k < 34")
  case True
  then obtain st' where "taken_with (PACKET_TX_BYTE_READY sent 1) (s, mem) = (st', [m ! Suc k])" "pk_sending st0 m (Suc (Suc k)) st'"
    using pk_tx.taken_next [OF assms(2,4), where sent = sent] by (auto simp: sizeof_TOS_Msg_def)
  then show ?thesis
    using True give_byte_ready [OF assms(1), of "m ! Suc k"]
    by (auto simp: on_air_def pass_on_def taken_with_def split: prod.splits)
next
  case False
  then have k: "k = 34" using assms(3) by simp
  then have "PACKET_TX_BYTE_READY sent 1 (s, mem) = ((s\<lparr>pk_count := 36\<rparr>, mem), [], 0)"
    using assms(2) by (cases st0) (simp add: pk_sending_def PACKET_TX_BYTE_READY_def size_val_numeral sizeof_TOS_Msg_def)
  moreover have "pk_sending st0 m 36 (s\<lparr>pk_count := 36\<rparr>, mem)"
    using assms(2) by (cases st0) (simp add: pk_sending_def)
  ultimately show ?thesis
    using assms(1) by (simp add: k on_air_def pass_on_def sd_ready_def)
qed

lemma on_air_run:
  assumes "on_air st0 m k n" and "length m = sizeof_TOS_Msg" and "k < 34"
  shows "\<exists>n'. stack_tx_run sent 18 n = (secded_tx_bits (m ! k), n') \<and> on_air st0 m (Suc k) n'"
proof -
  obtain s mem d where n: "n = (s, mem, d)" by (metis prod_cases3)
  obtain h ml l where c: "sd_code (m ! k) = (h, ml, l)" by (metis prod_cases3)
  obtain h' ml' l' where c': "sd_code (m ! Suc k) = (h', ml', l')" by (metis prod_cases3)
  have d: "sd_state d = 4" "sd_count d = 0" "sd_primary d = [h, ml, l]" "sd_secondary d = [h', ml', l']"
    and pk: "pk_sending st0 m (Suc (Suc k)) (s, mem)"
    using assms(1,3) by (simp_all add: on_air_def n sd_ready_def c c')
  obtain outs where run: "sd_tx_run 18 d = (outs, sd_next h (d\<lparr>sd_primary := [h, ml, h], sd_count := 16\<rparr>))"
    "sent_bits outs = sd_air (sd_code (m ! k))"
    using sd_tx_code [OF _ _ c, of d] d by auto
  let ?d = "sd_next h (d\<lparr>sd_primary := [h, ml, h], sd_count := 16\<rparr>)"
  have "stack_tx_run sent (Suc 17) (s, mem, d) = (sent_bits outs, pass_on sent (s, mem, ?d))"
    by (rule stack_tx_load) (use d run in simp_all)
  moreover have "sd_ready (m ! Suc k) ?d"
    using d c' by (simp add: sd_next_def sd_ready_def)
  then have "on_air st0 m (Suc k) (pass_on sent (s, mem, ?d))"
    by (rule pass_on_air) (use pk assms in simp_all)
  ultimately show ?thesis using run(2) by (simp add: n secded_tx_bits_air)
qed

lemma on_air_last:
  assumes "on_air (s0, mem0) m 34 n" and "length m = sizeof_TOS_Msg"
  shows "\<exists>d'. stack_tx_run sent 18 n = (secded_tx_bits (m ! 34),
      case sent (pk_send_ptr s0) (s0\<lparr>pk_state := 0, pk_count := 0\<rparr>, mem0) of (s', mem') \<Rightarrow> (s', mem', d')) \<and> sd_state d' = 0"
proof -
  obtain s mem d where n: "n = (s, mem, d)" by (metis prod_cases3)
  obtain h ml l where c: "sd_code (m ! 34) = (h, ml, l)" by (metis prod_cases3)
  have d: "sd_state d = 2" "sd_count d = 0" "sd_primary d = [h, ml, l]"
    and pk: "s = s0\<lparr>pk_state := 1, pk_count := 36\<rparr>" "mem = mem0"
    using assms(1) by (simp_all add: on_air_def n sd_ready_def c pk_sending_def)
  obtain outs where run: "sd_tx_run 18 d = (outs, sd_next h (d\<lparr>sd_primary := [h, ml, h], sd_count := 16\<rparr>))"
    "sent_bits outs = sd_air (sd_code (m ! 34))"
    using sd_tx_code [OF _ _ c, of d] d by auto
  let ?d = "sd_next h (d\<lparr>sd_primary := [h, ml, h], sd_count := 16\<rparr>)"
  have "stack_tx_run sent (Suc 17) (s, mem, d) = (sent_bits outs, pass_on sent (s, mem, ?d))"
    by (rule stack_tx_load) (use d run in simp_all)
  moreover have "pass_on sent (s, mem, ?d)
      = (case sent (pk_send_ptr s0) (s0\<lparr>pk_state := 0, pk_count := 0\<rparr>, mem0) of (s', mem') \<Rightarrow> (s', mem', ?d))"
    by (simp add: pass_on_def pk PACKET_TX_BYTE_READY_def size_val_numeral sizeof_TOS_Msg_def split: prod.splits)
  moreover have "sd_state ?d = 0" using d by (simp add: sd_next_def)
  ultimately show ?thesis using run(2) by (auto simp: n secded_tx_bits_air)
qed

lemma on_air_from:
  assumes "length m = sizeof_TOS_Msg"
  shows "on_air (s0, mem0) m k n \<Longrightarrow> k + j = 34 \<Longrightarrow>
   \<exists>d'. stack_tx_run sent (18 * Suc j) n = (concat (map secded_tx_bits (drop k m)),
      case sent (pk_send_ptr s0) (s0\<lparr>pk_state := 0, pk_count := 0\<rparr>, mem0) of (s', mem') \<Rightarrow> (s', mem', d')) \<and> sd_state d' = 0"
proof (induction j arbitrary: k n)
  case 0
  have "drop 34 m = [m ! 34]" using assms by (simp add: sizeof_TOS_Msg_def Cons_nth_drop_Suc [symmetric])
  then show ?case using on_air_last [OF _ assms, of s0 mem0 n sent] 0 by simp
next
  case (Suc j)
  obtain n' where 1: "stack_tx_run sent 18 n = (secded_tx_bits (m ! k), n')" "on_air (s0, mem0) m (Suc k) n'"
    using on_air_run [OF Suc.prems(1) assms, where sent = sent] Suc.prems(2) by auto
  have "drop k m = m ! k # drop (Suc k) m"
    using assms Suc.prems(2) by (simp add: sizeof_TOS_Msg_def Cons_nth_drop_Suc)
  then show ?case
    using Suc.IH [OF 1(2)] Suc.prems(2) stack_tx_run_add [of sent 18 "18 * Suc j" n] 1(1)
    by (auto simp: add.commute)
qed

text \<open>From the request to send on: the first byte waits in the byte layer; when the channel was quiet
  long enough, it is encoded with the start symbol before it.\<close>

theorem stack_sends:
  assumes "pk_state s = 0" and "length (mem msg) = sizeof_TOS_Msg"
    and "PACKET_TX_PACKET 1 msg (s, mem) = ((s', mem'), [PACKET_SUB_TX_BYTES b], 1)"
    and "sd_state d = 1" and "sd_secondary d = [b, x, y]"
  shows "\<exists>d'. stack_tx_run sent (14 + 18 * 35) (s', mem', radio_encode_thread d)
    = (sd_start @ concat (map secded_tx_bits (mem msg)),
       case sent msg (s\<lparr>pk_send_ptr := msg, pk_state := 0, pk_count := 0\<rparr>, mem) of (s', mem') \<Rightarrow> (s', mem', d'))
    \<and> sd_state d' = 0"
proof -
  have b: "b = mem msg ! 0" and s': "s' = s\<lparr>pk_send_ptr := msg, pk_state := 1, pk_count := 1\<rparr>" "mem' = mem"
    using assms(1,3) by (auto simp: PACKET_TX_PACKET_def)
  let ?s0 = "s\<lparr>pk_send_ptr := msg\<rparr>"
  obtain h m l where c: "sd_code b = (h, m, l)" by (metis prod_cases3)
  let ?d = "d\<lparr>sd_secondary := [h, m, l], sd_primary := [0x2, 0x6b, 0x05], sd_count := 4, sd_state := 4\<rparr>"
  have enc: "radio_encode_thread d = ?d"
    using assms(4,5) encodeData_code [of d b] by (simp add: radio_encode_thread_def c Let_def)
  let ?e = "?d\<lparr>sd_primary := [h, m, l], sd_count := 0, sd_state := 2\<rparr>"
  obtain outs where run: "sd_tx_run 14 ?d = (outs, ?e)" "sent_bits outs = sd_start"
    using sd_start_sent [of ?d] by auto
  have "stack_tx_run sent (Suc 13) (s', mem', ?d) = (sent_bits outs, pass_on sent (s', mem', ?e))"
    by (rule stack_tx_load) (use run in simp_all)
  then have start: "stack_tx_run sent 14 (s', mem', ?d) = (sd_start, pass_on sent (s', mem', ?e))"
    using run(2) by simp
  have "sd_ready (mem msg ! 0) ?e" using c by (simp add: sd_ready_def b)
  then have "on_air (?s0, mem) (mem msg) 0 (pass_on sent (s', mem', ?e))"
    by (rule pass_on_air) (use assms(2) in \<open>simp_all add: pk_sending_def s'\<close>)
  from on_air_from [OF assms(2) this, of 34 sent]
  obtain d' where "stack_tx_run sent (18 * 35) (pass_on sent (s', mem', ?e)) = (concat (map secded_tx_bits (mem msg)),
      case sent msg (s\<lparr>pk_send_ptr := msg, pk_state := 0, pk_count := 0\<rparr>, mem) of (s', mem') \<Rightarrow> (s', mem', d'))" "sd_state d' = 0"
    by auto
  then show ?thesis
    unfolding enc stack_tx_run_add start by auto
qed

section \<open>Receiving\<close>

lemma stack_rx_silent:
  "sd_rx_run bs d = ([], d') \<Longrightarrow> fold (stack_rx_event upcall) bs (s, mem, d) = (s, mem, d')"
proof (induction bs arbitrary: d)
  case (Cons b bs)
  then show ?case
    by (auto simp: stack_rx_event_def split: prod.splits if_splits)
qed simp

text \<open>Eighteen bits of a byte: the packet layer gets the byte with the last of them.\<close>

lemma stack_rx_word:
  assumes "sd_listening d" and "length w = 18"
  shows "\<exists>d'. sd_listening d' \<and> fold (stack_rx_event upcall) w (s, mem, d)
    = (case PACKET_RX_BYTE_READY upcall (secded_rx_byte w) 0 (s, mem) of ((s', mem'), out, _) \<Rightarrow>
         (s', mem', if PACKET_RX_PACKET_OVER \<in> set out then fst (secded_RADIO_PACKET_OVER d') else d'))"
proof -
  obtain cs v where w: "w = cs @ [v]" "length cs = 17" using assms(2) by (cases w rule: rev_cases) auto
  obtain d1 where 1: "sd_rx_run cs d = ([], d1)" "decodeData d1 = sd_dec (sd_received w)" "sd_state d1 = 8"
      "length (sd_primary d1) = 3" "length (sd_secondary d1) = 3"
    using sd_rx_17 [of d cs v] assms(1) w by (auto simp: sd_listening_def)
  have "decodeData (d1\<lparr>sd_state := 5\<rparr>) = secded_rx_byte w"
    using 1(2) assms(2) by (simp add: decodeData_def secded_rx_byte_eq)
  moreover have "sd_listening (d1\<lparr>sd_state := 5\<rparr>)" using 1 by (simp add: sd_listening_def)
  ultimately show ?thesis
    using stack_rx_silent [OF 1(1), of upcall s mem] sd_rx_decode [OF 1(3), of v]
    by (intro exI [of _ "d1\<lparr>sd_state := 5\<rparr>"]) (simp add: w(1) stack_rx_event_def)
qed

lemma stack_rx_words:
  assumes "pk_collecting st0 p (st, [], 1)" and "sd_listening d" and "length p + length ws < sizeof_TOS_Msg"
    and "\<forall>w \<in> set ws. length w = 18"
  shows "\<exists>s' mem' d'. fold (stack_rx_event upcall) (concat ws) (fst st, snd st, d) = (s', mem', d')
    \<and> pk_collecting st0 (p @ map secded_rx_byte ws) ((s', mem'), [], 1) \<and> sd_listening d'"
  using assms
proof (induction ws arbitrary: p st d)
  case Nil
  then show ?case by (cases st) auto
next
  case (Cons w ws)
  let ?b = "secded_rx_byte w"
  have "pk_collecting st0 (p @ [?b]) (arrive_with (PACKET_RX_BYTE_READY upcall) ?b (st, [], 1))"
    using pk_rx.arrive_next [OF Cons.prems(1)] Cons.prems(3) by simp
  moreover obtain st' out v where rx: "PACKET_RX_BYTE_READY upcall ?b 0 st = (st', out, v)" by (metis prod_cases3)
  ultimately have st': "pk_collecting st0 (p @ [?b]) (st', out, v)" "out = []" "v = 1"
    by (auto simp: arrive_with_def pk_collecting_def)
  obtain d' where d': "sd_listening d'" "fold (stack_rx_event upcall) w (fst st, snd st, d) = (fst st', snd st', d')"
    using stack_rx_word [OF Cons.prems(2), of w upcall "fst st" "snd st"] Cons.prems(4) rx st'(2)
    by (cases st') auto
  have "length (p @ [?b]) + length ws < sizeof_TOS_Msg" "\<forall>w \<in> set ws. length w = 18"
    using Cons.prems(3,4) by simp_all
  with st' Cons.IH [where p = "p @ [?b]" and st = st' and d = d'] d' show ?case by simp
qed

lemma pk_deliver_snd: "snd (pk_deliver upcall st) = ([PACKET_RX_PACKET_OVER], 0)"
  by (simp add: pk_deliver_def split: prod.splits)

theorem stack_receives:
  assumes "pk_state r = 0" and "length (rmem (pk_rec_ptr r)) = sizeof_TOS_Msg" and "sd_listening d"
    and "length ws = sizeof_TOS_Msg" and "\<forall>w \<in> set ws. length w = 18" and "map secded_rx_byte ws = m"
  shows "\<exists>d'. sd_state d' = 0 \<and> fold (stack_rx_event upcall) (concat ws) (r, rmem, d)
    = (case fst (pk_deliver upcall (with_message m (r, rmem))) of (s', mem') \<Rightarrow> (s', mem', d'))"
proof -
  obtain vs w where ws: "ws = vs @ [w]" "length vs = 34" "length w = 18"
    using assms(4,5) by (cases ws rule: rev_cases) (auto simp: sizeof_TOS_Msg_def)
  have start: "pk_collecting (r, rmem) [] ((r, rmem), [], 1)"
    using assms(1,2) by (simp add: pk_collecting_def sizeof_TOS_Msg_def)
  obtain s1 mem1 d1 where 1: "fold (stack_rx_event upcall) (concat vs) (r, rmem, d) = (s1, mem1, d1)"
      "pk_collecting (r, rmem) (map secded_rx_byte vs) ((s1, mem1), [], 1)" "sd_listening d1"
    using stack_rx_words [OF start assms(3), of vs upcall] assms(5) ws by (auto simp: sizeof_TOS_Msg_def)
  have "Suc (length (map secded_rx_byte vs)) = sizeof_TOS_Msg" using ws by (simp add: sizeof_TOS_Msg_def)
  from pk_rx.arrive_last [OF 1(2) this, of upcall "secded_rx_byte w"]
  have rx: "PACKET_RX_BYTE_READY upcall (secded_rx_byte w) 0 (s1, mem1) = pk_deliver upcall (with_message m (r, rmem))"
    using assms(6) by (simp add: ws arrive_with_def split: prod.splits)
  obtain s2 mem2 where 2: "pk_deliver upcall (with_message m (r, rmem)) = ((s2, mem2), [PACKET_RX_PACKET_OVER], 0)"
    using pk_deliver_snd [of upcall "with_message m (r, rmem)"] by (metis prod.collapse)
  obtain d2 where "fold (stack_rx_event upcall) w (s1, mem1, d1) = (s2, mem2, fst (secded_RADIO_PACKET_OVER d2))"
    using stack_rx_word [OF 1(3) ws(3), of upcall s1 mem1] rx 2 by auto
  then have "fold (stack_rx_event upcall) (concat ws) (r, rmem, d) = (s2, mem2, fst (secded_RADIO_PACKET_OVER d2))"
    by (simp add: ws 1(1))
  then show ?thesis using 2 by (auto simp: secded_RADIO_PACKET_OVER_def)
qed

section \<open>From memory to memory\<close>

text \<open>What is heard of a transmission: the fourteen bits of the start symbol sampled twice each, then the
  eighteen bits of every byte, in each of which one bit may have been flipped.\<close>

definition byte_words :: "bool list \<Rightarrow> bool list list" where
  "byte_words bs = map (\<lambda>k. take 18 (drop (18 * k) bs)) [0..<sizeof_TOS_Msg]"

definition heard :: "nat option list \<Rightarrow> bool list \<Rightarrow> bool list" where
  "heard es air = sampled_twice (take 14 air) @ concat (map2 noise es (byte_words (drop 14 air)))"

lemma drop_words: "\<forall>w \<in> set ws. length w = n \<Longrightarrow> k < length ws \<Longrightarrow> take n (drop (n * k) (concat ws)) = ws ! k"
proof (induction ws arbitrary: k)
  case (Cons w ws)
  then show ?case by (cases k) simp_all
qed simp

lemma byte_words_concat:
  assumes "\<forall>w \<in> set ws. length w = 18" and "length ws = sizeof_TOS_Msg"
  shows "byte_words (concat ws) = ws"
  using assms drop_words [OF assms(1)] by (intro nth_equalityI) (simp_all add: byte_words_def)

lemma heard_message:
  assumes "length m = sizeof_TOS_Msg"
  shows "heard es (sd_start @ concat (map secded_tx_bits m))
      = sampled_twice sd_start @ concat (map2 noise es (map secded_tx_bits m))"
    and "length (sd_start @ concat (map secded_tx_bits m)) = 14 + 18 * sizeof_TOS_Msg"
proof -
  have "length sd_start = 14" by (simp add: sd_start_def)
  moreover have "byte_words (concat (map secded_tx_bits m)) = map secded_tx_bits m"
    by (rule byte_words_concat) (use assms sd.tx_length in auto)
  ultimately show "heard es (sd_start @ concat (map secded_tx_bits m))
      = sampled_twice sd_start @ concat (map2 noise es (map secded_tx_bits m))"
    by (simp add: heard_def)
  show "length (sd_start @ concat (map secded_tx_bits m)) = 14 + 18 * sizeof_TOS_Msg"
    using assms \<open>length sd_start = 14\<close> by (simp add: length_concat sd.tx_length comp_def sum_list_triv)
qed

lemma radio_message:
  assumes s: "pk_state s = 0" "length (mem msg) = sizeof_TOS_Msg"
    and tx: "PACKET_TX_PACKET 1 msg (s, mem) = ((s', mem'), [PACKET_SUB_TX_BYTES b], 1)"
    and d: "sd_state d = 1" "sd_secondary d = [b, x, y]"
    and r: "pk_state r = 0" "length (rmem (pk_rec_ptr r)) = sizeof_TOS_Msg"
    and e: "sd_searching e" "tl (sd_window e) \<noteq> [True, False, True, False, True, True, False, False]"
    and noise: "length es = sizeof_TOS_Msg" "\<forall>i. Some i \<in> set es \<longrightarrow> i < 18"
  shows "\<exists>air d' e'. stack_tx_run sent (14 + 18 * 35) (s', mem', radio_encode_thread d)
        = (air, case sent msg (s\<lparr>pk_send_ptr := msg, pk_state := 0, pk_count := 0\<rparr>, mem) of (s', mem') \<Rightarrow> (s', mem', d'))
    \<and> length air = 14 + 18 * sizeof_TOS_Msg
    \<and> fold (stack_rx_event upcall) (heard es air) (r, rmem, e)
        = (case fst (pk_deliver upcall (with_message (mem msg) (r, rmem))) of (s', mem') \<Rightarrow> (s', mem', e'))
    \<and> sd_state d' = 0 \<and> sd_state e' = 0"
proof -
  obtain d' where sent: "stack_tx_run sent (14 + 18 * 35) (s', mem', radio_encode_thread d)
      = (sd_start @ concat (map secded_tx_bits (mem msg)),
         case sent msg (s\<lparr>pk_send_ptr := msg, pk_state := 0, pk_count := 0\<rparr>, mem) of (s', mem') \<Rightarrow> (s', mem', d'))"
      "sd_state d' = 0"
    using stack_sends [OF s tx d] by blast
  have "length (sd_window e) = 9" by (simp add: sd_window_def)
  from sd_search.run_start [OF e(1) sd_start_locks [OF this e(2)]]
  obtain e1 where e1: "sd_rx_run (sampled_twice sd_start) e = ([], e1)" "sd_listening e1" by blast
  let ?ws = "map2 noise es (map secded_tx_bits (mem msg))"
  have len: "length ?ws = sizeof_TOS_Msg" "\<forall>w \<in> set ?ws. length w = 18"
    using noise s by (auto simp: sd.tx_length dest!: set_zip_rightD)
  have "map secded_rx_byte ?ws = mem msg"
    by (rule sd.rx_noises) (use noise s in auto)
  from stack_receives [where r = r and rmem = rmem and m = "mem msg" and upcall = upcall, OF r e1(2) len this]
  obtain e' where "sd_state e' = 0" "fold (stack_rx_event upcall) (concat ?ws) (r, rmem, e1)
      = (case fst (pk_deliver upcall (with_message (mem msg) (r, rmem))) of (s', mem') \<Rightarrow> (s', mem', e'))"
    by blast
  then have "fold (stack_rx_event upcall) (heard es (sd_start @ concat (map secded_tx_bits (mem msg)))) (r, rmem, e)
      = (case fst (pk_deliver upcall (with_message (mem msg) (r, rmem))) of (s', mem') \<Rightarrow> (s', mem', e'))"
    using stack_rx_silent [OF e1(1), of upcall r rmem] by (simp add: heard_message(1) [OF s(2)])
  with sent heard_message(2) [OF s(2)] \<open>sd_state e' = 0\<close> show ?thesis by blast
qed

text \<open>C6: A message accepted for sending travels whole. The sender, once the channel was quiet, puts 644
  bits on the air, fourteen of the start symbol and eighteen for each of the 35 bytes with nothing
  between them, and then reports the message sent. A receiver that was looking for the symbol, and
  hears these bits with any one of the eighteen flipped in any or every byte, shows its upper layer
  exactly the sender's message, and both radios are idle again.\<close>

theorem message_over_the_air:
  assumes s: "pk_state s = 0" "length (mem msg) = sizeof_TOS_Msg"
    and tx: "PACKET_TX_PACKET 1 msg (s, mem) = ((s', mem'), [PACKET_SUB_TX_BYTES b], 1)"
    and d: "sd_state d = 1" "sd_secondary d = [b, x, y]"
    and r: "pk_state r = 0" "length (rmem (pk_rec_ptr r)) = sizeof_TOS_Msg"
    and e: "sd_searching e" "tl (sd_window e) \<noteq> [True, False, True, False, True, True, False, False]"
    and noise: "length es = sizeof_TOS_Msg" "\<forall>i. Some i \<in> set es \<longrightarrow> i < 18"
  shows "\<exists>air d' e'. stack_tx_run sent (14 + 18 * 35) (s', mem', radio_encode_thread d)
        = (air, case sent msg (s\<lparr>pk_send_ptr := msg, pk_state := 0, pk_count := 0\<rparr>, mem) of (s', mem') \<Rightarrow> (s', mem', d'))
    \<and> length air = 14 + 18 * sizeof_TOS_Msg
    \<and> fold (stack_rx_event upcall) (heard es air) (r, rmem, e)
        = (case fst (pk_deliver upcall (with_message (mem msg) (r, rmem))) of (s', mem') \<Rightarrow> (s', mem', e'))
    \<and> sd_state d' = 0 \<and> sd_state e' = 0"
  by (rule radio_message [where mem = mem and rmem = rmem, OF assms])

lemma message_over_the_air_witness:
  "\<exists>air d' e'. stack_tx_run (\<lambda>p st. st) (14 + 18 * 35)
        (pk_idle\<lparr>pk_send_ptr := 2, pk_state := 1, pk_count := 1\<rparr>, (\<lambda>p. replicate 35 0x41),
         radio_encode_thread (sd_idle\<lparr>sd_state := 1, sd_secondary := [0x41, 0, 0]\<rparr>))
        = (air, case (pk_idle\<lparr>pk_send_ptr := 2, pk_state := 0, pk_count := 0\<rparr>, (\<lambda>p. replicate 35 0x41)) of (s', mem') \<Rightarrow> (s', mem', d'))
    \<and> length air = 14 + 18 * sizeof_TOS_Msg
    \<and> fold (stack_rx_event (\<lambda>p st. (st, 7))) (heard (replicate 35 (Some 5)) air)
          (pk_idle, (\<lambda>p. replicate 35 0), sd_idle\<lparr>sd_state := 0\<rparr>)
        = (case fst (pk_deliver (\<lambda>p st. (st, 7)) (with_message (replicate 35 0x41) (pk_idle, (\<lambda>p. replicate 35 0)))) of
             (s', mem') \<Rightarrow> (s', mem', e'))
    \<and> sd_state d' = 0 \<and> sd_state e' = 0"
  by (rule message_over_the_air [where mem = "\<lambda>p. replicate 35 0x41" and x = 0 and y = 0 and b = "0x41" and s = pk_idle and msg = 2])
    (simp_all add: pk_idle_def sd_idle_def sizeof_TOS_Msg_def PACKET_TX_PACKET_def sd_searching_def sd_window_def
      bits_of_def upt_rec nth_Cons')

end
