(* ===== verification/ActiveMsg.thy ===== *)
theory ActiveMsg
  imports PacketLink
begin

text \<open>
  The messaging layer, \<open>aps_proj/system/AM.c\<close> and, for a node with a serial line,
  \<open>aps_proj/system/AM_BASE.c\<close>, with the dispatch of \<open>AMdispatch.template\<close>. A message is the bytes of
  a \<open>TOS_Msg\<close>: address, type, group, 30 bytes of data, signal strength. State 0 is idle, 1 sending.

  The lemmas: which messages reach which handler, the header a message is sent with, and one
  message at a time.
\<close>

section \<open>State and operations\<close>

record am =
  am_addr :: u8
  am_type :: u8
  am_state :: u8
  am_msg :: ptr


datatype am_out =
    POST_SEND_TASK
  | AM_SUB_TX_PACKET ptr
  | AM_UART_SUB_TX_PACKET ptr
  | AM_SUB_POWER u8
  | AM_UART_SUB_POWER u8
  | AM_SUB_INIT
  | AM_UART_SUB_INIT

definition msg_addr :: "u8 list \<Rightarrow> u8" where "msg_addr m = m ! 0"
definition msg_type :: "u8 list \<Rightarrow> u8" where "msg_type m = m ! 1"
definition msg_group :: "u8 list \<Rightarrow> u8" where "msg_group m = m ! 2"

text \<open>The events of the layer above are parameters: \<open>finish\<close> is told a message is done with, \<open>handlers\<close> are
  the handlers of the message types. \<open>accepted\<close> is the answer of the packet layer, \<open>posted\<close> that of
  the scheduler.\<close>

definition AM_send_task ::
  "(ptr \<Rightarrow> am \<times> memory \<Rightarrow> am \<times> memory) \<Rightarrow> u8 \<Rightarrow> am \<times> memory \<Rightarrow> (am \<times> memory) \<times> am_out list" where
  "AM_send_task finish accepted st =
     (let out = [AM_SUB_TX_PACKET (am_msg (fst st))]
      in if accepted = 0 then (case finish (am_msg (fst st)) st of (s, mem) \<Rightarrow> ((s\<lparr>am_state := 0\<rparr>, mem), out))
         else (st, out))"

definition AM_SEND_MSG ::
  "u8 \<Rightarrow> u8 \<Rightarrow> u8 \<Rightarrow> u8 \<Rightarrow> ptr \<Rightarrow> am \<times> memory \<Rightarrow> (am \<times> memory) \<times> am_out list \<times> u8" where
  "AM_SEND_MSG posted grp addr type data st =
     (case st of (s, mem) \<Rightarrow>
        if am_state s = 0 then
          (if posted = 0 then ((s, mem), [POST_SEND_TASK], 0)
           else
             (let s = s\<lparr>am_state := 1, am_msg := data\<rparr>;
                  mem = mem(am_msg s := (mem (am_msg s))[0 := addr]);
                  mem = mem(am_msg s := (mem (am_msg s))[1 := type]);
                  mem = mem(am_msg s := (mem (am_msg s))[2 := grp])
              in ((s, mem), [POST_SEND_TASK], 1)))
        else ((s, mem), [], 0))"

definition AM_POWER :: "u8 \<Rightarrow> am \<times> memory \<Rightarrow> (am \<times> memory) \<times> am_out list \<times> u8" where
  "AM_POWER mode st = (case st of (s, mem) \<Rightarrow> ((s\<lparr>am_state := 0\<rparr>, mem), [AM_SUB_POWER mode], 1))"

definition AM_INIT :: "am \<times> memory \<Rightarrow> (am \<times> memory) \<times> am_out list \<times> u8" where
  "AM_INIT st = (case st of (s, mem) \<Rightarrow> ((s\<lparr>am_state := 0\<rparr>, mem), [AM_SUB_INIT], 1))"

definition AM_TX_PACKET_DONE ::
  "(ptr \<Rightarrow> am \<times> memory \<Rightarrow> am \<times> memory) \<Rightarrow> ptr \<Rightarrow> am \<times> memory \<Rightarrow> (am \<times> memory) \<times> u8" where
  "AM_TX_PACKET_DONE finish msg st = (case st of (s, mem) \<Rightarrow> (finish msg (s\<lparr>am_state := 0\<rparr>, mem), 1))"

text \<open>One handler for each of the 256 types.\<close>

definition AM_MSG_REC ::
  "(nat \<Rightarrow> ptr \<Rightarrow> 's \<times> memory \<Rightarrow> ('s \<times> memory) \<times> ptr) \<Rightarrow> u8 \<Rightarrow> ptr \<Rightarrow> 's \<times> memory \<Rightarrow> ('s \<times> memory) \<times> ptr" where
  "AM_MSG_REC handlers num data st =
     fold (\<lambda>k (st, data). if unat num = k then handlers k data st else (st, data)) [0..<256] (st, data)"

text \<open>The address of a message is a signed character, the local one an unsigned one: compared as
  integers.\<close>

definition AM_RX_PACKET_DONE ::
  "u8 \<Rightarrow> u8 \<Rightarrow> (nat \<Rightarrow> ptr \<Rightarrow> 's \<times> memory \<Rightarrow> ('s \<times> memory) \<times> ptr) \<Rightarrow> ptr \<Rightarrow> 's \<times> memory \<Rightarrow> ('s \<times> memory) \<times> ptr" where
  "AM_RX_PACKET_DONE local grp handlers packet st =
     (case st of (s, mem) \<Rightarrow>
        if msg_group (mem packet) = grp
           \<and> (msg_addr (mem packet) = TOS_BCAST_ADDR \<or> sint (msg_addr (mem packet)) = uint local)
        then (case AM_MSG_REC handlers (msg_type (mem packet)) packet (s, mem) of (st', tmp) \<Rightarrow>
                if tmp \<noteq> 0 then (st', tmp) else (st', packet))
        else ((s, mem), packet))"

section \<open>A node with a serial line\<close>

definition BASE_AM_send_task ::
  "(ptr \<Rightarrow> am \<times> memory \<Rightarrow> am \<times> memory) \<Rightarrow> u8 \<Rightarrow> am \<times> memory \<Rightarrow> (am \<times> memory) \<times> am_out list" where
  "BASE_AM_send_task finish accepted st =
     (let msg = am_msg (fst st)
      in if msg_addr (snd st msg) = TOS_UART_ADDR then
           (let out = [AM_UART_SUB_TX_PACKET msg]
            in if accepted = 0 then (case finish msg st of (s, mem) \<Rightarrow> ((s\<lparr>am_state := 0\<rparr>, mem), out)) else (st, out))
         else
           (let out = [AM_SUB_TX_PACKET msg]
            in if accepted = 0 then (case finish msg st of (s, mem) \<Rightarrow> ((s\<lparr>am_state := 0\<rparr>, mem), out)) else (st, out)))"

definition BASE_AM_SEND_MSG ::
  "u8 \<Rightarrow> u8 \<Rightarrow> u8 \<Rightarrow> u8 \<Rightarrow> ptr \<Rightarrow> am \<times> memory \<Rightarrow> (am \<times> memory) \<times> am_out list \<times> u8" where
  "BASE_AM_SEND_MSG posted grp addr type data st =
     (case st of (s, mem) \<Rightarrow>
        if am_state s = 0 then
          (let s = s\<lparr>am_state := 1, am_msg := data\<rparr>;
               mem = mem(data := (mem data)[0 := addr]);
               mem = mem(data := (mem data)[1 := type]);
               mem = mem(am_msg s := (mem (am_msg s))[2 := grp])
           in ((s, mem), [POST_SEND_TASK], 1))
        else ((s, mem), [], 0))"

definition BASE_AM_POWER :: "u8 \<Rightarrow> am \<times> memory \<Rightarrow> (am \<times> memory) \<times> am_out list \<times> u8" where
  "BASE_AM_POWER mode st = (st, [AM_SUB_POWER mode, AM_UART_SUB_POWER mode], 1)"

definition BASE_AM_INIT :: "am \<times> memory \<Rightarrow> (am \<times> memory) \<times> am_out list \<times> u8" where
  "BASE_AM_INIT st = (case st of (s, mem) \<Rightarrow> ((s\<lparr>am_state := 0\<rparr>, mem), [AM_SUB_INIT, AM_UART_SUB_INIT], 1))"

definition BASE_AM_TX_PACKET_DONE ::
  "(ptr \<Rightarrow> am \<times> memory \<Rightarrow> am \<times> memory) \<Rightarrow> ptr \<Rightarrow> am \<times> memory \<Rightarrow> (am \<times> memory) \<times> u8" where
  "BASE_AM_TX_PACKET_DONE finish msg st = (case st of (s, mem) \<Rightarrow> (finish msg (s\<lparr>am_state := 0\<rparr>, mem), 1))"

definition BASE_AM_RX_PACKET_DONE ::
  "u8 \<Rightarrow> u8 \<Rightarrow> (nat \<Rightarrow> ptr \<Rightarrow> 's \<times> memory \<Rightarrow> ('s \<times> memory) \<times> ptr) \<Rightarrow> ptr \<Rightarrow> 's \<times> memory \<Rightarrow> ('s \<times> memory) \<times> ptr" where
  "BASE_AM_RX_PACKET_DONE local grp handlers packet st =
     (case st of (s, mem) \<Rightarrow>
        if msg_group (mem packet) = grp
           \<and> (msg_addr (mem packet) = TOS_BCAST_ADDR \<or> sint (msg_addr (mem packet)) = uint local)
        then (case AM_MSG_REC handlers (msg_type (mem packet)) packet (s, mem) of (st', tmp) \<Rightarrow>
                if tmp \<noteq> 0 then (st', tmp) else (st', packet))
        else ((s, mem), packet))"

section \<open>Headers and addresses\<close>

lemma fold_one_case:
  "n \<le> m \<Longrightarrow> fold (\<lambda>k (st, data). if i = k then f k data st else (st, data)) [n..<m] (st, data) =
     (if n \<le> i \<and> i < m then f i data st else (st, data))"
proof (induction m rule: dec_induct)
  case (step m)
  then show ?case by (auto split: prod.splits)
qed auto

lemma AM_MSG_REC_handler: "AM_MSG_REC handlers num data st = handlers (unat num) data st"
proof -
  have "unat num < 256" using unsigned_less [of num] by simp
  then show ?thesis unfolding AM_MSG_REC_def by (simp add: fold_one_case)
qed

definition with_header :: "u8 \<Rightarrow> u8 \<Rightarrow> u8 \<Rightarrow> u8 list \<Rightarrow> u8 list" where
  "with_header grp addr type m = [addr, type, grp] @ drop 3 m"

lemma update_header: "length m = sizeof_TOS_Msg \<Longrightarrow> m[0 := addr, Suc 0 := type, 2 := grp] = with_header grp addr type m"
proof -
  assume "length m = sizeof_TOS_Msg"
  then obtain a b c m' where "m = a # b # c # m'"
    by (auto simp: sizeof_TOS_Msg_def numeral_eq_Suc length_Suc_conv)
  then show ?thesis by (simp add: with_header_def numeral_2_eq_2 numeral_3_eq_3)
qed

lemma header_fields [simp]:
  "msg_addr (with_header grp addr type m) = addr" "msg_type (with_header grp addr type m) = type"
  "msg_group (with_header grp addr type m) = grp" "drop 3 (with_header grp addr type m) = drop 3 m"
  "length m = sizeof_TOS_Msg \<Longrightarrow> length (with_header grp addr type m) = sizeof_TOS_Msg"
  by (simp_all add: with_header_def msg_addr_def msg_type_def msg_group_def sizeof_TOS_Msg_def)

lemma AM_SEND_MSG_header:
  assumes "am_state s = 0" and "posted \<noteq> 0" and "length (mem data) = sizeof_TOS_Msg"
  shows "AM_SEND_MSG posted grp addr type data (s, mem)
    = ((s\<lparr>am_state := 1, am_msg := data\<rparr>, mem(data := with_header grp addr type (mem data))), [POST_SEND_TASK], 1)"
  using assms update_header [OF assms(3), of addr type grp] by (simp add: AM_SEND_MSG_def)

text \<open>The address test as a node's set of addresses.\<close>

definition addresses :: "u8 \<Rightarrow> u8 set" where
  "addresses local = (if unat local < 128 then {TOS_BCAST_ADDR, local} else {TOS_BCAST_ADDR})"

lemma address_test: "a = TOS_BCAST_ADDR \<or> sint a = uint local \<longleftrightarrow> a \<in> addresses local"
proof -
  have "sint a = uint local \<longleftrightarrow> unat local < 128 \<and> a = local"
  proof
    assume eq: "sint a = uint local"
    then have "0 \<le> sint a" by simp
    moreover have "sint a < 128" using sint_lt [of a] by simp
    ultimately have l: "unat local < 128" using eq by (simp add: nat_less_iff flip: nat_uint_eq)
    have "uint a = sint a" using \<open>0 \<le> sint a\<close> \<open>sint a < 128\<close> by (simp add: uint_sint take_bit_int_eq_self)
    with eq have "a = local" by (simp add: word_uint_eq_iff)
    with l show "unat local < 128 \<and> a = local" by simp
  next
    assume "unat local < 128 \<and> a = local"
    then show "sint a = uint local" by (simp add: sint8_nonneg)
  qed
  then show ?thesis by (auto simp: addresses_def)
qed

text \<open>A message that arrives is shown to exactly one handler, that of its type, if it is of the node's
  group and sent to all or to the node itself, and to none otherwise; the buffer handed back is the
  one the handler gave in exchange, or the message's own. A node whose address is 128 or more gets
  only what is sent to all. A node with a serial line does the same.\<close>

theorem am_dispatch:
  "AM_RX_PACKET_DONE local grp handlers packet (s, mem) =
     (if msg_group (mem packet) = grp \<and> msg_addr (mem packet) \<in> (if unat local < 128 then {TOS_BCAST_ADDR, local} else {TOS_BCAST_ADDR})
      then map_prod id (\<lambda>tmp. if tmp = 0 then packet else tmp) (handlers (unat (msg_type (mem packet))) packet (s, mem))
      else ((s, mem), packet)) \<and>
   BASE_AM_RX_PACKET_DONE local grp handlers packet (s, mem) = AM_RX_PACKET_DONE local grp handlers packet (s, mem)"
  unfolding AM_RX_PACKET_DONE_def BASE_AM_RX_PACKET_DONE_def prod.case address_test addresses_def [symmetric]
  by (simp add: AM_MSG_REC_handler split: prod.splits)

section \<open>One message at a time\<close>

text \<open>A run of the component with the scheduler and the packet layer around it: \<open>in_queue\<close> is whether the
  sending task waits in the scheduler, \<open>in_air\<close> the message the packet layer has accepted and not
  yet reported. When the layer above is told a message is done with, it may ask for another one.\<close>

record am_run =
  run_am :: "am \<times> memory"
  in_queue :: bool
  in_air :: "ptr option"

type_synonym request = "u8 \<times> u8 \<times> u8 \<times> u8 \<times> ptr"

fun again :: "request option \<Rightarrow> ptr \<Rightarrow> am \<times> memory \<Rightarrow> am \<times> memory" where
  "again None p st = st"
| "again (Some (posted, grp, addr, type, data)) p st = fst (AM_SEND_MSG posted grp addr type data st)"

inductive am_step :: "am_run \<Rightarrow> am_run \<Rightarrow> bool" where
  send: "AM_SEND_MSG posted grp addr type data (run_am r) = (st, out, v) \<Longrightarrow>
    am_step r (r\<lparr>run_am := st, in_queue := in_queue r \<or> posted \<noteq> 0 \<and> POST_SEND_TASK \<in> set out\<rparr>)"
| task_refused: "in_queue r \<Longrightarrow> AM_send_task (again q) 0 (run_am r) = (st, out) \<Longrightarrow>
    am_step r (r\<lparr>run_am := st, in_queue := False\<rparr>)"
| task_accepted: "in_queue r \<Longrightarrow> in_air r = None \<Longrightarrow> accepted \<noteq> 0 \<Longrightarrow> AM_send_task (again q) accepted (run_am r) = (st, [AM_SUB_TX_PACKET p]) \<Longrightarrow>
    am_step r (r\<lparr>run_am := st, in_queue := False, in_air := Some p\<rparr>)"
| tx_done: "in_air r = Some p \<Longrightarrow> AM_TX_PACKET_DONE (again q) p (run_am r) = (st, v) \<Longrightarrow>
    am_step r (r\<lparr>run_am := st, in_air := None,
      in_queue := in_queue r \<or> (case q of None \<Rightarrow> False | Some (posted, _) \<Rightarrow> posted \<noteq> 0)\<rparr>)"

definition am_ok :: "am_run \<Rightarrow> bool" where
  "am_ok r \<longleftrightarrow> (let s = fst (run_am r)
     in am_state s = 0 \<and> \<not> in_queue r \<and> in_air r = None
      \<or> am_state s = 1 \<and> in_queue r \<and> in_air r = None
      \<or> am_state s = 1 \<and> \<not> in_queue r \<and> in_air r = Some (am_msg s))"

lemma am_step_ok: "am_step r r' \<Longrightarrow> am_ok r \<Longrightarrow> am_ok r'"
proof (induction rule: am_step.induct)
  case (send posted grp addr type data r st out v)
  obtain s mem k a where "r = \<lparr>run_am = (s, mem), in_queue = k, in_air = a\<rparr>" by (metis am_run.surjective unit.exhaust surj_pair)
  with send show ?case by (auto simp: am_ok_def AM_SEND_MSG_def Let_def split: if_splits)
next
  case (task_refused r q st out)
  obtain s mem k a where "r = \<lparr>run_am = (s, mem), in_queue = k, in_air = a\<rparr>" by (metis am_run.surjective unit.exhaust surj_pair)
  with task_refused show ?case
    by (cases q) (auto simp: am_ok_def AM_send_task_def AM_SEND_MSG_def Let_def)
next
  case (task_accepted r accepted q st p)
  then show ?case by (auto simp: am_ok_def AM_send_task_def)
next
  case (tx_done r p q st v)
  obtain s mem k a where "r = \<lparr>run_am = (s, mem), in_queue = k, in_air = a\<rparr>" by (metis am_run.surjective unit.exhaust surj_pair)
  with tx_done show ?case
    by (cases q) (auto simp: am_ok_def AM_TX_PACKET_DONE_def AM_SEND_MSG_def Let_def split: if_splits)
qed

lemma am_start_ok: "am_ok \<lparr>run_am = fst (AM_INIT (s, mem)), in_queue = False, in_air = None\<rparr>"
  by (simp add: am_ok_def AM_INIT_def)

text \<open>C19: However requests, the sending task and the packet layer's reports follow one another, and even
  if the layer above asks again from within the event that ends a message, the component is idle
  exactly when no message of it is waiting or in the air; while it is busy there is exactly one, the
  one it keeps, and every further request is refused without touching memory.\<close>

theorem am_one_message:
  assumes "am_step\<^sup>*\<^sup>* \<lparr>run_am = fst (AM_INIT (s, mem)), in_queue = False, in_air = None\<rparr> r"
  shows "(am_state (fst (run_am r)) = 0 \<longleftrightarrow> \<not> in_queue r \<and> in_air r = None)
    \<and> \<not> (in_queue r \<and> in_air r \<noteq> None)
    \<and> (in_air r = None \<or> in_air r = Some (am_msg (fst (run_am r))))
    \<and> (am_state (fst (run_am r)) = 0 \<or> AM_SEND_MSG posted grp addr type data (run_am r) = (run_am r, [], 0))"
proof -
  have "am_ok r"
    using assms by (induction rule: rtranclp_induct) (blast intro: am_start_ok am_step_ok)+
  moreover obtain s mem k a where "r = \<lparr>run_am = (s, mem), in_queue = k, in_air = a\<rparr>"
    by (metis am_run.surjective unit.exhaust surj_pair)
  ultimately show ?thesis by (auto simp: am_ok_def AM_SEND_MSG_def)
qed

definition am_busy :: am_run where
  "am_busy = \<lparr>run_am = (\<lparr>am_addr = 0, am_type = 0, am_state = 1, am_msg = 4\<rparr>,
     (\<lambda>p. replicate 35 0)(4 := with_header 9 0xff 3 (replicate 35 0))), in_queue = True, in_air = None\<rparr>"

lemma am_one_message_witness:
  "am_step\<^sup>*\<^sup>* \<lparr>run_am = fst (AM_INIT (\<lparr>am_addr = 0, am_type = 0, am_state = 0, am_msg = 0\<rparr>, \<lambda>p. replicate 35 0)),
      in_queue = False, in_air = None\<rparr> am_busy
   \<and> AM_SEND_MSG 1 9 0xff 3 5 (run_am am_busy) = (run_am am_busy, [], 0)"
proof -
  let ?r = "\<lparr>run_am = fst (AM_INIT (\<lparr>am_addr = 0, am_type = 0, am_state = 0, am_msg = 0\<rparr>, \<lambda>p. replicate 35 0)),
      in_queue = False, in_air = None\<rparr>"
  have "AM_SEND_MSG 1 9 0xff 3 4 (run_am ?r) = (run_am am_busy, [POST_SEND_TASK], 1)"
    using AM_SEND_MSG_header [where s = "\<lparr>am_addr = 0, am_type = 0, am_state = 0, am_msg = 0\<rparr>" and posted = 1
        and mem = "\<lambda>p. replicate 35 0" and data = 4 and grp = 9 and addr = "0xff" and type = 3]
    by (simp add: AM_INIT_def am_busy_def sizeof_TOS_Msg_def)
  from am_step.send [OF this] have "am_step\<^sup>*\<^sup>* ?r am_busy"
    by (intro r_into_rtranclp) (simp add: am_busy_def)
  with am_one_message [OF this, of 1 9 "0xff" 3 5] show ?thesis
    by (simp add: am_busy_def)
qed

text \<open>A node with a serial line does not look at whether the scheduler took its sending task: with
  the scheduler's queue full, the message is accepted, never sent and never given back, and every
  later request is refused.\<close>

theorem base_send_lost:
  assumes "am_state s = 0"
  shows "\<exists>s' mem'. BASE_AM_SEND_MSG 0 grp addr type data (s, mem) = ((s', mem'), [POST_SEND_TASK], 1)
    \<and> fold (\<lambda>(p, g, a, t, d) (st, vs). case BASE_AM_SEND_MSG p g a t d st of (st', _, v) \<Rightarrow> (st', vs @ [v])) reqs ((s', mem'), [])
        = ((s', mem'), replicate (length reqs) 0)"
proof -
  obtain s' mem' where *: "BASE_AM_SEND_MSG 0 grp addr type data (s, mem) = ((s', mem'), [POST_SEND_TASK], 1)" "am_state s' = 1"
    using assms by (simp add: BASE_AM_SEND_MSG_def)
  have "fold (\<lambda>(p, g, a, t, d) (st, vs). case BASE_AM_SEND_MSG p g a t d st of (st', _, v) \<Rightarrow> (st', vs @ [v])) reqs ((s', mem'), vs)
      = ((s', mem'), vs @ replicate (length reqs) 0)" for vs
    by (induction reqs arbitrary: vs) (auto simp: BASE_AM_SEND_MSG_def *(2))
  from this [of "[]"] show ?thesis using *(1) by simp
qed

lemma base_send_lost_witness:
  "\<exists>s' mem'. BASE_AM_SEND_MSG 0 9 0xff 3 5 (\<lparr>am_addr = 0, am_type = 0, am_state = 0, am_msg = 0\<rparr>, \<lambda>p. replicate 35 0)
      = ((s', mem'), [POST_SEND_TASK], 1)
    \<and> fold (\<lambda>(p, g, a, t, d) (st, vs). case BASE_AM_SEND_MSG p g a t d st of (st', _, v) \<Rightarrow> (st', vs @ [v]))
        [(1, 9, 1, 1, 6)] ((s', mem'), []) = ((s', mem'), replicate (length [(1 :: u8, 9 :: u8, 1 :: u8, 1 :: u8, 6 :: ptr)]) 0)"
  by (rule base_send_lost) simp

end
