(* ===== verification/MessageStack.thy ===== *)
theory MessageStack
  imports RadioStack ActiveMsg
begin

text \<open>
  The messaging layer on packets on radio bytes, wired as in \<open>aps_proj/system/GENERIC_COMM.desc\<close>:
  from the request of a component on one node to the handler of a component on another.
\<close>

lemma with_message_rec: "pk_rec_ptr (fst (with_message m (r, rmem))) = pk_rec_ptr r"
  "snd (with_message m (r, rmem)) (pk_rec_ptr r) = m"
  by (simp_all add: with_message_def)

text \<open>What is shown to the messaging layer goes to the handler of its type, or to none.\<close>

lemma am_on_packet:
  assumes "pk_rec_ptr r \<noteq> 0"
  shows "fst (pk_deliver (AM_RX_PACKET_DONE local grp handlers) (with_message m (r, rmem))) =
    (if msg_group m = grp \<and> msg_addr m \<in> addresses local
     then (case handlers (unat (msg_type m)) (pk_rec_ptr r) (with_message m (r, rmem)) of ((s, mem), tmp) \<Rightarrow>
             (s\<lparr>pk_rec_ptr := if tmp = 0 then pk_rec_ptr r else tmp, pk_state := 0\<rparr>, mem))
     else (r\<lparr>pk_state := 0, pk_count := 35\<rparr>, rmem(pk_rec_ptr r := m)))"
proof -
  obtain s mem where st: "with_message m (r, rmem) = (s, mem)" "pk_rec_ptr s = pk_rec_ptr r" "mem (pk_rec_ptr r) = m"
    "s = r\<lparr>pk_state := 5, pk_count := 35\<rparr>" "mem = rmem(pk_rec_ptr r := m)"
    by (simp add: with_message_def)
  have "AM_RX_PACKET_DONE local grp handlers (pk_rec_ptr r) (s, mem) =
      (if msg_group m = grp \<and> msg_addr m \<in> addresses local
       then (case handlers (unat (msg_type m)) (pk_rec_ptr r) (s, mem) of (st', tmp) \<Rightarrow>
               (st', if tmp \<noteq> 0 then tmp else pk_rec_ptr r))
       else ((s, mem), pk_rec_ptr r))"
    unfolding AM_RX_PACKET_DONE_def prod.case address_test st(3)
    by (simp add: AM_MSG_REC_handler split: prod.splits)
  then show ?thesis
    using assms unfolding pk_deliver_def st(1) fst_conv st(2)
    by (auto simp: st(4,5) split: prod.splits)
qed

text \<open>C2: A request to send, accepted by the messaging layer and by the packet layer, ends at the other
  node, and nowhere else: if the receiver is of the sender's group and the message is for it or for
  all, the handler of the message's type is called with the sender's data under the header of the
  request, and no other; if not, no handler is called. Any one flipped bit among the eighteen bits of
  each byte on the air, in every byte, changes nothing of this.\<close>

theorem request_reaches_handler:
  assumes a: "am_state a = 0" "posted \<noteq> 0" "length (mem msg) = sizeof_TOS_Msg"
    and send: "AM_SEND_MSG posted grp addr type msg (a, mem) = ((a', memh), out, 1)"
    and task: "AM_send_task finish 1 (a', memh) = ((a', memh), [AM_SUB_TX_PACKET p])"
    and s: "pk_state s = 0"
    and tx: "PACKET_TX_PACKET 1 p (s, memh) = ((s', mem'), [PACKET_SUB_TX_BYTES b], 1)"
    and d: "sd_state d = 1" "sd_secondary d = [b, x, y]"
    and r: "pk_state r = 0" "length (rmem (pk_rec_ptr r)) = sizeof_TOS_Msg" "pk_rec_ptr r \<noteq> 0"
    and e: "sd_searching e" "tl (sd_window e) \<noteq> [True, False, True, False, True, True, False, False]"
    and noise: "length es = sizeof_TOS_Msg" "\<forall>i. Some i \<in> set es \<longrightarrow> i < 18"
    and m: "m = [addr, type, grp] @ drop 3 (mem msg)"
  shows "\<exists>air n' e'. stack_tx_run sent (14 + 18 * 35) (s', mem', radio_encode_thread d) = (air, n')
    \<and> length air = 14 + 18 * sizeof_TOS_Msg
    \<and> fold (stack_rx_event (AM_RX_PACKET_DONE local rgrp handlers)) (heard es air) (r, rmem, e)
      = (if grp = rgrp \<and> addr \<in> addresses local
         then (case handlers (unat type) (pk_rec_ptr r) (with_message m (r, rmem)) of ((s, mem), tmp) \<Rightarrow>
                 (s\<lparr>pk_rec_ptr := if tmp = 0 then pk_rec_ptr r else tmp, pk_state := 0\<rparr>, mem, e'))
         else (r\<lparr>pk_state := 0, pk_count := 35\<rparr>, rmem(pk_rec_ptr r := m), e'))"
proof -
  have "a' = a\<lparr>am_state := 1, am_msg := msg\<rparr>" and memh: "memh = mem(msg := m)"
    using send AM_SEND_MSG_header [OF a(1,2), of mem msg grp addr type] a(3) by (simp_all add: m with_header_def)
  then have p: "p = msg" using task by (simp add: AM_send_task_def)
  have fields: "msg_group m = grp" "msg_addr m = addr" "msg_type m = type" and len: "length (memh msg) = sizeof_TOS_Msg"
    using a(3) by (simp_all add: m memh msg_group_def msg_addr_def msg_type_def sizeof_TOS_Msg_def)
  have "memh msg = m" by (simp add: memh)
  obtain air d' e' where run: "stack_tx_run sent (14 + 18 * 35) (s', mem', radio_encode_thread d)
        = (air, case sent msg (s\<lparr>pk_send_ptr := msg, pk_state := 0, pk_count := 0\<rparr>, memh) of (s', mem') \<Rightarrow> (s', mem', d'))"
    "length air = 14 + 18 * sizeof_TOS_Msg"
    "fold (stack_rx_event (AM_RX_PACKET_DONE local rgrp handlers)) (heard es air) (r, rmem, e)
        = (case fst (pk_deliver (AM_RX_PACKET_DONE local rgrp handlers) (with_message (memh msg) (r, rmem))) of
             (s', mem') \<Rightarrow> (s', mem', e'))"
    using radio_message [where mem = memh and rmem = rmem and sent = sent
        and upcall = "AM_RX_PACKET_DONE local rgrp handlers", OF s len tx [unfolded p] d r(1,2) e noise] by blast
  obtain n' where n': "stack_tx_run sent (14 + 18 * 35) (s', mem', radio_encode_thread d) = (air, n')"
    using run(1) by blast
  have "fold (stack_rx_event (AM_RX_PACKET_DONE local rgrp handlers)) (heard es air) (r, rmem, e)
      = (if grp = rgrp \<and> addr \<in> addresses local
         then (case handlers (unat type) (pk_rec_ptr r) (with_message m (r, rmem)) of ((s, mem), tmp) \<Rightarrow>
                 (s\<lparr>pk_rec_ptr := if tmp = 0 then pk_rec_ptr r else tmp, pk_state := 0\<rparr>, mem, e'))
         else (r\<lparr>pk_state := 0, pk_count := 35\<rparr>, rmem(pk_rec_ptr r := m), e'))"
    unfolding run(3) \<open>memh msg = m\<close> am_on_packet [OF r(3)] fields by (simp split: prod.splits)
  with n' run(2) show ?thesis by blast
qed

lemma request_reaches_handler_witness:
  "\<exists>air n' e'. stack_tx_run (\<lambda>p st. st) (14 + 18 * 35)
        (pk_idle\<lparr>pk_send_ptr := 2, pk_state := 1, pk_count := 1\<rparr>, (\<lambda>p. replicate 35 0)(2 := [7, 3, 9] @ replicate 32 0),
         radio_encode_thread (sd_idle\<lparr>sd_state := 1, sd_secondary := [7, 0, 0]\<rparr>)) = (air, n')
    \<and> length air = 14 + 18 * sizeof_TOS_Msg
    \<and> fold (stack_rx_event (AM_RX_PACKET_DONE 7 9 (\<lambda>n p st. (st, 6)))) (heard (replicate 35 (Some 5)) air)
          (pk_idle, (\<lambda>p. replicate 35 0), sd_idle\<lparr>sd_state := 0\<rparr>)
      = (if (9 :: u8) = 9 \<and> 7 \<in> addresses 7
         then (case (\<lambda>n p st. (st, 6)) (unat (3 :: u8)) (pk_rec_ptr pk_idle)
                 (with_message ([7, 3, 9] @ drop 3 (replicate 35 0)) (pk_idle, \<lambda>p. replicate 35 0)) of ((s, mem), tmp) \<Rightarrow>
                 (s\<lparr>pk_rec_ptr := if tmp = 0 then pk_rec_ptr pk_idle else tmp, pk_state := 0\<rparr>, mem, e'))
         else (pk_idle\<lparr>pk_state := 0, pk_count := 35\<rparr>, (\<lambda>p. replicate 35 0)(pk_rec_ptr pk_idle := [7, 3, 9] @ drop 3 (replicate 35 0)), e'))"
  by (rule request_reaches_handler [where a' = "\<lparr>am_addr = 0, am_type = 0, am_state = 1, am_msg = 2\<rparr>" and out = "[POST_SEND_TASK]" and a = "\<lparr>am_addr = 0, am_type = 0, am_state = 0, am_msg = 0\<rparr>" and posted = 1
      and mem = "\<lambda>p. replicate 35 0" and p = 2 and x = 0 and y = 0 and b = 7 and s = pk_idle and msg = 2 and grp = 9 and type = 3
      and mem' = "(\<lambda>p. replicate 35 0)(2 := [7, 3, 9] @ replicate 32 0)" and memh = "(\<lambda>p. replicate 35 0)(2 := [7, 3, 9] @ replicate 32 0)"])
    (simp_all add: pk_idle_def sd_idle_def sizeof_TOS_Msg_def PACKET_TX_PACKET_def sd_searching_def sd_window_def
      bits_of_def upt_rec nth_Cons' AM_SEND_MSG_header with_header_def AM_send_task_def)

end
