(* ===== verification/Slip.thy ===== *)
theory Slip
  imports PacketLink
begin

text \<open>
  The SLIP driver of the serial line, \<open>aps_proj/SLIP.c\<close>: packets of up to 30 bytes between two END
  characters, with END and ESC inside a packet replaced by two characters. One state byte serves
  both directions, two bits each: 1 sending and 2 the next byte is an escaped one, 4 receiving and 8
  an ESC was received.

  The lemmas: what the sender hands to the serial line, what the receiver makes of a frame, and how
  the two share the state. The framing of RFC 1055, which the code cites, is the specification.
\<close>

section \<open>State and operations\<close>

definition END :: u8 where "END = 0xc0"
definition ESC :: u8 where "ESC = 0xdb"
definition ESC_END :: u8 where "ESC_END = 0xdc"
definition ESC_ESC :: u8 where "ESC_ESC = 0xdd"

definition IDLE :: u8 where "IDLE = 0"
definition TX_MASK :: u8 where "TX_MASK = 3"
definition TRANSMITTING :: u8 where "TRANSMITTING = 1"
definition ESCAPING_TX :: u8 where "ESCAPING_TX = 2"
definition RX_MASK :: u8 where "RX_MASK = 0xc"
definition RECEIVING :: u8 where "RECEIVING = 4"
definition ESCAPING_RX :: u8 where "ESCAPING_RX = 8"

record slip =
  sl_state :: u8
  sl_tx_ptr :: ptr
  sl_rx_ptr :: ptr
  sl_tx_len :: u8
  sl_encodePos :: u8
  sl_decodePos :: u8

datatype slip_out =
    SLIP_SUB_INIT u16
  | SLIP_SUB_POWER u8
  | SLIP_SUB_TX_BYTE u8

text \<open>The driver's state, the message buffers and the state of the layers above. The data of a message
  starts at its fourth byte.\<close>

type_synonym 'w slip_state = "slip \<times> memory \<times> 'w"

definition SLIP_INIT :: "ptr \<Rightarrow> u8 \<Rightarrow> 'w slip_state \<Rightarrow> 'w slip_state \<times> slip_out list \<times> u8" where
  "SLIP_INIT bottomBuf ok st =
     (case st of (s, r) \<Rightarrow>
        ((s\<lparr>sl_state := IDLE, sl_tx_len := 0, sl_encodePos := 0, sl_decodePos := 0,
            sl_rx_ptr := bottomBuf, sl_tx_ptr := 0\<rparr>, r), [SLIP_SUB_INIT 19200], ok))"

definition SLIP_START :: "'w slip_state \<Rightarrow> 'w slip_state \<times> slip_out list \<times> u8" where
  "SLIP_START st = (st, [], 1)"

definition SLIP_POWER :: "u8 \<Rightarrow> u8 \<Rightarrow> 'w slip_state \<Rightarrow> 'w slip_state \<times> slip_out list \<times> u8" where
  "SLIP_POWER ok mode st = (st, [SLIP_SUB_POWER mode], ok)"

text \<open>\<open>ok\<close> is the answer of the serial line. The length is an \<open>int\<close>, kept in a character.\<close>

definition SLIP_TX_PACKET :: "u8 \<Rightarrow> ptr \<Rightarrow> u16 \<Rightarrow> 'w slip_state \<Rightarrow> 'w slip_state \<times> slip_out list \<times> u8" where
  "SLIP_TX_PACKET ok message len st =
     (case st of (s, r) \<Rightarrow>
        if sl_state s AND TX_MASK = 0 then
          (let s = s\<lparr>sl_state := sl_state s OR TRANSMITTING, sl_tx_ptr := message, sl_tx_len := ucast len, sl_encodePos := 0\<rparr>
           in if ok \<noteq> 0 then ((s, r), [SLIP_SUB_TX_BYTE END], 1)
              else ((s\<lparr>sl_state := IDLE, sl_encodePos := 0\<rparr>, r), [SLIP_SUB_TX_BYTE END], 0))
        else ((s\<lparr>sl_state := IDLE, sl_encodePos := 0\<rparr>, r), [], 0))"

text \<open>\<open>sent\<close> is the event of the layer above. After ESC the case of the switch falls through to END.\<close>

definition SLIP_TX_BYTE_READY ::
  "(ptr \<Rightarrow> 'w slip_state \<Rightarrow> 'w slip_state \<times> u8) \<Rightarrow> u8 \<Rightarrow> u8 \<Rightarrow> 'w slip_state \<Rightarrow> 'w slip_state \<times> slip_out list \<times> u8" where
  "SLIP_TX_BYTE_READY sent ok success st =
     (case st of (s, mem, w) \<Rightarrow>
        if sl_state s AND TX_MASK \<noteq> 0 then
          (if sint (sl_tx_len s) < sint (sl_encodePos s) then
             (let s = s\<lparr>sl_state := sl_state s AND NOT TX_MASK, sl_tx_len := 0\<rparr>
              in case sent (sl_tx_ptr s) (s, mem, w) of ((s, r), tmp) \<Rightarrow> ((s\<lparr>sl_tx_ptr := 0\<rparr>, r), [], tmp))
           else if sl_encodePos s = sl_tx_len s then
             ((s\<lparr>sl_encodePos := sl_encodePos s + 1\<rparr>, mem, w), [SLIP_SUB_TX_BYTE END], ok)
           else
             (let c = mem (sl_tx_ptr s) ! nat (3 + sint (sl_encodePos s))
              in if sl_state s AND ESCAPING_TX \<noteq> 0 then
                   (let c' = (if c = ESC then ESC_ESC else c);
                        c' = (if c = ESC \<or> c = END then ESC_END else c');
                        s = s\<lparr>sl_state := sl_state s AND NOT ESCAPING_TX\<rparr>;
                        s = s\<lparr>sl_encodePos := sl_encodePos s + 1\<rparr>
                    in ((s, mem, w), [SLIP_SUB_TX_BYTE c'], ok))
                 else
                   (let (s, c) = (if c = ESC \<or> c = END
                                  then (s\<lparr>sl_state := sl_state s OR ESCAPING_TX, sl_encodePos := sl_encodePos s - 1\<rparr>, ESC)
                                  else (s, c));
                        s = s\<lparr>sl_encodePos := sl_encodePos s + 1\<rparr>
                    in ((s, mem, w), [SLIP_SUB_TX_BYTE c], ok))))
        else ((s\<lparr>sl_state := IDLE, sl_encodePos := 0\<rparr>, mem, w), [], 0))"

definition SLIP_BYTE_TX_DONE :: "'w slip_state \<Rightarrow> 'w slip_state \<times> slip_out list \<times> u8" where
  "SLIP_BYTE_TX_DONE st = (st, [], 1)"

text \<open>\<open>upcall\<close> is the event of the layer above: it is given the buffer and the number of its data bytes
  and answers with the next buffer.\<close>

definition zero_data :: "u8 list \<Rightarrow> u8 list" where
  "zero_data m = write_bytes 3 (replicate DATA_LENGTH 0) m"

definition rx_and_reset ::
  "(ptr \<Rightarrow> u16 \<Rightarrow> 'w slip_state \<Rightarrow> 'w slip_state \<times> ptr) \<Rightarrow> 'w slip_state \<Rightarrow> 'w slip_state \<times> slip_out list \<times> u8" where
  "rx_and_reset upcall st =
     (case st of (s, r) \<Rightarrow>
        (let s = s\<lparr>sl_state := sl_state s AND NOT RX_MASK\<rparr>
         in case upcall (sl_rx_ptr s) (scast (sl_decodePos s)) (s, r) of ((s, mem, w), next_rx_ptr) \<Rightarrow>
              if next_rx_ptr \<noteq> 0 then
                (if sl_rx_ptr s \<noteq> next_rx_ptr
                 then ((s\<lparr>sl_rx_ptr := next_rx_ptr\<rparr>, mem(next_rx_ptr := zero_data (mem next_rx_ptr)), w), [], 1)
                 else ((s, mem, w), [], 1))
              else ((s, mem, w), [], 0)))"

definition SLIP_RX_BYTE_READY ::
  "(ptr \<Rightarrow> u16 \<Rightarrow> 'w slip_state \<Rightarrow> 'w slip_state \<times> ptr) \<Rightarrow> u8 \<Rightarrow> u8 \<Rightarrow> 'w slip_state \<Rightarrow> 'w slip_state \<times> slip_out list \<times> u8" where
  "SLIP_RX_BYTE_READY upcall d err st =
     (case st of (s, mem, w) \<Rightarrow>
        if err \<noteq> 0 then ((s\<lparr>sl_state := IDLE\<rparr>, mem, w), [], 0)
        else if sl_state s AND RX_MASK = 0 then
          (if d \<noteq> END then ((s, mem, w), [], 1)
           else ((s\<lparr>sl_state := sl_state s OR RECEIVING, sl_decodePos := 0\<rparr>, mem, w), [], 1))
        else if sl_state s AND RX_MASK = RECEIVING then
          (if d = END then rx_and_reset upcall (s, mem, w)
           else if d = ESC then ((s\<lparr>sl_state := sl_state s OR ESCAPING_RX\<rparr>, mem, w), [], 1)
           else if sint (sl_decodePos s) < int DATA_LENGTH then
             ((s\<lparr>sl_decodePos := sl_decodePos s + 1\<rparr>,
               mem(sl_rx_ptr s := (mem (sl_rx_ptr s))[nat (3 + sint (sl_decodePos s)) := d]), w), [], 1)
           else rx_and_reset upcall (s, mem, w))
        else if sl_state s AND ESCAPING_RX \<noteq> 0 then
          (let c = (if d = ESC_END then END else if d = ESC_ESC then ESC else d);
               s = s\<lparr>sl_state := sl_state s AND (NOT RX_MASK OR RECEIVING)\<rparr>
           in if sint (sl_decodePos s) < int DATA_LENGTH then
                ((s\<lparr>sl_decodePos := sl_decodePos s + 1\<rparr>,
                  mem(sl_rx_ptr s := (mem (sl_rx_ptr s))[nat (3 + sint (sl_decodePos s)) := c]), w), [], 1)
              else rx_and_reset upcall (s, mem, w))
        else ((s\<lparr>sl_state := IDLE\<rparr>, mem, w), [], 0))"

section \<open>The state byte\<close>

definition slip_states :: "u8 set" where "slip_states = {0, 1, 3, 4, 5, 7, 0xc, 0xd, 0xf}"

named_theorems slip_consts \<open>the characters and masks of the driver\<close>

lemmas [slip_consts] = END_def ESC_def ESC_END_def ESC_ESC_def IDLE_def TX_MASK_def TRANSMITTING_def ESCAPING_TX_def
  RX_MASK_def RECEIVING_def ESCAPING_RX_def

lemma slip_state_cases:
  assumes "x \<in> slip_states"
  obtains "x AND TX_MASK = 0" "x AND RX_MASK = 0" "x = 0"
    | "x AND TX_MASK = 1" "x AND RX_MASK = 0" "x = 1"
    | "x AND TX_MASK = 3" "x AND RX_MASK = 0" "x = 3"
    | "x AND TX_MASK = 0" "x AND RX_MASK = 4" "x = 4"
    | "x AND TX_MASK = 1" "x AND RX_MASK = 4" "x = 5"
    | "x AND TX_MASK = 3" "x AND RX_MASK = 4" "x = 7"
    | "x AND TX_MASK = 0" "x AND RX_MASK = 12" "x = 12"
    | "x AND TX_MASK = 1" "x AND RX_MASK = 12" "x = 13"
    | "x AND TX_MASK = 3" "x AND RX_MASK = 12" "x = 15"
  using assms unfolding slip_states_def by (elim insertE emptyE) (simp_all add: slip_consts)

text \<open>The operations on one direction's bits, and what they leave of the other's.\<close>

lemma tx_bits:
  assumes "x \<in> slip_states"
  shows "x AND TX_MASK = 0 \<Longrightarrow> (x OR TRANSMITTING) AND TX_MASK = 1"
    and "x AND TX_MASK = 1 \<Longrightarrow> x AND ESCAPING_TX = 0"
    and "x AND TX_MASK = 1 \<Longrightarrow> (x OR ESCAPING_TX) AND TX_MASK = 3"
    and "x AND TX_MASK = 1 \<Longrightarrow> (x OR ESCAPING_TX) AND ESCAPING_TX \<noteq> 0"
    and "x AND TX_MASK = 1 \<Longrightarrow> (x OR ESCAPING_TX) AND NOT ESCAPING_TX = x"
    and "(x OR TRANSMITTING) AND RX_MASK = x AND RX_MASK" "(x OR ESCAPING_TX) AND RX_MASK = x AND RX_MASK"
    and "(x AND NOT ESCAPING_TX) AND RX_MASK = x AND RX_MASK" "(x AND NOT TX_MASK) AND RX_MASK = x AND RX_MASK"
    and "x AND TX_MASK = 0 \<Longrightarrow> (x OR TRANSMITTING) AND NOT TX_MASK = x"
  using assms by (cases rule: slip_state_cases; simp add: slip_consts)+

lemma rx_bits:
  assumes "x \<in> slip_states"
  shows "x AND RX_MASK = 0 \<Longrightarrow> (x OR RECEIVING) AND RX_MASK = RECEIVING"
    and "x AND RX_MASK = RECEIVING \<Longrightarrow> (x OR ESCAPING_RX) AND RX_MASK = 12"
    and "x AND RX_MASK = 12 \<Longrightarrow> x AND ESCAPING_RX \<noteq> 0"
    and "x AND RX_MASK = RECEIVING \<Longrightarrow> (x OR ESCAPING_RX) AND (NOT RX_MASK OR RECEIVING) = x"
    and "(x OR RECEIVING) AND TX_MASK = x AND TX_MASK" "(x OR ESCAPING_RX) AND TX_MASK = x AND TX_MASK"
    and "(x AND (NOT RX_MASK OR RECEIVING)) AND TX_MASK = x AND TX_MASK" "(x AND NOT RX_MASK) AND TX_MASK = x AND TX_MASK"
    and "x AND RX_MASK = 0 \<Longrightarrow> (x OR RECEIVING) AND NOT RX_MASK = x"
    and "x AND RX_MASK = RECEIVING \<Longrightarrow> (x AND NOT RX_MASK) AND RX_MASK = 0"
  using assms by (cases rule: slip_state_cases; simp add: slip_consts)+

lemma slip_states_closed:
  assumes "x \<in> slip_states"
  shows "x AND TX_MASK = 0 \<Longrightarrow> x OR TRANSMITTING \<in> slip_states" "x AND TX_MASK = 1 \<Longrightarrow> x OR ESCAPING_TX \<in> slip_states"
    "x AND NOT ESCAPING_TX \<in> slip_states" "x AND NOT TX_MASK \<in> slip_states"
    "x AND RX_MASK = 0 \<Longrightarrow> x OR RECEIVING \<in> slip_states" "x AND RX_MASK = RECEIVING \<Longrightarrow> x OR ESCAPING_RX \<in> slip_states"
    "x AND (NOT RX_MASK OR RECEIVING) \<in> slip_states" "x AND NOT RX_MASK \<in> slip_states" "IDLE \<in> slip_states"
  using assms by (cases rule: slip_state_cases; simp add: slip_consts slip_states_def)+

section \<open>Sending\<close>

definition serial_bytes :: "slip_out list \<Rightarrow> u8 list" where
  "serial_bytes outs = [c. SLIP_SUB_TX_BYTE c \<leftarrow> outs]"

definition slip_taken :: "(ptr \<Rightarrow> 'w slip_state \<Rightarrow> 'w slip_state \<times> u8) \<Rightarrow> 'w slip_state \<Rightarrow> 'w slip_state \<times> u8 list" where
  "slip_taken sent st = (case SLIP_TX_BYTE_READY sent 1 1 st of (st', out, _) \<Rightarrow> (st', serial_bytes out))"

text \<open>RFC 1055, and what the code makes of it.\<close>

definition stuff :: "u8 \<Rightarrow> u8 list" where
  "stuff c = (if c = ESC then [ESC, ESC_ESC] else if c = END then [ESC, ESC_END] else [c])"

definition slip_frame :: "u8 list \<Rightarrow> u8 list" where
  "slip_frame cs = END # concat (map stuff cs) @ [END]"

definition esc_to_end :: "u8 \<Rightarrow> u8" where
  "esc_to_end c = (if c = ESC then END else c)"

lemma sint_count: "n < 128 \<Longrightarrow> sint (word_of_nat n :: u8) = int n"
  by (simp add: sint8_nonneg unsigned_of_nat take_bit_nat_eq_self)

lemma count_inject: "k < 128 \<Longrightarrow> n < 128 \<Longrightarrow> word_of_nat k = (word_of_nat n :: u8) \<longleftrightarrow> k = n"
  by (metis sint_count of_nat_eq_iff)

lemma spool_add: "spool taken (m + n) s =
    (case spool taken m s of (s', ds) \<Rightarrow> case spool taken n s' of (s'', ds') \<Rightarrow> (s'', ds @ ds'))"
  by (induction m arbitrary: s) (simp_all split: prod.splits)

text \<open>One byte of data, sent as one or two.\<close>

lemma slip_taken_data:
  assumes x: "sl_state s \<in> slip_states" "sl_state s AND TX_MASK = 1"
    and n: "sl_tx_len s = word_of_nat n" "n < 128" "sl_encodePos s = word_of_nat k" "k < n"
    and c: "c = mem (sl_tx_ptr s) ! (3 + k)"
  shows "spool (slip_taken sent) (length (stuff (esc_to_end c))) (s, mem, w)
    = ((s\<lparr>sl_encodePos := word_of_nat (Suc k)\<rparr>, mem, w), stuff (esc_to_end c))"
proof -
  have k: "sint (word_of_nat k :: u8) = int k" "sint (word_of_nat n :: u8) = int n" "nat (3 + int k) = 3 + k"
    "word_of_nat k \<noteq> (word_of_nat n :: u8)"
    using n by (simp_all add: sint_count count_inject)
  have inc: "word_of_nat k - 1 + 1 = (word_of_nat k :: u8)" "word_of_nat (Suc k) = word_of_nat k + (1 :: u8)"
    by (simp_all add: add.commute)
  note bits = tx_bits [OF x(1)] x(2)
  show ?thesis
  proof (cases "c = ESC \<or> c = END")
    case True
    then have "stuff (esc_to_end c) = [ESC, ESC_END]" by (auto simp: stuff_def esc_to_end_def slip_consts)
    moreover have "slip_taken sent (s, mem, w) = ((s\<lparr>sl_state := sl_state s OR ESCAPING_TX\<rparr>, mem, w), [ESC])"
      using True n k bits inc unfolding slip_taken_def SLIP_TX_BYTE_READY_def
      by (simp add: c [symmetric] serial_bytes_def)
    moreover have "slip_taken sent (s\<lparr>sl_state := sl_state s OR ESCAPING_TX\<rparr>, mem, w)
        = ((s\<lparr>sl_encodePos := word_of_nat (Suc k)\<rparr>, mem, w), [ESC_END])"
      using True n k bits inc unfolding slip_taken_def SLIP_TX_BYTE_READY_def
      by (simp add: c [symmetric] serial_bytes_def)
    ultimately show ?thesis by simp
  next
    case False
    then have "stuff (esc_to_end c) = [c]" by (auto simp: stuff_def esc_to_end_def)
    moreover have "slip_taken sent (s, mem, w) = ((s\<lparr>sl_encodePos := word_of_nat (Suc k)\<rparr>, mem, w), [c])"
      using False n k bits inc unfolding slip_taken_def SLIP_TX_BYTE_READY_def
      by (simp add: c [symmetric] serial_bytes_def)
    ultimately show ?thesis by simp
  qed
qed

lemma slip_taken_all:
  assumes x: "sl_state s \<in> slip_states" "sl_state s AND TX_MASK = 1" and n: "sl_tx_len s = word_of_nat n" "n < 128"
    and len: "length (mem (sl_tx_ptr s)) = sizeof_TOS_Msg" "3 + n \<le> sizeof_TOS_Msg"
  shows "k \<le> n \<Longrightarrow> body = concat (map stuff (map esc_to_end (data_of (mem (sl_tx_ptr s)) k))) \<Longrightarrow>
    spool (slip_taken sent) (length body) (s\<lparr>sl_encodePos := 0\<rparr>, mem, w)
      = ((s\<lparr>sl_encodePos := word_of_nat k\<rparr>, mem, w), body)"
proof (induction k arbitrary: body)
  case (Suc k)
  let ?c = "mem (sl_tx_ptr s) ! (3 + k)"
  let ?b = "concat (map stuff (map esc_to_end (data_of (mem (sl_tx_ptr s)) k)))"
  have "data_of (mem (sl_tx_ptr s)) (Suc k) = data_of (mem (sl_tx_ptr s)) k @ [?c]"
    using Suc.prems(1) len by (simp add: data_of_def take_Suc_conv_app_nth sizeof_TOS_Msg_def)
  then have body: "body = ?b @ stuff (esc_to_end ?c)" using Suc.prems(2) by simp
  have "spool (slip_taken sent) (length ?b) (s\<lparr>sl_encodePos := 0\<rparr>, mem, w) = ((s\<lparr>sl_encodePos := word_of_nat k\<rparr>, mem, w), ?b)"
    using Suc.prems(1) by (intro Suc.IH) simp_all
  moreover have "spool (slip_taken sent) (length (stuff (esc_to_end ?c))) (s\<lparr>sl_encodePos := word_of_nat k\<rparr>, mem, w)
      = ((s\<lparr>sl_encodePos := word_of_nat (Suc k)\<rparr>, mem, w), stuff (esc_to_end ?c))"
    using slip_taken_data [where s = "s\<lparr>sl_encodePos := word_of_nat k\<rparr>" and n = n and k = k and c = ?c and mem = mem and sent = sent and w = w]
      x n Suc.prems(1) by simp
  ultimately show ?case by (simp add: body spool_add)
qed (simp add: data_of_def)

text \<open>A whole message, after the END that comes with the request.\<close>

lemma slip_taken_message:
  assumes x: "sl_state s \<in> slip_states" "sl_state s AND TX_MASK = 0"
    and len: "length (mem msg) = sizeof_TOS_Msg" "n \<le> DATA_LENGTH"
    and body: "body = concat (map stuff (map esc_to_end (data_of (mem msg) n)))"
  defines "s1 \<equiv> s\<lparr>sl_state := sl_state s OR TRANSMITTING, sl_tx_ptr := msg, sl_tx_len := word_of_nat n, sl_encodePos := 0\<rparr>"
  shows "SLIP_TX_PACKET 1 msg (word_of_nat n) (s, mem, w) = ((s1, mem, w), [SLIP_SUB_TX_BYTE END], 1)"
    and "spool (slip_taken sent) (length body + 1) (s1, mem, w) = ((s1\<lparr>sl_encodePos := word_of_nat (Suc n)\<rparr>, mem, w), body @ [END])"
    and "SLIP_TX_BYTE_READY sent ok success (s1\<lparr>sl_encodePos := word_of_nat (Suc n)\<rparr>, mem, w)
      = (case sent msg (s\<lparr>sl_tx_ptr := msg, sl_encodePos := word_of_nat (Suc n), sl_tx_len := 0\<rparr>, mem, w) of
           ((s, r), v) \<Rightarrow> ((s\<lparr>sl_tx_ptr := 0\<rparr>, r), [], v))"
proof -
  have n: "n < 128" "Suc n < 128" "3 + n \<le> sizeof_TOS_Msg" using len(2) by (simp_all add: sizeof_TOS_Msg_def DATA_LENGTH_def)
  have "(ucast (word_of_nat n :: u16) :: u8) = word_of_nat n"
    using n(1) by (simp add: unsigned_of_nat take_bit_nat_eq_self)
  then show "SLIP_TX_PACKET 1 msg (word_of_nat n) (s, mem, w) = ((s1, mem, w), [SLIP_SUB_TX_BYTE END], 1)"
    using x(2) by (simp add: SLIP_TX_PACKET_def s1_def)
  have s1: "sl_state s1 \<in> slip_states" "sl_state s1 AND TX_MASK = 1" "sl_tx_ptr s1 = msg" "sl_tx_len s1 = word_of_nat n"
    using slip_states_closed(1) [OF x] tx_bits(1) [OF x] by (simp_all add: s1_def)
  have 1: "spool (slip_taken sent) (length body) (s1\<lparr>sl_encodePos := 0\<rparr>, mem, w) = ((s1\<lparr>sl_encodePos := word_of_nat n\<rparr>, mem, w), body)"
    using slip_taken_all [where s = s1 and n = n and k = n and mem = mem and sent = sent and w = w] s1 n len(1) body by simp
  have inc: "word_of_nat (Suc n) = word_of_nat n + (1 :: u8)" by (simp add: add.commute)
  have 2: "slip_taken sent (s1\<lparr>sl_encodePos := word_of_nat n\<rparr>, mem, w) = ((s1\<lparr>sl_encodePos := word_of_nat (Suc n)\<rparr>, mem, w), [END])"
    unfolding inc using s1 n sint_count [of n]
    by (simp add: slip_taken_def SLIP_TX_BYTE_READY_def serial_bytes_def)
  have "s1\<lparr>sl_encodePos := 0\<rparr> = s1" by (simp add: s1_def)
  then show "spool (slip_taken sent) (length body + 1) (s1, mem, w) = ((s1\<lparr>sl_encodePos := word_of_nat (Suc n)\<rparr>, mem, w), body @ [END])"
    using 1 2 by (simp only: spool_add) simp
  show "SLIP_TX_BYTE_READY sent ok success (s1\<lparr>sl_encodePos := word_of_nat (Suc n)\<rparr>, mem, w)
      = (case sent msg (s\<lparr>sl_tx_ptr := msg, sl_encodePos := word_of_nat (Suc n), sl_tx_len := 0\<rparr>, mem, w) of
           ((s, r), v) \<Rightarrow> ((s\<lparr>sl_tx_ptr := 0\<rparr>, r), [], v))"
    using s1 sint_count [OF n(1)] sint_count [OF n(2)] tx_bits(10) [OF x]
    unfolding SLIP_TX_BYTE_READY_def by (simp add: s1_def)
qed

section \<open>Receiving\<close>

definition slip_hears :: "(ptr \<Rightarrow> u16 \<Rightarrow> 'w slip_state \<Rightarrow> 'w slip_state \<times> ptr) \<Rightarrow> u8 \<Rightarrow> 'w slip_state \<Rightarrow> 'w slip_state" where
  "slip_hears upcall d st = fst (SLIP_RX_BYTE_READY upcall d 0 st)"

lemma write_bytes_snoc: "write_bytes i (p @ [d]) m = (write_bytes i p m)[i + length p := d]"
  by (induction p arbitrary: i m) simp_all

lemma slip_hears_char:
  assumes x: "sl_state s \<in> slip_states" "sl_state s AND RX_MASK = RECEIVING"
    and p: "sl_decodePos s = word_of_nat (length p)" "length p < DATA_LENGTH" "mem (sl_rx_ptr s) = write_bytes 3 p m"
  shows "fold (slip_hears upcall) (stuff c) (s, mem, w)
    = (s\<lparr>sl_decodePos := word_of_nat (Suc (length p))\<rparr>, mem(sl_rx_ptr s := write_bytes 3 (p @ [c]) m), w)"
proof -
  have pos: "sint (word_of_nat (length p) :: u8) = int (length p)" "nat (3 + int (length p)) = 3 + length p"
    using p(2) by (simp_all add: sint_count DATA_LENGTH_def)
  have inc: "word_of_nat (Suc (length p)) = word_of_nat (length p) + (1 :: u8)" by (simp add: add.commute)
  note bits = rx_bits [OF x(1)] x
  have rec: "sl_state s AND RX_MASK \<noteq> 0" "12 \<noteq> RECEIVING" using x(2) by (simp_all add: RECEIVING_def)
  show ?thesis
  proof (cases "c = ESC \<or> c = END")
    case True
    define s1 where "s1 = s\<lparr>sl_state := sl_state s OR ESCAPING_RX\<rparr>"
    have "slip_hears upcall ESC (s, mem, w) = (s1, mem, w)"
      using x rec by (simp add: slip_hears_def SLIP_RX_BYTE_READY_def s1_def) (simp add: slip_consts)
    moreover have "slip_hears upcall (if c = ESC then ESC_ESC else ESC_END) (s1, mem, w)
        = (s\<lparr>sl_decodePos := word_of_nat (Suc (length p))\<rparr>, mem(sl_rx_ptr s := write_bytes 3 (p @ [c]) m), w)"
      unfolding inc write_bytes_snoc using True bits rec p pos
      by (simp add: slip_hears_def SLIP_RX_BYTE_READY_def s1_def) (auto simp: slip_consts)
    moreover have "stuff c = [ESC, if c = ESC then ESC_ESC else ESC_END]"
      using True by (auto simp: stuff_def)
    ultimately show ?thesis by simp
  next
    case False
    then show ?thesis
      unfolding inc write_bytes_snoc using x rec p pos
      by (simp add: stuff_def slip_hears_def SLIP_RX_BYTE_READY_def)
  qed
qed

lemma slip_hears_chars:
  assumes x: "sl_state s \<in> slip_states" "sl_state s AND RX_MASK = RECEIVING"
  shows "sl_decodePos s = word_of_nat (length p) \<Longrightarrow> length p + length cs \<le> DATA_LENGTH \<Longrightarrow> mem (sl_rx_ptr s) = write_bytes 3 p m \<Longrightarrow>
    fold (slip_hears upcall) (concat (map stuff cs)) (s, mem, w)
      = (s\<lparr>sl_decodePos := word_of_nat (length (p @ cs))\<rparr>, mem(sl_rx_ptr s := write_bytes 3 (p @ cs) m), w)"
  using x
proof (induction cs arbitrary: p s mem)
  case Nil
  then have "s\<lparr>sl_decodePos := word_of_nat (length p)\<rparr> = s" "mem(sl_rx_ptr s := write_bytes 3 p m) = mem"
    by (simp flip: Nil.prems(1), simp flip: Nil.prems(3))
  then show ?case by simp
next
  case (Cons c cs)
  have "fold (slip_hears upcall) (stuff c) (s, mem, w)
    = (s\<lparr>sl_decodePos := word_of_nat (length (p @ [c]))\<rparr>, mem(sl_rx_ptr s := write_bytes 3 (p @ [c]) m), w)"
    using slip_hears_char [where s = s and p = p and mem = mem and m = m and w = w] Cons.prems by simp
  moreover have "fold (slip_hears upcall) (concat (map stuff cs))
      (s\<lparr>sl_decodePos := word_of_nat (length (p @ [c]))\<rparr>, mem(sl_rx_ptr s := write_bytes 3 (p @ [c]) m), w)
    = (s\<lparr>sl_decodePos := word_of_nat (length (p @ [c]))\<rparr>\<lparr>sl_decodePos := word_of_nat (length ((p @ [c]) @ cs))\<rparr>,
       (mem(sl_rx_ptr s := write_bytes 3 (p @ [c]) m))
         (sl_rx_ptr (s\<lparr>sl_decodePos := word_of_nat (length (p @ [c]))\<rparr>) := write_bytes 3 ((p @ [c]) @ cs) m), w)"
    by (rule Cons.IH) (use Cons.prems in simp_all)
  ultimately show ?case by (simp add: fun_eq_iff)
qed

text \<open>A frame, to an idle receiver: the layer above is shown the data once, when the second END
  arrives.\<close>

definition slip_show ::
  "(ptr \<Rightarrow> u16 \<Rightarrow> 'w slip_state \<Rightarrow> 'w slip_state \<times> ptr) \<Rightarrow> u8 list \<Rightarrow> 'w slip_state \<Rightarrow> 'w slip_state" where
  "slip_show upcall cs st = (case st of (s, mem, w) \<Rightarrow>
     fst (rx_and_reset upcall (s\<lparr>sl_state := sl_state s OR RECEIVING, sl_decodePos := word_of_nat (length cs)\<rparr>,
       mem(sl_rx_ptr s := write_bytes 3 cs (mem (sl_rx_ptr s))), w)))"

lemma slip_hears_frame:
  assumes x: "sl_state s \<in> slip_states" "sl_state s AND RX_MASK = 0" and cs: "length cs \<le> DATA_LENGTH"
  shows "fold (slip_hears upcall) (slip_frame cs) (s, mem, w) = slip_show upcall cs (s, mem, w)"
proof -
  define s1 where "s1 = s\<lparr>sl_state := sl_state s OR RECEIVING, sl_decodePos := 0\<rparr>"
  have 1: "slip_hears upcall END (s, mem, w) = (s1, mem, w)"
    using x by (simp add: slip_hears_def SLIP_RX_BYTE_READY_def s1_def)
  have s1: "sl_state s1 \<in> slip_states" "sl_state s1 AND RX_MASK = RECEIVING"
    using slip_states_closed(5) [OF x] rx_bits(1) [OF x] by (simp_all add: s1_def)
  have 2: "fold (slip_hears upcall) (concat (map stuff cs)) (s1, mem, w)
      = (s1\<lparr>sl_decodePos := word_of_nat (length cs)\<rparr>, mem(sl_rx_ptr s := write_bytes 3 cs (mem (sl_rx_ptr s))), w)"
    using slip_hears_chars [OF s1, of "[]" cs mem "mem (sl_rx_ptr s)" upcall w] cs by (simp add: s1_def)
  have 3: "slip_hears upcall END (s1\<lparr>sl_decodePos := word_of_nat (length cs)\<rparr>, mem', w)
      = fst (rx_and_reset upcall (s1\<lparr>sl_decodePos := word_of_nat (length cs)\<rparr>, mem', w))" for mem'
    using s1(2) by (simp add: slip_hears_def SLIP_RX_BYTE_READY_def) (simp add: slip_consts)
  show ?thesis using 1 2 3 by (simp add: slip_frame_def slip_show_def) (simp add: s1_def)
qed

section \<open>From sender to receiver\<close>

text \<open>The bytes the sender hands to the serial line for a message of up to 30 bytes, one with the
  request and one with each report, are taken by an idle receiver as one packet, shown once and of
  the same length; with one more report the sender is told and is as before. The packet is the message, except that every ESC in it has become END: the sender's
  switch falls through. A message without an ESC is sent as RFC 1055 says and arrives as it is.\<close>

theorem slip_roundtrip:
  assumes s: "sl_state s \<in> slip_states" "sl_state s AND TX_MASK = 0"
    and msg: "length (mem msg) = sizeof_TOS_Msg" "n \<le> DATA_LENGTH" "cs = data_of (mem msg) n"
    and r: "sl_state r \<in> slip_states" "sl_state r AND RX_MASK = 0"
  shows "\<exists>st k bytes. SLIP_TX_PACKET 1 msg (word_of_nat n) (s, mem, w) = (st, [SLIP_SUB_TX_BYTE END], 1)
    \<and> snd (spool (slip_taken sent) k st) = bytes
    \<and> SLIP_TX_BYTE_READY sent ok success (fst (spool (slip_taken sent) k st))
        = (case sent msg (s\<lparr>sl_tx_ptr := msg, sl_encodePos := word_of_nat (Suc n), sl_tx_len := 0\<rparr>, mem, w) of
             ((s, r), v) \<Rightarrow> ((s\<lparr>sl_tx_ptr := 0\<rparr>, r), [], v))
    \<and> fold (slip_hears upcall) (END # bytes) (r, rmem, v)
        = fst (rx_and_reset upcall (r\<lparr>sl_state := sl_state r OR RECEIVING, sl_decodePos := word_of_nat n\<rparr>,
            rmem(sl_rx_ptr r := write_bytes 3 (map (\<lambda>c. if c = ESC then END else c) cs) (rmem (sl_rx_ptr r))), v))
    \<and> (ESC \<notin> set cs \<longrightarrow> END # bytes = slip_frame cs)"
proof -
  have len: "length cs = n" using msg by (simp add: data_of_def sizeof_TOS_Msg_def DATA_LENGTH_def)
  let ?body = "concat (map stuff (map esc_to_end cs))"
  let ?s1 = "s\<lparr>sl_state := sl_state s OR TRANSMITTING, sl_tx_ptr := msg, sl_tx_len := word_of_nat n, sl_encodePos := 0\<rparr>"
  have body: "?body = concat (map stuff (map esc_to_end (data_of (mem msg) n)))" using msg(3) by simp
  note tx = slip_taken_message [where mem = mem, OF s msg(1,2) body]
  have frame: "END # ?body @ [END] = slip_frame (map esc_to_end cs)" by (simp add: slip_frame_def)
  have rx: "fold (slip_hears upcall) (END # ?body @ [END]) (r, rmem, v) = slip_show upcall (map esc_to_end cs) (r, rmem, v)"
    unfolding frame by (rule slip_hears_frame) (use r len msg in simp_all)
  have "ESC \<notin> set cs \<Longrightarrow> map esc_to_end cs = cs" by (induction cs) (auto simp: esc_to_end_def)
  then have clean: "ESC \<notin> set cs \<longrightarrow> END # ?body @ [END] = slip_frame cs" using frame by metis
  have shown: "fold (slip_hears upcall) (END # ?body @ [END]) (r, rmem, v)
        = fst (rx_and_reset upcall (r\<lparr>sl_state := sl_state r OR RECEIVING, sl_decodePos := word_of_nat n\<rparr>,
            rmem(sl_rx_ptr r := write_bytes 3 (map (\<lambda>c. if c = ESC then END else c) cs) (rmem (sl_rx_ptr r))), v))"
    unfolding rx slip_show_def prod.case length_map len by (simp add: esc_to_end_def [abs_def])
  show ?thesis
    by (rule exI [of _ "(?s1, mem, w)"], rule exI [of _ "length ?body + 1"], rule exI [of _ "?body @ [END]"])
      (intro conjI, (rule clean | simp only: tx fst_conv snd_conv shown)+)
qed

lemma slip_roundtrip_witness:
  defines "s \<equiv> fst (fst (SLIP_INIT 1 1 (\<lparr>sl_state = 0, sl_tx_ptr = 0, sl_rx_ptr = 0, sl_tx_len = 0, sl_encodePos = 0, sl_decodePos = 0\<rparr>,
      (\<lambda>p. replicate 35 0), ())))"
  shows "\<exists>st k bytes. SLIP_TX_PACKET 1 2 (word_of_nat 3) (s, (\<lambda>p. replicate 3 0 @ [0x41, 0xdb, 0xc0] @ replicate 29 0), ())
      = (st, [SLIP_SUB_TX_BYTE END], 1)
    \<and> snd (spool (slip_taken (\<lambda>p st. (st, 1))) k st) = bytes
    \<and> SLIP_TX_BYTE_READY (\<lambda>p st. (st, 1)) 1 1 (fst (spool (slip_taken (\<lambda>p st. (st, 1))) k st))
        = (case ((s\<lparr>sl_tx_ptr := 2, sl_encodePos := word_of_nat (Suc 3), sl_tx_len := 0\<rparr>,
                  (\<lambda>p. replicate 3 0 @ [0x41, 0xdb, 0xc0] @ replicate 29 0), ()), 1) of
             ((s, r), v) \<Rightarrow> ((s\<lparr>sl_tx_ptr := 0\<rparr>, r), [], v))
    \<and> fold (slip_hears (\<lambda>p n st. (st, p))) (END # bytes) (s, (\<lambda>p. replicate 35 0), ())
        = fst (rx_and_reset (\<lambda>p n st. (st, p)) (s\<lparr>sl_state := sl_state s OR RECEIVING, sl_decodePos := word_of_nat 3\<rparr>,
            (\<lambda>p. replicate 35 0)(sl_rx_ptr s := write_bytes 3 (map (\<lambda>c. if c = ESC then END else c) [0x41, 0xdb, 0xc0]) (replicate 35 0)), ()))"
proof -
  let ?mem = "\<lambda>p::ptr. replicate 3 0 @ [0x41, 0xdb, 0xc0] @ replicate 29 0 :: u8 list"
  have st: "sl_state s \<in> slip_states" "sl_state s AND TX_MASK = 0" "sl_state s AND RX_MASK = 0"
    by (simp_all add: s_def SLIP_INIT_def slip_states_def IDLE_def)
  have msg: "length (?mem 2) = sizeof_TOS_Msg" "3 \<le> DATA_LENGTH" "[0x41, 0xdb, 0xc0] = data_of (?mem 2) 3"
    by (simp_all add: sizeof_TOS_Msg_def DATA_LENGTH_def data_of_def)
  show ?thesis
    using slip_roundtrip [where mem = ?mem and rmem = "\<lambda>p. replicate 35 0" and sent = "\<lambda>p st. (st, 1)" and upcall = "\<lambda>p n st. (st, p)"
        and w = "()" and v = "()" and ok = 1 and success = 1, OF st(1,2) msg st(1,3)]
    by blast
qed

section \<open>A stream of frames\<close>

text \<open>A layer above that keeps the data of the packets it is shown and leaves the buffer to the driver.\<close>

definition keep_data :: "ptr \<Rightarrow> u16 \<Rightarrow> u8 list list slip_state \<Rightarrow> u8 list list slip_state \<times> ptr" where
  "keep_data p n st = (case st of (s, mem, w) \<Rightarrow> ((s, mem, w @ [data_of (mem p) (unat n)]), p))"

lemma data_of_written:
  assumes "length m = sizeof_TOS_Msg" and "length cs \<le> DATA_LENGTH"
  shows "data_of (write_bytes 3 cs m) (length cs) = cs"
  using assms by (intro nth_equalityI) (simp_all add: data_of_def sizeof_TOS_Msg_def DATA_LENGTH_def nth_write_bytes)

lemma length_count: "n \<le> DATA_LENGTH \<Longrightarrow> unat (scast (word_of_nat n :: u8) :: u16) = n"
  using size_val_small [of n] by (simp add: size_val_def DATA_LENGTH_def)

lemma rx_and_reset_keep:
  assumes "n \<le> DATA_LENGTH" and "sl_decodePos s = word_of_nat n" and "sl_rx_ptr s \<noteq> 0"
  shows "fst (rx_and_reset keep_data (s, mem, w))
    = (s\<lparr>sl_state := sl_state s AND NOT RX_MASK\<rparr>, mem, w @ [data_of (mem (sl_rx_ptr s)) n])"
  using assms by (simp add: rx_and_reset_def keep_data_def length_count)

lemma slip_receives_frames:
  assumes "sl_state s \<in> slip_states" and "sl_state s AND RX_MASK = 0" and "sl_rx_ptr s \<noteq> 0"
    and "length (mem (sl_rx_ptr s)) = sizeof_TOS_Msg" and "\<forall>cs \<in> set packets. length cs \<le> DATA_LENGTH"
  shows "\<exists>n m. fold (slip_hears keep_data) (concat (map slip_frame packets)) (s, mem, w)
    = (s\<lparr>sl_decodePos := n\<rparr>, mem(sl_rx_ptr s := m), w @ packets)"
  using assms
proof (induction packets arbitrary: s mem w)
  case Nil
  have "s\<lparr>sl_decodePos := sl_decodePos s\<rparr> = s" "mem(sl_rx_ptr s := mem (sl_rx_ptr s)) = mem" by simp_all
  then show ?case by (metis append_Nil2 concat.simps(1) fold_simps(1) list.map_disc_iff)
next
  case (Cons cs packets)
  let ?s = "s\<lparr>sl_decodePos := word_of_nat (length cs)\<rparr>" and ?mem = "mem(sl_rx_ptr s := write_bytes 3 cs (mem (sl_rx_ptr s)))"
  have "fold (slip_hears keep_data) (slip_frame cs) (s, mem, w) = (?s, ?mem, w @ [cs])"
    using slip_hears_frame [where s = s and cs = cs and upcall = keep_data and mem = mem and w = w] Cons.prems rx_bits(9) [OF Cons.prems(1)]
      rx_and_reset_keep [where n = "length cs" and s = "s\<lparr>sl_state := sl_state s OR RECEIVING, sl_decodePos := word_of_nat (length cs)\<rparr>"
        and mem = ?mem and w = w]
    by (simp add: slip_show_def data_of_written)
  moreover have "\<exists>n m. fold (slip_hears keep_data) (concat (map slip_frame packets)) (?s, ?mem, w @ [cs])
      = (?s\<lparr>sl_decodePos := n\<rparr>, ?mem(sl_rx_ptr ?s := m), (w @ [cs]) @ packets)"
    by (rule Cons.IH) (use Cons.prems in simp_all)
  then obtain n m where "fold (slip_hears keep_data) (concat (map slip_frame packets)) (?s, ?mem, w @ [cs])
      = (?s\<lparr>sl_decodePos := n\<rparr>, ?mem(sl_rx_ptr ?s := m), (w @ [cs]) @ packets)" by blast
  ultimately show ?case by (intro exI [of _ n] exI [of _ m]) (simp add: fun_eq_iff)
qed

text \<open>C27: An idle receiver takes every stream of RFC 1055 frames apart into the packets that were framed,
  each of at most 30 bytes, and is idle again; the transmitting direction is as it was.\<close>

theorem slip_receives_rfc1055:
  assumes "sl_state s \<in> slip_states" and "sl_state s AND RX_MASK = 0" and "sl_rx_ptr s \<noteq> 0"
    and "length (mem (sl_rx_ptr s)) = sizeof_TOS_Msg" and "\<forall>cs \<in> set packets. length cs \<le> DATA_LENGTH"
  shows "\<exists>n m. fold (slip_hears keep_data) (concat (map slip_frame packets)) (s, mem, w)
    = (s\<lparr>sl_decodePos := n\<rparr>, mem(sl_rx_ptr s := m), w @ packets)"
  by (rule slip_receives_frames [where s = s and mem = mem, OF assms])

definition slip_fresh :: slip where
  "slip_fresh = \<lparr>sl_state = 0, sl_tx_ptr = 0, sl_rx_ptr = 1, sl_tx_len = 0, sl_encodePos = 0, sl_decodePos = 0\<rparr>"

lemma slip_receives_rfc1055_witness:
  "\<exists>n m. fold (slip_hears keep_data) (concat (map slip_frame [[0x41, 0xc0], [], [0xdb]])) (slip_fresh, (\<lambda>p. replicate 35 0), [])
    = (slip_fresh\<lparr>sl_decodePos := n\<rparr>, (\<lambda>p. replicate 35 0)(sl_rx_ptr slip_fresh := m), [] @ [[0x41, 0xc0], [], [0xdb]])"
  by (rule slip_receives_rfc1055) (simp_all add: slip_fresh_def slip_states_def sizeof_TOS_Msg_def DATA_LENGTH_def)

lemma no_END_in_stuffed: "END \<notin> set (concat (map stuff cs))"
  by (auto simp: stuff_def slip_consts split: if_splits)

lemma slip_idle_skips:
  "sl_state s AND RX_MASK = 0 \<Longrightarrow> END \<notin> set ds \<Longrightarrow> fold (slip_hears upcall) ds (s, mem, w) = (s, mem, w)"
  by (induction ds) (auto simp: slip_hears_def SLIP_RX_BYTE_READY_def)

text \<open>A receiver that comes in on the END that closes a packet, after a lost byte, an error or at start,
  takes it for an opening one and never finds the frames again: of every packet that follows, however
  many, it shows an empty one and drops the data.\<close>

theorem slip_never_resyncs:
  assumes "sl_state s \<in> slip_states" and "sl_state s AND RX_MASK = 0" and "sl_rx_ptr s \<noteq> 0"
  shows "fold (slip_hears keep_data) (END # concat (map slip_frame packets)) (s, mem, w)
    = (s\<lparr>sl_state := sl_state s OR RECEIVING, sl_decodePos := 0\<rparr>, mem, w @ replicate (length packets) [])"
proof -
  let ?s = "s\<lparr>sl_state := sl_state s OR RECEIVING, sl_decodePos := 0\<rparr>"
  have open_frame: "slip_hears keep_data END (s\<lparr>sl_decodePos := 0\<rparr>, mem, w) = (?s, mem, w)" for mem w
    using assms by (simp add: slip_hears_def SLIP_RX_BYTE_READY_def)
  have empty: "slip_hears keep_data END (?s, mem, w) = (s\<lparr>sl_decodePos := 0\<rparr>, mem, w @ [[]])" for mem w
  proof -
    have "slip_hears keep_data END (?s, mem, w) = fst (rx_and_reset keep_data (?s, mem, w))"
      using rx_bits(1) [OF assms(1,2)] by (simp add: slip_hears_def SLIP_RX_BYTE_READY_def) (simp add: slip_consts)
    then show ?thesis
      using rx_and_reset_keep [where n = 0 and s = ?s and mem = mem and w = w] assms rx_bits(9) [OF assms(1,2)]
      by (simp add: data_of_def)
  qed
  have frame: "fold (slip_hears keep_data) (slip_frame cs) (?s, mem, w) = (?s, mem, w @ [[]])" for cs mem w
    using slip_idle_skips [OF _ no_END_in_stuffed, where s = "s\<lparr>sl_decodePos := 0\<rparr>" and mem = mem and upcall = keep_data] assms
    by (simp add: slip_frame_def empty open_frame)
  have "fold (slip_hears keep_data) (concat (map slip_frame packets)) (?s, mem, w)
      = (?s, mem, w @ replicate (length packets) [])" for mem w
    by (induction packets arbitrary: w) (simp_all add: frame replicate_append_same [symmetric])
  moreover have "slip_hears keep_data END (s, mem, w) = (?s, mem, w)"
    using assms by (simp add: slip_hears_def SLIP_RX_BYTE_READY_def)
  ultimately show ?thesis by simp
qed

lemma slip_never_resyncs_witness:
  "fold (slip_hears keep_data) (END # concat (map slip_frame [[0x41], [0x42, 0x43]])) (slip_fresh, (\<lambda>p. replicate 35 0), [])
    = (slip_fresh\<lparr>sl_state := sl_state slip_fresh OR RECEIVING, sl_decodePos := 0\<rparr>, (\<lambda>p. replicate 35 0),
       [] @ replicate (length [[0x41], [0x42, 0x43 :: u8]]) [])"
  by (rule slip_never_resyncs) (simp_all add: slip_fresh_def slip_states_def)

text \<open>An error on the receiving side ends a transmission: the bytes not yet handed down never are, the
  report of the layer below changes nothing, and the event that tells the sender never comes; the
  comment says the two directions are managed separately.\<close>

theorem slip_rx_error_stops_tx:
  assumes "err \<noteq> 0"
  shows "\<exists>s'. fst (SLIP_RX_BYTE_READY upcall d err (s, mem, w)) = (s', mem, w)
    \<and> sl_rx_ptr s' = sl_rx_ptr s
    \<and> spool (slip_taken sent) k (s', mem, w) = ((if k = 0 then s' else s'\<lparr>sl_encodePos := 0\<rparr>, mem, w), [])"
proof -
  let ?s = "s\<lparr>sl_state := IDLE\<rparr>"
  have step: "slip_taken sent (?s\<lparr>sl_encodePos := e\<rparr>, mem, w) = ((?s\<lparr>sl_encodePos := 0\<rparr>, mem, w), [])" for e
    by (simp add: slip_taken_def SLIP_TX_BYTE_READY_def serial_bytes_def IDLE_def)
  have rest: "spool (slip_taken sent) k (?s\<lparr>sl_encodePos := 0\<rparr>, mem, w) = ((?s\<lparr>sl_encodePos := 0\<rparr>, mem, w), [])" for k
    by (induction k) (simp_all only: spool.simps step prod.case append_Nil)
  have "spool (slip_taken sent) k (?s, mem, w) = ((if k = 0 then ?s else ?s\<lparr>sl_encodePos := 0\<rparr>, mem, w), [])"
    using step [of "sl_encodePos s"] rest by (cases k) simp_all
  then show ?thesis using assms by (intro exI [of _ ?s]) (simp add: SLIP_RX_BYTE_READY_def)
qed

lemma slip_rx_error_stops_tx_witness:
  "\<exists>s'. fst (SLIP_RX_BYTE_READY (\<lambda>p n st. (st, p)) 0 1 (slip_fresh\<lparr>sl_state := 1, sl_tx_ptr := 2, sl_tx_len := 9\<rparr>, (\<lambda>p. replicate 35 0), ())) = (s', (\<lambda>p. replicate 35 0), ())
    \<and> sl_rx_ptr s' = sl_rx_ptr (slip_fresh\<lparr>sl_state := 1, sl_tx_ptr := 2, sl_tx_len := 9\<rparr>)
    \<and> spool (slip_taken (\<lambda>p st. (st, 1))) 12 (s', (\<lambda>p. replicate 35 0), ())
        = ((if (12 :: nat) = 0 then s' else s'\<lparr>sl_encodePos := 0\<rparr>, (\<lambda>p. replicate 35 0), ()), [])"
  by (rule slip_rx_error_stops_tx) simp

section \<open>Well-formed states\<close>







lemma zero_data_length [simp]: "length (zero_data m) = length m"
  by (simp add: zero_data_def)



















section \<open>Both directions\<close>

text \<open>What a report and a byte do, as functions of the fields they depend on.\<close>

definition tx_effect :: "u8 \<Rightarrow> u8 \<Rightarrow> u8 \<Rightarrow> u8 \<Rightarrow> u8 \<times> u8 \<times> u8" where
  "tx_effect c len x e =
     (if e = len then (x, e + 1, END)
      else if x AND ESCAPING_TX \<noteq> 0 then (x AND NOT ESCAPING_TX, e + 1, if c = ESC \<or> c = END then ESC_END else c)
      else if c = ESC \<or> c = END then (x OR ESCAPING_TX, e, ESC) else (x, e + 1, c))"

definition rx_effect :: "u8 \<Rightarrow> u8 \<Rightarrow> u8 \<Rightarrow> u8 \<times> (u8 \<times> u8 option) \<times> bool" where
  "rx_effect d x n =
     (if x AND RX_MASK = 0 then (if d \<noteq> END then (x, (n, None), False) else (x OR RECEIVING, (0, None), False))
      else if x AND RX_MASK = RECEIVING then
        (if d = END then (x AND NOT RX_MASK, (n, None), True)
         else if d = ESC then (x OR ESCAPING_RX, (n, None), False)
         else if sint n < int DATA_LENGTH then (x, (n + 1, Some d), False)
         else (x AND NOT RX_MASK, (n, None), True))
      else if x AND ESCAPING_RX \<noteq> 0 then
        (let x = x AND (NOT RX_MASK OR RECEIVING)
         in if sint n < int DATA_LENGTH then (x, (n + 1, Some (if d = ESC_END then END else if d = ESC_ESC then ESC else d)), False)
            else (x AND NOT RX_MASK, (n, None), True))
      else (IDLE, (n, None), False))"

definition slip_busy :: "'w slip_state \<Rightarrow> bool" where
  "slip_busy st \<longleftrightarrow> (case st of (s, mem, w) \<Rightarrow> sl_state s \<in> slip_states \<and> sl_state s AND TX_MASK \<noteq> 0
     \<and> \<not> sint (sl_tx_len s) < sint (sl_encodePos s) \<and> sl_rx_ptr s \<noteq> 0 \<and> sl_tx_ptr s \<noteq> sl_rx_ptr s)"

lemma slip_taken_effect:
  assumes "slip_busy (s, mem, w)"
  shows "slip_taken sent (s, mem, w)
    = (case tx_effect (mem (sl_tx_ptr s) ! nat (3 + sint (sl_encodePos s))) (sl_tx_len s) (sl_state s) (sl_encodePos s) of
         (x, e, c) \<Rightarrow> ((s\<lparr>sl_state := x, sl_encodePos := e\<rparr>, mem, w), [c]))"
  using assms unfolding slip_busy_def slip_taken_def SLIP_TX_BYTE_READY_def tx_effect_def
  by (auto simp: serial_bytes_def Let_def)

lemma slip_hears_effect:
  assumes "sl_rx_ptr s \<noteq> 0"
  shows "slip_hears keep_data d (s, mem, w) = (case rx_effect d (sl_state s) (sl_decodePos s) of
     (x, (n, c), shown) \<Rightarrow>
       (s\<lparr>sl_state := x, sl_decodePos := n\<rparr>,
        (case c of None \<Rightarrow> mem
         | Some c \<Rightarrow> mem(sl_rx_ptr s := (mem (sl_rx_ptr s))[nat (3 + sint (sl_decodePos s)) := c])),
        if shown then w @ [data_of (mem (sl_rx_ptr s)) (unat (scast (sl_decodePos s) :: u16))] else w))"
  using assms unfolding slip_hears_def SLIP_RX_BYTE_READY_def rx_effect_def prod.case
  by (simp add: rx_and_reset_def keep_data_def Let_def)

lemma effects_commute:
  assumes "x \<in> slip_states" "x AND TX_MASK \<noteq> 0"
  shows "fst (tx_effect c len (fst (rx_effect d x n)) e) = fst (rx_effect d (fst (tx_effect c len x e)) n)"
    and "snd (tx_effect c len (fst (rx_effect d x n)) e) = snd (tx_effect c len x e)"
    and "snd (rx_effect d (fst (tx_effect c len x e)) n) = snd (rx_effect d x n)"
    and "fst (rx_effect d x n) \<in> slip_states" "fst (rx_effect d x n) AND TX_MASK = x AND TX_MASK"
proof -
  have x: "x = 1 \<or> x = 3 \<or> x = 5 \<or> x = 7 \<or> x = 13 \<or> x = 15"
    using assms by (cases rule: slip_state_cases) auto
  note defs = tx_effect_def rx_effect_def Let_def
  show "fst (tx_effect c len (fst (rx_effect d x n)) e) = fst (rx_effect d (fst (tx_effect c len x e)) n)"
    using x unfolding defs by (elim disjE) (simp_all add: slip_consts)
  show "snd (tx_effect c len (fst (rx_effect d x n)) e) = snd (tx_effect c len x e)"
    using x unfolding defs by (elim disjE) (simp_all add: slip_consts)
  show "snd (rx_effect d (fst (tx_effect c len x e)) n) = snd (rx_effect d x n)"
    using x unfolding defs by (elim disjE) (simp_all add: slip_consts)
  show "fst (rx_effect d x n) \<in> slip_states" "fst (rx_effect d x n) AND TX_MASK = x AND TX_MASK"
    using x unfolding defs by (elim disjE; simp add: slip_consts slip_states_def)+
qed

interpretation slip_sides: two_sides "slip_taken sent" "slip_hears keep_data" slip_busy for sent
proof
  fix st :: "u8 list list slip_state" and d
  assume busy: "slip_busy st"
  obtain s mem w where st: "st = (s, mem, w)" by (cases st)
  have s: "sl_state s \<in> slip_states" "sl_state s AND TX_MASK \<noteq> 0" "sl_rx_ptr s \<noteq> 0" "sl_tx_ptr s \<noteq> sl_rx_ptr s"
    using busy by (simp_all add: slip_busy_def st)
  let ?c = "mem (sl_tx_ptr s) ! nat (3 + sint (sl_encodePos s))"
  note commute = effects_commute [OF s(1,2)]
  show "slip_busy (slip_hears keep_data d st)"
    unfolding st slip_hears_effect [OF s(3)]
    using busy commute(4,5) [of d "sl_decodePos s"] by (simp add: slip_busy_def st case_prod_beta)
  then have "slip_busy (s\<lparr>sl_state := fst (rx_effect d (sl_state s) (sl_decodePos s)), sl_decodePos := n\<rparr>, mem', w')" for n mem' w'
    unfolding st slip_hears_effect [OF s(3)] by (simp add: slip_busy_def case_prod_beta)
  note taken = slip_taken_effect [OF this]
  show "slip_taken sent (slip_hears keep_data d st)
      = (slip_hears keep_data d (fst (slip_taken sent st)), snd (slip_taken sent st))"
    using s(3,4) commute(1-3) [where c = ?c and len = "sl_tx_len s" and d = d and n = "sl_decodePos s" and e = "sl_encodePos s"]
    unfolding st slip_hears_effect [OF s(3)] slip_taken_effect [OF busy [unfolded st]] case_prod_beta taken
    by (simp add: slip_hears_effect case_prod_beta split: option.split)
qed

lemma slip_taken_one: "length (snd (slip_taken sent st)) \<le> 1"
  by (cases st) (auto simp: slip_taken_def SLIP_TX_BYTE_READY_def serial_bytes_def Let_def split: prod.splits)

lemma slip_taken_some:
  assumes "snd (slip_taken sent (s, mem, w)) \<noteq> []" and "sl_state s \<in> slip_states" "sl_rx_ptr s \<noteq> 0" "sl_tx_ptr s \<noteq> sl_rx_ptr s"
  shows "slip_busy (s, mem, w)"
  using assms by (auto simp: slip_busy_def slip_taken_def SLIP_TX_BYTE_READY_def serial_bytes_def split: prod.splits if_splits)

lemma tx_effect_states: "x \<in> slip_states \<Longrightarrow> x AND TX_MASK \<noteq> 0 \<Longrightarrow> fst (tx_effect c len x e) \<in> slip_states"
  by (cases rule: slip_state_cases, assumption) (simp_all add: tx_effect_def slip_consts slip_states_def)

text \<open>The driver has something to send as long as every report makes it hand down a byte.\<close>

lemma slip_busy_for:
  "length (snd (spool (slip_taken sent) n (s, mem, w))) = n \<Longrightarrow> sl_state s \<in> slip_states \<Longrightarrow> sl_rx_ptr s \<noteq> 0 \<Longrightarrow>
   sl_tx_ptr s \<noteq> sl_rx_ptr s \<Longrightarrow> busy_for (slip_taken sent) slip_busy n (s, mem, w)"
proof (induction n arbitrary: s mem w)
  case (Suc n)
  obtain st bs where st: "slip_taken sent (s, mem, w) = (st, bs)" by (metis surj_pair)
  have rest: "length (snd (spool (slip_taken sent) n st)) \<le> n" for n st
  proof (induction n arbitrary: st)
    case (Suc n)
    show ?case using Suc.IH [of "fst (slip_taken sent st)"] slip_taken_one [of sent st] by (simp add: case_prod_beta)
  qed simp
  have "length bs \<le> 1" using slip_taken_one [of sent "(s, mem, w)"] st by simp
  moreover have "length bs + length (snd (spool (slip_taken sent) n st)) = Suc n" using Suc.prems(1) st by (simp add: case_prod_beta)
  ultimately have one: "bs \<noteq> []" "length (snd (spool (slip_taken sent) n st)) = n" using rest [of n st] by auto
  have busy: "slip_busy (s, mem, w)" using slip_taken_some [OF _ Suc.prems(2-4), of sent mem w] st one(1) by simp
  let ?t = "tx_effect (mem (sl_tx_ptr s) ! nat (3 + sint (sl_encodePos s))) (sl_tx_len s) (sl_state s) (sl_encodePos s)"
  have st': "st = (s\<lparr>sl_state := fst ?t, sl_encodePos := fst (snd ?t)\<rparr>, mem, w)"
    using slip_taken_effect [OF busy, of sent] st by (simp add: case_prod_beta)
  have "sl_state s AND TX_MASK \<noteq> 0" using busy by (simp add: slip_busy_def)
  then have "busy_for (slip_taken sent) slip_busy n st"
    using Suc.IH [of "s\<lparr>sl_state := fst ?t, sl_encodePos := fst (snd ?t)\<rparr>" mem w] one(2) Suc.prems tx_effect_states [OF Suc.prems(2)]
    by (simp add: st')
  then show ?case using busy st by simp
qed simp

text \<open>C12: While a message of up to 30 bytes is being sent, a stream of frames may arrive, its bytes and the
  reports of the sending side in any order whatever. What goes out is the message's frame, byte by
  byte, and what comes in are the frames' packets, each shown once, as if the other direction were
  silent.\<close>

theorem slip_full_duplex:
  assumes s: "sl_state s = IDLE" "sl_rx_ptr s \<noteq> 0" "sl_rx_ptr s \<noteq> msg" "length (mem (sl_rx_ptr s)) = sizeof_TOS_Msg"
    and msg: "length (mem msg) = sizeof_TOS_Msg" "n \<le> DATA_LENGTH"
    and body: "body = concat (map stuff (map esc_to_end (data_of (mem msg) n)))"
    and packets: "\<forall>cs \<in> set packets. length cs \<le> DATA_LENGTH"
    and order: "es \<in> shuffles (replicate (length body + 1) Taken) (map Heard (concat (map slip_frame packets)))"
  shows "\<exists>k m. both_ways (slip_taken sent) (slip_hears keep_data) es (fst (SLIP_TX_PACKET 1 msg (word_of_nat n) (s, mem, w)))
    = ((s\<lparr>sl_state := TRANSMITTING, sl_tx_ptr := msg, sl_tx_len := word_of_nat n, sl_encodePos := word_of_nat (Suc n), sl_decodePos := k\<rparr>,
        mem(sl_rx_ptr s := m), w @ packets), body @ [END])"
proof -
  have x: "sl_state s \<in> slip_states" "sl_state s AND TX_MASK = 0" using s(1) by (simp_all add: slip_states_def IDLE_def)
  define s1 where "s1 = s\<lparr>sl_state := sl_state s OR TRANSMITTING, sl_tx_ptr := msg, sl_tx_len := word_of_nat n, sl_encodePos := 0\<rparr>"
  note tx = slip_taken_message [where mem = mem, OF x msg body, folded s1_def]
  have s1: "sl_state s1 \<in> slip_states" "sl_rx_ptr s1 \<noteq> 0" "sl_tx_ptr s1 \<noteq> sl_rx_ptr s1"
    using s slip_states_closed(1) [OF x] by (simp_all add: s1_def)
  have len: "length (snd (spool (slip_taken sent) (length body + 1) (s1, mem, w))) = length body + 1"
    unfolding tx(2) by simp
  note busy = slip_busy_for [OF len s1]
  let ?s2 = "s1\<lparr>sl_encodePos := word_of_nat (Suc n)\<rparr>"
  have "sl_state ?s2 \<in> slip_states" "sl_state ?s2 AND RX_MASK = 0" "sl_rx_ptr ?s2 \<noteq> 0" "length (mem (sl_rx_ptr ?s2)) = sizeof_TOS_Msg"
    using s s1 by (simp_all add: s1_def IDLE_def TRANSMITTING_def RX_MASK_def)
  from slip_receives_frames [where s = ?s2 and mem = mem and w = w, OF this packets] obtain k m where
    "fold (slip_hears keep_data) (concat (map slip_frame packets)) (?s2, mem, w) = (?s2\<lparr>sl_decodePos := k\<rparr>, mem(sl_rx_ptr ?s2 := m), w @ packets)"
    by blast
  then have "both_ways (slip_taken sent) (slip_hears keep_data) es (fst (SLIP_TX_PACKET 1 msg (word_of_nat n) (s, mem, w)))
    = ((?s2\<lparr>sl_decodePos := k\<rparr>, mem(sl_rx_ptr ?s2 := m), w @ packets), body @ [END])"
    using slip_sides.any_order [OF order busy] unfolding tx(1) fst_conv tx(2) snd_conv by simp
  then show ?thesis using s(1) by (intro exI [of _ k] exI [of _ m]) (simp add: s1_def IDLE_def)
qed

lemma slip_full_duplex_witness:
  "\<exists>k m. both_ways (slip_taken (\<lambda>p st. (st, 1))) (slip_hears keep_data)
      [Heard END, Taken, Heard 0x41, Heard END] (fst (SLIP_TX_PACKET 1 2 (word_of_nat 0) (slip_fresh, (\<lambda>p. replicate 35 0), [])))
    = ((slip_fresh\<lparr>sl_state := TRANSMITTING, sl_tx_ptr := 2, sl_tx_len := word_of_nat 0, sl_encodePos := word_of_nat (Suc 0), sl_decodePos := k\<rparr>,
        (\<lambda>p. replicate 35 0)(sl_rx_ptr slip_fresh := m), [] @ [[0x41]]), [] @ [END])"
  by (rule slip_full_duplex)
    (simp_all add: slip_fresh_def IDLE_def sizeof_TOS_Msg_def DATA_LENGTH_def data_of_def slip_frame_def stuff_def ESC_def END_def
      Cons_in_shuffles_iff)

end
