(* ===== verification/Inet.thy ===== *)
theory Inet
  imports PacketLink
begin

text \<open>
  What the internet components share, \<open>aps_proj/system/include/tos-ipv4.h\<close>: byte order, the headers as
  offsets into the bytes of a message, and the checksum of RFC 1071, which \<open>IPV4_SIMPLE.c\<close>,
  \<open>UDP_IPV4_MOD.c\<close> and \<open>SLIP_BRIDGE.c\<close> each have a copy of.

  The lemmas: the checksum as a residue, so that a header with its checksum written in sums to
  zero, and one with a changed byte does not.
\<close>

section \<open>Byte order\<close>

definition bswap16 :: "u16 \<Rightarrow> u16" where
  "bswap16 x = (drop_bit 8 x AND 0xff) OR push_bit 8 (x AND 0xff)"

definition bswap32 :: "u32 \<Rightarrow> u32" where
  "bswap32 x = drop_bit 24 (x AND 0xff000000) OR drop_bit 8 (x AND 0x00ff0000)
     OR push_bit 8 (x AND 0x0000ff00) OR push_bit 24 (x AND 0x000000ff)"

section \<open>Headers\<close>

definition sizeof_toshdr :: nat where "sizeof_toshdr = 3"
definition sizeof_ipv4hdr :: nat where "sizeof_ipv4hdr = 20"
definition sizeof_udphdr :: nat where "sizeof_udphdr = 8"

definition MAX_TTL :: u8 where "MAX_TTL = 64"
definition UDP_PROTOCOL_ID :: u8 where "UDP_PROTOCOL_ID = 17"
definition IPV4_BCAST_ADDR :: u32 where "IPV4_BCAST_ADDR = 0xffffffff"
definition IPV4_BOOT_ADDR :: u32 where "IPV4_BOOT_ADDR = 0"

text \<open>A field, at its offset from the start \<open>b\<close> of its header. The structures are packed on the mote.\<close>

definition get8 :: "nat \<Rightarrow> u8 list \<Rightarrow> u8" where "get8 i m = m ! i"
definition get16 :: "nat \<Rightarrow> u8 list \<Rightarrow> u16" where "get16 i m = word16 (read_bytes i 2 m)"
definition get32 :: "nat \<Rightarrow> u8 list \<Rightarrow> u32" where "get32 i m = word32 (read_bytes i 4 m)"
definition put8 :: "nat \<Rightarrow> u8 \<Rightarrow> u8 list \<Rightarrow> u8 list" where "put8 i v m = write_bytes i [v] m"
definition put16 :: "nat \<Rightarrow> u16 \<Rightarrow> u8 list \<Rightarrow> u8 list" where "put16 i v m = write_bytes i (bytes16 v) m"
definition put32 :: "nat \<Rightarrow> u32 \<Rightarrow> u8 list \<Rightarrow> u8 list" where "put32 i v m = write_bytes i (bytes32 v) m"

definition ip_hl_version :: "nat \<Rightarrow> nat" where "ip_hl_version b = b"
definition ip_tos :: "nat \<Rightarrow> nat" where "ip_tos b = b + 1"
definition ip_len :: "nat \<Rightarrow> nat" where "ip_len b = b + 2"
definition ip_id :: "nat \<Rightarrow> nat" where "ip_id b = b + 4"
definition ip_off :: "nat \<Rightarrow> nat" where "ip_off b = b + 6"
definition ip_ttl :: "nat \<Rightarrow> nat" where "ip_ttl b = b + 8"
definition ip_protocol :: "nat \<Rightarrow> nat" where "ip_protocol b = b + 9"
definition ip_check :: "nat \<Rightarrow> nat" where "ip_check b = b + 10"
definition ip_src_addr :: "nat \<Rightarrow> nat" where "ip_src_addr b = b + 12"
definition ip_dest_addr :: "nat \<Rightarrow> nat" where "ip_dest_addr b = b + 16"

definition udp_src_port :: "nat \<Rightarrow> nat" where "udp_src_port b = b"
definition udp_dst_port :: "nat \<Rightarrow> nat" where "udp_dst_port b = b + 2"
definition udp_len :: "nat \<Rightarrow> nat" where "udp_len b = b + 4"
definition udp_check :: "nat \<Rightarrow> nat" where "udp_check b = b + 6"

named_theorems header_offsets \<open>the offsets of the header fields\<close>

lemmas [header_offsets] = ip_hl_version_def ip_tos_def ip_len_def ip_id_def ip_off_def ip_ttl_def ip_protocol_def ip_check_def
  ip_src_addr_def ip_dest_addr_def udp_src_port_def udp_dst_port_def udp_len_def udp_check_def

section \<open>The checksum\<close>

text \<open>The sum of the 16-bit words of some bytes, with the byte left over.\<close>

fun sum_words :: "u8 list \<Rightarrow> u32 \<Rightarrow> u32" where
  "sum_words (a # b # data) s = sum_words data (s + ucast (word16 [a, b]))"
| "sum_words [a] s = s + ucast a"
| "sum_words [] s = s"

lemma low_high: "unat ((s :: u32) AND 0xffff) = unat s mod 65536" "unat (drop_bit 16 (s :: u32)) = unat s div 65536"
proof -
  have "s AND 0xffff = take_bit 16 s" by (simp add: take_bit_eq_mask mask_eq_exp_minus_1)
  then show "unat (s AND 0xffff) = unat s mod 65536" by (simp only: unsigned_take_bit_eq) (simp add: take_bit_eq_mod)
  show "unat (drop_bit 16 s) = unat s div 65536" proof -
    have "take_bit 32 (unat s) = unat s" using unsigned_less [of s] by (simp add: take_bit_nat_eq_self_iff)
    then show ?thesis by (simp only: unsigned_drop_bit_eq) (simp add: drop_bit_eq_div)
  qed
qed

lemma carry_sum: "unat ((s AND 0xffff) + drop_bit 16 (s :: u32)) = unat s mod 65536 + unat s div 65536"
proof -
  have "unat s < 4294967296" using unsigned_less [of s] by simp
  then have "unat s mod 65536 + unat s div 65536 < 4294967296" by linarith
  then show ?thesis by (simp add: unat_word_ariths low_high)
qed

function fold_carries :: "u32 \<Rightarrow> u32" where
  "fold_carries s = (if drop_bit 16 s \<noteq> 0 then fold_carries ((s AND 0xffff) + drop_bit 16 s) else s)"
  by auto

termination
proof (relation "measure unat")
  fix s :: u32
  assume "drop_bit 16 s \<noteq> 0"
  then have "unat s div 65536 \<noteq> 0" by (simp add: low_high(2) [symmetric] unat_eq_zero)
  moreover have "unat s mod 65536 + unat s div 65536 < unat s" if "unat s div 65536 \<noteq> 0"
    using that div_mult_mod_eq [of "unat s" 65536] by linarith
  ultimately show "((s AND 0xffff) + drop_bit 16 s, s) \<in> measure unat"
    unfolding in_measure carry_sum by blast
qed simp

declare fold_carries.simps [simp del]

definition checksum_of :: "u8 list \<Rightarrow> u16" where
  "checksum_of data = ucast (NOT (fold_carries (sum_words data 0)))"

section \<open>The checksum as a residue\<close>

text \<open>Adding the carries back in keeps the sum modulo 65535.\<close>

lemma fold_carries_residue: "unat (fold_carries s) = (if s = 0 then 0 else (unat s - 1) mod 65535 + 1)"
proof (induction s rule: fold_carries.induct)
  case (1 s)
  have small: "unat s < 4294967296" using unsigned_less [of s] by simp
  show ?case
  proof (cases "drop_bit 16 s = 0")
    case True
    then have "unat s div 65536 = 0" by (simp add: low_high(2) [symmetric])
    then have "unat s < 65536" by simp
    moreover have "0 < unat s" if "s \<noteq> 0" using that by (simp add: unat_gt_0)
    ultimately show ?thesis using True
      by (subst fold_carries.simps) auto
  next
    case False
    define q r where "q = unat s div 65536" and "r = unat s mod 65536"
    have q: "unat s = 65536 * q + r" by (simp add: q_def r_def)
    have "0 < q" using False by (simp add: q_def low_high(2) [symmetric] unat_gt_0)
    note qr = q this
    have sum: "unat ((s AND 0xffff) + drop_bit 16 s) = r + q" by (simp add: carry_sum q_def r_def)
    then have "(s AND 0xffff) + drop_bit 16 s \<noteq> 0" using qr(2) by (metis add_is_0 less_numeral_extra(3) unsigned_0)
    then have "unat (fold_carries s) = (r + q - 1) mod 65535 + 1"
      using 1 [OF False] sum False by (subst fold_carries.simps) simp
    moreover have "unat s - 1 = (r + q - 1) + 65535 * q" using qr by simp
    moreover have "s \<noteq> 0" using False by auto
    ultimately show ?thesis by simp
  qed
qed

fun words_nat :: "u8 list \<Rightarrow> nat" where
  "words_nat (a # b # data) = unat a + 256 * unat b + words_nat data"
| "words_nat [a] = unat a"
| "words_nat [] = 0"

lemma unat_u8: "unat (a :: u8) < 256"
  using unsigned_less [of a] by simp

lemma unat_word16: "unat (word16 [a, b]) = unat a + 256 * unat b"
proof -
  have bs: "unat a < 256" "unat b < 256" by (rule unat_u8)+
  have "word16 [a, b] = ucast a + push_bit 8 (ucast b)"
  proof -
    have "\<not> bit a n" if "8 \<le> n" for n using that bit_imp_le_length [of a n] by auto
    then show ?thesis
      unfolding word16_def by (simp, subst disjunctive_add_eq_or) (auto intro!: bit_word_eqI simp: bit_simps)
  qed
  moreover have "push_bit 8 (ucast b :: u16) = 256 * ucast b" by (simp add: push_bit_eq_mult mult.commute)
  moreover have "unat (ucast a :: u16) = unat a" "unat (ucast b :: u16) = unat b"
    using bs by (simp_all add: unsigned_ucast_eq take_bit_nat_eq_self)
  ultimately show ?thesis using bs by (simp add: unat_word_ariths)
qed

lemma words_nat_le: "words_nat data \<le> 65535 * length data"
proof (induction data rule: words_nat.induct)
  case (1 a b data)
  then show ?case using unat_u8 [of a] unat_u8 [of b] by simp
next
  case (2 a)
  then show ?case using unat_u8 [of a] by simp
qed simp

lemma unat_ucast32: "unat (ucast (a :: u8) :: u32) = unat a" "unat (ucast (b :: u16) :: u32) = unat b"
proof -
  have "unat a < 256" by (rule unat_u8)
  moreover have "unat b < 65536" using unsigned_less [of b] by simp
  ultimately show "unat (ucast a :: u32) = unat a" "unat (ucast b :: u32) = unat b"
    by (simp_all add: unsigned_ucast_eq take_bit_nat_eq_self)
qed

lemma unat_sum_words: "unat s + words_nat data < 4294967296 \<Longrightarrow> unat (sum_words data s) = unat s + words_nat data"
proof (induction data s rule: sum_words.induct)
  case (1 a b data s)
  have "unat (s + ucast (word16 [a, b])) = unat s + (unat a + 256 * unat b)"
    using 1(2) by (simp add: unat_word_ariths unat_word16 unat_ucast32)
  with 1 show ?case by simp
qed (simp_all add: unat_word_ariths unat_ucast32)

lemma unat_checksum_of:
  assumes "length data < 65536"
  shows "unat (checksum_of data) = (if words_nat data = 0 then 65535 else 65534 - (words_nat data - 1) mod 65535)"
proof -
  have "65535 * length data < 4294967296" using assms by simp
  then have S: "unat (sum_words data 0) = words_nat data" using words_nat_le [of data] by (simp add: unat_sum_words)
  define F where "F = fold_carries (sum_words data 0)"
  have F: "unat F = (if words_nat data = 0 then 0 else (words_nat data - 1) mod 65535 + 1)"
    unfolding F_def fold_carries_residue S by (simp add: unat_eq_zero flip: S)
  moreover have "(words_nat data - 1) mod 65535 < 65535" by simp
  ultimately have le: "unat F \<le> 65535" by (cases "words_nat data = 0") simp_all
  have "unat (ucast (NOT F) :: u16) = (4294967295 - unat F) mod 65536"
  proof -
    have "unat (NOT F) = 4294967295 - unat F"
    proof -
      have "NOT F = -1 - F" by (simp add: not_eq_complement)
      moreover have "unat (-1 - F) = unat (-1 :: u32) - unat F" by (rule unat_sub) simp
      moreover have "unat (-1 :: u32) = 4294967295" by (simp add: unsigned_minus_1_eq_mask mask_eq_exp_minus_1)
      ultimately show ?thesis by simp
    qed
    then show ?thesis by (simp add: unsigned_ucast_eq take_bit_eq_mod)
  qed
  also have "\<dots> = 65535 - unat F"   proof -
    have "4294967295 - unat F = (65535 - unat F) + 65535 * 65536" using le by simp
    then show ?thesis by (simp only: mod_mult_self1) simp
  qed
  finally show ?thesis using F by (simp add: checksum_of_def F_def [symmetric])
qed

lemma checksum_zero_iff:
  assumes "length data < 65536"
  shows "checksum_of data = 0 \<longleftrightarrow> words_nat data \<noteq> 0 \<and> 65535 dvd words_nat data"
proof -
  have "checksum_of data = 0 \<longleftrightarrow> unat (checksum_of data) = 0" by (simp add: unat_eq_zero)
  also have "\<dots> \<longleftrightarrow> words_nat data \<noteq> 0 \<and> 65535 dvd words_nat data"
  proof (cases "words_nat data")
    case (Suc m)
    have "m mod 65535 < 65535" by simp
    then have "65534 - m mod 65535 = 0 \<longleftrightarrow> Suc (m mod 65535) = 65535" by linarith
    also have "\<dots> \<longleftrightarrow> Suc m mod 65535 = 0" by (simp add: mod_Suc)
    finally show ?thesis unfolding unat_checksum_of [OF assms] using Suc by (simp add: dvd_eq_mod_eq_0)
  qed (simp add: unat_checksum_of [OF assms])
  finally show ?thesis .
qed

definition weight :: "nat \<Rightarrow> nat" where "weight k = (if even k then 1 else 256)"

lemma words_nat_update:
  "k < length data \<Longrightarrow> words_nat (data[k := x]) + unat (data ! k) * weight k = words_nat data + unat x * weight k"
proof (induction data arbitrary: k rule: words_nat.induct)
  case (1 a b data)
  consider "k = 0" | "k = 1" | j where "k = Suc (Suc j)" by (metis One_nat_def not0_implies_Suc)
  then show ?case using 1 by cases (auto simp: weight_def)
qed (auto simp: weight_def)

text \<open>A checksum field of zero, then the checksum written into it: the whole sums to zero.\<close>

lemma checksum_verifies:
  assumes "even i" and "i + 2 \<le> length data" and "length data < 65536" and "words_nat (put16 i 0 data) \<noteq> 0"
  shows "checksum_of (put16 i (checksum_of (put16 i 0 data)) data) = 0"
proof -
  define c where "c = checksum_of (put16 i 0 data)"
  have bytes: "unat (ucast c :: u8) + 256 * unat (ucast (drop_bit 8 c) :: u8) = unat c"
    using unat_word16 [of "ucast c" "ucast (drop_bit 8 c)"] word16_bytes16 [of c] by (simp add: bytes16_def)
  have two: "words_nat (put16 i v data) = words_nat ((data[i := ucast v])[Suc i := ucast (drop_bit 8 v)])" for v
    by (simp add: put16_def bytes16_def)
  have S: "words_nat (put16 i v data) + unat (data ! i) + 256 * unat (data ! Suc i)
      = words_nat data + unat (ucast v :: u8) + 256 * unat (ucast (drop_bit 8 v) :: u8)" for v
    using words_nat_update [of i data "ucast v"] words_nat_update [of "Suc i" "data[i := ucast v]" "ucast (drop_bit 8 v)"] assms(1,2)
    by (simp add: two weight_def)
  have S1: "words_nat (put16 i c data) = words_nat (put16 i 0 data) + unat c"
    using S [of 0] S [of c] bytes by simp
  have c: "unat c = 65534 - (words_nat (put16 i 0 data) - 1) mod 65535"
    unfolding c_def using unat_checksum_of [of "put16 i 0 data"] assms(3,4) by (simp add: put16_def)
  have "65535 dvd words_nat (put16 i 0 data) + unat c"
  proof -
    obtain m where m: "words_nat (put16 i 0 data) = Suc m" using assms(4) not0_implies_Suc by blast
    define q r where "q = m div 65535" and "r = m mod 65535"
    have "m = 65535 * q + r" "r < 65535" by (simp_all add: q_def r_def)
    then have "Suc m + (65534 - r) = 65535 * (q + 1)" by simp
    then show ?thesis unfolding c m r_def by (simp only: diff_Suc_1 dvd_triv_left)
  qed
  then show ?thesis
    unfolding c_def [symmetric] using checksum_zero_iff [of "put16 i c data"] S1 assms(3,4) by (simp add: put16_def)
qed

text \<open>A changed byte does not go unseen.\<close>

lemma checksum_detects_byte:
  assumes "length data < 65536" and "checksum_of data = 0" and "k < length data" and "x \<noteq> data ! k"
  shows "checksum_of (data[k := x]) \<noteq> 0"
proof
  assume zero: "checksum_of (data[k := x]) = 0"
  let ?a = "unat (data ! k) * weight k" and ?b = "unat x * weight k"
  have dvd: "65535 dvd words_nat data" "65535 dvd words_nat (data[k := x])"
    using zero assms(1,2) checksum_zero_iff by auto
  have eq: "words_nat (data[k := x]) + ?a = words_nat data + ?b" using words_nat_update [OF assms(3)] .
  have small: "?a < 65535" "?b < 65535" using unat_u8 [of "data ! k"] unat_u8 [of x] by (auto simp: weight_def)
  have "?a mod 65535 = (words_nat (data[k := x]) + ?a) mod 65535" using dvd(2) by (metis add_0 dvd_imp_mod_0 mod_add_left_eq)
  also have "\<dots> = ?b mod 65535" unfolding eq using dvd(1) by (metis add_0 dvd_imp_mod_0 mod_add_left_eq)
  finally have "?a = ?b" using small by simp
  then show False using assms(4) by (simp add: weight_def word_unat_eq_iff split: if_splits)
qed

end
