(* ===== verification/Ipv4.thy ===== *)
theory Ipv4
  imports Inet
begin

text \<open>
  The internet layer of a mote, \<open>aps_proj/IPV4_SIMPLE.c\<close>. A datagram starts at the data of a message; on
  the air it is preceded by one byte with its length, so it is shifted by one byte before it is sent
  and back when it has arrived. State 0 is idle, 1 sending.

  An access outside the 35 bytes of a message is \<open>None\<close>. The lemmas: the header sent is the one
  accepted, damage is noticed, and which lengths go out of bounds.
\<close>

section \<open>State and operations\<close>

definition UNIQ_START :: u16 where "UNIQ_START = 0x0328"
definition IPVERSION :: u8 where "IPVERSION = 4"

record ipv4 =
  ip_state :: u8
  ip_tx_ptr :: ptr
  my_ipv4 :: u32
  netmask :: u32
  gateway :: u8
  uniq_id :: u16

datatype ipv4_out =
    IPV4_SIMPLE_SUB_INIT
  | IPV4_SIMPLE_SUB_POWER u8
  | IPV4_SIMPLE_SUB_TX_PACKET u8 u8 ptr

type_synonym 'w ipv4_state = "ipv4 \<times> memory \<times> 'w"

definition ipv4_checksum :: "u8 list \<Rightarrow> u16" where
  "ipv4_checksum data = ucast (NOT (fold_carries (sum_words data 0)))"

definition IPV4_SIMPLE_INIT :: "u8 \<Rightarrow> 'w ipv4_state \<Rightarrow> 'w ipv4_state \<times> ipv4_out list \<times> u8" where
  "IPV4_SIMPLE_INIT ok st =
     (case st of (s, r) \<Rightarrow>
        ((s\<lparr>uniq_id := UNIQ_START, ip_state := 0, my_ipv4 := IPV4_BOOT_ADDR, netmask := 0\<rparr>, r),
         [IPV4_SIMPLE_SUB_INIT], if ok = 0 then 0 else 1))"

definition IPV4_SIMPLE_START :: "'w ipv4_state \<Rightarrow> 'w ipv4_state \<times> u8" where
  "IPV4_SIMPLE_START st = (st, 1)"

definition IPV4_SIMPLE_POWER :: "u8 \<Rightarrow> u8 \<Rightarrow> 'w ipv4_state \<Rightarrow> 'w ipv4_state \<times> ipv4_out list \<times> u8" where
  "IPV4_SIMPLE_POWER ok mode st = (st, [IPV4_SIMPLE_SUB_POWER mode], ok)"

definition IPV4_SIMPLE_SET_LOCAL_ADDR :: "u32 \<Rightarrow> 'w ipv4_state \<Rightarrow> 'w ipv4_state \<times> u8" where
  "IPV4_SIMPLE_SET_LOCAL_ADDR addr st = (case st of (s, r) \<Rightarrow> ((s\<lparr>my_ipv4 := addr\<rparr>, r), 1))"

definition IPV4_SIMPLE_GET_LOCAL_ADDR :: "'w ipv4_state \<Rightarrow> u32 \<times> u8" where
  "IPV4_SIMPLE_GET_LOCAL_ADDR st = (my_ipv4 (fst st), 1)"

definition IPV4_SIMPLE_SET_DEMUX :: "u16 \<Rightarrow> u8 \<Rightarrow> 'w ipv4_state \<Rightarrow> 'w ipv4_state \<times> u8" where
  "IPV4_SIMPLE_SET_DEMUX entry protoID st = (st, 1)"

definition IPV4_SIMPLE_SET_NET_MASK :: "u32 \<Rightarrow> 'w ipv4_state \<Rightarrow> 'w ipv4_state \<times> u8" where
  "IPV4_SIMPLE_SET_NET_MASK nmask st = (case st of (s, r) \<Rightarrow> ((s\<lparr>netmask := nmask\<rparr>, r), 1))"

definition IPV4_SIMPLE_SET_GATEWAY :: "u8 \<Rightarrow> 'w ipv4_state \<Rightarrow> 'w ipv4_state \<times> u8" where
  "IPV4_SIMPLE_SET_GATEWAY i st = (case st of (s, r) \<Rightarrow> ((s\<lparr>gateway := i\<rparr>, r), 1))"

text \<open>The header, written into the message. What \<open>uniq_id = uniq_id++\<close> leaves is up to the compiler, and a
  parameter.\<close>

definition write_header :: "u16 \<Rightarrow> u16 \<Rightarrow> u8 list \<Rightarrow> u8 list" where
  "write_header len i m =
     (let b = sizeof_toshdr;
          m = put8 (ip_hl_version b) ((push_bit 4 IPVERSION AND 0xff) OR (word_of_nat (sizeof_ipv4hdr div 4) AND 0xff)) m;
          m = put8 (ip_tos b) 0 m;
          m = put16 (ip_len b) (bswap16 (len - word_of_nat sizeof_toshdr)) m;
          m = put16 (ip_id b) i m;
          m = put16 (ip_off b) 0 m;
          m = put8 (ip_ttl b) MAX_TTL m;
          m = put8 (ip_protocol b) UDP_PROTOCOL_ID m;
          m = put16 (ip_check b) 0 m
      in put16 (ip_check b) (ipv4_checksum (read_bytes b sizeof_ipv4hdr m)) m)"

text \<open>The loops that move the data of a message up or down by one byte.\<close>

primrec shift_up :: "nat \<Rightarrow> u8 list \<Rightarrow> u8 list option" where
  "shift_up 0 m = Some m"
| "shift_up (Suc i) m = (if 3 + Suc i < length m then shift_up i (m[3 + Suc i := m ! (3 + i)]) else None)"

primrec shift_down :: "nat \<Rightarrow> nat \<Rightarrow> u8 list \<Rightarrow> u8 list option" where
  "shift_down i 0 m = Some m"
| "shift_down i (Suc k) m = (if 3 + Suc i < length m then shift_down (Suc i) k (m[3 + i := m ! (3 + Suc i)]) else None)"

definition ip_route :: "ipv4 \<Rightarrow> u8 list \<Rightarrow> u8" where
  "ip_route s m =
     (let dest = bswap32 (get32 (ip_dest_addr sizeof_toshdr) m)
      in if dest AND netmask s = my_ipv4 s AND netmask s then ucast (dest AND NOT (netmask s)) else gateway s)"

definition IPV4_SIMPLE_TX_PACKET ::
  "(u16 \<Rightarrow> u16) \<Rightarrow> u8 \<Rightarrow> u8 \<Rightarrow> ptr \<Rightarrow> u16 \<Rightarrow> 'w ipv4_state \<Rightarrow> ('w ipv4_state \<times> ipv4_out list \<times> u8) option" where
  "IPV4_SIMPLE_TX_PACKET incr accepted am_type tx_msg len st =
     (case st of (s, mem, w) \<Rightarrow>
        if ip_state s = 0 then
          (let m = write_header len (uniq_id s) (mem tx_msg);
               s = s\<lparr>uniq_id := incr (uniq_id s), ip_tx_ptr := tx_msg\<rparr>;
               dest_mote = ip_route s m
           in case shift_up (nat (sint len)) m of None \<Rightarrow> None
              | Some m \<Rightarrow>
                  (let mem = mem(tx_msg := m[3 := ucast (len - word_of_nat sizeof_toshdr)]);
                       out = [IPV4_SIMPLE_SUB_TX_PACKET dest_mote am_type tx_msg]
                   in if accepted \<noteq> 0 then Some ((s\<lparr>ip_state := 1\<rparr>, mem, w), out, 1)
                      else Some ((s, mem, w), out, 0)))
        else Some ((s, mem, w), [], 0))"

definition IPV4_SIMPLE_TX_DONE ::
  "(ptr \<Rightarrow> 'w ipv4_state \<Rightarrow> 'w ipv4_state) \<Rightarrow> ptr \<Rightarrow> 'w ipv4_state \<Rightarrow> 'w ipv4_state \<times> u8" where
  "IPV4_SIMPLE_TX_DONE sent tx_msg st =
     (case st of (s, r) \<Rightarrow> if ip_tx_ptr s = tx_msg then (sent tx_msg (s\<lparr>ip_state := 0\<rparr>, r), 1) else ((s, r), 1))"

text \<open>The length byte is a signed character; compared with a size it is taken as unsigned. \<open>upcall\<close> is the
  event of the layer above; a packet that fails a check is given back without it.\<close>

definition IPV4_SIMPLE_RX ::
  "(ptr \<Rightarrow> 'w ipv4_state \<Rightarrow> 'w ipv4_state \<times> ptr) \<Rightarrow> ptr \<Rightarrow> 'w ipv4_state \<Rightarrow> ('w ipv4_state \<times> ptr) option" where
  "IPV4_SIMPLE_RX upcall rx_msg st =
     (case st of (s, mem, w) \<Rightarrow>
        let mlen = sint (mem rx_msg ! 3)
        in if size_val (mem rx_msg ! 3) < sizeof_ipv4hdr then Some (st, rx_msg)
           else
             (case shift_down 0 (nat mlen) (mem rx_msg) of None \<Rightarrow> None
              | Some m \<Rightarrow>
                  (let st = (s, mem(rx_msg := m), w);
                       b = sizeof_toshdr;
                       version = drop_bit 4 (get8 (ip_hl_version b) m);
                       hlen = unat (get8 (ip_hl_version b) m AND 0x0f) * 4;
                       dest = bswap32 (get32 (ip_dest_addr b) m)
                   in if version \<noteq> IPVERSION then Some (st, rx_msg)
                      else if hlen < sizeof_ipv4hdr then Some (st, rx_msg)
                      else if length m < b + hlen then None
                      else if ipv4_checksum (read_bytes b hlen m) AND 0xffff \<noteq> 0 then Some (st, rx_msg)
                      else if unat (bswap16 (get16 (ip_len b) m)) < hlen then Some (st, rx_msg)
                      else if dest \<noteq> my_ipv4 s \<and> dest \<noteq> IPV4_BCAST_ADDR \<and> dest \<noteq> IPV4_BOOT_ADDR
                           \<and> dest \<noteq> (my_ipv4 s OR NOT (netmask s)) then Some (st, rx_msg)
                      else Some (upcall rx_msg st))))"

section \<open>Moving data\<close>

lemma shift_up_bytes:
  "3 + n < length m \<Longrightarrow> shift_up n m = Some (take 4 m @ data_of m n @ drop (4 + n) m)"
proof (induction n arbitrary: m)
  case (Suc n)
  have "shift_up (Suc n) m = Some (take 4 (m[3 + Suc n := m ! (3 + n)]) @ data_of (m[3 + Suc n := m ! (3 + n)]) n
      @ drop (4 + n) (m[3 + Suc n := m ! (3 + n)]))"
    using Suc by simp
  also have "\<dots> = Some (take 4 m @ data_of m (Suc n) @ drop (4 + Suc n) m)"
    using Suc.prems
    apply (intro arg_cong [where f = Some] nth_equalityI)
     apply (simp add: data_of_def)
    subgoal for j by (cases "j = 4 + n") (auto simp: data_of_def nth_append nth_list_update)
    done
  finally show ?case .
next
  case 0
  then show ?case by (simp add: data_of_def)
qed

lemma shift_up_outside: "length m = 35 \<Longrightarrow> 32 \<le> n \<Longrightarrow> shift_up n m = None"
  by (cases n) simp_all

lemma shift_down_bytes:
  "3 + i + n < length m \<Longrightarrow> shift_down i n m = Some (take (3 + i) m @ take n (drop (4 + i) m) @ drop (3 + i + n) m)"
proof (induction n arbitrary: i m)
  case (Suc n)
  let ?m = "m[3 + i := m ! (3 + Suc i)]"
  have "shift_down i (Suc n) m = Some (take (3 + Suc i) ?m @ take n (drop (4 + Suc i) ?m) @ drop (3 + Suc i + n) ?m)"
    using Suc by simp
  also have "\<dots> = Some (take (3 + i) m @ take (Suc n) (drop (4 + i) m) @ drop (3 + i + Suc n) m)"
    using Suc.prems
    apply (intro arg_cong [where f = Some] nth_equalityI)
     apply simp
    subgoal for j by (cases "j = 3 + i") (auto simp: nth_append nth_list_update)
    done
  finally show ?case .
qed simp

lemma shift_down_outside: "length m = 35 \<Longrightarrow> 32 \<le> i + n \<Longrightarrow> i \<le> 31 \<Longrightarrow> shift_down i n m = None"
proof (induction n arbitrary: i m)
  case (Suc n)
  then show ?case by (cases "i = 31") auto
qed simp

section \<open>Headers\<close>

lemma ipv4_checksum_of: "ipv4_checksum data = checksum_of data"
  by (simp add: ipv4_checksum_def checksum_of_def)

lemma mask8: "(0xff :: u16) = mask 8"
  by (simp add: mask_eq_exp_minus_1)

lemma bswap16_bswap16 [simp]: "bswap16 (bswap16 x) = x"
  unfolding bswap16_def mask8
  by (rule bit_word_eqI) (auto simp: bit_simps, metis le_add_diff_inverse not_less)

lemma and_ffff [simp]: "(x :: u16) AND 0xffff = x"
proof -
  have "(0xffff :: u16) = mask 16" by (simp add: mask_eq_exp_minus_1)
  then show ?thesis by (intro bit_word_eqI) (simp only: bit_and_iff bit_mask_iff, simp)
qed

lemma words_nat_nonzero: "k < length data \<Longrightarrow> data ! k \<noteq> 0 \<Longrightarrow> words_nat data \<noteq> 0"
proof (induction data arbitrary: k rule: words_nat.induct)
  case (1 a b data)
  consider "k = 0" | "k = 1" | j where "k = Suc (Suc j)" by (metis One_nat_def not0_implies_Suc)
  then show ?case using 1 by cases (auto simp: unat_eq_zero)
qed (auto simp: unat_eq_zero)

lemma read_put16:
  assumes "i + 2 \<le> n" and "b + n \<le> length m"
  shows "read_bytes b n (put16 (b + i) v m) = put16 i v (read_bytes b n m)"
  using assms by (intro nth_equalityI) (auto simp: put16_def nth_write_bytes)

lemma put16_put16 [simp]: "put16 i u (put16 i v m) = put16 i u m"
  by (rule nth_equalityI) (auto simp: put16_def nth_write_bytes)

text \<open>What a written header holds, and what it leaves of the message.\<close>

lemma write_header_fields:
  fixes m :: "u8 list" and n i :: u16
  assumes len: "length m = sizeof_TOS_Msg"
  defines "h \<equiv> write_header n i m"
  shows "length h = sizeof_TOS_Msg" and "h ! 3 = 0x45" and "checksum_of (read_bytes 3 20 h) = 0"
    and "get16 5 h = bswap16 (n - 3)" and "read_bytes 15 8 h = read_bytes 15 8 m" and "drop 23 h = drop 23 m"
    and "h ! 12 = UDP_PROTOCOL_ID"
proof -
  define m1 where "m1 = put8 12 UDP_PROTOCOL_ID (put8 11 MAX_TTL (put16 9 0 (put16 7 i (put16 5 (bswap16 (n - 3)) (put8 4 0 (put8 3 0x45 m))))))"
  have h: "h = put16 13 (checksum_of (read_bytes 3 20 (put16 13 0 m1))) m1"
    unfolding h_def write_header_def m1_def
    by (simp add: header_offsets sizeof_toshdr_def sizeof_ipv4hdr_def IPVERSION_def ipv4_checksum_of Let_def)
  note puts = put8_def put16_def bytes16_def nth_write_bytes
  have m1: "length m1 = 35" "m1 ! 3 = 0x45" "read_bytes 5 2 m1 = bytes16 (bswap16 (n - 3))"
    using len by (simp_all add: m1_def puts sizeof_TOS_Msg_def read_bytes_def upt_rec)
  show "length h = sizeof_TOS_Msg" "h ! 3 = 0x45" using m1 by (simp_all add: h puts sizeof_TOS_Msg_def)
  show "h ! 12 = UDP_PROTOCOL_ID" using m1(1) len by (simp add: h puts m1_def sizeof_TOS_Msg_def)
  show "get16 5 h = bswap16 (n - 3)"
    using m1 read_write_other [of 5 2 m1 13 "bytes16 (checksum_of (read_bytes 3 20 (put16 13 0 m1)))"]
    by (simp add: get16_def h put16_def)
  show "read_bytes 15 8 h = read_bytes 15 8 m" "drop 23 h = drop 23 m"
    using len m1(1) by (auto intro!: nth_equalityI simp: h puts sizeof_TOS_Msg_def m1_def)
  have read: "read_bytes 3 20 (put16 13 v m1) = put16 10 v (read_bytes 3 20 m1)" for v
    using read_put16 [of 10 20 3 m1 v] m1(1) by simp
  have "words_nat (put16 10 0 (read_bytes 3 20 m1)) \<noteq> 0"
    by (rule words_nat_nonzero [of 0]) (use m1 in \<open>simp_all add: puts\<close>)
  then show "checksum_of (read_bytes 3 20 h) = 0"
    unfolding h read by (intro checksum_verifies) simp_all
qed

lemma sint16_nonneg: "unat (x :: u16) < 32768 \<Longrightarrow> sint x = int (unat x)"
proof -
  assume "unat x < 32768"
  then have "int (unat x) < 32768" by linarith
  moreover have "- 32768 \<le> uint x" by (rule order_trans [OF _ unsigned_greater_eq]) simp
  ultimately show ?thesis by (simp add: sint_uint signed_take_bit_int_eq_self)
qed

lemma size_val_sint: "sint c = int n \<Longrightarrow> size_val c = n"
proof -
  assume c: "sint c = int n"
  then have "(scast c :: u16) = word_of_nat n" by (simp add: scast_eq)
  moreover have "n < 128" using sint_lt [of c] c by simp
  ultimately show ?thesis by (simp add: size_val_def unsigned_of_nat take_bit_nat_eq_self)
qed

section \<open>Receiving\<close>

definition for_me :: "ipv4 \<Rightarrow> u32 \<Rightarrow> bool" where
  "for_me s dest \<longleftrightarrow> dest \<in> {my_ipv4 s, IPV4_BCAST_ADDR, IPV4_BOOT_ADDR, my_ipv4 s OR NOT (netmask s)}"

text \<open>A datagram with a header of 20 bytes and a length that fits, by what its bytes on the air say.\<close>

lemma ipv4_rx_bytes:
  assumes len: "length (mem p) = sizeof_TOS_Msg" "sint (mem p ! 3) = int n" "20 \<le> n" "n \<le> 31" and hl: "mem p ! 4 = 0x45"
  shows "IPV4_SIMPLE_RX upcall p (s, mem, w) =
    (let st = (s, mem(p := take 3 (mem p) @ take n (drop 4 (mem p)) @ drop (3 + n) (mem p)), w)
     in Some (if checksum_of (read_bytes 4 20 (mem p)) = 0 \<and> 20 \<le> unat (bswap16 (get16 6 (mem p))) \<and> for_me s (bswap32 (get32 20 (mem p)))
              then upcall p st else (st, p)))"
proof -
  define m where "m = take 3 (mem p) @ take n (drop 4 (mem p)) @ drop (3 + n) (mem p)"
  have m: "length m = 35" using len by (simp add: m_def sizeof_TOS_Msg_def)
  have shift: "shift_down 0 n (mem p) = Some m"
    using shift_down_bytes [of 0 n "mem p"] len by (simp add: m_def sizeof_TOS_Msg_def)
  have nth: "m ! (3 + k) = mem p ! (4 + k)" if "k < n" for k
    using that len by (simp add: m_def nth_append sizeof_TOS_Msg_def)
  have read: "read_bytes (3 + j) k m = read_bytes (4 + j) k (mem p)" if "j + k \<le> n" for j k
    using that nth by (intro nth_equalityI) (simp_all add: add.assoc)
  have hd: "m ! 3 = 0x45" using nth [of 0] len(3) hl by simp
  have fields: "get16 5 m = get16 6 (mem p)" "get32 19 m = get32 20 (mem p)" "read_bytes 3 20 m = read_bytes 4 20 (mem p)"
    using read [of 2 2] read [of 16 4] read [of 0 20] len(3) by (simp_all add: get16_def get32_def)
  note size = size_val_sint [OF len(2)]
  show ?thesis
    unfolding IPV4_SIMPLE_RX_def prod.case len(2) nat_int shift option.case Let_def
    using m hd fields len(3) size
    by (simp add: header_offsets sizeof_toshdr_def sizeof_ipv4hdr_def get8_def IPVERSION_def ipv4_checksum_of for_me_def m_def [symmetric])
qed

section \<open>From mote to mote\<close>

text \<open>The message that goes out: the length, then the datagram.\<close>

lemma ipv4_tx_bytes:
  fixes mem :: memory
  assumes s: "ip_state s = 0" "length (mem msg) = sizeof_TOS_Msg" "accepted \<noteq> 0" and n: "n \<le> 28"
  defines "h \<equiv> write_header (word_of_nat (n + 3)) (uniq_id s) (mem msg)"
  shows "\<exists>m. IPV4_SIMPLE_TX_PACKET incr accepted am_type msg (word_of_nat (n + 3)) (s, mem, w)
      = Some ((s\<lparr>uniq_id := incr (uniq_id s), ip_tx_ptr := msg, ip_state := 1\<rparr>, mem(msg := m), w),
          [IPV4_SIMPLE_SUB_TX_PACKET (ip_route s h) am_type msg], 1)
    \<and> length m = 35 \<and> m ! 3 = word_of_nat n \<and> (\<forall>k < n + 3. m ! (4 + k) = h ! (3 + k))"
proof -
  let ?len = "word_of_nat (n + 3) :: u16"
  have h: "length h = 35" using write_header_fields(1) [OF s(2)] by (simp add: h_def sizeof_TOS_Msg_def)
  have unat: "unat ?len = n + 3" using n by (simp only: unsigned_of_nat) (simp add: take_bit_nat_eq_self)
  have len: "nat (sint ?len) = n + 3" "?len - 3 = word_of_nat n" "(ucast (word_of_nat n :: u16) :: u8) = word_of_nat n"
    using n unat sint16_nonneg [of ?len] by (simp_all add: unsigned_of_nat take_bit_nat_eq_self)
  define m where "m = (take 4 h @ data_of h (n + 3) @ drop (n + 7) h)[3 := word_of_nat n]"
  have up: "shift_up (n + 3) h = Some (take 4 h @ data_of h (n + 3) @ drop (n + 7) h)"
    using shift_up_bytes [of "n + 3" h] h n by (simp add: add.commute)
  have "IPV4_SIMPLE_TX_PACKET incr accepted am_type msg ?len (s, mem, w)
      = Some ((s\<lparr>uniq_id := incr (uniq_id s), ip_tx_ptr := msg, ip_state := 1\<rparr>, mem(msg := m), w),
          [IPV4_SIMPLE_SUB_TX_PACKET (ip_route s h) am_type msg], 1)"
    using s unfolding IPV4_SIMPLE_TX_PACKET_def prod.case h_def [symmetric] Let_def len(1) up
    by (simp add: m_def len sizeof_toshdr_def ip_route_def Let_def)
  moreover have "length m = 35" "m ! 3 = word_of_nat n" "\<And>k. k < n + 3 \<Longrightarrow> m ! (4 + k) = h ! (3 + k)"
    using h n by (simp_all add: nth_append m_def data_of_def)
  ultimately show ?thesis by blast
qed

text \<open>A message with the bytes of a good datagram \<open>h\<close>, and what becomes of it.\<close>

lemma ipv4_rx_datagram:
  fixes rmem :: memory
  assumes rm: "length (rmem p) = sizeof_TOS_Msg" "rmem p ! 3 = word_of_nat n" "\<And>k. k < n \<Longrightarrow> rmem p ! (4 + k) = h ! (3 + k)"
    and n: "20 \<le> n" "n \<le> 31"
    and h: "h ! 3 = 0x45" "checksum_of (read_bytes 3 20 h) = 0" "20 \<le> unat (bswap16 (get16 5 h))" "for_me r (bswap32 (get32 19 h))"
  shows "\<exists>d. IPV4_SIMPLE_RX upcall p (r, rmem, v) = Some (upcall p (r, rmem(p := take 3 (rmem p) @ d), v))
    \<and> length d = 32 \<and> (\<forall>k < n. d ! k = h ! (3 + k))"
proof -
  have sint: "sint (rmem p ! 3) = int n" "rmem p ! 4 = 0x45"
    using n rm(2) rm(3) [of 0] h(1) by (simp_all add: sint8_nonneg unsigned_of_nat take_bit_nat_eq_self)
  have read: "read_bytes (4 + j) k (rmem p) = read_bytes (3 + j) k h" if "j + k \<le> n" for j k
    using that rm(3) by (intro nth_equalityI) (simp_all add: add.assoc)
  have fields: "read_bytes 4 20 (rmem p) = read_bytes 3 20 h" "get16 6 (rmem p) = get16 5 h" "get32 20 (rmem p) = get32 19 h"
    using read [of 0 20] read [of 2 2] read [of 16 4] n by (simp_all add: get16_def get32_def)
  let ?d = "take n (drop 4 (rmem p)) @ drop (3 + n) (rmem p)"
  have "length ?d = 32" "\<And>k. k < n \<Longrightarrow> ?d ! k = h ! (3 + k)"
    using rm n by (simp_all add: nth_append sizeof_TOS_Msg_def)
  moreover have "IPV4_SIMPLE_RX upcall p (r, rmem, v) = Some (upcall p (r, rmem(p := take 3 (rmem p) @ ?d), v))"
    using ipv4_rx_bytes [where mem = rmem and p = p and n = n and upcall = upcall and s = r and w = v] rm(1) n sint h
    by (simp add: fields)
  ultimately show ?thesis by blast
qed

text \<open>Sender and receiver together.\<close>

lemma ipv4_end_to_end:
  fixes mem :: memory
  assumes s: "ip_state s = 0" "length (mem msg) = sizeof_TOS_Msg" "accepted \<noteq> 0"
    and n: "20 \<le> n" "n \<le> 28"
    and dest: "for_me r (bswap32 (get32 19 (mem msg)))"
  defines "h \<equiv> write_header (word_of_nat (n + 3)) (uniq_id s) (mem msg)"
  shows "\<exists>m d. IPV4_SIMPLE_TX_PACKET incr accepted am_type msg (word_of_nat (n + 3)) (s, mem, w)
      = Some ((s\<lparr>uniq_id := incr (uniq_id s), ip_tx_ptr := msg, ip_state := 1\<rparr>, mem(msg := m), w),
          [IPV4_SIMPLE_SUB_TX_PACKET (ip_route s h) am_type msg], 1)
    \<and> IPV4_SIMPLE_RX upcall p (r, rmem(p := [addr, type, grp] @ drop 3 m), v) = Some (upcall p (r, rmem(p := [addr, type, grp] @ d), v))
    \<and> length d = 32 \<and> (\<forall>k < n. d ! k = h ! (3 + k)) \<and> get32 19 h = get32 19 (mem msg)"
proof -
  let ?len = "word_of_nat (n + 3) :: u16"
  note hdr = write_header_fields [OF s(2), of ?len "uniq_id s", folded h_def]
  have len: "?len - 3 = word_of_nat n" "unat (word_of_nat n :: u16) = n"
    using n by (simp_all add: unsigned_of_nat take_bit_nat_eq_self)
  have "h ! (15 + k) = mem msg ! (15 + k)" if "k < 8" for k
    using that arg_cong [OF hdr(5), of "\<lambda>bs. bs ! k"] by simp
  from this [of 4] this [of 5] this [of 6] this [of 7] have dest_field: "get32 19 h = get32 19 (mem msg)"
    by (simp add: get32_def read_bytes_def upt_rec)
  obtain m where tx: "IPV4_SIMPLE_TX_PACKET incr accepted am_type msg ?len (s, mem, w)
      = Some ((s\<lparr>uniq_id := incr (uniq_id s), ip_tx_ptr := msg, ip_state := 1\<rparr>, mem(msg := m), w),
          [IPV4_SIMPLE_SUB_TX_PACKET (ip_route s h) am_type msg], 1)"
    and m: "length m = 35" "m ! 3 = word_of_nat n" "\<forall>k < n + 3. m ! (4 + k) = h ! (3 + k)"
    using ipv4_tx_bytes [where mem = mem and n = n and incr = incr and am_type = am_type and w = w, OF s n(2)] unfolding h_def by blast
  let ?rmem = "rmem(p := [addr, type, grp] @ drop 3 m)"
  have "\<exists>d. IPV4_SIMPLE_RX upcall p (r, ?rmem, v) = Some (upcall p (r, ?rmem(p := take 3 (?rmem p) @ d), v))
      \<and> length d = 32 \<and> (\<forall>k < n. d ! k = h ! (3 + k))"
    by (rule ipv4_rx_datagram)
      (use m n dest hdr(2,3) in \<open>simp_all add: nth_append sizeof_TOS_Msg_def hdr(4) len dest_field for_me_def nth_Cons'\<close>)
  then show ?thesis using tx dest_field by auto
qed

text \<open>C18: A datagram of 20 to 28 bytes, header included, sent by an idle mote goes out in one message to the
  mote its destination names under the netmask, or to the gateway. The mote that gets these data
  under whatever message header, and whose address it carries (or one for all), accepts it: the
  layer above is shown the datagram with the length it was sent with and its addresses and payload
  unchanged, at the place where the sender had it.\<close>

theorem ipv4_roundtrip:
  assumes s: "ip_state s = 0" "length (mem msg) = sizeof_TOS_Msg" "accepted \<noteq> 0"
    and n: "20 \<le> n" "n \<le> 28"
    and dest: "bswap32 (get32 19 (mem msg)) \<in> {my_ipv4 r, IPV4_BCAST_ADDR, IPV4_BOOT_ADDR, my_ipv4 r OR NOT (netmask r)}"
  shows "\<exists>s' m d. IPV4_SIMPLE_TX_PACKET incr accepted am_type msg (word_of_nat (n + 3)) (s, mem, w)
      = Some ((s', mem(msg := m), w),
          [IPV4_SIMPLE_SUB_TX_PACKET
             (let a = bswap32 (get32 19 (mem msg))
              in if a AND netmask s = my_ipv4 s AND netmask s then ucast (a AND NOT (netmask s)) else gateway s) am_type msg], 1)
    \<and> ip_state s' = 1
    \<and> IPV4_SIMPLE_RX upcall p (r, rmem(p := [addr, type, grp] @ drop 3 m), v) = Some (upcall p (r, rmem(p := [addr, type, grp] @ d), v))
    \<and> length d = 32 \<and> bswap16 (get16 2 d) = word_of_nat n
    \<and> read_bytes 12 8 d = read_bytes 15 8 (mem msg) \<and> take (n - 20) (drop 20 d) = take (n - 20) (drop 23 (mem msg))"
proof -
  let ?len = "word_of_nat (n + 3) :: u16"
  define h where "h = write_header ?len (uniq_id s) (mem msg)"
  note hdr = write_header_fields [OF s(2), of ?len "uniq_id s", folded h_def]
  have len: "?len - 3 = word_of_nat n" using n by simp
  obtain m d where tx: "IPV4_SIMPLE_TX_PACKET incr accepted am_type msg ?len (s, mem, w)
      = Some ((s\<lparr>uniq_id := incr (uniq_id s), ip_tx_ptr := msg, ip_state := 1\<rparr>, mem(msg := m), w),
          [IPV4_SIMPLE_SUB_TX_PACKET (ip_route s h) am_type msg], 1)"
    and rx: "IPV4_SIMPLE_RX upcall p (r, rmem(p := [addr, type, grp] @ drop 3 m), v) = Some (upcall p (r, rmem(p := [addr, type, grp] @ d), v))"
    and d: "length d = 32" "\<And>k. k < n \<Longrightarrow> d ! k = h ! (3 + k)" and dest_field: "get32 19 h = get32 19 (mem msg)"
    using ipv4_end_to_end [where mem = mem and msg = msg and n = n and r = r and upcall = upcall and p = p and rmem = rmem and addr = addr
        and type = type and grp = grp and v = v and w = w and incr = incr and am_type = am_type, OF s n] dest
    unfolding for_me_def h_def by blast
  have "bswap16 (get16 2 d) = bswap16 (get16 5 h)"
    using d n by (simp add: get16_def read_bytes_def upt_rec)
  then have "bswap16 (get16 2 d) = word_of_nat n" unfolding hdr(4) len by simp
  moreover have "read_bytes 12 8 d = read_bytes 15 8 (mem msg)"
    unfolding hdr(5) [symmetric] using d n by (intro nth_equalityI) simp_all
  moreover have "take (n - 20) (drop 20 d) = take (n - 20) (drop 23 (mem msg))"
    unfolding hdr(6) [symmetric] using d n hdr(1) by (intro nth_equalityI) (simp_all add: sizeof_TOS_Msg_def)
  ultimately show ?thesis
    using tx rx d(1) unfolding ip_route_def header_offsets sizeof_toshdr_def
    by (intro exI [of _ "s\<lparr>uniq_id := incr (uniq_id s), ip_tx_ptr := msg, ip_state := 1\<rparr>"] exI [of _ m] exI [of _ d])
      (simp add: dest_field)
qed

definition ipv4_fresh :: ipv4 where
  "ipv4_fresh = \<lparr>ip_state = 0, ip_tx_ptr = 0, my_ipv4 = 0x0a000007, netmask = 0xffffff00, gateway = 1, uniq_id = UNIQ_START\<rparr>"

lemma ipv4_roundtrip_witness:
  "\<exists>s' m d. IPV4_SIMPLE_TX_PACKET (\<lambda>x. x) 1 32 2 (word_of_nat (22 + 3)) (ipv4_fresh, (\<lambda>p. replicate 35 0), ())
      = Some ((s', (\<lambda>p. replicate 35 0)(2 := m), ()),
          [IPV4_SIMPLE_SUB_TX_PACKET
             (let a = bswap32 (get32 19 (replicate 35 0))
              in if a AND netmask ipv4_fresh = my_ipv4 ipv4_fresh AND netmask ipv4_fresh then ucast (a AND NOT (netmask ipv4_fresh))
                 else gateway ipv4_fresh) 32 2], 1)
    \<and> ip_state s' = 1
    \<and> IPV4_SIMPLE_RX (\<lambda>p st. (st, 5)) 3 (ipv4_fresh, (\<lambda>p. replicate 35 0)(3 := [7, 32, 9] @ drop 3 m), ())
        = Some ((ipv4_fresh, (\<lambda>p. replicate 35 0)(3 := [7, 32, 9] @ d), ()), 5)
    \<and> length d = 32 \<and> bswap16 (get16 2 d) = word_of_nat 22
    \<and> read_bytes 12 8 d = read_bytes 15 8 (replicate 35 0) \<and> take (22 - 20) (drop 20 d) = take (22 - 20) (drop 23 (replicate 35 0))"
  by (rule ipv4_roundtrip [where s = ipv4_fresh and r = ipv4_fresh and n = 22 and mem = "\<lambda>p. replicate 35 0" and rmem = "\<lambda>p. replicate 35 0"
      and accepted = 1 and msg = 2 and p = 3 and upcall = "\<lambda>p st. (st, 5)" and w = "()" and v = "()"])
    (simp_all add: ipv4_fresh_def sizeof_TOS_Msg_def get32_def word32_def read_bytes_def upt_rec bswap32_def IPV4_BOOT_ADDR_def)

text \<open>C28: A byte of the header changed on the way, whichever but the first and whatever it became, and the
  datagram is not shown to the layer above: its buffer is given back.\<close>

theorem ipv4_damage_dropped:
  assumes m: "length m = sizeof_TOS_Msg" "sint (m ! 3) = int n" "20 \<le> n" "n \<le> 31" "m ! 4 = 0x45"
    and valid: "checksum_of (read_bytes 4 20 m) = 0"
    and damage: "1 \<le> k" "k < 20" "x \<noteq> m ! (4 + k)"
  shows "\<exists>m'. IPV4_SIMPLE_RX upcall p (s, mem(p := m[4 + k := x]), w) = Some ((s, mem(p := m'), w), p)"
proof -
  have "read_bytes 4 20 (m[4 + k := x]) = (read_bytes 4 20 m)[k := x]"
    using m(1) damage(2) by (intro nth_equalityI) (auto simp: nth_list_update sizeof_TOS_Msg_def)
  then have "checksum_of (read_bytes 4 20 (m[4 + k := x])) \<noteq> 0"
    using checksum_detects_byte [OF _ valid, of k x] damage by simp
  then show ?thesis
    using ipv4_rx_bytes [where mem = "mem(p := m[4 + k := x])" and p = p and n = n and upcall = upcall and s = s and w = w] m damage(1)
    by auto
qed

definition small_datagram :: "u8 list" where
  "small_datagram = [7, 32, 9, 20, 0x45, 0, 0, 20, 0x28, 3, 0, 0, 64, 17, 0x52, 0xd7] @ replicate 19 0"

lemma ipv4_damage_dropped_witness:
  "\<exists>m'. IPV4_SIMPLE_RX (\<lambda>p st. (st, 5)) 3 (ipv4_fresh, (\<lambda>p. replicate 35 0)(3 := small_datagram[4 + 16 := 0x0b]), ())
    = Some ((ipv4_fresh, (\<lambda>p. replicate 35 0)(3 := m'), ()), 3)"
proof (rule ipv4_damage_dropped [where n = 20])
  show "checksum_of (read_bytes 4 20 small_datagram) = 0"
    by (subst checksum_zero_iff) (simp_all add: small_datagram_def read_bytes_def upt_rec nth_Cons')
qed (simp_all add: small_datagram_def sizeof_TOS_Msg_def sint8_nonneg [of 20, simplified] nth_Cons')

text \<open>The length byte of a message from the air is not checked against the size of a message: one of 32
  or more makes the receiving mote write past the end of the buffer, whatever else the message
  holds. The sender does the same for a datagram of 29 bytes, which the data of a message can hold.\<close>

theorem ipv4_out_of_bounds:
  assumes "length (mem p) = sizeof_TOS_Msg"
    and "32 \<le> sint (mem p ! 3)" and "ip_state s = 0" and "32 \<le> sint len"
  shows "IPV4_SIMPLE_RX upcall p (s, mem, w) = None \<and> IPV4_SIMPLE_TX_PACKET incr accepted am_type p len (s, mem, w) = None"
proof
  obtain n where n: "sint (mem p ! 3) = int n" using assms(2) by (metis nonneg_int_cases order_trans zero_le_numeral)
  then have "32 \<le> n" using assms(2) by simp
  then have "shift_down 0 n (mem p) = None" using assms(1) by (intro shift_down_outside) (simp_all add: sizeof_TOS_Msg_def)
  then show "IPV4_SIMPLE_RX upcall p (s, mem, w) = None"
    using size_val_sint [OF n] \<open>32 \<le> n\<close> n by (simp add: IPV4_SIMPLE_RX_def sizeof_ipv4hdr_def)
  have "length (write_header len (uniq_id s) (mem p)) = 35" using write_header_fields(1) [OF assms(1)] by (simp add: sizeof_TOS_Msg_def)
  moreover have "32 \<le> nat (sint len)" using assms(4) by simp
  ultimately have "shift_up (nat (sint len)) (write_header len (uniq_id s) (mem p)) = None" by (rule shift_up_outside)
  then show "IPV4_SIMPLE_TX_PACKET incr accepted am_type p len (s, mem, w) = None"
    using assms(3) by (simp add: IPV4_SIMPLE_TX_PACKET_def Let_def)
qed

lemma ipv4_out_of_bounds_witness:
  "IPV4_SIMPLE_RX (\<lambda>p st. (st, 5)) 3 (ipv4_fresh, (\<lambda>p. replicate 35 0x20), ()) = None
   \<and> IPV4_SIMPLE_TX_PACKET (\<lambda>x. x) 1 32 3 32 (ipv4_fresh, (\<lambda>p. replicate 35 0x20), ()) = None"
  by (rule ipv4_out_of_bounds) (simp_all add: sizeof_TOS_Msg_def ipv4_fresh_def)

end
