(* ===== verification/SlipBridge.thy ===== *)
theory SlipBridge
  imports Slip Ipv4
begin

text \<open>
  The bridge between a serial line and the radio, \<open>aps_proj/SLIP_BRIDGE.c\<close>, as it is built: half duplex,
  one buffer and one flag for both directions. A datagram from the serial line goes to the mote its
  address names, with its length put before it; one from the radio goes out without the length. A
  datagram for mote 0 sets the bridge's network and is sent to all.

  An access outside the 35 bytes of a message is \<open>None\<close>. The lemmas compose it with the SLIP driver on
  one side and the internet layer of a mote on the other.
\<close>

section \<open>State and operations\<close>

definition CONFIG_PORT :: u16 where "CONFIG_PORT = 0x2870"
definition UNIX_PORT :: u16 where "UNIX_PORT = 0x2880"

record bridge =
  radio_msg :: ptr
  radio_tx_pending :: u8
  br_subnet :: u32
  br_netmask :: u32

datatype bridge_out =
    SLIP_BRIDGE_SUB_RADIO_INIT
  | SLIP_BRIDGE_SUB_SLIP_INIT
  | SLIP_BRIDGE_SUB_LED_INIT
  | SLIP_BRIDGE_SUB_RADIO_POWER u8
  | SLIP_BRIDGE_SUB_SLIP_POWER u8
  | SLIP_BRIDGE_TX_SLIP ptr u16
  | SLIP_BRIDGE_TX_RADIO u8 u8 ptr
  | SLIP_BRIDGE_SUB_TOG_GREEN
  | SLIP_BRIDGE_SUB_TOG_YELLOW

type_synonym bridge_state = "bridge \<times> memory"

text \<open>The frame is cleared before the program starts.\<close>

definition SLIP_BRIDGE_INIT :: "ptr \<Rightarrow> u8 \<Rightarrow> u8 \<Rightarrow> bridge_state \<Rightarrow> bridge_state \<times> bridge_out list \<times> u8" where
  "SLIP_BRIDGE_INIT init_buffer1 radio_ok slip_ok st =
     (case st of (s, mem) \<Rightarrow>
        (let s = s\<lparr>radio_msg := init_buffer1, radio_tx_pending := 0\<rparr>
         in if radio_ok = 0 then ((s, mem), [SLIP_BRIDGE_SUB_RADIO_INIT], 0)
            else ((s\<lparr>br_subnet := 0, br_netmask := 0xff\<rparr>, mem),
                  [SLIP_BRIDGE_SUB_RADIO_INIT, SLIP_BRIDGE_SUB_LED_INIT, SLIP_BRIDGE_SUB_SLIP_INIT], slip_ok)))"

definition slip_checksum :: "u8 list \<Rightarrow> u16" where
  "slip_checksum data = ucast (NOT (fold_carries (sum_words data 0)))"

text \<open>The query for a network: two bytes of data from port \<open>CONFIG_PORT\<close> to port \<open>UNIX_PORT\<close>.\<close>

definition network_query :: "u8 list \<Rightarrow> u8 list" where
  "network_query m =
     (let b = sizeof_toshdr;
          u = b + sizeof_ipv4hdr;
          m = put8 (u + sizeof_udphdr) 0x61 m;
          m = put8 (u + sizeof_udphdr + 1) 0x61 m;
          m = put16 (udp_src_port u) (bswap16 CONFIG_PORT) m;
          m = put16 (udp_dst_port u) (bswap16 UNIX_PORT) m;
          m = put16 (udp_len u) (bswap16 0xa) m;
          m = put32 (ip_src_addr b) 0 m;
          m = put32 (ip_dest_addr b) 0xffffffff m;
          m = put8 (ip_protocol b) 0x11 m;
          m = put16 (ip_check b) (get16 (udp_len u) m) m;
          m = put8 (ip_ttl b) 0 m;
          m = put16 (udp_check u) 0 m;
          m = put16 (udp_check u) (slip_checksum (read_bytes (ip_ttl b) (3 * 4 + sizeof_udphdr + 2) m)) m;
          m = put8 (ip_hl_version b) 0x45 m;
          m = put8 (ip_tos b) 0 m;
          m = put16 (ip_len b) (bswap16 0x1e) m;
          m = put16 (ip_id b) 0 m;
          m = put16 (ip_off b) 0 m;
          m = put8 (ip_ttl b) 3 m;
          m = put16 (ip_check b) 0 m
      in put16 (ip_check b) (slip_checksum (read_bytes b sizeof_ipv4hdr m)) m)"

definition get_network :: "u8 \<Rightarrow> bridge_state \<Rightarrow> bridge_state \<times> bridge_out list \<times> u8" where
  "get_network slip_ok st =
     (case st of (s, mem) \<Rightarrow>
        (let m = network_query (mem (radio_msg s));
             mem = mem(radio_msg s := m);
             out = [SLIP_BRIDGE_TX_SLIP (radio_msg s) (bswap16 (get16 (ip_len sizeof_toshdr) m))]
         in if slip_ok \<noteq> 0 then ((s\<lparr>radio_tx_pending := 1\<rparr>, mem), out, 1) else ((s, mem), out, 0)))"

definition SLIP_BRIDGE_START :: "u8 \<Rightarrow> bridge_state \<Rightarrow> bridge_state \<times> bridge_out list \<times> u8" where
  "SLIP_BRIDGE_START slip_ok st = (case get_network slip_ok st of (st, out, v) \<Rightarrow> (st, out, if v \<noteq> 0 then 1 else 0))"

definition SLIP_BRIDGE_POWER :: "u8 \<Rightarrow> bridge_state \<Rightarrow> bridge_state \<times> bridge_out list \<times> u8" where
  "SLIP_BRIDGE_POWER mode st = (st, [SLIP_BRIDGE_SUB_SLIP_POWER mode, SLIP_BRIDGE_SUB_RADIO_POWER mode], 1)"

definition SLIP_BRIDGE_RX_RADIO ::
  "u8 \<Rightarrow> ptr \<Rightarrow> bridge_state \<Rightarrow> (bridge_state \<times> bridge_out list \<times> ptr) option" where
  "SLIP_BRIDGE_RX_RADIO slip_ok rx_msg st =
     (case st of (s, mem) \<Rightarrow>
        if radio_tx_pending s = 0 then
          (let ret_msg = radio_msg s;
               s = s\<lparr>radio_msg := rx_msg\<rparr>;
               len = sint (mem rx_msg ! 3)
           in case shift_down 0 (nat len) (mem rx_msg) of None \<Rightarrow> None
              | Some m \<Rightarrow>
                  (let mem = mem(rx_msg := m);
                       u = sizeof_toshdr + sizeof_ipv4hdr;
                       out = [SLIP_BRIDGE_TX_SLIP (radio_msg s) (word_of_int len)]
                   in if get32 (ip_dest_addr sizeof_toshdr) m = IPV4_BCAST_ADDR \<and> bswap16 (get16 (udp_dst_port u) m) \<noteq> UNIX_PORT
                      then Some ((s, mem), [], ret_msg)
                      else if slip_ok \<noteq> 0 then Some ((s\<lparr>radio_tx_pending := 1\<rparr>, mem), out, ret_msg)
                      else Some ((s, mem), out, ret_msg)))
        else Some ((s, mem), [], rx_msg))"

definition SLIP_BRIDGE_TX_RADIO_DONE :: "ptr \<Rightarrow> bridge_state \<Rightarrow> bridge_state \<times> u8" where
  "SLIP_BRIDGE_TX_RADIO_DONE tx_msg st =
     (case st of (s, mem) \<Rightarrow> ((if radio_msg s = tx_msg then s\<lparr>radio_tx_pending := 0\<rparr> else s, mem), 1))"

text \<open>\<open>b\<close> is where the datagram's header starts in the message.\<close>

definition set_network :: "nat \<Rightarrow> u8 list \<Rightarrow> bridge \<Rightarrow> bridge option" where
  "set_network b m s =
     (let u = b + sizeof_ipv4hdr;
          addresses = u + sizeof_udphdr
      in if bswap16 (get16 (udp_dst_port u) m) = CONFIG_PORT \<and> 2 * 4 \<le> unat (bswap16 (get16 (udp_len u) m)) then
           (if length m < addresses + 2 * 4 then None
            else Some (s\<lparr>br_subnet := bswap32 (get32 addresses m), br_netmask := NOT (bswap32 (get32 (addresses + 4) m))\<rparr>))
         else Some s)"

definition forward_setnetwork :: "u8 \<Rightarrow> u8 \<Rightarrow> ptr \<Rightarrow> bridge_state \<Rightarrow> (bridge_state \<times> bridge_out list \<times> u8) option" where
  "forward_setnetwork radio_ok am_type forward_msg st =
     (case st of (s, mem) \<Rightarrow>
        (let b = sizeof_toshdr + 1;
             u = b + sizeof_ipv4hdr;
             m = mem forward_msg;
             m = put32 (ip_dest_addr b) IPV4_BOOT_ADDR m;
             m = put16 (ip_check b) (get16 (udp_len u) m) m;
             m = put8 (ip_ttl b) 0 m;
             m = put16 (udp_check u) 0 m;
             n = unat (3 * 4 + bswap16 (get16 (udp_len u) m))
         in if length m < ip_ttl b + n then None
            else
              (let m = put16 (udp_check u) (slip_checksum (read_bytes (ip_ttl b) n m)) m;
                   m = put8 (ip_ttl b) MAX_TTL m;
                   m = put16 (ip_check b) 0 m;
                   m = put16 (ip_check b) (slip_checksum (read_bytes b sizeof_ipv4hdr m)) m;
                   mem = mem(forward_msg := m);
                   out = [SLIP_BRIDGE_TX_RADIO TOS_BCAST_ADDR am_type forward_msg]
               in if radio_ok \<noteq> 0 then Some ((s, mem), out @ [SLIP_BRIDGE_SUB_TOG_YELLOW], 1) else Some ((s, mem), out, 0))))"

definition SLIP_BRIDGE_RX_SLIP ::
  "u8 \<Rightarrow> u8 \<Rightarrow> ptr \<Rightarrow> u16 \<Rightarrow> bridge_state \<Rightarrow> (bridge_state \<times> bridge_out list \<times> ptr) option" where
  "SLIP_BRIDGE_RX_SLIP radio_ok am_type rx_msg len st =
     (case st of (s, mem) \<Rightarrow>
        if radio_tx_pending s = 0 then
          (let ret_msg = radio_msg s;
               s = s\<lparr>radio_msg := rx_msg\<rparr>
           in case shift_up (nat (sint len)) (mem rx_msg) of None \<Rightarrow> None
              | Some m \<Rightarrow>
                  (let m = m[3 := ucast len];
                       mem = mem(rx_msg := m);
                       b = sizeof_toshdr + 1;
                       dest_mote = ucast (bswap32 (get32 (ip_dest_addr b) m) AND br_netmask s) :: u8
                   in if dest_mote \<noteq> 0 then
                        (let out = [SLIP_BRIDGE_TX_RADIO dest_mote am_type (radio_msg s)]
                         in if radio_ok \<noteq> 0
                            then Some ((s\<lparr>radio_tx_pending := 1\<rparr>, mem), out @ [SLIP_BRIDGE_SUB_TOG_GREEN], ret_msg)
                            else Some ((s, mem), out, ret_msg))
                      else
                        (case set_network b m s of None \<Rightarrow> None
                         | Some s \<Rightarrow>
                             (case forward_setnetwork radio_ok am_type (radio_msg s) (s, mem) of None \<Rightarrow> None
                              | Some ((s, mem), out, v) \<Rightarrow>
                                  Some ((if v \<noteq> 0 then s\<lparr>radio_tx_pending := 1\<rparr> else s, mem), out, ret_msg)))))
        else Some ((s, mem), [], rx_msg))"

definition SLIP_BRIDGE_TX_SLIP_DONE :: "ptr \<Rightarrow> bridge_state \<Rightarrow> bridge_state \<times> u8" where
  "SLIP_BRIDGE_TX_SLIP_DONE tx_msg st =
     (case st of (s, mem) \<Rightarrow> ((if radio_msg s = tx_msg then s\<lparr>radio_tx_pending := 0\<rparr> else s, mem), 1))"

definition SLIP_BRIDGE_RARP :: "ptr \<Rightarrow> bridge_state \<Rightarrow> bridge_state \<times> u8" where
  "SLIP_BRIDGE_RARP tx_msg st =
     (case st of (s, mem) \<Rightarrow> ((if radio_msg s = tx_msg then s\<lparr>radio_tx_pending := 0\<rparr> else s, mem), 1))"

section \<open>From the serial line to a mote\<close>

text \<open>The bridge as the layer above the SLIP driver: its state and the calls it made, or \<open>None\<close> once it has
  gone out of bounds.\<close>

definition bridge_shown ::
  "u8 \<Rightarrow> u8 \<Rightarrow> ptr \<Rightarrow> u16 \<Rightarrow> (bridge \<times> bridge_out list) option slip_state \<Rightarrow> (bridge \<times> bridge_out list) option slip_state \<times> ptr" where
  "bridge_shown radio_ok am_type p len st =
     (case st of
        (s, mem, None) \<Rightarrow> ((s, mem, None), 0)
      | (s, mem, Some (br, outs)) \<Rightarrow>
          (case SLIP_BRIDGE_RX_SLIP radio_ok am_type p len (br, mem) of
             None \<Rightarrow> ((s, mem, None), 0)
           | Some ((br, mem), out, next_ptr) \<Rightarrow> ((s, mem, Some (br, outs @ out)), next_ptr)))"

definition datagram_mote :: "bridge \<Rightarrow> u8 list \<Rightarrow> u8" where
  "datagram_mote br d = ucast (bswap32 (get32 16 d) AND br_netmask br)"

text \<open>The message the bridge makes of a datagram: its length, then its bytes.\<close>

lemma length_put_before:
  assumes "length m = 35" and "n \<le> 30"
  shows "\<exists>m'. shift_up (nat (sint (word_of_nat n :: u16))) m = Some m' \<and> length (m'[3 := word_of_nat n]) = 35
    \<and> m'[3 := word_of_nat n] ! 3 = word_of_nat n \<and> (\<forall>k < n. m'[3 := word_of_nat n] ! (4 + k) = data_of m n ! k)"
proof -
  have "unat (word_of_nat n :: u16) = n" using assms(2) by (simp add: unsigned_of_nat take_bit_nat_eq_self)
  then have "nat (sint (word_of_nat n :: u16)) = n" using assms(2) sint16_nonneg [of "word_of_nat n"] by simp
  then show ?thesis
    using shift_up_bytes [of n m] assms by (auto simp: data_of_def nth_append)
qed

lemma bridge_forwards:
  assumes br: "radio_tx_pending br = 0" and m: "length (mem p) = 35" and n: "20 \<le> n" "n \<le> 30"
    and mote: "datagram_mote br (data_of (mem p) n) \<noteq> 0" and ok: "radio_ok \<noteq> 0"
  shows "\<exists>m'. SLIP_BRIDGE_RX_SLIP radio_ok am_type p (word_of_nat n) (br, mem)
      = Some ((br\<lparr>radio_msg := p, radio_tx_pending := 1\<rparr>, mem(p := m')),
          [SLIP_BRIDGE_TX_RADIO (datagram_mote br (data_of (mem p) n)) am_type p, SLIP_BRIDGE_SUB_TOG_GREEN], radio_msg br)
    \<and> length m' = 35 \<and> m' ! 3 = word_of_nat n \<and> (\<forall>k < n. m' ! (4 + k) = data_of (mem p) n ! k)"
proof -
  obtain m' where up: "shift_up (nat (sint (word_of_nat n :: u16))) (mem p) = Some m'"
    and m': "length (m'[3 := word_of_nat n]) = 35" "m'[3 := word_of_nat n] ! 3 = word_of_nat n"
      "\<And>k. k < n \<Longrightarrow> m'[3 := word_of_nat n] ! (4 + k) = data_of (mem p) n ! k"
    using length_put_before [OF m n(2)] by blast
  have len: "(ucast (word_of_nat n :: u16) :: u8) = word_of_nat n" using n by (simp add: unsigned_of_nat take_bit_nat_eq_self)
  have "read_bytes 20 4 (m'[3 := word_of_nat n]) = read_bytes 16 4 (data_of (mem p) n)"
  proof (intro nth_equalityI)
    fix i assume "i < length (read_bytes 20 4 (m'[3 := word_of_nat n]))"
    then show "read_bytes 20 4 (m'[3 := word_of_nat n]) ! i = read_bytes 16 4 (data_of (mem p) n) ! i"
      using m'(3) [of "16 + i"] n(1) by simp
  qed simp
  then have dest: "get32 20 (m'[3 := word_of_nat n]) = get32 16 (data_of (mem p) n)" by (simp add: get32_def)
  have "SLIP_BRIDGE_RX_SLIP radio_ok am_type p (word_of_nat n) (br, mem)
      = Some ((br\<lparr>radio_msg := p, radio_tx_pending := 1\<rparr>, mem(p := m'[3 := word_of_nat n])),
          [SLIP_BRIDGE_TX_RADIO (datagram_mote br (data_of (mem p) n)) am_type p, SLIP_BRIDGE_SUB_TOG_GREEN], radio_msg br)"
    using br mote ok unfolding SLIP_BRIDGE_RX_SLIP_def prod.case up option.case len Let_def
    by (simp add: header_offsets sizeof_toshdr_def dest datagram_mote_def)
  then show ?thesis using m' by blast
qed

text \<open>C4: A datagram of 20 to 30 bytes that comes to the bridge in a SLIP frame goes to the radio, to the
  mote that the low bits of its address name, and is accepted there if that mote has the address
  and header and checksum are good: the layer above is shown exactly its bytes.\<close>

theorem serial_to_mote:
  assumes line: "sl_state s \<in> slip_states" "sl_state s AND RX_MASK = 0" "length (mem (sl_rx_ptr s)) = sizeof_TOS_Msg"
    and br: "radio_tx_pending br = 0" "radio_msg br \<noteq> sl_rx_ptr s" "radio_ok \<noteq> 0"
    and d: "length d = n" "20 \<le> n" "n \<le> 30" "d ! 0 = 0x45" "checksum_of (take 20 d) = 0" "20 \<le> unat (bswap16 (get16 2 d))"
    and mote: "datagram_mote br d \<noteq> 0" "for_me r (bswap32 (get32 16 d))"
  shows "\<exists>s' mem' d'. fold (slip_hears (bridge_shown radio_ok am_type)) (slip_frame d) (s, mem, Some (br, []))
      = (s', mem', Some (br\<lparr>radio_msg := sl_rx_ptr s, radio_tx_pending := 1\<rparr>,
          [SLIP_BRIDGE_TX_RADIO (datagram_mote br d) am_type (sl_rx_ptr s), SLIP_BRIDGE_SUB_TOG_GREEN]))
    \<and> IPV4_SIMPLE_RX upcall p (r, rmem(p := [addr, type, grp] @ drop 3 (mem' (sl_rx_ptr s))), v)
        = Some (upcall p (r, rmem(p := [addr, type, grp] @ d'), v))
    \<and> length d' = 32 \<and> take n d' = d"
proof -
  let ?p = "sl_rx_ptr s"
  let ?s = "s\<lparr>sl_state := (sl_state s OR RECEIVING) AND NOT RX_MASK, sl_decodePos := word_of_nat n\<rparr>"
  let ?mem = "mem(?p := write_bytes 3 d (mem ?p))"
  let ?br = "br\<lparr>radio_msg := ?p, radio_tx_pending := 1\<rparr>"
  let ?out = "[SLIP_BRIDGE_TX_RADIO (datagram_mote br d) am_type ?p, SLIP_BRIDGE_SUB_TOG_GREEN]"
  have data: "data_of (?mem ?p) n = d"
    using data_of_written [OF line(3), of d] d by (simp add: DATA_LENGTH_def)
  have len: "scast (word_of_nat n :: u8) = (word_of_nat n :: u16)"
    using d(3) by (simp add: scast_eq sint8_nonneg unsigned_of_nat take_bit_nat_eq_self)
  have mem: "length (?mem ?p) = 35" using line(3) by (simp add: sizeof_TOS_Msg_def)
  obtain m' where fwd: "SLIP_BRIDGE_RX_SLIP radio_ok am_type ?p (word_of_nat n) (br, ?mem) = Some ((?br, ?mem(?p := m')), ?out, radio_msg br)"
    and m': "length m' = 35" "m' ! 3 = word_of_nat n" "\<forall>k < n. m' ! (4 + k) = d ! k"
    using bridge_forwards [where br = br and mem = ?mem and p = ?p and n = n and radio_ok = radio_ok and am_type = am_type,
        unfolded data, OF br(1) mem d(2,3) mote(1) br(3)] by blast
  have "\<exists>s' mem'. fold (slip_hears (bridge_shown radio_ok am_type)) (slip_frame d) (s, mem, Some (br, []))
      = (s', mem', Some (?br, ?out)) \<and> mem' ?p = m'"
  proof -
    have "fold (slip_hears (bridge_shown radio_ok am_type)) (slip_frame d) (s, mem, Some (br, []))
        = slip_show (bridge_shown radio_ok am_type) d (s, mem, Some (br, []))"
      by (rule slip_hears_frame) (use line(1,2) d in \<open>simp_all add: DATA_LENGTH_def\<close>)
    then show ?thesis
      using br(2) unfolding slip_show_def rx_and_reset_def prod.case bridge_shown_def d(1)
      by (simp add: len fwd Let_def)
  qed
  then obtain s' mem' where bridge: "fold (slip_hears (bridge_shown radio_ok am_type)) (slip_frame d) (s, mem, Some (br, []))
      = (s', mem', Some (?br, ?out))" and mem': "mem' ?p = m'" by blast
  let ?rmem = "rmem(p := [addr, type, grp] @ drop 3 m')" and ?h = "replicate 3 0 @ d"
  have h: "read_bytes (3 + j) k ?h = read_bytes j k d" for j k
    by (simp add: read_bytes_def nth_append)
  have fields: "read_bytes 3 20 ?h = take 20 d" "get16 5 ?h = get16 2 d" "get32 19 ?h = get32 16 d"
    using h [of 0 20] h [of 2 2] h [of 16 4] d(1,2) by (auto simp: get16_def get32_def intro: nth_equalityI)
  have "\<exists>d'. IPV4_SIMPLE_RX upcall p (r, ?rmem, v) = Some (upcall p (r, ?rmem(p := take 3 (?rmem p) @ d'), v))
      \<and> length d' = 32 \<and> (\<forall>k < n. d' ! k = ?h ! (3 + k))"
    by (rule ipv4_rx_datagram)
      (use m' d mote(2) in \<open>simp_all add: nth_append sizeof_TOS_Msg_def fields nth_Cons'\<close>)
  then obtain d' where rx: "IPV4_SIMPLE_RX upcall p (r, ?rmem, v) = Some (upcall p (r, rmem(p := [addr, type, grp] @ d'), v))"
    and d': "length d' = 32" "\<forall>k < n. d' ! k = d ! k"
    by (auto simp: nth_append)
  have "take n d' = d" using d' d(1,3) by (intro nth_equalityI) simp_all
  then show ?thesis using bridge rx d'(1) mem' by blast
qed

definition ping :: "u8 list" where
  "ping = [0x45, 0, 0, 20, 0x28, 3, 0, 0, 64, 17, 0x48, 0xd0, 0, 0, 0, 0, 10, 0, 0, 7]"

definition bridge_fresh :: bridge where
  "bridge_fresh = \<lparr>radio_msg = 2, radio_tx_pending = 0, br_subnet = 0, br_netmask = 0xff\<rparr>"

lemma ping_valid:
  "length ping = 20" "ping ! 0 = 0x45" "checksum_of (take 20 ping) = 0" "unat (bswap16 (get16 2 ping)) = 20"
  "bswap32 (get32 16 ping) = 0x0a000007" "datagram_mote bridge_fresh ping = 7"
proof -
  show "checksum_of (take 20 ping) = 0" by (subst checksum_zero_iff) (simp_all add: ping_def)
  show dest: "bswap32 (get32 16 ping) = 0x0a000007"
    by (simp add: ping_def get32_def word32_def read_bytes_def upt_rec bswap32_def)
  show "datagram_mote bridge_fresh ping = 7" by (simp add: datagram_mote_def dest bridge_fresh_def)
qed (simp_all add: ping_def get16_def word16_def read_bytes_def upt_rec bswap16_def)

lemma serial_to_mote_witness:
  "\<exists>s' mem' d'. fold (slip_hears (bridge_shown 1 32)) (slip_frame ping) (slip_fresh, (\<lambda>p. replicate 35 0), Some (bridge_fresh, []))
      = (s', mem', Some (bridge_fresh\<lparr>radio_msg := sl_rx_ptr slip_fresh, radio_tx_pending := 1\<rparr>,
          [SLIP_BRIDGE_TX_RADIO (datagram_mote bridge_fresh ping) 32 (sl_rx_ptr slip_fresh), SLIP_BRIDGE_SUB_TOG_GREEN]))
    \<and> IPV4_SIMPLE_RX (\<lambda>p st. (st, 5)) 3 (ipv4_fresh, (\<lambda>p. replicate 35 0)(3 := [7, 32, 9] @ drop 3 (mem' (sl_rx_ptr slip_fresh))), ())
        = Some ((ipv4_fresh, (\<lambda>p. replicate 35 0)(3 := [7, 32, 9] @ d'), ()), 5)
    \<and> length d' = 32 \<and> take 20 d' = ping"
  by (rule serial_to_mote)
    (simp_all only: ping_valid, simp_all add: slip_fresh_def slip_states_def sizeof_TOS_Msg_def bridge_fresh_def for_me_def ipv4_fresh_def RX_MASK_def)

section \<open>From a mote to the serial line\<close>

text \<open>A datagram from the radio, for one address, goes out over the serial line without its length byte, in
  a frame; the buffers change hands and the bridge takes nothing more from either side until the
  line reports the message sent.\<close>

theorem mote_to_serial:
  assumes br: "radio_tx_pending br = 0"
    and m: "length (mem p) = sizeof_TOS_Msg" "sint (mem p ! 3) = int n" "20 \<le> n" "n \<le> 30"
    and d: "d = take n (drop 4 (mem p))" "get32 16 d \<noteq> IPV4_BCAST_ADDR"
    and line: "sl_state s \<in> slip_states" "sl_state s AND TX_MASK = 0"
  shows "\<exists>br' mem' st k bytes. SLIP_BRIDGE_RX_RADIO 1 p (br, mem) = Some ((br', mem'), [SLIP_BRIDGE_TX_SLIP p (word_of_nat n)], radio_msg br)
    \<and> SLIP_TX_PACKET 1 p (word_of_nat n) (s, mem', w) = (st, [SLIP_SUB_TX_BYTE END], 1)
    \<and> snd (spool (slip_taken sent) k st) = bytes
    \<and> END # bytes = slip_frame (map (\<lambda>c. if c = ESC then END else c) d)
    \<and> SLIP_BRIDGE_RX_RADIO ok q (br', mem'') = Some ((br', mem''), [], q)
    \<and> SLIP_BRIDGE_RX_SLIP ok am_type q len (br', mem'') = Some ((br', mem''), [], q)
    \<and> SLIP_BRIDGE_TX_SLIP_DONE p (br', mem'') = ((br'\<lparr>radio_tx_pending := 0\<rparr>, mem''), 1)"
proof -
  define m' where "m' = take 3 (mem p) @ d @ drop (3 + n) (mem p)"
  let ?br = "br\<lparr>radio_msg := p, radio_tx_pending := 1\<rparr>"
  have shift: "shift_down 0 n (mem p) = Some m'"
    using shift_down_bytes [of 0 n "mem p"] m d by (simp add: m'_def sizeof_TOS_Msg_def)
  have len: "length m' = sizeof_TOS_Msg" "length d = n" using m d by (simp_all add: m'_def sizeof_TOS_Msg_def)
  have data: "data_of m' n = d" using m len(2) by (simp add: data_of_def m'_def sizeof_TOS_Msg_def)
  have "read_bytes 19 4 m' = read_bytes 16 4 d"
    using m len by (intro nth_equalityI) (simp_all add: m'_def nth_append sizeof_TOS_Msg_def)
  then have dest: "get32 19 m' = get32 16 d" by (simp add: get32_def)
  have int: "word_of_int (int n) = (word_of_nat n :: u16)" by simp
  have rx: "SLIP_BRIDGE_RX_RADIO 1 p (br, mem) = Some ((?br, mem(p := m')), [SLIP_BRIDGE_TX_SLIP p (word_of_nat n)], radio_msg br)"
    using br d(2) unfolding SLIP_BRIDGE_RX_RADIO_def prod.case m(2) nat_int shift option.case Let_def
    by (simp add: header_offsets sizeof_toshdr_def dest)
  let ?body = "concat (map stuff (map esc_to_end d))"
  have tx: "length ((mem(p := m')) p) = sizeof_TOS_Msg" "n \<le> DATA_LENGTH" "?body = concat (map stuff (map esc_to_end (data_of ((mem(p := m')) p) n)))"
    using len m(4) by (simp_all add: data DATA_LENGTH_def)
  note out = slip_taken_message(1,2) [where mem = "mem(p := m')", OF line tx]
  show ?thesis
  proof (intro exI conjI)
    show "SLIP_BRIDGE_RX_RADIO 1 p (br, mem) = Some ((?br, mem(p := m')), [SLIP_BRIDGE_TX_SLIP p (word_of_nat n)], radio_msg br)" by (rule rx)
    show "SLIP_TX_PACKET 1 p (word_of_nat n) (s, mem(p := m'), w)
      = ((s\<lparr>sl_state := sl_state s OR TRANSMITTING, sl_tx_ptr := p, sl_tx_len := word_of_nat n, sl_encodePos := 0\<rparr>, mem(p := m'), w),
         [SLIP_SUB_TX_BYTE END], 1)" by (rule out(1))
    show "snd (spool (slip_taken sent) (length ?body + 1)
        (s\<lparr>sl_state := sl_state s OR TRANSMITTING, sl_tx_ptr := p, sl_tx_len := word_of_nat n, sl_encodePos := 0\<rparr>, mem(p := m'), w)) = ?body @ [END]"
      unfolding out(2) snd_conv ..
    show "END # ?body @ [END] = slip_frame (map (\<lambda>c. if c = ESC then END else c) d)"
      by (simp add: slip_frame_def esc_to_end_def [abs_def])
    show "SLIP_BRIDGE_RX_RADIO ok q (?br, mem'') = Some ((?br, mem''), [], q)"
      by (simp add: SLIP_BRIDGE_RX_RADIO_def)
    show "SLIP_BRIDGE_RX_SLIP ok am_type q len (?br, mem'') = Some ((?br, mem''), [], q)"
      by (simp add: SLIP_BRIDGE_RX_SLIP_def)
    show "SLIP_BRIDGE_TX_SLIP_DONE p (?br, mem'') = ((?br\<lparr>radio_tx_pending := 0\<rparr>, mem''), 1)"
      by (simp add: SLIP_BRIDGE_TX_SLIP_DONE_def)
  qed
qed

lemma mote_to_serial_witness:
  "\<exists>br' mem' st k bytes. SLIP_BRIDGE_RX_RADIO 1 3 (bridge_fresh, (\<lambda>p. [7, 32, 9, 20] @ ping @ replicate 11 0))
      = Some ((br', mem'), [SLIP_BRIDGE_TX_SLIP 3 (word_of_nat 20)], radio_msg bridge_fresh)
    \<and> SLIP_TX_PACKET 1 3 (word_of_nat 20) (slip_fresh, mem', ()) = (st, [SLIP_SUB_TX_BYTE END], 1)
    \<and> snd (spool (slip_taken (\<lambda>p st. (st, 1))) k st) = bytes
    \<and> END # bytes = slip_frame (map (\<lambda>c. if c = ESC then END else c) ping)
    \<and> SLIP_BRIDGE_RX_RADIO 1 4 (br', (\<lambda>p. replicate 35 0)) = Some ((br', (\<lambda>p. replicate 35 0)), [], 4)
    \<and> SLIP_BRIDGE_RX_SLIP 1 32 4 20 (br', (\<lambda>p. replicate 35 0)) = Some ((br', (\<lambda>p. replicate 35 0)), [], 4)
    \<and> SLIP_BRIDGE_TX_SLIP_DONE 3 (br', (\<lambda>p. replicate 35 0)) = ((br'\<lparr>radio_tx_pending := 0\<rparr>, (\<lambda>p. replicate 35 0)), 1)"
  by (rule mote_to_serial)
    (simp_all add: ping_def sizeof_TOS_Msg_def bridge_fresh_def slip_fresh_def slip_states_def TX_MASK_def sint8_nonneg
      get32_def word32_def read_bytes_def upt_rec IPV4_BCAST_ADDR_def)

text \<open>A datagram that sets the bridge's network has its two addresses behind a header of 28 bytes, so it
  does not fit into a message: whatever it holds, the bridge reads beyond the buffer.\<close>

theorem bridge_config_out_of_bounds:
  assumes br: "radio_tx_pending br = 0" and m: "length (mem p) = sizeof_TOS_Msg" "28 \<le> n" "n \<le> 30"
    and d: "d = data_of (mem p) n" "datagram_mote br d = 0"
    and config: "bswap16 (get16 22 d) = CONFIG_PORT" "8 \<le> unat (bswap16 (get16 24 d))"
  shows "SLIP_BRIDGE_RX_SLIP radio_ok am_type p (word_of_nat n) (br, mem) = None"
proof -
  have "length (mem p) = 35" using m(1) by (simp add: sizeof_TOS_Msg_def)
  then obtain m' where up: "shift_up (nat (sint (word_of_nat n :: u16))) (mem p) = Some m'"
    and m': "length (m'[3 := word_of_nat n]) = 35" "\<And>k. k < n \<Longrightarrow> m'[3 := word_of_nat n] ! (4 + k) = d ! k"
    unfolding d(1) using length_put_before [of "mem p" n] m(3) by blast
  have len: "(ucast (word_of_nat n :: u16) :: u8) = word_of_nat n" using m by (simp add: unsigned_of_nat take_bit_nat_eq_self)
  have read: "read_bytes (4 + j) k (m'[3 := word_of_nat n]) = read_bytes j k d" if "j + k \<le> n" for j k
    using m'(2) that by (intro nth_equalityI) (simp_all add: add.assoc)
  have fields: "get32 20 (m'[3 := word_of_nat n]) = get32 16 d" "get16 26 (m'[3 := word_of_nat n]) = get16 22 d"
    "get16 28 (m'[3 := word_of_nat n]) = get16 24 d"
    using read [of 16 4] read [of 22 2] read [of 24 2] m(2) by (simp_all add: get16_def get32_def)
  show ?thesis
    using br d(2) config m'(1) unfolding SLIP_BRIDGE_RX_SLIP_def prod.case up option.case len Let_def
    by (simp add: header_offsets sizeof_toshdr_def sizeof_ipv4hdr_def sizeof_udphdr_def fields datagram_mote_def set_network_def)
qed

lemma bridge_config_out_of_bounds_witness:
  "SLIP_BRIDGE_RX_SLIP 1 32 3 (word_of_nat 30)
     (bridge_fresh, (\<lambda>p. replicate 25 0 @ [0x28, 0x70, 0, 16] @ replicate 6 0)) = None"
  by (rule bridge_config_out_of_bounds [where d = "replicate 22 0 @ [0x28, 0x70, 0, 16] @ replicate 4 0"])
    (simp_all add: bridge_fresh_def sizeof_TOS_Msg_def data_of_def datagram_mote_def get32_def get16_def word32_def word16_def
      read_bytes_def upt_rec nth_append bswap32_def bswap16_def CONFIG_PORT_def)

end
