(* ===== verification/FourB.thy ===== *)
theory FourB
  imports ByteLink
begin

text \<open>
  The radio byte layer with the four-bits-in-six code, \<open>aps_proj/system/FOUR_B_RADIO_BYTE.c\<close>, in
  the mote build (\<open>FULLPC\<close> not defined): each half of a byte goes on the air as six bits of which
  three are ones. The state machine is that of \<open>SEC_DED_RADIO_BYTE.c\<close> without the states 7 and 8;
  state 0xff is switched off.

  The lemmas: the code over all bytes, its balance, and whole bytes through the bit events.
\<close>

section \<open>State and operations\<close>

definition bldTbl :: "u8 list" where
  "bldTbl = [0x15, 0x31, 0x32, 0x23, 0x34, 0x25, 0x26, 0x07, 0x38, 0x29, 0x2A, 0x0B, 0x2C, 0x0D, 0x0E, 0x1C]"

record four_b =
  fb_first :: u8
  fb_second :: u8
  fb_third :: u8
  fb_fourth :: u8
  fb_state :: u8
  fb_count :: u8
  fb_last_bit :: u8
  fb_waiting :: u8
  fb_wait_amount :: u8
  fb_shift_reg :: u16

definition encodeNibble :: "u8 \<Rightarrow> u8" where
  "encodeNibble n = bldTbl ! unat n"

definition decodeNibbles :: "u8 \<Rightarrow> u8 \<Rightarrow> u8" where
  "decodeNibbles first second =
     (let first = (if first = 0x15 then 0 else if first = 0x1c then 0xf else first);
          second = (if second = 0x15 then 0 else if second = 0x1c then 0xf else second);
          out = push_bit 4 first
      in out OR (second AND 0xf))"

definition four_b_encode_thread :: "four_b \<Rightarrow> four_b" where
  "four_b_encode_thread s =
     (let s = s\<lparr>fb_fourth := encodeNibble (fb_third s AND 0xf)\<rparr>;
          s = s\<lparr>fb_third := encodeNibble (signed_drop_bit 4 (fb_third s) AND 0xf)\<rparr>
      in if fb_state s = 1 then s\<lparr>fb_first := 0x26, fb_second := 0xb5, fb_count := -2, fb_state := 4\<rparr>
         else s\<lparr>fb_state := 4\<rparr>)"

text \<open>\<open>wanted\<close> is the answer of the packet layer to the byte: whether it wants more.\<close>

definition four_b_decode_thread :: "u8 \<Rightarrow> four_b \<Rightarrow> four_b \<times> radio_out list" where
  "four_b_decode_thread wanted s =
     (let out = [RADIO_BYTE_RX_BYTE_READY (decodeNibbles (fb_third s) (fb_fourth s)) 0]
      in if wanted = 0 then (s\<lparr>fb_state := 0\<rparr>, out @ [RADIO_SUB_SET_BIT_RATE 0]) else (s, out))"

definition four_b_RADIO_BYTE_INIT :: "u8 \<Rightarrow> four_b \<Rightarrow> four_b \<times> radio_out list \<times> u8" where
  "four_b_RADIO_BYTE_INIT addr s =
     (s\<lparr>fb_wait_amount := 12, fb_shift_reg := 119 * ucast addr\<rparr>, [RADIO_SUB_INIT], 1)"

definition four_b_RADIO_BYTE_TX_BYTES :: "u8 \<Rightarrow> four_b \<Rightarrow> four_b \<times> radio_out list \<times> u8" where
  "four_b_RADIO_BYTE_TX_BYTES data s =
     (if fb_state s = 0 then (s\<lparr>fb_third := data, fb_state := 10\<rparr>, [], 1)
      else if fb_state s = 2 then (s\<lparr>fb_state := 3, fb_third := data\<rparr>, [POST_ENCODE], 1)
      else if fb_state s = 4 then (s, [], 0)
      else (s, [], 0))"

definition four_b_RADIO_BYTE_PWR :: "u8 \<Rightarrow> four_b \<Rightarrow> four_b \<times> radio_out list \<times> u8" where
  "four_b_RADIO_BYTE_PWR mode s =
     (if mode = 0 then (s\<lparr>fb_state := 0xff\<rparr>, [RADIO_SUB_PWR 0], 1)
      else (s\<lparr>fb_state := 0\<rparr>, [RADIO_SUB_RX_MODE, RADIO_SUB_SET_BIT_RATE 0], 1))"

definition four_b_TX_BIT_EVENT :: "four_b \<Rightarrow> four_b \<times> radio_out list \<times> u8" where
  "four_b_TX_BIT_EVENT s =
     (if fb_state s \<noteq> 2 \<and> fb_state s \<noteq> 3 \<and> fb_state s \<noteq> 4 then (s, [], 0)
      else
        (let out = [RADIO_SUB_TX_BIT (fb_second s AND 0x01)];
             s = s\<lparr>fb_second := signed_drop_bit 1 (fb_second s)\<rparr>;
             s = s\<lparr>fb_count := fb_count s + 1\<rparr>
         in if fb_count s = 6 then (s\<lparr>fb_second := fb_first s\<rparr>, out, 1)
            else if fb_count s = 12 then
              (if fb_state s = 4
               then (s\<lparr>fb_first := fb_third s, fb_second := fb_fourth s, fb_count := 0, fb_state := 2\<rparr>,
                     out @ [RADIO_BYTE_TX_BYTE_READY 1], 1)
               else (s\<lparr>fb_state := 0\<rparr>,
                     out @ [RADIO_BYTE_TX_BYTE_READY 1, RADIO_BYTE_TX_DONE, RADIO_SUB_RX_MODE, RADIO_SUB_SET_BIT_RATE 0],
                     1))
            else (s, out, 1)))"

definition four_b_backoff :: "four_b \<Rightarrow> four_b" where
  "four_b_backoff s =
     (let r = fb_shift_reg s;
          b = (ucast (drop_bit 1 (r AND 0x2)) :: u8);
          b = b XOR ucast (drop_bit 14 (r AND 0x4000));
          b = b XOR ucast (drop_bit 15 (r AND 0x8000));
          r = drop_bit 1 r;
          r = (if b AND 0x1 \<noteq> 0 then r OR 0x8000 else r)
      in s\<lparr>fb_shift_reg := r, fb_wait_amount := ucast (r AND 0x3f) + 12\<rparr>)"

definition four_b_RX_BIT_EVENT :: "u8 \<Rightarrow> four_b \<Rightarrow> four_b \<times> radio_out list \<times> u8" where
  "four_b_RX_BIT_EVENT data s =
     (if fb_state s = 0 then
        (if fb_last_bit s \<noteq> data then (s\<lparr>fb_last_bit := data\<rparr>, [], 1)
         else
           (let s = s\<lparr>fb_last_bit := 0xff\<rparr>;
                w = signed_drop_bit 1 (fb_second s) AND 0x7f;
                w = (if fb_first s AND 0x1 \<noteq> 0 then w OR 0x80 else w);
                s = s\<lparr>fb_second := w, fb_first := data AND 0x1\<rparr>
            in if fb_first s = 0x1 \<and> fb_second s = 0x35
               then (s\<lparr>fb_state := 5, fb_count := 0\<rparr>, [RADIO_SUB_SET_BIT_RATE 1], 1)
               else (s, [], 1)))
      else if fb_state s = 5 then
        (s\<lparr>fb_state := 6, fb_count := 1, fb_first := if data \<noteq> 0 then 0x20 else 0\<rparr>, [RADIO_SUB_SET_BIT_RATE 2], 1)
      else if fb_state s = 6 then
        (let s = s\<lparr>fb_count := fb_count s + 1\<rparr>;
             w = signed_drop_bit 1 (fb_first s) AND 0x1f;
             w = (if data \<noteq> 0 then w OR 0x20 else w);
             s = s\<lparr>fb_first := w\<rparr>
         in if fb_count s = 6 then (s\<lparr>fb_fourth := fb_first s\<rparr>, [], 1)
            else if fb_count s = 12
            then (s\<lparr>fb_count := 0, fb_third := fb_first s, fb_state := 5\<rparr>, [POST_DECODE], 1)
            else (s, [], 1))
      else if fb_state s = 10 then
        (if data \<noteq> 0 then (s\<lparr>fb_waiting := 0\<rparr>, [], 1)
         else
           (let s = s\<lparr>fb_waiting := fb_waiting s + 1\<rparr>;
                s = (if fb_waiting s = 11 then four_b_backoff s else s)
            in if fb_wait_amount s <s fb_waiting s
               then (s\<lparr>fb_state := 1, fb_waiting := 0\<rparr>, [RADIO_SUB_TX_MODE, RADIO_SUB_SET_BIT_RATE 2, POST_ENCODE], 1)
               else (s, [], 1)))
      else (s, [], 1))"

section \<open>The code\<close>

definition fb_high :: "u8 \<Rightarrow> u8" where "fb_high b = encodeNibble (signed_drop_bit 4 b AND 0xf)"
definition fb_low :: "u8 \<Rightarrow> u8" where "fb_low b = encodeNibble (b AND 0xf)"

fun fb_code_ok :: "u8 \<Rightarrow> u8 \<Rightarrow> u8 \<Rightarrow> bool" where
  "fb_code_ok b h l \<longleftrightarrow> decodeNibbles h l = b \<and> h AND 0xc0 = 0 \<and> l AND 0xc0 = 0"

definition fb_byte_ok :: "u8 \<Rightarrow> bool" where
  "fb_byte_ok b \<longleftrightarrow> fb_code_ok b (fb_high b) (fb_low b)"

lemma fb_all_bytes_ok: "all_below 256 fb_byte_ok"
  by code_simp

lemma fb_code: "decodeNibbles (fb_high b) (fb_low b) = b"
  "fb_high b AND 0xc0 = 0" "fb_low b AND 0xc0 = 0"
  using all_bytesD [OF fb_all_bytes_ok, of b] by (simp_all add: fb_byte_ok_def)

definition bits6 :: "u8 \<Rightarrow> bool list" where
  "bits6 w = map (bit w) [0..<6]"

lemma length_bits6 [simp]: "length (bits6 w) = 6"
  by (simp add: bits6_def)

lemma bits6_nths: "bits6 w = [bit w 0, bit w 1, bit w 2, bit w 3, bit w 4, bit w 5]"
  by (simp add: bits6_def numeral_eq_Suc)

definition shift6 :: "u8 \<Rightarrow> bool \<Rightarrow> u8" where
  "shift6 w b = (if b then (signed_drop_bit 1 w AND 0x1f) OR 0x20 else signed_drop_bit 1 w AND 0x1f)"

lemma bits6_shift6: "bits6 (shift6 w b) = tl (bits6 w) @ [b]"
  by (simp add: shift6_def bits6_def upt_rec bit_simps)

lemma bits6_foldl: "bits6 (foldl shift6 w bs) = drop (length bs) (bits6 w @ bs)"
proof (induction bs arbitrary: w)
  case (Cons b bs)
  show ?case by (simp add: Cons bits6_shift6) (simp add: bits6_def upt_rec)
qed simp

lemma shift6_small: "shift6 w b AND 0xc0 = 0"
  by (rule u8_bits_eqI; simp add: shift6_def bit_simps)

lemma foldl_shift6_small: "bs \<noteq> [] \<Longrightarrow> foldl shift6 w bs AND 0xc0 = 0"
  by (cases bs rule: rev_cases) (simp_all add: shift6_small)

lemma bits6_inject: "bits6 a = bits6 b \<Longrightarrow> a AND 0xc0 = 0 \<Longrightarrow> b AND 0xc0 = 0 \<Longrightarrow> a = b"
proof (rule u8_bits_eqI)
  assume ab: "a AND 0xc0 = 0" "b AND 0xc0 = 0"
  have "bit (a AND 0xc0) 6 = bit a 6" "bit (a AND 0xc0) 7 = bit a 7" "bit (b AND 0xc0) 6 = bit b 6"
    "bit (b AND 0xc0) 7 = bit b 7"
    by (simp_all add: bit_simps)
  with ab show "bit a 6 = bit b 6" "bit a 7 = bit b 7" by simp_all
qed (simp_all add: bits6_nths)

definition word6 :: "bool list \<Rightarrow> u8" where
  "word6 bs = foldl shift6 0 bs"

lemma foldl_shift6_6: "length bs = 6 \<Longrightarrow> foldl shift6 w bs = word6 bs"
  by (rule bits6_inject) (simp_all add: word6_def bits6_foldl foldl_shift6_small [of bs] del: foldl.simps flip: length_greater_0_conv)

lemma word6_bits6: "w AND 0xc0 = 0 \<Longrightarrow> word6 (bits6 w) = w"
  unfolding word6_def by (rule bits6_inject)
    (simp_all add: bits6_foldl foldl_shift6_small flip: length_greater_0_conv)

section \<open>A byte through the bit events\<close>

primrec fb_tx_run :: "nat \<Rightarrow> four_b \<Rightarrow> bool list \<times> four_b" where
  "fb_tx_run 0 s = ([], s)"
| "fb_tx_run (Suc n) s = (case four_b_TX_BIT_EVENT s of (s', out, _) \<Rightarrow>
     (case fb_tx_run n s' of (bs, s'') \<Rightarrow> (sent_bits out @ bs, s'')))"

lemma fb_tx_run_add:
  "fb_tx_run (m + n) s = (case fb_tx_run m s of (b1, s1) \<Rightarrow> case fb_tx_run n s1 of (b2, s2) \<Rightarrow> (b1 @ b2, s2))"
  by (induction m arbitrary: s) (simp_all split: prod.splits)

text \<open>The receiver's events, with the decoding task run between the event that posts it and the
  next and its byte wanted.\<close>

primrec fb_rx_run :: "bool list \<Rightarrow> four_b \<Rightarrow> u8 list \<times> four_b" where
  "fb_rx_run [] r = ([], r)"
| "fb_rx_run (b # bs) r = (case four_b_RX_BIT_EVENT (bit_val b) r of (r', out, _) \<Rightarrow>
     (case (if POST_DECODE \<in> set out then four_b_decode_thread 1 r' else (r', [])) of (r', out') \<Rightarrow>
       (case fb_rx_run bs r' of (ds, r'') \<Rightarrow> ([d. RADIO_BYTE_RX_BYTE_READY d _ \<leftarrow> out'] @ ds, r''))))"

lemma fb_rx_run_append:
  "fb_rx_run (bs @ cs) r = (case fb_rx_run bs r of (d1, r1) \<Rightarrow> case fb_rx_run cs r1 of (d2, r2) \<Rightarrow> (d1 @ d2, r2))"
  by (induction bs arbitrary: r) (simp_all split: prod.splits if_splits)

definition fb_sends :: "four_b \<Rightarrow> bool" where
  "fb_sends s \<longleftrightarrow> fb_state s \<in> {2, 3, 4}"

interpretation fb_shift: shift_sender fb_sends fb_second fb_count "\<lambda>w c s. s\<lparr>fb_second := w, fb_count := c\<rparr>"
    "{6, 12}" fb_tx_run
proof
  fix s :: four_b and n
  assume "fb_sends s" "fb_count s + 1 \<notin> {6, 12}"
  then show "fb_tx_run (Suc n) s = (case fb_tx_run n (s\<lparr>fb_second := signed_drop_bit 1 (fb_second s), fb_count := fb_count s + 1\<rparr>)
      of (bs, s') \<Rightarrow> (bit (fb_second s) 0 # bs, s'))"
    by (auto simp: fb_sends_def four_b_TX_BIT_EVENT_def and_1_eq_1 split: prod.splits)
qed (simp_all add: fb_sends_def)

lemma fb_tx_half:
  assumes "fb_sends s" and "fb_count s = 0 \<or> fb_count s = 6"
  shows "fb_tx_run 5 s = (map (bit (fb_second s)) [0..<5],
    s\<lparr>fb_second := signed_drop_bit 5 (fb_second s), fb_count := fb_count s + 5\<rparr>)"
proof -
  have "fb_count s + word_of_nat (Suc i) \<notin> {6, 12}" if "i < 5" for i
  proof -
    have "i \<in> {0, 1, 2, 3, 4}" using that by auto
    then show ?thesis using assms(2) by auto
  qed
  then show ?thesis using fb_shift.run_shift [OF assms(1), of 5] by simp
qed

definition fb_next :: "four_b \<Rightarrow> four_b" where
  "fb_next s = (if fb_state s = 4
     then s\<lparr>fb_first := fb_third s, fb_second := fb_fourth s, fb_count := 0, fb_state := 2\<rparr>
     else s\<lparr>fb_second := signed_drop_bit 6 (fb_first s), fb_count := 12, fb_state := 0\<rparr>)"

lemma fb_tx_12:
  assumes "fb_sends s" and "fb_count s = 0"
  shows "fb_tx_run 12 s = (bits6 (fb_second s) @ bits6 (fb_first s), fb_next s)"
proof -
  let ?s1 = "s\<lparr>fb_second := fb_first s, fb_count := 6\<rparr>"
  have 1: "fb_tx_run 1 (s\<lparr>fb_second := w, fb_count := 5\<rparr>) = ([bit w 0], ?s1)" for w
    using assms(1) by (auto simp: fb_sends_def four_b_TX_BIT_EVENT_def and_1_eq_1)
  have 2: "fb_tx_run 1 (?s1\<lparr>fb_second := signed_drop_bit 5 (fb_first s), fb_count := 11\<rparr>)
      = ([bit (signed_drop_bit 5 (fb_first s)) 0], fb_next s)"
    using assms(1) by (auto simp: fb_sends_def four_b_TX_BIT_EVENT_def and_1_eq_1 fb_next_def)
  have six: "bits6 w = map (bit w) [0..<5] @ [bit (signed_drop_bit 5 w) 0]" for w
    by (simp add: bits6_def numeral_eq_Suc bit_simps)
  have "fb_tx_run (5 + (1 + (5 + 1))) s = (bits6 (fb_second s) @ bits6 (fb_first s), fb_next s)"
    unfolding fb_tx_run_add six using fb_tx_half [OF assms(1)] fb_tx_half [of ?s1] assms
      1 [of "signed_drop_bit 5 (fb_second s)"] 2
    by (simp add: fb_sends_def)
  then show ?thesis by simp
qed

lemma fb_rx5:
  "fb_state r = 5 \<Longrightarrow> four_b_RX_BIT_EVENT (bit_val b) r =
     (r\<lparr>fb_state := 6, fb_count := 1, fb_first := shift6 0 b\<rparr>, [RADIO_SUB_SET_BIT_RATE 2], 1)"
  by (simp add: four_b_RX_BIT_EVENT_def shift6_def)

lemma fb_rx6:
  "fb_state r = 6 \<Longrightarrow> four_b_RX_BIT_EVENT (bit_val b) r =
     (if fb_count r + 1 = 12
      then (r\<lparr>fb_first := shift6 (fb_first r) b, fb_count := 0, fb_third := shift6 (fb_first r) b, fb_state := 5\<rparr>,
        [POST_DECODE], 1)
      else (r\<lparr>fb_first := shift6 (fb_first r) b, fb_count := fb_count r + 1,
        fb_fourth := if fb_count r + 1 = 6 then shift6 (fb_first r) b else fb_fourth r\<rparr>, [], 1))"
  by (cases r) (simp add: four_b_RX_BIT_EVENT_def shift6_def Let_def)

lemma fb_rx_12:
  assumes "fb_state r = 5" and "length bs = 12"
  shows "\<exists>r'. fb_rx_run bs r = ([decodeNibbles (word6 (drop 6 bs)) (word6 (take 6 bs))], r') \<and> fb_state r' = 5"
proof -
  have "length bs = Suc (Suc (Suc (Suc (Suc (Suc (Suc (Suc (Suc (Suc (Suc (Suc 0)))))))))))"
    using assms(2) by simp
  then obtain a b c d e f g h i j k l where bs: "bs = [a, b, c, d, e, f, g, h, i, j, k, l]"
    by (auto simp: length_Suc_conv)
  have low: "word6 (take 6 bs) = foldl shift6 (shift6 0 a) [b, c, d, e, f]"
    by (simp add: bs word6_def)
  have high: "word6 (drop 6 bs) = foldl shift6 (word6 (take 6 bs)) [g, h, i, j, k, l]"
    by (subst foldl_shift6_6) (simp_all add: bs)
  show ?thesis
    unfolding high low
    using assms(1) by (simp add: bs fb_rx5 fb_rx6 four_b_decode_thread_def)
qed

section \<open>The link\<close>

definition fb_loaded :: "u8 \<Rightarrow> four_b" where
  "fb_loaded b = \<lparr>fb_first = fb_high b, fb_second = fb_low b, fb_third = 0, fb_fourth = 0, fb_state = 2, fb_count = 0,
     fb_last_bit = 0xff, fb_waiting = 0, fb_wait_amount = 12, fb_shift_reg = 1\<rparr>"

definition four_b_tx_bits :: "u8 \<Rightarrow> bool list" where
  "four_b_tx_bits b = fst (fb_tx_run 12 (fb_loaded b))"

definition four_b_rx_byte :: "bool list \<Rightarrow> u8" where
  "four_b_rx_byte bs = hd (fst (fb_rx_run bs ((fb_loaded 0)\<lparr>fb_state := 5\<rparr>)))"

lemma four_b_tx_bits_code: "four_b_tx_bits b = bits6 (fb_low b) @ bits6 (fb_high b)"
  using fb_tx_12 [of "fb_loaded b"] by (simp add: four_b_tx_bits_def fb_sends_def fb_loaded_def)

lemma four_b_rx_byte_eq:
  "length bs = 12 \<Longrightarrow> four_b_rx_byte bs = decodeNibbles (word6 (drop 6 bs)) (word6 (take 6 bs))"
  using fb_rx_12 [of "(fb_loaded 0)\<lparr>fb_state := 5\<rparr>" bs] by (auto simp: four_b_rx_byte_def)

definition fb_listening :: "four_b \<Rightarrow> bool" where
  "fb_listening r \<longleftrightarrow> fb_state r = 5"

interpretation fb: byte_receiver fb_rx_run 12 four_b_tx_bits four_b_rx_byte fb_listening
proof
  show "\<exists>r'. fb_rx_run w r = ([four_b_rx_byte w], r') \<and> fb_listening r'"
    if "fb_listening r" "length w = 12" for r w
    using fb_rx_12 [of r w] that by (auto simp: fb_listening_def four_b_rx_byte_eq)
qed (simp_all add: fb_rx_run_append four_b_tx_bits_code four_b_rx_byte_eq word6_bits6 fb_code)

text \<open>A byte loaded, one more can be taken while it is sent.\<close>

definition fb_ready :: "u8 \<Rightarrow> four_b \<Rightarrow> bool" where
  "fb_ready b s \<longleftrightarrow> fb_state s = 2 \<and> fb_count s = 0 \<and> fb_first s = fb_high b \<and> fb_second s = fb_low b"

definition fb_send_next :: "u8 \<Rightarrow> four_b \<Rightarrow> bool list \<times> four_b" where
  "fb_send_next d s = (case four_b_RADIO_BYTE_TX_BYTES d s of (s', _, _) \<Rightarrow> fb_tx_run 12 (four_b_encode_thread s'))"

definition fb_send_last :: "four_b \<Rightarrow> bool list" where
  "fb_send_last s = fst (fb_tx_run 12 s)"

primrec fb_send :: "u8 list \<Rightarrow> four_b \<Rightarrow> bool list list" where
  "fb_send [] s = [fb_send_last s]"
| "fb_send (d # ds) s = (case fb_send_next d s of (bs, s') \<Rightarrow> bs # fb_send ds s')"

interpretation fb_tx: byte_sender 12 four_b_tx_bits four_b_rx_byte fb_send_next fb_send_last fb_ready
proof
  fix b d :: u8 and s :: four_b
  assume ready: "fb_ready b s"
  let ?e = "s\<lparr>fb_state := 4, fb_third := fb_high d, fb_fourth := fb_low d\<rparr>"
  have e: "four_b_encode_thread (s\<lparr>fb_state := 3, fb_third := d\<rparr>) = ?e"
    using ready by (simp add: four_b_encode_thread_def fb_high_def fb_low_def fb_ready_def)
  show "\<exists>s'. fb_send_next d s = (four_b_tx_bits b, s') \<and> fb_ready d s'"
    using ready fb_tx_12 [of ?e]
    by (simp add: fb_ready_def fb_send_next_def four_b_RADIO_BYTE_TX_BYTES_def e fb_sends_def four_b_tx_bits_code fb_next_def)
  show "fb_send_last s = four_b_tx_bits b"
    using ready fb_tx_12 [of s] by (simp add: fb_ready_def fb_send_last_def fb_sends_def four_b_tx_bits_code)
qed

lemma fb_send_code: "fb_ready b s \<Longrightarrow> fb_send ds s = map four_b_tx_bits (b # ds)"
proof -
  have "fb_send ds s = fb_tx.send ds s" by (induction ds arbitrary: s) simp_all
  moreover assume "fb_ready b s"
  ultimately show ?thesis by (simp only: fb_tx.send_code)
qed

lemma table_balanced: "list_all (\<lambda>w. length (filter id (bits6 w)) = 3) bldTbl"
  by (simp add: bldTbl_def bits6_nths bit_simps)

lemma encodeNibble_balanced: "n AND 0xf = n \<Longrightarrow> length (filter id (bits6 (encodeNibble n))) = 3"
proof -
  assume "n AND 0xf = n"
  then have "n \<le> 0xf" by (metis word_and_le1)
  then have "unat n < length bldTbl" by (simp add: word_le_nat_alt bldTbl_def)
  then show ?thesis using table_balanced by (simp add: encodeNibble_def list_all_length)
qed

lemma four_b_balanced: "length (filter id (four_b_tx_bits b)) = 6"
  by (simp add: four_b_tx_bits_code fb_low_def fb_high_def encodeNibble_balanced and.assoc)

text \<open>C39: Bytes sent one after the other arrive unchanged, and what is on the air is balanced:
  of the twelve bits of every byte exactly six are ones.\<close>

theorem four_b_stream:
  assumes "fb_ready d s" and "fb_state r = 5"
  shows "(\<exists>r'. fb_rx_run (concat (fb_send ds s)) r = (d # ds, r') \<and> fb_state r' = 5) \<and>
    (\<forall>w \<in> set (fb_send ds s). length w = 12 \<and> length (filter id w) = 6)"
proof (intro conjI ballI)
  show "\<exists>r'. fb_rx_run (concat (fb_send ds s)) r = (d # ds, r') \<and> fb_state r' = 5"
    using fb.run_sent [of r "d # ds"] assms by (simp add: fb_send_code fb_listening_def)
next
  fix w assume "w \<in> set (fb_send ds s)"
  then obtain b where w: "w = four_b_tx_bits b" unfolding fb_send_code [OF assms(1)] by auto
  then show "length w = 12" by (simp add: fb.tx_length)
  show "length (filter id w) = 6" unfolding w by (rule four_b_balanced)
qed

lemma four_b_stream_witness:
  "(\<exists>r'. fb_rx_run (concat (fb_send [0xff, 0x00] (fb_loaded 0x41))) (fb_loaded 0\<lparr>fb_state := 5\<rparr>) = ([0x41, 0xff, 0x00], r')
     \<and> fb_state r' = 5) \<and>
   list_all (\<lambda>w. length w = 12 \<and> length (filter id w) = 6) (fb_send [0xff, 0x00] (fb_loaded 0x41))"
  unfolding list_all_iff by (rule four_b_stream) (simp_all add: fb_ready_def fb_loaded_def)

end
