(* ===== verification/Manchester.thy ===== *)
theory Manchester
  imports ByteLink
begin

text \<open>
  The radio byte layer with Manchester coding, \<open>aps_proj/system/RADIO_BYTE.c\<close>, in the mote build
  (\<open>FULLPC\<close> not defined): each half of a byte goes on the air as eight bits, every bit followed by
  its complement. It sends at once, without listening for a quiet channel; its start symbol is 16
  bits long.

  The lemmas: the code over all bytes, its balance, whole bytes through the bit events, and the
  search for the start symbol.
\<close>

section \<open>State and operations\<close>

record radio_byte =
  mc_first :: u8
  mc_second :: u8
  mc_third :: u8
  mc_fourth :: u8
  mc_state :: u8
  mc_count :: u8
  mc_last_bit :: u8

definition manchester_encodeNibble :: "u8 \<Rightarrow> u8" where
  "manchester_encodeNibble n =
     (let out = push_bit 4 (n AND 0x8);
          out = out OR push_bit 3 (n AND 0x4);
          out = out OR push_bit 2 (n AND 0x2);
          out = out OR push_bit 1 (n AND 0x1)
      in out OR drop_bit 1 (NOT out AND 0xaa))"

definition manchester_decodeNibbles :: "u8 \<Rightarrow> u8 \<Rightarrow> u8" where
  "manchester_decodeNibbles first second =
     (let out = first AND 0x80;
          out = out OR (push_bit 1 first AND 0x40);
          out = out OR (push_bit 2 first AND 0x20);
          out = out OR (push_bit 3 first AND 0x10);
          out = out OR (signed_drop_bit 4 second AND 0x08);
          out = out OR (signed_drop_bit 3 second AND 0x04);
          out = out OR (signed_drop_bit 2 second AND 0x02)
      in out OR (signed_drop_bit 1 second AND 0x01))"

definition manchester_encode_thread :: "radio_byte \<Rightarrow> radio_byte" where
  "manchester_encode_thread s =
     (let s = s\<lparr>mc_fourth := manchester_encodeNibble (mc_third s AND 0xf)\<rparr>;
          s = s\<lparr>mc_third := manchester_encodeNibble (signed_drop_bit 4 (mc_third s) AND 0xf)\<rparr>
      in if mc_state s = 1 then s\<lparr>mc_first := 0x99, mc_second := 0x9a, mc_count := 0, mc_state := 4\<rparr>
         else s\<lparr>mc_state := 4\<rparr>)"

definition manchester_decode_thread :: "u8 \<Rightarrow> radio_byte \<Rightarrow> radio_byte \<times> radio_out list" where
  "manchester_decode_thread wanted s =
     (let out = [RADIO_BYTE_RX_BYTE_READY (manchester_decodeNibbles (mc_third s) (mc_fourth s)) 0]
      in if wanted = 0 then (s\<lparr>mc_state := 0\<rparr>, out @ [RADIO_SUB_SET_BIT_RATE 0]) else (s, out))"

definition manchester_RADIO_BYTE_INIT :: "radio_byte \<Rightarrow> radio_byte \<times> radio_out list \<times> u8" where
  "manchester_RADIO_BYTE_INIT s = (s, [RADIO_SUB_INIT], 1)"

definition manchester_RADIO_BYTE_TX_BYTES :: "u8 \<Rightarrow> radio_byte \<Rightarrow> radio_byte \<times> radio_out list \<times> u8" where
  "manchester_RADIO_BYTE_TX_BYTES data s =
     (if mc_state s = 0
      then (s\<lparr>mc_third := data, mc_state := 1\<rparr>, [RADIO_SUB_TX_MODE, RADIO_SUB_SET_BIT_RATE 2, POST_ENCODE], 1)
      else if mc_state s = 2 then (s\<lparr>mc_state := 3, mc_third := data\<rparr>, [POST_ENCODE], 1)
      else if mc_state s = 4 then (s, [], 0)
      else (s, [], 0))"

definition manchester_RADIO_BYTE_PWR :: "u8 \<Rightarrow> radio_byte \<Rightarrow> radio_byte \<times> radio_out list \<times> u8" where
  "manchester_RADIO_BYTE_PWR mode s =
     (if mode = 0 then (s\<lparr>mc_state := 0xff\<rparr>, [RADIO_SUB_PWR 0], 1)
      else (s\<lparr>mc_state := 0\<rparr>, [RADIO_SUB_RX_MODE, RADIO_SUB_SET_BIT_RATE 0], 1))"

definition manchester_TX_BIT_EVENT :: "radio_byte \<Rightarrow> radio_byte \<times> radio_out list \<times> u8" where
  "manchester_TX_BIT_EVENT s =
     (if mc_state s \<noteq> 2 \<and> mc_state s \<noteq> 3 \<and> mc_state s \<noteq> 4 then (s, [], 0)
      else
        (let out = [RADIO_SUB_TX_BIT (mc_second s AND 0x01)];
             s = s\<lparr>mc_second := signed_drop_bit 1 (mc_second s)\<rparr>;
             s = s\<lparr>mc_count := mc_count s + 1\<rparr>
         in if mc_count s = 8 then (s\<lparr>mc_second := mc_first s\<rparr>, out, 1)
            else if mc_count s = 16 then
              (if mc_state s = 4
               then (s\<lparr>mc_first := mc_third s, mc_second := mc_fourth s, mc_count := 0, mc_state := 2\<rparr>,
                     out @ [RADIO_BYTE_TX_BYTE_READY 1], 1)
               else (s\<lparr>mc_state := 0\<rparr>,
                     out @ [RADIO_SUB_RX_MODE, RADIO_BYTE_TX_BYTE_READY 1, RADIO_BYTE_TX_DONE, RADIO_SUB_SET_BIT_RATE 0],
                     1))
            else (s, out, 1)))"

definition manchester_RX_BIT_EVENT :: "u8 \<Rightarrow> radio_byte \<Rightarrow> radio_byte \<times> radio_out list \<times> u8" where
  "manchester_RX_BIT_EVENT data s =
     (if mc_state s = 0 then
        (if mc_last_bit s \<noteq> data then (s\<lparr>mc_last_bit := data\<rparr>, [], 1)
         else
           (let s = s\<lparr>mc_last_bit := 0xff\<rparr>;
                w = signed_drop_bit 1 (mc_second s) AND 0x7f;
                w = (if mc_first s AND 0x1 \<noteq> 0 then w OR 0x80 else w);
                v = signed_drop_bit 1 (mc_first s) AND 0x7f;
                v = (if data \<noteq> 0 then v OR 0x80 else v);
                s = s\<lparr>mc_second := w, mc_first := v\<rparr>
            in if mc_first s = 0x99 \<and> mc_second s = 0x9a
               then (s\<lparr>mc_state := 5, mc_count := 0\<rparr>, [RADIO_SUB_SET_BIT_RATE 1], 1)
               else (s, [], 1)))
      else if mc_state s = 5 then
        (s\<lparr>mc_state := 6, mc_count := 1, mc_first := if data \<noteq> 0 then 0x80 else 0\<rparr>, [RADIO_SUB_SET_BIT_RATE 2], 1)
      else if mc_state s = 6 then
        (let s = s\<lparr>mc_count := mc_count s + 1\<rparr>;
             w = signed_drop_bit 1 (mc_first s) AND 0x7f;
             w = (if data \<noteq> 0 then w OR 0x80 else w);
             s = s\<lparr>mc_first := w\<rparr>
         in if mc_count s = 8 then (s\<lparr>mc_fourth := mc_first s\<rparr>, [], 1)
            else if mc_count s = 16
            then (s\<lparr>mc_count := 0, mc_third := mc_first s, mc_state := 5\<rparr>, [POST_DECODE], 1)
            else (s, [], 1))
      else (s, [], 1))"

section \<open>The code\<close>

definition mc_high :: "u8 \<Rightarrow> u8" where "mc_high b = manchester_encodeNibble (signed_drop_bit 4 b AND 0xf)"
definition mc_low :: "u8 \<Rightarrow> u8" where "mc_low b = manchester_encodeNibble (b AND 0xf)"

lemma mc_nibble_bits:
  "bit (manchester_encodeNibble n) 7 = bit n 3" "bit (manchester_encodeNibble n) 6 = (\<not> bit n 3)"
  "bit (manchester_encodeNibble n) 5 = bit n 2" "bit (manchester_encodeNibble n) 4 = (\<not> bit n 2)"
  "bit (manchester_encodeNibble n) 3 = bit n 1" "bit (manchester_encodeNibble n) 2 = (\<not> bit n 1)"
  "bit (manchester_encodeNibble n) 1 = bit n 0" "bit (manchester_encodeNibble n) 0 = (\<not> bit n 0)"
  by (auto simp: manchester_encodeNibble_def Let_def bit_simps bit_times_2)

lemma mc_decode_bits:
  "bit (manchester_decodeNibbles h l) 7 = bit h 7" "bit (manchester_decodeNibbles h l) 6 = bit h 5"
  "bit (manchester_decodeNibbles h l) 5 = bit h 3" "bit (manchester_decodeNibbles h l) 4 = bit h 1"
  "bit (manchester_decodeNibbles h l) 3 = bit l 7" "bit (manchester_decodeNibbles h l) 2 = bit l 5"
  "bit (manchester_decodeNibbles h l) 1 = bit l 3" "bit (manchester_decodeNibbles h l) 0 = bit l 1"
  by (auto simp: manchester_decodeNibbles_def Let_def bit_simps bit_times_2)

lemma mc_code: "manchester_decodeNibbles (mc_high b) (mc_low b) = b"
  by (rule u8_bits_eqI; simp only: mc_decode_bits mc_high_def mc_low_def mc_nibble_bits; simp add: bit_simps)

lemma bits_of_nths: "bits_of w = [bit w 0, bit w 1, bit w 2, bit w 3, bit w 4, bit w 5, bit w 6, bit w 7]"
  by (simp add: bits_of_def numeral_eq_Suc)

text \<open>Every bit comes with its complement.\<close>

lemma mc_nibble_balanced: "length (filter id (bits_of (manchester_encodeNibble n))) = 4"
  by (simp only: bits_of_nths mc_nibble_bits) simp

section \<open>A byte through the bit events\<close>

primrec mc_tx_run :: "nat \<Rightarrow> radio_byte \<Rightarrow> bool list \<times> radio_byte" where
  "mc_tx_run 0 s = ([], s)"
| "mc_tx_run (Suc n) s = (case manchester_TX_BIT_EVENT s of (s', out, _) \<Rightarrow>
     (case mc_tx_run n s' of (bs, s'') \<Rightarrow> (sent_bits out @ bs, s'')))"

lemma mc_tx_run_add:
  "mc_tx_run (m + n) s = (case mc_tx_run m s of (b1, s1) \<Rightarrow> case mc_tx_run n s1 of (b2, s2) \<Rightarrow> (b1 @ b2, s2))"
  by (induction m arbitrary: s) (simp_all split: prod.splits)

primrec mc_rx_run :: "bool list \<Rightarrow> radio_byte \<Rightarrow> u8 list \<times> radio_byte" where
  "mc_rx_run [] r = ([], r)"
| "mc_rx_run (b # bs) r = (case manchester_RX_BIT_EVENT (bit_val b) r of (r', out, _) \<Rightarrow>
     (case (if POST_DECODE \<in> set out then manchester_decode_thread 1 r' else (r', [])) of (r', out') \<Rightarrow>
       (case mc_rx_run bs r' of (ds, r'') \<Rightarrow> ([d. RADIO_BYTE_RX_BYTE_READY d _ \<leftarrow> out'] @ ds, r''))))"

lemma mc_rx_run_append:
  "mc_rx_run (bs @ cs) r = (case mc_rx_run bs r of (d1, r1) \<Rightarrow> case mc_rx_run cs r1 of (d2, r2) \<Rightarrow> (d1 @ d2, r2))"
  by (induction bs arbitrary: r) (simp_all split: prod.splits if_splits)

definition mc_sends :: "radio_byte \<Rightarrow> bool" where
  "mc_sends s \<longleftrightarrow> mc_state s \<in> {2, 3, 4}"

interpretation mc_shift: shift_sender mc_sends mc_second mc_count "\<lambda>w c s. s\<lparr>mc_second := w, mc_count := c\<rparr>"
    "{8, 16}" mc_tx_run
proof
  fix s :: radio_byte and n
  assume "mc_sends s" "mc_count s + 1 \<notin> {8, 16}"
  then show "mc_tx_run (Suc n) s = (case mc_tx_run n (s\<lparr>mc_second := signed_drop_bit 1 (mc_second s), mc_count := mc_count s + 1\<rparr>)
      of (bs, s') \<Rightarrow> (bit (mc_second s) 0 # bs, s'))"
    by (auto simp: mc_sends_def manchester_TX_BIT_EVENT_def and_1_eq_1 split: prod.splits)
qed (simp_all add: mc_sends_def)

lemma mc_tx_half:
  assumes "mc_sends s" and "mc_count s = 0 \<or> mc_count s = 8"
  shows "mc_tx_run 7 s = (map (bit (mc_second s)) [0..<7],
    s\<lparr>mc_second := signed_drop_bit 7 (mc_second s), mc_count := mc_count s + 7\<rparr>)"
proof -
  have "mc_count s + word_of_nat (Suc i) \<notin> {8, 16}" if "i < 7" for i
  proof -
    have "i \<in> {0, 1, 2, 3, 4, 5, 6}" using that by auto
    then show ?thesis using assms(2) by auto
  qed
  then show ?thesis using mc_shift.run_shift [OF assms(1), of 7] by simp
qed

definition mc_next :: "radio_byte \<Rightarrow> radio_byte" where
  "mc_next s = (if mc_state s = 4
     then s\<lparr>mc_first := mc_third s, mc_second := mc_fourth s, mc_count := 0, mc_state := 2\<rparr>
     else s\<lparr>mc_second := signed_drop_bit 8 (mc_first s), mc_count := 16, mc_state := 0\<rparr>)"

lemma mc_tx_16:
  assumes "mc_sends s" and "mc_count s = 0"
  shows "mc_tx_run 16 s = (bits_of (mc_second s) @ bits_of (mc_first s), mc_next s)"
proof -
  let ?s1 = "s\<lparr>mc_second := mc_first s, mc_count := 8\<rparr>"
  have 1: "mc_tx_run 1 (s\<lparr>mc_second := w, mc_count := 7\<rparr>) = ([bit w 0], ?s1)" for w
    using assms(1) by (auto simp: mc_sends_def manchester_TX_BIT_EVENT_def and_1_eq_1)
  have 2: "mc_tx_run 1 (?s1\<lparr>mc_second := signed_drop_bit 7 (mc_first s), mc_count := 15\<rparr>)
      = ([bit (signed_drop_bit 7 (mc_first s)) 0], mc_next s)"
    using assms(1) by (auto simp: mc_sends_def manchester_TX_BIT_EVENT_def and_1_eq_1 mc_next_def)
  have eight: "bits_of w = map (bit w) [0..<7] @ [bit (signed_drop_bit 7 w) 0]" for w
    by (simp add: bits_of_def numeral_eq_Suc bit_simps)
  have "mc_tx_run (7 + (1 + (7 + 1))) s = (bits_of (mc_second s) @ bits_of (mc_first s), mc_next s)"
    unfolding mc_tx_run_add eight using mc_tx_half [OF assms(1)] mc_tx_half [of ?s1] assms
      1 [of "signed_drop_bit 7 (mc_second s)"] 2
    by (simp add: mc_sends_def)
  then show ?thesis by simp
qed

lemma mc_rx5:
  "mc_state r = 5 \<Longrightarrow> manchester_RX_BIT_EVENT (bit_val b) r =
     (r\<lparr>mc_state := 6, mc_count := 1, mc_first := shift_in 0 b\<rparr>, [RADIO_SUB_SET_BIT_RATE 2], 1)"
  by (simp add: manchester_RX_BIT_EVENT_def shift_in_def)

lemma mc_rx6:
  "mc_state r = 6 \<Longrightarrow> manchester_RX_BIT_EVENT (bit_val b) r =
     (if mc_count r + 1 = 16
      then (r\<lparr>mc_first := shift_in (mc_first r) b, mc_count := 0, mc_third := shift_in (mc_first r) b, mc_state := 5\<rparr>,
        [POST_DECODE], 1)
      else (r\<lparr>mc_first := shift_in (mc_first r) b, mc_count := mc_count r + 1,
        mc_fourth := if mc_count r + 1 = 8 then shift_in (mc_first r) b else mc_fourth r\<rparr>, [], 1))"
  by (cases r) (simp add: manchester_RX_BIT_EVENT_def shift_in_def Let_def)

lemma mc_rx_16:
  assumes "mc_state r = 5" and "length bs = 16"
  shows "\<exists>r'. mc_rx_run bs r = ([manchester_decodeNibbles (byte_of (drop 8 bs)) (byte_of (take 8 bs))], r') \<and> mc_state r' = 5"
proof -
  have "length bs = Suc (Suc (Suc (Suc (Suc (Suc (Suc (Suc (Suc (Suc (Suc (Suc (Suc (Suc (Suc (Suc 0)))))))))))))))"
    using assms(2) by simp
  then obtain a b c d e f g h i j k l m n p q where bs: "bs = [a, b, c, d, e, f, g, h, i, j, k, l, m, n, p, q]"
    by (auto simp: length_Suc_conv)
  have low: "byte_of (take 8 bs) = foldl shift_in (shift_in 0 a) [b, c, d, e, f, g, h]"
    by (simp add: bs byte_of_def)
  have high: "byte_of (drop 8 bs) = foldl shift_in (byte_of (take 8 bs)) [i, j, k, l, m, n, p, q]"
    by (subst foldl_shift_in_8) (simp_all add: bs)
  show ?thesis
    unfolding high low
    using assms(1) by (simp add: bs mc_rx5 mc_rx6 manchester_decode_thread_def)
qed

section \<open>The link\<close>

definition mc_loaded :: "u8 \<Rightarrow> radio_byte" where
  "mc_loaded b = \<lparr>mc_first = mc_high b, mc_second = mc_low b, mc_third = 0, mc_fourth = 0, mc_state = 2, mc_count = 0,
     mc_last_bit = 0xff\<rparr>"

definition manchester_tx_bits :: "u8 \<Rightarrow> bool list" where
  "manchester_tx_bits b = fst (mc_tx_run 16 (mc_loaded b))"

definition manchester_rx_byte :: "bool list \<Rightarrow> u8" where
  "manchester_rx_byte bs = hd (fst (mc_rx_run bs ((mc_loaded 0)\<lparr>mc_state := 5\<rparr>)))"

lemma manchester_tx_bits_code: "manchester_tx_bits b = bits_of (mc_low b) @ bits_of (mc_high b)"
  using mc_tx_16 [of "mc_loaded b"] by (simp add: manchester_tx_bits_def mc_sends_def mc_loaded_def)

lemma manchester_rx_byte_eq:
  "length bs = 16 \<Longrightarrow> manchester_rx_byte bs = manchester_decodeNibbles (byte_of (drop 8 bs)) (byte_of (take 8 bs))"
  using mc_rx_16 [of "(mc_loaded 0)\<lparr>mc_state := 5\<rparr>" bs] by (auto simp: manchester_rx_byte_def)

definition mc_listening :: "radio_byte \<Rightarrow> bool" where
  "mc_listening r \<longleftrightarrow> mc_state r = 5"

interpretation mc: byte_receiver mc_rx_run 16 manchester_tx_bits manchester_rx_byte mc_listening
proof
  show "\<exists>r'. mc_rx_run w r = ([manchester_rx_byte w], r') \<and> mc_listening r'"
    if "mc_listening r" "length w = 16" for r w
    using mc_rx_16 [of r w] that by (auto simp: mc_listening_def manchester_rx_byte_eq)
qed (simp_all add: mc_rx_run_append manchester_tx_bits_code manchester_rx_byte_eq mc_code)

definition mc_ready :: "u8 \<Rightarrow> radio_byte \<Rightarrow> bool" where
  "mc_ready b s \<longleftrightarrow> mc_state s = 2 \<and> mc_count s = 0 \<and> mc_first s = mc_high b \<and> mc_second s = mc_low b"

definition mc_send_next :: "u8 \<Rightarrow> radio_byte \<Rightarrow> bool list \<times> radio_byte" where
  "mc_send_next d s = (case manchester_RADIO_BYTE_TX_BYTES d s of (s', _, _) \<Rightarrow> mc_tx_run 16 (manchester_encode_thread s'))"

definition mc_send_last :: "radio_byte \<Rightarrow> bool list" where
  "mc_send_last s = fst (mc_tx_run 16 s)"

primrec mc_send :: "u8 list \<Rightarrow> radio_byte \<Rightarrow> bool list list" where
  "mc_send [] s = [mc_send_last s]"
| "mc_send (d # ds) s = (case mc_send_next d s of (bs, s') \<Rightarrow> bs # mc_send ds s')"

interpretation mc_tx: byte_sender 16 manchester_tx_bits manchester_rx_byte mc_send_next mc_send_last mc_ready
proof
  fix b d :: u8 and s :: radio_byte
  assume ready: "mc_ready b s"
  let ?e = "s\<lparr>mc_state := 4, mc_third := mc_high d, mc_fourth := mc_low d\<rparr>"
  have e: "manchester_encode_thread (s\<lparr>mc_state := 3, mc_third := d\<rparr>) = ?e"
    using ready by (simp add: manchester_encode_thread_def mc_high_def mc_low_def mc_ready_def)
  show "\<exists>s'. mc_send_next d s = (manchester_tx_bits b, s') \<and> mc_ready d s'"
    using ready mc_tx_16 [of ?e]
    by (simp add: mc_ready_def mc_send_next_def manchester_RADIO_BYTE_TX_BYTES_def e mc_sends_def
        manchester_tx_bits_code mc_next_def)
  show "mc_send_last s = manchester_tx_bits b"
    using ready mc_tx_16 [of s] by (simp add: mc_ready_def mc_send_last_def mc_sends_def manchester_tx_bits_code)
qed

lemma mc_send_code: "mc_ready b s \<Longrightarrow> mc_send ds s = map manchester_tx_bits (b # ds)"
proof -
  have "mc_send ds s = mc_tx.send ds s" by (induction ds arbitrary: s) simp_all
  moreover assume "mc_ready b s"
  ultimately show ?thesis by (simp only: mc_tx.send_code)
qed

section \<open>The start symbol\<close>

definition mc_window :: "radio_byte \<Rightarrow> bool list" where
  "mc_window s = bits_of (mc_second s) @ bits_of (mc_first s)"

definition mc_searching :: "radio_byte \<Rightarrow> bool" where
  "mc_searching s \<longleftrightarrow> mc_state s = 0 \<and> mc_last_bit s = 0xff"

definition mc_start :: "bool list" where
  "mc_start = bits_of 0x9a @ bits_of 0x99"

lemma bits_of_eq_iff: "bits_of a = bits_of b \<longleftrightarrow> a = b"
  by (auto dest: bits_of_inject)

interpretation mc_search: start_search mc_rx_run mc_searching mc_window mc_listening mc_start
proof
  fix r :: radio_byte and b
  assume r: "mc_searching r"
  let ?w = "shift_in (mc_second r) (bit (mc_first r) 0)" and ?v = "shift_in (mc_first r) b"
  let ?r = "r\<lparr>mc_second := ?w, mc_first := ?v, mc_last_bit := 0xff\<rparr>"
  have w: "mc_first r AND 1 \<noteq> 0 \<longleftrightarrow> bit (mc_first r) 0" by (simp add: and_one_eq mod_2_eq_odd bit_0)
  have ev: "mc_rx_run [b, b] r = ([], if ?v = 0x99 \<and> ?w = 0x9a then ?r\<lparr>mc_state := 5, mc_count := 0\<rparr> else ?r)"
    using r by (cases b) (auto simp: mc_searching_def manchester_RX_BIT_EVENT_def shift_in_def w Let_def)
  have tl: "tl (mc_window r) @ [b] = bits_of ?w @ bits_of ?v"
    by (simp add: mc_window_def bits_of_shift_in) (simp add: bits_of_def upt_rec)
  have "tl (mc_window r) @ [b] = mc_start \<longleftrightarrow> ?v = 0x99 \<and> ?w = 0x9a"
    unfolding tl mc_start_def by (auto simp: bits_of_eq_iff)
  then show "\<exists>r'. mc_rx_run [b, b] r = ([], r') \<and> (if tl (mc_window r) @ [b] = mc_start then mc_listening r'
      else mc_searching r' \<and> mc_window r' = tl (mc_window r) @ [b])"
    using r unfolding ev tl by (simp add: mc_listening_def mc_searching_def mc_window_def)
qed

text \<open>C38: From the first byte of a packet on: the sender puts the start symbol and then all bytes on
  the air; a receiver that has been looking at a quiet channel and samples the symbol twice a bit
  delivers exactly these bytes; and half of the bits of every byte are ones.\<close>

theorem manchester_transmission:
  assumes "mc_state s = 1" and "mc_searching r" and "mc_first r = 0" and "mc_second r = 0"
  shows "\<exists>start s' r' r''. mc_tx_run 16 (manchester_encode_thread s) = (start, s')
    \<and> mc_rx_run (sampled_twice start) r = ([], r')
    \<and> mc_rx_run (concat (mc_send ds s')) r' = (mc_third s # ds, r'') \<and> mc_state r'' = 5
    \<and> (\<forall>w \<in> set (mc_send ds s'). length w = 16 \<and> length (filter id w) = 8)"
proof -
  let ?e = "s\<lparr>mc_fourth := mc_low (mc_third s), mc_third := mc_high (mc_third s), mc_first := 0x99, mc_second := 0x9a,
    mc_count := 0, mc_state := 4\<rparr>"
  have e: "manchester_encode_thread s = ?e"
    using assms(1) by (simp add: manchester_encode_thread_def mc_low_def mc_high_def)
  have tx: "mc_tx_run 16 ?e = (mc_start, mc_next ?e)" and ready: "mc_ready (mc_third s) (mc_next ?e)"
    using mc_tx_16 [of ?e] by (simp_all add: mc_sends_def mc_start_def mc_ready_def mc_next_def)
  have "meets_last mc_start (mc_window r) mc_start"
    by (simp add: mc_window_def assms(3,4) mc_start_def bits_of_nths bit_simps)
  then obtain r' where start: "mc_rx_run (sampled_twice mc_start) r = ([], r')" "mc_listening r'"
    using mc_search.run_start [OF assms(2)] by blast
  then obtain r'' where "mc_rx_run (concat (map manchester_tx_bits (mc_third s # ds))) r' = (mc_third s # ds, r'')" "mc_listening r''"
    using mc.run_sent [of r' "mc_third s # ds"] by blast
  moreover have "length (filter id (manchester_tx_bits b)) = 8" for b
    by (simp add: manchester_tx_bits_code mc_low_def mc_high_def mc_nibble_balanced)
  ultimately show ?thesis
    using start(1) by (auto simp: e tx mc_send_code [OF ready] mc_listening_def mc.tx_length)
qed

lemma manchester_transmission_witness:
  "\<exists>start s' r' r''. mc_tx_run 16 (manchester_encode_thread ((mc_loaded 0)\<lparr>mc_state := 1, mc_third := 0x41\<rparr>)) = (start, s')
    \<and> mc_rx_run (sampled_twice start) ((mc_loaded 0)\<lparr>mc_state := 0, mc_first := 0, mc_second := 0\<rparr>) = ([], r')
    \<and> mc_rx_run (concat (mc_send [1, 2] s')) r' = ([0x41, 1, 2], r'') \<and> mc_state r'' = 5
    \<and> list_all (\<lambda>w. length w = 16 \<and> length (filter id w) = 8) (mc_send [1, 2] s')"
  unfolding list_all_iff using manchester_transmission [of "(mc_loaded 0)\<lparr>mc_state := 1, mc_third := 0x41\<rparr>"
      "(mc_loaded 0)\<lparr>mc_state := 0, mc_first := 0, mc_second := 0\<rparr>" "[1, 2]"]
  by (simp add: mc_loaded_def mc_searching_def)

end
