(* ===== verification/UartPacket.thy ===== *)
theory UartPacket
  imports PacketLink
begin

text \<open>
  The packet layer over the serial line, \<open>aps_proj/system/UART_PACKET.c\<close>, which undefines
  \<open>FULLPC\<close>. It differs from \<open>PACKETOBJ\<close> in that it is idle again before the layer above is shown a
  message, so that this layer can send from there, and in that the last report of a byte taken ends
  the transmission at once.
\<close>

definition UART_PACKET_TX_PACKET :: "u8 \<Rightarrow> ptr \<Rightarrow> packet \<times> memory \<Rightarrow> (packet \<times> memory) \<times> packet_out list \<times> u8" where
  "UART_PACKET_TX_PACKET accepted msg st =
     (case st of (s, mem) \<Rightarrow>
        if pk_state s = 0 then
          (let s = s\<lparr>pk_send_ptr := msg, pk_count := 1, pk_state := 1\<rparr>;
               out = [PACKET_SUB_TX_BYTES (mem (pk_send_ptr s) ! 0)]
           in if accepted \<noteq> 0 then ((s, mem), out, 1) else ((s\<lparr>pk_state := 0, pk_count := 0\<rparr>, mem), out, 0))
        else ((s, mem), [], 0))"

definition UART_PACKET_POWER :: "u8 \<Rightarrow> packet \<times> memory \<Rightarrow> packet \<times> memory" where
  "UART_PACKET_POWER mode st = st"

definition UART_PACKET_INIT :: "ptr \<Rightarrow> packet \<times> memory \<Rightarrow> (packet \<times> memory) \<times> packet_out list \<times> u8" where
  "UART_PACKET_INIT buffer st =
     (case st of (s, mem) \<Rightarrow> ((s\<lparr>pk_state := 0, pk_rec_ptr := buffer\<rparr>, mem), [PACKET_SUB_INIT], 1))"

definition UART_PACKET_RX_BYTE_READY ::
  "(ptr \<Rightarrow> packet \<times> memory \<Rightarrow> (packet \<times> memory) \<times> ptr) \<Rightarrow> u8 \<Rightarrow> u8 \<Rightarrow> packet \<times> memory
    \<Rightarrow> (packet \<times> memory) \<times> packet_out list \<times> u8" where
  "UART_PACKET_RX_BYTE_READY upcall data error st =
     (case st of (s, mem) \<Rightarrow>
        if error \<noteq> 0 then ((s\<lparr>pk_state := 0\<rparr>, mem), [], 0)
        else if pk_state s = 0 then
          (let s = s\<lparr>pk_state := 5, pk_count := 1\<rparr>
           in ((s, mem(pk_rec_ptr s := (mem (pk_rec_ptr s))[0 := data])), [], 1))
        else if pk_state s = 5 then
          (let mem = mem(pk_rec_ptr s := (mem (pk_rec_ptr s))[unat (pk_count s) := data]);
               s = s\<lparr>pk_count := pk_count s + 1\<rparr>
           in if size_val (pk_count s) = sizeof_TOS_Msg then
                (let s = s\<lparr>pk_state := 0\<rparr>
                 in case upcall (pk_rec_ptr s) (s, mem) of ((s, mem), tmp) \<Rightarrow>
                      ((if tmp \<noteq> 0 then s\<lparr>pk_rec_ptr := tmp\<rparr> else s, mem), [], 0))
              else ((s, mem), [], 1))
        else ((s, mem), [], 1))"

definition UART_PACKET_TX_BYTE_READY ::
  "(ptr \<Rightarrow> packet \<times> memory \<Rightarrow> packet \<times> memory) \<Rightarrow> u8 \<Rightarrow> packet \<times> memory
    \<Rightarrow> (packet \<times> memory) \<times> packet_out list \<times> u8" where
  "UART_PACKET_TX_BYTE_READY sent success st =
     (case (if success = 0
            then (case sent (pk_send_ptr (fst st)) st of (s, mem) \<Rightarrow> (s\<lparr>pk_state := 0, pk_count := 0\<rparr>, mem))
            else st) of (s, mem) \<Rightarrow>
        if pk_state s = 1 then
          (if size_val (pk_count s) < sizeof_TOS_Msg
           then ((s\<lparr>pk_count := pk_count s + 1\<rparr>, mem),
                 [PACKET_SUB_TX_BYTES (mem (pk_send_ptr s) ! unat (pk_count s))], 1)
           else (let s = s\<lparr>pk_state := 0, pk_count := 0\<rparr> in (sent (pk_send_ptr s) (s, mem), [], 1)))
        else ((s, mem), [], 1))"

definition UART_PACKET_BYTE_TX_DONE :: "packet \<times> memory \<Rightarrow> (packet \<times> memory) \<times> u8" where
  "UART_PACKET_BYTE_TX_DONE st = (st, 1)"

section \<open>Messages\<close>

interpretation uart_tx: buffer_sender "UART_PACKET_TX_BYTE_READY sent 1" for sent
  by unfold_locales (simp add: UART_PACKET_TX_BYTE_READY_def)

definition uart_deliver ::
  "(ptr \<Rightarrow> packet \<times> memory \<Rightarrow> (packet \<times> memory) \<times> ptr) \<Rightarrow> packet \<times> memory
    \<Rightarrow> (packet \<times> memory) \<times> packet_out list \<times> u8" where
  "uart_deliver upcall st = (case st of (s, mem) \<Rightarrow>
     (case upcall (pk_rec_ptr s) (s\<lparr>pk_state := 0\<rparr>, mem) of ((s', mem'), tmp) \<Rightarrow>
        ((s'\<lparr>pk_rec_ptr := if tmp \<noteq> 0 then tmp else pk_rec_ptr s'\<rparr>, mem'), [], 0)))"

interpretation uart_rx: buffer_receiver "UART_PACKET_RX_BYTE_READY upcall" "uart_deliver upcall" for upcall
  by unfold_locales (simp_all add: UART_PACKET_RX_BYTE_READY_def uart_deliver_def Let_def split: prod.splits)

text \<open>A message sent over the line and looped back to the receiver byte by byte arrives whole:
  the bytes handed down are the message, with the next report the sender is told it is sent, and the
  receiver shows its layer above exactly that message, being ready to send.\<close>

theorem uart_message_roundtrip:
  assumes "pk_state s = 0" and "length (mem msg) = sizeof_TOS_Msg" and "accepted \<noteq> 0"
    and "pk_state r = 0" and "length (rmem (pk_rec_ptr r)) = sizeof_TOS_Msg"
  shows "\<exists>d st0 ds st1. UART_PACKET_TX_PACKET accepted msg (s, mem) = (st0, [PACKET_SUB_TX_BYTES d], 1)
    \<and> spool (taken_with (UART_PACKET_TX_BYTE_READY sent 1)) 34 st0 = (st1, ds)
    \<and> UART_PACKET_TX_BYTE_READY sent 1 st1
        = (sent msg (s\<lparr>pk_send_ptr := msg, pk_state := 0, pk_count := 0\<rparr>, mem), [], 1)
    \<and> receive_with (UART_PACKET_RX_BYTE_READY upcall) (d # ds) (r, rmem)
        = uart_deliver upcall (with_message (mem msg) (r, rmem))"
proof -
  let ?s = "\<lambda>n. s\<lparr>pk_send_ptr := msg, pk_state := 1, pk_count := n\<rparr>"
  have tx: "UART_PACKET_TX_PACKET accepted msg (s, mem) = ((?s 1, mem), [PACKET_SUB_TX_BYTES (mem msg ! 0)], 1)"
    using assms(1,3) by (simp add: UART_PACKET_TX_PACKET_def)
  have "UART_PACKET_TX_BYTE_READY sent 1 (?s 35, mem)
      = (sent msg (s\<lparr>pk_send_ptr := msg, pk_state := 0, pk_count := 0\<rparr>, mem), [], 1)"
    by (simp add: UART_PACKET_TX_BYTE_READY_def size_val_numeral sizeof_TOS_Msg_def)
  moreover have "receive_with (UART_PACKET_RX_BYTE_READY upcall) (mem msg ! 0 # tl (mem msg)) (r, rmem)
      = uart_deliver upcall (with_message (mem msg) (r, rmem))"
    unfolding message_bytes [of mem msg, OF assms(2)] by (rule uart_rx.receive_message) (use assms in simp_all)
  ultimately show ?thesis
    using tx uart_tx.spool_message [of mem msg] assms(2) by blast
qed

lemma uart_message_roundtrip_witness:
  "\<exists>d st0 ds st1. UART_PACKET_TX_PACKET 1 2 (\<lparr>pk_state = 0, pk_count = 0, pk_rec_ptr = 1, pk_send_ptr = 0\<rparr>,
        \<lambda>p. map word_of_nat [0..<35]) = (st0, [PACKET_SUB_TX_BYTES d], 1)
    \<and> spool (taken_with (UART_PACKET_TX_BYTE_READY (\<lambda>p st. st) 1)) 34 st0 = (st1, ds)
    \<and> UART_PACKET_TX_BYTE_READY (\<lambda>p st. st) 1 st1
        = ((\<lparr>pk_state = 0, pk_count = 0, pk_rec_ptr = 1, pk_send_ptr = 2\<rparr>, \<lambda>p. map word_of_nat [0..<35]), [], 1)
    \<and> receive_with (UART_PACKET_RX_BYTE_READY (\<lambda>p st. (st, 0))) (d # ds)
        (\<lparr>pk_state = 0, pk_count = 0, pk_rec_ptr = 1, pk_send_ptr = 0\<rparr>, \<lambda>p. replicate 35 0)
        = uart_deliver (\<lambda>p st. (st, 0)) (with_message (map word_of_nat [0..<35])
            (\<lparr>pk_state = 0, pk_count = 0, pk_rec_ptr = 1, pk_send_ptr = 0\<rparr>, \<lambda>p. replicate 35 0))"
  using uart_message_roundtrip [where s = "\<lparr>pk_state = 0, pk_count = 0, pk_rec_ptr = 1, pk_send_ptr = 0\<rparr>" and msg = 2
      and mem = "\<lambda>p. map word_of_nat [0..<35]" and accepted = 1 and sent = "\<lambda>p st. st"
      and r = "\<lparr>pk_state = 0, pk_count = 0, pk_rec_ptr = 1, pk_send_ptr = 0\<rparr>" and rmem = "\<lambda>p. replicate 35 0"
      and upcall = "\<lambda>p st. (st, 0)"]
  by (simp add: sizeof_TOS_Msg_def del: upt_Suc)

end
