(* ===== verification/CrcPacket.thy ===== *)
theory CrcPacket
  imports PacketLink
begin

text \<open>
  The packet layer with a checksum, \<open>aps_proj/system/CRCPACKETOBJ.c\<close>. The checksum of a message is
  written into it by a task while its first bytes are already on their way, and checked by a task
  once a message is complete. The field \<open>crc\<close> of a message, which \<open>MSG.h\<close> has commented out, is read
  and written through the parameters \<open>crc_of\<close> and \<open>set_crc\<close>.

  The lemmas: the checksum is linear and one step of it invertible, so any change of two adjacent
  bytes is detected; the task that computes it is in time wherever it runs before the last two bytes.
\<close>

section \<open>The checksum\<close>

definition crc_bit :: "u16 \<Rightarrow> u16" where
  "crc_bit crc = (if crc AND 0x8000 \<noteq> 0 then push_bit 1 crc XOR 0x1021 else push_bit 1 crc)"

definition crc_byte :: "u16 \<Rightarrow> u8 \<Rightarrow> u16" where
  "crc_byte crc b = (crc_bit ^^ 8) (crc XOR push_bit 8 (scast b))"

definition calcrc :: "u8 list \<Rightarrow> nat \<Rightarrow> u16" where
  "calcrc bs count = foldl crc_byte 0 (take count bs)"

section \<open>Operations\<close>

text \<open>\<open>pk_send_ptr\<close> is the frame's \<open>data\<close>, \<open>pk_rec_ptr\<close> its \<open>msg\<close>.\<close>

definition CRC_calc :: "(u16 \<Rightarrow> u8 list \<Rightarrow> u8 list) \<Rightarrow> packet \<times> memory \<Rightarrow> packet \<times> memory" where
  "CRC_calc set_crc st =
     (case st of (s, mem) \<Rightarrow>
        (s, mem(pk_send_ptr s := set_crc (calcrc (mem (pk_send_ptr s)) (sizeof_TOS_Msg - 2)) (mem (pk_send_ptr s)))))"

definition check_crc ::
  "(u8 list \<Rightarrow> u16) \<Rightarrow> (ptr \<Rightarrow> packet \<times> memory \<Rightarrow> (packet \<times> memory) \<times> ptr) \<Rightarrow> packet \<times> memory \<Rightarrow> packet \<times> memory" where
  "check_crc crc_of upcall st =
     (case st of (s, mem) \<Rightarrow>
        (let crc = calcrc (mem (pk_rec_ptr s)) (sizeof_TOS_Msg - 2);
             s = s\<lparr>pk_state := 0\<rparr>
         in if crc = crc_of (mem (pk_rec_ptr s)) then
              (case upcall (pk_rec_ptr s) (s, mem) of ((s, mem), tmp) \<Rightarrow>
                 (if tmp \<noteq> 0 then s\<lparr>pk_rec_ptr := tmp\<rparr> else s, mem))
            else (s, mem)))"

definition CRC_PACKET_TX_PACKET :: "u8 \<Rightarrow> ptr \<Rightarrow> packet \<times> memory \<Rightarrow> (packet \<times> memory) \<times> packet_out list \<times> u8" where
  "CRC_PACKET_TX_PACKET accepted data st =
     (case st of (s, mem) \<Rightarrow>
        if pk_state s = 0 then
          (let s = s\<lparr>pk_send_ptr := data\<rparr>;
               out = [PACKET_SUB_TX_BYTES (mem (pk_send_ptr s) ! 0)]
           in if accepted \<noteq> 0 then ((s\<lparr>pk_state := 1, pk_count := 1\<rparr>, mem), out @ [POST_TASK ''CRC_calc''], 1)
              else ((s, mem), out, 0))
        else ((s, mem), [], 0))"

definition CRC_PACKET_POWER :: "u8 \<Rightarrow> packet \<times> memory \<Rightarrow> packet \<times> memory" where
  "CRC_PACKET_POWER mode st = st"

definition CRC_PACKET_INIT :: "ptr \<Rightarrow> packet \<times> memory \<Rightarrow> (packet \<times> memory) \<times> packet_out list \<times> u8" where
  "CRC_PACKET_INIT recbuf st =
     (case st of (s, mem) \<Rightarrow> ((s\<lparr>pk_rec_ptr := recbuf, pk_state := 0\<rparr>, mem), [PACKET_SUB_INIT], 1))"

definition CRC_PACKET_RX_BYTE_READY ::
  "u8 \<Rightarrow> u8 \<Rightarrow> packet \<times> memory \<Rightarrow> (packet \<times> memory) \<times> packet_out list \<times> u8" where
  "CRC_PACKET_RX_BYTE_READY data error st =
     (case st of (s, mem) \<Rightarrow>
        if error \<noteq> 0 then ((s\<lparr>pk_state := 0\<rparr>, mem), [], 0)
        else if pk_state s = 0 then
          (let s = s\<lparr>pk_state := 5, pk_count := 1\<rparr>
           in ((s, mem(pk_rec_ptr s := (mem (pk_rec_ptr s))[0 := data])), [], 1))
        else if pk_state s = 5 then
          (let mem = mem(pk_rec_ptr s := (mem (pk_rec_ptr s))[unat (pk_count s) := data]);
               s = s\<lparr>pk_count := pk_count s + 1\<rparr>
           in if size_val (pk_count s) = sizeof_TOS_Msg then ((s, mem), [POST_TASK ''check_crc''], 0)
              else ((s, mem), [], 1))
        else ((s, mem), [], 1))"

definition CRC_PACKET_TX_BYTE_READY ::
  "(ptr \<Rightarrow> packet \<times> memory \<Rightarrow> packet \<times> memory) \<Rightarrow> u8 \<Rightarrow> packet \<times> memory
    \<Rightarrow> (packet \<times> memory) \<times> packet_out list \<times> u8" where
  "CRC_PACKET_TX_BYTE_READY sent success st =
     (case (if success = 0
            then (case sent (pk_rec_ptr (fst st)) st of (s, mem) \<Rightarrow> (s\<lparr>pk_state := 0, pk_count := 0\<rparr>, mem))
            else st) of (s, mem) \<Rightarrow>
        if pk_state s = 1 then
          (if size_val (pk_count s) < sizeof_TOS_Msg
           then ((s\<lparr>pk_count := pk_count s + 1\<rparr>, mem),
                 [PACKET_SUB_TX_BYTES (mem (pk_send_ptr s) ! unat (pk_count s))], 1)
           else if size_val (pk_count s) = sizeof_TOS_Msg then ((s\<lparr>pk_count := pk_count s + 1\<rparr>, mem), [], 0)
           else (let s = s\<lparr>pk_state := 0, pk_count := 0\<rparr> in (sent (pk_send_ptr s) (s, mem), [], 0)))
        else ((s, mem), [], 1))"

definition CRC_PACKET_BYTE_TX_DONE :: "packet \<times> memory \<Rightarrow> (packet \<times> memory) \<times> u8" where
  "CRC_PACKET_BYTE_TX_DONE st = (st, 1)"

section \<open>What the checksum detects\<close>

lemma xor_eq_zero: "a XOR b = (0 :: u16) \<Longrightarrow> a = b"
  by (simp add: bit_eq_iff bit_xor_iff)

lemma xor_eq_zero8: "a XOR b = (0 :: u8) \<Longrightarrow> a = b"
  by (simp add: bit_eq_iff bit_xor_iff)

lemma xor_changes: "b \<noteq> 0 \<Longrightarrow> a XOR b \<noteq> (a :: u16)"
  by (metis xor.assoc xor_self_eq xor.left_neutral)

lemma and_top_bit: "(w AND 0x8000 \<noteq> 0) = bit (w :: u16) 15"
proof -
  have "w AND 0x8000 = w AND push_bit 15 1" by (simp add: push_bit_eq_mult)
  then show ?thesis by (simp only: bit_iff_and_push_bit_not_eq_0)
qed

lemma crc_bit_linear: "crc_bit (a XOR b) = crc_bit a XOR crc_bit b"
proof -
  have "push_bit 1 (a XOR b) = push_bit 1 a XOR push_bit 1 b" by (rule push_bit_xor)
  then show ?thesis
    unfolding crc_bit_def and_top_bit by (simp add: bit_xor_iff ac_simps del: push_bit_Suc)
qed

lemma crc_bit_zero: "crc_bit a = 0 \<Longrightarrow> a = 0"
proof -
  assume a: "crc_bit a = 0"
  have "bit (push_bit 1 a XOR 0x1021) 0" "\<not> bit (push_bit 1 a) 0"
    unfolding bit_xor_iff bit_push_bit_iff by (simp_all add: bit_simps)
  then have "push_bit 1 a = 0" "\<not> bit a 15"
    using a unfolding crc_bit_def and_top_bit by (auto split: if_splits)
  then have "\<not> bit a n" for n
  proof (cases "n < 15")
    case True
    then have "bit (push_bit 1 a) (Suc n) = bit a n" by (simp only: bit_push_bit_iff) simp
    then show ?thesis using \<open>push_bit 1 a = 0\<close> by simp
  next
    case False
    then show ?thesis using \<open>\<not> bit a 15\<close> by (cases "n = 15") (auto dest: bit_imp_le_length)
  qed
  then show "a = 0" by (simp add: bit_eq_iff)
qed

lemma funpow_linear:
  fixes f :: "u16 \<Rightarrow> u16"
  shows "(\<And>a b. f (a XOR b) = f a XOR f b) \<Longrightarrow> (f ^^ n) (a XOR b) = (f ^^ n) a XOR (f ^^ n) b"
  by (induction n) simp_all

lemma funpow_zero:
  fixes f :: "u16 \<Rightarrow> u16"
  shows "(\<And>a. f a = 0 \<Longrightarrow> a = 0) \<Longrightarrow> (f ^^ n) a = 0 \<Longrightarrow> a = 0"
  by (induction n) auto

text \<open>One byte, as the same map of the exclusive or of the register and the byte.\<close>

definition crc_map :: "u16 \<Rightarrow> u16" where
  "crc_map = crc_bit ^^ 8"

lemma crc_map_linear: "crc_map (a XOR b) = crc_map a XOR crc_map b"
  unfolding crc_map_def by (rule funpow_linear) (rule crc_bit_linear)

lemma crc_map_zero: "crc_map a = 0 \<Longrightarrow> a = 0"
  unfolding crc_map_def by (rule funpow_zero) (rule crc_bit_zero)

lemma crc_byte_xor:
  "crc_byte (c XOR e) (b XOR d) = crc_byte c b XOR crc_map (e XOR push_bit 8 (scast d))"
proof -
  have "push_bit 8 (scast (b XOR d) :: u16) = push_bit 8 (scast b) XOR push_bit 8 (scast d)"
    by (rule bit_word_eqI) (auto simp: bit_simps)
  then show ?thesis
    unfolding crc_byte_def crc_map_def [symmetric] by (simp add: crc_map_linear xor.assoc xor.left_commute)
qed

lemma crc_byte_same: "crc_byte (c XOR e) b = crc_byte c b XOR crc_map e"
  using crc_byte_xor [of c e b 0] by simp

lemma foldl_crc_same: "foldl crc_byte (c XOR e) bs = foldl crc_byte c bs XOR (crc_map ^^ length bs) e"
  by (induction bs arbitrary: c e) (simp_all add: crc_byte_same funpow_swap1)

text \<open>What one damaged byte does to the low byte of the register, in closed form.\<close>

definition crc_low :: "u8 \<Rightarrow> u8" where
  "crc_low d = ucast (crc_map (push_bit 8 (ucast d)))"

definition crc_low_form :: "u8 \<Rightarrow> u8" where
  "crc_low_form d = (d XOR drop_bit 4 d) XOR push_bit 5 (d XOR drop_bit 4 d)"

lemma crc_map_calls [code]: "crc_map a = crc_bit (crc_bit (crc_bit (crc_bit (crc_bit (crc_bit (crc_bit (crc_bit a)))))))"
  by (simp add: crc_map_def numeral_eq_Suc)

lemma ucast_xor8: "ucast (a XOR b :: u16) = (ucast a XOR ucast b :: u8)"
  by (rule bit_word_eqI) (auto simp: bit_simps)

lemma ucast_xor16: "ucast (a XOR b :: u8) = (ucast a XOR ucast b :: u16)"
  by (rule bit_word_eqI) (auto simp: bit_simps)

lemma crc_low_form: "crc_low d = crc_low_form d"
proof (rule linear_ext [where f = crc_low and g = crc_low_form])
  show "linear crc_low"
    unfolding linear_def crc_low_def by (simp only: ucast_xor8 ucast_xor16 push_bit_xor crc_map_linear simp_thms)
  show "linear crc_low_form"
    unfolding linear_def crc_low_form_def by (simp add: drop_bit_xor push_bit_xor ac_simps)
qed code_simp+

lemma crc_low_zero: "crc_low d = 0 \<Longrightarrow> d = 0"
proof -
  let ?s = "d XOR drop_bit 4 d"
  assume "crc_low d = 0"
  then have eq: "?s = push_bit 5 ?s" by (simp add: crc_low_form crc_low_form_def xor_eq_zero8)
  have "push_bit 5 (push_bit 5 ?s) = 0" by (rule bit_word_eqI) (auto simp: bit_simps)
  with eq have "?s = 0" by metis
  then have eq: "d = drop_bit 4 d" by (rule xor_eq_zero8)
  have "drop_bit 4 (drop_bit 4 d) = 0" by (rule bit_word_eqI) (auto simp: bit_simps dest: bit_imp_le_length)
  with eq show "d = 0" by metis
qed

lemma push_bit_8_scast: "push_bit 8 (scast (d :: u8)) = (push_bit 8 (ucast d) :: u16)"
  by (rule bit_word_eqI) (auto simp: bit_simps)

lemma crc_two_bytes:
  assumes "d \<noteq> 0 \<or> e \<noteq> 0"
  shows "crc_map (crc_map (push_bit 8 (scast (d :: u8))) XOR push_bit 8 (scast (e :: u8))) \<noteq> 0"
proof
  assume "crc_map (crc_map (push_bit 8 (scast d)) XOR push_bit 8 (scast e)) = 0"
  then have "crc_map (push_bit 8 (scast d)) XOR push_bit 8 (scast e) = 0" by (rule crc_map_zero)
  then have "crc_map (push_bit 8 (scast d)) = push_bit 8 (scast e)" by (rule xor_eq_zero)
  then have eq: "crc_map (push_bit 8 (ucast d)) = push_bit 8 (ucast e)" by (simp only: push_bit_8_scast)
  have "(ucast (push_bit 8 (ucast e) :: u16) :: u8) = 0"
    by (rule bit_word_eqI) (auto simp: bit_simps)
  then have "crc_low d = 0" by (simp only: crc_low_def eq)
  then have "d = 0" by (rule crc_low_zero)
  with eq have "push_bit 8 (ucast e :: u16) = 0" using crc_map_linear [of 0 0] by simp
  moreover have "e = ucast (drop_bit 8 (push_bit 8 (ucast e) :: u16))"
    by (rule bit_word_eqI) (auto simp: bit_simps)
  ultimately have "e = 0" by simp
  with \<open>d = 0\<close> assms show False by simp
qed

text \<open>Two byte sequences that differ only in two adjacent bytes have different checksums.\<close>

lemma calcrc_burst:
  assumes "length pre + 2 + length post \<le> n" and "d \<noteq> 0 \<or> e \<noteq> 0"
  shows "calcrc (pre @ [a XOR d, b XOR e] @ post) n \<noteq> calcrc (pre @ [a, b] @ post) n"
proof -
  let ?c = "foldl crc_byte 0 pre" and ?x = "crc_map (crc_map (push_bit 8 (scast d)) XOR push_bit 8 (scast e))"
  have "crc_byte (crc_byte ?c (a XOR d)) (b XOR e) = crc_byte (crc_byte ?c a) b XOR ?x"
    using crc_byte_xor [of ?c 0 a d] crc_byte_xor [of "crc_byte ?c a" _ b e] by simp
  then have "foldl crc_byte 0 (pre @ [a XOR d, b XOR e] @ post)
      = foldl crc_byte 0 (pre @ [a, b] @ post) XOR (crc_map ^^ length post) ?x"
    by (simp add: foldl_crc_same)
  moreover have "(crc_map ^^ length post) ?x \<noteq> 0"
    using funpow_zero [of crc_map "length post" ?x] crc_map_zero crc_two_bytes [OF assms(2)] by blast
  ultimately show ?thesis
    using assms(1) by (simp add: calcrc_def xor_changes)
qed

section \<open>Messages\<close>

interpretation crc_tx: buffer_sender "CRC_PACKET_TX_BYTE_READY sent 1" for sent
  by unfold_locales (simp add: CRC_PACKET_TX_BYTE_READY_def)

definition crc_deliver :: "packet \<times> memory \<Rightarrow> (packet \<times> memory) \<times> packet_out list \<times> u8" where
  "crc_deliver st = (st, [POST_TASK ''check_crc''], 0)"

interpretation crc_rx: buffer_receiver CRC_PACKET_RX_BYTE_READY crc_deliver
  by unfold_locales (simp_all add: CRC_PACKET_RX_BYTE_READY_def crc_deliver_def)

text \<open>C37: A message whose checksum is right is shown to the layer above when its bytes have arrived
  and the checking task has run. If any change hit two adjacent bytes of the part the checksum
  covers, however they were changed, the layer above never sees it, and the receiver is idle.\<close>

theorem crc_detects_burst:
  assumes field: "\<And>m m'. drop 33 m = drop 33 m' \<Longrightarrow> crc_of m = crc_of m'"
    and m: "m = pre @ [a, b] @ post" "length m = sizeof_TOS_Msg" "length pre + 2 \<le> 33"
    and good: "calcrc m 33 = crc_of m" and damage: "d \<noteq> 0 \<or> e \<noteq> 0"
    and s: "pk_state s = 0" "length (mem (pk_rec_ptr s)) = sizeof_TOS_Msg"
  shows "(\<exists>st. receive_with CRC_PACKET_RX_BYTE_READY m (s, mem) = (st, [POST_TASK ''check_crc''], 0)
      \<and> check_crc crc_of upcall st
        = (case upcall (pk_rec_ptr s) (s\<lparr>pk_count := 35, pk_state := 0\<rparr>, mem(pk_rec_ptr s := m)) of ((s', mem'), tmp) \<Rightarrow>
             (if tmp \<noteq> 0 then s'\<lparr>pk_rec_ptr := tmp\<rparr> else s', mem'))) \<and>
    (\<exists>st. receive_with CRC_PACKET_RX_BYTE_READY (pre @ [a XOR d, b XOR e] @ post) (s, mem) = (st, [POST_TASK ''check_crc''], 0)
      \<and> check_crc crc_of upcall st
        = (s\<lparr>pk_count := 35, pk_state := 0\<rparr>, mem(pk_rec_ptr s := pre @ [a XOR d, b XOR e] @ post)))"
proof (intro conjI exI)
  let ?m' = "pre @ [a XOR d, b XOR e] @ post"
  show "receive_with CRC_PACKET_RX_BYTE_READY m (s, mem) = (with_message m (s, mem), [POST_TASK ''check_crc''], 0)"
    using crc_rx.receive_message [where s = s and mem = mem and m = m] s m(2) by (simp add: crc_deliver_def)
  show "receive_with CRC_PACKET_RX_BYTE_READY ?m' (s, mem) = (with_message ?m' (s, mem), [POST_TASK ''check_crc''], 0)"
    using crc_rx.receive_message [where s = s and mem = mem and m = ?m'] s m by (simp add: crc_deliver_def)
  show "check_crc crc_of upcall (with_message m (s, mem))
      = (case upcall (pk_rec_ptr s) (s\<lparr>pk_count := 35, pk_state := 0\<rparr>, mem(pk_rec_ptr s := m)) of ((s', mem'), tmp) \<Rightarrow>
           (if tmp \<noteq> 0 then s'\<lparr>pk_rec_ptr := tmp\<rparr> else s', mem'))"
    using good by (simp add: check_crc_def with_message_def sizeof_TOS_Msg_def)
  have "33 - length pre = Suc (Suc (31 - length pre))" using m(3) by simp
  then have "drop 33 ?m' = drop 33 m" using m(3) by (simp add: m(1))
  then have "crc_of ?m' = crc_of m" by (rule field)
  moreover have "calcrc ?m' 33 \<noteq> calcrc m 33"
  proof -
    have "calcrc (pre @ [x, y] @ post) 33 = calcrc (pre @ [x, y] @ take (31 - length pre) post) 33" for x y
      using \<open>33 - length pre = _\<close> by (simp add: calcrc_def)
    then show ?thesis
      using calcrc_burst [of pre "take (31 - length pre) post" 33 d e a b] damage m(1,3) by simp
  qed
  ultimately show "check_crc crc_of upcall (with_message ?m' (s, mem))
      = (s\<lparr>pk_count := 35, pk_state := 0\<rparr>, mem(pk_rec_ptr s := ?m'))"
    using good by (simp add: check_crc_def with_message_def sizeof_TOS_Msg_def)
qed

text \<open>The checksum field as the last two bytes, which is where \<open>sizeof(TOS_Msg) - 2\<close> ends.\<close>

definition crc_field :: "u8 list \<Rightarrow> u16" where
  "crc_field m = word16 (drop 33 m)"

definition set_crc_field :: "u16 \<Rightarrow> u8 list \<Rightarrow> u8 list" where
  "set_crc_field c m = take 33 m @ bytes16 c"

lemma calcrc_zeros: "calcrc (replicate n 0) k = 0"
proof -
  have "crc_byte 0 0 = 0" using crc_map_linear [of 0 0] by (simp add: crc_byte_def flip: crc_map_def)
  then have "foldl crc_byte 0 (replicate j 0) = 0" for j by (induction j) simp_all
  then show ?thesis by (simp add: calcrc_def take_replicate)
qed

definition crc_idle :: packet where
  "crc_idle = \<lparr>pk_state = 0, pk_count = 0, pk_rec_ptr = 1, pk_send_ptr = 0\<rparr>"

lemma crc_detects_burst_witness:
  "\<exists>st. receive_with CRC_PACKET_RX_BYTE_READY (replicate 10 0 @ [0 XOR 5, 0 XOR 0] @ replicate 23 0)
      (crc_idle, \<lambda>p. replicate 35 0) = (st, [POST_TASK ''check_crc''], 0)
    \<and> check_crc crc_field (\<lambda>p st. (st, 7)) st
      = (crc_idle\<lparr>pk_count := 35, pk_state := 0\<rparr>,
         (\<lambda>p. replicate 35 0)(pk_rec_ptr crc_idle := replicate 10 0 @ [0 XOR 5, 0 XOR 0] @ replicate 23 0))"
proof (rule crc_detects_burst [where m = "replicate 35 0" and a = 0 and b = 0 and d = 5 and e = 0, THEN conjunct2])
  show "replicate 35 0 = replicate 10 0 @ [0, 0] @ replicate 23 (0 :: u8)" by code_simp
qed (simp_all add: crc_field_def sizeof_TOS_Msg_def calcrc_zeros word16_def crc_idle_def)

text \<open>Wherever the checksum task runs among the first 32 reports of bytes taken, the bytes that
  go out are the message with its checksum written in.\<close>

theorem crc_task_in_time:
  assumes field: "\<And>c m. length m = sizeof_TOS_Msg \<Longrightarrow> length (set_crc c m) = sizeof_TOS_Msg \<and> take 33 (set_crc c m) = take 33 m"
    and s: "pk_state s = 0" "length (mem msg) = sizeof_TOS_Msg" "accepted \<noteq> 0" and j: "j \<le> 32"
  shows "\<exists>st0 st1 ds st2 ds'.
      CRC_PACKET_TX_PACKET accepted msg (s, mem) = (st0, [PACKET_SUB_TX_BYTES (mem msg ! 0), POST_TASK ''CRC_calc''], 1)
    \<and> spool (taken_with (CRC_PACKET_TX_BYTE_READY sent 1)) j st0 = (st1, ds)
    \<and> spool (taken_with (CRC_PACKET_TX_BYTE_READY sent 1)) (34 - j) (CRC_calc set_crc st1) = (st2, ds')
    \<and> mem msg ! 0 # ds @ ds' = set_crc (calcrc (mem msg) 33) (mem msg)"
proof -
  let ?s = "\<lambda>n. s\<lparr>pk_send_ptr := msg, pk_state := 1, pk_count := n\<rparr>"
  let ?m = "set_crc (calcrc (mem msg) 33) (mem msg)"
  let ?mem = "mem(msg := ?m)"
  have len: "length (mem msg) = 35" "length ?m = sizeof_TOS_Msg" and same: "take 33 ?m = take 33 (mem msg)"
    using s(2) field [of "mem msg"] by (simp_all add: sizeof_TOS_Msg_def)
  have tx: "CRC_PACKET_TX_PACKET accepted msg (s, mem) = ((?s 1, mem), [PACKET_SUB_TX_BYTES (mem msg ! 0), POST_TASK ''CRC_calc''], 1)"
    using s by (simp add: CRC_PACKET_TX_PACKET_def)
  have "pk_sending (s\<lparr>pk_send_ptr := msg\<rparr>, mem) (mem msg) 1 (?s 1, mem)" by (simp add: pk_sending_def)
  from crc_tx.spool_rest [OF this s(2), where n = j and sent = sent] j
  have 1: "spool (taken_with (CRC_PACKET_TX_BYTE_READY sent 1)) j (?s 1, mem)
      = ((?s (word_of_nat (1 + j)), mem), take j (drop 1 (mem msg)))"
    by (auto simp: pk_sending_def sizeof_TOS_Msg_def)
  have "CRC_calc set_crc (?s (word_of_nat (1 + j)), mem) = (?s (word_of_nat (1 + j)), ?mem)"
    by (simp add: CRC_calc_def sizeof_TOS_Msg_def)
  moreover have "pk_sending (s\<lparr>pk_send_ptr := msg\<rparr>, ?mem) ?m (1 + j) (?s (word_of_nat (1 + j)), ?mem)"
    by (simp add: pk_sending_def)
  from crc_tx.spool_rest [OF this len(2), where n = "34 - j" and sent = sent] j
  obtain st2 where 2: "spool (taken_with (CRC_PACKET_TX_BYTE_READY sent 1)) (34 - j) (?s (word_of_nat (1 + j)), ?mem)
      = (st2, take (34 - j) (drop (1 + j) ?m))"
    by (auto simp: sizeof_TOS_Msg_def)
  have "take (1 + j) (mem msg) = take (1 + j) ?m"
  proof -
    have "take (1 + j) (take 33 (mem msg)) = take (1 + j) (take 33 ?m)" by (simp only: same)
    then show ?thesis using j by (simp add: min_absorb1)
  qed
  moreover have "mem msg ! 0 # take j (drop 1 (mem msg)) = take (1 + j) (mem msg)"
    using len(1) by (cases "mem msg") simp_all
  moreover have "take (34 - j) (drop (1 + j) ?m) = drop (1 + j) ?m"
    using len(2) by (simp add: sizeof_TOS_Msg_def)
  ultimately have "mem msg ! 0 # take j (drop 1 (mem msg)) @ take (34 - j) (drop (1 + j) ?m) = ?m"
    by (metis append_Cons append_take_drop_id)
  then show ?thesis using tx 1 2 \<open>CRC_calc set_crc _ = _\<close> by auto
qed

lemma crc_task_in_time_witness:
  "\<exists>st0 st1 ds st2 ds'.
      CRC_PACKET_TX_PACKET 1 2 (crc_idle, \<lambda>p. replicate 35 0) = (st0, [PACKET_SUB_TX_BYTES ((replicate 35 0) ! 0), POST_TASK ''CRC_calc''], 1)
    \<and> spool (taken_with (CRC_PACKET_TX_BYTE_READY (\<lambda>p st. st) 1)) 32 st0 = (st1, ds)
    \<and> spool (taken_with (CRC_PACKET_TX_BYTE_READY (\<lambda>p st. st) 1)) (34 - 32) (CRC_calc set_crc_field st1) = (st2, ds')
    \<and> (replicate 35 0) ! 0 # ds @ ds' = set_crc_field (calcrc (replicate 35 0) 33) (replicate 35 0)"
  by (rule crc_task_in_time) (simp_all add: set_crc_field_def sizeof_TOS_Msg_def crc_idle_def)

end
