(* ===== verification/TbfStack.thy ===== *)
theory TbfStack
  imports Prelude
begin

text \<open>
  The stack of trajectory-based forwarding, \<open>tbf_proj/stack.c\<close>: an array of 30 cells, the number of
  cells in use and the last error. The file has it twice, for \<open>int\<close> and for \<open>double\<close>. Pushing to a
  full stack and popping from an empty one only note the error; the pop then yields 0.

  The interface \<open>bounded_stack\<close> is what the parser and the evaluator of trajectories rely on.
\<close>

section \<open>The stack and its operations\<close>

definition TBF_STACK_SIZE :: nat where "TBF_STACK_SIZE = 30"

record 'v stack =
  st_vals :: "'v list"
  st_ptr :: nat
  st_err :: nat

text \<open>A local variable; what its cells hold before they are pushed is never looked at.\<close>

definition new_stack :: "('v::zero) stack" where
  "new_stack = \<lparr>st_vals = replicate TBF_STACK_SIZE 0, st_ptr = 0, st_err = 0\<rparr>"

definition stack_init :: "'v stack \<Rightarrow> 'v stack" where
  "stack_init p = p\<lparr>st_err := 0, st_ptr := 0\<rparr>"

definition clear :: "'v stack \<Rightarrow> 'v stack" where
  "clear p = p\<lparr>st_err := 0, st_ptr := 0\<rparr>"

definition stack_err :: "'v stack \<Rightarrow> int" where
  "stack_err p = (if st_err p \<noteq> 0 then -1 else 1)"

definition push :: "'v \<Rightarrow> 'v stack \<Rightarrow> 'v stack" where
  "push v p = (if st_ptr p = TBF_STACK_SIZE then p\<lparr>st_err := 2\<rparr>
     else p\<lparr>st_vals := (st_vals p)[st_ptr p := v], st_ptr := st_ptr p + 1\<rparr>)"

definition pop :: "('v::zero) stack \<Rightarrow> 'v \<times> 'v stack" where
  "pop p = (if st_ptr p = 0 then (0, p\<lparr>st_err := 1\<rparr>)
     else (st_vals p ! (st_ptr p - 1), p\<lparr>st_ptr := st_ptr p - 1\<rparr>))"

section \<open>What its users rely on\<close>

text \<open>The contents, the top first.\<close>

definition stack_list :: "'v stack \<Rightarrow> 'v list" where
  "stack_list p = rev (take (st_ptr p) (st_vals p))"

definition stack_ok :: "'v stack \<Rightarrow> bool" where
  "stack_ok p \<longleftrightarrow> length (st_vals p) = TBF_STACK_SIZE \<and> st_ptr p \<le> TBF_STACK_SIZE"

definition stack_failed :: "'v stack \<Rightarrow> bool" where
  "stack_failed p \<longleftrightarrow> stack_err p < 0"

lemma stack_failed_iff: "stack_failed p \<longleftrightarrow> st_err p \<noteq> 0"
  by (simp add: stack_failed_def stack_err_def)

locale bounded_stack =
  fixes ok :: "'s \<Rightarrow> bool" and items :: "'s \<Rightarrow> 'v list" and failed :: "'s \<Rightarrow> bool"
    and put :: "'v \<Rightarrow> 's \<Rightarrow> 's" and get :: "'s \<Rightarrow> 'v \<times> 's" and room :: nat
  assumes put_ok: "ok s \<Longrightarrow> ok (put v s)"
    and put_items: "ok s \<Longrightarrow> items (put v s) = (if length (items s) < room then v # items s else items s)"
    and put_failed: "ok s \<Longrightarrow> failed (put v s) \<longleftrightarrow> failed s \<or> length (items s) = room"
    and get_ok: "ok s \<Longrightarrow> ok (snd (get s))"
    and get_items: "ok s \<Longrightarrow> items (snd (get s)) = tl (items s)"
    and get_top: "ok s \<Longrightarrow> items s \<noteq> [] \<Longrightarrow> fst (get s) = hd (items s)"
    and get_failed: "ok s \<Longrightarrow> failed (snd (get s)) \<longleftrightarrow> failed s \<or> items s = []"
    and items_room: "ok s \<Longrightarrow> length (items s) \<le> room"
begin

text \<open>A stack that works as specified and has not noted an error holds the given values.\<close>

definition holds :: "'s \<Rightarrow> 'v list \<Rightarrow> bool" where
  "holds s vs \<longleftrightarrow> ok s \<and> \<not> failed s \<and> items s = vs"

lemma holds_put: "holds s vs \<Longrightarrow> length vs < room \<Longrightarrow> holds (put v s) (v # vs)"
  by (auto simp: holds_def put_ok put_items put_failed)

lemma holds_get: "holds s (v # vs) \<Longrightarrow> \<exists>s'. get s = (v, s') \<and> holds s' vs"
  by (cases "get s") (use get_ok [of s] get_items [of s] get_top [of s] get_failed [of s] in \<open>auto simp: holds_def\<close>)

lemma get_cases:
  assumes "ok s" and "items s = v # vs"
  shows "\<exists>s'. get s = (v, s') \<and> ok s' \<and> items s' = vs"
  using assms get_ok [of s] get_items [of s] get_top [of s] by (cases "get s") auto

lemma items_put_cases: "ok s \<Longrightarrow> items (put v s) = v # items s \<or> items (put v s) = items s"
  by (simp add: put_items)

end

lemma stack_list_push:
  "stack_ok p \<Longrightarrow> stack_list (push v p) = (if length (stack_list p) < TBF_STACK_SIZE then v # stack_list p else stack_list p)"
  by (auto simp: stack_list_def push_def stack_ok_def min_def take_Suc_conv_app_nth)

lemma stack_list_pop: "stack_ok p \<Longrightarrow> stack_list (snd (pop p)) = tl (stack_list p)"
  by (cases "st_ptr p") (auto simp: stack_list_def pop_def stack_ok_def take_Suc_conv_app_nth)

lemma pop_top: "stack_ok p \<Longrightarrow> stack_list p \<noteq> [] \<Longrightarrow> fst (pop p) = hd (stack_list p)"
  by (cases "st_ptr p") (auto simp: stack_list_def pop_def stack_ok_def take_Suc_conv_app_nth)

interpretation st: bounded_stack stack_ok stack_list stack_failed push pop TBF_STACK_SIZE
proof unfold_locales
  fix p :: "'a stack" and v
  assume ok: "stack_ok p"
  show "stack_ok (push v p)" using ok by (auto simp: stack_ok_def push_def)
  show "stack_list (push v p) = (if length (stack_list p) < TBF_STACK_SIZE then v # stack_list p else stack_list p)"
    by (rule stack_list_push [OF ok])
  show "stack_failed (push v p) = (stack_failed p \<or> length (stack_list p) = TBF_STACK_SIZE)"
    using ok by (auto simp: stack_failed_iff stack_ok_def push_def stack_list_def min_def)
  show "stack_ok (snd (pop p))" using ok by (auto simp: stack_ok_def pop_def)
  show "stack_list (snd (pop p)) = tl (stack_list p)" by (rule stack_list_pop [OF ok])
  show "stack_list p \<noteq> [] \<Longrightarrow> fst (pop p) = hd (stack_list p)" by (rule pop_top [OF ok])
  show "stack_failed (snd (pop p)) = (stack_failed p \<or> stack_list p = [])"
    using ok by (auto simp: stack_failed_iff stack_ok_def pop_def stack_list_def TBF_STACK_SIZE_def)
  show "length (stack_list p) \<le> TBF_STACK_SIZE" using ok by (simp add: stack_ok_def stack_list_def)
qed

lemma new_stack_holds: "st.holds (stack_init new_stack) []"
  by (simp add: st.holds_def stack_failed_iff stack_init_def new_stack_def stack_ok_def stack_list_def)

text \<open>Popping an empty stack yields 0 for ever.\<close>

lemma pop_empty:
  assumes "stack_list p = []" and "stack_ok p"
  shows "fst (pop p) = 0" "stack_list (snd (pop p)) = []"
  using assms by (auto simp: pop_def stack_list_def stack_ok_def TBF_STACK_SIZE_def)

end
