(* ===== verification/TbfCalc.thy ===== *)
theory TbfCalc
  imports TbfStack
begin

text \<open>
  The evaluator of trajectories, \<open>rpncalc\<close> of \<open>tbf_proj/algo.c\<close>, with the codes and tables of
  \<open>tbf_proj/include/mapping.h\<close>. A trajectory is a string of bytes in postfix form: constants with their
  kind before them, the variable \<open>t\<close>, functions of one argument (codes up to 128) and of two.

  Floating point is a parameter \<open>fpu\<close>: what the C library reads a numeral as, the operations on
  \<open>double\<close>, and the four bytes of a \<open>float\<close> in memory. Shorts are little endian, as on the PC the test
  program is built for. \<open>None\<close> is a read beyond the memory the string is in.
\<close>

section \<open>Floating point\<close>

record ('f, 'd) fpu =
  strtof :: "string \<Rightarrow> 'f"
  float_int :: "'f \<Rightarrow> int option"        \<comment> \<open>the integer that a float is, if it is one\<close>
  float_bytes :: "'f \<Rightarrow> u8 list"
  bytes_float :: "u8 list \<Rightarrow> 'f"
  float_double :: "'f \<Rightarrow> 'd"
  int_double :: "int \<Rightarrow> 'd"
  double_add :: "'d \<Rightarrow> 'd \<Rightarrow> 'd"
  double_sub :: "'d \<Rightarrow> 'd \<Rightarrow> 'd"
  double_mul :: "'d \<Rightarrow> 'd \<Rightarrow> 'd"
  double_div :: "'d \<Rightarrow> 'd \<Rightarrow> 'd"
  double_pow :: "'d \<Rightarrow> 'd \<Rightarrow> 'd"
  double_pi :: 'd
  libm :: "string \<Rightarrow> 'd \<Rightarrow> 'd"

text \<open>A float takes four bytes, which stand for it; a numeral read as an integer is that integer as a
  double, too.\<close>

definition fpu_ok :: "('f, 'd) fpu \<Rightarrow> bool" where
  "fpu_ok M \<longleftrightarrow> (\<forall>v. length (float_bytes M v) = 4 \<and> bytes_float M (float_bytes M v) = v) \<and>
     (\<forall>s n. float_int M (strtof M s) = Some n \<longrightarrow> float_double M (strtof M s) = int_double M n)"

section \<open>Codes and tables\<close>

definition START_ARG2_FUNCS :: u8 where "START_ARG2_FUNCS = 128"
definition TBF_FLOAT :: u8 where "TBF_FLOAT = 1"
definition TBF_INT :: u8 where "TBF_INT = 2"
definition TBF_CHAR :: u8 where "TBF_CHAR = 3"
definition MY_PI :: u8 where "MY_PI = 22"
definition T :: u8 where "T = 255"
definition TABLE_SIZE :: nat where "TABLE_SIZE = 255"

definition s_table :: "string list" where
  "s_table = replicate 4 ''NULL''
     @ [''sin'', ''cos'', ''tan'', ''asin'', ''acos'', ''atan'', ''sinh'', ''cosh'', ''tanh'', ''NULL'', ''NULL'', ''NULL'',
        ''log10'', ''log'', ''exp'', ''sqrt'', ''ceil'', ''floor'']
     @ replicate 107 ''NULL'' @ [''my_add'', ''my_sub'', ''my_mul'', ''my_div'', ''pow''] @ replicate 122 ''NULL''"

definition my_add :: "('f, 'd) fpu \<Rightarrow> 'd \<Rightarrow> 'd \<Rightarrow> 'd" where "my_add M a b = double_add M a b"
definition my_mul :: "('f, 'd) fpu \<Rightarrow> 'd \<Rightarrow> 'd \<Rightarrow> 'd" where "my_mul M a b = double_mul M a b"
definition my_div :: "('f, 'd) fpu \<Rightarrow> 'd \<Rightarrow> 'd \<Rightarrow> 'd" where "my_div M a b = double_div M a b"
definition my_sub :: "('f, 'd) fpu \<Rightarrow> 'd \<Rightarrow> 'd \<Rightarrow> 'd" where "my_sub M a b = double_sub M a b"

text \<open>The table of functions has an entry where \<open>s_table\<close> has a name; \<open>None\<close> is the null pointer.\<close>

definition f_table1 :: "('f, 'd) fpu \<Rightarrow> u8 \<Rightarrow> ('d \<Rightarrow> 'd) option" where
  "f_table1 M c = (if s_table ! unat c = ''NULL'' then None else Some (libm M (s_table ! unat c)))"

definition f_table2 :: "('f, 'd) fpu \<Rightarrow> u8 \<Rightarrow> ('d \<Rightarrow> 'd \<Rightarrow> 'd) option" where
  "f_table2 M c =
     (if c = 129 then Some (my_add M) else if c = 130 then Some (my_sub M) else if c = 131 then Some (my_mul M)
      else if c = 132 then Some (my_div M) else if c = 133 then Some (double_pow M) else None)"

section \<open>The evaluator\<close>

definition short_at :: "u8 list \<Rightarrow> int" where
  "short_at bs = sint (ucast (bs ! 0) OR push_bit 8 (ucast (bs ! 1)) :: u16)"

definition apply2 :: "('f, 'd::zero) fpu \<Rightarrow> u8 \<Rightarrow> 'd stack \<Rightarrow> 'd stack" where
  "apply2 M c st = (case pop st of (a, st) \<Rightarrow> case pop st of (b, st) \<Rightarrow>
     (case f_table2 M c of None \<Rightarrow> st | Some f \<Rightarrow> push (f b a) st))"

definition apply1 :: "('f, 'd::zero) fpu \<Rightarrow> u8 \<Rightarrow> 'd stack \<Rightarrow> 'd stack" where
  "apply1 M c st = (case pop st of (a, st) \<Rightarrow> (case f_table1 M c of None \<Rightarrow> st | Some f \<Rightarrow> push (f a) st))"

text \<open>\<open>str\<close> is the memory from the next byte on, \<open>len\<close> how much of the string is left.\<close>

function rpn_loop :: "('f, 'd::zero) fpu \<Rightarrow> 'd \<Rightarrow> int \<Rightarrow> u8 list \<Rightarrow> 'd stack \<Rightarrow> 'd stack option" where
  "rpn_loop M t len str st =
     (if len \<le> 0 then Some st
      else case str of
        [] \<Rightarrow> None
      | c # str \<Rightarrow>
          if c = TBF_FLOAT then
            (if length str < 4 then None
             else rpn_loop M t (len - 5) (drop 4 str) (push (float_double M (bytes_float M (take 4 str))) st))
          else if c = TBF_INT then
            (if length str < 2 then None
             else rpn_loop M t (len - 3) (drop 2 str) (push (int_double M (short_at str)) st))
          else if c = TBF_CHAR then
            (if length str < 1 then None
             else rpn_loop M t (len - 2) (drop 1 str) (push (int_double M (sint (str ! 0))) st))
          else if c = T then rpn_loop M t (len - 1) str (push t st)
          else if c = MY_PI then rpn_loop M t (len - 1) str (push (double_pi M) st)
          else if c > START_ARG2_FUNCS then rpn_loop M t (len - 1) str (apply2 M c st)
          else rpn_loop M t (len - 1) str (apply1 M c st))"
  by pat_completeness auto
termination by (relation "measure (\<lambda>(M, t, len, str, st). length str)") auto

declare rpn_loop.simps [simp del]

definition rpncalc :: "('f, 'd::zero) fpu \<Rightarrow> u8 list \<Rightarrow> int \<Rightarrow> 'd \<Rightarrow> (int \<times> 'd) option" where
  "rpncalc M str len t =
     (case rpn_loop M t len str (stack_init new_stack) of
        None \<Rightarrow> None
      | Some st \<Rightarrow> (case pop st of (result, st) \<Rightarrow> Some (if stack_err st < 0 then -1 else 1, result)))"

section \<open>Running a piece of code\<close>

text \<open>A piece of code takes the values \<open>vs\<close> on the stack to \<open>vs'\<close>, whatever comes after it.\<close>

definition runs :: "('f, 'd::zero) fpu \<Rightarrow> 'd \<Rightarrow> u8 list \<Rightarrow> 'd list \<Rightarrow> 'd list \<Rightarrow> bool" where
  "runs M t code vs vs' \<longleftrightarrow> (\<forall>st rest len. st.holds st vs \<longrightarrow> 0 \<le> len \<longrightarrow>
     (\<exists>st'. st.holds st' vs' \<and> rpn_loop M t (int (length code) + len) (code @ rest) st = rpn_loop M t len rest st'))"

lemma runs_Nil: "runs M t [] vs vs"
  by (auto simp: runs_def)

lemma runs_append [trans]:
  assumes "runs M t c vs vs'" and "runs M t d vs' ws"
  shows "runs M t (c @ d) vs ws"
  unfolding runs_def
proof (intro allI impI)
  fix st rest and len :: int
  assume st: "st.holds st vs" and len: "0 \<le> len"
  obtain s1 where 1: "st.holds s1 vs'"
    "rpn_loop M t (int (length c) + (int (length d) + len)) (c @ d @ rest) st = rpn_loop M t (int (length d) + len) (d @ rest) s1"
    using assms(1) st len unfolding runs_def by (metis add_nonneg_nonneg of_nat_0_le_iff)
  obtain s2 where 2: "st.holds s2 ws" "rpn_loop M t (int (length d) + len) (d @ rest) s1 = rpn_loop M t len rest s2"
    using assms(2) 1(1) len unfolding runs_def by metis
  show "\<exists>st'. st.holds st' ws \<and> rpn_loop M t (int (length (c @ d)) + len) ((c @ d) @ rest) st = rpn_loop M t len rest st'"
    using 1 2 by (intro exI [of _ s2]) (simp add: add.assoc)
qed

lemmas code_defs = TBF_FLOAT_def TBF_INT_def TBF_CHAR_def T_def MY_PI_def START_ARG2_FUNCS_def

lemma runs_T: "length vs < TBF_STACK_SIZE \<Longrightarrow> runs M t [T] vs (t # vs)"
  by (auto simp: runs_def rpn_loop.simps [of M t _ "_ # _"] code_defs intro!: exI [of _ "push _ _"] st.holds_put)

lemma runs_MY_PI: "length vs < TBF_STACK_SIZE \<Longrightarrow> runs M t [MY_PI] vs (double_pi M # vs)"
  by (auto simp: runs_def rpn_loop.simps [of M t _ "_ # _"] code_defs intro!: exI [of _ "push _ _"] st.holds_put)

lemma runs_CHAR: "length vs < TBF_STACK_SIZE \<Longrightarrow> runs M t [TBF_CHAR, b] vs (int_double M (sint b) # vs)"
  by (auto simp: runs_def rpn_loop.simps [of M t _ "_ # _"] code_defs intro!: exI [of _ "push _ _"] st.holds_put)

lemma runs_INT: "length vs < TBF_STACK_SIZE \<Longrightarrow> runs M t [TBF_INT, a, b] vs (int_double M (short_at [a, b]) # vs)"
  by (auto simp: runs_def rpn_loop.simps [of M t _ "_ # _"] code_defs short_at_def intro!: exI [of _ "push _ _"] st.holds_put)

lemma runs_FLOAT:
  assumes "length bs = 4" and "length vs < TBF_STACK_SIZE"
  shows "runs M t (TBF_FLOAT # bs) vs (float_double M (bytes_float M bs) # vs)"
  using assms by (auto simp: runs_def rpn_loop.simps [of M t _ "_ # _"] code_defs intro!: exI [of _ "push _ _"] st.holds_put)

text \<open>A function takes its arguments from the stack and leaves its value.\<close>

lemma holds_apply2:
  assumes h: "st.holds st (a # b # vs)" and f: "f_table2 M c = Some f"
  shows "st.holds (apply2 M c st) (f b a # vs)"
proof -
  obtain s1 where 1: "pop st = (a, s1)" "st.holds s1 (b # vs)" using st.holds_get [OF h] by auto
  obtain s2 where 2: "pop s1 = (b, s2)" "st.holds s2 vs" using st.holds_get [OF 1(2)] by auto
  have "length (a # b # vs) \<le> TBF_STACK_SIZE"
    using h st.items_room [of st] by (simp add: st.holds_def)
  then have "st.holds (push (f b a) s2) (f b a # vs)" by (intro st.holds_put [OF 2(2)]) simp
  then show ?thesis using f 1(1) 2(1) by (simp add: apply2_def)
qed

lemma holds_apply1:
  assumes h: "st.holds st (a # vs)" and f: "f_table1 M c = Some f"
  shows "st.holds (apply1 M c st) (f a # vs)"
proof -
  obtain s1 where 1: "pop st = (a, s1)" "st.holds s1 vs" using st.holds_get [OF h] by auto
  have "length (a # vs) \<le> TBF_STACK_SIZE"
    using h st.items_room [of st] by (simp add: st.holds_def)
  then have "st.holds (push (f a) s1) (f a # vs)" by (intro st.holds_put [OF 1(2)]) simp
  then show ?thesis using f 1(1) by (simp add: apply1_def)
qed

lemma runs_apply2:
  assumes "f_table2 M c = Some f"
  shows "runs M t [c] (a # b # vs) (f b a # vs)"
proof -
  have "c = 129 \<or> c = 130 \<or> c = 131 \<or> c = 132 \<or> c = 133" using assms by (auto simp: f_table2_def split: if_splits)
  then have "c \<noteq> TBF_FLOAT \<and> c \<noteq> TBF_INT \<and> c \<noteq> TBF_CHAR \<and> c \<noteq> T \<and> c \<noteq> MY_PI \<and> START_ARG2_FUNCS < c"
    by (auto simp: code_defs)
  then show ?thesis using holds_apply2 [OF _ assms, of _ a b vs]
    by (fastforce simp: runs_def rpn_loop.simps [of M t _ "_ # _"])
qed

lemma runs_apply1:
  assumes "f_table1 M c = Some f" and "c \<noteq> MY_PI" and "c \<notin> {TBF_FLOAT, TBF_INT, TBF_CHAR}" and "c \<le> START_ARG2_FUNCS"
  shows "runs M t [c] (a # vs) (f a # vs)"
proof -
  have "c \<noteq> T" using assms(4) by (auto simp: code_defs)
  then show ?thesis using holds_apply1 [OF _ assms(1), of _ a vs] assms(2-4)
    by (auto simp: runs_def rpn_loop.simps [of M t _ "_ # _"] not_less intro!: exI [of _ "apply1 M c _"])
qed

text \<open>A whole trajectory that leaves one value.\<close>

lemma rpncalc_runs:
  assumes "runs M t code [] [v]"
  shows "rpncalc M (code @ rest) (int (length code)) t = Some (1, v)"
proof -
  obtain s where s: "st.holds s [v]" "rpn_loop M t (int (length code)) (code @ rest) (stack_init new_stack) = rpn_loop M t 0 rest s"
    using assms new_stack_holds unfolding runs_def by (metis add.right_neutral order_refl)
  obtain s' where "pop s = (v, s')" "st.holds s' []" using st.holds_get [OF s(1)] by auto
  then show ?thesis using s(2) by (simp add: rpncalc_def rpn_loop.simps [of M t 0] st.holds_def stack_failed_def)
qed

end
