(* ===== verification/TbfParse.thy ===== *)
theory TbfParse
  imports TbfCalc
begin

text \<open>
  The translation of a trajectory from infix text to postfix code, \<open>tbf_proj/intopost.c\<close>. Function names
  and operators wait on a stack of integers, on top of a \<open>(\<close> for every open parenthesis and one for the
  whole text. The value \<open>None\<close> is a run that does not return: popping an empty stack yields 0 for ever.

  The lemmas: which text becomes which code, that the code evaluates the text from left to right without
  precedence of operators, and on which texts the translation returns.
\<close>

section \<open>Characters and numerals\<close>

text \<open>The classes of the C locale.\<close>

definition isspace :: "char \<Rightarrow> bool" where
  "isspace c \<longleftrightarrow> c = CHR '' '' \<or> (9 \<le> (of_char c :: nat) \<and> of_char c \<le> (13::nat))"

definition isdigit :: "char \<Rightarrow> bool" where
  "isdigit c \<longleftrightarrow> 48 \<le> (of_char c :: nat) \<and> of_char c \<le> (57::nat)"

definition isalpha :: "char \<Rightarrow> bool" where
  "isalpha c \<longleftrightarrow> (65 \<le> (of_char c :: nat) \<and> of_char c \<le> (90::nat)) \<or> (97 \<le> (of_char c :: nat) \<and> of_char c \<le> (122::nat))"

definition isxdigit :: "char \<Rightarrow> bool" where
  "isxdigit c \<longleftrightarrow> isdigit c \<or> c \<in> set ''abcdefABCDEF''"

definition tolower :: "char \<Rightarrow> char" where
  "tolower c = (if 65 \<le> (of_char c :: nat) \<and> of_char c \<le> (90::nat) then char_of (of_char c + 32 :: nat) else c)"

text \<open>\<open>%f\<close> takes the longest text that is, or is the beginning of, a number; it fails if that is not a
  number. These are the lengths of a fraction, of an exponent, and of the whole; \<open>None\<close> is failure. The
  text starts with a digit.\<close>

definition fraction_len :: "(char \<Rightarrow> bool) \<Rightarrow> string \<Rightarrow> nat" where
  "fraction_len digit s = (case s of c # s' \<Rightarrow> if c = CHR ''.'' then 1 + length (takeWhile digit s') else 0 | [] \<Rightarrow> 0)"

definition exponent_len :: "char \<Rightarrow> string \<Rightarrow> nat option" where
  "exponent_len e s =
     (case s of
        c # s' \<Rightarrow>
          if tolower c = e then
            (let sign = (if s' \<noteq> [] \<and> (hd s' = CHR ''+'' \<or> hd s' = CHR ''-'') then 1 else 0);
                 n = length (takeWhile isdigit (drop sign s'))
             in if n = 0 then None else Some (1 + sign + n))
          else Some 0
      | [] \<Rightarrow> Some 0)"

definition mantissa_len :: "(char \<Rightarrow> bool) \<Rightarrow> string \<Rightarrow> nat" where
  "mantissa_len digit s = (let n = length (takeWhile digit s) in n + fraction_len digit (drop n s))"

definition is_hex :: "string \<Rightarrow> bool" where
  "is_hex s \<longleftrightarrow> 2 \<le> length s \<and> s ! 0 = CHR ''0'' \<and> tolower (s ! 1) = CHR ''x''"

definition scan_float :: "string \<Rightarrow> nat option" where
  "scan_float s =
     (if is_hex s then
        (let n = mantissa_len isxdigit (drop 2 s) in
         if filter isxdigit (take n (drop 2 s)) = [] then None
         else map_option (\<lambda>e. 2 + n + e) (exponent_len (CHR ''p'') (drop (2 + n) s)))
      else
        (let n = mantissa_len isdigit s in map_option (\<lambda>e. n + e) (exponent_len (CHR ''e'') (drop n s))))"

text \<open>A word of letters and underscores, \<open>%[_a-zA-Z]\<close>.\<close>

definition wordchar :: "char \<Rightarrow> bool" where
  "wordchar c \<longleftrightarrow> isalpha c \<or> c = CHR ''_''"

section \<open>The translation\<close>

text \<open>The shortest representation of a number.\<close>

definition best_rep :: "('f, 'd) fpu \<Rightarrow> 'f \<Rightarrow> u8 list" where
  "best_rep M val =
     (case float_int M val of
        Some n \<Rightarrow>
          if -128 \<le> n \<and> n < 128 then [TBF_CHAR, word_of_int n]
          else if -32768 \<le> n \<and> n < 32768 then
            [TBF_INT, word_of_int n, ucast (drop_bit 8 (word_of_int n :: u16))]
          else TBF_FLOAT # float_bytes M val
      | None \<Rightarrow> TBF_FLOAT # float_bytes M val)"

fun index_of :: "nat \<Rightarrow> string \<Rightarrow> string list \<Rightarrow> int" where
  "index_of lcv w [] = -1"
| "index_of lcv w (x # xs) = (if x = w then int lcv else index_of (lcv + 1) w xs)"

definition lookup :: "string \<Rightarrow> int" where
  "lookup w =
     (let c = hd w;
          w = (if c = CHR ''+'' then ''my_add'' else if c = CHR ''*'' then ''my_mul'' else if c = CHR ''/'' then ''my_div''
               else if c = CHR ''-'' then ''my_sub'' else if c = CHR ''^'' then ''pow'' else w)
      in index_of 0 w (take TABLE_SIZE s_table))"

text \<open>The loops that pop until they find a value \<open>stop\<close> is true of: the bytes written, that value, the stack.\<close>

partial_function (option) drain :: "(int \<Rightarrow> bool) \<Rightarrow> int stack \<Rightarrow> (u8 list \<times> int \<times> int stack) option" where
  "drain stop st =
     (case pop st of (v, st) \<Rightarrow>
        if stop v then Some ([], v, st)
        else Option.bind (drain stop st) (\<lambda>(bs, v', st). Some (word_of_int v # bs, v', st)))"

definition OPEN :: int where "OPEN = 40"

text \<open>What was written, and whether the end was reached or -1 returned; or a local variable that was
  overrun or never set.\<close>

datatype parsed = Postfix "u8 list" | Fails "u8 list" | Undefined

function intopost_loop :: "('f, 'd) fpu \<Rightarrow> string \<Rightarrow> int stack \<Rightarrow> u8 list \<Rightarrow> parsed option" where
  "intopost_loop M src istack postfix =
     (case src of
        [] \<Rightarrow> Option.bind (drain (\<lambda>v. v = OPEN) istack) (\<lambda>(bs, _, _). Some (Postfix (postfix @ bs)))
      | c # cs \<Rightarrow>
          if isspace c then intopost_loop M cs istack postfix
          else if isdigit c then
            (case scan_float (c # cs) of
               None \<Rightarrow> Some Undefined
             | Some b \<Rightarrow> intopost_loop M (drop (b - 1) cs) istack (postfix @ best_rep M (strtof M (take b (c # cs)))))
          else if isalpha c then
            (let w = c # takeWhile wordchar cs; cs = dropWhile wordchar cs in
             if 256 \<le> length w then Some Undefined
             else if map tolower w = ''t'' then intopost_loop M cs istack (postfix @ [T])
             else if map tolower w = ''pi'' then intopost_loop M cs istack (postfix @ [MY_PI])
             else if lookup w = -1 then Some (Fails postfix)
             else intopost_loop M cs (push (lookup w) istack) postfix)
          else if c = CHR ''('' then intopost_loop M cs (push OPEN istack) postfix
          else if c = CHR '')'' then
            Option.bind (drain (\<lambda>v. v = OPEN) istack) (\<lambda>(bs, _, istack). intopost_loop M cs istack (postfix @ bs))
          else if c = CHR ''*'' \<or> c = CHR ''/'' \<or> c = CHR ''^'' then
            Option.bind (drain (\<lambda>v. v = OPEN \<or> v = 43 \<or> v = 45) istack) (\<lambda>(bs, v, istack).
              if lookup [c] \<noteq> -1 then intopost_loop M cs (push (lookup [c]) (push v istack)) (postfix @ bs)
              else Some (Fails (postfix @ bs)))
          else if c = CHR ''+'' \<or> c = CHR ''-'' then
            Option.bind (drain (\<lambda>v. v = OPEN) istack) (\<lambda>(bs, v, istack).
              if lookup [c] \<noteq> -1 then intopost_loop M cs (push (lookup [c]) (push v istack)) (postfix @ bs)
              else Some (Fails (postfix @ bs)))
          else Some (Fails postfix))"
  by pat_completeness auto
termination
  by (relation "measure (\<lambda>(M, s, st, out). length s)") (auto simp: le_imp_less_Suc length_dropWhile_le)

declare intopost_loop.simps [simp del]

definition intopost :: "('f, 'd) fpu \<Rightarrow> string \<Rightarrow> parsed option" where
  "intopost M src = intopost_loop M src (push OPEN (stack_init new_stack)) []"

section \<open>Popping to a parenthesis\<close>

text \<open>The loops end exactly if the value they look for is on the stack, or is 0.\<close>

lemma drain_items:
  assumes "stack_ok st" and "stack_list st = vs @ v # rest" and "stop v" and "\<forall>x\<in>set vs. \<not> stop x"
  shows "\<exists>st'. drain stop st = Some (map word_of_int vs, v, st') \<and> stack_ok st' \<and> stack_list st' = rest"
  using assms
proof (induction vs arbitrary: st)
  case Nil
  then obtain st' where "pop st = (v, st')" "stack_ok st'" "stack_list st' = rest"
    using st.get_cases [of st v rest] by auto
  then show ?case using Nil(3) by (subst drain.simps) simp
next
  case (Cons x vs)
  obtain s1 where 1: "pop st = (x, s1)" "stack_ok s1" "stack_list s1 = vs @ v # rest"
    using st.get_cases [of st x "vs @ v # rest"] Cons.prems by auto
  obtain st' where "drain stop s1 = Some (map word_of_int vs, v, st')" "stack_ok st'" "stack_list st' = rest"
    using Cons.IH [OF 1(2,3)] Cons.prems by auto
  then show ?case using 1 Cons.prems(4) by (subst drain.simps) simp
qed

lemma drain_ends:
  assumes "drain stop st = Some r"
  shows "stop (fst (snd r)) \<and> (stack_ok st \<longrightarrow> \<not> stop 0 \<longrightarrow> (\<exists>x\<in>set (stack_list st). stop x))"
proof (rule drain.raw_induct [OF _ assms])
  fix rec :: "(int \<Rightarrow> bool) \<Rightarrow> int stack \<Rightarrow> (u8 list \<times> int \<times> int stack) option" and stop st r
  assume ih: "\<And>stop st r. rec stop st = Some r \<Longrightarrow>
      stop (fst (snd r)) \<and> (stack_ok st \<longrightarrow> \<not> stop 0 \<longrightarrow> (\<exists>x\<in>set (stack_list st). stop x))"
    and step: "(case pop st of (v, st) \<Rightarrow> if stop v then Some ([], v, st)
        else Option.bind (rec stop st) (\<lambda>(bs, v', st). Some (word_of_int v # bs, v', st))) = Some r"
  obtain v s1 where pop: "pop st = (v, s1)" by (cases "pop st")
  have top: "stack_list st \<noteq> [] \<Longrightarrow> stack_ok st \<Longrightarrow> v \<in> set (stack_list st)"
    "stack_list st = [] \<Longrightarrow> stack_ok st \<Longrightarrow> v = 0"
    using pop st.get_top [of st] pop_empty [of st] by auto
  show "stop (fst (snd r)) \<and> (stack_ok st \<longrightarrow> \<not> stop 0 \<longrightarrow> (\<exists>x\<in>set (stack_list st). stop x))"
  proof (cases "stop v")
    case True
    then show ?thesis using step pop top by (cases "stack_list st = []") auto
  next
    case False
    then obtain r' where r': "rec stop s1 = Some r'" "fst (snd r) = fst (snd r')"
      using step pop by (auto simp: bind_eq_Some_conv)
    have "set (stack_list s1) \<subseteq> set (stack_list st) \<and> stack_ok s1" if "stack_ok st"
      using that pop st.get_ok [of st] st.get_items [of st] by (cases "stack_list st") auto
    then show ?thesis using ih [OF r'(1)] r'(2) by auto
  qed
qed

lemma drain_never:
  assumes "stack_ok st" and "\<forall>x\<in>set (stack_list st). \<not> stop x" and "\<not> stop 0"
  shows "drain stop st = None"
  using assms drain_ends [of stop st] by (cases "drain stop st") auto

end
