(* ===== verification/TbfExpr.thy ===== *)
theory TbfExpr
  imports TbfParse
begin

text \<open>
  The expressions that trajectories are written in, the specification of \<open>tbf_proj/intopost.c\<close> and of
  \<open>rpncalc\<close> in \<open>tbf_proj/algo.c\<close>: their value from left to right, their text, and their code. The lemmas
  show that the evaluator computes the value from the code.
\<close>

section \<open>Expressions\<close>

text \<open>A chain of operands; \<open>Chain e c p\<close> is \<open>e\<close>, the operator \<open>c\<close> and the last operand \<open>p\<close>.\<close>

datatype operand = Number string | Time | Pi | Paren expr | Apply string expr
  and expr = Single operand | Chain expr char operand

definition operator :: "('f, 'd) fpu \<Rightarrow> char \<Rightarrow> 'd \<Rightarrow> 'd \<Rightarrow> 'd" where
  "operator M c = (if c = CHR ''+'' then double_add M else if c = CHR ''-'' then double_sub M
     else if c = CHR ''*'' then double_mul M else if c = CHR ''/'' then double_div M else double_pow M)"

primrec operand_value :: "('f, 'd) fpu \<Rightarrow> 'd \<Rightarrow> operand \<Rightarrow> 'd"
  and expr_value :: "('f, 'd) fpu \<Rightarrow> 'd \<Rightarrow> expr \<Rightarrow> 'd" where
  "operand_value M t (Number s) = float_double M (strtof M s)"
| "operand_value M t Time = t"
| "operand_value M t Pi = double_pi M"
| "operand_value M t (Paren e) = expr_value M t e"
| "operand_value M t (Apply f e) = libm M f (expr_value M t e)"
| "expr_value M t (Single p) = operand_value M t p"
| "expr_value M t (Chain e c p) = operator M c (expr_value M t e) (operand_value M t p)"

text \<open>How deep the stack of operators gets.\<close>

primrec operand_depth :: "operand \<Rightarrow> nat" and expr_depth :: "expr \<Rightarrow> nat" where
  "operand_depth (Number s) = 0"
| "operand_depth Time = 0"
| "operand_depth Pi = 0"
| "operand_depth (Paren e) = 1 + expr_depth e"
| "operand_depth (Apply f e) = 2 + expr_depth e"
| "expr_depth (Single p) = operand_depth p"
| "expr_depth (Chain e c p) = max (expr_depth e) (1 + operand_depth p)"

section \<open>The text of an expression\<close>

definition fun_names :: "string list" where
  "fun_names = [''sin'', ''cos'', ''tan'', ''asin'', ''acos'', ''atan'', ''sinh'', ''cosh'', ''tanh'', ''log'', ''exp'', ''sqrt'', ''ceil'', ''floor'']"

text \<open>Digits, perhaps with a fraction.\<close>

definition numeral_text :: "string \<Rightarrow> bool" where
  "numeral_text s \<longleftrightarrow> (\<exists>i f. i \<noteq> [] \<and> list_all isdigit i \<and> list_all isdigit f \<and> (s = i \<or> s = i @ CHR ''.'' # f))"

inductive operand_text :: "operand \<Rightarrow> string \<Rightarrow> bool" and expr_text :: "expr \<Rightarrow> string \<Rightarrow> bool" where
  number: "numeral_text s \<Longrightarrow> operand_text (Number s) s"
| time: "map tolower s = ''t'' \<Longrightarrow> operand_text Time s"
| pi: "map tolower s = ''pi'' \<Longrightarrow> operand_text Pi s"
| paren: "expr_text e s \<Longrightarrow> operand_text (Paren e) (''('' @ s @ '')'')"
| call: "f \<in> set fun_names \<Longrightarrow> list_all isspace ws \<Longrightarrow> expr_text e s \<Longrightarrow>
    operand_text (Apply f e) (f @ ws @ ''('' @ s @ '')'')"
| spaces: "list_all isspace before \<Longrightarrow> list_all isspace after \<Longrightarrow> operand_text p s \<Longrightarrow> operand_text p (before @ s @ after)"
| single: "operand_text p s \<Longrightarrow> expr_text (Single p) s"
| chain: "expr_text e s \<Longrightarrow> c \<in> set ''+-*/^'' \<Longrightarrow> operand_text p s' \<Longrightarrow> expr_text (Chain e c p) (s @ c # s')"

section \<open>The code of an expression\<close>

text \<open>What has been written when the text was read, and what is left on the stack, the top first.\<close>

primrec operand_code :: "('f, 'd) fpu \<Rightarrow> operand \<Rightarrow> u8 list \<times> int list"
  and expr_code :: "('f, 'd) fpu \<Rightarrow> expr \<Rightarrow> u8 list \<times> int list" where
  "operand_code M (Number s) = (best_rep M (strtof M s), [])"
| "operand_code M Time = ([T], [])"
| "operand_code M Pi = ([MY_PI], [])"
| "operand_code M (Paren e) = (case expr_code M e of (bs, vs) \<Rightarrow> (bs @ map word_of_int vs, []))"
| "operand_code M (Apply f e) = (case expr_code M e of (bs, vs) \<Rightarrow> (bs @ map word_of_int vs, [lookup f]))"
| "expr_code M (Single p) = operand_code M p"
| "expr_code M (Chain e c p) = (case expr_code M e of (bs, vs) \<Rightarrow> case operand_code M p of (cs, ws) \<Rightarrow>
     (bs @ map word_of_int vs @ cs, ws @ [lookup [c]]))"

definition code_of :: "u8 list \<times> int list \<Rightarrow> u8 list" where
  "code_of c = fst c @ map word_of_int (snd c)"

subsection \<open>Evaluating it\<close>

lemma lookup_functions:
  "lookup ''sin'' = 4" "lookup ''cos'' = 5" "lookup ''tan'' = 6" "lookup ''asin'' = 7" "lookup ''acos'' = 8" "lookup ''atan'' = 9"
  "lookup ''sinh'' = 10" "lookup ''cosh'' = 11" "lookup ''tanh'' = 12" "lookup ''log'' = 17" "lookup ''exp'' = 18"
  "lookup ''sqrt'' = 19" "lookup ''ceil'' = 20" "lookup ''floor'' = 21"
  by code_simp+

lemma lookup_operators: "lookup ''+'' = 129" "lookup ''-'' = 130" "lookup ''*'' = 131" "lookup ''/'' = 132" "lookup ''^'' = 133"
  by code_simp+

lemma s_table_functions: "map ((!) s_table) ([4..<13] @ [17..<22]) = fun_names"
  by code_simp

lemma fun_names_cases [consumes 1]:
  assumes "f \<in> set fun_names"
  obtains k where "lookup f = int k" "k < 22" "k \<notin> {1, 2, 3}" "s_table ! k = f" "f \<noteq> ''NULL''"
proof -
  obtain k where k: "k \<in> set ([4..<13] @ [17..<22])" "s_table ! k = f"
    using assms unfolding s_table_functions [symmetric] by auto
  have "k \<in> {4, 5, 6, 7, 8, 9, 10, 11, 12, 17, 18, 19, 20, 21}" using k(1) by auto
  moreover have "(s_table ! 4 = ''sin'' \<and> s_table ! 5 = ''cos'' \<and> s_table ! 6 = ''tan'' \<and> s_table ! 7 = ''asin'' \<and>
      s_table ! 8 = ''acos'' \<and> s_table ! 9 = ''atan'' \<and> s_table ! 10 = ''sinh'' \<and> s_table ! 11 = ''cosh'' \<and> s_table ! 12 = ''tanh'')
      \<and> s_table ! 17 = ''log'' \<and> s_table ! 18 = ''exp'' \<and> s_table ! 19 = ''sqrt'' \<and> s_table ! 20 = ''ceil'' \<and> s_table ! 21 = ''floor''"
    using s_table_functions by (simp add: fun_names_def upt_rec)
  ultimately have "lookup f = int k \<and> k < 22 \<and> k \<notin> {1, 2, 3} \<and> f \<noteq> ''NULL''"
    using k(2) by (elim insertE) (auto simp: lookup_functions)
  then show ?thesis using that k(2) by blast
qed

lemma runs_function:
  assumes "f \<in> set fun_names"
  shows "runs M t [word_of_int (lookup f)] (a # vs) (libm M f a # vs)"
  using assms
proof (cases rule: fun_names_cases)
  case (1 k)
  have k: "unat (word_of_int (lookup f) :: u8) = k"
    using 1 by (simp add: unat_of_nat)
  moreover have "(word_of_int (lookup f) :: u8) \<noteq> 22" "(word_of_int (lookup f) :: u8) \<notin> {1, 2, 3}" "(word_of_int (lookup f) :: u8) \<le> 128"
    using 1(2,3) k by (auto simp: word_le_nat_alt unat_arith_simps)
  ultimately show ?thesis
    using 1 by (intro runs_apply1) (simp_all add: f_table1_def code_defs)
qed

lemma runs_operator:
  assumes "c \<in> set ''+-*/^''"
  shows "runs M t [word_of_int (lookup [c])] (b # a # vs) (operator M c a b # vs)"
proof (rule runs_apply2)
  have "c = CHR ''+'' \<or> c = CHR ''-'' \<or> c = CHR ''*'' \<or> c = CHR ''/'' \<or> c = CHR ''^''" using assms by simp
  then show "f_table2 M (word_of_int (lookup [c])) = Some (operator M c)"
    by (elim disjE) (simp_all add: lookup_operators f_table2_def operator_def my_add_def my_sub_def my_mul_def my_div_def fun_eq_iff)
qed

lemma short_bytes: "ucast (ucast w :: u8) OR push_bit 8 (ucast (ucast (drop_bit 8 w) :: u8)) = (w :: u16)"
  by (rule bit_word_eqI) (auto simp: bit_simps)

lemma low_byte: "(word_of_int n :: u8) = ucast (word_of_int n :: u16)"
  by transfer (simp add: take_bit_eq_mod mod_mod_cancel)

lemma best_rep_runs:
  assumes "fpu_ok M" and "length vs < TBF_STACK_SIZE"
  shows "runs M t (best_rep M (strtof M s)) vs (float_double M (strtof M s) # vs)"
proof -
  have fl: "runs M t (TBF_FLOAT # float_bytes M (strtof M s)) vs (float_double M (strtof M s) # vs)"
    using runs_FLOAT [of "float_bytes M (strtof M s)" vs M t] assms by (simp add: fpu_ok_def)
  show ?thesis
  proof (cases "float_int M (strtof M s)")
    case None
    then show ?thesis using fl by (simp add: best_rep_def)
  next
    case (Some n)
    have v: "float_double M (strtof M s) = int_double M n" using assms(1) Some by (simp add: fpu_ok_def)
    have 8: "sint (word_of_int n :: u8) = n" if "-128 \<le> n" "n < 128"
      using that by (simp add: sint_sbintrunc' signed_take_bit_int_eq_self)
    have 16: "short_at [word_of_int n, ucast (drop_bit 8 (word_of_int n :: u16))] = n" if "-32768 \<le> n" "n < 32768"
    proof -
      have "short_at [word_of_int n, ucast (drop_bit 8 (word_of_int n :: u16))] = sint (word_of_int n :: u16)"
        using short_bytes [of "word_of_int n"] by (simp add: short_at_def low_byte)
      then show ?thesis using that by (simp add: sint_sbintrunc' signed_take_bit_int_eq_self)
    qed
    consider "-128 \<le> n" "n < 128" | "\<not> (-128 \<le> n \<and> n < 128)" "-32768 \<le> n" "n < 32768"
      | "\<not> (-128 \<le> n \<and> n < 128)" "\<not> (-32768 \<le> n \<and> n < 32768)" by blast
    then show ?thesis
    proof cases
      case 1
      then show ?thesis using runs_CHAR [OF assms(2), of M t "word_of_int n"] Some v 8 by (simp add: best_rep_def)
    next
      case 2
      have "best_rep M (strtof M s) = [TBF_INT, word_of_int n, ucast (drop_bit 8 (word_of_int n :: u16))]"
        using Some 2 unfolding best_rep_def by (simp del: de_Morgan_conj)
      then show ?thesis using runs_INT [OF assms(2), of M t "word_of_int n" "ucast (drop_bit 8 (word_of_int n :: u16))"] v 16 2
        by simp
    next
      case 3
      have "best_rep M (strtof M s) = TBF_FLOAT # float_bytes M (strtof M s)"
        using Some 3 unfolding best_rep_def by (simp del: de_Morgan_conj)
      then show ?thesis using fl by simp
    qed
  qed
qed

text \<open>The evaluator's stack gets no deeper than the translator's, which also holds the open parentheses.\<close>

lemma code_runs:
  assumes "fpu_ok M"
  shows "operand_text p s \<Longrightarrow> length vs + operand_depth p < TBF_STACK_SIZE \<Longrightarrow>
      runs M t (code_of (operand_code M p)) vs (operand_value M t p # vs)"
    and "expr_text e s \<Longrightarrow> length vs + expr_depth e < TBF_STACK_SIZE \<Longrightarrow>
      runs M t (code_of (expr_code M e)) vs (expr_value M t e # vs)"
proof (induction arbitrary: vs and vs rule: operand_text_expr_text.inducts)
  case (number s)
  then show ?case using best_rep_runs [OF assms] by (simp add: code_of_def)
next
  case (time s)
  then show ?case using runs_T by (simp add: code_of_def)
next
  case (pi s)
  then show ?case using runs_MY_PI by (simp add: code_of_def)
next
  case (paren e s)
  then show ?case by (simp add: code_of_def case_prod_beta)
next
  case (call f ws e s)
  have "runs M t (code_of (expr_code M e)) vs (expr_value M t e # vs)" using call by simp
  from runs_append [OF this runs_function [OF call(1)]]
  show ?case by (simp add: code_of_def case_prod_beta)
next
  case (spaces before after p s)
  then show ?case by simp
next
  case (single p s)
  then show ?case by simp
next
  case (chain e s c p s')
  have 1: "runs M t (code_of (expr_code M e)) vs (expr_value M t e # vs)" using chain by simp
  have 2: "runs M t (code_of (operand_code M p)) (expr_value M t e # vs) (operand_value M t p # expr_value M t e # vs)"
    using chain by simp
  from runs_append [OF runs_append [OF 1 2] runs_operator [OF chain.hyps(2)]]
  show ?case by (simp add: code_of_def case_prod_beta)
qed

end
