(* ===== verification/TbfTrajectory.thy ===== *)
theory TbfTrajectory
  imports TbfExpr
begin

text \<open>
  What the translation and the evaluation of a trajectory, \<open>tbf_proj/intopost.c\<close> and \<open>rpncalc\<close> in
  \<open>tbf_proj/algo.c\<close>, do together: every text of an expression is evaluated from left to right. The lemmas
  take the translation through the text of an expression; the theorems say on which texts it returns.
\<close>

section \<open>Reading characters\<close>

text \<open>What may follow an operand.\<close>

definition ends :: "string \<Rightarrow> bool" where
  "ends s \<longleftrightarrow> s = [] \<or> isspace (hd s) \<or> hd s \<in> set '')+-*/^''"

lemmas char_class_defs = isspace_def isdigit_def isalpha_def wordchar_def tolower_def

lemma ends_not:
  assumes "ends (c # s)"
  shows "\<not> isdigit c" "\<not> wordchar c" "c \<noteq> CHR ''.''" "tolower c \<noteq> CHR ''e''" "tolower c \<noteq> CHR ''x''"
  using assms by (auto simp: ends_def char_class_defs)

lemma ends_takeWhile: "ends s \<Longrightarrow> takeWhile isdigit s = []" "ends s \<Longrightarrow> takeWhile wordchar s = []"
  by (cases s; simp add: ends_not)+

lemma isdigit_not:
  assumes "isdigit c" shows "\<not> isspace c" "tolower c \<noteq> CHR ''x''" "c \<noteq> CHR ''.''"
  using assms by (auto simp: char_class_defs)

lemma isalpha_not: "isalpha c \<Longrightarrow> \<not> isspace c \<and> \<not> isdigit c \<and> wordchar c"
  by (auto simp: char_class_defs)

lemma fraction_len_ends: "ends s \<Longrightarrow> fraction_len isdigit s = 0"
  by (cases s) (auto simp: fraction_len_def ends_not)

lemma exponent_len_ends: "ends s \<Longrightarrow> exponent_len (CHR ''e'') s = Some 0"
  by (cases s) (auto simp: exponent_len_def ends_not)

lemma takeWhile_digits: "list_all isdigit i \<Longrightarrow> takeWhile isdigit (i @ s) = i @ takeWhile isdigit s"
  by (simp add: takeWhile_append2 list_all_iff)

text \<open>A numeral is read as a whole.\<close>

lemma scan_numeral:
  assumes "numeral_text s" and "ends rest"
  shows "scan_float (s @ rest) = Some (length s)" "s \<noteq> []" "isdigit (hd s)"
proof -
  obtain i f where n: "i \<noteq> []" "list_all isdigit i" "list_all isdigit f" "s = i \<or> s = i @ CHR ''.'' # f"
    using assms(1) by (auto simp: numeral_text_def)
  obtain d i' where i: "i = d # i'" using n(1) by (cases i) auto
  show "s \<noteq> []" "isdigit (hd s)" using n i by auto
  have hex: "\<not> is_hex (s @ rest)"
  proof (cases i')
    case Nil
    show ?thesis
    proof (cases "s = i")
      case True
      then show ?thesis using Nil i assms(2) by (cases rest) (auto simp: is_hex_def ends_not)
    next
      case False
      then show ?thesis using Nil i n(4) by (auto simp: is_hex_def tolower_def)
    qed
  next
    case (Cons d' i'')
    then have "isdigit d'" using i n(2) by simp
    then show ?thesis using Cons i n(4) isdigit_not(2) [of d'] by (auto simp: is_hex_def)
  qed
  have m: "mantissa_len isdigit (s @ rest) = length s"
    using n(4)
  proof
    assume "s = i"
    then show ?thesis using n(2) assms(2)
      by (simp add: mantissa_len_def takeWhile_digits ends_takeWhile fraction_len_ends)
  next
    assume s: "s = i @ CHR ''.'' # f"
    have "takeWhile isdigit (CHR ''.'' # f @ rest) = []" by (simp add: isdigit_def)
    then show ?thesis using n(2,3) assms(2) s
      by (simp add: mantissa_len_def takeWhile_digits ends_takeWhile fraction_len_def)
  qed
  show "scan_float (s @ rest) = Some (length s)"
    using hex m assms(2) by (simp add: scan_float_def exponent_len_ends)
qed

section \<open>Steps of the translation\<close>

lemma loop_Nil: "intopost_loop M [] st out = Option.bind (drain (\<lambda>v. v = OPEN) st) (\<lambda>(bs, _, _). Some (Postfix (out @ bs)))"
  by (simp add: intopost_loop.simps)

lemma loop_spaces: "list_all isspace ws \<Longrightarrow> intopost_loop M (ws @ s) st out = intopost_loop M s st out"
  by (induction ws) (simp_all add: intopost_loop.simps [of M "_ # _"])

lemma loop_numeral:
  assumes "numeral_text s" and "ends rest"
  shows "intopost_loop M (s @ rest) st out = intopost_loop M rest st (out @ best_rep M (strtof M s))"
proof -
  obtain d s' where s: "s = d # s'" using scan_numeral(2) [OF assms] by (cases s) auto
  have "isdigit d" using scan_numeral(3) [OF assms] s by simp
  then show ?thesis
    using scan_numeral(1) [OF assms] isdigit_not(1) [of d] s by (simp add: intopost_loop.simps [of M "_ # _"])
qed

lemma loop_word:
  assumes "w \<noteq> []" and "isalpha (hd w)" and "list_all wordchar w" and "length w < 256" and "takeWhile wordchar rest = []"
  shows "intopost_loop M (w @ rest) st out =
     (if map tolower w = ''t'' then intopost_loop M rest st (out @ [T])
      else if map tolower w = ''pi'' then intopost_loop M rest st (out @ [MY_PI])
      else if lookup w = -1 then Some (Fails out)
      else intopost_loop M rest (push (lookup w) st) out)"
proof -
  obtain c w' where w: "w = c # w'" using assms(1) by (cases w) auto
  have "dropWhile wordchar rest = rest" using assms(5) by (cases rest) (simp_all split: if_splits)
  moreover have "\<forall>x\<in>set w'. wordchar x" using assms(3) w by (simp add: list_all_iff)
  ultimately have "takeWhile wordchar (w' @ rest) = w'" "dropWhile wordchar (w' @ rest) = rest" "dropWhile wordchar rest = rest"
    using assms(5) by (simp_all add: dropWhile_append2)
  then show ?thesis
    using assms(2,4) w isalpha_not [of c] by (simp add: intopost_loop.simps [of M "_ # _"] Let_def)
qed

lemma loop_open: "intopost_loop M (CHR ''('' # s) st out = intopost_loop M s (push OPEN st) out"
  by (simp add: intopost_loop.simps [of M "_ # _"] char_class_defs)

lemma loop_close:
  assumes "stack_ok st" and "stack_list st = vs @ OPEN # base" and "OPEN \<notin> set vs"
  shows "\<exists>st'. stack_ok st' \<and> stack_list st' = base \<and>
    intopost_loop M (CHR '')'' # s) st out = intopost_loop M s st' (out @ map word_of_int vs)"
proof -
  obtain st' where "drain (\<lambda>v. v = OPEN) st = Some (map word_of_int vs, OPEN, st')" "stack_ok st'" "stack_list st' = base"
    using drain_items [OF assms(1,2), of "\<lambda>v. v = OPEN"] assms(3) by auto
  then show ?thesis by (intro exI [of _ st']) (simp add: intopost_loop.simps [of M "_ # _"] char_class_defs)
qed

text \<open>An operator writes everything above the open parenthesis, whatever it is.\<close>

lemma loop_operator:
  assumes "stack_ok st" and "stack_list st = vs @ OPEN # base" and "set vs \<inter> {OPEN, 43, 45} = {}"
    and "c \<in> set ''+-*/^''" and "length base + 2 \<le> TBF_STACK_SIZE"
  shows "\<exists>st'. stack_ok st' \<and> stack_list st' = lookup [c] # OPEN # base \<and>
    intopost_loop M (c # s) st out = intopost_loop M s st' (out @ map word_of_int vs)"
proof -
  have op: "c = CHR ''+'' \<or> c = CHR ''-'' \<or> c = CHR ''*'' \<or> c = CHR ''/'' \<or> c = CHR ''^''" using assms(4) by simp
  obtain s1 where s1: "drain (\<lambda>v. v = OPEN) st = Some (map word_of_int vs, OPEN, s1)" "stack_ok s1" "stack_list s1 = base"
    using drain_items [OF assms(1,2), of "\<lambda>v. v = OPEN"] assms(3) by auto
  obtain s2 where s2: "drain (\<lambda>v. v = OPEN \<or> v = 43 \<or> v = 45) st = Some (map word_of_int vs, OPEN, s2)" "stack_ok s2" "stack_list s2 = base"
    using drain_items [OF assms(1,2), of "\<lambda>v. v = OPEN \<or> v = 43 \<or> v = 45"] assms(3) by auto
  have pushed: "stack_ok (push (lookup [c]) (push OPEN s'))" "stack_list (push (lookup [c]) (push OPEN s')) = lookup [c] # OPEN # base"
    if "stack_ok s'" "stack_list s' = base" for s'
    using that assms(5) by (simp_all add: st.put_ok st.put_items)
  define s' where "s' = (if c = CHR ''+'' \<or> c = CHR ''-'' then s1 else s2)"
  have "intopost_loop M (c # s) st out = intopost_loop M s (push (lookup [c]) (push OPEN s')) (out @ map word_of_int vs)"
    using op s1(1) s2(1)
    by (elim disjE) (simp_all add: s'_def intopost_loop.simps [of M "_ # _"] char_class_defs lookup_operators)
  then show ?thesis using pushed [of s'] s1 s2 by (auto simp: s'_def)
qed

section \<open>From text to code\<close>

lemma isalpha_tolower: "isalpha (tolower c) \<Longrightarrow> isalpha c"
proof (cases "65 \<le> (of_char c :: nat) \<and> of_char c \<le> (90::nat)")
  case True
  then show ?thesis by (simp add: isalpha_def)
next
  case False
  then have "tolower c = c" unfolding tolower_def by (rule if_not_P)
  then show "isalpha (tolower c) \<Longrightarrow> isalpha c" by simp
qed

lemma fun_name_word:
  assumes "f \<in> set fun_names"
  shows "f \<noteq> []" "isalpha (hd f)" "list_all wordchar f" "length f < 256" "map tolower f \<noteq> ''t''" "map tolower f \<noteq> ''pi''"
    "lookup f \<noteq> -1"
proof -
  have "\<forall>f\<in>set fun_names. f \<noteq> [] \<and> isalpha (hd f) \<and> list_all wordchar f \<and> length f < 256 \<and> map tolower f \<noteq> ''t''
      \<and> map tolower f \<noteq> ''pi''"
    by (simp add: fun_names_def char_class_defs)
  from bspec [OF this assms]
  show "f \<noteq> []" "isalpha (hd f)" "list_all wordchar f" "length f < 256" "map tolower f \<noteq> ''t''" "map tolower f \<noteq> ''pi''"
    by simp_all
  show "lookup f \<noteq> -1" using assms by (cases rule: fun_names_cases) simp
qed

text \<open>What waits on the stack are codes of functions and operators.\<close>

lemma fun_name_waits: "f \<in> set fun_names \<Longrightarrow> lookup f \<notin> {OPEN, 43, 45}"
  by (erule fun_names_cases) (auto simp: OPEN_def)

lemma waiting:
  shows "operand_text p s \<Longrightarrow> set (snd (operand_code M p)) \<inter> {OPEN, 43, 45} = {}"
    and "expr_text e s \<Longrightarrow> set (snd (expr_code M e)) \<inter> {OPEN, 43, 45} = {}"
proof (induction rule: operand_text_expr_text.inducts)
  case (call f ws e s)
  then show ?case using fun_name_waits by (auto simp: case_prod_beta)
next
  case (chain e s c p s')
  then have "lookup [c] \<notin> {OPEN, 43, 45}" by (auto simp: lookup_operators OPEN_def)
  then show ?case using chain by (auto simp: case_prod_beta)
qed (auto simp: case_prod_beta)

lemma ends_simps [simp]: "ends []" "ends (CHR '')'' # s)" "c \<in> set ''+-*/^'' \<Longrightarrow> ends (c # s)"
  by (auto simp: ends_def)

lemma ends_spaces: "list_all isspace ws \<Longrightarrow> ends rest \<Longrightarrow> ends (ws @ rest)"
  by (cases ws) (auto simp: ends_def)

lemma single_letters:
  "map tolower s = ''t'' \<Longrightarrow> s \<noteq> [] \<and> isalpha (hd s) \<and> list_all wordchar s \<and> length s < 256"
  "map tolower s = ''pi'' \<Longrightarrow> s \<noteq> [] \<and> isalpha (hd s) \<and> list_all wordchar s \<and> length s < 256"
proof -
  have alpha: "isalpha c" if "tolower c = d" "isalpha d" for c d using that isalpha_tolower by blast
  have letters: "isalpha (CHR ''t'')" "isalpha (CHR ''p'')" "isalpha (CHR ''i'')" by (simp_all add: isalpha_def)
  show "map tolower s = ''t'' \<Longrightarrow> s \<noteq> [] \<and> isalpha (hd s) \<and> list_all wordchar s \<and> length s < 256"
    and "map tolower s = ''pi'' \<Longrightarrow> s \<noteq> [] \<and> isalpha (hd s) \<and> list_all wordchar s \<and> length s < 256"
    using alpha letters by (auto simp: map_eq_Cons_conv wordchar_def)
qed

lemma parse:
  shows "operand_text p s \<Longrightarrow> stack_ok st \<Longrightarrow> length (stack_list st) + operand_depth p \<le> TBF_STACK_SIZE \<Longrightarrow> ends rest \<Longrightarrow>
      \<exists>st'. stack_ok st' \<and> stack_list st' = snd (operand_code M p) @ stack_list st \<and>
        intopost_loop M (s @ rest) st out = intopost_loop M rest st' (out @ fst (operand_code M p))"
    and "expr_text e s \<Longrightarrow> stack_ok st \<Longrightarrow> stack_list st = OPEN # base \<Longrightarrow>
      length (stack_list st) + expr_depth e \<le> TBF_STACK_SIZE \<Longrightarrow> ends rest \<Longrightarrow>
      \<exists>st'. stack_ok st' \<and> stack_list st' = snd (expr_code M e) @ OPEN # base \<and>
        intopost_loop M (s @ rest) st out = intopost_loop M rest st' (out @ fst (expr_code M e))"
proof (induction arbitrary: st rest out and st base rest out rule: operand_text_expr_text.inducts)
  case (number s)
  then show ?case using loop_numeral [of s rest M st out] by (intro exI [of _ st]) simp
next
  case (time s)
  then show ?case using single_letters(1) [of s] loop_word [of s rest M st out]
    by (intro exI [of _ st]) (simp add: ends_takeWhile)
next
  case (pi s)
  then show ?case using single_letters(2) [of s] loop_word [of s rest M st out]
    by (intro exI [of _ st]) (simp add: ends_takeWhile)
next
  case (paren e s)
  let ?st = "push OPEN st"
  have st: "stack_ok ?st" "stack_list ?st = OPEN # stack_list st"
    using paren.prems by (simp_all add: st.put_ok st.put_items)
  obtain s1 where s1: "stack_ok s1" "stack_list s1 = snd (expr_code M e) @ OPEN # stack_list st"
    "intopost_loop M (s @ CHR '')'' # rest) ?st out = intopost_loop M (CHR '')'' # rest) s1 (out @ fst (expr_code M e))"
    using paren.IH [OF st] paren.prems(2) st(2) by (metis add_Suc_right add_Suc_shift ends_simps(2) length_Cons operand_depth.simps(4) plus_1_eq_Suc)
  obtain s2 where "stack_ok s2" "stack_list s2 = stack_list st"
    "intopost_loop M (CHR '')'' # rest) s1 (out @ fst (expr_code M e)) = intopost_loop M rest s2 ((out @ fst (expr_code M e)) @ map word_of_int (snd (expr_code M e)))"
    using loop_close [OF s1(1,2)] waiting(2) [OF paren.hyps] by blast
  then show ?case using s1(3) by (auto simp: loop_open case_prod_beta)
next
  case (call f ws e s)
  let ?st = "push OPEN (push (lookup f) st)"
  have st: "stack_ok ?st" "stack_list ?st = OPEN # lookup f # stack_list st"
    using call.prems by (simp_all add: st.put_ok st.put_items)
  have stop: "takeWhile wordchar (ws @ ''('' @ x) = []" for x
    using call.hyps(2) by (cases ws) (auto simp: char_class_defs)
  have "intopost_loop M ((f @ ws @ ''('' @ s @ '')'') @ rest) st out = intopost_loop M (s @ CHR '')'' # rest) ?st out"
    using loop_word [of f "ws @ ''('' @ s @ '')'' @ rest" M st out] fun_name_word [OF call.hyps(1)] stop
    by (simp add: loop_spaces [OF call.hyps(2)] loop_open)
  moreover obtain s1 where s1: "stack_ok s1" "stack_list s1 = snd (expr_code M e) @ OPEN # lookup f # stack_list st"
    "intopost_loop M (s @ CHR '')'' # rest) ?st out = intopost_loop M (CHR '')'' # rest) s1 (out @ fst (expr_code M e))"
    using call.IH [OF st, of "CHR '')'' # rest" out] call.prems(2) st(2) by auto
  moreover obtain s2 where "stack_ok s2" "stack_list s2 = lookup f # stack_list st"
    "intopost_loop M (CHR '')'' # rest) s1 (out @ fst (expr_code M e)) = intopost_loop M rest s2 ((out @ fst (expr_code M e)) @ map word_of_int (snd (expr_code M e)))"
    using loop_close [OF s1(1,2)] waiting(2) [OF call.hyps(3)] by blast
  ultimately show ?case by (auto simp: case_prod_beta)
next
  case (spaces before after p s)
  obtain s1 where "stack_ok s1" "stack_list s1 = snd (operand_code M p) @ stack_list st"
    "intopost_loop M (s @ after @ rest) st out = intopost_loop M (after @ rest) s1 (out @ fst (operand_code M p))"
    using spaces.IH [of st "after @ rest" out] spaces.prems ends_spaces [OF spaces.hyps(2)] by auto
  then show ?case by (auto simp: loop_spaces spaces.hyps)
next
  case (single p s)
  then show ?case using single.IH [of st rest out] by simp
next
  case (chain e s c p s')
  have d: "length (stack_list st) + expr_depth e \<le> TBF_STACK_SIZE" "length base + 2 + operand_depth p \<le> TBF_STACK_SIZE"
    using chain.prems(2,3) by (simp_all add: max_def split: if_splits)
  obtain s1 where s1: "stack_ok s1" "stack_list s1 = snd (expr_code M e) @ OPEN # base"
    "intopost_loop M (s @ c # s' @ rest) st out = intopost_loop M (c # s' @ rest) s1 (out @ fst (expr_code M e))"
    using chain.IH(1) [OF chain.prems(1,2) d(1), of "c # s' @ rest" out] ends_simps(3) [OF chain.hyps(2)] by auto
  obtain s2 where s2: "stack_ok s2" "stack_list s2 = lookup [c] # OPEN # base"
    "intopost_loop M (c # s' @ rest) s1 (out @ fst (expr_code M e)) =
      intopost_loop M (s' @ rest) s2 ((out @ fst (expr_code M e)) @ map word_of_int (snd (expr_code M e)))"
    using loop_operator [OF s1(1,2) waiting(2) [OF chain.hyps(1)] chain.hyps(2)] d(2) by fastforce
  obtain s3 where "stack_ok s3" "stack_list s3 = snd (operand_code M p) @ lookup [c] # OPEN # base"
    "intopost_loop M (s' @ rest) s2 ((out @ fst (expr_code M e)) @ map word_of_int (snd (expr_code M e))) =
      intopost_loop M rest s3 (((out @ fst (expr_code M e)) @ map word_of_int (snd (expr_code M e))) @ fst (operand_code M p))"
    using chain.IH(2) [OF s2(1) _ chain.prems(4)] s2(2) d(2) by fastforce
  then show ?case using s1(3) s2(3) by (auto simp: case_prod_beta)
qed

lemma intopost_text:
  assumes "expr_text e s" and "expr_depth e < TBF_STACK_SIZE"
  shows "intopost M s = Some (Postfix (code_of (expr_code M e)))"
    and "intopost M (s @ '')'') = None"
proof -
  let ?st = "push OPEN (stack_init new_stack)"
  have st: "stack_ok ?st" "stack_list ?st = [OPEN]"
    using new_stack_holds [where ?'a = int] by (simp_all add: st.holds_def st.put_ok st.put_items TBF_STACK_SIZE_def)
  have read: "\<exists>st'. stack_ok st' \<and> stack_list st' = snd (expr_code M e) @ [OPEN] \<and>
      intopost_loop M (s @ rest) ?st [] = intopost_loop M rest st' (fst (expr_code M e))" if "ends rest" for rest
    using parse(2) [OF assms(1) st(1,2) _ that, of M "[]"] assms(2) st(2) by simp
  have wait: "OPEN \<notin> set (snd (expr_code M e))" using waiting(2) [OF assms(1), of M] by auto
  obtain s1 where s1: "stack_ok s1" "stack_list s1 = snd (expr_code M e) @ [OPEN]"
    "intopost_loop M (s @ []) ?st [] = intopost_loop M [] s1 (fst (expr_code M e))" using read [of "[]"] by auto
  obtain s2 where "drain (\<lambda>v. v = OPEN) s1 = Some (map word_of_int (snd (expr_code M e)), OPEN, s2)"
    using drain_items [of s1 "snd (expr_code M e)" OPEN "[]" "\<lambda>v. v = OPEN"] s1(1,2) wait by auto
  then show "intopost M s = Some (Postfix (code_of (expr_code M e)))"
    using s1(3) by (simp add: intopost_def loop_Nil code_of_def)
  obtain s3 where s3: "stack_ok s3" "stack_list s3 = snd (expr_code M e) @ OPEN # []"
    "intopost_loop M (s @ '')'') ?st [] = intopost_loop M '')'' s3 (fst (expr_code M e))" using read [of "'')''"] by auto
  obtain s4 where s4: "stack_ok s4" "stack_list s4 = []"
    "intopost_loop M '')'' s3 (fst (expr_code M e)) = intopost_loop M [] s4 (fst (expr_code M e) @ map word_of_int (snd (expr_code M e)))"
    using loop_close [OF s3(1,2) wait, of M "[]"] by blast
  have "drain (\<lambda>v. v = OPEN) s4 = None" using drain_never [OF s4(1)] s4(2) by (simp add: OPEN_def)
  then show "intopost M (s @ '')'') = None" using s3(3) s4(3) by (simp add: intopost_def loop_Nil)
qed

text \<open>C11: Every text of an expression that nests at most 29 deep, operators and function names counted,
  is translated to code, and the code evaluates to what the text means when it is read from left to
  right: all operators have the same precedence, contrary to the comment in the source.\<close>

theorem intopost_left_to_right:
  assumes "fpu_ok M" and "expr_text e s" and "expr_depth e < TBF_STACK_SIZE"
  shows "\<exists>code. intopost M s = Some (Postfix code) \<and>
    (\<forall>rest t. rpncalc M (code @ rest) (int (length code)) t = Some (1, expr_value M t e))"
proof (intro exI conjI allI)
  show "intopost M s = Some (Postfix (code_of (expr_code M e)))" by (rule intopost_text(1) [OF assms(2,3)])
  show "rpncalc M (code_of (expr_code M e) @ rest) (int (length (code_of (expr_code M e)))) t = Some (1, expr_value M t e)" for rest t
    by (rule rpncalc_runs, rule code_runs(2) [OF assms(1,2)]) (use assms(3) in simp)
qed

text \<open>A floating-point unit to run examples on: a float is a number below 256, a double any integer.\<close>

definition decimal :: "string \<Rightarrow> nat" where
  "decimal s = foldl (\<lambda>n c. 10 * n + (of_char c - 48)) 0 s"

definition example_fpu :: "(u8, int) fpu" where
  "example_fpu = \<lparr>strtof = \<lambda>s. of_nat (decimal s), float_int = \<lambda>v. Some (uint v),
     float_bytes = \<lambda>v. [v, 0, 0, 0], bytes_float = \<lambda>bs. bs ! 0,
     float_double = uint, int_double = \<lambda>n. n, double_add = (+), double_sub = (-),
     double_mul = (*), double_div = (div), double_pow = \<lambda>a b. a, double_pi = 3, libm = \<lambda>f a. - a\<rparr>"

lemma example_fpu_ok: "fpu_ok example_fpu"
  by (simp add: fpu_ok_def example_fpu_def)

lemma numeral_text_digit: "isdigit d \<Longrightarrow> numeral_text [d]"
  unfolding numeral_text_def by (intro exI [of _ "[d]"] exI [of _ "[]"]) simp

text \<open>In \<open>1+2*sin(3)\<close> the sum is formed first.\<close>

definition example_expr :: expr where
  "example_expr = Chain (Chain (Single (Number ''1'')) (CHR ''+'') (Number ''2'')) (CHR ''*'') (Apply ''sin'' (Single (Number ''3'')))"

lemma example_text: "expr_text example_expr ''1+2*sin(3)''"
proof -
  have n: "operand_text (Number [d]) [d]" if "isdigit d" for d
    using that by (intro operand_text_expr_text.number numeral_text_digit)
  have "operand_text (Apply ''sin'' (Single (Number ''3''))) (''sin'' @ [] @ ''('' @ ''3'' @ '')'')"
    by (intro operand_text_expr_text.call operand_text_expr_text.single n) (simp_all add: fun_names_def isdigit_def)
  moreover have "expr_text (Chain (Single (Number ''1'')) (CHR ''+'') (Number ''2'')) (''1'' @ CHR ''+'' # ''2'')"
    by (rule operand_text_expr_text.chain [OF operand_text_expr_text.single [OF n] _ n]) (simp_all add: isdigit_def)
  ultimately have "expr_text example_expr ((''1'' @ CHR ''+'' # ''2'') @ CHR ''*'' # (''sin'' @ [] @ ''('' @ ''3'' @ '')''))"
    unfolding example_expr_def by (rule operand_text_expr_text.chain [rotated 2]) simp
  then show ?thesis by simp
qed

theorem intopost_left_to_right_witness:
  "\<exists>code. intopost example_fpu ''1+2*sin(3)'' = Some (Postfix code) \<and>
    (\<forall>rest t. rpncalc example_fpu (code @ rest) (int (length code)) t = Some (1, (1 + 2) * - 3))"
proof -
  have "expr_value example_fpu t example_expr = (1 + 2) * - 3" for t
    by (simp add: example_expr_def example_fpu_def operator_def decimal_def)
  moreover have "expr_depth example_expr < TBF_STACK_SIZE" by (simp add: example_expr_def TBF_STACK_SIZE_def)
  ultimately show ?thesis using intopost_left_to_right [OF example_fpu_ok example_text] by simp
qed

section \<open>When the translation returns\<close>

text \<open>Every parenthesis that is closed was opened; \<open>k\<close> are open at the beginning.\<close>

fun closes_ok :: "nat \<Rightarrow> string \<Rightarrow> bool" where
  "closes_ok k [] = True"
| "closes_ok k (c # s) =
     (if c = CHR ''('' then closes_ok (k + 1) s else if c = CHR '')'' then 0 < k \<and> closes_ok (k - 1) s else closes_ok k s)"

definition plain :: "char \<Rightarrow> bool" where
  "plain c \<longleftrightarrow> c \<noteq> CHR ''('' \<and> c \<noteq> CHR '')''"

lemma plain_digit: "isdigit c \<Longrightarrow> plain c" "isxdigit c \<Longrightarrow> plain c" "isalpha c \<Longrightarrow> plain c"
  by (auto simp: plain_def isxdigit_def isdigit_def isalpha_def)

lemma take_takeWhile: "take (length (takeWhile d s)) s = takeWhile d s"
  by (induction s) auto

lemma plain_mantissa:
  assumes "\<And>c. digit c \<Longrightarrow> plain c"
  shows "list_all plain (take (mantissa_len digit s) s)"
proof -
  have t: "list_all plain (takeWhile digit x)" for x
    using assms by (auto simp: list_all_iff dest: set_takeWhileD)
  then have "list_all plain (take (fraction_len digit x) x)" for x
    by (cases x) (auto simp: fraction_len_def take_takeWhile plain_def)
  then show ?thesis using t by (simp add: mantissa_len_def Let_def take_add take_takeWhile)
qed

lemma plain_exponent:
  assumes "exponent_len e s = Some n" and "isalpha e"
  shows "list_all plain (take n s)"
proof (cases s)
  case (Cons c s')
  show ?thesis
  proof (cases "tolower c = e")
    case True
    define sign :: nat where "sign = (if s' \<noteq> [] \<and> (hd s' = CHR ''+'' \<or> hd s' = CHR ''-'') then 1 else 0)"
    define k where "k = length (takeWhile isdigit (drop sign s'))"
    have "exponent_len e s = (if k = 0 then None else Some (1 + sign + k))"
      unfolding exponent_len_def Cons sign_def k_def Let_def using True by (simp only: list.case if_True simp_thms)
    then have n: "n = Suc (sign + k)" using assms(1) by (simp split: if_splits)
    have "list_all plain (take sign s')"
      by (cases s') (auto simp: sign_def plain_def)
    moreover have "list_all plain (take k (drop sign s'))"
      unfolding k_def take_takeWhile using plain_digit(1) by (auto simp: list_all_iff dest: set_takeWhileD)
    moreover have "plain c" using True assms(2) isalpha_tolower plain_digit(3) by blast
    ultimately show ?thesis using Cons n by (simp add: take_add)
  next
    case False
    then show ?thesis using assms(1) Cons by (simp add: exponent_len_def)
  qed
qed simp

lemma scan_float_inside:
  assumes "scan_float s = Some b"
  shows "list_all plain (take b s)"
proof (cases "is_hex s")
  case True
  define n where "n = mantissa_len isxdigit (drop 2 s)"
  obtain e where e: "exponent_len (CHR ''p'') (drop (2 + n) s) = Some e" "b = 2 + n + e"
    using assms True by (auto simp: scan_float_def Let_def n_def split: if_splits)
  have "list_all plain (take e (drop (2 + n) s))" by (rule plain_exponent [OF e(1)]) (simp add: isalpha_def)
  moreover have "list_all plain (take n (drop 2 s))" unfolding n_def by (rule plain_mantissa) (rule plain_digit(2))
  moreover have "list_all plain (take 2 s)"
  proof -
    obtain x y r where s: "s = x # y # r" using True by (cases s; cases "tl s") (auto simp: is_hex_def)
    have "isalpha y" using True s isalpha_tolower [of y] by (simp add: is_hex_def isalpha_def)
    then show ?thesis using True s plain_digit(3) by (simp add: is_hex_def plain_def)
  qed
  ultimately show ?thesis unfolding e(2) take_add by (simp only: list_all_append)
next
  case False
  define n where "n = mantissa_len isdigit s"
  obtain e where e: "exponent_len (CHR ''e'') (drop n s) = Some e" "b = n + e"
    using assms False by (auto simp: scan_float_def Let_def n_def)
  have "list_all plain (take e (drop n s))" by (rule plain_exponent [OF e(1)]) (simp add: isalpha_def)
  moreover have "list_all plain (take n s)" unfolding n_def by (rule plain_mantissa) (rule plain_digit(1))
  ultimately show ?thesis unfolding e(2) take_add by (simp only: list_all_append)
qed

lemma closes_ok_plain: "list_all plain p \<Longrightarrow> closes_ok k (p @ s) = closes_ok k s"
  by (induction p) (auto simp: plain_def)

lemma first_not_new:
  assumes "index_of n w xs = int k" shows "n \<le> k \<and> k - n < length xs \<and> xs ! (k - n) = w \<and> (\<forall>j<k - n. xs ! j \<noteq> w)"
  using assms
proof (induction n w xs rule: index_of.induct)
  case (2 n w x xs)
  show ?case
  proof (cases "x = w")
    case True
    then show ?thesis using 2 by simp
  next
    case False
    then have ih: "Suc n \<le> k \<and> k - Suc n < length xs \<and> xs ! (k - Suc n) = w \<and> (\<forall>j<k - Suc n. xs ! j \<noteq> w)" using 2 by simp
    then have "k - n = Suc (k - Suc n)" by arith
    then show ?thesis using ih False by (auto simp: less_Suc_eq_0_disj)
  qed
qed simp

lemma s_table_gaps: "s_table ! 0 = ''NULL'' \<and> s_table ! 40 = ''NULL'' \<and> s_table ! 43 = ''NULL'' \<and> s_table ! 45 = ''NULL''"
  by (simp add: s_table_def nth_append)

lemma lookup_waits: "lookup w \<notin> {OPEN, 43, 45}"
proof -
  have "False" if k: "index_of 0 v (take TABLE_SIZE s_table) = int k" and "k \<in> {40, 43, 45}" for v k
  proof -
    have "s_table ! k = v" "s_table ! 0 \<noteq> v" using first_not_new [OF k] that(2) by (auto simp: TABLE_SIZE_def)
    then show False using s_table_gaps that(2) by auto
  qed
  from this [of _ 40] this [of _ 43] this [of _ 45] show ?thesis
    by (auto simp: lookup_def Let_def OPEN_def)
qed

lemma drain_open:
  assumes "stack_ok st" and "0 < count_list (stack_list st) OPEN" and "stop OPEN"
    and "\<And>x. x \<in> set (stack_list st) \<Longrightarrow> stop x \<Longrightarrow> x = OPEN"
  shows "\<exists>bs st'. drain stop st = Some (bs, OPEN, st') \<and> stack_ok st' \<and> set (stack_list st') \<subseteq> set (stack_list st) \<and>
    length (stack_list st') < length (stack_list st) \<and> Suc (count_list (stack_list st') OPEN) = count_list (stack_list st) OPEN"
proof -
  have "OPEN \<in> set (stack_list st)" using assms(2) by (metis count_notin less_numeral_extra(3))
  then obtain vs base where v: "stack_list st = vs @ OPEN # base" "OPEN \<notin> set vs" by (meson split_list_first)
  have "\<forall>x\<in>set vs. \<not> stop x" using assms(4) v by auto
  then obtain st' where "drain stop st = Some (map word_of_int vs, OPEN, st')" "stack_ok st'" "stack_list st' = base"
    using drain_items [where stop = stop, OF assms(1) v(1) assms(3)] by blast
  then show ?thesis using v by (intro exI [of _ "map word_of_int vs"] exI [of _ st']) auto
qed

text \<open>The stack between two characters: \<open>k\<close> parentheses are open besides the outermost.\<close>

definition reading :: "nat \<Rightarrow> nat \<Rightarrow> int stack \<Rightarrow> bool" where
  "reading k n st \<longleftrightarrow> stack_ok st \<and> length (stack_list st) + n \<le> TBF_STACK_SIZE \<and>
     set (stack_list st) \<inter> {43, 45} = {} \<and> count_list (stack_list st) OPEN = Suc k"

lemma reading_less: "reading k n st \<Longrightarrow> m \<le> n \<Longrightarrow> reading k m st"
  by (simp add: reading_def)

lemma reading_push:
  assumes "reading k n st" and "v \<notin> {43, 45}" and "0 < n"
  shows "reading (if v = OPEN then Suc k else k) (n - 1) (push v st)"
  using assms by (auto simp: reading_def st.put_ok st.put_items)

lemma reading_drain:
  assumes "reading k n st" and "stop = (\<lambda>v. v = OPEN) \<or> stop = (\<lambda>v. v = OPEN \<or> v = 43 \<or> v = 45)"
  obtains bs st' where "drain stop st = Some (bs, OPEN, st')"
    "0 < k \<Longrightarrow> reading (k - 1) n st'" "0 < n \<Longrightarrow> reading k (n - 1) (push (lookup w) (push OPEN st'))"
proof -
  obtain bs st' where d: "drain stop st = Some (bs, OPEN, st')" "stack_ok st'" "set (stack_list st') \<subseteq> set (stack_list st)"
    "length (stack_list st') < length (stack_list st)" "Suc (count_list (stack_list st') OPEN) = count_list (stack_list st) OPEN"
    using drain_open [of st stop] assms by (auto simp: reading_def)
  have pushed: "reading k (n - 1) (push (lookup w) (push OPEN st'))" if "0 < n"
  proof -
    have "reading k n (push OPEN st')" using assms(1) d by (auto simp: reading_def st.put_ok st.put_items OPEN_def)
    from reading_push [OF this, of "lookup w"] show ?thesis using lookup_waits [of w] that by auto
  qed
  have "reading (k - 1) n st'" if "0 < k" using assms(1) d that by (auto simp: reading_def)
  then show ?thesis using that d(1) pushed by blast
qed

lemma loop_returns:
  assumes "reading k (length s) st" and "closes_ok k s"
  shows "\<exists>r. intopost_loop M s st out = Some r"
  using assms
proof (induction "length s" arbitrary: s k st out rule: less_induct)
  case less
  show ?case
  proof (cases s)
    case Nil
    then show ?thesis using less.prems by (auto simp: loop_Nil elim: reading_drain [of k _ st "\<lambda>v. v = OPEN"])
  next
    case (Cons c cs)
    have next_: "\<exists>r. intopost_loop M s' st' out' = Some r" if "length s' < length s" "reading k' (length s') st'" "closes_ok k' s'" for s' st' out' k'
      using less.hyps that by blast
    have here: "reading k (length cs) st" using less.prems(1) Cons by (auto intro: reading_less)
    have ok: "closes_ok k (c # cs)" using less.prems(2) Cons by simp
    have plain_c: "closes_ok k cs" if "plain c" using ok that by (simp add: plain_def split: if_splits)
    have operator: ?thesis if c: "c \<in> set ''+-*/^''"
    proof -
      have op: "c = CHR ''+'' \<or> c = CHR ''-'' \<or> c = CHR ''*'' \<or> c = CHR ''/'' \<or> c = CHR ''^''" using c by simp
      define stop :: "int \<Rightarrow> bool" where
        "stop = (if c = CHR ''+'' \<or> c = CHR ''-'' then (\<lambda>v. v = OPEN) else (\<lambda>v. v = OPEN \<or> v = 43 \<or> v = 45))"
      have sd: "stop = (\<lambda>v. v = OPEN) \<or> stop = (\<lambda>v. v = OPEN \<or> v = 43 \<or> v = 45)" by (simp add: stop_def)
      obtain bs st' where d: "drain stop st = Some (bs, OPEN, st')" "0 < length s \<Longrightarrow> reading k (length s - 1) (push (lookup [c]) (push OPEN st'))"
        using reading_drain [OF less.prems(1) sd, of "[c]"] by blast
      have "intopost_loop M s st out = intopost_loop M cs (push (lookup [c]) (push OPEN st')) (out @ bs)"
        using op d(1) unfolding Cons
        by (elim disjE) (simp_all add: stop_def intopost_loop.simps [of M "_ # _"] char_class_defs lookup_operators)
      moreover have "plain c" using op by (auto simp: plain_def)
      ultimately show ?thesis using next_ [of cs k] d(2) plain_c Cons by simp
    qed
    consider "isspace c" | "\<not> isspace c" "isdigit c" | "\<not> isspace c" "\<not> isdigit c" "isalpha c"
      | "c = CHR ''(''" | "c = CHR '')''" | "c \<in> set ''+-*/^''"
      | "\<not> isspace c" "\<not> isdigit c" "\<not> isalpha c" "c \<noteq> CHR ''(''" "c \<noteq> CHR '')''" "c \<notin> set ''+-*/^''" by blast
    then show ?thesis
    proof cases
      case 1
      then have "plain c" by (auto simp: plain_def isspace_def)
      then show ?thesis using 1 next_ [of cs k st out] plain_c here Cons by (simp add: intopost_loop.simps [of M "_ # _"])
    next
      case 2
      show ?thesis
      proof (cases "scan_float (c # cs)")
        case None
        then show ?thesis using 2 Cons by (simp add: intopost_loop.simps [of M "_ # _"])
      next
        case (Some b)
        have "closes_ok k (drop (b - 1) cs)"
        proof (cases b)
          case 0
          then show ?thesis using plain_c plain_digit(1) 2 by simp
        next
          case (Suc n)
          have "closes_ok k (take b (c # cs) @ drop b (c # cs))" using ok by (simp only: append_take_drop_id)
          then have "closes_ok k (drop b (c # cs))" by (simp only: closes_ok_plain [OF scan_float_inside [OF Some]])
          then show ?thesis using Suc by simp
        qed
        moreover have "reading k (length (drop (b - 1) cs)) st" by (rule reading_less [OF here]) simp
        ultimately show ?thesis using 2 Some next_ [of "drop (b - 1) cs" k st] Cons
          by (simp add: intopost_loop.simps [of M "_ # _"])
      qed
    next
      case 3
      let ?cs = "dropWhile wordchar cs" and ?w = "c # takeWhile wordchar cs"
      have "list_all plain (takeWhile wordchar cs)"
        by (auto simp: list_all_iff wordchar_def plain_def isalpha_def dest!: set_takeWhileD)
      then have cl: "closes_ok k ?cs"
        using closes_ok_plain [of "takeWhile wordchar cs" k ?cs] plain_c plain_digit(3) 3(3) by simp
      have len: "length ?cs < length s" using Cons by (simp add: le_imp_less_Suc length_dropWhile_le)
      have r: "reading k (length ?cs) st" by (rule reading_less [OF less.prems(1)]) (use len in simp)
      have "reading k (length s - 1) (push (lookup ?w) st)"
        using reading_push [OF less.prems(1), of "lookup ?w"] lookup_waits [of ?w] Cons by simp
      then have p: "reading k (length ?cs) (push (lookup ?w) st)" by (rule reading_less) (use len Cons in simp)
      show ?thesis
        using 3 next_ [OF len r cl] next_ [OF len p cl] Cons by (simp add: intopost_loop.simps [of M "_ # _"] Let_def)
    next
      case 4
      have "reading (Suc k) (length s - 1) (push OPEN st)"
        using reading_push [OF less.prems(1), of OPEN] Cons by (simp add: OPEN_def)
      then show ?thesis using next_ [of cs "Suc k"] ok 4 Cons by (simp add: loop_open)
    next
      case 5
      then have k: "0 < k" "closes_ok (k - 1) cs" using ok by simp_all
      obtain bs st' where d: "drain (\<lambda>v. v = OPEN) st = Some (bs, OPEN, st')" "0 < k \<Longrightarrow> reading (k - 1) (length s) st'"
        using reading_drain [OF less.prems(1), of "\<lambda>v. v = OPEN"] by blast
      have "reading (k - 1) (length cs) st'" by (rule reading_less [OF d(2) [OF k(1)]]) (simp add: Cons)
      then show ?thesis using next_ [of cs "k - 1" st' "out @ bs"] k 5 d(1) Cons
        by (simp add: intopost_loop.simps [of M "_ # _"] char_class_defs)
    next
      case 6
      then show ?thesis by (rule operator)
    next
      case 7
      then show ?thesis using Cons by (simp add: intopost_loop.simps [of M "_ # _"])
    qed
  qed
qed

lemma start_stack: "stack_ok (push OPEN (stack_init new_stack))" "stack_list (push OPEN (stack_init new_stack)) = [OPEN]"
  using new_stack_holds [where ?'a = int] by (simp_all add: st.holds_def st.put_ok st.put_items TBF_STACK_SIZE_def)

text \<open>On any text shorter than 30 characters, whatever they are, in which no parenthesis is closed that
  was not opened, the translation returns.\<close>

theorem intopost_returns:
  assumes "length s < TBF_STACK_SIZE" and "closes_ok 0 s"
  shows "\<exists>r. intopost M s = Some r"
  unfolding intopost_def
  by (rule loop_returns [OF _ assms(2)]) (use assms(1) start_stack in \<open>simp add: reading_def OPEN_def\<close>)

theorem intopost_returns_witness: "\<exists>r. intopost example_fpu ''(1*(2'' = Some r"
  using intopost_returns [of "''(1*(2''" example_fpu] by (auto simp: TBF_STACK_SIZE_def)

text \<open>Pushing to the full stack is ignored, so closing parentheses find an empty one.\<close>

lemma loop_opens:
  assumes "stack_ok st" and "stack_list st = replicate m OPEN"
  shows "\<exists>st'. stack_ok st' \<and> stack_list st' = replicate (min (m + n) TBF_STACK_SIZE) OPEN \<and>
    intopost_loop M (replicate n (CHR ''('') @ s) st out = intopost_loop M s st' out"
  using assms
proof (induction n arbitrary: st m)
  case 0
  have "m \<le> TBF_STACK_SIZE" using st.items_room [OF 0(1)] 0(2) by simp
  then show ?case using 0 by auto
next
  case (Suc n)
  have "stack_ok (push OPEN st)" using Suc.prems(1) by (rule st.put_ok)
  moreover have "stack_list (push OPEN st) = replicate (min (m + 1) TBF_STACK_SIZE) OPEN"
    using st.put_items [OF Suc.prems(1), of OPEN] Suc.prems(2) st.items_room [OF Suc.prems(1)] by (simp add: min_def)
  ultimately obtain st' where "stack_ok st'"
    "stack_list st' = replicate (min (min (m + 1) TBF_STACK_SIZE + n) TBF_STACK_SIZE) OPEN"
    "intopost_loop M (replicate n (CHR ''('') @ s) (push OPEN st) out = intopost_loop M s st' out"
    using Suc.IH by blast
  moreover have "min (min (m + 1) TBF_STACK_SIZE + n) TBF_STACK_SIZE = min (m + Suc n) TBF_STACK_SIZE" by simp
  ultimately show ?case by (auto simp: loop_open)
qed

lemma loop_closes:
  assumes "stack_ok st" and "stack_list st = replicate m OPEN" and "m \<le> n"
  shows "intopost_loop M (replicate n (CHR '')'')) st out = None"
  using assms
proof (induction n arbitrary: st m out)
  case 0
  then show ?case using drain_never [of st "\<lambda>v. v = OPEN"] by (simp add: loop_Nil OPEN_def)
next
  case (Suc n)
  show ?case
  proof (cases m)
    case 0
    then have "drain (\<lambda>v. v = OPEN) st = None" using drain_never [of st "\<lambda>v. v = OPEN"] Suc.prems by (simp add: OPEN_def)
    then show ?thesis by (simp add: intopost_loop.simps [of M "_ # _"] char_class_defs)
  next
    case (Suc m')
    obtain st' where "stack_ok st'" "stack_list st' = replicate m' OPEN"
      "intopost_loop M (CHR '')'' # replicate n (CHR '')'')) st out = intopost_loop M (replicate n (CHR '')'')) st' (out @ [])"
      using loop_close [OF Suc.prems(1), of "[]" "replicate m' OPEN" M "replicate n (CHR '')'')" out] Suc.prems(2) Suc by auto
    then show ?thesis using Suc.IH [of st' m' "out"] Suc.prems(3) Suc by simp
  qed
qed

text \<open>Where one parenthesis too many is closed after an expression, or 30 or more are nested, the
  translation never returns; it goes on writing zeros to memory.\<close>

theorem intopost_never_returns:
  assumes "expr_text e s" and "expr_depth e < TBF_STACK_SIZE" and "TBF_STACK_SIZE \<le> n"
  shows "intopost M (s @ '')'') = None \<and> intopost M (replicate n (CHR ''('') @ ''t'' @ replicate n (CHR '')'')) = None"
proof
  show "intopost M (s @ '')'') = None" by (rule intopost_text(2) [OF assms(1,2)])
  let ?r = "''t'' @ replicate n (CHR '')'')"
  obtain st where st: "stack_ok st" "stack_list st = replicate TBF_STACK_SIZE OPEN"
    "intopost_loop M (replicate n (CHR ''('') @ ?r) (push OPEN (stack_init new_stack)) [] = intopost_loop M ?r st []"
    using loop_opens [OF start_stack(1), of 1 n M ?r "[]"] start_stack(2) assms(3) by auto
  have "takeWhile wordchar (replicate n (CHR '')'')) = []" using assms(3) by (cases n) (auto simp: char_class_defs)
  then have "intopost_loop M ?r st [] = intopost_loop M (replicate n (CHR '')'')) st [T]"
    using loop_word [of "''t''" "replicate n (CHR '')'')" M st "[]"] by (simp add: char_class_defs)
  then show "intopost M (replicate n (CHR ''('') @ ''t'' @ replicate n (CHR '')'')) = None"
    using st loop_closes [OF st(1,2) assms(3)] by (simp add: intopost_def)
qed

theorem intopost_never_returns_witness:
  "intopost example_fpu ''1+2*sin(3))'' = None \<and>
   intopost example_fpu (replicate 30 (CHR ''('') @ ''t'' @ replicate 30 (CHR '')'')) = None"
  using intopost_never_returns [OF example_text, of 30 example_fpu] by (simp add: example_expr_def TBF_STACK_SIZE_def)

end
