(* ===== verification/TbfPacket.thy ===== *)
theory TbfPacket
  imports TbfTrajectory
begin

text \<open>
  The packet of trajectory-based forwarding: \<open>dump_traj\<close> of \<open>tbf_proj/intopost.c\<close> and \<open>get_traj\<close> of
  \<open>tbf_proj/algo.c\<close>. A packet is its bytes: a header \<open>struct tbf_hdr\<close> of 12 bytes and after it the code
  for the x coordinate and the code for the y coordinate. Their lengths are bit fields of four bits each.

  The lemmas: code that fits is found again and evaluates to the coordinates; code of 16 bytes is accepted
  and lost.
\<close>

section \<open>The header\<close>

definition sizeof_tbf_hdr :: nat where "sizeof_tbf_hdr = 12"

text \<open>The bit fields \<open>proc\<close>, \<open>fwd\<close>, \<open>policy\<close>, \<open>x_byte\<close> and \<open>y_byte\<close> share bytes 10 and 11.\<close>

definition hdr_bits :: "u8 list \<Rightarrow> u16" where
  "hdr_bits pkt = ucast (pkt ! 10) OR push_bit 8 (ucast (pkt ! 11))"

definition set_hdr_bits :: "u16 \<Rightarrow> u8 list \<Rightarrow> u8 list" where
  "set_hdr_bits w pkt = pkt[10 := ucast w, 11 := ucast (drop_bit 8 w)]"

definition x_byte :: "u8 list \<Rightarrow> nat" where
  "x_byte pkt = unat (drop_bit 6 (hdr_bits pkt) AND 15)"

definition y_byte :: "u8 list \<Rightarrow> nat" where
  "y_byte pkt = unat (drop_bit 10 (hdr_bits pkt) AND 15)"

definition set_x_byte :: "nat \<Rightarrow> u8 list \<Rightarrow> u8 list" where
  "set_x_byte n pkt = set_hdr_bits ((hdr_bits pkt AND 0xfc3f) OR push_bit 6 (of_nat n AND 15)) pkt"

definition set_y_byte :: "nat \<Rightarrow> u8 list \<Rightarrow> u8 list" where
  "set_y_byte n pkt = set_hdr_bits ((hdr_bits pkt AND 0xc3ff) OR push_bit 10 (of_nat n AND 15)) pkt"

section \<open>The operations\<close>

text \<open>Bytes are written from \<open>off\<close> on; \<open>None\<close> is a write beyond the memory the packet is in.\<close>

definition write_at :: "nat \<Rightarrow> u8 list \<Rightarrow> u8 list \<Rightarrow> u8 list option" where
  "write_at off bs pkt = (if off + length bs \<le> length pkt then Some (take off pkt @ bs @ drop (off + length bs) pkt) else None)"

text \<open>A call of \<open>intopost\<close> with a place in the packet to write to: the packet and the value returned.\<close>

definition intopost_at :: "('f, 'd) fpu \<Rightarrow> string \<Rightarrow> nat \<Rightarrow> u8 list \<Rightarrow> (u8 list \<times> int) option" where
  "intopost_at M src off pkt =
     (case intopost M src of
        None \<Rightarrow> None
      | Some Undefined \<Rightarrow> None
      | Some (Fails bs) \<Rightarrow> map_option (\<lambda>pkt. (pkt, -1)) (write_at off bs pkt)
      | Some (Postfix bs) \<Rightarrow> map_option (\<lambda>pkt. (pkt, int (length bs))) (write_at off (bs @ [0]) pkt))"

text \<open>The comparison is one of unsigned numbers.\<close>

definition too_big :: "int \<Rightarrow> int \<Rightarrow> bool" where
  "too_big n data_len \<longleftrightarrow> 0 \<le> data_len \<and> data_len < n + int sizeof_tbf_hdr"

definition dump_traj :: "('f, 'd) fpu \<Rightarrow> string \<Rightarrow> string \<Rightarrow> u8 list \<Rightarrow> int \<Rightarrow> (u8 list \<times> int) option" where
  "dump_traj M inf_x inf_y pkt data_len =
     Option.bind (intopost_at M inf_x sizeof_tbf_hdr pkt) (\<lambda>(pkt, err).
       if err < 0 then Some (pkt, -1)
       else if too_big err data_len then Some (pkt, -2)
       else
         (let pkt = set_x_byte (nat err) pkt in
          Option.bind (intopost_at M inf_y (sizeof_tbf_hdr + x_byte pkt) pkt) (\<lambda>(pkt, err).
            if err < 0 then Some (pkt, -1)
            else if too_big (err + int (x_byte pkt)) data_len then Some (pkt, -2)
            else Some (set_y_byte (nat err) pkt, 1))))"

text \<open>The pointers into the packet are the memory from there on.\<close>

record trajectory =
  tr_x_byte :: int
  tr_y_byte :: int
  tr_x_traj :: "u8 list"
  tr_y_traj :: "u8 list"

definition get_traj :: "u8 list \<Rightarrow> trajectory" where
  "get_traj pkt = \<lparr>tr_x_byte = int (x_byte pkt), tr_y_byte = int (y_byte pkt),
     tr_x_traj = drop sizeof_tbf_hdr pkt, tr_y_traj = drop (sizeof_tbf_hdr + x_byte pkt) pkt\<rparr>"

section \<open>Fields and bytes\<close>

lemma hdr_bits_set: "12 \<le> length pkt \<Longrightarrow> hdr_bits (set_hdr_bits w pkt) = w"
  by (simp add: hdr_bits_def set_hdr_bits_def short_bytes)

lemma length_set [simp]: "length (set_x_byte n pkt) = length pkt" "length (set_y_byte n pkt) = length pkt"
  by (simp_all add: set_x_byte_def set_y_byte_def set_hdr_bits_def)

lemma and_15: "unat (of_nat n AND (15 :: u16)) = n mod 16"
proof -
  have "of_nat n AND (15 :: u16) = of_nat n AND mask 4" by (simp add: mask_eq_exp_minus_1)
  then show ?thesis by (simp flip: take_bit_eq_mask add: unsigned_take_bit_eq unsigned_of_nat take_bit_take_bit)
     (simp add: take_bit_eq_mod)
qed

lemma x_byte_set: "12 \<le> length pkt \<Longrightarrow> x_byte (set_x_byte n pkt) = n mod 16"
proof -
  have "drop_bit 6 ((w AND 0xfc3f) OR push_bit 6 (v AND 15)) AND 15 = v AND 15" for w v :: u16
    by (rule u16_eqI) (simp add: upt_rec bit_simps)
  then show "12 \<le> length pkt \<Longrightarrow> x_byte (set_x_byte n pkt) = n mod 16"
    by (simp add: x_byte_def set_x_byte_def hdr_bits_set and_15)
qed

lemma y_byte_set: "12 \<le> length pkt \<Longrightarrow> y_byte (set_y_byte n pkt) = n mod 16"
proof -
  have "drop_bit 10 ((w AND 0xc3ff) OR push_bit 10 (v AND 15)) AND 15 = v AND 15" for w v :: u16
    by (rule u16_eqI) (simp add: upt_rec bit_simps)
  then show "12 \<le> length pkt \<Longrightarrow> y_byte (set_y_byte n pkt) = n mod 16"
    by (simp add: y_byte_def set_y_byte_def hdr_bits_set and_15)
qed

lemma x_byte_set_y: "12 \<le> length pkt \<Longrightarrow> x_byte (set_y_byte n pkt) = x_byte pkt"
proof -
  have "drop_bit 6 ((w AND 0xc3ff) OR push_bit 10 (v AND 15)) AND 15 = drop_bit 6 w AND 15" for w v :: u16
    by (rule u16_eqI) (simp add: upt_rec bit_simps)
  then show "12 \<le> length pkt \<Longrightarrow> x_byte (set_y_byte n pkt) = x_byte pkt"
    by (simp add: x_byte_def set_y_byte_def hdr_bits_set)
qed

lemma drop_set: "12 \<le> k \<Longrightarrow> drop k (set_x_byte n pkt) = drop k pkt" "12 \<le> k \<Longrightarrow> drop k (set_y_byte n pkt) = drop k pkt"
  by (simp_all add: set_x_byte_def set_y_byte_def set_hdr_bits_def)

lemma write_at_fits:
  assumes "off + length bs \<le> length pkt"
  shows "\<exists>pkt'. write_at off bs pkt = Some pkt' \<and> length pkt' = length pkt \<and> take off pkt' = take off pkt \<and>
    drop off pkt' = bs @ drop (off + length bs) pkt"
  using assms by (simp add: write_at_def)

lemma x_byte_take: "take k p = take k q \<Longrightarrow> 12 \<le> k \<Longrightarrow> x_byte p = x_byte q"
proof -
  assume t: "take k p = take k q" "12 \<le> k"
  have "p ! i = q ! i" if "i < k" for i using t(1) that by (metis nth_take)
  from this [of 10] this [of 11] show "x_byte p = x_byte q" using t(2) by (simp add: x_byte_def hdr_bits_def)
qed

section \<open>Trajectories through a packet\<close>

text \<open>The code of an expression.\<close>

definition code :: "('f, 'd) fpu \<Rightarrow> expr \<Rightarrow> u8 list" where
  "code M e = code_of (expr_code M e)"

lemma intopost_at_text:
  assumes "expr_text e s" and "expr_depth e < TBF_STACK_SIZE" and "off + length (code M e) < length pkt"
  obtains pkt' where "intopost_at M s off pkt = Some (pkt', int (length (code M e)))" "length pkt' = length pkt"
    "take off pkt' = take off pkt" "take (length (code M e)) (drop off pkt') = code M e"
  using write_at_fits [of off "code M e @ [0]" pkt] intopost_text(1) [OF assms(1,2), of M] assms(3)
  by (auto simp: intopost_at_def code_def)

lemma rpncalc_at:
  assumes "fpu_ok M" and "expr_text e s" and "expr_depth e < TBF_STACK_SIZE" and "take (length (code M e)) str = code M e"
  shows "rpncalc M str (int (length (code M e))) t = Some (1, expr_value M t e)"
proof -
  have "runs M t (code M e) [] [expr_value M t e]"
    unfolding code_def using code_runs(2) [OF assms(1,2), of "[]"] assms(3) by simp
  from rpncalc_runs [OF this, of "drop (length (code M e)) str"] show ?thesis using assms(4) by (metis append_take_drop_id)
qed

text \<open>The steps of \<open>dump_traj\<close> on two expressions.\<close>

lemma dump_traj_texts:
  assumes x: "expr_text ex sx" "expr_depth ex < TBF_STACK_SIZE" and y: "expr_text ey sy" "expr_depth ey < TBF_STACK_SIZE"
    and room: "sizeof_tbf_hdr + length (code M ex) + length (code M ey) \<le> n" "n < length pkt"
  obtains p1 p3 where "dump_traj M sx sy pkt (int n) = Some (set_y_byte (length (code M ey)) p3, 1)" "length p3 = length pkt"
    "take (length (code M ex)) (drop 12 p1) = code M ex"
    "take (12 + length (code M ex) mod 16) p3 = take (12 + length (code M ex) mod 16) (set_x_byte (length (code M ex)) p1)"
    "take (length (code M ey)) (drop (12 + length (code M ex) mod 16) p3) = code M ey" "x_byte p3 = length (code M ex) mod 16"
proof -
  let ?lx = "length (code M ex)" and ?ly = "length (code M ey)"
  obtain p1 where p1: "intopost_at M sx 12 pkt = Some (p1, int ?lx)" "length p1 = length pkt" "take ?lx (drop 12 p1) = code M ex"
    using intopost_at_text [OF x, of 12 M pkt] room by (auto simp: sizeof_tbf_hdr_def)
  let ?p2 = "set_x_byte ?lx p1"
  have x2: "x_byte ?p2 = ?lx mod 16" using p1(2) room by (simp add: x_byte_set sizeof_tbf_hdr_def)
  have "?lx mod 16 \<le> ?lx" by simp
  then have fits: "12 + ?lx mod 16 + ?ly < length ?p2" using room p1(2) by (simp add: sizeof_tbf_hdr_def)
  obtain p3 where p3: "intopost_at M sy (12 + ?lx mod 16) ?p2 = Some (p3, int ?ly)" "length p3 = length ?p2"
    "take (12 + ?lx mod 16) p3 = take (12 + ?lx mod 16) ?p2" "take ?ly (drop (12 + ?lx mod 16) p3) = code M ey"
    using intopost_at_text [OF y fits] by blast
  have x3: "x_byte p3 = ?lx mod 16" using x_byte_take [OF p3(3)] x2 by simp
  have small: "\<not> too_big (int ?lx) (int n)" "\<not> too_big (int ?ly + int (?lx mod 16)) (int n)"
    using room \<open>?lx mod 16 \<le> ?lx\<close> by (auto simp: too_big_def sizeof_tbf_hdr_def simp flip: of_nat_add)
  have "dump_traj M sx sy pkt (int n) = Some (set_y_byte ?ly p3, 1)"
    using p1(1) p3(1) x2 x3 small by (simp add: dump_traj_def sizeof_tbf_hdr_def Let_def)
  then show ?thesis using that p1(2,3) p3(2-4) x3 by simp
qed

text \<open>C25: Two coordinates whose code takes at most 15 bytes each and fits in a packet are evaluated by the
  receiver, for every parameter \<open>t\<close>, as their texts say from left to right.\<close>

theorem trajectory_in_packet:
  assumes M: "fpu_ok M" and x: "expr_text ex sx" "expr_depth ex < TBF_STACK_SIZE"
    and y: "expr_text ey sy" "expr_depth ey < TBF_STACK_SIZE"
    and short: "length (code M ex) < 16" "length (code M ey) < 16"
    and room: "sizeof_tbf_hdr + length (code M ex) + length (code M ey) \<le> n" "n < length pkt"
  shows "\<exists>pkt'. dump_traj M sx sy pkt (int n) = Some (pkt', 1) \<and>
    (\<forall>t. rpncalc M (tr_x_traj (get_traj pkt')) (tr_x_byte (get_traj pkt')) t = Some (1, expr_value M t ex) \<and>
         rpncalc M (tr_y_traj (get_traj pkt')) (tr_y_byte (get_traj pkt')) t = Some (1, expr_value M t ey))"
proof -
  let ?lx = "length (code M ex)" and ?ly = "length (code M ey)"
  obtain p1 p3 where p0: "dump_traj M sx sy pkt (int n) = Some (set_y_byte ?ly p3, 1)" "length p3 = length pkt"
    "take (length (code M ex)) (drop 12 p1) = code M ex"
    "take (12 + length (code M ex) mod 16) p3 = take (12 + length (code M ex) mod 16) (set_x_byte (length (code M ex)) p1)"
    "take ?ly (drop (12 + length (code M ex) mod 16) p3) = code M ey" "x_byte p3 = length (code M ex) mod 16"
    using dump_traj_texts [OF x y room] by blast
  have p: "take (12 + ?lx) p3 = take (12 + ?lx) (set_x_byte ?lx p1)" "take ?ly (drop (12 + ?lx) p3) = code M ey" "x_byte p3 = ?lx"
    using p0(4-6) short(1) by simp_all
  have 12: "12 \<le> length p3" using p0(2) room by (simp add: sizeof_tbf_hdr_def)
  have "take ?lx (drop 12 p3) = take ?lx (drop 12 (set_x_byte ?lx p1))"
    using arg_cong [OF p(1), of "drop 12"] by (simp add: drop_take)
  then have "take ?lx (drop 12 p3) = code M ex" using p0(3) by (simp add: drop_set)
  then show ?thesis
    using p p0(1) short rpncalc_at [OF M x] rpncalc_at [OF M y] 12
    by (intro exI [of _ "set_y_byte ?ly p3"])
      (simp add: get_traj_def sizeof_tbf_hdr_def x_byte_set_y y_byte_set drop_set)
qed

text \<open>Code of 16 bytes for the x coordinate is accepted too; its length is stored as 0, the code of the
  y coordinate is written over it, and the receiver cannot evaluate it.\<close>

theorem trajectory_lost:
  assumes x: "expr_text ex sx" "expr_depth ex < TBF_STACK_SIZE" and y: "expr_text ey sy" "expr_depth ey < TBF_STACK_SIZE"
    and long: "length (code M ex) = 16"
    and room: "sizeof_tbf_hdr + length (code M ex) + length (code M ey) \<le> n" "n < length pkt"
  shows "\<exists>pkt'. dump_traj M sx sy pkt (int n) = Some (pkt', 1) \<and> tr_x_byte (get_traj pkt') = 0 \<and>
    take (length (code M ey)) (tr_x_traj (get_traj pkt')) = code M ey \<and>
    (\<forall>t. rpncalc M (tr_x_traj (get_traj pkt')) (tr_x_byte (get_traj pkt')) t = Some (-1, 0))"
proof -
  let ?ly = "length (code M ey)"
  obtain p1 p3 where p0: "dump_traj M sx sy pkt (int n) = Some (set_y_byte ?ly p3, 1)" "length p3 = length pkt"
    "take (length (code M ex)) (drop 12 p1) = code M ex"
    "take (12 + length (code M ex) mod 16) p3 = take (12 + length (code M ex) mod 16) (set_x_byte (length (code M ex)) p1)"
    "take ?ly (drop (12 + length (code M ex) mod 16) p3) = code M ey" "x_byte p3 = length (code M ex) mod 16"
    using dump_traj_texts [OF x y room] by blast
  have p: "take ?ly (drop 12 p3) = code M ey" "x_byte p3 = 0" using p0(5,6) long by simp_all
  have 12: "12 \<le> length p3" using p0(2) room by (simp add: sizeof_tbf_hdr_def)
  have "rpncalc M str 0 t = Some (-1, 0)" for str t
    by (simp add: rpncalc_def rpn_loop.simps pop_def stack_init_def new_stack_def stack_err_def)
  then show ?thesis using p p0(1) 12
    by (intro exI [of _ "set_y_byte ?ly p3"]) (simp add: get_traj_def sizeof_tbf_hdr_def x_byte_set_y drop_set)
qed

lemma example_code: "length (code example_fpu (Single (Number ''1''))) = 2" "length (code example_fpu (Chain (Single Time) (CHR ''+'') (Number ''1''))) = 4"
  by (simp_all add: code_def code_of_def best_rep_def example_fpu_def decimal_def case_prod_beta)

lemma example_texts: "expr_text (Single (Number ''1'')) ''1''" "expr_text (Chain (Single Time) (CHR ''+'') (Number ''1'')) ''t+1''"
proof -
  have n: "operand_text (Number ''1'') ''1''"
    by (intro operand_text_expr_text.number numeral_text_digit) (simp add: isdigit_def)
  then show "expr_text (Single (Number ''1'')) ''1''" by (rule operand_text_expr_text.single)
  have "operand_text Time ''t''" by (intro operand_text_expr_text.time) (simp add: tolower_def)
  from operand_text_expr_text.chain [OF operand_text_expr_text.single [OF this] _ n, of "CHR ''+''"]
  show "expr_text (Chain (Single Time) (CHR ''+'') (Number ''1'')) ''t+1''" by simp
qed

theorem trajectory_in_packet_witness:
  "\<exists>pkt'. dump_traj example_fpu ''t+1'' ''1'' (replicate 30 0) 29 = Some (pkt', 1) \<and>
    (\<forall>t. rpncalc example_fpu (tr_x_traj (get_traj pkt')) (tr_x_byte (get_traj pkt')) t = Some (1, t + 1) \<and>
         rpncalc example_fpu (tr_y_traj (get_traj pkt')) (tr_y_byte (get_traj pkt')) t = Some (1, 1))"
  using trajectory_in_packet [OF example_fpu_ok example_texts(2) _ example_texts(1), of 29 "replicate 30 0"]
  by (simp add: example_code TBF_STACK_SIZE_def sizeof_tbf_hdr_def) (simp add: example_fpu_def operator_def decimal_def)

text \<open>A sum of eight terms, 16 bytes of code.\<close>

primrec add_times :: "nat \<Rightarrow> expr \<Rightarrow> expr" where
  "add_times 0 e = e"
| "add_times (Suc n) e = add_times n (Chain e (CHR ''+'') Time)"

lemma add_times_text: "expr_text e s \<Longrightarrow> expr_text (add_times n e) (s @ concat (replicate n ''+t''))"
proof (induction n arbitrary: e s)
  case (Suc n)
  have "operand_text Time ''t''" by (intro operand_text_expr_text.time) (simp add: tolower_def)
  from operand_text_expr_text.chain [OF Suc.prems _ this, of "CHR ''+''"] Suc.IH show ?case by fastforce
qed simp

theorem trajectory_lost_witness:
  "\<exists>pkt'. dump_traj example_fpu ''t+1+t+t+t+t+t+t'' ''1'' (replicate 40 0) 39 = Some (pkt', 1) \<and>
    tr_x_byte (get_traj pkt') = 0 \<and> take 2 (tr_x_traj (get_traj pkt')) = [TBF_CHAR, 1] \<and>
    (\<forall>t. rpncalc example_fpu (tr_x_traj (get_traj pkt')) (tr_x_byte (get_traj pkt')) t = Some (-1, 0))"
proof -
  let ?e = "add_times 6 (Chain (Single Time) (CHR ''+'') (Number ''1''))"
  have "expr_text ?e ''t+1+t+t+t+t+t+t''" using add_times_text [OF example_texts(2), of 6] by (simp add: numeral_eq_Suc)
  moreover have "length (code example_fpu ?e) = 16" "expr_depth ?e < TBF_STACK_SIZE"
    by (simp_all add: numeral_eq_Suc TBF_STACK_SIZE_def code_def code_of_def case_prod_beta best_rep_def example_fpu_def decimal_def)
  moreover have "code example_fpu (Single (Number ''1'')) = [TBF_CHAR, 1]"
    by (simp add: code_def code_of_def best_rep_def example_fpu_def decimal_def)
  ultimately show ?thesis
    using trajectory_lost [of ?e "''t+1+t+t+t+t+t+t''" "Single (Number ''1'')" "''1''" example_fpu 39 "replicate 40 0"] example_texts(1)
    by (simp add: TBF_STACK_SIZE_def sizeof_tbf_hdr_def numeral_2_eq_2)
qed

end
