(* ===== verification/TbfNeigh.thy ===== *)
theory TbfNeigh
  imports TbfCalc "HOL-Library.Multiset"
begin

text \<open>
  The table of neighbours of trajectory-based forwarding, \<open>tbf_proj/algo.c\<close>, with the table of handlers of
  the layer above. Every beacon sets the clock of its sender to 0 and advances all others; an entry whose
  clock, of seven bits, is above 10 is taken out, and the last entry is put in its place.

  The lemmas: the table as a map from the neighbours' names, what a beacon and the removal do to it, and how
  long a silent neighbour stays.
\<close>

section \<open>State and operations\<close>

definition MAX_NEIGH :: nat where "MAX_NEIGH = 32"
definition N_CLOCK_THRESH :: nat where "N_CLOCK_THRESH = 10"
definition MAX_TOS_HANDLERS :: nat where "MAX_TOS_HANDLERS = 256"

text \<open>What the table needs of floating point besides: conversion to \<open>float\<close>, and \<open>==\<close>.\<close>

record ('f, 'd) fpu_cmp = "('f, 'd) fpu" +
  double_float :: "'d \<Rightarrow> 'f"
  double_eq :: "'d \<Rightarrow> 'd \<Rightarrow> bool"

record 'f neigh =
  ng_id :: u16
  ng_x :: 'f
  ng_y :: 'f
  ng_dirty :: "1 word"
  ng_clock :: "7 word"

record 'f neigh_table =
  n_list :: "'f neigh list"
  total_neigh :: nat

text \<open>The entries in use.\<close>

definition entries :: "'f neigh_table \<Rightarrow> 'f neigh list" where
  "entries s = take (total_neigh s) (n_list s)"

text \<open>\<open>*n = n_list[--total_neigh]\<close>\<close>

definition replace_by_last :: "nat \<Rightarrow> 'f neigh_table \<Rightarrow> 'f neigh_table" where
  "replace_by_last i s = (let k = total_neigh s - 1 in s\<lparr>total_neigh := k, n_list := (n_list s)[i := n_list s ! k]\<rparr>)"

text \<open>\<open>None\<close> is an access before the table.\<close>

definition remove_neigh :: "int \<Rightarrow> 'f neigh_table \<Rightarrow> ('f neigh_table \<times> int) option" where
  "remove_neigh index s =
     (if index \<ge> int (total_neigh s) then Some (s, -1)
      else if index < 0 then None
      else Some (replace_by_last (nat index) s, 1))"

definition dead :: "'f neigh \<Rightarrow> bool" where
  "dead n \<longleftrightarrow> unat (ng_clock n) > N_CLOCK_THRESH"

function remove_dead_from :: "nat \<Rightarrow> 'f neigh_table \<Rightarrow> 'f neigh_table option" where
  "remove_dead_from i s =
     (if i < total_neigh s then
        (if dead (n_list s ! i) then
           (case remove_neigh (int i) s of None \<Rightarrow> None | Some (s', _) \<Rightarrow> remove_dead_from i s')
         else remove_dead_from (i + 1) s)
      else Some s)"
  by pat_completeness auto
termination
  by (relation "measure (\<lambda>(i, s). total_neigh s - i)") (auto simp: remove_neigh_def replace_by_last_def Let_def split: if_splits)

declare remove_dead_from.simps [simp del]

definition remove_dead_nodes :: "'f neigh_table \<Rightarrow> 'f neigh_table option" where
  "remove_dead_nodes s = remove_dead_from 0 s"

fun first_index :: "nat \<Rightarrow> ('a \<Rightarrow> bool) \<Rightarrow> 'a list \<Rightarrow> int" where
  "first_index i P [] = -1"
| "first_index i P (x # xs) = (if P x then int i else first_index (i + 1) P xs)"

definition find_neigh_id :: "u16 \<Rightarrow> 'f neigh_table \<Rightarrow> int" where
  "find_neigh_id node s = first_index 0 (\<lambda>n. ng_id n = node) (entries s)"

definition find_neigh_coord :: "('f, 'd) fpu_cmp \<Rightarrow> 'd \<Rightarrow> 'd \<Rightarrow> 'f neigh_table \<Rightarrow> int" where
  "find_neigh_coord M x y s =
     first_index 0 (\<lambda>n. double_eq M (float_double M (ng_x n)) x \<and> double_eq M (float_double M (ng_y n)) y) (entries s)"

text \<open>What a beacon does to the entry of its sender, before the clocks, and to the clocks.\<close>

definition new_coords :: "('f, 'd) fpu_cmp \<Rightarrow> 'd \<Rightarrow> 'd \<Rightarrow> 'f neigh \<Rightarrow> 'f neigh" where
  "new_coords M x y n =
     (if \<not> double_eq M (float_double M (ng_x n)) x \<or> \<not> double_eq M (float_double M (ng_y n)) y
      then n\<lparr>ng_x := double_float M x, ng_y := double_float M y, ng_dirty := 1\<rparr> else n)"

definition tick :: "'f neigh \<Rightarrow> 'f neigh" where
  "tick n = n\<lparr>ng_clock := ng_clock n + 1\<rparr>"

definition refresh :: "('f, 'd) fpu_cmp \<Rightarrow> nat \<Rightarrow> 'd \<Rightarrow> 'd \<Rightarrow> 'f neigh_table \<Rightarrow> 'f neigh_table" where
  "refresh M i x y s =
     (let l = (n_list s)[i := new_coords M x y (n_list s ! i)];
          l = map tick (take (total_neigh s) l) @ drop (total_neigh s) l
      in s\<lparr>n_list := l[i := (l ! i)\<lparr>ng_clock := 0\<rparr>]\<rparr>)"

definition update_neigh :: "('f, 'd) fpu_cmp \<Rightarrow> u16 \<Rightarrow> 'd \<Rightarrow> 'd \<Rightarrow> 'f neigh_table \<Rightarrow> 'f neigh_table \<times> int" where
  "update_neigh M node x y s =
     (let index = find_neigh_id node s in
      if index < 0 then
        (if total_neigh s \<ge> MAX_NEIGH then (s, -1)
         else
           (let k = total_neigh s;
                s = s\<lparr>n_list := (n_list s)[k := (n_list s ! k)\<lparr>ng_id := node, ng_x := double_float M x,
                        ng_y := double_float M y, ng_dirty := 1\<rparr>], total_neigh := k + 1\<rparr>
            in (refresh M k x y s, 1)))
      else (refresh M (nat index) x y s, 1))"

text \<open>The handlers of the layer above, by type of service; \<open>None\<close> on the outside is an access beyond the table.\<close>

definition tbf_tos_init :: "'h option list" where
  "tbf_tos_init = replicate MAX_TOS_HANDLERS None"

definition tbf_tos_register :: "int \<Rightarrow> 'h \<Rightarrow> 'h option list \<Rightarrow> ('h option list \<times> int) option" where
  "tbf_tos_register tos func l = (if 0 \<le> tos \<and> nat tos < length l then Some (l[nat tos := Some func], 1) else None)"

definition tbf_tos_unregister :: "int \<Rightarrow> 'h \<Rightarrow> 'h option list \<Rightarrow> ('h option list \<times> int) option" where
  "tbf_tos_unregister tos func l = (if 0 \<le> tos \<and> nat tos < length l then Some (l[nat tos := None], 1) else None)"

section \<open>The table as a map\<close>

definition neigh_ok :: "'f neigh_table \<Rightarrow> bool" where
  "neigh_ok s \<longleftrightarrow> length (n_list s) = MAX_NEIGH \<and> total_neigh s \<le> MAX_NEIGH \<and> distinct (map ng_id (entries s))"

definition known :: "'f neigh_table \<Rightarrow> u16 \<Rightarrow> 'f neigh option" where
  "known s = map_of (map (\<lambda>n. (ng_id n, n)) (entries s))"

lemma known_iff: "neigh_ok s \<Longrightarrow> known s node = Some n \<longleftrightarrow> n \<in> set (entries s) \<and> ng_id n = node"
  by (auto simp: known_def neigh_ok_def comp_def distinct_map dest!: map_of_SomeD intro!: map_of_is_SomeI)

lemma first_index_cases:
  "first_index i P xs = -1 \<and> (\<forall>x\<in>set xs. \<not> P x) \<or>
   (\<exists>k<length xs. first_index i P xs = int (i + k) \<and> P (xs ! k))"
proof (induction xs arbitrary: i)
  case (Cons x xs)
  show ?case
  proof (cases "P x")
    case True
    then show ?thesis by auto
  next
    case False
    then show ?thesis using Cons.IH [of "i + 1"] by (elim disjE exE) (simp, metis Suc_less_eq add_Suc_shift first_index.simps(2) length_Cons nth_Cons_Suc Suc_eq_plus1)
  qed
qed simp

lemma length_entries [simp]: "neigh_ok s \<Longrightarrow> length (entries s) = total_neigh s"
  by (simp add: entries_def neigh_ok_def)

text \<open>Only the entries count, not their order.\<close>

lemma known_mset:
  assumes "neigh_ok s" and "neigh_ok s'" and "\<And>n. n \<in> set (entries s') \<longleftrightarrow> n \<in> set (entries s) \<and> P n"
  shows "known s' node = (case known s node of None \<Rightarrow> None | Some n \<Rightarrow> if P n then Some n else None)"
proof (cases "known s node")
  case None
  have "known s' node \<noteq> Some n" for n
    using None known_iff [OF assms(1), of node n] known_iff [OF assms(2), of node n] assms(3) by auto
  then show ?thesis using None by (cases "known s' node") auto
next
  case (Some n)
  have "known s' node = Some m \<longleftrightarrow> m = n \<and> P n" for m
    using Some known_iff [OF assms(1), of node] known_iff [OF assms(2), of node m] assms(3)
    by (metis option.inject)
  then show ?thesis using Some by (cases "known s' node") auto
qed

section \<open>Removal\<close>

lemma distinct_submultiset:
  assumes "mset ys \<subseteq># mset xs" and "distinct xs" shows "distinct ys"
  unfolding distinct_count_atmost_1
proof
  fix a
  have "count (mset ys) a \<le> count (mset xs) a" using assms(1) by (rule mset_subset_eq_count)
  also have "\<dots> \<le> 1" using assms(2) by (simp add: distinct_count_atmost_1)
  finally have "count (mset ys) a \<le> 1" .
  moreover have "0 < count (mset ys) a \<longleftrightarrow> a \<in> set ys" by (simp add: count_greater_zero_iff)
  ultimately show "count (mset ys) a = (if a \<in> set ys then 1 else 0)" by (auto simp: le_Suc_eq)
qed

lemma entries_replace:
  assumes "neigh_ok s" and "i < total_neigh s"
  shows "mset (entries (replace_by_last i s)) = mset (entries s) - {#entries s ! i#}"
    and "neigh_ok (replace_by_last i s)"
    and "take i (entries (replace_by_last i s)) = take i (entries s)"
proof -
  let ?xs = "entries s" and ?k = "total_neigh s - 1"
  have k: "?k < total_neigh s" "Suc ?k = total_neigh s" "total_neigh s \<le> length (n_list s)"
    using assms by (auto simp: neigh_ok_def)
  have split: "?xs = take ?k (n_list s) @ [n_list s ! ?k]"
    using k unfolding entries_def by (metis less_le_trans take_Suc_conv_app_nth)
  have e: "entries (replace_by_last i s) = (take ?k (n_list s))[i := n_list s ! ?k]"
    using assms k by (simp add: entries_def replace_by_last_def Let_def take_update_swap)
  show m: "mset (entries (replace_by_last i s)) = mset ?xs - {#?xs ! i#}"
  proof (cases "i = ?k")
    case True
    have "?xs ! i = n_list s ! ?k" using True k by (simp add: entries_def)
    moreover have "entries (replace_by_last i s) = take ?k (n_list s)" unfolding e using True by (simp add: list_update_beyond)
    ultimately show ?thesis by (simp add: split)
  next
    case False
    then have i: "i < length (take ?k (n_list s))" using assms k by simp
    have "?xs ! i = take ?k (n_list s) ! i" using i k assms by (simp add: entries_def)
    moreover obtain A where "mset (take ?k (n_list s)) = add_mset (take ?k (n_list s) ! i) A"
      using i by (metis multi_member_split nth_mem_mset)
    ultimately show ?thesis using i by (simp add: e split mset_update add_mset_commute del: nth_take)
  qed
  have "mset (map ng_id (entries (replace_by_last i s))) \<subseteq># mset (map ng_id ?xs)"
    unfolding mset_map m by (intro image_mset_subseteq_mono) simp
  moreover have "distinct (map ng_id ?xs)" using assms(1) by (simp add: neigh_ok_def)
  ultimately have "distinct (map ng_id (entries (replace_by_last i s)))"
    by (rule distinct_submultiset)
  then show "neigh_ok (replace_by_last i s)"
    using assms(1) by (simp add: neigh_ok_def) (auto simp: replace_by_last_def Let_def)
  show "take i (entries (replace_by_last i s)) = take i ?xs"
    unfolding e using k assms by (simp add: entries_def)
qed

lemma remove_dead_from_spec:
  assumes "neigh_ok s" and "\<forall>n\<in>set (take i (entries s)). \<not> dead n" and "i \<le> total_neigh s"
  shows "\<exists>s'. remove_dead_from i s = Some s' \<and> neigh_ok s' \<and> mset (entries s') = filter_mset (\<lambda>n. \<not> dead n) (mset (entries s))"
  using assms
proof (induction i s rule: remove_dead_from.induct)
  case (1 i s)
  show ?case
  proof (cases "i < total_neigh s")
    case False
    then have "take i (entries s) = entries s" using "1.prems" by simp
    then have "filter_mset (\<lambda>n. \<not> dead n) (mset (entries s)) = mset (entries s)"
      using "1.prems"(2) by (simp add: filter_mset_eq_conv)
    then show ?thesis using False "1.prems" by (subst remove_dead_from.simps) simp
  next
    case True
    have at: "n_list s ! i = entries s ! i" "entries s ! i \<in># mset (entries s)"
      using True nth_mem [of i "entries s"] "1.prems"(1) by (simp_all add: entries_def neigh_ok_def)
    show ?thesis
    proof (cases "dead (n_list s ! i)")
      case d: True
      let ?s = "replace_by_last i s"
      have r: "remove_neigh (int i) s = Some (?s, 1)" using True by (simp add: remove_neigh_def)
      note e = entries_replace [OF "1.prems"(1) True]
      have "i \<le> total_neigh ?s" using True by (simp add: replace_by_last_def Let_def)
      then obtain s' where s': "remove_dead_from i ?s = Some s'" "neigh_ok s'"
        "mset (entries s') = filter_mset (\<lambda>n. \<not> dead n) (mset (entries ?s))"
        using "1.IH"(1) [OF True d r refl] e "1.prems"(2) by auto
      have "filter_mset (\<lambda>n. \<not> dead n) (mset (entries ?s)) = filter_mset (\<lambda>n. \<not> dead n) (mset (entries s))"
        unfolding e(1) using d at by simp
      then show ?thesis using s' True d r by (simp add: remove_dead_from.simps [of i s])
    next
      case nd: False
      have "take (i + 1) (entries s) = take i (entries s) @ [entries s ! i]"
        using True "1.prems"(1) by (simp add: take_Suc_conv_app_nth)
      then have "\<forall>n\<in>set (take (i + 1) (entries s)). \<not> dead n" using "1.prems"(2) nd at(1) by auto
      then show ?thesis using "1.IH"(2) [OF True nd "1.prems"(1)] True nd by (simp add: remove_dead_from.simps [of i s])
    qed
  qed
qed

text \<open>Removing the dead nodes ends, takes out exactly the entries whose clock is above the threshold,
  though it moves entries while it goes through the table, and keeps the table well formed.\<close>

theorem remove_dead_nodes_spec:
  assumes "neigh_ok s"
  shows "\<exists>s'. remove_dead_nodes s = Some s' \<and> neigh_ok s' \<and>
    mset (entries s') = filter_mset (\<lambda>n. \<not> dead n) (mset (entries s)) \<and>
    (\<forall>node. known s' node = (case known s node of None \<Rightarrow> None | Some n \<Rightarrow> if dead n then None else Some n))"
proof -
  obtain s' where s': "remove_dead_nodes s = Some s'" "neigh_ok s'"
    "mset (entries s') = filter_mset (\<lambda>n. \<not> dead n) (mset (entries s))"
    using remove_dead_from_spec [OF assms, of 0] by (auto simp: remove_dead_nodes_def)
  have "n \<in> set (entries s') \<longleftrightarrow> n \<in> set (entries s) \<and> \<not> dead n" for n
    using arg_cong [OF s'(3), of set_mset] by auto
  from known_mset [OF assms s'(2), of "\<lambda>n. \<not> dead n", OF this]
  show ?thesis using s' by (auto split: option.splits)
qed

section \<open>Beacons\<close>

text \<open>The specification: what a beacon does to the map of the neighbours that are known, field by field. The
  sender's entry is made or has its position, if it differs, replaced and marked, and its clock at 0; the
  clock of every other neighbour is one higher, modulo 128, and nothing else of it is changed.\<close>

definition beacon :: "('f, 'd) fpu_cmp \<Rightarrow> u16 \<Rightarrow> 'd \<Rightarrow> 'd \<Rightarrow> (u16 \<Rightarrow> 'f neigh option) \<Rightarrow> u16 \<Rightarrow> 'f neigh option" where
  "beacon M node x y m = (\<lambda>j.
     case m j of
       Some n \<Rightarrow>
         Some (if j = node then
                 (if double_eq M (float_double M (ng_x n)) x \<and> double_eq M (float_double M (ng_y n)) y
                  then \<lparr>ng_id = node, ng_x = ng_x n, ng_y = ng_y n, ng_dirty = ng_dirty n, ng_clock = 0\<rparr>
                  else \<lparr>ng_id = node, ng_x = double_float M x, ng_y = double_float M y, ng_dirty = 1, ng_clock = 0\<rparr>)
               else
                 \<lparr>ng_id = ng_id n, ng_x = ng_x n, ng_y = ng_y n, ng_dirty = ng_dirty n,
                  ng_clock = word_of_nat ((unat (ng_clock n) + 1) mod 128)\<rparr>)
     | None \<Rightarrow>
         if j = node then Some \<lparr>ng_id = node, ng_x = double_float M x, ng_y = double_float M y, ng_dirty = 1, ng_clock = 0\<rparr>
         else None)"

lemma neigh_eqI:
  assumes "ng_id n = i" "ng_x n = x" "ng_y n = y" "ng_dirty n = d" "ng_clock n = c"
  shows "(n :: 'f neigh) = \<lparr>ng_id = i, ng_x = x, ng_y = y, ng_dirty = d, ng_clock = c\<rparr>"
  using assms by (cases n) simp

lemma beacon_code:
  assumes "\<And>n. m node = Some n \<Longrightarrow> ng_id n = node"
  shows "beacon M node x y m = (\<lambda>j.
     if j = node then
       Some (case m node of
          Some n \<Rightarrow> (new_coords M x y n)\<lparr>ng_clock := 0\<rparr>
        | None \<Rightarrow> \<lparr>ng_id = node, ng_x = double_float M x, ng_y = double_float M y, ng_dirty = 1, ng_clock = 0\<rparr>)
     else map_option tick (m j))"
proof
  fix j
  have clock: "word_of_nat (Suc (unat c) mod 128) = (c + 1 :: 7 word)" for c
    by (rule word_unat_eq_iff [THEN iffD2]) (simp add: unsigned_of_nat take_bit_eq_mod unat_word_ariths)
  show "beacon M node x y m j = (if j = node then
       Some (case m node of
          Some n \<Rightarrow> (new_coords M x y n)\<lparr>ng_clock := 0\<rparr>
        | None \<Rightarrow> \<lparr>ng_id = node, ng_x = double_float M x, ng_y = double_float M y, ng_dirty = 1, ng_clock = 0\<rparr>)
     else map_option tick (m j))"
  proof (cases "m j")
    case (Some n)
    then have "j = node \<Longrightarrow> ng_id n = node" using assms by simp
    then show ?thesis using Some
      by (auto simp: beacon_def new_coords_def tick_def clock intro!: neigh_eqI [symmetric])
  qed (auto simp: beacon_def)
qed

lemma tick_simps [simp]: "ng_id (tick n) = ng_id n" "(tick n)\<lparr>ng_clock := c\<rparr> = n\<lparr>ng_clock := c\<rparr>"
  by (simp_all add: tick_def)

lemma new_coords_id [simp]: "ng_id (new_coords M x y n) = ng_id n"
  by (simp add: new_coords_def)

lemma map_of_keyed_update:
  assumes "distinct (map f xs)" and "i < length xs" and "f v = f (xs ! i)"
  shows "map_of (map (\<lambda>n. (f n, n)) (xs[i := v])) = (map_of (map (\<lambda>n. (f n, n)) xs))(f (xs ! i) \<mapsto> v)"
  using assms
proof (induction xs arbitrary: i)
  case (Cons a xs)
  show ?case
  proof (cases i)
    case (Suc k)
    then have "f (xs ! k) \<in> f ` set xs" using Cons.prems by simp
    then have "f (xs ! k) \<noteq> f a" using Cons.prems(1) by auto
    then show ?thesis using Cons Suc by (auto simp: fun_upd_twist)
  qed (use Cons.prems in auto)
qed simp

lemma map_of_tick: "map_of (map (\<lambda>n. (ng_id n, n)) (map tick xs)) j = map_option tick (map_of (map (\<lambda>n. (ng_id n, n)) xs) j)"
  by (induction xs) auto

lemma entries_refresh:
  assumes "neigh_ok s" and "i < total_neigh s"
  shows "entries (refresh M i x y s) = (map tick (entries s))[i := (new_coords M x y (entries s ! i))\<lparr>ng_clock := 0\<rparr>]"
proof -
  let ?l = "n_list s" and ?n = "total_neigh s"
  let ?nc = "new_coords M x y (?l ! i)"
  let ?l2 = "map tick (take ?n (?l[i := ?nc])) @ drop ?n (?l[i := ?nc])"
  have i: "i < length ?l" "?l ! i = entries s ! i" "?n \<le> length ?l" using assms by (auto simp: neigh_ok_def entries_def)
  have "?l2 ! i = tick ?nc" using i assms(2) by (simp add: nth_append)
  then have "entries (refresh M i x y s) = take ?n (?l2[i := ?nc\<lparr>ng_clock := 0\<rparr>])"
    by (simp add: entries_def refresh_def Let_def)
  also have "\<dots> = (take ?n ?l2)[i := ?nc\<lparr>ng_clock := 0\<rparr>]" by (rule take_update_swap)
  also have "take ?n ?l2 = (map tick (take ?n ?l))[i := tick ?nc]" using i(3) by (simp add: take_update_swap map_update)
  finally show ?thesis using i(2) by (simp add: entries_def)
qed

lemma refresh_spec:
  assumes "neigh_ok s" and "i < total_neigh s" and "entries s ! i = n"
  shows "neigh_ok (refresh M i x y s)" and "total_neigh (refresh M i x y s) = total_neigh s"
    and "known (refresh M i x y s) = (\<lambda>j. if j = ng_id n then Some ((new_coords M x y n)\<lparr>ng_clock := 0\<rparr>) else map_option tick (known s j))"
proof -
  let ?v = "(new_coords M x y n)\<lparr>ng_clock := 0\<rparr>"
  have len: "i < length (entries s)" using assms by simp
  have e: "entries (refresh M i x y s) = (map tick (entries s))[i := ?v]"
    using entries_refresh [OF assms(1,2)] assms(3) by simp
  have d: "distinct (map ng_id (map tick (entries s)))" using assms(1) by (simp add: neigh_ok_def comp_def)
  have same: "map ng_id (entries (refresh M i x y s)) = map ng_id (entries s)"
    by (rule nth_equalityI) (use len assms in \<open>auto simp: e nth_list_update\<close>)
  have l: "length (n_list (refresh M i x y s)) = MAX_NEIGH"
    using assms(1) by (simp add: refresh_def Let_def neigh_ok_def)
  show t: "total_neigh (refresh M i x y s) = total_neigh s" by (simp add: refresh_def Let_def)
  show "neigh_ok (refresh M i x y s)" using assms(1) same l t unfolding neigh_ok_def by simp
  have "map_of (map (\<lambda>n. (ng_id n, n)) ((map tick (entries s))[i := ?v])) =
      (map_of (map (\<lambda>n. (ng_id n, n)) (map tick (entries s))))(ng_id (map tick (entries s) ! i) \<mapsto> ?v)"
    by (rule map_of_keyed_update [OF d]) (use len assms in simp_all)
  then show "known (refresh M i x y s) = (\<lambda>j. if j = ng_id n then Some ?v else map_option tick (known s j))"
    using len assms(3) map_of_tick [of "entries s"] by (simp add: known_def e fun_eq_iff)
qed

lemma known_id: "neigh_ok s \<Longrightarrow> known s node = Some n \<Longrightarrow> ng_id n = node"
  by (simp add: known_iff)

lemma beacon_known:
  assumes "neigh_ok s"
  shows "beacon M node x y (known s) = (\<lambda>j.
     if j = node then
       Some (case known s node of
          Some n \<Rightarrow> (new_coords M x y n)\<lparr>ng_clock := 0\<rparr>
        | None \<Rightarrow> \<lparr>ng_id = node, ng_x = double_float M x, ng_y = double_float M y, ng_dirty = 1, ng_clock = 0\<rparr>)
     else map_option tick (known s j))"
  by (rule beacon_code) (rule known_id [OF assms])

lemma find_neigh_id_cases:
  assumes "neigh_ok s"
  shows "(find_neigh_id node s = -1 \<and> known s node = None) \<or>
    (\<exists>k<total_neigh s. find_neigh_id node s = int k \<and> ng_id (entries s ! k) = node \<and> known s node = Some (entries s ! k))"
  using first_index_cases [of 0 "\<lambda>n. ng_id n = node" "entries s"]
proof
  assume "first_index 0 (\<lambda>n. ng_id n = node) (entries s) = -1 \<and> (\<forall>n\<in>set (entries s). ng_id n \<noteq> node)"
  then show ?thesis using known_iff [OF assms, of node] by (cases "known s node") (auto simp: find_neigh_id_def)
next
  assume "\<exists>k<length (entries s). first_index 0 (\<lambda>n. ng_id n = node) (entries s) = int (0 + k) \<and> ng_id (entries s ! k) = node"
  then obtain k where k: "k < length (entries s)" "find_neigh_id node s = int k" "ng_id (entries s ! k) = node"
    by (auto simp: find_neigh_id_def)
  then show ?thesis using known_iff [OF assms, of node "entries s ! k"] assms by auto
qed

lemma update_neigh_beacon:
  assumes "neigh_ok s"
  shows "case update_neigh M node x y s of (s', r) \<Rightarrow> neigh_ok s' \<and>
    (if known s node = None \<and> total_neigh s = MAX_NEIGH then r = -1 \<and> s' = s
     else r = 1 \<and> known s' = beacon M node x y (known s))"
  using find_neigh_id_cases [OF assms, of node]
proof
  assume "\<exists>k<total_neigh s. find_neigh_id node s = int k \<and> ng_id (entries s ! k) = node \<and> known s node = Some (entries s ! k)"
  then obtain k where k: "k < total_neigh s" "find_neigh_id node s = int k" "ng_id (entries s ! k) = node"
    "known s node = Some (entries s ! k)" by blast
  show ?thesis using k refresh_spec [OF assms k(1) refl, of M x y]
    unfolding beacon_known [OF assms]
    by (simp add: update_neigh_def fun_eq_iff)
next
  assume new: "find_neigh_id node s = -1 \<and> known s node = None"
  show ?thesis
  proof (cases "total_neigh s = MAX_NEIGH")
    case True
    then show ?thesis using new assms by (simp add: update_neigh_def)
  next
    case False
    let ?k = "total_neigh s"
    define e where "e = (n_list s ! ?k)\<lparr>ng_id := node, ng_x := double_float M x, ng_y := double_float M y, ng_dirty := 1\<rparr>"
    define s1 where "s1 = s\<lparr>n_list := (n_list s)[?k := e], total_neigh := ?k + 1\<rparr>"
    have k: "?k < length (n_list s)" "?k < MAX_NEIGH" using False assms by (auto simp: neigh_ok_def)
    have e1: "entries s1 = entries s @ [e]" using k by (simp add: entries_def s1_def take_Suc_conv_app_nth)
    have fresh: "node \<notin> ng_id ` set (entries s)"
      using new known_iff [OF assms, of node] by (auto simp: image_iff)
    then have ok: "neigh_ok s1" using assms k e1 by (auto simp: neigh_ok_def) (simp_all add: s1_def e_def)
    have at: "?k < total_neigh s1" "entries s1 ! ?k = e" using e1 assms by (simp_all add: s1_def nth_append)
    have idx: "\<not> find_neigh_id node s \<ge> 0" using new by simp
    have "update_neigh M node x y s = (refresh M ?k x y s1, 1)"
      using new False k unfolding update_neigh_def s1_def e_def by (simp add: Let_def)
    moreover have "known s1 j = (if j = node then Some e else known s j)" for j
      using new by (simp add: known_def e1 map_add_def e_def split: option.splits)
    moreover have "(new_coords M x y e)\<lparr>ng_clock := 0\<rparr> =
        \<lparr>ng_id = node, ng_x = double_float M x, ng_y = double_float M y, ng_dirty = 1, ng_clock = 0\<rparr>"
      by (cases "n_list s ! ?k") (simp add: new_coords_def e_def)
    ultimately show ?thesis
      using refresh_spec [OF ok at, of M x y] new False
      unfolding beacon_known [OF assms]
      by (simp add: fun_eq_iff) (simp add: e_def)
  qed
qed

text \<open>C26: The table implements the map: a beacon of a known neighbour, or of a new one while there is room,
  does to the table what the specification does to the map (new position, marked, and clock 0 for the
  sender, every other clock advanced by one modulo 128), and the table stays well formed; otherwise
  nothing is changed and -1 returned.\<close>

theorem update_neigh_refines_beacon:
  assumes "neigh_ok s"
  shows "case update_neigh M node x y s of (s', r) \<Rightarrow> neigh_ok s' \<and>
    (if known s node = None \<and> total_neigh s = MAX_NEIGH then r = -1 \<and> s' = s
     else r = 1 \<and> known s' = beacon M node x y (known s))"
  by (rule update_neigh_beacon [OF assms])

section \<open>How long a silent neighbour stays\<close>

text \<open>A sequence of beacons; the number of those that were taken.\<close>

fun beacons :: "('f, 'd) fpu_cmp \<Rightarrow> (u16 \<times> 'd \<times> 'd) list \<Rightarrow> 'f neigh_table \<Rightarrow> 'f neigh_table \<times> nat" where
  "beacons M [] s = (s, 0)"
| "beacons M ((node, x, y) # bs) s = (case update_neigh M node x y s of (s1, r) \<Rightarrow>
     case beacons M bs s1 of (s2, k) \<Rightarrow> (s2, if r = 1 then Suc k else k))"

lemma beacons_clock:
  assumes "neigh_ok s" and "known s a = Some n" and "a \<notin> fst ` set bs"
  shows "\<exists>n'. neigh_ok (fst (beacons M bs s)) \<and> known (fst (beacons M bs s)) a = Some n' \<and>
    ng_clock n' = ng_clock n + of_nat (snd (beacons M bs s))"
  using assms
proof (induction M bs s arbitrary: n rule: beacons.induct)
  case (2 M node x y bs s)
  obtain s1 r where u: "update_neigh M node x y s = (s1, r)" by (cases "update_neigh M node x y s")
  have ok: "neigh_ok s1" and cases: "(r = -1 \<and> s1 = s) \<or> (r = 1 \<and> known s1 = beacon M node x y (known s))"
    using update_neigh_beacon [OF "2.prems"(1), where M = M and node = node and x = x and y = y] u by (auto split: if_splits)
  show ?case
  proof (cases "r = 1")
    case True
    then have "known s1 a = Some (tick n)" using cases "2.prems"(2,3) by (auto simp: beacon_known [OF "2.prems"(1)])
    from "2.IH" [OF u [symmetric] ok this] "2.prems"(3) u True show ?thesis
      by (auto simp: tick_def case_prod_beta add.assoc)
  next
    case False
    then have "s1 = s" using cases by simp
    from "2.IH" [OF u [symmetric] ok] "2.prems" this u False show ?thesis
      by (auto simp: case_prod_beta)
  qed
qed auto

text \<open>After beacons of others only, a neighbour that was just heard is taken out exactly if the number of
  beacons that were taken, modulo 128, is above 10: the seven bits of its clock wrap around.\<close>

theorem silent_neighbour:
  assumes "neigh_ok s" and "known s a = Some n" and "ng_clock n = 0" and "a \<notin> fst ` set bs"
  shows "\<exists>s'. remove_dead_nodes (fst (beacons M bs s)) = Some s' \<and>
    (known s' a = None \<longleftrightarrow> 10 < snd (beacons M bs s) mod 128)"
proof -
  obtain n' where n': "neigh_ok (fst (beacons M bs s))" "known (fst (beacons M bs s)) a = Some n'"
    "ng_clock n' = of_nat (snd (beacons M bs s))"
    using beacons_clock [OF assms(1,2,4), where M = M] assms(3) by auto
  obtain s' where s': "remove_dead_nodes (fst (beacons M bs s)) = Some s'"
    "known s' a = (if dead n' then None else Some n')"
    using remove_dead_nodes_spec [OF n'(1)] n'(2) by auto
  have "dead n' \<longleftrightarrow> 10 < snd (beacons M bs s) mod 128"
    using n'(3) by (simp add: dead_def N_CLOCK_THRESH_def unat_of_nat)
  then show ?thesis using s' by auto
qed

text \<open>Beacons of known neighbours are taken.\<close>

lemma beacons_known:
  assumes "neigh_ok s" and "\<forall>b\<in>set bs. known s (fst b) \<noteq> None"
  shows "snd (beacons M bs s) = length bs"
  using assms
proof (induction M bs s rule: beacons.induct)
  case (2 M node x y bs s)
  obtain s1 r where u: "update_neigh M node x y s = (s1, r)" by (cases "update_neigh M node x y s")
  have 1: "neigh_ok s1" "r = 1" "known s1 = beacon M node x y (known s)"
    using update_neigh_beacon [OF "2.prems"(1), where M = M and node = node and x = x and y = y] u "2.prems"(2) by auto
  then have "\<forall>b\<in>set bs. known s1 (fst b) \<noteq> None" using "2.prems"(2) by (auto simp: beacon_def)
  from "2.IH" [OF u [symmetric] 1(1) this] show ?case using u 1(2) by (simp add: case_prod_beta)
qed simp

text \<open>A table that has heard from the neighbours 8 and 7.\<close>

definition no_neighbours :: "int neigh_table" where
  "no_neighbours = \<lparr>n_list = replicate MAX_NEIGH \<lparr>ng_id = 0, ng_x = 0, ng_y = 0, ng_dirty = 0, ng_clock = 0\<rparr>, total_neigh = 0\<rparr>"

lemma no_neighbours_ok: "neigh_ok no_neighbours" "known no_neighbours j = None"
  by (simp_all add: neigh_ok_def known_def no_neighbours_def entries_def)

definition two_neighbours :: "(int, int) fpu_cmp \<Rightarrow> int neigh_table" where
  "two_neighbours M = fst (update_neigh M 7 1 2 (fst (update_neigh M 8 3 4 no_neighbours)))"

theorem update_neigh_refines_beacon_witness:
  "\<forall>M :: (int, int) fpu_cmp. known (fst (update_neigh M 8 3 4 no_neighbours)) 8 =
     Some \<lparr>ng_id = 8, ng_x = double_float M 3, ng_y = double_float M 4, ng_dirty = 1, ng_clock = 0\<rparr>"
proof
  fix M :: "(int, int) fpu_cmp"
  have "total_neigh no_neighbours \<noteq> MAX_NEIGH" by (simp add: no_neighbours_def MAX_NEIGH_def)
  then show "known (fst (update_neigh M 8 3 4 no_neighbours)) 8 =
     Some \<lparr>ng_id = 8, ng_x = double_float M 3, ng_y = double_float M 4, ng_dirty = 1, ng_clock = 0\<rparr>"
    using update_neigh_refines_beacon [OF no_neighbours_ok(1), where M = M and node = 8 and x = 3 and y = 4]
    by (auto simp: case_prod_beta no_neighbours_ok(2) beacon_def)
qed

lemma total_update_neigh: "total_neigh (fst (update_neigh M node x y s)) \<le> total_neigh s + 1"
  by (simp add: update_neigh_def Let_def refresh_def)

lemma two_neighbours_known:
  "neigh_ok (two_neighbours M)" "\<exists>n. known (two_neighbours M) 7 = Some n \<and> ng_clock n = 0" "known (two_neighbours M) 8 \<noteq> None"
proof -
  let ?s = "fst (update_neigh M 8 3 4 no_neighbours)"
  have "total_neigh no_neighbours \<noteq> MAX_NEIGH" by (simp add: no_neighbours_def MAX_NEIGH_def)
  then have s: "neigh_ok ?s" "known ?s = beacon M 8 3 4 (known no_neighbours)"
    using update_neigh_beacon [OF no_neighbours_ok(1), where M = M and node = 8 and x = 3 and y = 4] by (auto simp: case_prod_beta)
  have "total_neigh ?s \<noteq> MAX_NEIGH"
    using total_update_neigh [of M 8 3 4 no_neighbours] by (simp add: no_neighbours_def MAX_NEIGH_def)
  then have t: "neigh_ok (two_neighbours M)" "known (two_neighbours M) = beacon M 7 1 2 (known ?s)"
    using update_neigh_beacon [OF s(1), where M = M and node = 7 and x = 1 and y = 2] by (auto simp: case_prod_beta two_neighbours_def)
  show "neigh_ok (two_neighbours M)" by (rule t(1))
  show "\<exists>n. known (two_neighbours M) 7 = Some n \<and> ng_clock n = 0" "known (two_neighbours M) 8 \<noteq> None"
    using t(2) s(2) by (simp_all add: beacon_def no_neighbours_ok(2))
qed

theorem silent_neighbour_witness:
  "\<forall>M. (\<exists>s'. remove_dead_nodes (fst (beacons M (replicate 11 (8, 3, 4)) (two_neighbours M))) = Some s' \<and> known s' 7 = None) \<and>
   (\<exists>s'. remove_dead_nodes (fst (beacons M (replicate 130 (8, 3, 4)) (two_neighbours M))) = Some s' \<and> known s' 7 \<noteq> None)"
proof
  fix M
  obtain n where n: "known (two_neighbours M) 7 = Some n" "ng_clock n = 0" using two_neighbours_known(2) by blast
  have k: "snd (beacons M (replicate k (8, 3, 4)) (two_neighbours M)) = k" for k
    using beacons_known [OF two_neighbours_known(1), where M = M and bs = "replicate k (8, 3, 4)"] two_neighbours_known(3) by simp
  have "\<exists>s'. remove_dead_nodes (fst (beacons M (replicate k (8, 3, 4)) (two_neighbours M))) = Some s' \<and>
      (known s' 7 = None \<longleftrightarrow> 10 < k mod 128)" for k
    using silent_neighbour [OF two_neighbours_known(1) n, where M = M and bs = "replicate k (8, 3, 4)"] k [of k] by (simp add: image_iff)
  from this [of 11] this [of 130]
  show "(\<exists>s'. remove_dead_nodes (fst (beacons M (replicate 11 (8, 3, 4)) (two_neighbours M))) = Some s' \<and> known s' 7 = None) \<and>
   (\<exists>s'. remove_dead_nodes (fst (beacons M (replicate 130 (8, 3, 4)) (two_neighbours M))) = Some s' \<and> known s' 7 \<noteq> None)"
    by simp
qed

theorem remove_dead_nodes_spec_witness:
  "\<forall>M. \<exists>s'. remove_dead_nodes (two_neighbours M) = Some s' \<and> known s' 7 \<noteq> None"
proof
  fix M
  obtain n where n: "known (two_neighbours M) 7 = Some n" "ng_clock n = 0" using two_neighbours_known(2) by blast
  then have "\<not> dead n" by (simp add: dead_def)
  then show "\<exists>s'. remove_dead_nodes (two_neighbours M) = Some s' \<and> known s' 7 \<noteq> None"
    using remove_dead_nodes_spec [OF two_neighbours_known(1), of M] n(1) by auto
qed

end
