(* ===== verification/I2c.thy ===== *)
theory I2c
  imports ByteLink
begin

text \<open>
  The two-wire bus master, \<open>aps_proj/system/I2C_OBJ.c\<close>, bit by bit. The clock and data pins are operated
  as the macros of the file do; the data line has the level of its latch while the pin is an output, and
  otherwise the level the device on the bus drives. The device is a parameter: it sees the symbols of the
  bus protocol, a start (the line falls while the clock is high), a stop (it rises), or a bit, the level of
  the line at the end of a high phase of the clock.

  The lemmas: every operation of the file puts exactly its symbols on the bus, whatever the device does, so
  that a written byte is one dialogue with the device and a read byte another.
\<close>

section \<open>The bus\<close>

datatype symbol = START | STOP | BIT bool

record 'e device =
  dev_on :: "symbol \<Rightarrow> 'e \<Rightarrow> 'e"
  dev_drives :: "'e \<Rightarrow> bool"

text \<open>The pins as the registers hold them; \<open>w_cond\<close>: a start or stop was seen in this high phase.\<close>

record wires =
  w_scl :: bool
  w_latch :: bool
  w_out :: bool
  w_cond :: bool

type_synonym 'e bus = "wires \<times> 'e"

definition line :: "'e device \<Rightarrow> 'e bus \<Rightarrow> bool" where
  "line D b = (if w_out (fst b) then w_latch (fst b) else dev_drives D (snd b))"

definition SET_CLOCK :: "'e device \<Rightarrow> 'e bus \<Rightarrow> 'e bus" where
  "SET_CLOCK D b = (case b of (w, e) \<Rightarrow> if w_scl w then (w, e) else (w\<lparr>w_scl := True, w_cond := False\<rparr>, e))"

definition CLEAR_CLOCK :: "'e device \<Rightarrow> 'e bus \<Rightarrow> 'e bus" where
  "CLEAR_CLOCK D b = (case b of (w, e) \<Rightarrow>
     (w\<lparr>w_scl := False\<rparr>, if w_scl w \<and> \<not> w_cond w then dev_on D (BIT (line D b)) e else e))"

text \<open>A change of the data pin; while the clock is high it may be a condition.\<close>

definition data_pin :: "'e device \<Rightarrow> (wires \<Rightarrow> wires) \<Rightarrow> 'e bus \<Rightarrow> 'e bus" where
  "data_pin D f b = (case b of (w, e) \<Rightarrow>
     let b' = (f w, e) in
     if w_scl w \<and> line D b \<noteq> line D b'
     then ((f w)\<lparr>w_cond := True\<rparr>, dev_on D (if line D b then START else STOP) e) else b')"

definition SET_DATA :: "'e device \<Rightarrow> 'e bus \<Rightarrow> 'e bus" where
  "SET_DATA D = data_pin D (\<lambda>w. w\<lparr>w_latch := True\<rparr>)"

definition CLEAR_DATA :: "'e device \<Rightarrow> 'e bus \<Rightarrow> 'e bus" where
  "CLEAR_DATA D = data_pin D (\<lambda>w. w\<lparr>w_latch := False\<rparr>)"

definition MAKE_DATA_OUTPUT :: "'e device \<Rightarrow> 'e bus \<Rightarrow> 'e bus" where
  "MAKE_DATA_OUTPUT D = data_pin D (\<lambda>w. w\<lparr>w_out := True\<rparr>)"

definition MAKE_DATA_INPUT :: "'e device \<Rightarrow> 'e bus \<Rightarrow> 'e bus" where
  "MAKE_DATA_INPUT D = data_pin D (\<lambda>w. w\<lparr>w_out := False\<rparr>)"

definition GET_DATA :: "'e device \<Rightarrow> 'e bus \<Rightarrow> u8" where
  "GET_DATA D b = bit_val (line D b)"

section \<open>Bits and bytes\<close>

definition pulse_clock :: "'e device \<Rightarrow> 'e bus \<Rightarrow> 'e bus" where
  "pulse_clock D b = CLEAR_CLOCK D (SET_CLOCK D b)"

definition read_bit :: "'e device \<Rightarrow> 'e bus \<Rightarrow> 'e bus \<times> u8" where
  "read_bit D b = (let b = SET_CLOCK D (MAKE_DATA_INPUT D b); i = GET_DATA D b in (CLEAR_CLOCK D b, i))"

primrec i2c_read_bits :: "'e device \<Rightarrow> nat \<Rightarrow> u8 \<Rightarrow> 'e bus \<Rightarrow> 'e bus \<times> u8" where
  "i2c_read_bits D 0 data b = (b, data)"
| "i2c_read_bits D (Suc n) data b =
     (let data = push_bit 1 data AND 0xfe in
      case read_bit D b of (b, i) \<Rightarrow> i2c_read_bits D n (if i = 1 then data OR 1 else data) b)"

definition i2c_read :: "'e device \<Rightarrow> 'e bus \<Rightarrow> 'e bus \<times> u8" where
  "i2c_read D b = i2c_read_bits D 8 0 b"

primrec i2c_write_bits :: "'e device \<Rightarrow> nat \<Rightarrow> u8 \<Rightarrow> 'e bus \<Rightarrow> 'e bus" where
  "i2c_write_bits D 0 c b = b"
| "i2c_write_bits D (Suc n) c b =
     i2c_write_bits D n (push_bit 1 c) (pulse_clock D (if c AND 0x80 \<noteq> 0 then SET_DATA D b else CLEAR_DATA D b))"

definition i2c_write :: "'e device \<Rightarrow> u8 \<Rightarrow> 'e bus \<Rightarrow> 'e bus \<times> u8" where
  "i2c_write D c b =
     (case read_bit D (i2c_write_bits D 8 c (MAKE_DATA_OUTPUT D b)) of (b, i) \<Rightarrow> (b, if i = 0 then 1 else 0))"

definition i2c_start :: "'e device \<Rightarrow> 'e bus \<Rightarrow> 'e bus" where
  "i2c_start D b = CLEAR_CLOCK D (CLEAR_DATA D (MAKE_DATA_OUTPUT D (SET_CLOCK D (SET_DATA D b))))"

definition i2c_ack :: "'e device \<Rightarrow> 'e bus \<Rightarrow> 'e bus" where
  "i2c_ack D b = pulse_clock D (CLEAR_DATA D (MAKE_DATA_OUTPUT D b))"

definition i2c_nack :: "'e device \<Rightarrow> 'e bus \<Rightarrow> 'e bus" where
  "i2c_nack D b = pulse_clock D (SET_DATA D (MAKE_DATA_OUTPUT D b))"

definition i2c_end :: "'e device \<Rightarrow> 'e bus \<Rightarrow> 'e bus" where
  "i2c_end D b = SET_DATA D (SET_CLOCK D (CLEAR_DATA D (MAKE_DATA_OUTPUT D b)))"

section \<open>Commands and the task\<close>

definition READ_DATA :: u8 where "READ_DATA = 1"
definition WRITE_DATA :: u8 where "WRITE_DATA = 2"
definition SEND_START :: u8 where "SEND_START = 3"
definition SEND_END :: u8 where "SEND_END = 4"

record i2c =
  i2_state :: u8
  i2_data :: u8

text \<open>The flag is whether the task is posted; the second component the value returned.\<close>

definition I2C_init :: "'e device \<Rightarrow> i2c \<times> 'e bus \<Rightarrow> (i2c \<times> 'e bus) \<times> u8" where
  "I2C_init D st = (case st of (s, b) \<Rightarrow>
     ((s\<lparr>i2_state := 0, i2_data := 0\<rparr>, MAKE_DATA_OUTPUT D (SET_DATA D (SET_CLOCK D b))), 1))"

definition I2C_read :: "i2c \<Rightarrow> i2c \<times> bool \<times> u8" where
  "I2C_read s = (if i2_state s \<noteq> 0 then (s, False, 0) else (s\<lparr>i2_state := READ_DATA\<rparr>, True, 1))"

definition I2C_write :: "u8 \<Rightarrow> i2c \<Rightarrow> i2c \<times> bool \<times> u8" where
  "I2C_write data s = (if i2_state s \<noteq> 0 then (s, False, 0) else (s\<lparr>i2_state := WRITE_DATA, i2_data := data\<rparr>, True, 1))"

definition I2C_send_start :: "i2c \<Rightarrow> i2c \<times> bool \<times> u8" where
  "I2C_send_start s = (if i2_state s \<noteq> 0 then (s, False, 0) else (s\<lparr>i2_state := SEND_START\<rparr>, True, 1))"

definition I2C_send_end :: "i2c \<Rightarrow> i2c \<times> bool \<times> u8" where
  "I2C_send_end s = (if i2_state s \<noteq> 0 then (s, False, 0) else (s\<lparr>i2_state := SEND_END\<rparr>, True, 1))"

text \<open>The task; the events of the layer above may act on this component and on a state \<open>'s\<close> of their own.\<close>

record 's i2c_client =
  I2C_read_done :: "u8 \<Rightarrow> u8 \<Rightarrow> i2c \<times> 's \<Rightarrow> (i2c \<times> 's) \<times> u8"
  I2C_write_done :: "u8 \<Rightarrow> i2c \<times> 's \<Rightarrow> (i2c \<times> 's) \<times> u8"
  I2C_send_start_done :: "i2c \<times> 's \<Rightarrow> (i2c \<times> 's) \<times> u8"
  I2C_send_end_done :: "i2c \<times> 's \<Rightarrow> (i2c \<times> 's) \<times> u8"

definition I2C_task :: "'e device \<Rightarrow> 's i2c_client \<Rightarrow> i2c \<times> 's \<Rightarrow> 'e bus \<Rightarrow> (i2c \<times> 's) \<times> 'e bus" where
  "I2C_task D C st b =
     (case st of (s, x) \<Rightarrow>
        let state = i2_state s; s = s\<lparr>i2_state := 0\<rparr> in
        if state = READ_DATA then
          (case i2c_read D b of (b, d) \<Rightarrow>
             case I2C_read_done C d 0 (s, x) of (st, r) \<Rightarrow> (st, if r \<noteq> 0 then i2c_ack D b else i2c_nack D b))
        else if state = WRITE_DATA then
          (case i2c_write D (i2_data s) b of (b, r) \<Rightarrow> (fst (I2C_write_done C r (s, x)), b))
        else if state = SEND_START then (fst (I2C_send_start_done C (s, x)), i2c_start D b)
        else if state = SEND_END then (fst (I2C_send_end_done C (s, x)), i2c_end D b)
        else ((s, x), b))"

section \<open>What the device sees\<close>

text \<open>The bits of a byte in their order on the bus.\<close>

definition msb_bits :: "u8 \<Rightarrow> bool list" where
  "msb_bits c = rev (bits_of c)"

definition sees :: "'e device \<Rightarrow> symbol list \<Rightarrow> 'e \<Rightarrow> 'e" where
  "sees D ss e = foldl (\<lambda>e x. dev_on D x e) e ss"

lemma sees_simps [simp]: "sees D [] e = e" "sees D (x # xs) e = sees D xs (dev_on D x e)" "sees D (xs @ ys) e = sees D ys (sees D xs e)"
  by (simp_all add: sees_def)

text \<open>A byte written to the device, and whether it acknowledged it; a byte read from it.\<close>

definition byte_to :: "'e device \<Rightarrow> u8 \<Rightarrow> 'e \<Rightarrow> 'e \<times> bool" where
  "byte_to D c e = (let e = sees D (map BIT (msb_bits c)) e; a = dev_drives D e in (dev_on D (BIT a) e, \<not> a))"

primrec bits_from :: "'e device \<Rightarrow> nat \<Rightarrow> 'e \<Rightarrow> 'e \<times> bool list" where
  "bits_from D 0 e = (e, [])"
| "bits_from D (Suc n) e = (case bits_from D n (dev_on D (BIT (dev_drives D e)) e) of (e', bs) \<Rightarrow> (e', dev_drives D e # bs))"

definition byte_from :: "'e device \<Rightarrow> 'e \<Rightarrow> 'e \<times> u8" where
  "byte_from D e = (case bits_from D 8 e of (e, bs) \<Rightarrow> (e, byte_of (rev bs)))"

text \<open>The clock is low, as it is within a transfer; or the bus is free.\<close>

definition transfer :: "'e \<Rightarrow> 'e bus \<Rightarrow> bool" where
  "transfer e b \<longleftrightarrow> snd b = e \<and> \<not> w_scl (fst b)"

definition bus_free :: "'e \<Rightarrow> 'e bus \<Rightarrow> bool" where
  "bus_free e b \<longleftrightarrow> snd b = e \<and> w_scl (fst b) \<and> w_latch (fst b) \<and> w_out (fst b)"

lemmas pin_defs = data_pin_def SET_DATA_def CLEAR_DATA_def MAKE_DATA_OUTPUT_def MAKE_DATA_INPUT_def SET_CLOCK_def CLEAR_CLOCK_def
  line_def GET_DATA_def Let_def

lemma read_bit_sees:
  assumes "transfer e b"
  shows "snd (read_bit D b) = bit_val (dev_drives D e)" "transfer (dev_on D (BIT (dev_drives D e)) e) (fst (read_bit D b))"
  using assms by (cases b; simp add: transfer_def read_bit_def pin_defs)+

lemma pulse_sees:
  assumes "transfer e b" and "w_out (fst b)"
  shows "transfer (dev_on D (BIT (w_latch (fst b))) e) (pulse_clock D b)" "w_out (fst (pulse_clock D b))"
  using assms by (cases b; simp add: transfer_def pulse_clock_def pin_defs)+

lemma write_bits_sees:
  assumes "transfer e b" and "w_out (fst b)" and "n \<le> 8"
  shows "transfer (sees D (map (\<lambda>k. BIT (bit c (7 - k))) [0..<n]) e) (i2c_write_bits D n c b)"
  using assms
proof (induction n arbitrary: c e b)
  case (Suc n)
  let ?b = "if c AND 0x80 \<noteq> 0 then SET_DATA D b else CLEAR_DATA D b"
  have top: "c AND 0x80 \<noteq> 0 \<longleftrightarrow> bit c 7"
    using bit_iff_and_push_bit_not_eq_0 [of c 7] by simp
  have 1: "transfer e ?b" "w_out (fst ?b)" "w_latch (fst ?b) = bit c 7"
    using Suc.prems(1,2) top by (cases b; simp add: transfer_def pin_defs)+
  have 2: "transfer (dev_on D (BIT (bit c 7)) e) (pulse_clock D ?b)" "w_out (fst (pulse_clock D ?b))"
    using pulse_sees [OF 1(1,2), of D] 1(3) by simp_all
  have rest: "map (\<lambda>k. BIT (bit (push_bit 1 c) (7 - k))) [0..<n] = map (\<lambda>k. BIT (bit c (7 - Suc k))) [0..<n]"
    using Suc.prems(3) by (auto simp: bit_times_2)
  have first: "map (\<lambda>k. BIT (bit c (7 - k))) [0..<Suc n] = BIT (bit c 7) # map (\<lambda>k. BIT (bit c (7 - Suc k))) [0..<n]"
    by (simp add: map_upt_Suc del: upt_Suc)
  show ?case
    unfolding first i2c_write_bits.simps sees_simps rest [symmetric]
    by (rule Suc.IH [OF 2]) (use Suc.prems(3) in simp)
qed simp

lemma msb_bits_eq: "map BIT (msb_bits c) = map (\<lambda>k. BIT (bit c (7 - k))) [0..<8]"
  by (simp add: msb_bits_def bits_of_def upt_rec) (simp add: numeral_eq_Suc)

text \<open>The operations on bytes are the dialogues with the device.\<close>

lemma i2c_write_sees:
  assumes "transfer e b"
  shows "snd (i2c_write D c b) = (if snd (byte_to D c e) then 1 else 0)" "transfer (fst (byte_to D c e)) (fst (i2c_write D c b))"
proof -
  have "transfer e (MAKE_DATA_OUTPUT D b)" "w_out (fst (MAKE_DATA_OUTPUT D b))"
    using assms by (cases b; simp add: transfer_def pin_defs)+
  from write_bits_sees [OF this, of 8 D c]
  have "transfer (sees D (map BIT (msb_bits c)) e) (i2c_write_bits D 8 c (MAKE_DATA_OUTPUT D b))"
    unfolding msb_bits_eq by simp
  note r = read_bit_sees [OF this, of D]
  show "snd (i2c_write D c b) = (if snd (byte_to D c e) then 1 else 0)" "transfer (fst (byte_to D c e)) (fst (i2c_write D c b))"
    using r by (simp_all add: i2c_write_def byte_to_def case_prod_beta Let_def)
qed

definition shift_up_in :: "u8 \<Rightarrow> bool \<Rightarrow> u8" where
  "shift_up_in d b = (let d = push_bit 1 d AND 0xfe in if b then d OR 1 else d)"

lemma bits_of_shift_up_in: "bits_of (shift_up_in d b) = b # butlast (bits_of d)"
  by (simp add: shift_up_in_def Let_def bits_of_def upt_rec bit_simps bit_times_2)

lemma bits_of_foldl_shift_up: "bits_of (foldl shift_up_in d bs) = take 8 (rev bs @ bits_of d)"
proof (induction bs rule: rev_induct)
  case (snoc b bs)
  have "butlast (take 8 (rev bs @ bits_of d)) = take 7 (rev bs @ bits_of d)" by (subst butlast_take) simp_all
  then show ?case using snoc by (simp add: bits_of_shift_up_in take_Cons' del: take_append)
qed simp

lemma length_bits_from: "length (snd (bits_from D n e)) = n"
  by (induction n arbitrary: e) (simp_all add: case_prod_beta)

lemma read_bits_sees:
  assumes "transfer e b"
  shows "transfer (fst (bits_from D n e)) (fst (i2c_read_bits D n d b)) \<and>
    snd (i2c_read_bits D n d b) = foldl shift_up_in d (snd (bits_from D n e))"
  using assms
proof (induction n arbitrary: d e b)
  case (Suc n)
  note r = read_bit_sees [OF Suc.prems, of D]
  show ?case using Suc.IH [OF r(2), of "shift_up_in d (dev_drives D e)"] r(1)
    by (simp add: case_prod_beta Let_def shift_up_in_def)
qed simp

lemma i2c_read_sees:
  assumes "transfer e b"
  shows "snd (i2c_read D b) = snd (byte_from D e)" "transfer (fst (byte_from D e)) (fst (i2c_read D b))"
proof -
  have "foldl shift_up_in 0 (snd (bits_from D 8 e)) = byte_of (rev (snd (bits_from D 8 e)))"
    by (rule bits_of_inject) (simp add: bits_of_foldl_shift_up length_bits_from)
  then show "snd (i2c_read D b) = snd (byte_from D e)" "transfer (fst (byte_from D e)) (fst (i2c_read D b))"
    using read_bits_sees [OF assms, of D 8 0] by (simp_all add: i2c_read_def byte_from_def case_prod_beta)
qed

lemma i2c_ack_sees: "transfer e b \<Longrightarrow> transfer (dev_on D (BIT False) e) (i2c_ack D b)"
  by (cases b) (simp add: transfer_def i2c_ack_def pulse_clock_def pin_defs)

lemma i2c_nack_sees: "transfer e b \<Longrightarrow> transfer (dev_on D (BIT True) e) (i2c_nack D b)"
  by (cases b) (simp add: transfer_def i2c_nack_def pulse_clock_def pin_defs)

lemma i2c_end_sees: "transfer e b \<Longrightarrow> bus_free (dev_on D STOP e) (i2c_end D b)"
  by (cases b) (simp add: transfer_def bus_free_def i2c_end_def pin_defs)

text \<open>A start on the free bus; and within a transfer, if the device has released the line.\<close>

lemma i2c_start_free: "bus_free e b \<Longrightarrow> transfer (dev_on D START e) (i2c_start D b)"
  by (cases b) (simp add: transfer_def bus_free_def i2c_start_def pin_defs)

lemma i2c_start_again: "transfer e b \<Longrightarrow> dev_drives D e \<Longrightarrow> transfer (dev_on D START e) (i2c_start D b)"
  by (cases b) (simp add: transfer_def i2c_start_def pin_defs)

lemma i2c_init_free: "bus_free (snd (snd (fst (I2C_init D (s, (\<lparr>w_scl = True, w_latch = True, w_out = x, w_cond = y\<rparr>, e))))))
    (snd (fst (I2C_init D (s, (\<lparr>w_scl = True, w_latch = True, w_out = x, w_cond = y\<rparr>, e)))))"
  by (simp add: I2C_init_def bus_free_def pin_defs)

end
