(* ===== verification/Logger.thy ===== *)
theory Logger
  imports I2c PacketLink
begin

text \<open>
  The log in the EEPROM on the two-wire bus, \<open>aps_proj/system/LOGGER.c\<close>, on the bus master of theory \<open>I2c\<close>:
  lines of 30 bytes, each at the beginning of a page of 32, appended one after the other and read by
  number. A transfer is a sequence of starts, bytes and a stop, each a task of the bus master whose event
  starts the next.

  The EEPROM is a parameter, the hypothesis \<open>eeprom\<close> what its data sheet says of the transfers used here. The
  lemmas: a line appended is in the EEPROM, a line read is what is there, and what happens when a byte is
  not acknowledged.
\<close>

section \<open>State and operations\<close>

definition IDLE :: u8 where "IDLE = 0"
definition READ_LOG_START :: u8 where "READ_LOG_START = 11"
definition READ_COMMAND :: u8 where "READ_COMMAND = 13"
definition READ_COMMAND_2 :: u8 where "READ_COMMAND_2 = 14"
definition READ_COMMAND_3 :: u8 where "READ_COMMAND_3 = 15"
definition READ_COMMAND_4 :: u8 where "READ_COMMAND_4 = 16"
definition READ_COMMAND_5 :: u8 where "READ_COMMAND_5 = 17"
definition READ_LOG_READING_DATA :: u8 where "READ_LOG_READING_DATA = 18"
definition APPEND_LOG_START :: u8 where "APPEND_LOG_START = 30"
definition WRITE_COMMAND :: u8 where "WRITE_COMMAND = 31"
definition WRITE_COMMAND_2 :: u8 where "WRITE_COMMAND_2 = 32"
definition WRITING_TO_LOG :: u8 where "WRITING_TO_LOG = 33"
definition WRITE_LOG_STOP :: u8 where "WRITE_LOG_STOP = 40"
definition READ_LOG_STOP :: u8 where "READ_LOG_STOP = 41"

lemmas log_states = IDLE_def READ_LOG_START_def READ_COMMAND_def READ_COMMAND_2_def READ_COMMAND_3_def READ_COMMAND_4_def
  READ_COMMAND_5_def READ_LOG_READING_DATA_def APPEND_LOG_START_def WRITE_COMMAND_def WRITE_COMMAND_2_def
  WRITING_TO_LOG_def WRITE_LOG_STOP_def READ_LOG_STOP_def

record logger =
  last_line :: u16
  lg_data :: ptr
  lg_state :: u8
  lg_count :: u8
  current_line :: u16

datatype logger_out =
    LOGGER_SUB_INIT
  | LOGGER_I2C_SEND_START
  | LOGGER_I2C_SEND_END
  | LOGGER_I2C_WRITE_BYTE u8
  | LOGGER_I2C_READ_BYTE
  | GREEN_LED_TOGGLE
  | APPEND_LOG_DONE u8
  | READ_LOG_DONE ptr u8

text \<open>\<open>accepted\<close> is what the bus master answers to the call.\<close>

definition APPEND_LOG :: "u8 \<Rightarrow> ptr \<Rightarrow> logger \<Rightarrow> logger \<times> logger_out list \<times> u8" where
  "APPEND_LOG accepted data s =
     (if lg_state s = 0 then
        (let s = s\<lparr>lg_data := data, lg_state := APPEND_LOG_START, current_line := last_line s, lg_count := 0\<rparr> in
         if accepted \<noteq> 0 then (s, [LOGGER_I2C_SEND_START], 1)
         else (s\<lparr>lg_state := 0, lg_count := 0\<rparr>, [LOGGER_I2C_SEND_START], 0))
      else (s, [], 0))"

definition READ_LOG :: "u8 \<Rightarrow> u16 \<Rightarrow> ptr \<Rightarrow> logger \<Rightarrow> logger \<times> logger_out list \<times> u8" where
  "READ_LOG accepted ln data s =
     (if lg_state s = 0 then
        (let s = s\<lparr>lg_data := data, lg_state := READ_LOG_START, lg_count := 0, current_line := ln\<rparr> in
         if accepted \<noteq> 0 then (s, [LOGGER_I2C_SEND_START], 1)
         else (s\<lparr>lg_state := 0, lg_count := 0\<rparr>, [LOGGER_I2C_SEND_START], 0))
      else (s, [], 0))"

definition LOGGER_INIT :: "logger \<Rightarrow> logger \<times> logger_out list \<times> u8" where
  "LOGGER_INIT s = (s\<lparr>lg_state := 0, last_line := 0, lg_count := 0\<rparr>, [LOGGER_SUB_INIT], 1)"

definition LOGGER_I2C_READ_BYTE_DONE ::
    "u8 \<Rightarrow> u8 \<Rightarrow> logger \<times> memory \<Rightarrow> (logger \<times> memory) \<times> logger_out list \<times> u8" where
  "LOGGER_I2C_READ_BYTE_DONE data error st =
     (case st of (s, mem) \<Rightarrow>
        if error \<noteq> 0 then ((s\<lparr>lg_state := IDLE\<rparr>, mem), [LOGGER_I2C_SEND_END], 0)
        else if lg_state s = IDLE then ((s, mem), [], 0)
        else if lg_state s = READ_LOG_READING_DATA then
          (let mem = mem(lg_data s := (mem (lg_data s))[unat (lg_count s) := data]);
               s = s\<lparr>lg_count := lg_count s + 1\<rparr>
           in if lg_count s = 30 then ((s\<lparr>lg_state := READ_LOG_STOP\<rparr>, mem), [LOGGER_I2C_SEND_END], 0)
              else ((s, mem), [LOGGER_I2C_READ_BYTE], 1))
        else ((s, mem), [], 1))"

definition high_address :: "u16 \<Rightarrow> u8" where
  "high_address ln = ucast (signed_drop_bit 3 ln AND 0x1f)"

definition low_address :: "u16 \<Rightarrow> u8" where
  "low_address ln = ucast (push_bit 5 ln AND 0xe0)"

definition LOGGER_I2C_WRITE_BYTE_DONE ::
    "u8 \<Rightarrow> logger \<times> memory \<Rightarrow> (logger \<times> memory) \<times> logger_out list \<times> u8" where
  "LOGGER_I2C_WRITE_BYTE_DONE success st =
     (case st of (s, mem) \<Rightarrow>
        if success = 0 then ((s\<lparr>lg_state := IDLE\<rparr>, mem), [GREEN_LED_TOGGLE, LOGGER_I2C_SEND_END], 0)
        else if lg_state s = WRITING_TO_LOG then
          (if sint (lg_count s) < 30 then
             ((s\<lparr>lg_count := lg_count s + 1\<rparr>, mem), [LOGGER_I2C_WRITE_BYTE (mem (lg_data s) ! unat (lg_count s))], 1)
           else ((s\<lparr>lg_state := WRITE_LOG_STOP, lg_count := 0\<rparr>, mem), [LOGGER_I2C_SEND_END], 0))
        else if lg_state s = WRITE_COMMAND then
          ((s\<lparr>lg_state := WRITE_COMMAND_2\<rparr>, mem), [LOGGER_I2C_WRITE_BYTE (high_address (current_line s))], 1)
        else if lg_state s = WRITE_COMMAND_2 then
          ((s\<lparr>lg_state := WRITING_TO_LOG\<rparr>, mem), [LOGGER_I2C_WRITE_BYTE (low_address (current_line s))], 1)
        else if lg_state s = READ_COMMAND then
          ((s\<lparr>lg_state := READ_COMMAND_2\<rparr>, mem), [LOGGER_I2C_WRITE_BYTE (high_address (current_line s))], 1)
        else if lg_state s = READ_COMMAND_2 then
          ((s\<lparr>lg_state := READ_COMMAND_3\<rparr>, mem), [LOGGER_I2C_WRITE_BYTE (low_address (current_line s))], 1)
        else if lg_state s = READ_COMMAND_3 then
          ((s\<lparr>lg_state := READ_COMMAND_4\<rparr>, mem), [LOGGER_I2C_SEND_START], 1)
        else if lg_state s = READ_COMMAND_5 then
          ((s\<lparr>lg_state := READ_LOG_READING_DATA\<rparr>, mem), [LOGGER_I2C_READ_BYTE], 1)
        else ((s, mem), [], 1))"

definition LOGGER_I2C_SEND_START_DONE :: "logger \<times> memory \<Rightarrow> (logger \<times> memory) \<times> logger_out list \<times> u8" where
  "LOGGER_I2C_SEND_START_DONE st =
     (case st of (s, mem) \<Rightarrow>
        if lg_state s = APPEND_LOG_START then ((s\<lparr>lg_state := WRITE_COMMAND\<rparr>, mem), [LOGGER_I2C_WRITE_BYTE 0xa0], 1)
        else if lg_state s = READ_LOG_START then ((s\<lparr>lg_state := READ_COMMAND\<rparr>, mem), [LOGGER_I2C_WRITE_BYTE 0xa0], 1)
        else if lg_state s = READ_COMMAND_4 then ((s\<lparr>lg_state := READ_COMMAND_5\<rparr>, mem), [LOGGER_I2C_WRITE_BYTE 0xa1], 1)
        else ((s, mem), [], 1))"

definition LOGGER_I2C_SEND_END_DONE :: "logger \<times> memory \<Rightarrow> (logger \<times> memory) \<times> logger_out list \<times> u8" where
  "LOGGER_I2C_SEND_END_DONE st =
     (case st of (s, mem) \<Rightarrow>
        let state = lg_state s; s = s\<lparr>lg_state := IDLE\<rparr> in
        if state = WRITE_LOG_STOP then ((s\<lparr>last_line := last_line s + 1\<rparr>, mem), [APPEND_LOG_DONE 1], 0)
        else if state = READ_LOG_STOP then ((s, mem), [READ_LOG_DONE (lg_data s) 1], 0)
        else ((s, mem), [], 0))"

section \<open>The log on the bus\<close>

text \<open>The state of the two components, and the signals to the layer above so far.\<close>

type_synonym log_node = "i2c \<times> logger \<times> memory \<times> logger_out list"

definition call_i2c :: "logger_out \<Rightarrow> i2c \<Rightarrow> i2c" where
  "call_i2c x s =
     (case x of
        LOGGER_I2C_SEND_START \<Rightarrow> fst (I2C_send_start s)
      | LOGGER_I2C_SEND_END \<Rightarrow> fst (I2C_send_end s)
      | LOGGER_I2C_WRITE_BYTE c \<Rightarrow> fst (I2C_write c s)
      | LOGGER_I2C_READ_BYTE \<Rightarrow> fst (I2C_read s)
      | _ \<Rightarrow> s)"

definition signal :: "logger_out \<Rightarrow> bool" where
  "signal x = (case x of APPEND_LOG_DONE _ \<Rightarrow> True | READ_LOG_DONE _ _ \<Rightarrow> True | _ \<Rightarrow> False)"

text \<open>What an event of the log calls is carried out.\<close>

definition wire_up :: "(logger \<times> memory \<Rightarrow> (logger \<times> memory) \<times> logger_out list \<times> u8) \<Rightarrow> log_node \<Rightarrow> log_node \<times> u8" where
  "wire_up f n = (case n of (i, s, mem, sigs) \<Rightarrow> case f (s, mem) of ((s, mem), out, r) \<Rightarrow>
     ((fold call_i2c out i, s, mem, sigs @ filter signal out), r))"

definition log_client :: "(logger \<times> memory \<times> logger_out list) i2c_client" where
  "log_client = \<lparr>I2C_read_done = \<lambda>d e. wire_up (LOGGER_I2C_READ_BYTE_DONE d e), I2C_write_done = \<lambda>r. wire_up (LOGGER_I2C_WRITE_BYTE_DONE r),
     I2C_send_start_done = wire_up LOGGER_I2C_SEND_START_DONE, I2C_send_end_done = wire_up LOGGER_I2C_SEND_END_DONE\<rparr>"

definition log_task :: "'e device \<Rightarrow> log_node \<times> 'e bus \<Rightarrow> log_node \<times> 'e bus" where
  "log_task D n = I2C_task D log_client (fst n) (snd n)"

definition append_line :: "ptr \<Rightarrow> log_node \<Rightarrow> log_node \<times> u8" where
  "append_line p n = wire_up (\<lambda>(s, mem). case APPEND_LOG (snd (snd (I2C_send_start (fst n)))) p s of (s, out, r) \<Rightarrow> ((s, mem), out, r)) n"

definition read_line :: "u16 \<Rightarrow> ptr \<Rightarrow> log_node \<Rightarrow> log_node \<times> u8" where
  "read_line ln p n = wire_up (\<lambda>(s, mem). case READ_LOG (snd (snd (I2C_send_start (fst n)))) ln p s of (s, out, r) \<Rightarrow> ((s, mem), out, r)) n"

section \<open>The device\<close>

text \<open>Bytes written to the device, all acknowledged; bytes read from it, all but the last acknowledged.\<close>

primrec bytes_to :: "'e device \<Rightarrow> u8 list \<Rightarrow> 'e \<Rightarrow> 'e \<times> bool" where
  "bytes_to D [] e = (e, True)"
| "bytes_to D (c # cs) e = (case byte_to D c e of (e, a) \<Rightarrow> case bytes_to D cs e of (e, b) \<Rightarrow> (e, a \<and> b))"

primrec bytes_from :: "'e device \<Rightarrow> nat \<Rightarrow> 'e \<Rightarrow> 'e \<times> u8 list" where
  "bytes_from D 0 e = (e, [])"
| "bytes_from D (Suc n) e = (case byte_from D e of (e, d) \<Rightarrow>
     case bytes_from D n (dev_on D (BIT (n = 0)) e) of (e, ds) \<Rightarrow> (e, d # ds))"

definition address :: "u8 \<Rightarrow> u8 \<Rightarrow> nat" where
  "address hi lo = unat hi * 256 + unat lo"

definition store :: "nat \<Rightarrow> u8 list \<Rightarrow> (nat \<Rightarrow> u8) \<Rightarrow> nat \<Rightarrow> u8" where
  "store a ds f = (\<lambda>i. if a \<le> i \<and> i < a + length ds then ds ! (i - a) else f i)"

text \<open>An EEPROM of 8 kilobytes, addressed by thirteen bits, with the contents \<open>mem e\<close>: bytes written within
  a page of 32 bytes are stored once the device has settled after the stop, and the bytes of a page
  can be read from any address in it on. Nothing is said of what goes beyond the end of a page, where a
  device rolls over.\<close>

definition eeprom :: "'e device \<Rightarrow> ('e \<Rightarrow> bool) \<Rightarrow> ('e \<Rightarrow> 'e) \<Rightarrow> ('e \<Rightarrow> nat \<Rightarrow> u8) \<Rightarrow> bool" where
  "eeprom D ready settle mem \<longleftrightarrow> (\<forall>e. ready e \<longrightarrow>
     (\<forall>hi lo ds. unat hi < 32 \<longrightarrow> unat lo mod 32 + length ds \<le> 32 \<longrightarrow>
        (case bytes_to D (0xa0 # hi # lo # ds) (dev_on D START e) of (e', a) \<Rightarrow>
           a \<and> ready (settle (dev_on D STOP e')) \<and> mem (settle (dev_on D STOP e')) = store (address hi lo) ds (mem e))) \<and>
     (\<forall>hi lo n. unat hi < 32 \<longrightarrow> unat lo mod 32 + Suc n \<le> 32 \<longrightarrow>
        (case bytes_to D [0xa0, hi, lo] (dev_on D START e) of (e1, a) \<Rightarrow> a \<and> dev_drives D e1 \<and>
          (case bytes_to D [0xa1] (dev_on D START e1) of (e2, b) \<Rightarrow> b \<and>
            (case bytes_from D (Suc n) e2 of (e3, ds) \<Rightarrow>
              ds = map (mem e) [address hi lo ..< address hi lo + Suc n] \<and> ready (dev_on D STOP e3) \<and> mem (dev_on D STOP e3) = mem e)))))"

lemma eeprom_write:
  assumes "eeprom D ready settle mem" and "ready e" and "unat hi < 32" and "unat lo mod 32 + length ds \<le> 32"
  shows "case bytes_to D (0xa0 # hi # lo # ds) (dev_on D START e) of (e', a) \<Rightarrow>
     a \<and> ready (settle (dev_on D STOP e')) \<and> mem (settle (dev_on D STOP e')) = store (address hi lo) ds (mem e)"
  by (rule assms(1) [unfolded eeprom_def, THEN spec, of e, THEN mp, OF assms(2), THEN conjunct1, THEN spec, of hi, THEN spec, of lo,
      THEN spec, of ds, THEN mp, OF assms(3), THEN mp, OF assms(4)])

lemma eeprom_read:
  assumes "eeprom D ready settle mem" and "ready e" and "unat hi < 32" and "unat lo mod 32 + Suc n \<le> 32"
  shows "case bytes_to D [0xa0, hi, lo] (dev_on D START e) of (e1, a) \<Rightarrow> a \<and> dev_drives D e1 \<and>
    (case bytes_to D [0xa1] (dev_on D START e1) of (e2, b) \<Rightarrow> b \<and>
      (case bytes_from D (Suc n) e2 of (e3, ds) \<Rightarrow>
        ds = map (mem e) [address hi lo ..< address hi lo + Suc n] \<and> ready (dev_on D STOP e3) \<and> mem (dev_on D STOP e3) = mem e))"
  by (rule assms(1) [unfolded eeprom_def, THEN spec, of e, THEN mp, OF assms(2), THEN conjunct2, THEN spec, of hi, THEN spec, of lo,
      THEN spec, of n, THEN mp, OF assms(3), THEN mp, OF assms(4)])

section \<open>Steps of a transfer\<close>

text \<open>What the bus master is asked to do: its state, and what is in it.\<close>

fun request :: "logger_out \<Rightarrow> u8 option" where
  "request LOGGER_I2C_SEND_START = Some SEND_START"
| "request LOGGER_I2C_SEND_END = Some SEND_END"
| "request (LOGGER_I2C_WRITE_BYTE c) = Some WRITE_DATA"
| "request LOGGER_I2C_READ_BYTE = Some READ_DATA"
| "request _ = None"

definition holds_request :: "logger_out \<Rightarrow> i2c \<Rightarrow> bool" where
  "holds_request x i \<longleftrightarrow> request x = Some (i2_state i) \<and> (\<forall>c. x = LOGGER_I2C_WRITE_BYTE c \<longrightarrow> i2_data i = c)"

lemmas i2c_states = READ_DATA_def WRITE_DATA_def SEND_START_def SEND_END_def

lemma call_i2c_request: "request x \<noteq> None \<Longrightarrow> i2_state i = 0 \<Longrightarrow> holds_request x (call_i2c x i)"
  by (cases x) (simp_all add: holds_request_def call_i2c_def I2C_send_start_def I2C_send_end_def I2C_write_def I2C_read_def)

lemma signal_request: "request x \<noteq> None \<Longrightarrow> \<not> signal x"
  by (cases x) (simp_all add: signal_def)

text \<open>A transfer with the device in state \<open>e\<close> is under way and \<open>x\<close> is what comes next.\<close>

definition doing :: "logger_out \<Rightarrow> logger \<Rightarrow> memory \<Rightarrow> logger_out list \<Rightarrow> 'e \<Rightarrow> log_node \<times> 'e bus \<Rightarrow> bool" where
  "doing x s mem sigs e n \<longleftrightarrow> (\<exists>i b. n = ((i, s, mem, sigs), b) \<and> holds_request x i \<and> transfer e b)"

definition starting :: "logger \<Rightarrow> memory \<Rightarrow> logger_out list \<Rightarrow> 'e \<Rightarrow> log_node \<times> 'e bus \<Rightarrow> bool" where
  "starting s mem sigs e n \<longleftrightarrow> (\<exists>i b. n = ((i, s, mem, sigs), b) \<and> holds_request LOGGER_I2C_SEND_START i \<and> bus_free e b)"

definition resting :: "logger \<Rightarrow> memory \<Rightarrow> logger_out list \<Rightarrow> 'e \<Rightarrow> log_node \<times> 'e bus \<Rightarrow> bool" where
  "resting s mem sigs e n \<longleftrightarrow> (\<exists>i b. n = ((i, s, mem, sigs), b) \<and> i2_state i = 0 \<and> bus_free e b)"

lemma wire_up_request:
  assumes "f (s, mem) = ((s', mem'), [x], r)" and "request x \<noteq> None" and "i2_state i = 0"
  shows "wire_up f (i, s, mem, sigs) = ((call_i2c x i, s', mem', sigs), r) \<and> holds_request x (call_i2c x i)"
  using assms signal_request [of x] call_i2c_request [of x i] by (auto simp: wire_up_def)

lemma step_write:
  assumes "doing (LOGGER_I2C_WRITE_BYTE c) s mem sigs e n" and "byte_to D c e = (e', a)"
    and "LOGGER_I2C_WRITE_BYTE_DONE (if a then 1 else 0) (s, mem) = ((s', mem'), [x], r)" and "request x \<noteq> None"
  shows "doing x s' mem' sigs e' (log_task D n)"
proof -
  obtain i b where n0: "n = ((i, s, mem, sigs), b)" "holds_request (LOGGER_I2C_WRITE_BYTE c) i" "transfer e b"
    using assms(1) unfolding doing_def by blast
  then have n: "n = ((i, s, mem, sigs), b)" "i2_state i = WRITE_DATA" "i2_data i = c" "transfer e b"
    by (simp_all add: holds_request_def)
  note w = i2c_write_sees [OF n(4), of D c]
  note c = wire_up_request [where f = "LOGGER_I2C_WRITE_BYTE_DONE (if a then 1 else 0)" and i = "i\<lparr>i2_state := 0\<rparr>" and sigs = sigs, OF assms(3,4)]
  show ?thesis using n w c assms(2)
    by (simp add: doing_def log_task_def I2C_task_def log_client_def i2c_states case_prod_beta)
qed

lemma step_start:
  assumes "starting s mem sigs e n \<or> doing LOGGER_I2C_SEND_START s mem sigs e n \<and> dev_drives D e"
    and "LOGGER_I2C_SEND_START_DONE (s, mem) = ((s', mem'), [x], r)" and "request x \<noteq> None"
  shows "doing x s' mem' sigs (dev_on D START e) (log_task D n)"
proof -
  obtain i b where n: "n = ((i, s, mem, sigs), b)" "i2_state i = SEND_START" "transfer (dev_on D START e) (i2c_start D b)"
    using assms(1) i2c_start_free [of e _ D] i2c_start_again [of e _ D] by (auto simp: doing_def starting_def holds_request_def)
  note c = wire_up_request [where f = LOGGER_I2C_SEND_START_DONE and i = "i\<lparr>i2_state := 0\<rparr>" and sigs = sigs, OF assms(2,3)]
  show ?thesis using n c by (simp add: doing_def log_task_def I2C_task_def log_client_def i2c_states case_prod_beta)
qed

lemma step_read:
  assumes "doing LOGGER_I2C_READ_BYTE s mem sigs e n" and "byte_from D e = (e', d)"
    and "LOGGER_I2C_READ_BYTE_DONE d 0 (s, mem) = ((s', mem'), [x], r)" and "request x \<noteq> None"
  shows "doing x s' mem' sigs (dev_on D (BIT (r = 0)) e') (log_task D n)"
proof -
  obtain i b where n: "n = ((i, s, mem, sigs), b)" "i2_state i = READ_DATA" "transfer e b"
    using assms(1) by (auto simp: doing_def holds_request_def)
  note w = i2c_read_sees [OF n(3), of D]
  note c = wire_up_request [where f = "LOGGER_I2C_READ_BYTE_DONE d 0" and i = "i\<lparr>i2_state := 0\<rparr>" and sigs = sigs, OF assms(3,4)]
  show ?thesis using n w c assms(2) i2c_ack_sees [of e' "fst (i2c_read D b)" D] i2c_nack_sees [of e' "fst (i2c_read D b)" D]
    by (simp add: doing_def log_task_def I2C_task_def log_client_def i2c_states case_prod_beta)
qed

lemma step_end:
  assumes "doing LOGGER_I2C_SEND_END s mem sigs e n"
    and "LOGGER_I2C_SEND_END_DONE (s, mem) = ((s', mem'), out, r)" and "\<forall>x\<in>set out. signal x"
  shows "resting s' mem' (sigs @ out) (dev_on D STOP e) (log_task D n)"
proof -
  obtain i b where n: "n = ((i, s, mem, sigs), b)" "i2_state i = SEND_END" "transfer e b"
    using assms(1) by (auto simp: doing_def holds_request_def)
  have "i2_state (fold call_i2c out j) = i2_state j" for j
    using assms(3) by (induction out arbitrary: j) (auto simp: call_i2c_def signal_def split: logger_out.splits)
  moreover have "filter signal out = out" using assms(3) by simp
  ultimately show ?thesis using n assms(2) i2c_end_sees [OF n(3), of D]
    by (simp add: resting_def log_task_def I2C_task_def log_client_def i2c_states case_prod_beta wire_up_def)
qed

lemmas log_event_defs = LOGGER_I2C_WRITE_BYTE_DONE_def LOGGER_I2C_READ_BYTE_DONE_def LOGGER_I2C_SEND_START_DONE_def LOGGER_I2C_SEND_END_DONE_def

section \<open>Appending a line\<close>

lemma count_small: "k < 128 \<Longrightarrow> sint (of_nat k :: u8) = int k" "k < 128 \<Longrightarrow> unat (of_nat k :: u8) = k"
  by (simp_all add: signed_of_nat signed_take_bit_int_eq_self unat_of_nat)

lemma writing:
  assumes "doing (LOGGER_I2C_WRITE_BYTE c) s mem sigs e n" and "lg_state s = WRITING_TO_LOG" and "lg_count s = of_nat k" and "k \<le> 30"
    and "length (mem (lg_data s)) \<ge> 30" and "bytes_to D (c # drop k (take 30 (mem (lg_data s)))) e = (e', True)"
  shows "doing LOGGER_I2C_SEND_END (s\<lparr>lg_state := WRITE_LOG_STOP, lg_count := 0\<rparr>) mem sigs e' ((log_task D ^^ (31 - k)) n)"
  using assms
proof (induction "30 - k" arbitrary: k c s e n)
  case 0
  then have k: "k = 30" by simp
  have "byte_to D c e = (e', True)" using "0.prems"(6) k by (auto split: prod.splits)
  moreover have "LOGGER_I2C_WRITE_BYTE_DONE (if True then 1 else 0) (s, mem) =
      ((s\<lparr>lg_state := WRITE_LOG_STOP, lg_count := 0\<rparr>, mem), [LOGGER_I2C_SEND_END], 0)"
    using "0.prems"(2,3) k by (simp add: log_event_defs log_states)
  ultimately show ?case using step_write [OF "0.prems"(1)] k by simp
next
  case (Suc m)
  let ?d = "mem (lg_data s)"
  have k: "k < 30" using Suc.hyps(2) by simp
  have d: "drop k (take 30 ?d) = ?d ! k # drop (Suc k) (take 30 ?d)"
    using k Suc.prems(5) by (metis Cons_nth_drop_Suc length_take min.absorb2 nth_take)
  obtain e1 where e1: "byte_to D c e = (e1, True)" "bytes_to D (?d ! k # drop (Suc k) (take 30 ?d)) e1 = (e', True)"
    using Suc.prems(6) d by (auto split: prod.splits)
  have ev: "LOGGER_I2C_WRITE_BYTE_DONE (if True then 1 else 0) (s, mem) =
      ((s\<lparr>lg_count := of_nat (Suc k)\<rparr>, mem), [LOGGER_I2C_WRITE_BYTE (?d ! k)], 1)"
    using Suc.prems(2,3) k count_small [of k] by (simp add: log_event_defs log_states)
  have "doing (LOGGER_I2C_WRITE_BYTE (?d ! k)) (s\<lparr>lg_count := of_nat (Suc k)\<rparr>) mem sigs e1 (log_task D n)"
    by (rule step_write [OF Suc.prems(1) e1(1) ev]) simp
  from Suc.hyps(1) [OF _ this, of "Suc k"] Suc.hyps(2) Suc.prems(2,5) k e1(2)
  have "doing LOGGER_I2C_SEND_END (s\<lparr>lg_state := WRITE_LOG_STOP, lg_count := 0\<rparr>) mem sigs e' ((log_task D ^^ (31 - Suc k)) (log_task D n))"
    by simp
  moreover have "31 - k = Suc (31 - Suc k)" using k by simp
  ultimately show ?case by (simp add: funpow_swap1)
qed

text \<open>The number of a line, and where it is in the EEPROM.\<close>

definition line_address :: "u16 \<Rightarrow> nat" where
  "line_address ln = 32 * (unat ln mod 256)"

lemma address_line: "address (high_address ln) (low_address ln) = line_address ln" "unat (low_address ln) mod 32 = 0"
  "unat (high_address ln) < 32"
proof -
  have word16: "unat ln < 65536" using unsigned_less [of ln] by simp
  have hi: "unat (high_address ln) = unat ln div 8 mod 32"
  proof -
    have "signed_drop_bit 3 ln AND 0x1f = take_bit 5 (signed_drop_bit 3 ln)" by (simp add: take_bit_eq_mask mask_eq_exp_minus_1)
    also have "\<dots> = take_bit 5 (drop_bit 3 ln)" by (rule bit_word_eqI) (auto simp: bit_simps)
    finally have "unat (signed_drop_bit 3 ln AND 0x1f) = unat (take_bit 5 (drop_bit 3 ln))" by simp
    also have "\<dots> = unat ln div 8 mod 32"
      using word16
      by (simp only: unsigned_take_bit_eq unsigned_drop_bit_eq) (simp add: take_bit_eq_mod drop_bit_eq_div)
    finally have "unat (signed_drop_bit 3 ln AND 0x1f) = unat ln div 8 mod 32" .
    then show ?thesis by (simp add: high_address_def unsigned_ucast_eq take_bit_eq_mod)
  qed
  have lo: "unat (low_address ln) = unat ln mod 8 * 32"
  proof -
    have "push_bit 5 ln AND 0xe0 = push_bit 5 (take_bit 3 ln)"
      by (rule u16_eqI) (simp add: upt_rec bit_simps)
    then have "unat (push_bit 5 ln AND 0xe0) = unat (push_bit 5 (take_bit 3 ln))" by simp
    also have "\<dots> = unat ln mod 8 * 32"
    proof -
      have "unat ln mod 8 * 32 < 65536" by (rule le_less_trans [of _ "7 * 32"]) auto
      then show ?thesis
        by (simp only: unsigned_push_bit_eq unsigned_take_bit_eq) (simp add: take_bit_eq_mod push_bit_eq_mult)
    qed
    finally show ?thesis by (simp add: low_address_def unsigned_ucast_eq take_bit_eq_mod)
  qed
  have "unat ln div 8 mod 32 * 256 + unat ln mod 8 * 32 = 32 * (unat ln mod 256)"
    using mod_mult2_eq [of "unat ln" 8 32] by simp
  then show "address (high_address ln) (low_address ln) = line_address ln"
    by (simp only: address_def hi lo line_address_def)
  show "unat (low_address ln) mod 32 = 0" by (simp add: lo)
  show "unat (high_address ln) < 32" by (simp add: hi)
qed

text \<open>From rest, appending a line takes 35 tasks.\<close>

lemma append_transfer:
  assumes "eeprom D ready settle emem" and "ready e" and "resting s mem sigs e n" and "lg_state s = 0" and "30 \<le> length (mem p)"
  shows "\<exists>e'. resting \<lparr>last_line = last_line s + 1, lg_data = p, lg_state = 0, lg_count = 0, current_line = last_line s\<rparr>
      mem (sigs @ [APPEND_LOG_DONE 1]) e' ((log_task D ^^ 35) (fst (append_line p (fst n)), snd n)) \<and>
    snd (append_line p (fst n)) = 1 \<and> ready (settle e') \<and> emem (settle e') = store (line_address (last_line s)) (take 30 (mem p)) (emem e)"
proof -
  let ?s = "\<lambda>st. \<lparr>last_line = last_line s, lg_data = p, lg_state = st, lg_count = 0, current_line = last_line s\<rparr>"
  let ?hi = "high_address (last_line s)" and ?lo = "low_address (last_line s)" and ?ds = "take 30 (mem p)"
  obtain i b where n: "n = ((i, s, mem, sigs), b)" "i2_state i = 0" "bus_free e b" using assms(3) unfolding resting_def by blast
  have start: "starting (?s APPEND_LOG_START) mem sigs e (fst (append_line p (fst n)), snd n)" "snd (append_line p (fst n)) = 1"
    using n assms(4) by (cases s, simp_all add: starting_def append_line_def wire_up_def APPEND_LOG_def I2C_send_start_def call_i2c_def
        signal_def holds_request_def Let_def)
  have "unat ?lo mod 32 + length ?ds \<le> 32" using address_line(2) [of "last_line s"] by simp
  note ee = eeprom_write [OF assms(1,2) address_line(3) this, of "last_line s"]
  obtain e1 e2 e' where e: "byte_to D 0xa0 (dev_on D START e) = (e1, True)" "byte_to D ?hi e1 = (e2, True)"
    "bytes_to D (?lo # ?ds) e2 = (e', True)" "ready (settle (dev_on D STOP e'))"
    "emem (settle (dev_on D STOP e')) = store (line_address (last_line s)) ?ds (emem e)"
    using ee unfolding address_line(1) by (auto split: prod.splits)
  let ?n = "(fst (append_line p (fst n)), snd n)"
  have 1: "doing (LOGGER_I2C_WRITE_BYTE 0xa0) (?s WRITE_COMMAND) mem sigs (dev_on D START e) (log_task D ?n)"
    by (rule step_start [OF disjI1 [OF start(1)]]) (simp_all add: log_event_defs log_states)
  have 2: "doing (LOGGER_I2C_WRITE_BYTE ?hi) (?s WRITE_COMMAND_2) mem sigs e1 (log_task D (log_task D ?n))"
    by (rule step_write [OF 1 e(1)]) (simp_all add: log_event_defs log_states)
  have 3: "doing (LOGGER_I2C_WRITE_BYTE ?lo) (?s WRITING_TO_LOG) mem sigs e2 (log_task D (log_task D (log_task D ?n)))"
    by (rule step_write [OF 2 e(2)]) (simp_all add: log_event_defs log_states)
  have 4: "doing LOGGER_I2C_SEND_END (?s WRITE_LOG_STOP) mem sigs e' ((log_task D ^^ 31) (log_task D (log_task D (log_task D ?n))))"
    using writing [where D = D and k = 0 and e' = e', OF 3] e(3) assms(5) by simp
  have 5: "resting \<lparr>last_line = last_line s + 1, lg_data = p, lg_state = 0, lg_count = 0, current_line = last_line s\<rparr> mem
      (sigs @ [APPEND_LOG_DONE 1]) (dev_on D STOP e') (log_task D ((log_task D ^^ 31) (log_task D (log_task D (log_task D ?n)))))"
    by (rule step_end [OF 4]) (simp_all add: log_event_defs log_states signal_def)
  have 35: "(35 :: nat) = Suc (31 + Suc (Suc (Suc 0)))" by simp
  have "(log_task D ^^ 35) ?n = log_task D ((log_task D ^^ 31) (log_task D (log_task D (log_task D ?n))))"
    unfolding 35 funpow.simps funpow_add comp_apply id_apply ..
  then show ?thesis using 5 start(2) e(4,5) by auto
qed

section \<open>Reading a line\<close>

lemma reading_bytes:
  assumes "doing LOGGER_I2C_READ_BYTE s mem sigs e n" and "lg_state s = READ_LOG_READING_DATA" and "lg_count s = of_nat k" and "k < 30"
    and "bytes_from D (30 - k) e = (e', ds)"
  shows "\<exists>mem'. doing LOGGER_I2C_SEND_END (s\<lparr>lg_state := READ_LOG_STOP, lg_count := 30\<rparr>) mem' sigs e' ((log_task D ^^ (30 - k)) n) \<and>
    (30 \<le> length (mem (lg_data s)) \<longrightarrow> mem' = mem(lg_data s := take k (mem (lg_data s)) @ ds @ drop 30 (mem (lg_data s))))"
  using assms
proof (induction "29 - k" arbitrary: k s mem e ds n)
  case 0
  then have k: "k = 29" by simp
  obtain d e1 where d: "byte_from D e = (e1, d)" by (cases "byte_from D e")
  have b: "ds = [d]" "e' = dev_on D (BIT True) e1" using "0.prems"(5) k d by simp_all
  let ?mem = "mem(lg_data s := (mem (lg_data s))[29 := d])"
  have ev: "LOGGER_I2C_READ_BYTE_DONE d 0 (s, mem) = ((s\<lparr>lg_state := READ_LOG_STOP, lg_count := 30\<rparr>, ?mem), [LOGGER_I2C_SEND_END], 0)"
    using "0.prems"(2,3) k by (cases s) (simp add: log_event_defs log_states Let_def)
  have "doing LOGGER_I2C_SEND_END (s\<lparr>lg_state := READ_LOG_STOP, lg_count := 30\<rparr>) ?mem sigs e' (log_task D n)"
    using step_read [OF "0.prems"(1) d ev] b by simp
  moreover have "(mem (lg_data s))[29 := d] = take 29 (mem (lg_data s)) @ [d] @ drop 30 (mem (lg_data s))" if "30 \<le> length (mem (lg_data s))"
    using that by (simp add: upd_conv_take_nth_drop)
  ultimately show ?case using k b by auto
next
  case (Suc m)
  then have k: "k < 29" by simp
  obtain d e1 where d: "byte_from D e = (e1, d)" by (cases "byte_from D e")
  have "30 - k = Suc (30 - Suc k)" using k by simp
  then have "bytes_from D (Suc (30 - Suc k)) e = (e', ds)" using Suc.prems(5) by simp
  then obtain ds' where b: "bytes_from D (30 - Suc k) (dev_on D (BIT False) e1) = (e', ds')" "ds = d # ds'"
    using d k by (auto split: prod.splits)
  let ?mem = "mem(lg_data s := (mem (lg_data s))[k := d])" and ?s = "s\<lparr>lg_count := of_nat (Suc k)\<rparr>"
  have c: "unat (of_nat k :: u8) = k" "(of_nat k :: u8) + 1 = of_nat (Suc k)" "(of_nat (Suc k) :: u8) \<noteq> 30"
  proof -
    show "(of_nat k :: u8) + 1 = of_nat (Suc k)" by simp
    show "unat (of_nat k :: u8) = k" using k count_small [of k] by simp
    show "(of_nat (Suc k) :: u8) \<noteq> 30"
    proof
      assume "(of_nat (Suc k) :: u8) = 30"
      then have "(of_nat (Suc k) :: u8) = of_nat 30" by simp
      then have "unat (of_nat (Suc k) :: u8) = unat (of_nat 30 :: u8)" by (rule arg_cong)
      moreover have "unat (of_nat (Suc k) :: u8) = Suc k" by (rule count_small(2)) (use k in simp)
      moreover have "unat (of_nat 30 :: u8) = 30" by (rule count_small(2)) simp
      ultimately show False using k by linarith
    qed
  qed
  have ev: "LOGGER_I2C_READ_BYTE_DONE d 0 (s, mem) = ((?s, ?mem), [LOGGER_I2C_READ_BYTE], 1)"
    using Suc.prems(2,3) c by (cases s) (simp add: log_event_defs log_states Let_def del: of_nat_Suc)
  have "doing LOGGER_I2C_READ_BYTE ?s ?mem sigs (dev_on D (BIT False) e1) (log_task D n)"
    using step_read [OF Suc.prems(1) d ev] by simp
  moreover have "m = 29 - Suc k" using Suc.hyps(2) by simp
  ultimately obtain mem' where m: "doing LOGGER_I2C_SEND_END (?s\<lparr>lg_state := READ_LOG_STOP, lg_count := 30\<rparr>) mem' sigs e'
      ((log_task D ^^ (30 - Suc k)) (log_task D n))"
    "30 \<le> length (?mem (lg_data ?s)) \<longrightarrow>
      mem' = ?mem(lg_data ?s := take (Suc k) (?mem (lg_data ?s)) @ ds' @ drop 30 (?mem (lg_data ?s)))"
    using Suc.hyps(1) [of "Suc k" ?s ?mem "dev_on D (BIT False) e1" "log_task D n" ds'] Suc.prems(2) k b(1) by auto
  have "take (Suc k) (xs[k := d]) @ ds' @ drop 30 (xs[k := d]) = take k xs @ ds @ drop 30 xs" if "30 \<le> length xs" for xs
    using that k b(2) by (simp add: take_Suc_conv_app_nth)
  moreover have "30 - k = Suc (30 - Suc k)" using k by simp
  ultimately show ?case using m by (intro exI [of _ mem']) (auto simp: funpow_swap1)
qed

text \<open>From rest, reading a line takes 37 tasks.\<close>

lemma read_transfer:
  assumes "eeprom D ready settle emem" and "ready e" and "resting s mem sigs e n" and "lg_state s = 0" and "30 \<le> length (mem p)"
  shows "\<exists>e'. resting \<lparr>last_line = last_line s, lg_data = p, lg_state = 0, lg_count = 30, current_line = ln\<rparr>
      (mem(p := map (emem e) [line_address ln ..< line_address ln + 30] @ drop 30 (mem p))) (sigs @ [READ_LOG_DONE p 1]) e'
      ((log_task D ^^ 37) (fst (read_line ln p (fst n)), snd n)) \<and>
    snd (read_line ln p (fst n)) = 1 \<and> ready e' \<and> emem e' = emem e"
proof -
  let ?s = "\<lambda>st c. \<lparr>last_line = last_line s, lg_data = p, lg_state = st, lg_count = c, current_line = ln\<rparr>"
  let ?hi = "high_address ln" and ?lo = "low_address ln" and ?a = "line_address ln"
  let ?n = "(fst (read_line ln p (fst n)), snd n)"
  obtain i b where n: "n = ((i, s, mem, sigs), b)" "i2_state i = 0" "bus_free e b" using assms(3) unfolding resting_def by blast
  have start: "starting (?s READ_LOG_START 0) mem sigs e ?n" "snd (read_line ln p (fst n)) = 1"
    using n assms(4) by (cases s, simp_all add: starting_def read_line_def wire_up_def READ_LOG_def I2C_send_start_def call_i2c_def
        signal_def holds_request_def Let_def)
  have "unat ?lo mod 32 + Suc 29 \<le> 32" using address_line(2) [of ln] by simp
  note ee = eeprom_read [OF assms(1,2) address_line(3) [of ln] this, unfolded address_line(1)]
  obtain e1 e2 e3 e4 e5 where e: "byte_to D 0xa0 (dev_on D START e) = (e1, True)" "byte_to D ?hi e1 = (e2, True)"
    "byte_to D ?lo e2 = (e3, True)" "dev_drives D e3" "byte_to D 0xa1 (dev_on D START e3) = (e4, True)"
    "bytes_from D (30 - 0) e4 = (e5, map (emem e) [?a ..< ?a + 30])" "ready (dev_on D STOP e5)" "emem (dev_on D STOP e5) = emem e"
    using ee by (auto simp del: bytes_from.simps split: prod.splits)
  have 1: "doing (LOGGER_I2C_WRITE_BYTE 0xa0) (?s READ_COMMAND 0) mem sigs (dev_on D START e) (log_task D ?n)"
    by (rule step_start [OF disjI1 [OF start(1)]]) (simp_all add: log_event_defs log_states)
  have 2: "doing (LOGGER_I2C_WRITE_BYTE ?hi) (?s READ_COMMAND_2 0) mem sigs e1 (log_task D (log_task D ?n))"
    by (rule step_write [OF 1 e(1)]) (simp_all add: log_event_defs log_states)
  have 3: "doing (LOGGER_I2C_WRITE_BYTE ?lo) (?s READ_COMMAND_3 0) mem sigs e2 (log_task D (log_task D (log_task D ?n)))"
    by (rule step_write [OF 2 e(2)]) (simp_all add: log_event_defs log_states)
  have 4: "doing LOGGER_I2C_SEND_START (?s READ_COMMAND_4 0) mem sigs e3 (log_task D (log_task D (log_task D (log_task D ?n))))"
    by (rule step_write [OF 3 e(3)]) (simp_all add: log_event_defs log_states)
  have 5: "doing (LOGGER_I2C_WRITE_BYTE 0xa1) (?s READ_COMMAND_5 0) mem sigs (dev_on D START e3)
      (log_task D (log_task D (log_task D (log_task D (log_task D ?n)))))"
    by (rule step_start [OF disjI2 [OF conjI [OF 4 e(4)]]]) (simp_all add: log_event_defs log_states)
  let ?n6 = "log_task D (log_task D (log_task D (log_task D (log_task D (log_task D ?n)))))"
  have 6: "doing LOGGER_I2C_READ_BYTE (?s READ_LOG_READING_DATA 0) mem sigs e4 ?n6"
    by (rule step_write [OF 5 e(5)]) (simp_all add: log_event_defs log_states)
  have 7: "doing LOGGER_I2C_SEND_END (?s READ_LOG_STOP 30) (mem(p := map (emem e) [?a ..< ?a + 30] @ drop 30 (mem p))) sigs e5
      ((log_task D ^^ 30) ?n6)"
    using reading_bytes [where D = D and k = 0, OF 6] e(6) assms(5) by simp
  have 8: "resting (?s 0 30) (mem(p := map (emem e) [?a ..< ?a + 30] @ drop 30 (mem p))) (sigs @ [READ_LOG_DONE p 1])
      (dev_on D STOP e5) (log_task D ((log_task D ^^ 30) ?n6))"
    by (rule step_end [OF 7]) (simp_all add: log_event_defs log_states signal_def)
  have 37: "(37 :: nat) = Suc (30 + Suc (Suc (Suc (Suc (Suc (Suc 0))))))" by simp
  have "(log_task D ^^ 37) ?n = log_task D ((log_task D ^^ 30) ?n6)"
    unfolding 37 funpow.simps funpow_add comp_apply id_apply ..
  then show ?thesis using 8 start(2) e(7,8) by auto
qed

section \<open>A byte that is not acknowledged\<close>

lemma write_failure:
  assumes "doing (LOGGER_I2C_WRITE_BYTE c) s mem sigs e n" and "byte_to D c e = (e', False)"
  shows "resting (s\<lparr>lg_state := 0\<rparr>) mem sigs (dev_on D STOP e') (log_task D (log_task D n))"
proof -
  obtain i b where n0: "n = ((i, s, mem, sigs), b)" "holds_request (LOGGER_I2C_WRITE_BYTE c) i" "transfer e b"
    using assms(1) unfolding doing_def by blast
  then have n: "n = ((i, s, mem, sigs), b)" "i2_state i = WRITE_DATA" "i2_data i = c" "transfer e b"
    by (simp_all add: holds_request_def)
  have "doing LOGGER_I2C_SEND_END (s\<lparr>lg_state := 0\<rparr>) mem sigs e' (log_task D n)"
    using n i2c_write_sees [OF n(4), of D c] assms(2)
    by (simp add: doing_def log_task_def I2C_task_def log_client_def i2c_states case_prod_beta wire_up_def log_event_defs signal_def
        call_i2c_def I2C_send_end_def holds_request_def log_states)
  then have "resting (s\<lparr>lg_state := 0\<rparr>) mem (sigs @ []) (dev_on D STOP e') (log_task D (log_task D n))"
    by (rule step_end) (cases s, simp_all add: log_event_defs log_states Let_def)
  then show ?thesis by simp
qed

text \<open>When nothing acknowledges the first byte (no EEPROM, or one that is still storing the line before), an
  append and a read are accepted and then given up: three tasks later the components are idle, the line number has
  not moved, the memory is unchanged, and no event tells the client. This holds for every device.\<close>

theorem log_gives_up_silently:
  assumes "resting s mem sigs e n" and "lg_state s = 0" and "byte_to D 0xa0 (dev_on D START e) = (e', False)"
  shows "snd (append_line p (fst n)) = 1 \<and> snd (read_line ln p (fst n)) = 1 \<and>
    resting \<lparr>last_line = last_line s, lg_data = p, lg_state = 0, lg_count = 0, current_line = last_line s\<rparr> mem sigs (dev_on D STOP e')
      ((log_task D ^^ 3) (fst (append_line p (fst n)), snd n)) \<and>
    resting \<lparr>last_line = last_line s, lg_data = p, lg_state = 0, lg_count = 0, current_line = ln\<rparr> mem sigs (dev_on D STOP e')
      ((log_task D ^^ 3) (fst (read_line ln p (fst n)), snd n))"
proof -
  let ?s = "\<lambda>st l. \<lparr>last_line = last_line s, lg_data = p, lg_state = st, lg_count = 0, current_line = l\<rparr>"
  obtain i b where n: "n = ((i, s, mem, sigs), b)" "i2_state i = 0" "bus_free e b" using assms(1) unfolding resting_def by blast
  have a: "starting (?s APPEND_LOG_START (last_line s)) mem sigs e (fst (append_line p (fst n)), snd n)" "snd (append_line p (fst n)) = 1"
    using n assms(2) by (cases s, simp_all add: starting_def append_line_def wire_up_def APPEND_LOG_def I2C_send_start_def call_i2c_def
        signal_def holds_request_def Let_def)
  have r: "starting (?s READ_LOG_START ln) mem sigs e (fst (read_line ln p (fst n)), snd n)" "snd (read_line ln p (fst n)) = 1"
    using n assms(2) by (cases s, simp_all add: starting_def read_line_def wire_up_def READ_LOG_def I2C_send_start_def call_i2c_def
        signal_def holds_request_def Let_def)
  have a1: "doing (LOGGER_I2C_WRITE_BYTE 0xa0) (?s WRITE_COMMAND (last_line s)) mem sigs (dev_on D START e)
      (log_task D (fst (append_line p (fst n)), snd n))"
    by (rule step_start [OF disjI1 [OF a(1)]]) (simp_all add: log_event_defs log_states)
  have r1: "doing (LOGGER_I2C_WRITE_BYTE 0xa0) (?s READ_COMMAND ln) mem sigs (dev_on D START e)
      (log_task D (fst (read_line ln p (fst n)), snd n))"
    by (rule step_start [OF disjI1 [OF r(1)]]) (simp_all add: log_event_defs log_states)
  show ?thesis using a(2) r(2) write_failure [OF a1 assms(3)] write_failure [OF r1 assms(3)] by (simp add: numeral_3_eq_3)
qed

definition quiet_bus :: "'e \<Rightarrow> memory \<Rightarrow> log_node \<times> 'e bus" where
  "quiet_bus e mem = ((\<lparr>i2_state = 0, i2_data = 0\<rparr>, \<lparr>last_line = 0, lg_data = 0, lg_state = 0, lg_count = 0, current_line = 0\<rparr>, mem, []),
     \<lparr>w_scl = True, w_latch = True, w_out = True, w_cond = False\<rparr>, e)"

lemma quiet_bus_resting:
  "resting \<lparr>last_line = 0, lg_data = 0, lg_state = 0, lg_count = 0, current_line = 0\<rparr> mem [] e (quiet_bus e mem)"
  by (simp add: resting_def quiet_bus_def bus_free_def)

theorem log_gives_up_silently_witness:
  "resting \<lparr>last_line = 0, lg_data = 7, lg_state = 0, lg_count = 0, current_line = 0\<rparr> (\<lambda>_. []) [] ()
    ((log_task \<lparr>dev_on = \<lambda>_ e. e, dev_drives = \<lambda>_. True\<rparr> ^^ 3)
      (fst (append_line 7 (fst (quiet_bus () (\<lambda>_. [])))), snd (quiet_bus () (\<lambda>_. []))))"
  using log_gives_up_silently [where D = "\<lparr>dev_on = \<lambda>_ e. e, dev_drives = \<lambda>_. True\<rparr>" and e' = "()" and p = 7,
      OF quiet_bus_resting [of "\<lambda>_. []" "()"]]
  by (simp add: byte_to_def)

section \<open>The log as a list of lines\<close>

text \<open>The lines appended so far, of which the last 256 are still there.\<close>

definition log_holds :: "u8 list list \<Rightarrow> logger \<Rightarrow> (nat \<Rightarrow> u8) \<Rightarrow> bool" where
  "log_holds ls s f \<longleftrightarrow> last_line s = of_nat (length ls) \<and>
     (\<forall>i < length ls. length ls \<le> i + 256 \<longrightarrow> map f [line_address (of_nat i) ..< line_address (of_nat i) + 30] = ls ! i)"

lemma log_holds_line:
  "log_holds ls s f \<Longrightarrow> i < length ls \<Longrightarrow> length ls \<le> i + 256 \<Longrightarrow>
    map f [line_address (of_nat i) ..< line_address (of_nat i) + 30] = ls ! i"
  by (simp add: log_holds_def)

lemma line_address_of_nat: "line_address (of_nat i) = 32 * (i mod 256)"
proof -
  have "i mod 65536 mod 256 = i mod 256" by (rule mod_mod_cancel) simp
  then show ?thesis by (simp add: line_address_def unat_of_nat)
qed

lemma store_same: "map (store a ds f) [a ..< a + length ds] = ds"
  by (rule nth_equalityI) (simp_all add: store_def)

lemma store_other: "b + n \<le> a \<or> a + length ds \<le> b \<Longrightarrow> map (store a ds f) [b ..< b + n] = map f [b ..< b + n]"
  by (auto simp: store_def)

text \<open>Two of the last 256 lines have different pages.\<close>

lemma pages_disjoint:
  assumes "i < j" and "j < i + 256"
  shows "line_address (of_nat i) + 30 \<le> line_address (of_nat j) \<or> line_address (of_nat j) + 30 \<le> line_address (of_nat i)"
proof -
  have "i mod 256 \<noteq> j mod 256"
  proof
    assume "i mod 256 = j mod 256"
    then have "(256 :: nat) dvd j - i" using assms(1) mod_eq_dvd_iff_nat [of i j 256] by simp
    then show False using assms nat_dvd_not_less [of "j - i" 256] by simp
  qed
  then have "i mod 256 < j mod 256 \<or> j mod 256 < i mod 256" by linarith
  then show ?thesis unfolding line_address_of_nat by linarith
qed

lemma log_holds_append:
  assumes "log_holds ls s f" and "length d = 30" and "last_line s' = last_line s + 1"
  shows "log_holds (ls @ [d]) s' (store (line_address (last_line s)) d f)"
proof -
  have n: "last_line s = of_nat (length ls)" using assms(1) by (simp add: log_holds_def)
  have "map (store (line_address (of_nat (length ls))) d f) [line_address (of_nat i) ..< line_address (of_nat i) + 30] = (ls @ [d]) ! i"
    if i: "i < Suc (length ls)" "Suc (length ls) \<le> i + 256" for i
  proof (cases "i = length ls")
    case True
    then show ?thesis using store_same [of "line_address (of_nat (length ls))" d f] assms(2) by simp
  next
    case False
    then have "i < length ls" "length ls < i + 256" using i by simp_all
    let ?at = "[line_address (of_nat i) ..< line_address (of_nat i) + 30]"
    have "map (store (line_address (of_nat (length ls))) d f) ?at = map f ?at"
      using pages_disjoint [of i "length ls"] \<open>i < length ls\<close> \<open>length ls < i + 256\<close> assms(2) by (intro store_other) simp
    also have "\<dots> = ls ! i" by (rule log_holds_line [OF assms(1)]) (use \<open>i < length ls\<close> \<open>length ls < i + 256\<close> in simp_all)
    finally show ?thesis using \<open>i < length ls\<close> by (simp add: nth_append)
  qed
  then show ?thesis using n assms(3) by (simp add: log_holds_def)
qed

text \<open>The device is left alone for as long as it takes to store what it was sent.\<close>

definition settled :: "('e \<Rightarrow> 'e) \<Rightarrow> log_node \<times> 'e bus \<Rightarrow> log_node \<times> 'e bus" where
  "settled settle n = (case n of (c, w, e) \<Rightarrow> (c, w, settle e))"

lemma resting_settled: "resting s mem sigs e n \<Longrightarrow> resting s mem sigs (settle e) (settled settle n)"
  by (auto simp: resting_def settled_def bus_free_def)

definition append_and_read :: "'e device \<Rightarrow> ('e \<Rightarrow> 'e) \<Rightarrow> ptr \<Rightarrow> u16 \<Rightarrow> ptr \<Rightarrow> log_node \<times> 'e bus \<Rightarrow> log_node \<times> 'e bus" where
  "append_and_read D settle p ln q n =
     (let n1 = settled settle ((log_task D ^^ 35) (fst (append_line p (fst n)), snd n))
      in (log_task D ^^ 37) (fst (read_line ln q (fst n1)), snd n1))"

text \<open>C24: On an EEPROM of the documented behaviour (8 kilobytes, pages of 32 bytes, every transfer within a
  page), the log is a list of lines: appending the 30 bytes of a buffer takes 35 tasks of the bus master
  and adds a line, and reading takes 37 tasks and puts any of the last 256 lines, the new one included,
  in the first 30 bytes of the reader's buffer. The client is signalled once for each, the components
  are idle again, and the other bytes of memory are kept.\<close>

theorem log_refines_list:
  assumes "eeprom D ready settle emem" and "ready e" and "resting s mem sigs e n" and "lg_state s = 0"
    and "log_holds ls s (emem e)" and "30 \<le> length (mem p)" and "30 \<le> length (mem q)"
    and "i \<le> length ls" and "length ls < i + 256"
  shows "\<exists>s' e'. resting s' (mem(q := (ls @ [take 30 (mem p)]) ! i @ drop 30 (mem q))) (sigs @ [APPEND_LOG_DONE 1, READ_LOG_DONE q 1]) e'
      (append_and_read D settle p (of_nat i) q n) \<and>
    lg_state s' = 0 \<and> ready e' \<and> log_holds (ls @ [take 30 (mem p)]) s' (emem e')"
proof -
  let ?d = "take 30 (mem p)" and ?f = "store (line_address (last_line s)) (take 30 (mem p)) (emem e)"
  let ?s1 = "\<lparr>last_line = last_line s + 1, lg_data = p, lg_state = 0, lg_count = 0, current_line = last_line s\<rparr>"
  let ?s2 = "\<lparr>last_line = last_line s + 1, lg_data = q, lg_state = 0, lg_count = 30, current_line = of_nat i\<rparr>"
  let ?n1 = "settled settle ((log_task D ^^ 35) (fst (append_line p (fst n)), snd n))"
  obtain e1 where e: "resting ?s1 mem (sigs @ [APPEND_LOG_DONE 1]) e1 ((log_task D ^^ 35) (fst (append_line p (fst n)), snd n))"
    "ready (settle e1)" "emem (settle e1) = ?f"
    using append_transfer [OF assms(1-4,6)] by blast
  note e1 = resting_settled [where settle = settle, OF e(1)] e(2,3)
  have holds: "log_holds (ls @ [?d]) x ?f" if "last_line x = last_line s + 1" for x
    using log_holds_append [OF assms(5) _ that] assms(6) by simp
  have line: "map ?f [line_address (of_nat i) ..< line_address (of_nat i) + 30] = (ls @ [?d]) ! i"
    by (rule log_holds_line [OF holds [of ?s1]]) (use assms(8,9) in simp_all)
  obtain e2 where "resting ?s2 (mem(q := (ls @ [?d]) ! i @ drop 30 (mem q))) (sigs @ [APPEND_LOG_DONE 1] @ [READ_LOG_DONE q 1]) e2
      ((log_task D ^^ 37) (fst (read_line (of_nat i) q (fst ?n1)), snd ?n1))" "ready e2" "emem e2 = ?f"
    using read_transfer [OF assms(1) e1(2,1) _ assms(7), of "of_nat i"] e1(3) line by auto
  then show ?thesis using holds [of ?s2] by (intro exI [of _ ?s2] exI [of _ e2]) (simp add: append_and_read_def Let_def)
qed

section \<open>A device\<close>

text \<open>An EEPROM bit by bit: what it is doing, the bytes of the transfer so far, the address and the contents.
  Writing rolls over at the end of the page and reading at the end of the memory.\<close>

datatype ee_mode = Off | Listen "bool list" | Ack | Talk "bool list" | Wait_ack

record ee =
  ee_mode :: ee_mode
  ee_got :: "u8 list"
  ee_at :: nat
  ee_mem :: "nat \<Rightarrow> u8"

definition ee_byte :: "u8 \<Rightarrow> ee \<Rightarrow> ee" where
  "ee_byte c e = (let got = ee_got e @ [c] in
     e\<lparr>ee_mode := Ack, ee_got := got, ee_at := if length got = 3 then address (got ! 1) (got ! 2) mod 8192 else ee_at e\<rparr>)"

definition ee_talk :: "ee \<Rightarrow> ee" where
  "ee_talk e = e\<lparr>ee_mode := Talk (msb_bits (ee_mem e (ee_at e)))\<rparr>"

definition ee_on :: "symbol \<Rightarrow> ee \<Rightarrow> ee" where
  "ee_on x e =
     (case x of
        START \<Rightarrow> e\<lparr>ee_mode := Listen [], ee_got := []\<rparr>
      | STOP \<Rightarrow> e\<lparr>ee_mode := Off\<rparr>
      | BIT b \<Rightarrow>
          (case ee_mode e of
             Off \<Rightarrow> e
           | Listen bs \<Rightarrow> (let bs = b # bs in if length bs = 8 then ee_byte (byte_of bs) e else e\<lparr>ee_mode := Listen bs\<rparr>)
           | Ack \<Rightarrow> if ee_got e = [0xa1] then ee_talk e else e\<lparr>ee_mode := Listen []\<rparr>
           | Talk bs \<Rightarrow> e\<lparr>ee_mode := if length bs \<le> 1 then Wait_ack else Talk (tl bs)\<rparr>
           | Wait_ack \<Rightarrow> if b then e\<lparr>ee_mode := Off\<rparr> else ee_talk (e\<lparr>ee_at := (ee_at e + 1) mod 8192\<rparr>)))"

definition ee_device :: "ee device" where
  "ee_device = \<lparr>dev_on = ee_on, dev_drives = \<lambda>e. case ee_mode e of Ack \<Rightarrow> False | Talk bs \<Rightarrow> hd bs | _ \<Rightarrow> True\<rparr>"

primrec store_page :: "nat \<Rightarrow> u8 list \<Rightarrow> (nat \<Rightarrow> u8) \<Rightarrow> nat \<Rightarrow> u8" where
  "store_page a [] f = f"
| "store_page a (d # ds) f = store_page (a - a mod 32 + (a + 1) mod 32) ds (f(a := d))"

lemma store_Cons: "store a (d # ds) f = store (Suc a) ds (f(a := d))"
  by (auto simp: store_def fun_eq_iff nth_Cons')

lemma store_page_within: "a mod 32 + length ds \<le> 32 \<Longrightarrow> store_page a ds f = store a ds f"
proof (induction ds arbitrary: a f)
  case Nil
  then show ?case by (auto simp: store_def fun_eq_iff)
next
  case (Cons d ds)
  show ?case
  proof (cases "ds = []")
    case True
    then show ?thesis by (auto simp: store_def fun_eq_iff)
  next
    case False
    then have "Suc (a mod 32) < 32" using Cons.prems by (cases ds) simp_all
    then have "(a + 1) mod 32 = a mod 32 + 1" by (simp add: mod_Suc)
    moreover from this have "a - a mod 32 + (a + 1) mod 32 = Suc a" using mod_less_eq_dividend [of a 32] by linarith
    ultimately show ?thesis using Cons.IH [of "Suc a"] Cons.prems by (simp only: store_page.simps store_Cons) simp
  qed
qed

definition ee_settle :: "ee \<Rightarrow> ee" where
  "ee_settle e = (case ee_got e of _ # hi # lo # ds \<Rightarrow> e\<lparr>ee_mem := store_page (address hi lo mod 8192) ds (ee_mem e)\<rparr> | _ \<Rightarrow> e)"

lemma address_within: "unat hi < 32 \<Longrightarrow> address hi lo < 8192" "address hi lo mod 32 = unat lo mod 32"
proof -
  have "unat lo < 256" using unsigned_less [of lo] by simp
  then show "unat hi < 32 \<Longrightarrow> address hi lo < 8192" unfolding address_def by linarith
  have "address hi lo = 32 * (unat hi * 8) + unat lo" by (simp add: address_def)
  then show "address hi lo mod 32 = unat lo mod 32" by (simp only: mod_mult_self4)
qed

lemma within_page: "unat hi < 32 \<Longrightarrow> unat lo mod 32 + n \<le> 32 \<Longrightarrow> address hi lo + n \<le> 8192"
proof -
  assume a: "unat hi < 32" "unat lo mod 32 + n \<le> 32"
  have "unat lo < 32 * 8" using unsigned_less [of lo] by simp
  then have "unat lo div 32 < 8" by (simp add: less_mult_imp_div_less)
  moreover have "unat lo = 32 * (unat lo div 32) + unat lo mod 32" by simp
  ultimately show "address hi lo + n \<le> 8192" using a unfolding address_def by linarith
qed

definition ee_ready :: "ee \<Rightarrow> bool" where
  "ee_ready e \<longleftrightarrow> ee_mode e = Off"

lemma ee_device_simps [simp]: "dev_on ee_device = ee_on"
  "dev_drives ee_device e = (case ee_mode e of Ack \<Rightarrow> False | Talk bs \<Rightarrow> hd bs | _ \<Rightarrow> True)"
  by (simp_all add: ee_device_def)

lemma msb_bits_list: "msb_bits c = [bit c 7, bit c 6, bit c 5, bit c 4, bit c 3, bit c 2, bit c 1, bit c 0]"
  by (simp add: msb_bits_def bits_of_def upt_rec) (simp add: numeral_eq_Suc)

lemma ee_byte_to:
  assumes "ee_mode e = Listen []"
  shows "byte_to ee_device c e = (ee_on (BIT False) (ee_byte c e), True)"
proof -
  have "byte_of (rev (msb_bits c)) = c" by (simp add: msb_bits_def)
  then have "byte_of [bit c 0, bit c 1, bit c 2, bit c 3, bit c 4, bit c 5, bit c 6, bit c 7] = c" by (simp add: msb_bits_list)
  then have "sees ee_device (map BIT (msb_bits c)) e = ee_byte c e"
    using assms by (simp add: msb_bits_list ee_on_def Let_def, simp add: ee_byte_def Let_def)
  then show ?thesis by (simp add: byte_to_def Let_def ee_byte_def)
qed

lemma ee_byte_from:
  assumes "ee_mode e = Talk (msb_bits d)"
  shows "byte_from ee_device e = (e\<lparr>ee_mode := Wait_ack\<rparr>, d)"
proof -
  have "bits_from ee_device 8 e = (e\<lparr>ee_mode := Wait_ack\<rparr>, msb_bits d)"
    using assms by (simp add: msb_bits_list ee_on_def numeral_eq_Suc)
  then show ?thesis by (simp add: byte_from_def msb_bits_def)
qed

text \<open>The bytes of a transfer that is not a read.\<close>

lemma ee_bytes_to:
  assumes "ee_mode e = Listen []" and "ee_got e @ cs \<noteq> []" and "hd (ee_got e @ cs) \<noteq> 0xa1"
  shows "\<exists>e'. bytes_to ee_device cs e = (e', True) \<and> ee_mode e' = Listen [] \<and> ee_got e' = ee_got e @ cs \<and> ee_mem e' = ee_mem e \<and>
    ee_at e' = (if length (ee_got e) < 3 \<and> 3 \<le> length (ee_got e @ cs) then address ((ee_got e @ cs) ! 1) ((ee_got e @ cs) ! 2) mod 8192 else ee_at e)"
  using assms
proof (induction cs arbitrary: e)
  case (Cons c cs)
  let ?e = "ee_on (BIT False) (ee_byte c e)"
  have "ee_got e @ [c] \<noteq> [0xa1]" using Cons.prems(3) by auto
  then have e: "ee_mode ?e = Listen []" "ee_got ?e = ee_got e @ [c]" "ee_mem ?e = ee_mem e"
    "ee_at ?e = (if length (ee_got e @ [c]) = 3 then address ((ee_got e @ [c]) ! 1) ((ee_got e @ [c]) ! 2) mod 8192 else ee_at e)"
    by (auto simp: ee_on_def ee_byte_def Let_def)
  obtain e' where e': "bytes_to ee_device cs ?e = (e', True)" "ee_mode e' = Listen []" "ee_got e' = ee_got e @ c # cs" "ee_mem e' = ee_mem e"
    "ee_at e' = (if length (ee_got e @ [c]) < 3 \<and> 3 \<le> length (ee_got e @ c # cs)
       then address ((ee_got e @ c # cs) ! 1) ((ee_got e @ c # cs) ! 2) mod 8192 else ee_at ?e)"
    using Cons.IH [of ?e] Cons.prems(3) e by auto
  have "ee_at e' = (if length (ee_got e) < 3 \<and> 3 \<le> length (ee_got e @ c # cs)
      then address ((ee_got e @ c # cs) ! 1) ((ee_got e @ c # cs) ! 2) mod 8192 else ee_at e)"
    using e'(5) e(4) by (auto simp: nth_append)
  then show ?case using e' ee_byte_to [OF Cons.prems(1), of c] by simp
qed simp

lemma ee_bytes_from:
  assumes "ee_mode e = Talk (msb_bits (ee_mem e (ee_at e)))" and "ee_at e + Suc n \<le> 8192"
  shows "\<exists>e'. bytes_from ee_device (Suc n) e = (e', map (ee_mem e) [ee_at e ..< ee_at e + Suc n]) \<and> ee_mem e' = ee_mem e"
  using assms
proof (induction n arbitrary: e)
  case 0
  then show ?case using ee_byte_from [OF "0.prems"(1)] by (simp add: ee_on_def)
next
  case (Suc n)
  let ?e = "ee_talk (e\<lparr>ee_mode := Wait_ack, ee_at := ee_at e + 1\<rparr>)"
  have "(ee_at e + 1) mod 8192 = ee_at e + 1" using Suc.prems(2) by simp
  then have t: "ee_on (BIT False) (e\<lparr>ee_mode := Wait_ack\<rparr>) = ?e" by (simp add: ee_on_def)
  have e: "ee_mode ?e = Talk (msb_bits (ee_mem ?e (ee_at ?e)))" "ee_mem ?e = ee_mem e" "ee_at ?e = Suc (ee_at e)" by (simp_all add: ee_talk_def)
  obtain e' where "bytes_from ee_device (Suc n) ?e = (e', map (ee_mem e) [Suc (ee_at e) ..< Suc (ee_at e) + Suc n])" "ee_mem e' = ee_mem e"
    using Suc.IH [OF e(1)] e(2,3) Suc.prems(2) by auto
  moreover have "[ee_at e ..< ee_at e + Suc (Suc n)] = ee_at e # [Suc (ee_at e) ..< Suc (ee_at e) + Suc n]" by (simp add: upt_conv_Cons)
  ultimately show ?case using ee_byte_from [OF Suc.prems(1)] t by (simp del: upt_Suc add: bytes_from.simps(2) [of _ "Suc n"])
qed

lemma ee_device_eeprom: "eeprom ee_device ee_ready ee_settle ee_mem"
proof -
  have w: "case bytes_to ee_device (0xa0 # hi # lo # ds) (dev_on ee_device START e) of (e', a) \<Rightarrow>
      a \<and> ee_ready (ee_settle (dev_on ee_device STOP e')) \<and> ee_mem (ee_settle (dev_on ee_device STOP e')) = store (address hi lo) ds (ee_mem e)"
    if in_page: "unat hi < 32" "unat lo mod 32 + length ds \<le> 32" for hi lo ds e
  proof -
    obtain e' where "bytes_to ee_device (0xa0 # hi # lo # ds) (ee_on START e) = (e', True)" "ee_got e' = 0xa0 # hi # lo # ds" "ee_mem e' = ee_mem e"
      using ee_bytes_to [of "ee_on START e" "0xa0 # hi # lo # ds"] by (auto simp: ee_on_def)
    then show ?thesis using store_page_within [of "address hi lo" ds] address_within [of hi lo] in_page
      by (simp del: bytes_to.simps) (simp add: ee_settle_def ee_ready_def ee_on_def)
  qed
  have r: "case bytes_to ee_device [0xa0, hi, lo] (dev_on ee_device START e) of (e1, a) \<Rightarrow> a \<and> dev_drives ee_device e1 \<and>
      (case bytes_to ee_device [0xa1] (dev_on ee_device START e1) of (e2, b) \<Rightarrow> b \<and>
        (case bytes_from ee_device (Suc n) e2 of (e3, ds) \<Rightarrow> ds = map (ee_mem e) [address hi lo ..< address hi lo + Suc n] \<and>
          ee_ready (dev_on ee_device STOP e3) \<and> ee_mem (dev_on ee_device STOP e3) = ee_mem e))"
    if in_page: "unat hi < 32" "unat lo mod 32 + Suc n \<le> 32" for hi lo n e
  proof -
    obtain e1 where 1: "bytes_to ee_device [0xa0, hi, lo] (ee_on START e) = (e1, True)" "ee_mode e1 = Listen []" "ee_mem e1 = ee_mem e"
      "ee_at e1 = address hi lo"
      using ee_bytes_to [of "ee_on START e" "[0xa0, hi, lo]"] address_within(1) [of hi lo] in_page by (auto simp: ee_on_def)
    let ?e2 = "ee_talk (ee_byte 0xa1 (ee_on START e1))"
    have 2: "bytes_to ee_device [0xa1] (ee_on START e1) = (?e2, True)"
      using ee_byte_to [of "ee_on START e1" "0xa1"] by (simp add: ee_on_def ee_byte_def Let_def)
    have t: "ee_mode ?e2 = Talk (msb_bits (ee_mem ?e2 (ee_at ?e2)))" "ee_mem ?e2 = ee_mem e" "ee_at ?e2 = address hi lo"
      using 1 by (simp_all add: ee_talk_def ee_byte_def ee_on_def Let_def)
    obtain e3 where "bytes_from ee_device (Suc n) ?e2 = (e3, map (ee_mem e) [address hi lo ..< address hi lo + Suc n])" "ee_mem e3 = ee_mem e"
      using ee_bytes_from [OF t(1), of n] t(2,3) within_page [OF in_page] by auto
    then show ?thesis using 1 2 by (simp del: bytes_to.simps bytes_from.simps upt_Suc) (simp add: ee_ready_def ee_on_def)
  qed
  show ?thesis unfolding eeprom_def by (intro allI impI conjI) ((rule w; assumption), (rule r; assumption))
qed

theorem log_refines_list_witness:
  "\<exists>s' e'. resting s' ((\<lambda>r. replicate 30 (of_nat r + 7))(1 := replicate 30 (7 :: u8))) [APPEND_LOG_DONE 1, READ_LOG_DONE 1 1] e'
    (append_and_read ee_device ee_settle 0 0 1
      (quiet_bus \<lparr>ee_mode = Off, ee_got = [], ee_at = 0, ee_mem = \<lambda>_. 0xff\<rparr> (\<lambda>r. replicate 30 (of_nat r + 7))))"
  using log_refines_list [OF ee_device_eeprom _ quiet_bus_resting, of "\<lparr>ee_mode = Off, ee_got = [], ee_at = 0, ee_mem = \<lambda>_. 0xff\<rparr>" "[]"
      "\<lambda>r. replicate 30 (of_nat r + 7)" 0 1 0]
  by (auto simp: ee_ready_def log_holds_def)

end
