(* ===== verification/AmRoute.thy ===== *)
theory AmRoute
  imports ActiveMsg
begin

text \<open>
  Multi-hop routing to a base station, \<open>aps_proj/AM_ROUTE.c\<close>, in both builds of the file: with
  \<open>BASE_STATION\<close> (the flag \<open>base\<close>), a node beacons route updates; without, it takes the sender of the first
  update of a period as its route, passes the update on with its own address added, forwards data messages
  along its route and sends its own readings. The frame's two buffers are in memory; \<open>data_buf\<close> and \<open>route_buf\<close> are
  their addresses.

  The lemmas: each handler on every branch, and what keeps a route.
\<close>

section \<open>State and operations\<close>

record am_route =
  rt_route :: u8
  rt_set :: u8
  rt_msg :: ptr
  data_send_pending :: u8
  route_send_pending :: u8
  rt_prev :: u16
  rt_count :: u8

datatype route_out =
    ROUTE_SUB_INIT
  | ROUTE_DATA_INIT
  | ROUTE_SUB_CLOCK_INIT u8 u8
  | ROUTE_LED1_TOGGLE
  | ROUTE_LED2_OFF
  | ROUTE_LED3_OFF
  | ROUTE_LED3_ON
  | ROUTE_SUB_READ
  | ROUTE_SUB_SEND_MSG u8 u8 ptr

text \<open>The handler numbers of the wiring \<open>apps/router.desc\<close>.\<close>

definition AM_ROUTE_UPDATE :: u8 where "AM_ROUTE_UPDATE = 5"
definition AM_DATA_MSG :: u8 where "AM_DATA_MSG = 6"

text \<open>Byte \<open>i\<close> of the data of a message, counted as C counts; the header and the signal strength are part of the
  same object, anything else is not.\<close>

definition data_index :: "int \<Rightarrow> nat option" where
  "data_index i = (if - 3 \<le> i \<and> i < 32 then Some (nat (i + 3)) else None)"

definition AM_ROUTE_INIT :: "bool \<Rightarrow> u8 \<Rightarrow> ptr \<Rightarrow> ptr \<Rightarrow> am_route \<times> memory \<Rightarrow> (am_route \<times> memory) \<times> route_out list \<times> u8" where
  "AM_ROUTE_INIT base local data_buf route_buf st =
     (case st of (s, mem) \<Rightarrow>
        let s = s\<lparr>rt_msg := route_buf, data_send_pending := 0, route_send_pending := 0\<rparr>
        in if base then
             ((s\<lparr>rt_route := TOS_UART_ADDR, rt_set := 1\<rparr>, mem(data_buf := ((mem data_buf)[3 := 1])[4 := local])),
              [ROUTE_SUB_INIT, ROUTE_DATA_INIT, ROUTE_SUB_CLOCK_INIT 255 6], 1)
           else
             ((s\<lparr>rt_set := 0, rt_route := 0, rt_count := 0\<rparr>, mem), [ROUTE_SUB_INIT, ROUTE_DATA_INIT, ROUTE_SUB_CLOCK_INIT 255 3], 1))"

definition AM_ROUTE_START :: "am_route \<Rightarrow> am_route \<times> u8" where
  "AM_ROUTE_START s = (s, 1)"

text \<open>\<open>None\<close>: the path length in the message leads outside the message.\<close>

definition ROUTE_UPDATE :: "u8 \<Rightarrow> ptr \<Rightarrow> am_route \<times> memory \<Rightarrow> ((am_route \<times> memory) \<times> route_out list \<times> ptr) option" where
  "ROUTE_UPDATE local msg st =
     (case st of (s, mem) \<Rightarrow>
        let data = mem msg in
        if sint (data ! 3) < 30 then
          (if rt_set s = 0 then
             (case data_index (sint (data ! 3)) of None \<Rightarrow> None | Some i \<Rightarrow>
                let s = s\<lparr>rt_route := data ! i, rt_set := 8\<rparr>;
                    data = data[3 := data ! 3 + 1]
                in (case data_index (sint (data ! 3)) of None \<Rightarrow> None | Some j \<Rightarrow>
                      let mem = mem(msg := data[j := local])
                      in if route_send_pending s = 0 then
                           Some ((s\<lparr>route_send_pending := 1, rt_msg := msg\<rparr>, mem),
                             [ROUTE_LED2_OFF, ROUTE_SUB_SEND_MSG TOS_BCAST_ADDR AM_ROUTE_UPDATE msg], rt_msg s)
                         else Some ((s, mem), [ROUTE_LED2_OFF], msg)))
           else Some ((s, mem), [ROUTE_LED2_OFF], msg))
        else Some ((s, mem), [], msg))"

text \<open>The message's data with the local address put before the addresses it came through.\<close>

definition trace_hop :: "u8 \<Rightarrow> u8 list \<Rightarrow> u8 list" where
  "trace_hop local d =
     (let d = d[8 := d ! 7]; d = d[7 := d ! 6]; d = d[6 := d ! 5]; d = d[5 := d ! 4] in d[4 := local])"

definition DATA_MSG :: "u8 \<Rightarrow> ptr \<Rightarrow> am_route \<times> memory \<Rightarrow> (am_route \<times> memory) \<times> route_out list \<times> ptr" where
  "DATA_MSG local msg st =
     (case st of (s, mem) \<Rightarrow>
        if rt_route s \<noteq> 0 then
          (let mem = mem(msg := trace_hop local (mem msg))
           in if route_send_pending s = 0 then
                ((s\<lparr>route_send_pending := 1, rt_msg := msg\<rparr>, mem),
                 [ROUTE_LED2_OFF, ROUTE_SUB_SEND_MSG (rt_route s) AM_DATA_MSG msg], rt_msg s)
              else ((s, mem), [ROUTE_LED2_OFF], msg))
        else ((s, mem), [ROUTE_LED2_OFF], msg))"

definition AM_ROUTE_SUB_CLOCK :: "bool \<Rightarrow> ptr \<Rightarrow> am_route \<times> memory \<Rightarrow> (am_route \<times> memory) \<times> route_out list" where
  "AM_ROUTE_SUB_CLOCK base data_buf st =
     (case st of (s, mem) \<Rightarrow>
        if base then
          (if data_send_pending s = 0 then
             ((s\<lparr>data_send_pending := 1\<rparr>, mem),
              [ROUTE_LED3_OFF, ROUTE_SUB_SEND_MSG TOS_BCAST_ADDR AM_ROUTE_UPDATE data_buf, ROUTE_LED1_TOGGLE])
           else ((s, mem), [ROUTE_LED3_OFF, ROUTE_LED1_TOGGLE]))
        else
          ((if 0 <s rt_set s then s\<lparr>rt_set := rt_set s - 1\<rparr> else s, mem),
           [ROUTE_LED3_OFF, ROUTE_SUB_READ, ROUTE_LED1_TOGGLE]))"

text \<open>\<open>data\<close> is a reading, 16 bits.\<close>

definition ROUTE_SUB_DATA_READY ::
    "u8 \<Rightarrow> ptr \<Rightarrow> u16 \<Rightarrow> am_route \<times> memory \<Rightarrow> (am_route \<times> memory) \<times> route_out list \<times> u8" where
  "ROUTE_SUB_DATA_READY local data_buf data st =
     (case st of (s, mem) \<Rightarrow>
        let (s, mem, out) =
          (if rt_route s \<noteq> 0 \<and> (100 <s rt_prev s - data \<or> 100 <s data - rt_prev s \<or> 10 <s rt_count s) then
             (let mem = mem(data_buf := (mem data_buf)[9 := ucast (signed_drop_bit 8 data)]);
                  mem = mem(data_buf := (mem data_buf)[10 := ucast (data AND 0xff)]);
                  mem = mem(data_buf := (mem data_buf)[3 := local])
              in if data_send_pending s = 0 then
                   (s\<lparr>data_send_pending := 1, rt_count := 0\<rparr>, mem,
                    [ROUTE_SUB_SEND_MSG (rt_route s) AM_DATA_MSG data_buf, ROUTE_LED3_ON])
                 else (s\<lparr>rt_count := 0\<rparr>, mem, [ROUTE_LED3_ON]))
           else (s, mem, []))
        in ((s\<lparr>rt_prev := data, rt_count := rt_count s + 1\<rparr>, mem), out, 1))"

definition ROUTE_SEND_DONE :: "ptr \<Rightarrow> ptr \<Rightarrow> am_route \<Rightarrow> am_route \<times> u8" where
  "ROUTE_SEND_DONE data_buf data s =
     (let s = (if data = rt_msg s then s\<lparr>route_send_pending := 0\<rparr> else s);
          s = (if data = data_buf then s\<lparr>data_send_pending := 0\<rparr> else s)
      in (s, 1))"

section \<open>Handlers\<close>

lemmas route_handlers = ROUTE_UPDATE_def DATA_MSG_def AM_ROUTE_SUB_CLOCK_def ROUTE_SUB_DATA_READY_def ROUTE_SEND_DONE_def

text \<open>The messages handed to the messaging layer.\<close>

definition sends :: "route_out list \<Rightarrow> (u8 \<times> u8 \<times> ptr) list" where
  "sends out = [(a, t, p). ROUTE_SUB_SEND_MSG a t p \<leftarrow> out]"

lemma sends_simps [simp]:
  "sends [] = []" "sends (ROUTE_SUB_SEND_MSG a t p # out) = (a, t, p) # sends out"
  "sends (ROUTE_LED1_TOGGLE # out) = sends out" "sends (ROUTE_LED2_OFF # out) = sends out" "sends (ROUTE_LED3_OFF # out) = sends out"
  "sends (ROUTE_LED3_ON # out) = sends out" "sends (ROUTE_SUB_READ # out) = sends out"
  "sends (ROUTE_SUB_INIT # out) = sends out" "sends (ROUTE_DATA_INIT # out) = sends out" "sends (ROUTE_SUB_CLOCK_INIT i c # out) = sends out"
  by (simp_all add: sends_def)

text \<open>An update whose path has \<open>k\<close> addresses, of at most 29.\<close>

lemma route_update_new:
  assumes "length (mem msg) = sizeof_TOS_Msg" and "mem msg ! 3 = of_nat k" and "k < 30" and "rt_set s = 0"
  shows "ROUTE_UPDATE local msg (s, mem) =
    (let s' = s\<lparr>rt_route := mem msg ! (k + 3), rt_set := 8\<rparr>;
         mem' = mem(msg := ((mem msg)[3 := of_nat (Suc k)])[k + 4 := local])
     in if route_send_pending s = 0
        then Some ((s'\<lparr>route_send_pending := 1, rt_msg := msg\<rparr>, mem'),
          [ROUTE_LED2_OFF, ROUTE_SUB_SEND_MSG TOS_BCAST_ADDR AM_ROUTE_UPDATE msg], rt_msg s)
        else Some ((s', mem'), [ROUTE_LED2_OFF], msg))"
proof -
  have k: "sint (of_nat n :: u8) = int n" if "n < 31" for n
    using that by (simp add: signed_of_nat signed_take_bit_int_eq_self)
  have "(of_nat k :: u8) + 1 = of_nat (Suc k)" by simp
  then have k1: "mem msg ! 3 + 1 = of_nat (Suc k)" using assms(2) by simp
  have s: "sint (mem msg ! 3) = int k" "sint ((mem msg)[3 := of_nat (Suc k)] ! 3) = int (Suc k)"
    using assms(1-3) k [of k] k [of "Suc k"] by (simp_all add: sizeof_TOS_Msg_def del: of_nat_Suc)
  have "nat (int k + 3) = k + 3" "nat (int (Suc k) + 3) = k + 4" by simp_all
  then show ?thesis using assms(3,4) s by (simp add: ROUTE_UPDATE_def data_index_def k1 Let_def del: of_nat_Suc)
qed

lemma route_update_kept:
  "30 \<le> sint (mem msg ! 3) \<or> rt_set s \<noteq> 0 \<Longrightarrow> ROUTE_UPDATE local msg (s, mem) = Some (st, out, p) \<Longrightarrow> st = (s, mem) \<and> sends out = []"
  by (auto simp: ROUTE_UPDATE_def Let_def split: if_splits)

text \<open>Only an update changes a route, and only a clock event ends a period.\<close>

lemma data_msg_route: "DATA_MSG local msg (s, mem) = ((s', mem'), out, p) \<Longrightarrow>
    rt_route s' = rt_route s \<and> rt_set s' = rt_set s \<and> (\<forall>q. q \<noteq> msg \<longrightarrow> mem' q = mem q) \<and> (\<forall>(a, t, q) \<in> set (sends out). t = AM_DATA_MSG \<and> q = msg)"
  by (auto simp: DATA_MSG_def Let_def split: if_splits)

lemma data_ready_route: "ROUTE_SUB_DATA_READY local data_buf d (s, mem) = ((s', mem'), out, r) \<Longrightarrow>
    rt_route s' = rt_route s \<and> rt_set s' = rt_set s \<and> (\<forall>q. q \<noteq> data_buf \<longrightarrow> mem' q = mem q) \<and> (\<forall>(a, t, q) \<in> set (sends out). t = AM_DATA_MSG \<and> q = data_buf)"
  by (auto simp: ROUTE_SUB_DATA_READY_def Let_def split: if_splits)

lemma send_done_route: "rt_route (fst (ROUTE_SEND_DONE data_buf p s)) = rt_route s \<and> rt_set (fst (ROUTE_SEND_DONE data_buf p s)) = rt_set s"
  by (simp add: ROUTE_SEND_DONE_def Let_def)

lemma tick_route: "AM_ROUTE_SUB_CLOCK False data_buf (s, mem) = ((s', mem'), out) \<Longrightarrow>
    rt_route s' = rt_route s \<and> mem' = mem \<and> sends out = [] \<and> (rt_set s \<noteq> 1 \<longrightarrow> (rt_set s' = 0 \<longleftrightarrow> rt_set s = 0))"
  by (auto simp: AM_ROUTE_SUB_CLOCK_def split: if_splits)

lemma length_trace_hop [simp]: "length (trace_hop local d) = length d"
  by (simp add: trace_hop_def Let_def)

lemma trace_hop_trace:
  assumes "length d = sizeof_TOS_Msg"
  shows "take 5 (drop 4 (trace_hop local d)) = take 5 (local # take 5 (drop 4 d))"
proof -
  have "i < 5 \<longleftrightarrow> i = 0 \<or> i = 1 \<or> i = 2 \<or> i = 3 \<or> i = 4" for i :: nat by auto
  then show ?thesis
    using assms by (auto simp: trace_hop_def Let_def list_eq_iff_nth_eq sizeof_TOS_Msg_def nth_list_update nth_Cons')
qed

end
