(* ===== verification/RouteNet.thy ===== *)
theory RouteNet
  imports AmRoute
begin

text \<open>
  A network of nodes that run \<open>AM_ROUTE\<close>, each named by its address, one of them the base station, within one period: from the start until
  the route of some node expires. What a node hands to the messaging layer and the layer accepts may arrive at any
  neighbour, any number of times, at any later time, with another header, or never; clock events, readings, data messages and reports of
  sent messages come in any order.

  The theorems: the routes are a tree with the base station at its root, and a data message follows it there.
\<close>

section \<open>Nodes and steps\<close>

type_synonym route_packet = "u8 \<times> u8 \<times> u8 list"
type_synonym route_net = "(u8 \<Rightarrow> am_route \<times> memory) \<times> route_packet set"

text \<open>What the messaging layer does with a message it accepts: its header, and the message in the air.\<close>

definition headed :: "u8 \<Rightarrow> route_out list \<Rightarrow> memory \<Rightarrow> memory" where
  "headed grp out mem = fold (\<lambda>(a, t, p) mem. mem(p := with_header grp a t (mem p))) (sends out) mem"

definition route_packets :: "u8 \<Rightarrow> route_out list \<Rightarrow> memory \<Rightarrow> route_packet set" where
  "route_packets n out mem = {(n, t, mem p) | a t p. (a, t, p) \<in> set (sends out)}"

definition route_update :: "u8 \<Rightarrow> u8 \<Rightarrow> bool \<Rightarrow> (am_route \<times> memory) \<times> route_out list \<Rightarrow> route_net \<Rightarrow> route_net" where
  "route_update grp n accepted r N =
     (case r of ((s, mem), out) \<Rightarrow>
        if accepted then ((fst N)(n := (s, headed grp out mem)), snd N \<union> route_packets n out (headed grp out mem))
        else ((fst N)(n := (s, mem)), snd N))"

text \<open>What arrives: the data are those sent, in the buffer of the radio.\<close>

definition arrives :: "route_net \<Rightarrow> (u8 \<times> u8) set \<Rightarrow> ptr \<Rightarrow> u8 \<Rightarrow> u8 \<Rightarrow> ptr \<Rightarrow> u8 list \<Rightarrow> u8 \<Rightarrow> bool" where
  "arrives N link data_buf n t p c m \<longleftrightarrow> (m, n) \<in> link \<and> p \<noteq> data_buf \<and> length c = sizeof_TOS_Msg \<and>
     (\<exists>c'. (m, t, c') \<in> snd N \<and> data_of c' 30 = data_of c 30)"

inductive route_reach :: "u8 \<Rightarrow> u8 \<Rightarrow> ptr \<Rightarrow> (u8 \<times> u8) set \<Rightarrow> route_net \<Rightarrow> bool"
  for grp base data_buf link where
  start: "(\<And>n. length (snd (g n) data_buf) = sizeof_TOS_Msg) \<Longrightarrow>
    (\<And>n. fst (AM_ROUTE_INIT (n = base) n data_buf (buf n) (g n)) = f n) \<Longrightarrow>
    route_reach grp base data_buf link (f, {})"
| clock: "route_reach grp base data_buf link N \<Longrightarrow> n = base \<or> rt_set (fst (fst N n)) \<noteq> 1 \<Longrightarrow>
    route_reach grp base data_buf link (route_update grp n accepted (AM_ROUTE_SUB_CLOCK (n = base) data_buf (fst N n)) N)"
| update: "route_reach grp base data_buf link N \<Longrightarrow> arrives N link data_buf n AM_ROUTE_UPDATE p c m \<Longrightarrow>
    ROUTE_UPDATE n p (fst (fst N n), (snd (fst N n))(p := c)) = Some (st, out, q) \<Longrightarrow>
    route_reach grp base data_buf link (route_update grp n accepted (st, out) N)"
| data: "route_reach grp base data_buf link N \<Longrightarrow> arrives N link data_buf n AM_DATA_MSG p c m \<Longrightarrow>
    DATA_MSG n p (fst (fst N n), (snd (fst N n))(p := c)) = (st, out, q) \<Longrightarrow>
    route_reach grp base data_buf link (route_update grp n accepted (st, out) N)"
| reading: "route_reach grp base data_buf link N \<Longrightarrow> n \<noteq> base \<Longrightarrow>
    ROUTE_SUB_DATA_READY n data_buf d (fst N n) = (st, out, r) \<Longrightarrow>
    route_reach grp base data_buf link (route_update grp n accepted (st, out) N)"
| send_done: "route_reach grp base data_buf link N \<Longrightarrow>
    route_reach grp base data_buf link
      (route_update grp n accepted ((fst (ROUTE_SEND_DONE data_buf p (fst (fst N n))), snd (fst N n)), []) N)"

section \<open>Chains of routes\<close>

definition route_of :: "route_net \<Rightarrow> u8 \<Rightarrow> u8 option" where
  "route_of N n = (if rt_set (fst (fst N n)) = 0 then None else Some (rt_route (fst (fst N n))))"

text \<open>A path of links from the base, each node's route the one before it.\<close>

inductive chain :: "u8 \<Rightarrow> (u8 \<times> u8) set \<Rightarrow> (u8 \<Rightarrow> u8 option) \<Rightarrow> u8 list \<Rightarrow> bool"
  for base link r where
  base: "chain base link r [base]"
| more: "chain base link r p \<Longrightarrow> n \<noteq> base \<Longrightarrow> (last p, n) \<in> link \<Longrightarrow> r n = Some (last p) \<Longrightarrow>
    chain base link r (p @ [n])"

lemma chain_not_empty: "chain base link r p \<Longrightarrow> p \<noteq> []"
  by (induction rule: chain.induct) simp_all

lemma chain_hd: "chain base link r p \<Longrightarrow> hd p = base"
  by (induction rule: chain.induct) (simp_all add: hd_append chain_not_empty)

lemma chain_known: "chain base link r p \<Longrightarrow> n \<in> set p \<Longrightarrow> n = base \<or> r n \<noteq> None"
  by (induction rule: chain.induct) auto

lemma chain_links:
  "chain base link r p \<Longrightarrow> Suc i < length p \<Longrightarrow> (p ! i, p ! Suc i) \<in> link \<and> r (p ! Suc i) = Some (p ! i)"
proof (induction arbitrary: i rule: chain.induct)
  case (more p n)
  show ?case
  proof (cases "Suc i < length p")
    case True
    then show ?thesis using more.IH [of i] by (simp add: nth_append)
  next
    case False
    then have "i = length p - 1" using more.prems by simp
    then show ?thesis using more.hyps chain_not_empty [OF more.hyps(1)] by (simp add: nth_append last_conv_nth)
  qed
qed simp

text \<open>Nodes that get a route change nothing for the chains there are.\<close>

lemma chain_mono:
  assumes "chain base link r p" and "\<And>n. n \<noteq> base \<Longrightarrow> r n \<noteq> None \<Longrightarrow> r' n = r n"
  shows "chain base link r' p"
  using assms(1) by (induction rule: chain.induct) (auto intro!: chain.intros simp: assms(2))

text \<open>There is one chain to a node, and no cycle.\<close>

inductive_cases chain_cases: "chain base link r p"

lemma chain_unique:
  assumes "chain base link r p" and "chain base link r q" and "last p = last q"
  shows "p = q"
  using assms(1-3)
proof (induction arbitrary: q rule: chain.induct)
  case base
  then show ?case using chain_not_empty by (auto elim: chain_cases)
next
  case (more p n)
  from more.prems(1) show ?case
  proof (cases rule: chain.cases)
    case base
    then show ?thesis using more by simp
  next
    case (more q' m)
    then have "m = n" "last q' = last p" using \<open>r n = Some (last p)\<close> \<open>last (p @ [n]) = last q\<close> by auto
    then have "p = q'" using more \<open>\<And>q. chain base link r q \<Longrightarrow> last p = last q \<Longrightarrow> p = q\<close> by auto
    with more \<open>m = n\<close> show ?thesis by simp
  qed
qed

lemma chain_distinct:
  assumes "chain base link r p"
  shows "distinct p \<and> (\<forall>n \<in> set p. \<exists>q. chain base link r q \<and> last q = n \<and> length q \<le> length p)"
  using assms
proof (induction rule: chain.induct)
  case base
  then show ?case by (auto intro: chain.base)
next
  case (more p n)
  have new: "chain base link r (p @ [n])" using more by (intro chain.more)
  have "n \<notin> set p"
  proof
    assume "n \<in> set p"
    then obtain q where "chain base link r q" "last q = n" "length q \<le> length p" using more.IH by blast
    then have "q = p @ [n]" using chain_unique [OF _ new] by simp
    with \<open>length q \<le> length p\<close> show False by simp
  qed
  then show ?case using more.IH new by (auto intro: le_SucI)
qed

definition route_graph :: "u8 \<Rightarrow> (u8 \<Rightarrow> u8 option) \<Rightarrow> (u8 \<times> u8) set" where
  "route_graph base r = {(n, m). n \<noteq> base \<and> r n = Some m}"

lemma route_graph_acyclic:
  assumes "\<And>n. n \<noteq> base \<Longrightarrow> r n \<noteq> None \<Longrightarrow> \<exists>p. chain base link r p \<and> last p = n"
  shows "acyclic (route_graph base r)"
proof -
  define depth where "depth n = length (THE p. chain base link r p \<and> last p = n)" for n
  have depth: "depth (last p) = length p" if "chain base link r p" for p
  proof -
    have "(THE q. chain base link r q \<and> last q = last p) = p"
      using that chain_unique [OF _ that] by blast
    then show ?thesis by (simp add: depth_def)
  qed
  show ?thesis
  proof (rule acyclicI_order [of _ depth])
    fix n m assume "(n, m) \<in> route_graph base r"
    then have n: "n \<noteq> base" "r n = Some m" by (simp_all add: route_graph_def)
    then obtain p where p: "chain base link r p" "last p = n" using assms(1) by blast
    from p(1) show "depth m < depth n"
    proof (cases rule: chain.cases)
      case base
      then show ?thesis using n(1) p(2) by simp
    next
      case (more q k)
      then have "k = n" "last q = m" using n(2) p(2) by auto
      then show ?thesis using depth [OF more(2)] depth [OF p(1)] p(2) more(1) by simp
    qed
  qed
qed

section \<open>The invariant\<close>

text \<open>An update carries the addresses of a chain to its sender.\<close>

definition update_ok :: "u8 \<Rightarrow> (u8 \<times> u8) set \<Rightarrow> (u8 \<Rightarrow> u8 option) \<Rightarrow> u8 \<Rightarrow> u8 list \<Rightarrow> bool" where
  "update_ok base link r m c \<longleftrightarrow> (\<exists>p. chain base link r p \<and> last p = m \<and> length p \<le> 30 \<and> length c = sizeof_TOS_Msg \<and>
     c ! 3 = of_nat (length p) \<and> (\<forall>i < length p. c ! (4 + i) = p ! i))"

definition beacon_ok :: "u8 \<Rightarrow> am_route \<Rightarrow> u8 list \<Rightarrow> bool" where
  "beacon_ok local s d \<longleftrightarrow> rt_set s \<noteq> 0 \<and> rt_route s = TOS_UART_ADDR \<and> length d = sizeof_TOS_Msg \<and> d ! 3 = 1 \<and> d ! 4 = local"

definition route_ok :: "u8 \<Rightarrow> ptr \<Rightarrow> (u8 \<times> u8) set \<Rightarrow> route_net \<Rightarrow> bool" where
  "route_ok base data_buf link N \<longleftrightarrow>
     beacon_ok base (fst (fst N base)) (snd (fst N base) data_buf) \<and>
     (\<forall>n. n \<noteq> base \<longrightarrow> route_of N n \<noteq> None \<longrightarrow> (\<exists>p. chain base link (route_of N) p \<and> last p = n \<and> length p \<le> 30)) \<and>
     (\<forall>m c. (m, AM_ROUTE_UPDATE, c) \<in> snd N \<longrightarrow> update_ok base link (route_of N) m c)"

lemma update_ok_mono:
  "update_ok base link r m c \<Longrightarrow> (\<And>n. n \<noteq> base \<Longrightarrow> r n \<noteq> None \<Longrightarrow> r' n = r n) \<Longrightarrow> update_ok base link r' m c"
  unfolding update_ok_def by (metis chain_mono)

text \<open>A step of node \<open>n\<close> that keeps its route, and hands over no update, or the beacon.\<close>

lemma route_ok_quiet:
  assumes "route_ok base data_buf link N" and "route_of N' = route_of N"
    and "beacon_ok base (fst (fst N' base)) (snd (fst N' base) data_buf)"
    and "\<And>m c. (m, AM_ROUTE_UPDATE, c) \<in> snd N' \<Longrightarrow> (m, AM_ROUTE_UPDATE, c) \<in> snd N \<or> m = base \<and> length c = sizeof_TOS_Msg \<and> c ! 3 = 1 \<and> c ! 4 = base"
  shows "route_ok base data_buf link N'"
proof -
  have "update_ok base link (route_of N) base c" if "length c = sizeof_TOS_Msg" "c ! 3 = 1" "c ! 4 = base" for c
    unfolding update_ok_def using that by (intro exI [of _ "[base]"]) (simp add: chain.base)
  then show ?thesis using assms unfolding route_ok_def by metis
qed

lemma AM_ROUTE_types [simp]: "AM_DATA_MSG \<noteq> AM_ROUTE_UPDATE" "AM_ROUTE_UPDATE \<noteq> AM_DATA_MSG"
  by (simp_all add: AM_DATA_MSG_def AM_ROUTE_UPDATE_def)

lemma headed_data:
  "length (mem p) = sizeof_TOS_Msg \<Longrightarrow> length (headed grp out mem p) = sizeof_TOS_Msg \<and> drop 3 (headed grp out mem p) = drop 3 (mem p)"
proof -
  have "length (fold (\<lambda>(a, t, p) mem. mem(p := with_header grp a t (mem p))) xs mem p) = sizeof_TOS_Msg \<and>
      drop 3 (fold (\<lambda>(a, t, p) mem. mem(p := with_header grp a t (mem p))) xs mem p) = drop 3 (mem p)"
    if "length (mem p) = sizeof_TOS_Msg" for xs mem
    using that by (induction xs arbitrary: mem) (auto split: prod.splits)
  then show "length (mem p) = sizeof_TOS_Msg \<Longrightarrow> length (headed grp out mem p) = sizeof_TOS_Msg \<and> drop 3 (headed grp out mem p) = drop 3 (mem p)"
    unfolding headed_def by blast
qed

lemma headed_nth: "length (mem p) = sizeof_TOS_Msg \<Longrightarrow> 3 \<le> i \<Longrightarrow> i < sizeof_TOS_Msg \<Longrightarrow> headed grp out mem p ! i = mem p ! i"
proof -
  assume a: "length (mem p) = sizeof_TOS_Msg" "3 \<le> i" "i < sizeof_TOS_Msg"
  have "drop 3 (headed grp out mem p) ! (i - 3) = drop 3 (mem p) ! (i - 3)" using headed_data [of mem p grp out, OF a(1)] by simp
  moreover have "3 + (i - 3) = i" using a(2) by simp
  ultimately show ?thesis using a conjunct1 [OF headed_data [of mem p grp out, OF a(1)]] by (simp add: sizeof_TOS_Msg_def)
qed

lemma headed_beacon: "beacon_ok a s (mem p) \<Longrightarrow> beacon_ok a s (headed grp out mem p)"
  using headed_data [of mem p grp out] headed_nth [of mem p _ grp out] by (simp add: beacon_ok_def) (simp add: sizeof_TOS_Msg_def)

text \<open>The state of the node after a step, and what is in the air.\<close>

lemma route_update_cases:
  "\<exists>mem'. fst (route_update grp n accepted ((s, mem), out) N) = (fst N)(n := (s, mem')) \<and> (mem' = mem \<or> mem' = headed grp out mem) \<and>
    (\<forall>m t c. (m, t, c) \<in> snd (route_update grp n accepted ((s, mem), out) N) \<longrightarrow>
      (m, t, c) \<in> snd N \<or> m = n \<and> (\<exists>a p. (a, t, p) \<in> set (sends out) \<and> c = headed grp out mem p))"
  by (rule exI [of _ "if accepted then headed grp out mem else mem"]) (auto simp: route_update_def route_packets_def)

lemma route_step_quiet:
  assumes "route_ok base data_buf link N"
    and "rt_route s = rt_route (fst (fst N n))" and "rt_set s = 0 \<longleftrightarrow> rt_set (fst (fst N n)) = 0"
    and "n = base \<Longrightarrow> mem data_buf = snd (fst N base) data_buf"
    and "\<And>a p. (a, AM_ROUTE_UPDATE, p) \<in> set (sends out) \<Longrightarrow> n = base \<and> p = data_buf"
  shows "route_ok base data_buf link (route_update grp n accepted ((s, mem), out) N)"
proof -
  let ?N = "route_update grp n accepted ((s, mem), out) N"
  obtain mem' where N': "fst ?N = (fst N)(n := (s, mem'))" "mem' = mem \<or> mem' = headed grp out mem"
    "\<And>m t c. (m, t, c) \<in> snd ?N \<Longrightarrow> (m, t, c) \<in> snd N \<or> m = n \<and> (\<exists>a p. (a, t, p) \<in> set (sends out) \<and> c = headed grp out mem p)"
    using route_update_cases [of grp n accepted s mem out N] by blast
  have b: "beacon_ok base (fst (fst N base)) (snd (fst N base) data_buf)" using assms(1) by (simp add: route_ok_def)
  then have nb: "n = base \<Longrightarrow> beacon_ok base s (mem data_buf)" using assms(2-4) by (simp add: beacon_ok_def)
  show ?thesis
  proof (rule route_ok_quiet [OF assms(1)])
    show "route_of ?N = route_of N" using N'(1) assms(2,3) by (auto simp: route_of_def fun_eq_iff)
    show "beacon_ok base (fst (fst ?N base)) (snd (fst ?N base) data_buf)"
      using N'(1,2) b nb headed_beacon by fastforce
    fix m c assume "(m, AM_ROUTE_UPDATE, c) \<in> snd ?N"
    then show "(m, AM_ROUTE_UPDATE, c) \<in> snd N \<or> m = base \<and> length c = sizeof_TOS_Msg \<and> c ! 3 = 1 \<and> c ! 4 = base"
      using N'(3) assms(5) nb headed_beacon [of base s mem data_buf grp out] by (fastforce simp: beacon_ok_def)
  qed
qed

text \<open>The step that gives a node its route.\<close>

lemma data_of_nth: "data_of c 30 = data_of d 30 \<Longrightarrow> length c = sizeof_TOS_Msg \<Longrightarrow> length d = sizeof_TOS_Msg \<Longrightarrow> 3 \<le> i \<Longrightarrow> i < 33 \<Longrightarrow> c ! i = d ! i"
proof -
  assume a: "data_of c 30 = data_of d 30" "length c = sizeof_TOS_Msg" "length d = sizeof_TOS_Msg" "3 \<le> i" "i < 33"
  have "take 30 (drop 3 c) ! (i - 3) = take 30 (drop 3 d) ! (i - 3)" using a(1) by (simp add: data_of_def)
  then show ?thesis using a(2-5) by (simp add: sizeof_TOS_Msg_def)
qed

lemma route_step_update:
  assumes ok: "route_ok base data_buf link N" and arr: "arrives N link data_buf n AM_ROUTE_UPDATE p c m"
    and step: "ROUTE_UPDATE n p (fst (fst N n), (snd (fst N n))(p := c)) = Some (st, out, q)"
  shows "route_ok base data_buf link (route_update grp n accepted (st, out) N)"
proof -
  let ?s = "fst (fst N n)" and ?mem = "(snd (fst N n))(p := c)"
  have p: "p \<noteq> data_buf" "length c = sizeof_TOS_Msg" "(m, n) \<in> link" using arr by (simp_all add: arrives_def)
  obtain c' where c': "(m, AM_ROUTE_UPDATE, c') \<in> snd N" "data_of c' 30 = data_of c 30" using arr by (auto simp: arrives_def)
  have "update_ok base link (route_of N) m c'" using ok c'(1) by (simp add: route_ok_def)
  then obtain ch where ch: "chain base link (route_of N) ch" "last ch = m" "length ch \<le> 30" "length c' = sizeof_TOS_Msg"
    "c' ! 3 = of_nat (length ch)" "\<forall>i < length ch. c' ! (4 + i) = ch ! i" unfolding update_ok_def by blast
  have c: "c ! i = c' ! i" if "3 \<le> i" "i < 33" for i using data_of_nth [OF c'(2) ch(4) p(2) that] by simp
  have k: "c ! 3 = of_nat (length ch)" using c [of 3] ch(5) by simp
  show ?thesis
  proof (cases "rt_set ?s \<noteq> 0 \<or> length ch = 30")
    case True
    have "sint (of_nat 30 :: u8) = 30" by simp
    then have "30 \<le> sint (?mem p ! 3) \<or> rt_set ?s \<noteq> 0" using True k by auto
    from route_update_kept [OF this step] have "st = (?s, ?mem)" "sends out = []" by simp_all
    then show ?thesis by (simp, intro route_step_quiet [OF ok]) (use p(1) in simp_all)
  next
    case False
    then have s: "rt_set ?s = 0" "length ch < 30" using ch(3) by simp_all
    have nb: "n \<noteq> base" using s(1) ok by (auto simp: route_ok_def beacon_ok_def)
    let ?c = "(c[3 := of_nat (Suc (length ch))])[length ch + 4 := n]"
    have pos: "0 < length ch" "ch ! (length ch - 1) = m" using chain_not_empty [OF ch(1)] ch(2) by (simp_all add: last_conv_nth)
    have at: "4 + (length ch - 1) = length ch + 3" using pos(1) by linarith
    have "c' ! (4 + (length ch - 1)) = ch ! (length ch - 1)" using ch(6) pos(1) by simp
    then have route: "c ! (length ch + 3) = m" unfolding at pos(2) using c [of "length ch + 3"] s(2) by simp
    note new = route_update_new [of ?mem p "length ch" ?s n, simplified, OF p(2) k s(2,1), unfolded route]
    obtain s' where s': "st = (s', (snd (fst N n))(p := ?c))" "rt_route s' = m" "rt_set s' = 8"
      "sends out = [] \<or> sends out = [(TOS_BCAST_ADDR, AM_ROUTE_UPDATE, p)]"
      using step new by (auto simp: Let_def split: if_splits)
    let ?N = "route_update grp n accepted (st, out) N" and ?new = "(snd (fst N n))(p := ?c)"
    obtain mem' where N': "fst ?N = (fst N)(n := (s', mem'))"
      "\<And>m t c. (m, t, c) \<in> snd ?N \<Longrightarrow> (m, t, c) \<in> snd N \<or> m = n \<and> (\<exists>a p. (a, t, p) \<in> set (sends out) \<and> c = headed grp out ?new p)"
      using route_update_cases [of grp n accepted s' ?new out N] unfolding s'(1) by blast
    have r: "route_of ?N n = Some (m)" "\<And>k. k \<noteq> n \<Longrightarrow> route_of ?N k = route_of N k" "route_of N n = None"
      using N'(1) s'(2,3) s(1) by (simp_all add: route_of_def)
    have mono: "route_of ?N k = route_of N k" if "route_of N k \<noteq> None" for k using r that by (cases "k = n") simp_all
    have chains: "chain base link (route_of ?N) ps" if "chain base link (route_of N) ps" for ps
      using chain_mono [OF that] mono by blast
    have mine: "chain base link (route_of ?N) (ch @ [n])"
      using chains [OF ch(1)] nb p(3) ch(2) r(1) by (intro chain.more) simp_all
    have "\<exists>ps. chain base link (route_of ?N) ps \<and> last ps = k \<and> length ps \<le> 30" if "k \<noteq> base" "route_of ?N k \<noteq> None" for k
    proof (cases "k = n")
      case True
      then show ?thesis using mine s(2) by (intro exI [of _ "ch @ [n]"]) simp
    next
      case False
      then show ?thesis using ok that r(2) chains unfolding route_ok_def by metis
    qed
    moreover have "update_ok base link (route_of ?N) n (headed grp out ?new p)"
    proof -
      have len: "length (?new p) = sizeof_TOS_Msg" using p(2) by simp
      have "?new p ! (4 + i) = (ch @ [n]) ! i" if "i < length (ch @ [n])" for i
      proof (cases "i = length ch")
        case True
        then show ?thesis using p(2) s(2) by (simp add: sizeof_TOS_Msg_def add_ac(2))
      next
        case False
        then show ?thesis using that c [of "4 + i"] ch(6) s(2) by (simp add: nth_append)
      qed
      moreover have "?new p ! 3 = of_nat (Suc (length ch))" using p(2) by (simp add: sizeof_TOS_Msg_def)
      ultimately show ?thesis unfolding update_ok_def
        using mine s(2) headed_data [of ?new p grp out, OF len] headed_nth [of ?new p _ grp out, OF len]
        by (intro exI [of _ "ch @ [n]"]) (simp add: sizeof_TOS_Msg_def)
    qed
    moreover have "update_ok base link (route_of ?N) k d" if "(k, AM_ROUTE_UPDATE, d) \<in> snd N" for k d
      using update_ok_mono [of base link "route_of N" k d "route_of ?N"] ok that mono by (auto simp: route_ok_def)
    moreover have "beacon_ok base (fst (fst ?N base)) (snd (fst ?N base) data_buf)" using N'(1) nb ok by (simp add: route_ok_def)
    ultimately show ?thesis unfolding route_ok_def using N'(2) s'(4) by fastforce
  qed
qed

lemma route_reach_ok: "route_reach grp base data_buf link N \<Longrightarrow> route_ok base data_buf link N"
proof (induction rule: route_reach.induct)
  case (start g buf f)
  have "fst (fst (AM_ROUTE_INIT True base data_buf (buf base) (g base))) = fst (f base)"
    "snd (fst (AM_ROUTE_INIT True base data_buf (buf base) (g base))) = snd (f base)" using start(2) [of base] by simp_all
  then have "beacon_ok base (fst (f base)) (snd (f base) data_buf)"
    using start(1) [of base] by (cases "g base") (auto simp: AM_ROUTE_INIT_def beacon_ok_def sizeof_TOS_Msg_def Let_def dest!: sym [of _ "fst (f base)"] sym [of _ "snd (f base)"])
  moreover have "rt_set (fst (f n)) = 0" if "n \<noteq> base" for n
    using start(2) [of n] that by (cases "g n") (auto simp: AM_ROUTE_INIT_def Let_def dest!: sym [of _ "f n"])
  ultimately show ?case by (auto simp: route_ok_def route_of_def)
next
  case (clock N n accepted)
  obtain s mem s' mem' out where n: "fst N n = (s, mem)" "AM_ROUTE_SUB_CLOCK (n = base) data_buf (s, mem) = ((s', mem'), out)"
    by (metis surj_pair)
  show ?case unfolding n using clock n
    by (cases "n = base"; intro route_step_quiet)
      (auto simp: AM_ROUTE_SUB_CLOCK_def word_sless_alt split: if_splits)
next
  case (update N n p c m st out q accepted)
  then show ?case by (intro route_step_update)
next
  case (data N n p c m st out q accepted)
  obtain s' mem' where st: "st = (s', mem')" by (cases st)
  show ?case unfolding st using data data_msg_route [OF data.hyps(3) [unfolded st]]
    by (intro route_step_quiet) (auto simp: arrives_def)
next
  case (reading N n d st out r accepted)
  obtain s' mem' where st: "st = (s', mem')" by (cases st)
  show ?case unfolding st
    using reading data_ready_route [of n data_buf d "fst (fst N n)" "snd (fst N n)" s' mem' out r]
    by (intro route_step_quiet) (auto simp: st)
next
  case (send_done N n accepted p)
  then show ?case by (intro route_step_quiet) (simp_all add: send_done_route)
qed

section \<open>The theorems\<close>

text \<open>C5: However updates, data messages, readings, clock events and reports of sent messages interleave, with messages
  delayed, repeated, lost or refused, until the route of some node expires the routes form a tree: every node with a
  route has a path of links from the base station of at most 29 hops on which every route leads one node back,
  and no route ever leads in a circle.\<close>

theorem routes_form_tree:
  assumes "route_reach grp base data_buf link N"
  shows "(\<forall>n. n \<noteq> base \<and> route_of N n \<noteq> None \<longrightarrow>
      (\<exists>p. p \<noteq> [] \<and> hd p = base \<and> last p = n \<and> distinct p \<and> length p \<le> 30 \<and>
        (\<forall>i. Suc i < length p \<longrightarrow> (p ! i, p ! Suc i) \<in> link \<and> route_of N (p ! Suc i) = Some (p ! i)))) \<and>
    acyclic {(n, m). n \<noteq> base \<and> route_of N n = Some (m)}"
proof -
  have ok: "\<exists>p. chain base link (route_of N) p \<and> last p = n \<and> length p \<le> 30" if "n \<noteq> base" "route_of N n \<noteq> None" for n
    using route_reach_ok [OF assms(1)] that unfolding route_ok_def by blast
  have "acyclic {(n, m). n \<noteq> base \<and> route_of N n = Some (m)}"
    using route_graph_acyclic [of base "route_of N" link] ok unfolding route_graph_def by blast
  moreover have "\<exists>p. p \<noteq> [] \<and> hd p = base \<and> last p = n \<and> distinct p \<and> length p \<le> 30 \<and>
      (\<forall>i. Suc i < length p \<longrightarrow> (p ! i, p ! Suc i) \<in> link \<and> route_of N (p ! Suc i) = Some (p ! i))"
    if "n \<noteq> base" "route_of N n \<noteq> None" for n
    using ok [OF that] chain_not_empty chain_hd chain_distinct chain_links by metis
  ultimately show ?thesis by blast
qed

section \<open>Readings on their way\<close>

text \<open>A node passes a data message on: the address it sends it to, and the message.\<close>

definition forward :: "u8 \<Rightarrow> ptr \<Rightarrow> u8 list \<Rightarrow> am_route \<times> memory \<Rightarrow> (u8 \<times> u8 list) option" where
  "forward local p c st = (case DATA_MSG local p (fst st, (snd st)(p := c)) of ((s, mem), out, q) \<Rightarrow>
     (case sends out of [(a, t, q)] \<Rightarrow> Some (a, mem q) | _ \<Rightarrow> None))"

text \<open>From node to node, each the one the message is addressed to.\<close>

primrec relay :: "route_net \<Rightarrow> ptr \<Rightarrow> u8 list \<Rightarrow> u8 \<times> u8 list \<Rightarrow> (u8 \<times> u8 list) option" where
  "relay N p [] m = Some m"
| "relay N p (v # vs) m =
     (if fst m = v then (case forward v p (snd m) (fst N v) of None \<Rightarrow> None | Some m' \<Rightarrow> relay N p vs m') else None)"

lemma forward_sends:
  "rt_route s \<noteq> 0 \<Longrightarrow> route_send_pending s = 0 \<Longrightarrow> forward local p c (s, mem) = Some (rt_route s, trace_hop local c)"
  by (simp add: forward_def DATA_MSG_def)

lemma trace_hop_keeps: "drop 9 (trace_hop local c) = drop 9 c" "trace_hop local c ! 3 = c ! 3"
  by (simp_all add: trace_hop_def Let_def)

lemma take_append_take: "take n (xs @ take n ys) = take n (xs @ ys)"
  by (simp add: min_def)

lemma relay_chain:
  assumes "chain base link (route_of N) vs" and "rt_route (fst (fst N base)) = TOS_UART_ADDR" and "0 \<notin> Domain link"
    and "\<And>v. v \<in> set vs \<Longrightarrow> route_send_pending (fst (fst N v)) = 0" and "length c = sizeof_TOS_Msg"
  shows "\<exists>c'. relay N p (rev vs) (last vs, c) = Some (TOS_UART_ADDR, c') \<and> take 5 (drop 4 c') = take 5 (vs @ take 5 (drop 4 c)) \<and>
    drop 9 c' = drop 9 c \<and> c' ! 3 = c ! 3"
  using assms(1,4,5)
proof (induction arbitrary: c rule: chain.induct)
  case base
  have "forward base p c (fst N base) = Some (TOS_UART_ADDR, trace_hop base c)"
    using forward_sends [of "fst (fst N base)" base p c "snd (fst N base)"] base assms(2) by (simp add: TOS_UART_ADDR_def)
  then show ?case using trace_hop_trace [OF base(2)] by (simp add: trace_hop_keeps)
next
  case (more vs n)
  have r: "rt_route (fst (fst N n)) = last vs" using more.hyps(4) by (simp add: route_of_def split: if_splits)
  have "last vs \<noteq> 0" using more.hyps(3) assms(3) by auto
  then have "forward n p c (fst N n) = Some (last vs, trace_hop n c)"
    using forward_sends [of "fst (fst N n)" n p c "snd (fst N n)"] more.prems(1) r by simp
  moreover obtain c' where "relay N p (rev vs) (last vs, trace_hop n c) = Some (TOS_UART_ADDR, c')"
    "take 5 (drop 4 c') = take 5 (vs @ take 5 (drop 4 (trace_hop n c)))" "drop 9 c' = drop 9 (trace_hop n c)" "c' ! 3 = trace_hop n c ! 3"
    using more.IH [of "trace_hop n c"] more.prems by auto
  moreover have "take 5 (vs @ take 5 (drop 4 (trace_hop n c))) = take 5 ((vs @ [n]) @ take 5 (drop 4 c))"
    unfolding trace_hop_trace [OF more.prems(2)] take_append_take by (cases "5 - length vs") simp_all
  ultimately show ?case by (simp add: trace_hop_keeps)
qed

text \<open>C21: Until the route of some node expires: a data message sent along a node's route and passed on by each node it
  is addressed to leaves the base station for the serial line after at most 29 hops, if no node has another message
  to pass on. The sender's reading is unchanged, and the trace holds the last five nodes it came through.\<close>

theorem readings_reach_base:
  assumes "route_reach grp base data_buf link N" and "n \<noteq> base" and "route_of N n = Some a"
    and "0 \<notin> Domain link" and "\<And>v. route_send_pending (fst (fst N v)) = 0" and "length c = sizeof_TOS_Msg"
  shows "\<exists>vs c'. vs \<noteq> [] \<and> length vs < 30 \<and> last vs = base \<and> relay N p vs (a, c) = Some (TOS_UART_ADDR, c') \<and>
    take 5 (drop 4 c') = take 5 (rev vs @ take 5 (drop 4 c)) \<and> drop 9 c' = drop 9 c \<and> c' ! 3 = c ! 3"
proof -
  note ok = route_reach_ok [OF assms(1)]
  obtain ps where ps: "chain base link (route_of N) ps" "last ps = n" "length ps \<le> 30"
    using ok assms(2,3) unfolding route_ok_def by blast
  have "rt_route (fst (fst N base)) = TOS_UART_ADDR" using ok by (simp add: route_ok_def beacon_ok_def)
  from ps(1) show ?thesis
  proof (cases rule: chain.cases)
    case base
    then show ?thesis using ps(2) assms(2) by simp
  next
    case (more vs k)
    then have a: "last vs = a" "length vs < 30" using ps assms(3) by simp_all
    note c = chain_not_empty [OF more(2)] chain_hd [OF more(2)]
    obtain c' where "relay N p (rev vs) (last vs, c) = Some (TOS_UART_ADDR, c')" "take 5 (drop 4 c') = take 5 (vs @ take 5 (drop 4 c))"
      "drop 9 c' = drop 9 c" "c' ! 3 = c ! 3"
      using relay_chain [OF more(2) \<open>rt_route (fst (fst N base)) = TOS_UART_ADDR\<close> assms(4,5,6)] by blast
    then show ?thesis using a c by (intro exI [of _ "rev vs"] exI [of _ c']) (simp add: last_rev)
  qed
qed

section \<open>A small network\<close>

text \<open>A base station 1 and a node 2 that has heard its beacon and passed it on.\<close>

definition route_zero :: "am_route \<times> memory" where
  "route_zero = (\<lparr>rt_route = 0, rt_set = 0, rt_msg = 0, data_send_pending = 0, route_send_pending = 0, rt_prev = 0, rt_count = 0\<rparr>,
     \<lambda>_. replicate 35 0)"

definition beacon :: "u8 list" where
  "beacon = [0xff, 5, 9, 1, 1] @ replicate 30 0"

definition small_net_0 :: route_net where
  "small_net_0 = (\<lambda>n. fst (AM_ROUTE_INIT (n = 1) n 1 2 route_zero), {})"

definition small_net_1 :: route_net where
  "small_net_1 = route_update 9 1 True (AM_ROUTE_SUB_CLOCK (1 = (1 :: u8)) 1 (fst small_net_0 1)) small_net_0"

definition small_net_2 :: route_net where
  "small_net_2 = route_update 9 2 True
     ((\<lparr>rt_route = 1, rt_set = 8, rt_msg = 3, data_send_pending = 0, route_send_pending = 1, rt_prev = 0, rt_count = 0\<rparr>,
        (\<lambda>_. replicate 35 0)(3 := beacon[3 := 2, 5 := 2])), [ROUTE_LED2_OFF, ROUTE_SUB_SEND_MSG 0xff 5 3]) small_net_1"

definition small_net :: route_net where
  "small_net = route_update 9 2 True
     ((fst (ROUTE_SEND_DONE 1 3 (fst (fst small_net_2 2))), snd (fst small_net_2 2)), []) small_net_2"

lemma small_net_reach: "route_reach 9 1 1 {(1, 2)} small_net"
proof -
  have 0: "route_reach 9 1 1 {(1, 2)} small_net_0"
    unfolding small_net_0_def
    by (rule route_reach.start [where g = "\<lambda>_. route_zero" and buf = "\<lambda>_. 2" and f = "\<lambda>n. fst (AM_ROUTE_INIT (n = 1) n 1 2 route_zero)"])
      (simp_all add: route_zero_def sizeof_TOS_Msg_def)
  have 1: "route_reach 9 1 1 {(1, 2)} small_net_1"
    unfolding small_net_1_def by (rule route_reach.clock [OF 0]) simp
  have air: "(1, 5, beacon) \<in> snd small_net_1"
    by (simp add: small_net_1_def small_net_0_def AM_ROUTE_INIT_def AM_ROUTE_SUB_CLOCK_def route_update_def route_packets_def headed_def
        route_zero_def beacon_def with_header_def TOS_BCAST_ADDR_def AM_ROUTE_UPDATE_def Let_def) (simp add: numeral_eq_Suc)
  have arr: "arrives small_net_1 {(1, 2)} 1 2 AM_ROUTE_UPDATE 3 beacon 1"
    unfolding arrives_def using air by (auto simp: AM_ROUTE_UPDATE_def beacon_def sizeof_TOS_Msg_def)
  have f2: "fst small_net_1 2 = fst (AM_ROUTE_INIT False 2 1 2 route_zero)"
    by (simp add: small_net_1_def small_net_0_def AM_ROUTE_SUB_CLOCK_def route_update_def AM_ROUTE_INIT_def route_zero_def)
  have 2: "route_reach 9 1 1 {(1, 2)} small_net_2"
    unfolding small_net_2_def
    by (rule route_reach.update [OF 1 arr, where q = 2])
      (simp add: f2 AM_ROUTE_INIT_def route_zero_def ROUTE_UPDATE_def data_index_def beacon_def Let_def TOS_BCAST_ADDR_def AM_ROUTE_UPDATE_def)
  show ?thesis unfolding small_net_def by (rule route_reach.send_done [OF 2])
qed

lemma small_net_state: "route_of small_net 2 = Some 1" "\<And>v. route_send_pending (fst (fst small_net v)) = 0"
  by (simp_all add: small_net_def small_net_2_def small_net_1_def small_net_0_def route_update_def route_of_def ROUTE_SEND_DONE_def
      AM_ROUTE_SUB_CLOCK_def AM_ROUTE_INIT_def route_zero_def)

theorem routes_form_tree_witness:
  "route_of small_net 2 \<noteq> None \<and> acyclic {(n, m). n \<noteq> 1 \<and> route_of small_net n = Some m}"
  using routes_form_tree [OF small_net_reach] small_net_state(1) by simp

theorem readings_reach_base_witness:
  "\<exists>vs c'. vs \<noteq> [] \<and> last vs = 1 \<and> relay small_net 4 vs (1, replicate 35 6) = Some (TOS_UART_ADDR, c') \<and> c' ! 3 = 6"
  using readings_reach_base [OF small_net_reach _ small_net_state(1) _ small_net_state(2), of "replicate 35 6" 4]
  by (auto simp: sizeof_TOS_Msg_def)

end
