(* ===== verification/RouteStack.thy ===== *)
theory RouteStack
  imports AmRoute
begin

text \<open>
  The routing component on the messaging layer, wired as in \<open>apps/router.desc\<close>: both of the component's
  messages, and those of other components of the node, go through the one message at a time of the layer below.

  The theorem: a forward that the layer refuses is never noticed, and the node forwards nothing any more.
\<close>

section \<open>The node\<close>

text \<open>The two frames, the memory, whether the sending task is posted, and the message the packet layer has.\<close>

type_synonym router = "am_route \<times> am \<times> memory \<times> bool \<times> ptr option"

definition call_send :: "u8 \<Rightarrow> u8 \<Rightarrow> route_out list \<Rightarrow> am \<times> memory \<times> bool \<Rightarrow> am \<times> memory \<times> bool" where
  "call_send posted grp out =
     fold (\<lambda>(to, t, p) (a, mem, queue). case AM_SEND_MSG posted grp to t p (a, mem) of ((a, mem), os, r) \<Rightarrow>
       (a, mem, queue \<or> posted \<noteq> 0 \<and> POST_SEND_TASK \<in> set os)) (sends out)"

definition route_event :: "u8 \<Rightarrow> u8 \<Rightarrow> (am_route \<times> memory) \<times> route_out list \<Rightarrow> am \<Rightarrow> bool \<Rightarrow> ptr option \<Rightarrow> router" where
  "route_event posted grp r a queue air =
     (case r of ((s, mem), out) \<Rightarrow> case call_send posted grp out (a, mem, queue) of (a, mem, queue) \<Rightarrow> (s, a, mem, queue, air))"

inductive router_step :: "u8 \<Rightarrow> u8 \<Rightarrow> ptr \<Rightarrow> router \<Rightarrow> router \<Rightarrow> bool" for grp local data_buf where
  update: "ROUTE_UPDATE local p (s, mem(p := c)) = Some (r, out, q) \<Longrightarrow>
    router_step grp local data_buf (s, a, mem, queue, air) (route_event posted grp (r, out) a queue air)"
| data: "DATA_MSG local p (s, mem(p := c)) = (r, out, q) \<Longrightarrow>
    router_step grp local data_buf (s, a, mem, queue, air) (route_event posted grp (r, out) a queue air)"
| tick: "AM_ROUTE_SUB_CLOCK False data_buf (s, mem) = (r, out) \<Longrightarrow>
    router_step grp local data_buf (s, a, mem, queue, air) (route_event posted grp (r, out) a queue air)"
| reading: "ROUTE_SUB_DATA_READY local data_buf d (s, mem) = (r, out, v) \<Longrightarrow>
    router_step grp local data_buf (s, a, mem, queue, air) (route_event posted grp (r, out) a queue air)"
| another: "p \<noteq> rt_msg s \<Longrightarrow> AM_SEND_MSG posted grp to t p (a, mem) = ((a', mem'), os, v) \<Longrightarrow>
    router_step grp local data_buf (s, a, mem, queue, air) (s, a', mem', queue \<or> posted \<noteq> 0 \<and> POST_SEND_TASK \<in> set os, air)"
| task_refused: "queue \<Longrightarrow> AM_send_task (\<lambda>_ st. st) 0 (a, mem) = ((a', mem'), os) \<Longrightarrow>
    router_step grp local data_buf (s, a, mem, queue, air) (fst (ROUTE_SEND_DONE data_buf (am_msg a) s), a', mem', False, air)"
| task_accepted: "queue \<Longrightarrow> air = None \<Longrightarrow> accepted \<noteq> 0 \<Longrightarrow>
    AM_send_task (\<lambda>_ st. st) accepted (a, mem) = ((a', mem'), [AM_SUB_TX_PACKET p]) \<Longrightarrow>
    router_step grp local data_buf (s, a, mem, queue, air) (s, a', mem', False, Some p)"
| tx_done: "air = Some p \<Longrightarrow> AM_TX_PACKET_DONE (\<lambda>_ st. st) p (a, mem) = ((a', mem'), v) \<Longrightarrow>
    router_step grp local data_buf (s, a, mem, queue, air) (fst (ROUTE_SEND_DONE data_buf p s), a', mem', queue, None)"

section \<open>Waiting for a report that cannot come\<close>

text \<open>The node waits for the report on message \<open>q\<close>, which nobody has.\<close>

definition wedged :: "ptr \<Rightarrow> ptr \<Rightarrow> router \<Rightarrow> bool" where
  "wedged data_buf q n = (case n of (s, a, mem, queue, air) \<Rightarrow>
     route_send_pending s \<noteq> 0 \<and> rt_msg s = q \<and> q \<noteq> data_buf \<and> air \<noteq> Some q \<and> (am_state a \<noteq> 0 \<or> queue \<longrightarrow> am_msg a \<noteq> q))"

lemma wedged_send:
  assumes "wedged data_buf q (s, a, mem, queue, air)" and "\<And>to t p. (to, t, p) \<in> set (sends out) \<Longrightarrow> p \<noteq> q"
    and "route_send_pending s' = route_send_pending s" and "rt_msg s' = rt_msg s"
  shows "wedged data_buf q (route_event posted grp ((s', mem'), out) a queue air)"
proof -
  have "case fold (\<lambda>(to, t, p) (a, mem, queue). case AM_SEND_MSG posted grp to t p (a, mem) of ((a, mem), os, r) \<Rightarrow>
       (a, mem, queue \<or> posted \<noteq> 0 \<and> POST_SEND_TASK \<in> set os)) xs (a, mem', queue) of (a', mem'', queue') \<Rightarrow>
       am_state a' \<noteq> 0 \<or> queue' \<longrightarrow> am_msg a' \<noteq> q"
    if "\<And>to t p. (to, t, p) \<in> set xs \<Longrightarrow> p \<noteq> q" "am_state a \<noteq> 0 \<or> queue \<longrightarrow> am_msg a \<noteq> q" for xs a mem' queue
    using that
  proof (induction xs arbitrary: a mem' queue)
    case (Cons x xs)
    obtain to t p where x: "x = (to, t, p)" by (metis surj_pair)
    have p: "p \<noteq> q" using Cons.prems(1) [of to t p] x by simp
    obtain a1 mem1 os r where 1: "AM_SEND_MSG posted grp to t p (a, mem') = ((a1, mem1), os, r)" by (metis surj_pair)
    have "am_state a1 \<noteq> 0 \<or> (queue \<or> posted \<noteq> 0 \<and> POST_SEND_TASK \<in> set os) \<longrightarrow> am_msg a1 \<noteq> q"
      using 1 Cons.prems(2) p by (auto simp: AM_SEND_MSG_def Let_def split: if_splits)
    from Cons.IH [where mem' = mem1, OF _ this] Cons.prems(1) [OF list.set_intros(2)] show ?case by (simp add: x 1)
  qed simp
  from this [of "sends out" a queue mem'] assms show ?thesis
    by (auto simp: wedged_def route_event_def call_send_def split: prod.splits)
qed

text \<open>While the node waits, only its own readings are sent.\<close>

lemma update_waiting:
  "route_send_pending s \<noteq> 0 \<Longrightarrow> ROUTE_UPDATE local p (s, mem) = Some ((s', mem'), out, q) \<Longrightarrow>
    route_send_pending s' = route_send_pending s \<and> rt_msg s' = rt_msg s \<and> sends out = []"
  by (auto simp: ROUTE_UPDATE_def Let_def split: if_splits option.splits)

lemma data_waiting:
  "route_send_pending s \<noteq> 0 \<Longrightarrow> DATA_MSG local p (s, mem) = ((s', mem'), out, q) \<Longrightarrow>
    route_send_pending s' = route_send_pending s \<and> rt_msg s' = rt_msg s \<and> sends out = []"
  by (auto simp: DATA_MSG_def Let_def split: if_splits)

lemma reading_waiting:
  "ROUTE_SUB_DATA_READY local data_buf d (s, mem) = ((s', mem'), out, v) \<Longrightarrow>
    route_send_pending s' = route_send_pending s \<and> rt_msg s' = rt_msg s \<and> ((to, t, p) \<in> set (sends out) \<longrightarrow> p = data_buf)"
  by (auto simp: ROUTE_SUB_DATA_READY_def Let_def split: if_splits)

lemma tick_waiting:
  "AM_ROUTE_SUB_CLOCK False data_buf (s, mem) = ((s', mem'), out) \<Longrightarrow>
    route_send_pending s' = route_send_pending s \<and> rt_msg s' = rt_msg s \<and> sends out = []"
  by (auto simp: AM_ROUTE_SUB_CLOCK_def split: if_splits)

lemma report_waiting:
  "p \<noteq> rt_msg s \<Longrightarrow> route_send_pending (fst (ROUTE_SEND_DONE data_buf p s)) = route_send_pending s \<and>
    rt_msg (fst (ROUTE_SEND_DONE data_buf p s)) = rt_msg s"
  by (simp add: ROUTE_SEND_DONE_def Let_def)

lemma router_step_wedged: "router_step grp local data_buf n n' \<Longrightarrow> wedged data_buf q n \<Longrightarrow> wedged data_buf q n'"
proof (induction rule: router_step.induct)
  case (update p s mem c r out p' a queue air posted)
  obtain s' mem' where r: "r = (s', mem')" by (cases r)
  have "route_send_pending s \<noteq> 0" using update.prems by (simp add: wedged_def)
  from update_waiting [OF this update.hyps [unfolded r]] update.prems show ?case unfolding r by (intro wedged_send) auto
next
  case (data p s mem c r out p' a queue air posted)
  obtain s' mem' where r: "r = (s', mem')" by (cases r)
  have "route_send_pending s \<noteq> 0" using data.prems by (simp add: wedged_def)
  from data_waiting [OF this data.hyps [unfolded r]] data.prems show ?case unfolding r by (intro wedged_send) auto
next
  case (tick s mem r out a queue air posted)
  obtain s' mem' where r: "r = (s', mem')" by (cases r)
  from tick_waiting [OF tick.hyps [unfolded r]] tick.prems show ?case unfolding r by (intro wedged_send) auto
next
  case (reading d s mem r out v a queue air posted)
  obtain s' mem' where r: "r = (s', mem')" by (cases r)
  have "q \<noteq> data_buf" using reading.prems by (simp add: wedged_def)
  with reading_waiting [OF reading.hyps [unfolded r]] reading.prems show ?case unfolding r by (intro wedged_send) auto
next
  case (another p s posted to t a mem a' mem' os v queue air)
  then show ?case by (auto simp: wedged_def AM_SEND_MSG_def Let_def split: if_splits)
next
  case (task_refused queue a mem a' mem' os s air)
  then have "am_msg a \<noteq> rt_msg s" by (auto simp: wedged_def)
  from report_waiting [OF this, of data_buf] task_refused show ?case by (auto simp: wedged_def AM_send_task_def)
next
  case (task_accepted queue air accepted a mem a' mem' p s)
  then show ?case by (auto simp: wedged_def AM_send_task_def)
next
  case (tx_done air p a mem a' mem' v s queue)
  then have "p \<noteq> rt_msg s" by (auto simp: wedged_def)
  from report_waiting [OF this, of data_buf] tx_done show ?case by (auto simp: wedged_def AM_TX_PACKET_DONE_def)
qed

text \<open>The messaging layer is busy, with the node's own reading for instance, when the first update of a period, or a
  data message to pass on, comes in. The layer refuses it, but the answer is not looked at: the node waits for a report that cannot come, and whatever
  happens afterwards, it never again passes on an update or a data message.\<close>

theorem router_wedges:
  assumes "am_state a \<noteq> 0" and "am_msg a \<noteq> p" and "air \<noteq> Some p" and "p \<noteq> data_buf" and "route_send_pending s = 0"
    and "ROUTE_UPDATE local p (s, mem(p := c)) = Some (r, out, q) \<and> sends out \<noteq> [] \<or> DATA_MSG local p (s, mem(p := c)) = (r, out, q) \<and> sends out \<noteq> []"
    and "(router_step grp local data_buf)\<^sup>*\<^sup>* (route_event posted grp (r, out) a queue air) (s', a', mem', queue', air')"
  shows "(\<forall>r' out' q'. ROUTE_UPDATE local p' (s', mem'(p' := c')) = Some (r', out', q') \<longrightarrow> sends out' = []) \<and>
    sends (fst (snd (DATA_MSG local p' (s', mem'(p' := c'))))) = []"
proof -
  obtain s1 mem1 where r: "r = (s1, mem1)" by (cases r)
  have s1: "route_send_pending s1 = 1" "rt_msg s1 = p"
    using assms(5,6) unfolding r by (auto simp: ROUTE_UPDATE_def DATA_MSG_def Let_def split: if_splits option.splits)
  have refused: "call_send posted grp out (a, mem1, queue) = (a, mem1, queue)"
  proof -
    have "fold (\<lambda>(to, t, p) (a, mem, queue). case AM_SEND_MSG posted grp to t p (a, mem) of ((a, mem), os, r) \<Rightarrow>
       (a, mem, queue \<or> posted \<noteq> 0 \<and> POST_SEND_TASK \<in> set os)) xs (a, mem1, queue) = (a, mem1, queue)" for xs
      using assms(1) by (induction xs) (auto simp: AM_SEND_MSG_def)
    then show ?thesis by (simp add: call_send_def)
  qed
  have "wedged data_buf p (route_event posted grp (r, out) a queue air)"
    using s1 assms(2-4) by (simp add: r route_event_def refused wedged_def)
  with assms(7) have "wedged data_buf p (s', a', mem', queue', air')"
    by (induction rule: rtranclp_induct) (simp_all add: router_step_wedged)
  then have pend: "route_send_pending s' \<noteq> 0" by (simp add: wedged_def)
  obtain s2 mem2 out2 p2 where d: "DATA_MSG local p' (s', mem'(p' := c')) = ((s2, mem2), out2, p2)" by (metis surj_pair)
  have "sends out' = []" if "ROUTE_UPDATE local p' (s', mem'(p' := c')) = Some (r', out', q')" for r' out' q'
    using that update_waiting [OF pend, of local p' _ "fst r'" "snd r'"] by simp
  then show ?thesis using data_waiting [OF pend d] d by simp
qed

text \<open>A router with its reading in the air hears an update.\<close>

theorem router_wedges_witness:
  "\<exists>s' a' mem' queue' air'. (router_step 9 2 1)\<^sup>*\<^sup>*
      (\<lparr>rt_route = 7, rt_set = 8, rt_msg = 4, data_send_pending = 1, route_send_pending = 1, rt_prev = 0, rt_count = 0\<rparr>,
        \<lparr>am_addr = 0, am_type = 0, am_state = 1, am_msg = 1\<rparr>, (\<lambda>_. replicate 35 0)(4 := [0xff, 5, 9, 2, 7, 2] @ replicate 29 0), False, Some 1)
      (s', a', mem', queue', air') \<and>
    air' = None \<and> sends (fst (snd (DATA_MSG 2 5 (s', mem'(5 := replicate 35 1))))) = []"
proof -
  let ?s = "\<lparr>rt_route = 0, rt_set = 0, rt_msg = 3, data_send_pending = 1, route_send_pending = 0, rt_prev = 0, rt_count = 0\<rparr>"
  let ?s1 = "\<lparr>rt_route = 7, rt_set = 8, rt_msg = 4, data_send_pending = 1, route_send_pending = 1, rt_prev = 0, rt_count = 0\<rparr>"
  let ?a = "\<lparr>am_addr = 0, am_type = 0, am_state = 1, am_msg = 1\<rparr>" and ?c = "[0xff, 5, 9, 1, 7, 0] @ replicate 29 0"
  let ?mem = "(\<lambda>_. replicate 35 0)(4 := [0xff, 5, 9, 2, 7, 2] @ replicate 29 0)"
  let ?out = "[ROUTE_LED2_OFF, ROUTE_SUB_SEND_MSG TOS_BCAST_ADDR AM_ROUTE_UPDATE 4]"
  have u: "ROUTE_UPDATE 2 4 (?s, (\<lambda>_. replicate 35 0)(4 := ?c)) = Some ((?s1, ?mem), ?out, 3)"
    by (simp add: ROUTE_UPDATE_def data_index_def Let_def)
  have e: "route_event 1 9 ((?s1, ?mem), ?out) ?a False (Some 1) = (?s1, ?a, ?mem, False, Some 1)"
    by (simp add: route_event_def call_send_def AM_SEND_MSG_def)
  have d: "router_step 9 2 1 (?s1, ?a, ?mem, False, Some 1) (?s1\<lparr>data_send_pending := 0\<rparr>, ?a\<lparr>am_state := 0\<rparr>, ?mem, False, None)"
    using router_step.tx_done [of "Some 1" 1 ?a ?mem "?a\<lparr>am_state := 0\<rparr>" ?mem 1 9 2 1 ?s1 False]
    by (simp add: AM_TX_PACKET_DONE_def ROUTE_SEND_DONE_def)
  have run: "(router_step 9 2 1)\<^sup>*\<^sup>* (route_event 1 9 ((?s1, ?mem), ?out) ?a False (Some 1))
      (?s1\<lparr>data_send_pending := 0\<rparr>, ?a\<lparr>am_state := 0\<rparr>, ?mem, False, None)"
    unfolding e by (rule r_into_rtranclp [of "router_step 9 2 1", OF d])
  have "sends (fst (snd (DATA_MSG 2 5 (?s1\<lparr>data_send_pending := 0\<rparr>, ?mem(5 := replicate 35 1))))) = []"
    by (rule conjunct2 [OF router_wedges [OF _ _ _ _ _ disjI1 [OF conjI [OF u]] run]]) simp_all
  then show ?thesis using d by (blast intro: r_into_rtranclp)
qed

end
