(* ===== verification/Udp.thy ===== *)
theory Udp
  imports Ipv4
begin

text \<open>
  The transport layer of a mote, \<open>aps_proj/UDP_IPV4_MOD.c\<close>, on the internet layer of theory \<open>Ipv4\<close>. To send, the
  data at the beginning of a message are moved up behind room for the headers; the checksum is computed with the fields of
  the internet header borrowed for the pseudo-header, as BSD does it, and the layer below overwrites them. A received message is
  checked the same way and shown to the layer above.

  An access outside the 35 bytes of a message is \<open>None\<close>. The lemmas: what is sent, and what of it passes the receiver's checks.
\<close>

section \<open>State and operations\<close>

definition CONFIG_PORT :: u16 where "CONFIG_PORT = 0x2870"
definition UNIX_PORT :: u16 where "UNIX_PORT = 0x2880"

record udp =
  ud_state :: u8
  ud_tx_ptr :: ptr
  ud_rx_ptr :: ptr
  dest_addr :: u32
  remote_port :: u16
  local_port :: u16

datatype udp_out =
    UDP_IPV4_MOD_SUB_INIT
  | UDP_IPV4_MOD_SUB_POWER u8
  | UDP_IPV4_MOD_SUB_SET_IP_ADDR u32
  | UDP_IPV4_MOD_SUB_SET_NET_MASK u32
  | UDP_IPV4_MOD_SUB_SET_GATEWAY u8
  | UDP_IPV4_MOD_SUB_TX_PACKET ptr u16
  | UDP_ECHO_SUB_TOG_YELLOW

type_synonym 'v udp_state = "udp \<times> memory \<times> 'v"

definition UDP_IPV4_MOD_INIT :: "u8 \<Rightarrow> udp \<Rightarrow> udp \<times> udp_out list \<times> u8" where
  "UDP_IPV4_MOD_INIT ok s =
     (s\<lparr>dest_addr := IPV4_BCAST_ADDR, remote_port := UNIX_PORT\<rparr>, [UDP_IPV4_MOD_SUB_INIT], if ok = 0 then 0 else 1)"

definition UDP_IPV4_MOD_START :: "udp \<Rightarrow> udp \<times> u8" where
  "UDP_IPV4_MOD_START s = (s, 1)"

definition UDP_IPV4_MOD_POWER :: "u8 \<Rightarrow> u8 \<Rightarrow> udp \<Rightarrow> udp \<times> udp_out list \<times> u8" where
  "UDP_IPV4_MOD_POWER ok mode s = (s, [UDP_IPV4_MOD_SUB_POWER mode], ok)"

definition UDP_IPV4_MOD_SET_DEST :: "u32 \<Rightarrow> udp \<Rightarrow> udp \<times> u8" where
  "UDP_IPV4_MOD_SET_DEST dest s = (s\<lparr>dest_addr := dest\<rparr>, 1)"

definition UDP_IPV4_MOD_SET_IP_ADDR :: "u8 \<Rightarrow> u32 \<Rightarrow> udp \<Rightarrow> udp \<times> udp_out list \<times> u8" where
  "UDP_IPV4_MOD_SET_IP_ADDR ok addr s = (s, [UDP_IPV4_MOD_SUB_SET_IP_ADDR addr], ok)"

definition UDP_IPV4_MOD_GET_DEST :: "udp \<Rightarrow> u32 \<times> u8" where
  "UDP_IPV4_MOD_GET_DEST s = (dest_addr s, 1)"

definition UDP_IPV4_MOD_SET_REMOTE_PORT :: "u16 \<Rightarrow> udp \<Rightarrow> udp \<times> u8" where
  "UDP_IPV4_MOD_SET_REMOTE_PORT port s = (s\<lparr>remote_port := port\<rparr>, 1)"

definition UDP_IPV4_MOD_GET_REMOTE_PORT :: "udp \<Rightarrow> u16 \<times> u8" where
  "UDP_IPV4_MOD_GET_REMOTE_PORT s = (remote_port s, 1)"

definition UDP_IPV4_MOD_SET_LOCAL_PORT :: "u16 \<Rightarrow> udp \<Rightarrow> udp \<times> u8" where
  "UDP_IPV4_MOD_SET_LOCAL_PORT port s = (s\<lparr>local_port := port\<rparr>, 1)"

definition UDP_IPV4_MOD_GET_LOCAL_PORT :: "udp \<Rightarrow> u16 \<times> u8" where
  "UDP_IPV4_MOD_GET_LOCAL_PORT s = (local_port s, 1)"

definition udp_ipv4_checksum :: "u8 list \<Rightarrow> u16" where
  "udp_ipv4_checksum data = ucast (NOT (fold_carries (sum_words data 0)))"

text \<open>The data moved behind the headers, from the last byte down.\<close>

definition udp_range :: nat where
  "udp_range = sizeof_toshdr + sizeof_ipv4hdr + sizeof_udphdr"

primrec move_up :: "nat \<Rightarrow> u8 list \<Rightarrow> u8 list option" where
  "move_up 0 m = Some m"
| "move_up (Suc i) m = (if i + udp_range < length m then move_up i (m[i + udp_range := m ! i]) else None)"

text \<open>The bytes the checksum is about: pseudo-header, from the field \<open>ttl\<close> on, and datagram.\<close>

definition checked :: "u16 \<Rightarrow> u8 list \<Rightarrow> u8 list option" where
  "checked n m = (if ip_ttl sizeof_toshdr + unat n \<le> length m then Some (read_bytes (ip_ttl sizeof_toshdr) (unat n) m) else None)"

text \<open>The headers, without the checksum; \<open>source\<close> is the address the layer below answers.\<close>

definition udp_headers :: "u32 \<Rightarrow> u16 \<Rightarrow> udp \<Rightarrow> u8 list \<Rightarrow> u8 list" where
  "udp_headers source len s m =
     (let b = sizeof_toshdr; u = sizeof_toshdr + sizeof_ipv4hdr;
          m = put16 (udp_src_port u) (bswap16 (local_port s)) m;
          m = put16 (udp_dst_port u) (bswap16 (remote_port s)) m;
          m = put16 (udp_len u) (bswap16 (len + word_of_nat sizeof_udphdr)) m;
          m = put32 (ip_dest_addr b) (bswap32 (dest_addr s)) m;
          m = put32 (ip_src_addr b) source m;
          m = put32 (ip_src_addr b) (bswap32 (get32 (ip_src_addr b) m)) m;
          m = put8 (ip_protocol b) UDP_PROTOCOL_ID m;
          m = put16 (ip_check b) (get16 (udp_len u) m) m;
          m = put8 (ip_ttl b) 0 m
      in put16 (udp_check u) 0 m)"

definition process_tx ::
  "u8 \<Rightarrow> u32 \<Rightarrow> ptr \<Rightarrow> u16 \<Rightarrow> udp \<times> memory \<Rightarrow> ((udp \<times> memory) \<times> udp_out list \<times> u8) option" where
  "process_tx accepted source tx_msg len st =
     (case st of (s, mem) \<Rightarrow>
        if ud_state s = 0 then
          (if 30 < unat (word_of_nat udp_range + len + 1 - word_of_nat sizeof_toshdr :: u16) then Some ((s, mem), [], 0)
           else
             (case move_up (nat (sint len)) (mem tx_msg) of None \<Rightarrow> None | Some m \<Rightarrow>
                (let m = udp_headers source len s m
                 in case checked (12 + word_of_nat sizeof_udphdr + len) m of None \<Rightarrow> None | Some data \<Rightarrow>
                      (let m = put16 (udp_check (sizeof_toshdr + sizeof_ipv4hdr)) (udp_ipv4_checksum data) m;
                           m = put8 (ip_ttl sizeof_toshdr) MAX_TTL m;
                           st = (s\<lparr>ud_tx_ptr := tx_msg\<rparr>, mem(tx_msg := m));
                           out = [UDP_IPV4_MOD_SUB_TX_PACKET tx_msg (len + word_of_nat udp_range)]
                       in if accepted \<noteq> 0 then Some ((fst st\<lparr>ud_state := 1\<rparr>, snd st), out, 1) else Some (st, out, 0)))))
        else Some ((s, mem), [], 0))"

definition UDP_IPV4_MOD_TX_PACKET ::
  "u8 \<Rightarrow> u32 \<Rightarrow> ptr \<Rightarrow> u16 \<Rightarrow> udp \<times> memory \<Rightarrow> ((udp \<times> memory) \<times> udp_out list \<times> u8) option" where
  "UDP_IPV4_MOD_TX_PACKET = process_tx"

definition UDP_IPV4_MOD_INIT_IP_ADDR ::
  "u8 \<Rightarrow> u32 \<Rightarrow> ptr \<Rightarrow> udp \<times> memory \<Rightarrow> ((udp \<times> memory) \<times> udp_out list \<times> u8) option" where
  "UDP_IPV4_MOD_INIT_IP_ADDR accepted source tx_msg st =
     (case st of (s, mem) \<Rightarrow>
        (case process_tx accepted source tx_msg 2 (s, mem(tx_msg := ((mem tx_msg)[0 := 0x62])[1 := 0x62])) of None \<Rightarrow> None
         | Some (st, out, r) \<Rightarrow> Some (st, out, if r \<noteq> 0 then 1 else 0)))"

definition UDP_IPV4_MOD_TX_DONE ::
  "(ptr \<Rightarrow> 'v udp_state \<Rightarrow> 'v udp_state) \<Rightarrow> ptr \<Rightarrow> 'v udp_state \<Rightarrow> 'v udp_state \<times> u8" where
  "UDP_IPV4_MOD_TX_DONE sent tx_msg st =
     (case st of (s, r) \<Rightarrow> if ud_tx_ptr s = tx_msg then (sent tx_msg (s\<lparr>ud_state := 0\<rparr>, r), 1) else ((s, r), 1))"

definition configure_IP_addr :: "u8 \<Rightarrow> u8 list \<Rightarrow> udp_out list option" where
  "configure_IP_addr local m =
     (let b = sizeof_toshdr; u = b + sizeof_ipv4hdr; a = u + sizeof_udphdr
      in if 8 \<le> unat (bswap16 (get16 (udp_len u) m)) then
           (if a + 8 \<le> length m then
              Some [UDP_IPV4_MOD_SUB_SET_IP_ADDR (bswap32 (get32 a m) OR ucast local),
                UDP_IPV4_MOD_SUB_SET_NET_MASK (bswap32 (get32 (a + 4) m)),
                UDP_IPV4_MOD_SUB_SET_GATEWAY (ucast (bswap32 (get32 (ip_src_addr b) m) AND NOT (bswap32 (get32 (a + 4) m)))),
                UDP_ECHO_SUB_TOG_YELLOW]
            else None)
         else Some [])"

text \<open>The lengths are unsigned 16-bit numbers. \<open>client\<close> is the event of the layer above.\<close>

definition UDP_IPV4_MOD_RX ::
  "(ptr \<Rightarrow> 'v udp_state \<Rightarrow> 'v udp_state \<times> ptr) \<Rightarrow> u8 \<Rightarrow> ptr \<Rightarrow> 'v udp_state \<Rightarrow> ('v udp_state \<times> udp_out list \<times> ptr) option" where
  "UDP_IPV4_MOD_RX client local rx_msg st =
     (case st of (s, mem, v) \<Rightarrow>
        let b = sizeof_toshdr; u = b + sizeof_ipv4hdr; m = mem rx_msg; len = bswap16 (get16 (udp_len u) m);
            pass = (\<lambda>m. let st = (s, mem(rx_msg := m), v); dest = get32 (ip_dest_addr b) m; port = bswap16 (get16 (udp_dst_port u) m)
              in if dest = IPV4_BCAST_ADDR \<and> port = UNIX_PORT then Some (st, [], rx_msg)
                 else if dest = IPV4_BOOT_ADDR \<and> port = CONFIG_PORT then
                   (case configure_IP_addr local m of None \<Rightarrow> None | Some out \<Rightarrow> Some (st, out, rx_msg))
                 else (case client rx_msg st of (st, p) \<Rightarrow> Some (st, [], p)))
        in if bswap16 (get16 (ip_len b) m) < word_of_nat sizeof_ipv4hdr + len then Some (st, [], rx_msg)
           else if get16 (udp_check u) m = 0 then pass m
           else
             (let m = put16 (ip_check b) (get16 (udp_len u) m) (put8 (ip_ttl b) 0 m)
              in case checked (12 + len) m of None \<Rightarrow> None | Some data \<Rightarrow>
                   if udp_ipv4_checksum data AND 0xffff \<noteq> 0 then Some ((s, mem(rx_msg := m), v), [], rx_msg) else pass m))"

section \<open>What is sent\<close>

lemma udp_checksum_of: "udp_ipv4_checksum data = checksum_of data"
  by (simp add: udp_ipv4_checksum_def checksum_of_def)

text \<open>Only what leaves the message within 30 bytes of data is taken: no data, or one byte.\<close>

lemma udp_too_long:
  assumes "2 \<le> sint len"
  shows "process_tx accepted source msg len (s, mem) = Some ((s, mem), [], 0)"
proof -
  have "sint len < 65536" using sint_lt [of len] by simp
  then have "uint len = sint len" using assms by (simp add: uint_sint take_bit_int_eq_self)
  then have l: "int (unat len) = sint len" by simp
  moreover have "sint len < 32768" using sint_lt [of len] by simp
  ultimately have "2 \<le> unat len" "unat len < 32768" using assms by linarith+
  then have "unat (29 + len :: u16) = 29 + unat len" by (simp add: unat_word_ariths)
  moreover have "31 + len + 1 - 3 = 29 + len" by simp
  ultimately show ?thesis using \<open>2 \<le> unat len\<close>
    by (simp add: process_tx_def udp_range_def sizeof_toshdr_def sizeof_ipv4hdr_def sizeof_udphdr_def)
qed

text \<open>The bytes from the borrowed fields on, with the checksum \<open>c\<close>.\<close>

definition udp_checked_bytes :: "u32 \<Rightarrow> udp \<Rightarrow> u16 \<Rightarrow> u8 list" where
  "udp_checked_bytes source s c = [0, UDP_PROTOCOL_ID] @ bytes16 (bswap16 8) @ bytes32 (bswap32 source) @ bytes32 (bswap32 (dest_addr s)) @
     bytes16 (bswap16 (local_port s)) @ bytes16 (bswap16 (remote_port s)) @ bytes16 (bswap16 8) @ bytes16 c"

lemma udp_headers_bytes:
  assumes "length m = sizeof_TOS_Msg"
  shows "length (udp_headers source 0 s m) = sizeof_TOS_Msg" and "read_bytes 11 20 (udp_headers source 0 s m) = udp_checked_bytes source s 0"
proof -
  note puts = put8_def put16_def put32_def bytes16_def bytes32_def nth_write_bytes
  show "length (udp_headers source 0 s m) = sizeof_TOS_Msg"
    using assms by (simp add: udp_headers_def Let_def puts)
  define m1 where "m1 = put32 19 (bswap32 (dest_addr s)) (put16 27 (bswap16 8) (put16 25 (bswap16 (remote_port s)) (put16 23 (bswap16 (local_port s)) m)))"
  have l1: "length m1 = 35" using assms by (simp add: m1_def puts sizeof_TOS_Msg_def)
  have a: "get32 15 (put32 15 source m1) = source" using l1 by (simp add: get32_def put32_def read_write_same)
  have c: "get16 27 (put8 12 UDP_PROTOCOL_ID (put32 15 (bswap32 source) (put32 15 source m1))) = bswap16 8"
    using assms word16_bytes16 [of "bswap16 8", unfolded bytes16_def]
    by (simp add: get16_def m1_def puts sizeof_TOS_Msg_def read_bytes_def upt_rec)
  have h: "udp_headers source 0 s m =
      put16 29 0 (put8 11 0 (put16 13 (bswap16 8) (put8 12 UDP_PROTOCOL_ID (put32 15 (bswap32 source) (put32 15 source m1)))))"
    unfolding udp_headers_def Let_def by (simp add: header_offsets sizeof_toshdr_def sizeof_ipv4hdr_def sizeof_udphdr_def a c flip: m1_def)
  show "read_bytes 11 20 (udp_headers source 0 s m) = udp_checked_bytes source s 0"
    unfolding h udp_checked_bytes_def m1_def read_bytes_def using assms
    by (simp add: upt_rec puts sizeof_TOS_Msg_def)
qed

lemma udp_sends_nothing:
  assumes "ud_state s = 0" and "length (mem msg) = sizeof_TOS_Msg" and "accepted \<noteq> 0"
    and m: "m = put8 11 MAX_TTL (put16 29 (checksum_of (udp_checked_bytes source s 0)) (udp_headers source 0 s (mem msg)))"
  shows "process_tx accepted source msg 0 (s, mem) =
    Some ((s\<lparr>ud_tx_ptr := msg, ud_state := 1\<rparr>, mem(msg := m)), [UDP_IPV4_MOD_SUB_TX_PACKET msg 31], 1)"
proof -
  have "checked 20 (udp_headers source 0 s (mem msg)) = Some (udp_checked_bytes source s 0)"
    using udp_headers_bytes [OF assms(2)] by (simp add: checked_def header_offsets sizeof_toshdr_def sizeof_TOS_Msg_def)
  then show ?thesis
    using assms(1,3) unfolding m
    by (simp add: process_tx_def udp_range_def sizeof_toshdr_def sizeof_ipv4hdr_def sizeof_udphdr_def header_offsets udp_checksum_of Let_def)
qed

section \<open>What is accepted\<close>

lemma masks32: "(0xff000000 :: u32) = push_bit 24 (mask 8)" "(0x00ff0000 :: u32) = push_bit 16 (mask 8)"
  "(0x0000ff00 :: u32) = push_bit 8 (mask 8)" "(0xff :: u32) = mask 8"
  by (simp_all add: mask_eq_exp_minus_1)

lemma bswap32_bswap32 [simp]: "bswap32 (bswap32 x) = x"
proof (rule bit_word_eqI)
  fix n assume "n < LENGTH(32)"
  then have "n < 32" by simp
  have bits: "bit (bswap32 y) n \<longleftrightarrow> (if n < 8 then bit y (24 + n) else if n < 16 then bit y (8 + n) else if n < 24 then bit y (n - 8) else bit y (n - 24))"
    if "n < 32" for n y
    using that unfolding bswap32_def masks32 by (auto simp: bit_simps)
  show "bit (bswap32 (bswap32 x)) n = bit x n" using \<open>n < 32\<close> by (auto simp: bits)
qed

lemma bswap32_eq: "bswap32 x = y \<longleftrightarrow> x = bswap32 y"
  by (metis bswap32_bswap32)

lemma bswap32_constants: "bswap32 IPV4_BCAST_ADDR = IPV4_BCAST_ADDR" "bswap32 IPV4_BOOT_ADDR = IPV4_BOOT_ADDR"
  by (simp_all add: IPV4_BCAST_ADDR_def IPV4_BOOT_ADDR_def bswap32_def)

text \<open>The fields of a message that is not data: its addresses and its UDP header.\<close>

definition udp_fields :: "u32 \<Rightarrow> udp \<Rightarrow> u16 \<Rightarrow> u8 list" where
  "udp_fields source s c = bytes32 (bswap32 source) @ bytes32 (bswap32 (dest_addr s)) @
     bytes16 (bswap16 (local_port s)) @ bytes16 (bswap16 (remote_port s)) @ bytes16 (bswap16 8) @ bytes16 c"

lemma length_udp_fields [simp]: "length (udp_fields source s c) = 16"
  by (simp add: udp_fields_def)

lemma udp_fields_get:
  assumes "read_bytes 15 16 m = udp_fields source s c"
  shows "get32 15 m = bswap32 source" "get32 19 m = bswap32 (dest_addr s)" "get16 23 m = bswap16 (local_port s)"
    "get16 25 m = bswap16 (remote_port s)" "get16 27 m = bswap16 8" "get16 29 m = c"
proof -
  have sub: "read_bytes (15 + j) k m = read_bytes j k (udp_fields source s c)" if "j + k \<le> 16" for j k
    using that assms by (intro nth_equalityI) (simp_all add: add.assoc flip: assms)
  note f = sub [of 0 4] sub [of 4 4] sub [of 8 2] sub [of 10 2] sub [of 12 2] sub [of 14 2]
  have "read_bytes 0 4 (udp_fields source s c) = bytes32 (bswap32 source)" "read_bytes 4 4 (udp_fields source s c) = bytes32 (bswap32 (dest_addr s))"
    "read_bytes 8 2 (udp_fields source s c) = bytes16 (bswap16 (local_port s))" "read_bytes 10 2 (udp_fields source s c) = bytes16 (bswap16 (remote_port s))"
    "read_bytes 12 2 (udp_fields source s c) = bytes16 (bswap16 8)" "read_bytes 14 2 (udp_fields source s c) = bytes16 c"
    by (simp_all add: udp_fields_def read_bytes_def upt_rec bytes16_def bytes32_def)
  with f show "get32 15 m = bswap32 source" "get32 19 m = bswap32 (dest_addr s)" "get16 23 m = bswap16 (local_port s)"
    "get16 25 m = bswap16 (remote_port s)" "get16 27 m = bswap16 8" "get16 29 m = c"
    by (simp_all add: get16_def get32_def)
qed

lemma udp_checked_fields: "udp_checked_bytes source s c = [0, UDP_PROTOCOL_ID] @ bytes16 (bswap16 8) @ udp_fields source s c"
  by (simp add: udp_checked_bytes_def udp_fields_def)

lemma udp_checksum_good: "checksum_of (udp_checked_bytes source s (checksum_of (udp_checked_bytes source s 0))) = 0"
proof -
  have put: "udp_checked_bytes source s c = put16 18 c (udp_checked_bytes source s 0)" for c
    by (simp add: udp_checked_bytes_def put16_def bytes16_def bytes32_def)
  have "words_nat (udp_checked_bytes source s 0) \<noteq> 0"
    by (rule words_nat_nonzero [of 1]) (simp_all add: udp_checked_bytes_def UDP_PROTOCOL_ID_def)
  then have "checksum_of (put16 18 (checksum_of (put16 18 0 (udp_checked_bytes source s 0))) (udp_checked_bytes source s 0)) = 0"
    by (intro checksum_verifies) (simp_all add: put [of 0, symmetric], simp_all add: udp_checked_bytes_def)
  then show ?thesis by (simp add: put [of 0, symmetric] put [symmetric])
qed

text \<open>A received message with these fields is shown to the layer above, unless it is for the configuration.\<close>

lemma udp_rx_good:
  assumes m: "length (mem p) = sizeof_TOS_Msg" "mem p ! 12 = UDP_PROTOCOL_ID" "bswap16 (get16 5 (mem p)) = 28"
      "read_bytes 15 16 (mem p) = udp_fields source s (checksum_of (udp_checked_bytes source s 0))"
    and config: "\<not> (dest_addr s = IPV4_BCAST_ADDR \<and> remote_port s = UNIX_PORT)" "\<not> (dest_addr s = IPV4_BOOT_ADDR \<and> remote_port s = CONFIG_PORT)"
  shows "\<exists>m'. UDP_IPV4_MOD_RX client local p (r, mem, v) = Some (case client p (r, mem(p := m'), v) of (st, q) \<Rightarrow> (st, [], q)) \<and>
    length m' = sizeof_TOS_Msg \<and> take 3 m' = take 3 (mem p) \<and> drop 15 m' = drop 15 (mem p)"
proof -
  let ?c = "checksum_of (udp_checked_bytes source s 0)"
  define m2 where "m2 = put16 13 (bswap16 8) (put8 11 0 (mem p))"
  note puts = put8_def put16_def bytes16_def nth_write_bytes
  have len: "length m2 = 35" using m(1) by (simp add: m2_def puts sizeof_TOS_Msg_def)
  have keep: "take 3 m2 = take 3 (mem p)" "drop 15 m2 = drop 15 (mem p)"
    using m(1) by (auto intro!: nth_equalityI simp: m2_def puts sizeof_TOS_Msg_def)
  have "m2 ! (15 + k) = mem p ! (15 + k)" if "k < 16" for k
    using that arg_cong [OF keep(2), of "\<lambda>xs. xs ! k"] len m(1) by (simp add: sizeof_TOS_Msg_def)
  then have f2: "read_bytes 15 16 m2 = udp_fields source s ?c" unfolding m(4) [symmetric] by (intro nth_equalityI) simp_all
  have "read_bytes 11 20 m2 = [0, UDP_PROTOCOL_ID] @ bytes16 (bswap16 8) @ read_bytes 15 16 m2"
    using m(1,2) len by (simp add: read_bytes_def upt_rec, simp add: m2_def puts sizeof_TOS_Msg_def)
  then have "read_bytes 11 20 m2 = udp_checked_bytes source s ?c" unfolding f2 udp_checked_fields .
  then have checked: "checked 20 m2 = Some (udp_checked_bytes source s ?c)"
    using len by (simp add: checked_def header_offsets sizeof_toshdr_def)
  note g = udp_fields_get [OF m(4)] and g2 = udp_fields_get [OF f2]
  have b: "(bswap32 (dest_addr s) = IPV4_BCAST_ADDR) = (dest_addr s = IPV4_BCAST_ADDR)" "(bswap32 (dest_addr s) = IPV4_BOOT_ADDR) = (dest_addr s = IPV4_BOOT_ADDR)"
    using bswap32_eq [of "dest_addr s" IPV4_BCAST_ADDR] bswap32_eq [of "dest_addr s" IPV4_BOOT_ADDR] by (simp_all only: bswap32_constants)
  have no: "\<not> (get32 19 x = IPV4_BCAST_ADDR \<and> bswap16 (get16 25 x) = UNIX_PORT)" "\<not> (get32 19 x = IPV4_BOOT_ADDR \<and> bswap16 (get16 25 x) = CONFIG_PORT)"
    if "x = mem p \<or> x = m2" for x
    using that config b by (auto simp: g g2)
  let ?m' = "if ?c = 0 then mem p else m2"
  have "UDP_IPV4_MOD_RX client local p (r, mem, v) = Some (case client p (r, mem(p := ?m'), v) of (st, q) \<Rightarrow> (st, [], q))"
    using checked m(3) udp_checksum_good [of source s]
    by (simp add: no UDP_IPV4_MOD_RX_def header_offsets sizeof_toshdr_def sizeof_ipv4hdr_def sizeof_udphdr_def g(5,6) g2(5,6) udp_checksum_of
        Let_def split_beta flip: m2_def)
  then show ?thesis using keep len m(1) by (intro exI [of _ ?m']) (simp add: sizeof_TOS_Msg_def)
qed

section \<open>From mote to mote\<close>

lemma udp_sent_fields:
  assumes "length m = sizeof_TOS_Msg" and "m1 = put8 11 MAX_TTL (put16 29 c (udp_headers source 0 s m))"
  shows "length m1 = sizeof_TOS_Msg" and "read_bytes 15 16 m1 = udp_fields source s c"
proof -
  note puts = put8_def put16_def bytes16_def nth_write_bytes
  note h = udp_headers_bytes [OF assms(1), of source s]
  show l: "length m1 = sizeof_TOS_Msg" using h(1) by (simp add: assms(2) puts)
  show "read_bytes 15 16 m1 = udp_fields source s c"
  proof (rule nth_equalityI)
    fix k assume "k < length (read_bytes 15 16 m1)"
    then have k: "k < 16" by simp
    have "udp_headers source 0 s m ! (15 + k) = udp_checked_bytes source s 0 ! (4 + k)"
      using k arg_cong [OF h(2), of "\<lambda>xs. xs ! (4 + k)"] by simp
    moreover have "udp_checked_bytes source s 0 ! (4 + k) = udp_fields source s 0 ! k"
      unfolding udp_checked_fields by (simp add: bytes16_def)
    moreover have "udp_fields source s c ! k = (if k < 14 then udp_fields source s 0 ! k else bytes16 c ! (k - 14))"
    proof -
      have split: "udp_fields source s x = (bytes32 (bswap32 source) @ bytes32 (bswap32 (dest_addr s)) @ bytes16 (bswap16 (local_port s)) @
          bytes16 (bswap16 (remote_port s)) @ bytes16 (bswap16 8)) @ bytes16 x" for x by (simp add: udp_fields_def)
      show ?thesis unfolding split nth_append by simp
    qed
    moreover have "m1 ! (15 + k) = (if k < 14 then udp_headers source 0 s m ! (15 + k) else bytes16 c ! (k - 14))"
    proof -
      have "put16 29 c (udp_headers source 0 s m) ! (15 + k) = (if k < 14 then udp_headers source 0 s m ! (15 + k) else bytes16 c ! (k - 14))"
        using k h(1) unfolding put16_def by (subst nth_write_bytes) (auto simp: sizeof_TOS_Msg_def)
      then show ?thesis using k h(1) unfolding assms(2) put8_def by (subst nth_write_bytes) (auto simp: sizeof_TOS_Msg_def put16_def)
    qed
    ultimately show "read_bytes 15 16 m1 ! k = udp_fields source s c ! k" using k by simp
  qed simp
qed

text \<open>Both layers, on both sides: an empty datagram handed to an idle mote goes down with addresses, ports and checksum; the
  internet layer, which overwrites the fields the checksum borrowed, sends it in one message. The mote that gets these data
  under whatever message header, and whose address they carry, or one for all, finds both checksums right and shows the layer
  above a message with the sender's address and port as source and the requested ones as destination, unless these
  are the ones set aside for configuration.\<close>

lemma udp_end_to_end:
  fixes mem rmem :: memory
  assumes u: "ud_state u = 0" "length (mem msg) = sizeof_TOS_Msg" and s: "ip_state s = 0" "accepted \<noteq> 0"
    and dest: "dest_addr u \<in> {my_ipv4 r, IPV4_BCAST_ADDR, IPV4_BOOT_ADDR, my_ipv4 r OR NOT (netmask r)}"
    and config: "\<not> (dest_addr u = IPV4_BCAST_ADDR \<and> remote_port u = UNIX_PORT)" "\<not> (dest_addr u = IPV4_BOOT_ADDR \<and> remote_port u = CONFIG_PORT)"
  shows "\<exists>u' s' m1 m d m2 to.
    UDP_IPV4_MOD_TX_PACKET 1 (my_ipv4 s) msg 0 (u, mem) = Some ((u', mem(msg := m1)), [UDP_IPV4_MOD_SUB_TX_PACKET msg 31], 1) \<and>
    IPV4_SIMPLE_TX_PACKET incr accepted am_type msg 31 (s, mem(msg := m1), w)
      = Some ((s', mem(msg := m), w), [IPV4_SIMPLE_SUB_TX_PACKET to am_type msg], 1) \<and>
    IPV4_SIMPLE_RX upcall p (r, rmem(p := [addr, type, grp] @ drop 3 m), v) = Some (upcall p (r, rmem(p := [addr, type, grp] @ d), v)) \<and>
    UDP_IPV4_MOD_RX client local p (q, rmem(p := [addr, type, grp] @ d), x)
      = Some (case client p (q, rmem(p := [addr, type, grp] @ m2), x) of (st, b) \<Rightarrow> (st, [], b)) \<and>
    length m2 = 32 \<and> get32 12 m2 = bswap32 (my_ipv4 s) \<and> get32 16 m2 = bswap32 (dest_addr u) \<and>
    get16 20 m2 = bswap16 (local_port u) \<and> get16 22 m2 = bswap16 (remote_port u) \<and> get16 24 m2 = bswap16 8"
proof -
  let ?c = "checksum_of (udp_checked_bytes (my_ipv4 s) u 0)"
  define m1 where "m1 = put8 11 MAX_TTL (put16 29 ?c (udp_headers (my_ipv4 s) 0 u (mem msg)))"
  have tx: "UDP_IPV4_MOD_TX_PACKET 1 (my_ipv4 s) msg 0 (u, mem) =
      Some ((u\<lparr>ud_tx_ptr := msg, ud_state := 1\<rparr>, mem(msg := m1)), [UDP_IPV4_MOD_SUB_TX_PACKET msg 31], 1)"
    unfolding UDP_IPV4_MOD_TX_PACKET_def using udp_sends_nothing [where mem = mem and msg = msg, OF u, of 1] by (simp add: m1_def)
  note f1 = udp_sent_fields [OF u(2) m1_def]
  note g1 = udp_fields_get [OF f1(2)]
  let ?h = "write_header 31 (uniq_id s) m1"
  note hdr = write_header_fields [OF f1(1), of 31 "uniq_id s"]
  have n: "(word_of_nat (28 + 3) :: u16) = 31" by simp
  obtain m d where ip: "IPV4_SIMPLE_TX_PACKET incr accepted am_type msg 31 (s, mem(msg := m1), w)
      = Some ((s\<lparr>uniq_id := incr (uniq_id s), ip_tx_ptr := msg, ip_state := 1\<rparr>, (mem(msg := m1))(msg := m), w),
          [IPV4_SIMPLE_SUB_TX_PACKET (ip_route s ?h) am_type msg], 1)"
    and rx: "IPV4_SIMPLE_RX upcall p (r, rmem(p := [addr, type, grp] @ drop 3 m), v) = Some (upcall p (r, rmem(p := [addr, type, grp] @ d), v))"
    and d: "length d = 32" "\<And>k. k < 28 \<Longrightarrow> d ! k = ?h ! (3 + k)"
    using ipv4_end_to_end [where mem = "mem(msg := m1)" and msg = msg and n = 28 and r = r and upcall = upcall and p = p and rmem = rmem
        and addr = addr and type = type and grp = grp and v = v and w = w and incr = incr and am_type = am_type, OF s(1) _ s(2), unfolded n]
      f1(1) dest g1(2) by (auto simp: for_me_def)
  let ?m = "[addr, type, grp] @ d"
  have nth: "?m ! (3 + k) = ?h ! (3 + k)" if "k < 28" for k using d(2) [OF that] by simp
  have read: "read_bytes (3 + j) k ?m = read_bytes (3 + j) k ?h" if "j + k \<le> 28" for j k
    using that nth by (intro nth_equalityI) (simp_all add: add.assoc)
  have h15: "read_bytes 15 16 ?h = udp_fields (my_ipv4 s) u ?c"
  proof -
    have "?h ! (15 + k) = m1 ! (15 + k)" if "k < 16" for k
    proof (cases "k < 8")
      case True
      then show ?thesis using arg_cong [OF hdr(5), of "\<lambda>xs. xs ! k"] by simp
    next
      case False
      then show ?thesis using that arg_cong [OF hdr(6), of "\<lambda>xs. xs ! (k - 8)"] hdr(1) f1(1) by (simp add: sizeof_TOS_Msg_def)
    qed
    then show ?thesis unfolding f1(2) [symmetric] by (intro nth_equalityI) simp_all
  qed
  have "length ?m = sizeof_TOS_Msg" "?m ! 12 = UDP_PROTOCOL_ID" "bswap16 (get16 5 ?m) = 28" "read_bytes 15 16 ?m = udp_fields (my_ipv4 s) u ?c"
    using d(1) nth [of 9] hdr(7) read [of 2 2] hdr(4) read [of 12 16] h15 by (simp_all add: sizeof_TOS_Msg_def get16_def)
  then obtain m' where up: "UDP_IPV4_MOD_RX client local p (q, rmem(p := ?m), x)
        = Some (case client p (q, rmem(p := m'), x) of (st, b) \<Rightarrow> (st, [], b))"
    and m': "length m' = sizeof_TOS_Msg" "take 3 m' = take 3 ?m" "drop 15 m' = drop 15 ?m"
    using udp_rx_good [where mem = "rmem(p := ?m)" and p = p and r = q and v = x and client = client and local = local, OF _ _ _ _ config]
    by (auto simp del: append_Cons append_Nil)
  have "m' = [addr, type, grp] @ drop 3 m'" using m'(2) by (metis append_take_drop_id length_Cons list.size(3) append_eq_conv_conj numeral_3_eq_3)
  moreover have "drop 3 m' ! (12 + k) = udp_fields (my_ipv4 s) u ?c ! k" if "k < 16" for k
  proof -
    have "m' ! (15 + k) = ?m ! (15 + k)"
      using that arg_cong [OF m'(3), of "\<lambda>xs. xs ! k"] m'(1) d(1) by (simp add: sizeof_TOS_Msg_def)
    also have "\<dots> = udp_fields (my_ipv4 s) u ?c ! k"
      using that arg_cong [OF \<open>read_bytes 15 16 ?m = udp_fields (my_ipv4 s) u ?c\<close>, of "\<lambda>xs. xs ! k"] by simp
    finally show ?thesis using m'(1) that by (simp add: sizeof_TOS_Msg_def)
  qed
  then have "read_bytes 15 16 ([addr, type, grp] @ drop 3 m') = udp_fields (my_ipv4 s) u ?c"
    by (intro nth_equalityI) simp_all
  note g = udp_fields_get [OF this]
  have "get32 12 (drop 3 m') = bswap32 (my_ipv4 s)" "get32 16 (drop 3 m') = bswap32 (dest_addr u)" "get16 20 (drop 3 m') = bswap16 (local_port u)"
    "get16 22 (drop 3 m') = bswap16 (remote_port u)" "get16 24 (drop 3 m') = bswap16 8"
    using g(1-5) m'(1) by (simp_all add: get32_def get16_def read_bytes_def upt_rec)
  ultimately show ?thesis using tx ip rx up m'(1)
    by (intro exI [of _ "u\<lparr>ud_tx_ptr := msg, ud_state := 1\<rparr>"] exI [of _ "s\<lparr>uniq_id := incr (uniq_id s), ip_tx_ptr := msg, ip_state := 1\<rparr>"]
        exI [of _ m1] exI [of _ m] exI [of _ d] exI [of _ "drop 3 m'"] exI [of _ "ip_route s ?h"]) (simp add: sizeof_TOS_Msg_def)
qed

definition udp_fresh :: udp where
  "udp_fresh = \<lparr>ud_state = 0, ud_tx_ptr = 0, ud_rx_ptr = 0, dest_addr = 0x0a000007, remote_port = 1101, local_port = 7\<rparr>"

section \<open>Nothing but empty datagrams\<close>

lemma udp_one_byte:
  assumes "ud_state u = 0" and "length (mem msg) = sizeof_TOS_Msg"
  shows "\<exists>u' m. process_tx 1 source msg 1 (u, mem) = Some ((u', mem(msg := m)), [UDP_IPV4_MOD_SUB_TX_PACKET msg 32], 1) \<and> length m = sizeof_TOS_Msg"
proof -
  let ?m = "udp_headers source 1 u ((mem msg)[31 := mem msg ! 0])"
  have len: "length ?m = 35" using assms(2) by (simp add: udp_headers_def Let_def put8_def put16_def put32_def sizeof_TOS_Msg_def)
  then have c: "checked 21 ?m = Some (read_bytes 11 21 ?m)" by (simp add: checked_def header_offsets sizeof_toshdr_def)
  let ?m' = "put8 (ip_ttl 3) MAX_TTL (put16 (udp_check 23) (udp_ipv4_checksum (read_bytes 11 21 ?m)) ?m)"
  have "process_tx 1 source msg 1 (u, mem) = Some ((u\<lparr>ud_tx_ptr := msg, ud_state := 1\<rparr>, mem(msg := ?m')), [UDP_IPV4_MOD_SUB_TX_PACKET msg 32], 1)"
    using assms c
    by (simp add: process_tx_def udp_range_def sizeof_toshdr_def sizeof_ipv4hdr_def sizeof_udphdr_def sizeof_TOS_Msg_def Let_def)
  moreover have "length ?m' = sizeof_TOS_Msg" using len by (simp add: put8_def put16_def sizeof_TOS_Msg_def)
  ultimately show ?thesis by blast
qed

text \<open>An idle layer with any two or more bytes to send refuses them without a change, although the data of a message would
  hold them together with the headers; so the request for an address, which sends two bytes, never goes out. A single byte
  is accepted, and makes the layer below write outside the message.\<close>

theorem udp_carries_no_data:
  assumes "ud_state u = 0" and "length (mem msg) = sizeof_TOS_Msg" and "ip_state s = 0"
  shows "(\<forall>len. 2 \<le> sint len \<longrightarrow> UDP_IPV4_MOD_TX_PACKET accepted source msg len (u, mem) = Some ((u, mem), [], 0)) \<and>
    (\<exists>mem'. UDP_IPV4_MOD_INIT_IP_ADDR accepted source msg (u, mem) = Some ((u, mem'), [], 0)) \<and>
    (\<exists>u' mem'. UDP_IPV4_MOD_TX_PACKET 1 source msg 1 (u, mem) = Some ((u', mem'), [UDP_IPV4_MOD_SUB_TX_PACKET msg 32], 1) \<and>
      IPV4_SIMPLE_TX_PACKET incr accepted am_type msg 32 (s, mem', w) = None)"
proof -
  obtain u' m where tx: "process_tx 1 source msg 1 (u, mem) = Some ((u', mem(msg := m)), [UDP_IPV4_MOD_SUB_TX_PACKET msg 32], 1)"
    "length m = sizeof_TOS_Msg" using udp_one_byte [where mem = mem and msg = msg, OF assms(1,2)] by blast
  have "length (write_header 32 (uniq_id s) m) = 35" using write_header_fields(1) [OF tx(2)] by (simp add: sizeof_TOS_Msg_def)
  then have "shift_up 32 (write_header 32 (uniq_id s) m) = None" by (rule shift_up_outside) simp
  then have "IPV4_SIMPLE_TX_PACKET incr accepted am_type msg 32 (s, mem(msg := m), w) = None"
    using assms(3) by (simp add: IPV4_SIMPLE_TX_PACKET_def Let_def)
  then show ?thesis using tx(1) udp_too_long [of _ accepted source msg u mem] udp_too_long [of 2 accepted source msg u]
    unfolding UDP_IPV4_MOD_TX_PACKET_def UDP_IPV4_MOD_INIT_IP_ADDR_def by auto
qed

theorem udp_carries_no_data_witness:
  "(\<exists>mem'. UDP_IPV4_MOD_INIT_IP_ADDR 1 0x0a000007 2 (udp_fresh, \<lambda>p. replicate 35 0) = Some ((udp_fresh, mem'), [], 0)) \<and>
   UDP_IPV4_MOD_TX_PACKET 1 0x0a000007 2 2 (udp_fresh, \<lambda>p. replicate 35 0) = Some ((udp_fresh, \<lambda>p. replicate 35 0), [], 0)"
proof -
  have "ud_state udp_fresh = 0" "length (replicate 35 (0 :: u8)) = sizeof_TOS_Msg" "ip_state ipv4_fresh = 0" "2 \<le> sint (2 :: u16)"
    by (simp_all add: udp_fresh_def ipv4_fresh_def sizeof_TOS_Msg_def)
  then show ?thesis
    using udp_carries_no_data [where u = udp_fresh and msg = 2 and mem = "\<lambda>p. replicate 35 0" and s = ipv4_fresh and accepted = 1
        and source = "0x0a000007" and incr = "\<lambda>x. x" and am_type = 32 and w = "()"] by blast
qed

end
