(* ===== verification/UdpEcho.thy ===== *)
theory UdpEcho
  imports Udp
begin

text \<open>
  The echo service, \<open>aps_proj/UDP_ECHO.c\<close>, wired to the transport layer as in \<open>apps/udp_ipv4_echo.desc\<close>: a
  datagram to its port is sent back to where it came from, in the buffer it came in, which is kept until the layers below
  report it sent.

  The theorem: a request is answered, and the answer reaches the one who asked.
\<close>

section \<open>State and operations\<close>

definition UDP_ECHO_PORT :: u16 where "UDP_ECHO_PORT = 1101"

record udp_echo =
  current_msg :: ptr
  tx_pending :: u8

datatype echo_out =
    UDP_ECHO_SUB_INIT
  | UDP_ECHO_SUB_LED_INIT
  | UDP_ECHO_SUB_SET_UDP_PORT u16
  | UDP_ECHO_SUB_INIT_IP_ADDR ptr
  | UDP_ECHO_SUB_POWER u8
  | UDP_ECHO_SUB_TOG_GREEN
  | UDP_ECHO_SUB_TOG_RED
  | UDP_ECHO_SUB_SET_DEST u32
  | UDP_ECHO_SUB_SET_UDP_REMOTE_PORT u16

text \<open>\<open>init_buffer1\<close> is the address of the frame's buffer.\<close>

definition UDP_ECHO_INIT :: "ptr \<Rightarrow> u8 \<Rightarrow> udp_echo \<Rightarrow> udp_echo \<times> echo_out list \<times> u8" where
  "UDP_ECHO_INIT init_buffer1 ok s =
     (let s = s\<lparr>current_msg := init_buffer1, tx_pending := 0\<rparr>
      in if ok = 0 then (s, [UDP_ECHO_SUB_INIT], 0)
         else (s, [UDP_ECHO_SUB_INIT, UDP_ECHO_SUB_LED_INIT, UDP_ECHO_SUB_SET_UDP_PORT UDP_ECHO_PORT], 1))"

definition UDP_ECHO_START :: "u8 \<Rightarrow> udp_echo \<Rightarrow> udp_echo \<times> echo_out list \<times> u8" where
  "UDP_ECHO_START ok s =
     (if ok \<noteq> 0 then (s\<lparr>tx_pending := 1\<rparr>, [UDP_ECHO_SUB_INIT_IP_ADDR (current_msg s)], 1)
      else (s, [UDP_ECHO_SUB_INIT_IP_ADDR (current_msg s)], 0))"

definition UDP_ECHO_POWER :: "u8 \<Rightarrow> udp_echo \<Rightarrow> udp_echo \<times> echo_out list \<times> u8" where
  "UDP_ECHO_POWER mode s = (s, [UDP_ECHO_SUB_POWER mode], 1)"

text \<open>The loop that copies the data of the datagram to the beginning of the message.\<close>

primrec copy_data :: "nat \<Rightarrow> nat \<Rightarrow> u8 list \<Rightarrow> u8 list option" where
  "copy_data i 0 m = Some m"
| "copy_data i (Suc n) m =
     (if sizeof_toshdr + sizeof_ipv4hdr + sizeof_udphdr + i < length m
      then copy_data (Suc i) n (m[i := m ! (sizeof_toshdr + sizeof_ipv4hdr + sizeof_udphdr + i)]) else None)"

text \<open>The commands of the layer below act on its state; \<open>tx\<close> may go out of bounds.\<close>

record 'u udp_commands =
  set_dest :: "u32 \<Rightarrow> 'u \<Rightarrow> 'u"
  set_remote_port :: "u16 \<Rightarrow> 'u \<Rightarrow> 'u"
  udp_tx :: "ptr \<Rightarrow> u16 \<Rightarrow> 'u \<times> memory \<Rightarrow> (('u \<times> memory) \<times> u8) option"

definition UDP_ECHO_RX ::
  "'u udp_commands \<Rightarrow> ptr \<Rightarrow> udp_echo \<times> 'u \<times> memory \<Rightarrow> ((udp_echo \<times> 'u \<times> memory) \<times> echo_out list \<times> ptr) option" where
  "UDP_ECHO_RX C rx_msg st =
     (case st of (s, u, mem) \<Rightarrow>
        let ipp = sizeof_toshdr; udpp = sizeof_toshdr + sizeof_ipv4hdr; m = mem rx_msg
        in if tx_pending s = 0 then
             (let ret_msg = current_msg s; s = s\<lparr>current_msg := rx_msg\<rparr>
              in if bswap16 (get16 (udp_dst_port udpp) m) \<noteq> UDP_ECHO_PORT then Some ((s, u, mem), [UDP_ECHO_SUB_TOG_GREEN], ret_msg)
                 else
                   (let dest = bswap32 (get32 (ip_src_addr ipp) m);
                        port = bswap16 (get16 (udp_src_port udpp) m);
                        u = set_remote_port C port (set_dest C dest u);
                        dataLen = bswap16 (get16 (udp_len udpp) m) - word_of_nat sizeof_udphdr
                    in case copy_data 0 (nat (sint dataLen)) m of None \<Rightarrow> None | Some m \<Rightarrow>
                         (case udp_tx C (current_msg s) dataLen (u, mem(current_msg s := m)) of None \<Rightarrow> None
                          | Some ((u, mem), r) \<Rightarrow>
                              Some ((if r \<noteq> 0 then s\<lparr>tx_pending := 1\<rparr> else s, u, mem),
                                [UDP_ECHO_SUB_TOG_GREEN, UDP_ECHO_SUB_SET_DEST dest, UDP_ECHO_SUB_SET_UDP_REMOTE_PORT port, UDP_ECHO_SUB_TOG_RED],
                                ret_msg))))
           else Some ((s, u, mem), [UDP_ECHO_SUB_TOG_GREEN], rx_msg))"

definition UDP_ECHO_TX_DONE :: "ptr \<Rightarrow> udp_echo \<Rightarrow> udp_echo \<times> u8" where
  "UDP_ECHO_TX_DONE tx_msg s = (if current_msg s = tx_msg then s\<lparr>tx_pending := 0\<rparr> else s, 1)"

section \<open>On the transport layer\<close>

text \<open>The layer below as it is, with the answer of the internet layer and the mote's address.\<close>

definition commands_of_udp :: "u8 \<Rightarrow> u32 \<Rightarrow> udp udp_commands" where
  "commands_of_udp accepted source = \<lparr>set_dest = \<lambda>a u. fst (UDP_IPV4_MOD_SET_DEST a u),
     set_remote_port = \<lambda>p u. fst (UDP_IPV4_MOD_SET_REMOTE_PORT p u),
     udp_tx = \<lambda>msg len st. case UDP_IPV4_MOD_TX_PACKET accepted source msg len st of None \<Rightarrow> None | Some (st, out, r) \<Rightarrow> Some (st, r)\<rparr>"

lemma echo_rx_empty:
  assumes e: "tx_pending e = 0"
    and m: "bswap16 (get16 25 (mem p)) = UDP_ECHO_PORT" "bswap16 (get16 27 (mem p)) = 8"
    and a: "a = bswap32 (get32 15 (mem p))" "port = bswap16 (get16 23 (mem p))"
    and tx: "UDP_IPV4_MOD_TX_PACKET accepted source p 0 (u\<lparr>dest_addr := a, remote_port := port\<rparr>, mem) = Some ((u', mem'), out, 1)"
  shows "UDP_ECHO_RX (commands_of_udp accepted source) p (e, u, mem) =
    Some ((\<lparr>current_msg = p, tx_pending = 1\<rparr>, u', mem'),
      [UDP_ECHO_SUB_TOG_GREEN, UDP_ECHO_SUB_SET_DEST a, UDP_ECHO_SUB_SET_UDP_REMOTE_PORT port, UDP_ECHO_SUB_TOG_RED], current_msg e)"
proof -
  have 0: "(8 :: u16) - word_of_nat sizeof_udphdr = 0" by (simp add: sizeof_udphdr_def)
  show ?thesis
    unfolding UDP_ECHO_RX_def prod.case header_offsets sizeof_toshdr_def sizeof_ipv4hdr_def Let_def
    using e m tx 0 unfolding a
    by (cases e) (simp add: commands_of_udp_def UDP_IPV4_MOD_SET_DEST_def UDP_IPV4_MOD_SET_REMOTE_PORT_def)
qed

text \<open>C17: An idle echo service that is shown an empty datagram for its port, from address \<open>a\<close> and port \<open>port\<close>, answers it: it
  exchanges buffers, and the answer, with \<open>a\<close> and \<open>port\<close> as destination and its own address and port as source, passes
  the transport and internet layers of both motes and is shown to the client of the mote whose address is \<open>a\<close>.
  Until it is reported sent, the service keeps the buffer and answers nothing else.\<close>

theorem echo_answers:
  fixes mem rmem :: memory
  assumes e: "tx_pending e = 0" and u: "ud_state u = 0" "length (mem msg) = sizeof_TOS_Msg" and s: "ip_state s = 0"
    and m: "bswap16 (get16 25 (mem msg)) = UDP_ECHO_PORT" "bswap16 (get16 27 (mem msg)) = 8"
      "a = bswap32 (get32 15 (mem msg))" "port = bswap16 (get16 23 (mem msg))"
    and a: "a = my_ipv4 r" "a \<noteq> IPV4_BCAST_ADDR" "a \<noteq> IPV4_BOOT_ADDR"
  shows "\<exists>e' u' s' m1 m d m2 to out.
    UDP_ECHO_RX (commands_of_udp 1 (my_ipv4 s)) msg (e, u, mem) = Some ((e', u', mem(msg := m1)), out, current_msg e) \<and>
    IPV4_SIMPLE_TX_PACKET incr 1 am_type msg 31 (s, mem(msg := m1), w)
      = Some ((s', mem(msg := m), w), [IPV4_SIMPLE_SUB_TX_PACKET to am_type msg], 1) \<and>
    IPV4_SIMPLE_RX upcall p (r, rmem(p := [addr, type, grp] @ drop 3 m), v) = Some (upcall p (r, rmem(p := [addr, type, grp] @ d), v)) \<and>
    UDP_IPV4_MOD_RX client local p (q, rmem(p := [addr, type, grp] @ d), x)
      = Some (case client p (q, rmem(p := [addr, type, grp] @ m2), x) of (st, b) \<Rightarrow> (st, [], b)) \<and>
    get32 12 m2 = bswap32 (my_ipv4 s) \<and> get32 16 m2 = bswap32 a \<and>
    get16 20 m2 = bswap16 (local_port u) \<and> get16 22 m2 = bswap16 port \<and> get16 24 m2 = bswap16 8 \<and>
    (\<forall>C msg2 (st :: udp \<times> memory). UDP_ECHO_RX C msg2 (e', st) = Some ((e', st), [UDP_ECHO_SUB_TOG_GREEN], msg2)) \<and>
    tx_pending (fst (UDP_ECHO_TX_DONE msg e')) = 0"
proof -
  let ?u = "u\<lparr>dest_addr := a, remote_port := port\<rparr>" and ?e = "\<lparr>current_msg = msg, tx_pending = 1\<rparr>"
  obtain u' s' m1 m d m2 to where run:
    "UDP_IPV4_MOD_TX_PACKET 1 (my_ipv4 s) msg 0 (?u, mem) = Some ((u', mem(msg := m1)), [UDP_IPV4_MOD_SUB_TX_PACKET msg 31], 1)"
    "IPV4_SIMPLE_TX_PACKET incr 1 am_type msg 31 (s, mem(msg := m1), w) = Some ((s', mem(msg := m), w), [IPV4_SIMPLE_SUB_TX_PACKET to am_type msg], 1)"
    "IPV4_SIMPLE_RX upcall p (r, rmem(p := [addr, type, grp] @ drop 3 m), v) = Some (upcall p (r, rmem(p := [addr, type, grp] @ d), v))"
    "UDP_IPV4_MOD_RX client local p (q, rmem(p := [addr, type, grp] @ d), x)
      = Some (case client p (q, rmem(p := [addr, type, grp] @ m2), x) of (st, b) \<Rightarrow> (st, [], b))"
    "get32 12 m2 = bswap32 (my_ipv4 s)" "get32 16 m2 = bswap32 a" "get16 20 m2 = bswap16 (local_port u)" "get16 22 m2 = bswap16 port"
    "get16 24 m2 = bswap16 8"
    using udp_end_to_end [where u = ?u and mem = mem and msg = msg and s = s and accepted = 1 and r = r and incr = incr and am_type = am_type
        and w = w and upcall = upcall and p = p and rmem = rmem and addr = addr and type = type and grp = grp and v = v and client = client
        and local = local and q = q and x = x] u s a by auto
  have "UDP_ECHO_RX (commands_of_udp 1 (my_ipv4 s)) msg (e, u, mem) = Some ((?e, u', mem(msg := m1)),
      [UDP_ECHO_SUB_TOG_GREEN, UDP_ECHO_SUB_SET_DEST a, UDP_ECHO_SUB_SET_UDP_REMOTE_PORT port, UDP_ECHO_SUB_TOG_RED], current_msg e)"
    by (rule echo_rx_empty [where mem = mem and p = msg, OF e m run(1)])
  moreover have "UDP_ECHO_RX C msg2 (?e, st) = Some ((?e, st), [UDP_ECHO_SUB_TOG_GREEN], msg2)" for C msg2 and st :: "udp \<times> memory"
    by (cases st) (simp add: UDP_ECHO_RX_def)
  moreover have "tx_pending (fst (UDP_ECHO_TX_DONE msg ?e)) = 0" by (simp add: UDP_ECHO_TX_DONE_def)
  ultimately show ?thesis using run by blast
qed

definition echo_request :: "u8 list" where
  "echo_request = [7, 32, 9, 0x45, 0, 0, 28, 0, 0, 0, 0, 64, 17, 0, 0, 10, 0, 0, 7, 10, 0, 0, 8, 0, 9, 4, 0x4d, 0, 8, 0, 0, 0, 0, 0, 0]"

theorem echo_answers_witness:
  "\<exists>e' u' m1 out. UDP_ECHO_RX (commands_of_udp 1 (my_ipv4 (ipv4_fresh\<lparr>my_ipv4 := 0x0a000008\<rparr>))) 2
      (\<lparr>current_msg = 4, tx_pending = 0\<rparr>, udp_fresh\<lparr>local_port := 1101\<rparr>, (\<lambda>_. echo_request)) = Some ((e', u', (\<lambda>_. echo_request)(2 := m1)), out, 4)"
proof -
  have "bswap16 (get16 25 echo_request) = UDP_ECHO_PORT" "bswap16 (get16 27 echo_request) = 8"
    "0x0a000007 = bswap32 (get32 15 echo_request)" "9 = bswap16 (get16 23 echo_request)"
    by (simp_all add: echo_request_def get16_def get32_def word16_def word32_def read_bytes_def upt_rec bswap16_def bswap32_def UDP_ECHO_PORT_def)
  then show ?thesis
    using echo_answers [where e = "\<lparr>current_msg = 4, tx_pending = 0\<rparr>" and u = "udp_fresh\<lparr>local_port := 1101\<rparr>" and mem = "\<lambda>_. echo_request"
        and msg = 2 and s = "ipv4_fresh\<lparr>my_ipv4 := 0x0a000008\<rparr>" and a = "0x0a000007" and port = 9 and r = ipv4_fresh
        and incr = "\<lambda>x. x" and am_type = 32 and w = "()" and upcall = "\<lambda>p st. (st, 5)" and p = 3 and rmem = "\<lambda>_. echo_request"
        and addr = 7 and type = 32 and grp = 9 and v = "()" and client = "\<lambda>p st. (st, 5)" and local = 7 and q = udp_fresh and x = "()"]
    by (fastforce simp: udp_fresh_def ipv4_fresh_def sizeof_TOS_Msg_def echo_request_def IPV4_BCAST_ADDR_def IPV4_BOOT_ADDR_def)
qed

end
