(* ===== verification/RfsFiles.thy ===== *)
theory RfsFiles
  imports Prelude "HOL-Library.AList"
begin

text \<open>
  The remote file system of \<open>OS_course/rfs\<close>: the calls on an open file. The client library (\<open>librfs.c\<close>) sends
  a header \<open>op_hdr\<close>, and data, over a connection; the server (\<open>server.c\<close>) makes the call of the operating system the header
  asks for and answers with the header it got, changed where the result goes. A virtual descriptor is the number of the connection in
  the upper half of a word and the server's descriptor in the lower.

  The calls of the operating system are those of POSIX on the files of the one directory the program uses, with the flags of Linux:
  the lowest free descriptor is given out, a read or write is never short for another reason than the file's end, permissions are not looked at.
  Headers arrive whole. Data arrive in pieces, which \<open>READ_ALL\<close> collects. The fields of a header that the client does not set are
  an argument.

  The fields of a header are \<open>int\<close>s of 32 bits. They are integers here, and \<open>int32\<close> is written wherever the code puts a \<open>size_t\<close>, an
  \<open>off_t\<close> or a \<open>ssize_t\<close> into an \<open>int\<close>. \<open>None\<close> is undefined behaviour, such as an array of negative size, or a call that does not return.
  Arrays whose size is in a header are taken to fit on the stack.
\<close>

section \<open>The calls of the operating system\<close>

type_synonym content = "u8 list"

datatype descriptor = Free | Other | File string nat int

record os =
  disk :: "(string \<times> content) list"
  descr :: "descriptor list"

definition O_ACCMODE :: int where "O_ACCMODE = 3"
definition O_RDONLY :: int where "O_RDONLY = 0"
definition O_WRONLY :: int where "O_WRONLY = 1"
definition O_CREAT :: int where "O_CREAT = 0x40"
definition O_TRUNC :: int where "O_TRUNC = 0x200"
definition O_APPEND :: int where "O_APPEND = 0x400"

definition ENOENT :: int where "ENOENT = 2"
definition EBADF :: int where "EBADF = 9"
definition EACCES :: int where "EACCES = 13"
definition EINVAL :: int where "EINVAL = 22"

definition contents :: "string \<Rightarrow> os \<Rightarrow> content" where
  "contents name s = (case map_of (disk s) name of None \<Rightarrow> [] | Some d \<Rightarrow> d)"

definition lowest_free :: "os \<Rightarrow> nat" where
  "lowest_free s = length (takeWhile (\<lambda>e. e \<noteq> Free) (descr s))"

definition install :: "descriptor \<Rightarrow> os \<Rightarrow> os \<times> int" where
  "install e s = (let k = lowest_free s in
     (s\<lparr>descr := (if k < length (descr s) then (descr s)[k := e] else descr s @ [e])\<rparr>, int k))"

definition lookup_fd :: "int \<Rightarrow> os \<Rightarrow> (string \<times> nat \<times> int) option" where
  "lookup_fd fd s = (if 0 \<le> fd \<and> nat fd < length (descr s)
     then (case descr s ! nat fd of File name pos mode \<Rightarrow> Some (name, pos, mode) | _ \<Rightarrow> None) else None)"

definition sys_open :: "string \<Rightarrow> int \<Rightarrow> os \<Rightarrow> int + os \<times> int" where
  "sys_open name mode s =
     (case map_of (disk s) name of
        None \<Rightarrow> if mode AND O_CREAT = 0 then Inl ENOENT
          else Inr (install (File name 0 mode) (s\<lparr>disk := disk s @ [(name, [])]\<rparr>))
      | Some d \<Rightarrow> Inr (install (File name 0 mode)
          (if mode AND O_TRUNC \<noteq> 0 then s\<lparr>disk := AList.update name [] (disk s)\<rparr> else s)))"

definition set_pos :: "int \<Rightarrow> nat \<Rightarrow> os \<Rightarrow> os" where
  "set_pos fd pos s = (case descr s ! nat fd of
     File name p mode \<Rightarrow> s\<lparr>descr := (descr s)[nat fd := File name pos mode]\<rparr> | _ \<Rightarrow> s)"

definition sys_read :: "int \<Rightarrow> nat \<Rightarrow> os \<Rightarrow> int + os \<times> content" where
  "sys_read fd n s =
     (case lookup_fd fd s of None \<Rightarrow> Inl EBADF
      | Some (name, pos, mode) \<Rightarrow>
          if mode AND O_ACCMODE = O_WRONLY then Inl EBADF
          else (let d = take n (drop pos (contents name s)) in Inr (set_pos fd (pos + length d) s, d)))"

definition overwrite :: "nat \<Rightarrow> content \<Rightarrow> content \<Rightarrow> content" where
  "overwrite pos xs d = (if xs = [] then d else take pos (d @ replicate (pos - length d) 0) @ xs @ drop (pos + length xs) d)"

definition sys_write :: "int \<Rightarrow> content \<Rightarrow> os \<Rightarrow> int + os \<times> int" where
  "sys_write fd xs s =
     (case lookup_fd fd s of None \<Rightarrow> Inl EBADF
      | Some (name, pos, mode) \<Rightarrow>
          if mode AND O_ACCMODE = O_RDONLY then Inl EBADF
          else (let pos = (if mode AND O_APPEND \<noteq> 0 then length (contents name s) else pos) in
            Inr (set_pos fd (pos + length xs) (s\<lparr>disk := AList.update name (overwrite pos xs (contents name s)) (disk s)\<rparr>),
              int (length xs))))"

definition sys_lseek :: "int \<Rightarrow> int \<Rightarrow> int \<Rightarrow> os \<Rightarrow> int + os \<times> int" where
  "sys_lseek fd offset whence s =
     (case lookup_fd fd s of None \<Rightarrow> Inl EBADF
      | Some (name, pos, mode) \<Rightarrow>
          if whence \<notin> {0, 1, 2} then Inl EINVAL
          else (let new = offset + (if whence = 0 then 0 else if whence = 1 then int pos else int (length (contents name s)))
            in if new < 0 then Inl EINVAL else Inr (set_pos fd (nat new) s, new)))"

definition sys_getfl :: "int \<Rightarrow> os \<Rightarrow> int" where
  "sys_getfl fd s = (case lookup_fd fd s of None \<Rightarrow> - 1 | Some (name, pos, mode) \<Rightarrow> mode)"

definition sys_close :: "int \<Rightarrow> os \<Rightarrow> int + os" where
  "sys_close fd s = (case lookup_fd fd s of None \<Rightarrow> Inl EBADF | Some f \<Rightarrow> Inr (s\<lparr>descr := (descr s)[nat fd := Free]\<rparr>))"

section \<open>The wire\<close>

definition OP_OPEN :: int where "OP_OPEN = 0x2"
definition OP_READ :: int where "OP_READ = 0x4"
definition OP_WRITE :: int where "OP_WRITE = 0x8"
definition OP_SEEK :: int where "OP_SEEK = 0x10"
definition OP_CLOSE :: int where "OP_CLOSE = 0x20"
definition OP_REDIRECT :: int where "OP_REDIRECT = 0x80"
definition O_REPLICATE :: int where "O_REPLICATE = 0x1000"
definition ERR_OPEN :: int where "ERR_OPEN = - OP_OPEN"
definition ERR_READ :: int where "ERR_READ = - OP_READ"
definition ERR_WRITE :: int where "ERR_WRITE = - OP_WRITE"
definition ERR_SEEK :: int where "ERR_SEEK = - OP_SEEK"
definition ERR_CLOSE :: int where "ERR_CLOSE = - OP_CLOSE"

lemmas rfs_codes = OP_OPEN_def OP_READ_def OP_WRITE_def OP_SEEK_def OP_CLOSE_def OP_REDIRECT_def O_REPLICATE_def
  ERR_OPEN_def ERR_READ_def ERR_WRITE_def ERR_SEEK_def ERR_CLOSE_def O_ACCMODE_def O_RDONLY_def O_WRONLY_def O_CREAT_def
  O_TRUNC_def O_APPEND_def

text \<open>What an \<open>int\<close> holds after something wider was assigned to it.\<close>

definition int32 :: "int \<Rightarrow> int" where
  "int32 x = signed_take_bit 31 x"

lemma int32_id: "- (2 ^ 31) \<le> x \<Longrightarrow> x < 2 ^ 31 \<Longrightarrow> int32 x = x"
  by (simp add: int32_def signed_take_bit_int_eq_self)

lemma int32_length: "length d < 2 ^ 31 \<Longrightarrow> int32 (int (length d)) = int (length d)"
  by (rule int32_id) simp_all

text \<open>The most that Linux transfers in one call.\<close>

definition MAX_TRANSFER :: nat where "MAX_TRANSFER = 0x7ffff000"

record op_hdr =
  hdr_op :: int
  p1 :: int
  p2 :: int
  p3 :: int

text \<open>One \<open>read\<close> takes what has arrived, one piece of the stream, or as much of it as was asked for; nothing when the peer has
  closed. \<open>READ_ALL\<close> asks for the whole size each time, and leaves in \<open>ret\<close> what the last call returned. The result is
  what was written to the buffer, which may run over its end, \<open>ret\<close>, and the stream.\<close>

definition read_soc :: "nat \<Rightarrow> content list \<Rightarrow> content \<times> content list" where
  "read_soc n segs = (case segs of [] \<Rightarrow> ([], []) | seg # segs \<Rightarrow>
     if length seg \<le> n then (seg, segs) else (take n seg, drop n seg # segs))"

partial_function (option) read_all :: "nat \<Rightarrow> content \<Rightarrow> content list \<Rightarrow> (content \<times> nat \<times> content list) option" where
  "read_all n buff segs =
     (let seg = fst (read_soc n segs); segs = snd (read_soc n segs); buff = buff @ seg
      in if length buff < n then read_all n buff segs else Some (buff, length seg, segs))"

definition READ_ALL :: "nat \<Rightarrow> content list \<Rightarrow> (content \<times> nat \<times> content list) option" where
  "READ_ALL n segs = read_all n [] segs"

section \<open>Calls on an open file\<close>

definition server_read :: "op_hdr \<Rightarrow> os \<Rightarrow> (os \<times> op_hdr \<times> content) option" where
  "server_read h s =
     (let client_size = p2 h
      in if client_size < 0 then None
         else (case sys_read (p1 h) (nat client_size) s of
                 Inl e \<Rightarrow> Some (s, h\<lparr>hdr_op := ERR_READ, p1 := e\<rparr>, [])
               | Inr (s, d) \<Rightarrow> Some (s, h\<lparr>p1 := int32 (int (length d))\<rparr>, d)))"

text \<open>\<open>buff\<close> is what follows the header. If it has another length than the header says, the server waits for ever, or takes the rest for the
  next header.\<close>

definition server_write :: "op_hdr \<Rightarrow> content \<Rightarrow> os \<Rightarrow> (os \<times> op_hdr) option" where
  "server_write h buff s =
     (let file_size = p2 h
      in if file_size < 0 \<or> int (length buff) \<noteq> file_size then None
         else (case sys_write (p1 h) buff s of
                 Inl e \<Rightarrow> Some (s, h\<lparr>hdr_op := ERR_WRITE, p1 := e\<rparr>)
               | Inr (s, len) \<Rightarrow> Some (s, h\<lparr>p1 := int32 len\<rparr>)))"

text \<open>The test is made on the \<open>int\<close>. \<open>errno\<close> is what an earlier call left there.\<close>

definition server_seek :: "int \<Rightarrow> op_hdr \<Rightarrow> os \<Rightarrow> os \<times> op_hdr" where
  "server_seek errno h s =
     (case sys_lseek (p1 h) (p2 h) (p3 h) s of
        Inl e \<Rightarrow> (s, h\<lparr>hdr_op := ERR_SEEK, p1 := e\<rparr>)
      | Inr (s, pos) \<Rightarrow>
          (let put_hdr = h\<lparr>p1 := int32 pos\<rparr>
           in if p1 put_hdr < 0 then (s, put_hdr\<lparr>hdr_op := ERR_SEEK, p1 := errno\<rparr>) else (s, put_hdr)))"

text \<open>The client's side: what is returned, and for a read what is in the buffer. \<open>pieces\<close> is how the network cuts up data.
  \<open>WRITE_SOC\<close> ends the thread when not all is written in one call.\<close>

definition client_read :: "op_hdr \<Rightarrow> (content \<Rightarrow> content list) \<Rightarrow> int \<Rightarrow> nat \<Rightarrow> os \<Rightarrow> (os \<times> int \<times> content) option" where
  "client_read junk pieces fd nbyte s =
     (case server_read (junk\<lparr>hdr_op := OP_READ, p1 := fd, p2 := int32 (int nbyte)\<rparr>) s of None \<Rightarrow> None
      | Some (s, get_hdr, d) \<Rightarrow>
          if hdr_op get_hdr \<noteq> OP_READ then Some (s, - 1, [])
          else (case READ_ALL (nat (p1 get_hdr)) (pieces d) of None \<Rightarrow> None
                | Some (buff, len, rest) \<Rightarrow> Some (s, int len, buff)))"

definition client_write :: "op_hdr \<Rightarrow> int \<Rightarrow> content \<Rightarrow> os \<Rightarrow> (os \<times> int) option" where
  "client_write junk fd buff s =
     (if length buff > MAX_TRANSFER then None
      else
        (case server_write (junk\<lparr>hdr_op := OP_WRITE, p1 := fd, p2 := int32 (int (length buff))\<rparr>) buff s of None \<Rightarrow> None
         | Some (s, get_hdr) \<Rightarrow> Some (s, if hdr_op get_hdr \<noteq> OP_WRITE then - 1 else p1 get_hdr)))"

definition client_seek :: "int \<Rightarrow> op_hdr \<Rightarrow> int \<Rightarrow> int \<Rightarrow> int \<Rightarrow> os \<Rightarrow> os \<times> int" where
  "client_seek errno junk fd offset whence s =
     (case server_seek errno (junk\<lparr>hdr_op := OP_SEEK, p1 := fd, p2 := int32 offset, p3 := whence\<rparr>) s of (s, get_hdr) \<Rightarrow>
        (s, if hdr_op get_hdr \<noteq> OP_SEEK then - 1 else p1 get_hdr))"

text \<open>Virtual descriptors: what \<open>my_fopen\<close> packs, and how the other calls take it apart.\<close>

definition v_fd :: "int \<Rightarrow> int \<Rightarrow> u32" where
  "v_fd s_socket r_fd = push_bit 16 (word_of_int s_socket) OR (word_of_int r_fd AND 0xFFFF)"

definition s_fd :: "u32 \<Rightarrow> int" where
  "s_fd v = sint (ucast (signed_drop_bit 16 v) :: u16)"

definition r_fd :: "u32 \<Rightarrow> int" where
  "r_fd v = sint (ucast (v AND 0xFFFF) :: u16)"

text \<open>The client's connections lead to servers: \<open>conn\<close> is what is behind each.\<close>

definition my_fread ::
  "op_hdr \<Rightarrow> (content \<Rightarrow> content list) \<Rightarrow> u32 \<Rightarrow> nat \<Rightarrow> (int \<Rightarrow> os) \<Rightarrow> ((int \<Rightarrow> os) \<times> int \<times> content) option" where
  "my_fread junk pieces v nbyte conn =
     (case client_read junk pieces (r_fd v) nbyte (conn (s_fd v)) of None \<Rightarrow> None
      | Some (s, r) \<Rightarrow> Some (conn(s_fd v := s), r))"

definition my_fwrite :: "op_hdr \<Rightarrow> u32 \<Rightarrow> content \<Rightarrow> (int \<Rightarrow> os) \<Rightarrow> ((int \<Rightarrow> os) \<times> int) option" where
  "my_fwrite junk v buff conn =
     (case client_write junk (r_fd v) buff (conn (s_fd v)) of None \<Rightarrow> None | Some (s, r) \<Rightarrow> Some (conn(s_fd v := s), r))"

definition my_fseek :: "int \<Rightarrow> op_hdr \<Rightarrow> u32 \<Rightarrow> int \<Rightarrow> int \<Rightarrow> (int \<Rightarrow> os) \<Rightarrow> (int \<Rightarrow> os) \<times> int" where
  "my_fseek errno junk v offset whence conn =
     (case client_seek errno junk (r_fd v) offset whence (conn (s_fd v)) of (s, r) \<Rightarrow> (conn(s_fd v := s), r))"

section \<open>A client's calls and the same calls made on the server\<close>

lemma read_all_pieces:
  assumes "segs \<noteq> []" "[] \<notin> set segs" "length acc + length (concat segs) = n"
  shows "read_all n acc segs = Some (acc @ concat segs, length (last segs), [])"
  using assms
proof (induction segs arbitrary: acc)
  case (Cons seg segs)
  show ?case
  proof (cases "segs = []")
    case False
    then have "concat segs \<noteq> []" using Cons.prems(2) by (cases segs) auto
    then have "0 < length (concat segs)" by (simp only: length_greater_0_conv not_False_eq_True)
    then have "length acc + length seg < n" using Cons.prems(3) unfolding concat.simps length_append by linarith
    then show ?thesis
      using Cons False by (subst read_all.simps) (simp add: read_soc_def Let_def)
  qed (use Cons.prems in \<open>subst read_all.simps, simp add: read_soc_def\<close>)
qed simp

lemma READ_ALL_pieces:
  assumes "concat segs = d" "[] \<notin> set segs"
  shows "READ_ALL (length d) segs = Some (d, if d = [] then 0 else length (last segs), [])"
proof (cases "segs = []")
  case True
  then show ?thesis using assms(1) by (simp add: READ_ALL_def read_all.simps read_soc_def)
next
  case False
  then have "d \<noteq> []" using assms by (cases segs) auto
  then show ?thesis using read_all_pieces [of segs "[]" "length d"] assms False by (simp add: READ_ALL_def)
qed

text \<open>When the peer has closed before all is there, \<open>READ_ALL\<close> asks again for ever.\<close>

lemma read_all_eof_returns:
  assumes "read_all n acc segs = Some r"
  shows "segs = [] \<longrightarrow> n \<le> length acc"
proof (rule read_all.raw_induct [OF _ assms])
  fix f n and acc :: content and segs :: "content list" and r
  assume *: "\<And>n acc segs r. f n acc segs = Some r \<Longrightarrow> segs = [] \<longrightarrow> n \<le> length (acc :: content)"
    and eq: "(let seg = fst (read_soc n segs); segs = snd (read_soc n segs); acc = acc @ seg
      in if length acc < n then f n acc segs else Some (acc, length seg, segs)) = Some r"
  show "segs = [] \<longrightarrow> n \<le> length acc"
    using eq * [of n acc "[]" r] by (cases segs) (simp_all add: read_soc_def Let_def split: if_splits)
qed

lemma READ_ALL_never_returns: "0 < n \<Longrightarrow> READ_ALL n [] = None"
  using read_all_eof_returns [of n "[]" "[]"] by (cases "read_all n [] []") (auto simp: READ_ALL_def)

text \<open>Descriptors of fewer than 16 bits come back out of a virtual one.\<close>

lemma signed_low:
  assumes "0 \<le> k" "k < 32768"
  shows "sint (word_of_int k :: u16) = k"
  using assms by (simp add: sint_sbintrunc' signed_take_bit_int_eq_self)

lemma low_half: "(0xFFFF :: u32) = mask 16"
  by (simp add: mask_numeral)

lemma r_fd_v_fd:
  assumes "0 \<le> fd" "fd < 32768"
  shows "r_fd (v_fd s fd) = fd"
proof -
  have "(ucast (v_fd s fd AND 0xFFFF) :: u16) = word_of_int fd"
    unfolding v_fd_def low_half by (rule bit_word_eqI) (auto simp: bit_simps)
  then show ?thesis using assms by (simp add: r_fd_def signed_low)
qed

lemma s_fd_v_fd:
  assumes "0 \<le> s" "s < 32768"
  shows "s_fd (v_fd s fd) = s"
proof -
  have "(ucast (signed_drop_bit 16 (v_fd s fd)) :: u16) = word_of_int s"
    unfolding v_fd_def low_half by (rule bit_word_eqI) (auto simp: bit_simps)
  then show ?thesis using assms by (simp add: s_fd_def signed_low)
qed

text \<open>The same calls on the server's files, with what they return.\<close>

datatype call = Read nat | Write content | Seek int int

fun local_call :: "int \<Rightarrow> call \<Rightarrow> os \<Rightarrow> os \<times> int \<times> content" where
  "local_call fd (Read n) s = (case sys_read fd n s of Inl e \<Rightarrow> (s, - 1, []) | Inr (s, d) \<Rightarrow> (s, int (length d), d))"
| "local_call fd (Write d) s = (case sys_write fd d s of Inl e \<Rightarrow> (s, - 1, []) | Inr (s, n) \<Rightarrow> (s, n, []))"
| "local_call fd (Seek offset whence) s = (case sys_lseek fd offset whence s of Inl e \<Rightarrow> (s, - 1, []) | Inr (s, n) \<Rightarrow> (s, n, []))"

primrec local_calls :: "int \<Rightarrow> call list \<Rightarrow> os \<Rightarrow> os \<times> (int \<times> content) list" where
  "local_calls fd [] s = (s, [])"
| "local_calls fd (c # cs) s =
     (case local_call fd c s of (s, r) \<Rightarrow> case local_calls fd cs s of (s, rs) \<Rightarrow> (s, r # rs))"

fun remote_call ::
  "int \<Rightarrow> op_hdr \<Rightarrow> (content \<Rightarrow> content list) \<Rightarrow> u32 \<Rightarrow> call \<Rightarrow> (int \<Rightarrow> os) \<Rightarrow> ((int \<Rightarrow> os) \<times> int \<times> content) option" where
  "remote_call errno junk pieces v (Read n) conn = my_fread junk pieces v n conn"
| "remote_call errno junk pieces v (Write d) conn =
     (case my_fwrite junk v d conn of None \<Rightarrow> None | Some (conn, n) \<Rightarrow> Some (conn, n, []))"
| "remote_call errno junk pieces v (Seek offset whence) conn =
     (case my_fseek errno junk v offset whence conn of (conn, n) \<Rightarrow> Some (conn, n, []))"

primrec remote_calls ::
  "int \<Rightarrow> op_hdr \<Rightarrow> (content \<Rightarrow> content list) \<Rightarrow> u32 \<Rightarrow> call list \<Rightarrow> (int \<Rightarrow> os) \<Rightarrow> ((int \<Rightarrow> os) \<times> (int \<times> content) list) option" where
  "remote_calls errno junk pieces v [] conn = Some (conn, [])"
| "remote_calls errno junk pieces v (c # cs) conn =
     (case remote_call errno junk pieces v c conn of None \<Rightarrow> None
      | Some (conn, r) \<Rightarrow> (case remote_calls errno junk pieces v cs conn of None \<Rightarrow> None | Some (conn, rs) \<Rightarrow> Some (conn, r # rs)))"

text \<open>What a remote read returns in place of the number of bytes: the length of the last piece.\<close>

definition as_returned :: "(content \<Rightarrow> content list) \<Rightarrow> call \<Rightarrow> int \<times> content \<Rightarrow> int \<times> content" where
  "as_returned pieces c r = (case c of
     Read n \<Rightarrow> (if fst r < 0 then r else (if snd r = [] then 0 else int (length (last (pieces (snd r)))), snd r)) | _ \<Rightarrow> r)"

lemma READ_ALL_of_pieces:
  assumes "\<And>d. concat (pieces d) = d \<and> [] \<notin> set (pieces d)"
  shows "READ_ALL (length d) (pieces d) = Some (d, if d = [] then 0 else length (last (pieces d)), [])"
  using assms by (intro READ_ALL_pieces) auto

text \<open>The sizes and offsets a header can carry.\<close>

definition call_fits :: "call \<Rightarrow> bool" where
  "call_fits c \<longleftrightarrow> (case c of
     Read n \<Rightarrow> n \<le> MAX_TRANSFER
   | Write d \<Rightarrow> length d \<le> MAX_TRANSFER
   | Seek offset whence \<Rightarrow> - (2 ^ 31) \<le> offset \<and> offset < 2 ^ 31)"

lemma MAX_TRANSFER_int32: "n \<le> MAX_TRANSFER \<Longrightarrow> int32 (int n) = int n"
  by (rule int32_id) (simp_all add: MAX_TRANSFER_def)

lemma sys_read_length: "sys_read fd n s = Inr (s', d) \<Longrightarrow> length d \<le> n"
  by (auto simp: sys_read_def Let_def split: option.splits prod.splits if_splits)

lemma sys_write_length: "sys_write fd d s = Inr (s', n) \<Longrightarrow> n = int (length d)"
  by (auto simp: sys_write_def Let_def split: option.splits prod.splits if_splits)

lemma sys_lseek_nonneg: "sys_lseek fd offset whence s = Inr (s', n) \<Longrightarrow> 0 \<le> n"
  by (auto simp: sys_lseek_def Let_def split: option.splits prod.splits if_splits)

lemma remote_read_is_local:
  assumes v: "s_fd v = sock" "r_fd v = fd"
    and pieces: "\<And>d. concat (pieces d) = d \<and> [] \<notin> set (pieces d)" and n: "n \<le> MAX_TRANSFER"
  shows "my_fread junk pieces v n conn =
    (case local_call fd (Read n) (conn sock) of (s, r) \<Rightarrow> Some (conn(sock := s), as_returned pieces (Read n) r))"
proof (cases "sys_read fd n (conn sock)")
  case (Inl e)
  then show ?thesis
    using MAX_TRANSFER_int32 [OF n] by (simp add: my_fread_def client_read_def v server_read_def rfs_codes as_returned_def)
next
  case (Inr r)
  obtain s d where r: "r = (s, d)" by (cases r)
  then have "length d \<le> MAX_TRANSFER" using sys_read_length [of fd n "conn sock" s d] Inr n by simp
  then have "int32 (int (length d)) = int (length d)" by (rule MAX_TRANSFER_int32)
  then show ?thesis
    using Inr r MAX_TRANSFER_int32 [OF n] READ_ALL_of_pieces [of pieces d] pieces
    by (simp add: my_fread_def client_read_def v server_read_def as_returned_def)
qed

lemma remote_write_is_local:
  assumes v: "s_fd v = sock" "r_fd v = fd" and d: "length d \<le> MAX_TRANSFER"
  shows "my_fwrite junk v d conn = (case local_call fd (Write d) (conn sock) of (s, r) \<Rightarrow> Some (conn(sock := s), fst r))"
proof (cases "sys_write fd d (conn sock)")
  case (Inl e)
  then show ?thesis
    using d MAX_TRANSFER_int32 [OF d] by (simp add: my_fwrite_def client_write_def v server_write_def rfs_codes)
next
  case (Inr r)
  obtain s n where r: "r = (s, n)" by (cases r)
  then have "n = int (length d)" using sys_write_length [of fd d "conn sock" s n] Inr by simp
  then show ?thesis
    using Inr r d MAX_TRANSFER_int32 [OF d] by (simp add: my_fwrite_def client_write_def v server_write_def Let_def)
qed

lemma remote_seek_is_local:
  assumes v: "s_fd v = sock" "r_fd v = fd" and offset: "- (2 ^ 31) \<le> offset" "offset < 2 ^ 31"
    and small: "fst (snd (local_call fd (Seek offset whence) (conn sock))) < 2 ^ 31"
  shows "my_fseek errno junk v offset whence conn = (case local_call fd (Seek offset whence) (conn sock) of (s, r) \<Rightarrow> (conn(sock := s), fst r))"
proof (cases "sys_lseek fd offset whence (conn sock)")
  case (Inl e)
  then show ?thesis
    using int32_id [OF offset] by (simp add: my_fseek_def client_seek_def v server_seek_def rfs_codes)
next
  case (Inr r)
  obtain s n where r: "r = (s, n)" by (cases r)
  then have n: "0 \<le> n" "n < 2 ^ 31" using sys_lseek_nonneg [of fd offset whence "conn sock" s n] Inr small by simp_all
  then have "int32 n = n" by (intro int32_id) simp_all
  then show ?thesis
    using Inr r n int32_id [OF offset] by (simp add: my_fseek_def client_seek_def v server_seek_def Let_def)
qed

lemma remote_call_is_local:
  assumes v: "s_fd v = sock" "r_fd v = fd"
    and pieces: "\<And>d. concat (pieces d) = d \<and> [] \<notin> set (pieces d)"
    and fits: "call_fits c" "fst (snd (local_call fd c (conn sock))) < 2 ^ 31"
  shows "remote_call errno junk pieces v c conn =
    (case local_call fd c (conn sock) of (s, r) \<Rightarrow> Some (conn(sock := s), as_returned pieces c r))"
proof (cases c)
  case (Read n)
  then show ?thesis using remote_read_is_local [OF v pieces] fits(1) by (simp add: call_fits_def)
next
  case (Write d)
  then show ?thesis
    using remote_write_is_local [OF v] fits(1) by (simp add: call_fits_def as_returned_def split: sum.split)
next
  case (Seek offset whence)
  then show ?thesis
    using remote_seek_is_local [OF v] fits by (simp add: call_fits_def as_returned_def split: sum.split)
qed

text \<open>C16: Any sequence of reads, writes and seeks a client makes on a virtual descriptor has on the server it leads to the effect of
  the same calls made there, touches no other server and returns the same, errors included, with one exception: a read's data are
  right, but what it returns is the length of the last piece in which they arrived, not their number. This holds as long as sizes
  are at most what Linux transfers in one call, offsets have 32 bits, and no call made on the server would return a position of 2 gigabytes
  or more: the headers carry 32-bit numbers. (The server holds the data of a call in an array on its stack, which is taken to be large enough.)\<close>

theorem remote_calls_are_local:
  assumes "0 \<le> sock" "sock < 32768" "0 \<le> fd" "fd < 32768"
    and pieces: "\<And>d. concat (pieces d) = d \<and> [] \<notin> set (pieces d)"
    and fits: "\<forall>c \<in> set cs. call_fits c" "\<forall>r \<in> set (snd (local_calls fd cs (conn sock))). fst r < 2 ^ 31"
  shows "remote_calls errno junk pieces (v_fd sock fd) cs conn =
    (case local_calls fd cs (conn sock) of (s, rs) \<Rightarrow> Some (conn(sock := s), map2 (as_returned pieces) cs rs))"
  using fits
proof (induction cs arbitrary: conn)
  case (Cons c cs)
  obtain s r where c: "local_call fd c (conn sock) = (s, r)" by (cases "local_call fd c (conn sock)")
  obtain s' rs where cs: "local_calls fd cs s = (s', rs)" by (cases "local_calls fd cs s")
  have small: "call_fits c" "fst (snd (local_call fd c (conn sock))) < 2 ^ 31" "\<forall>c \<in> set cs. call_fits c"
    "\<forall>r \<in> set (snd (local_calls fd cs ((conn(sock := s)) sock))). fst r < 2 ^ 31"
    using Cons.prems by (simp_all add: c cs)
  have "remote_call errno junk pieces (v_fd sock fd) c conn = Some (conn(sock := s), as_returned pieces c r)"
    using remote_call_is_local [of "v_fd sock fd" sock fd pieces c conn errno junk] s_fd_v_fd [OF assms(1,2)] r_fd_v_fd [OF assms(3,4)]
      pieces small(1,2) by (simp add: c)
  moreover have "remote_calls errno junk pieces (v_fd sock fd) cs (conn(sock := s)) =
      Some (conn(sock := s'), map2 (as_returned pieces) cs rs)"
    using Cons.IH [where conn = "conn(sock := s)", OF small(3,4)] by (simp only: fun_upd_same fun_upd_upd cs prod.case)
  ultimately show ?case by (simp add: c cs fun_upd_def)
qed simp

text \<open>Beyond: a position from 2 to 4 gigabytes is reached, but the client is told that the seek failed.\<close>

lemma far_seek_fails:
  assumes "sys_lseek (r_fd v) offset whence (conn (s_fd v)) = Inr (s, pos)" and "- (2 ^ 31) \<le> offset" "offset < 2 ^ 31"
    and "2 ^ 31 \<le> pos" "pos < 2 ^ 32"
  shows "my_fseek errno junk v offset whence conn = (conn(s_fd v := s), - 1)"
proof -
  have "int32 pos = (pos + 2 ^ 31) mod 2 ^ 32 - 2 ^ 31"
    by (simp add: int32_def signed_take_bit_eq_take_bit_shift take_bit_eq_mod)
  also have "(pos + 2 ^ 31) mod 2 ^ 32 = (pos + 2 ^ 31 - 2 ^ 32) mod 2 ^ 32" by (simp add: minus_mod_self2 del: power_numeral)
  also have "\<dots> = pos + 2 ^ 31 - 2 ^ 32" using assms(4,5) by (intro mod_pos_pos_trivial) simp_all
  finally have "int32 pos < 0" using assms(5) by simp
  then show ?thesis
    using assms(1) int32_id [OF assms(2,3)] by (simp add: my_fseek_def client_seek_def server_seek_def Let_def rfs_codes)
qed

text \<open>A file of four bytes at the far end of connection 5, where it is descriptor 3; data arrive in pieces of two.\<close>

definition two_pieces :: "content \<Rightarrow> content list" where
  "two_pieces d = filter (\<lambda>x. x \<noteq> []) [take 2 d, drop 2 d]"

definition readme_os :: os where
  "readme_os = \<lparr>disk = [(''README'', [1, 2, 3, 4])], descr = [Other, Other, Other, File ''README'' 0 2]\<rparr>"

theorem remote_calls_are_local_witness:
  "remote_calls 0 \<lparr>hdr_op = 0, p1 = 0, p2 = 0, p3 = 0\<rparr> two_pieces (v_fd 5 3) [Write [9], Seek 0 0, Read 3, Read 7, Seek (- 1) 0]
     (\<lambda>_. readme_os) =
   Some ((\<lambda>_. readme_os)(5 := \<lparr>disk = [(''README'', [9, 2, 3, 4])], descr = [Other, Other, Other, File ''README'' 4 2]\<rparr>),
     [(1, []), (0, []), (1, [9, 2, 3]), (1, [4]), (- 1, [])])"
proof -
  have pieces: "concat (two_pieces d) = d \<and> [] \<notin> set (two_pieces d)" for d
    by (auto simp: two_pieces_def)
  let ?cs = "[Write [9], Seek 0 0, Read 3, Read 7, Seek (- 1) 0]"
  let ?s = "\<lparr>disk = [(''README'', [9, 2, 3, 4])], descr = [Other, Other, Other, File ''README'' 4 2]\<rparr>"
  have fits: "\<forall>c \<in> set ?cs. call_fits c" by (simp add: call_fits_def MAX_TRANSFER_def)
  have local: "local_calls 3 ?cs readme_os = (?s, [(1, []), (0, []), (3, [9, 2, 3]), (1, [4]), (- 1, [])])"
    by (simp add: readme_os_def sys_write_def sys_read_def sys_lseek_def lookup_fd_def set_pos_def contents_def overwrite_def
          rfs_codes Let_def eval_nat_numeral)
  have small: "\<forall>r \<in> set (snd (local_calls 3 ?cs ((\<lambda>_. readme_os) (5 :: int)))). fst r < 2 ^ 31"
    unfolding local by simp
  have "remote_calls 0 \<lparr>hdr_op = 0, p1 = 0, p2 = 0, p3 = 0\<rparr> two_pieces (v_fd 5 3) ?cs (\<lambda>_. readme_os) =
      (case local_calls 3 ?cs readme_os of (s, rs) \<Rightarrow> Some ((\<lambda>_. readme_os)(5 := s), map2 (as_returned two_pieces) ?cs rs))"
    by (rule remote_calls_are_local [OF _ _ _ _ pieces fits small]) simp_all
  then show ?thesis
    unfolding local by (simp add: as_returned_def two_pieces_def)
qed

end
