(* ===== verification/RfsServer.thy ===== *)
theory RfsServer
  imports RfsFiles
begin

text \<open>
  The servers of the remote file system, \<open>OS_course/rfs/server.c\<close>, and the client's \<open>my_fopen\<close>. Every server has two tables, of the
  servers and of the files, with for each file the servers that have it, which are sent around: to a server that joins, and to all others after a
  file was opened. A client's request to open a file is served or redirected to the server that is least busy; popular files are replicated.

  \<open>net\<close> gives the server that runs at a host, if one does. A handler runs undisturbed on the tables of its server and on those of the
  servers it connects to; what \<open>server_close\<close> does after its answer, in the thread of its connection, is a \<open>thread\<close> that is run
  later. An access outside an array is \<open>None\<close>, as is a call of \<open>exit\<close>. The messages that carry the tables are the pairs of the number of entries and the
  entries. \<open>bumped\<close> says what \<open>free = free++\<close> leaves, which C does not: the old value or the next.
\<close>

section \<open>Tables\<close>

definition MAX_FILES :: nat where "MAX_FILES = 64"
definition MAX_PATH :: nat where "MAX_PATH = 32"
definition MAX_SERVERS :: nat where "MAX_SERVERS = 4"
definition MAX_S_NAME :: nat where "MAX_S_NAME = 32"
definition REPL_THRESH :: int where "REPL_THRESH = 2"
definition MAX_FREE :: int where "MAX_FREE = 100"
definition DFS :: string where "DFS = ''/tmp/os_dfs/''"

record server_table =
  sfree :: int
  fds :: "int list"
  sname :: string

record file_table =
  tot_idx :: nat
  request :: int
  index :: "nat list"
  fname :: string

record rfs =
  file_list :: "file_table list"
  server_list :: "server_table list"
  total_files :: nat
  total_servers :: nat
  this_host :: string
  rfs_os :: os

type_synonym net = "string \<Rightarrow> rfs option"

lemmas rfs_sizes = MAX_FILES_def MAX_PATH_def MAX_SERVERS_def MAX_S_NAME_def

text \<open>The first entry of a given name; the loops of \<open>get_this_host_idx\<close> and \<open>get_file_idx\<close>.\<close>

definition index_of :: "string \<Rightarrow> string list \<Rightarrow> int" where
  "index_of x xs = (if x \<in> set xs then int (length (takeWhile (\<lambda>y. y \<noteq> x) xs)) else - 1)"

definition get_this_host_idx :: "rfs \<Rightarrow> int" where
  "get_this_host_idx s = index_of (this_host s) (map sname (take (total_servers s) (server_list s)))"

definition get_file_idx :: "rfs \<Rightarrow> string \<Rightarrow> int" where
  "get_file_idx s name = index_of name (map fname (take (total_files s) (file_list s)))"

text \<open>The directory's entries, in the order in which the system lists them, up to the size of the buffer.\<close>

fun scan_entries :: "string list \<Rightarrow> nat \<Rightarrow> string list option" where
  "scan_entries [] k = Some []"
| "scan_entries (d # ds) k =
     (if k < MAX_FILES then
        (if d \<noteq> ''.'' \<and> d \<noteq> ''..'' then
           (if length d < MAX_PATH then (case scan_entries ds (Suc k) of None \<Rightarrow> None | Some xs \<Rightarrow> Some (d # xs)) else None)
         else scan_entries ds k)
      else Some [])"

definition my_scandir :: "os \<Rightarrow> string list option" where
  "my_scandir s = scan_entries ([''.'', ''..''] @ map fst (disk s)) 0"

text \<open>The answer to a request for the directory, and what the client makes of it.\<close>

definition OP_SCANDIR :: int where "OP_SCANDIR = 0x40"

definition server_scandir :: "op_hdr \<Rightarrow> os \<Rightarrow> (op_hdr \<times> string list) option" where
  "server_scandir get_hdr s =
     (case my_scandir s of None \<Rightarrow> None | Some names \<Rightarrow> Some (get_hdr\<lparr>p1 := int (length names)\<rparr>, names))"

definition client_scandir :: "op_hdr \<Rightarrow> os \<Rightarrow> (int \<times> string list) option" where
  "client_scandir junk s =
     (case server_scandir (junk\<lparr>hdr_op := OP_SCANDIR\<rparr>) s of None \<Rightarrow> None
      | Some (get_hdr, dir_buff) \<Rightarrow> Some (if hdr_op get_hdr \<noteq> OP_SCANDIR then (- 1, []) else (p1 get_hdr, dir_buff)))"

text \<open>One file of the directory: added to its entry, or given a new one.\<close>

definition add_index :: "nat \<Rightarrow> file_table \<Rightarrow> file_table option" where
  "add_index i e = (if tot_idx e < MAX_SERVERS then Some (e\<lparr>tot_idx := Suc (tot_idx e), index := (index e)[tot_idx e := i]\<rparr>) else None)"

definition fill_one :: "nat \<Rightarrow> string \<Rightarrow> rfs \<Rightarrow> rfs option" where
  "fill_one i name s =
     (let j = get_file_idx s name
      in if 0 \<le> j then
           (case add_index i ((file_list s ! nat j)\<lparr>request := 0\<rparr>) of None \<Rightarrow> None
            | Some e \<Rightarrow> Some (s\<lparr>file_list := (file_list s)[nat j := e]\<rparr>))
         else if total_files s < MAX_FILES then
           (let e = file_list s ! total_files s
            in Some (s\<lparr>file_list := (file_list s)[total_files s := e\<lparr>fname := name, request := 0, tot_idx := 1, index := (index e)[0 := i]\<rparr>],
                 total_files := Suc (total_files s)\<rparr>))
         else None)"

primrec fill_all :: "nat \<Rightarrow> string list \<Rightarrow> rfs \<Rightarrow> rfs option" where
  "fill_all i [] s = Some s"
| "fill_all i (name # names) s = (case fill_one i name s of None \<Rightarrow> None | Some s \<Rightarrow> fill_all i names s)"

definition fill_file_list :: "rfs \<Rightarrow> rfs option" where
  "fill_file_list s =
     (if get_this_host_idx s < 0 then None
      else (case my_scandir (rfs_os s) of None \<Rightarrow> None | Some names \<Rightarrow> fill_all (nat (get_this_host_idx s)) names s))"

section \<open>Sending the tables around\<close>

type_synonym st_msg = "nat \<times> server_table list"
type_synonym ft_msg = "nat \<times> file_table list"

definition get_st :: "rfs \<Rightarrow> st_msg" where
  "get_st s = (total_servers s, take (total_servers s) (server_list s))"

definition get_ft :: "rfs \<Rightarrow> ft_msg" where
  "get_ft s = (total_files s, take (total_files s) (file_list s))"

definition set_st :: "st_msg \<Rightarrow> rfs \<Rightarrow> rfs option" where
  "set_st m s = (if fst m \<le> MAX_SERVERS
     then Some (s\<lparr>total_servers := fst m, server_list := snd m @ drop (fst m) (server_list s)\<rparr>) else None)"

definition set_ft :: "ft_msg \<Rightarrow> rfs \<Rightarrow> rfs option" where
  "set_ft m s = (if fst m \<le> MAX_FILES
     then Some (s\<lparr>total_files := fst m, file_list := snd m @ drop (fst m) (file_list s)\<rparr>) else None)"

definition update_local_st :: "rfs \<Rightarrow> rfs \<Rightarrow> rfs option" where
  "update_local_st r s = set_st (get_st r) s"

definition update_local_ft :: "rfs \<Rightarrow> rfs \<Rightarrow> rfs option" where
  "update_local_ft r s = set_ft (get_ft r) s"

definition update_remote_st :: "rfs \<Rightarrow> rfs \<Rightarrow> rfs option" where
  "update_remote_st s r = set_st (total_servers s, take (total_servers s) (server_list s)) r"

definition update_remote_ft :: "rfs \<Rightarrow> rfs \<Rightarrow> rfs option" where
  "update_remote_ft s r = set_ft (total_files s, take (total_files s) (file_list s)) r"

definition update_remote :: "rfs \<Rightarrow> string \<Rightarrow> net \<Rightarrow> net option" where
  "update_remote s host net =
     (case net host of None \<Rightarrow> Some net
      | Some r \<Rightarrow> (case update_remote_st s r of None \<Rightarrow> None | Some r \<Rightarrow>
          (case update_remote_ft s r of None \<Rightarrow> None | Some r \<Rightarrow> Some (net(host \<mapsto> r)))))"

section \<open>Start\<close>

definition add_this_host :: "rfs \<Rightarrow> rfs option" where
  "add_this_host s =
     (if total_servers s < MAX_SERVERS then
        Some (s\<lparr>server_list := (server_list s)[total_servers s := (server_list s ! total_servers s)\<lparr>sname := this_host s, sfree := MAX_FREE\<rparr>],
          total_servers := Suc (total_servers s)\<rparr>)
      else None)"

text \<open>\<open>init\<close> is the static variable; \<open>s\<close> the server that starts, which nobody can connect to yet.\<close>

definition add_server :: "string \<Rightarrow> bool \<Rightarrow> rfs \<times> net \<Rightarrow> (bool \<times> rfs \<times> net) option" where
  "add_server server init st =
     (case st of (s, net) \<Rightarrow>
        if server = ''.'' then
          (if init then Some (init, s, net)
           else (case add_this_host s of None \<Rightarrow> None | Some s \<Rightarrow>
                  (case fill_file_list s of None \<Rightarrow> None | Some s \<Rightarrow> Some (init, s, net))))
        else
          (case net server of None \<Rightarrow> Some (init, s, net)
           | Some r \<Rightarrow>
               (case (if init then Some s
                      else (case update_local_st r s of None \<Rightarrow> None | Some s \<Rightarrow>
                            (case add_this_host s of None \<Rightarrow> None | Some s \<Rightarrow>
                            (case update_local_ft r s of None \<Rightarrow> None | Some s \<Rightarrow> fill_file_list s)))) of
                  None \<Rightarrow> None
                | Some s \<Rightarrow> (case update_remote s server net of None \<Rightarrow> None | Some net \<Rightarrow> Some (True, s, net)))))"

text \<open>The loop of \<open>main\<close> over what the user enters; without more input it waits, and the result is \<open>None\<close>.\<close>

fun main_loop :: "string list \<Rightarrow> bool \<Rightarrow> rfs \<times> net \<Rightarrow> (rfs \<times> net) option" where
  "main_loop inputs init (s, net) =
     (if total_servers s < MAX_SERVERS then
        (case inputs of [] \<Rightarrow> None
         | server # inputs \<Rightarrow>
             (if length server < MAX_S_NAME then
                (case add_server server init (s, net) of None \<Rightarrow> None
                 | Some (init, s, net) \<Rightarrow>
                     if server \<noteq> [] \<and> hd server = CHR ''.'' then Some (s, net) else main_loop inputs init (s, net))
              else None))
      else Some (s, net))"

definition server_main :: "string list \<Rightarrow> rfs \<times> net \<Rightarrow> net option" where
  "server_main inputs st =
     (case main_loop inputs False st of None \<Rightarrow> None | Some (s, net) \<Rightarrow> Some (net(this_host s \<mapsto> s)))"

end
