(* ===== verification/RfsOpen.thy ===== *)
theory RfsOpen
  imports RfsServer
begin

text \<open>
  Opening, replicating and closing files in the remote file system, \<open>OS_course/rfs/server.c\<close>, and the client's \<open>client_open\<close>,
  \<open>client_close\<close> and \<open>my_fopen\<close>. An answer is a header and what follows it, the name of another server or nothing.

  The server a replica goes to is asked to open the file with \<open>O_REPLICATE\<close>, for which it does not look for another server itself; so
  \<open>server_open\<close> takes the function that does, which the replication leaves open. \<open>errno\<close> is what an earlier call left in it.
\<close>

section \<open>Opening\<close>

type_synonym reply = "op_hdr \<times> string"

text \<open>\<open>s_idx\<close> of the thread, the file, and how far its loop has come.\<close>

datatype thread = Thread string int nat nat

text \<open>Adding and deleting from \<open>free\<close> when a file is opened.\<close>

definition on_fopen :: "bool \<Rightarrow> nat \<Rightarrow> nat \<Rightarrow> rfs \<Rightarrow> rfs" where
  "on_fopen bumped s_idx f_idx s =
     (let sl = server_list s; e = sl ! s_idx;
          sl = sl[s_idx := e\<lparr>sfree := (if sfree e < 2 then 0 else sfree e - 2)\<rparr>];
          more = (\<lambda>e. e\<lparr>sfree := (if sfree e < MAX_FREE then (if bumped then sfree e + 1 else sfree e) else MAX_FREE)\<rparr>);
          sl = map more (take (total_servers s) sl) @ drop (total_servers s) sl;
          f = file_list s ! f_idx
      in s\<lparr>server_list := sl, file_list := (file_list s)[f_idx := f\<lparr>request := request f + 1\<rparr>]\<rparr>)"

primrec update_all :: "rfs \<Rightarrow> nat list \<Rightarrow> net \<Rightarrow> net option" where
  "update_all s [] net = Some net"
| "update_all s (i # is) net =
     (if int i = get_this_host_idx s then update_all s is net
      else (case update_remote s (sname (server_list s ! i)) net of None \<Rightarrow> None | Some net \<Rightarrow> update_all s is net))"

text \<open>The part for the server's own file. \<open>f_idx\<close> is negative for a file that is not in the table.\<close>

definition open_here :: "string \<Rightarrow> int \<Rightarrow> int \<Rightarrow> int \<Rightarrow> op_hdr \<Rightarrow> rfs \<Rightarrow> (rfs \<times> op_hdr) option" where
  "open_here name mode s_idx f_idx put_hdr s =
     (case sys_open name mode (rfs_os s) of
        Inl e \<Rightarrow> Some (s, put_hdr\<lparr>hdr_op := ERR_OPEN, p1 := e\<rparr>)
      | Inr (os, fd) \<Rightarrow>
          (if 0 \<le> s_idx \<and> 0 \<le> f_idx then
             (let e = server_list s ! nat s_idx
              in Some (s\<lparr>rfs_os := os, server_list := (server_list s)[nat s_idx := e\<lparr>fds := (fds e)[nat f_idx := fd]\<rparr>]\<rparr>,
                   put_hdr\<lparr>hdr_op := OP_OPEN, p1 := fd\<rparr>))
           else None))"

definition server_open ::
  "(string \<Rightarrow> int \<Rightarrow> net \<Rightarrow> (net \<times> int \<times> thread list) option) \<Rightarrow> bool \<Rightarrow> string \<Rightarrow> op_hdr \<Rightarrow> string \<Rightarrow> net \<Rightarrow>
     (net \<times> reply list \<times> thread list) option" where
  "server_open peer bumped host get_hdr name net =
     (if MAX_PATH \<le> length DFS + length name then None
      else
        (let mode = p1 get_hdr; f_idx = get_file_idx (the (net host)) name;
             early = (if f_idx < 0 then [(get_hdr\<lparr>hdr_op := ERR_OPEN, p1 := EACCES\<rparr>, [])] else []);
             here = get_this_host_idx (the (net host));
             direct = (mode AND O_REPLICATE \<noteq> 0 \<or> mode AND OP_REDIRECT \<noteq> 0);
             update_ok = (if mode AND OP_REDIRECT \<noteq> 0 then True else mode AND O_REPLICATE = 0);
             mode = (if mode AND O_REPLICATE \<noteq> 0 then mode AND NOT O_REPLICATE else mode);
             mode = (if p1 get_hdr AND OP_REDIRECT \<noteq> 0 then mode AND NOT OP_REDIRECT else mode)
         in case (if direct then Some (net, here, []) else peer host f_idx net) of None \<Rightarrow> None
            | Some (net, s_idx, threads) \<Rightarrow>
                (let s = the (net host); s_idx = (if s_idx < 0 then get_this_host_idx s else s_idx)
                 in if s_idx = get_this_host_idx s then
                      (case open_here name mode s_idx f_idx get_hdr s of None \<Rightarrow> None
                       | Some (s, put_hdr) \<Rightarrow>
                           if hdr_op put_hdr \<noteq> OP_OPEN then Some (net(host \<mapsto> s), early @ [(put_hdr, [])], threads)
                           else if update_ok then
                             (let s = on_fopen bumped (nat s_idx) (nat f_idx) s
                              in case update_all s [0..<total_servers s] (net(host \<mapsto> s)) of None \<Rightarrow> None
                                 | Some net \<Rightarrow> Some (net, early @ [(put_hdr, [])], threads))
                           else Some (net(host \<mapsto> s), early @ [(put_hdr, [])], threads))
                    else
                      (let s_name = sname (server_list s ! nat s_idx)
                       in Some (net, early @ [(get_hdr\<lparr>hdr_op := OP_REDIRECT, p1 := int32 (int (length s_name))\<rparr>, s_name)], threads)))))"

text \<open>The client reads one answer to each request.\<close>

definition client_open ::
  "(string \<Rightarrow> int \<Rightarrow> net \<Rightarrow> (net \<times> int \<times> thread list) option) \<Rightarrow> bool \<Rightarrow> op_hdr \<Rightarrow> string \<Rightarrow> string \<Rightarrow> int \<Rightarrow> net \<Rightarrow>
     (net \<times> int \<times> thread list) option" where
  "client_open peer bumped junk host path oflag net =
     (case server_open peer bumped host (junk\<lparr>hdr_op := OP_OPEN, p1 := oflag, p2 := int32 (int (length path))\<rparr>) path net of None \<Rightarrow> None
      | Some (net, replies, threads) \<Rightarrow>
          (let get_hdr = fst (hd replies) in Some (net, if hdr_op get_hdr \<noteq> OP_OPEN then - 1 else p1 get_hdr, threads)))"

section \<open>Closing\<close>

text \<open>Up to the answer; what is left to do after it. A descriptor that was recorded for several files counts for the first.\<close>

definition server_close :: "string \<Rightarrow> op_hdr \<Rightarrow> rfs \<Rightarrow> (rfs \<times> op_hdr \<times> thread list) option" where
  "server_close host get_hdr s =
     (let fd = p1 get_hdr; mode = sys_getfl fd (rfs_os s)
      in case sys_close fd (rfs_os s) of
           Inl e \<Rightarrow> Some (s, get_hdr\<lparr>hdr_op := ERR_CLOSE, p1 := e\<rparr>, [])
         | Inr os \<Rightarrow>
             (let s = s\<lparr>rfs_os := os\<rparr>; put_hdr = get_hdr\<lparr>p1 := 0\<rparr>
              in if mode \<noteq> - 1 \<and> mode AND O_ACCMODE = O_WRONLY then
                   (let s_idx = get_this_host_idx s
                    in if s_idx < 0 then None
                       else
                         (let e = server_list s ! nat s_idx; open_fds = take (total_files s) (fds e)
                          in if fd \<in> set open_fds then
                               (let f_idx = length (takeWhile (\<lambda>x. x \<noteq> fd) open_fds)
                                in Some (s\<lparr>server_list := (server_list s)[nat s_idx := e\<lparr>fds := (fds e)[f_idx := 0]\<rparr>]\<rparr>, put_hdr,
                                     [Thread host s_idx f_idx 0]))
                             else Some (s, put_hdr, [])))
                 else Some (s, put_hdr, [])))"

text \<open>\<open>p2\<close> of the answer is what the client left in its own header.\<close>

definition client_close :: "op_hdr \<Rightarrow> string \<Rightarrow> int \<Rightarrow> net \<Rightarrow> (net \<times> int \<times> thread list) option" where
  "client_close junk host fd net =
     (case server_close host (junk\<lparr>hdr_op := OP_CLOSE, p1 := fd\<rparr>) (the (net host)) of None \<Rightarrow> None
      | Some (s, get_hdr, threads) \<Rightarrow> Some (net(host \<mapsto> s), if hdr_op get_hdr \<noteq> OP_CLOSE then - 1 else p2 get_hdr, threads))"

section \<open>Replicating\<close>

definition remote_os :: "(os \<Rightarrow> (os \<times> 'a) option) \<Rightarrow> string \<Rightarrow> net \<Rightarrow> (net \<times> 'a) option" where
  "remote_os f host net =
     (let s = the (net host) in case f (rfs_os s) of None \<Rightarrow> None | Some (os, r) \<Rightarrow> Some (net(host \<mapsto> s\<lparr>rfs_os := os\<rparr>), r))"

text \<open>The loop that copies, in pieces of the size of the buffer; it closes the files if something fails.\<close>

definition BUFF_SIZE :: nat where "BUFF_SIZE = 8192"

partial_function (option) copy_file ::
  "op_hdr \<Rightarrow> string \<Rightarrow> int \<Rightarrow> string \<Rightarrow> int \<Rightarrow> net \<Rightarrow> (net \<times> int) option" where
  "copy_file junk host fd_from s_to fd_to net =
     (case sys_read fd_from BUFF_SIZE (rfs_os (the (net host))) of Inl e \<Rightarrow> Some (net, - 3)
      | Inr (os, buff) \<Rightarrow>
          (case remote_os (client_write junk fd_to buff) s_to (net(host \<mapsto> (the (net host))\<lparr>rfs_os := os\<rparr>)) of None \<Rightarrow> None
           | Some (net, w_len) \<Rightarrow>
             if w_len < 0 then Some (net, - 4)
             else if length buff = BUFF_SIZE then copy_file junk host fd_from s_to fd_to net
             else Some (net, 0)))"

text \<open>Both files are closed whatever \<open>ret\<close> was; only a complete copy is entered in the table.\<close>

definition finish_replica ::
  "op_hdr \<Rightarrow> string \<Rightarrow> int \<Rightarrow> string \<Rightarrow> int \<Rightarrow> nat \<Rightarrow> nat \<Rightarrow> net \<times> int \<Rightarrow> (net \<times> int \<times> thread list) option" where
  "finish_replica junk host fd_from s_to fd_to f_idx to st =
     (case st of (net, ret) \<Rightarrow>
        let s = the (net host); net = net(host \<mapsto> s\<lparr>rfs_os := (case sys_close fd_from (rfs_os s) of Inl e \<Rightarrow> rfs_os s | Inr os \<Rightarrow> os)\<rparr>)
        in case client_close junk s_to fd_to net of None \<Rightarrow> None
           | Some (net, _, threads) \<Rightarrow>
               (if ret < 0 then Some (net, ret, threads)
                else
                  (let s = the (net host)
                   in case add_index to (file_list s ! f_idx) of None \<Rightarrow> None
                      | Some e \<Rightarrow> Some (net(host \<mapsto> s\<lparr>file_list := (file_list s)[f_idx := e]\<rparr>), 0, threads))))"

definition replicate_file :: "op_hdr \<Rightarrow> string \<Rightarrow> nat \<Rightarrow> nat \<Rightarrow> net \<Rightarrow> (net \<times> int \<times> thread list) option" where
  "replicate_file junk host f_idx to net =
     (let s = the (net host); f_name = fname (file_list s ! f_idx); s_to = sname (server_list s ! to)
      in if net s_to = None then Some (net, - 1, [])
         else if MAX_PATH \<le> length DFS + length f_name then None
         else
           (case sys_open f_name O_RDONLY (rfs_os s) of Inl e \<Rightarrow> Some (net, - 2, [])
            | Inr (os, fd_from) \<Rightarrow>
                (case client_open (\<lambda>_ _ _. None) False junk s_to f_name (O_CREAT OR O_WRONLY OR O_REPLICATE)
                        (net(host \<mapsto> s\<lparr>rfs_os := os\<rparr>)) of None \<Rightarrow> None
                 | Some (net, fd_to, _) \<Rightarrow>
                     (if fd_to < 0 then Some (net, - 2, [])
                      else (case copy_file junk host fd_from s_to fd_to net of None \<Rightarrow> None
                            | Some st \<Rightarrow> finish_replica junk host fd_from s_to fd_to f_idx to st)))))"

text \<open>The thread of a connection after its answer to \<open>close\<close>, one round of its loop; \<open>None\<close> in the second place when it is done.\<close>

definition replicate_round :: "op_hdr \<Rightarrow> thread \<Rightarrow> net \<Rightarrow> (net \<times> thread list) option" where
  "replicate_round junk t net =
     (case t of Thread host s_idx f_idx j \<Rightarrow>
        if j < tot_idx (file_list (the (net host)) ! f_idx) then
          (if int j = s_idx then Some (net, [Thread host s_idx f_idx (Suc j)])
           else (case replicate_file junk host f_idx j net of None \<Rightarrow> None
                 | Some (net, _, threads) \<Rightarrow> Some (net, threads @ [Thread host s_idx f_idx (Suc j)])))
        else Some (net, []))"

section \<open>Choosing a server\<close>

primrec most_free :: "server_table list \<Rightarrow> nat \<Rightarrow> nat" where
  "most_free sl 0 = 0"
| "most_free sl (Suc i) = (let m = most_free sl i in if sfree (sl ! m) < sfree (sl ! i) then i else m)"

primrec best_pair :: "server_table list \<Rightarrow> int \<Rightarrow> nat \<Rightarrow> int \<times> int" where
  "best_pair sl req 0 = (0, - 1)"
| "best_pair sl req (Suc j) =
     (case best_pair sl req j of (max_pair, s_idx) \<Rightarrow>
        let tmp = sfree (sl ! j) + req in if max_pair < tmp then (tmp, int j) else (max_pair, s_idx))"

definition select_peer :: "op_hdr \<Rightarrow> string \<Rightarrow> int \<Rightarrow> net \<Rightarrow> (net \<times> int \<times> thread list) option" where
  "select_peer junk host f_idx net =
     (if f_idx < 0 then None
      else
        (let s = the (net host); f = file_list s ! nat f_idx;
             max_free = most_free (server_list s) (total_servers s);
             s_idx = snd (best_pair (server_list s) (request f) (tot_idx f))
         in if s_idx < 0 then None
            else if s_idx = get_this_host_idx s \<and> REPL_THRESH \<le> request f \<and> int max_free \<noteq> s_idx then
              (case replicate_file junk host (nat f_idx) max_free net of None \<Rightarrow> None
               | Some (net, _, threads) \<Rightarrow> Some (net, s_idx, threads))
            else Some (net, s_idx, [])))"

section \<open>The thread of a connection\<close>

definition OP_GET_FT :: int where "OP_GET_FT = 0x100"
definition OP_GET_ST :: int where "OP_GET_ST = 0x200"
definition OP_SET_FT :: int where "OP_SET_FT = 0x400"
definition OP_SET_ST :: int where "OP_SET_ST = 0x800"
definition OP_END :: int where "OP_END = 0x2000"

text \<open>What follows the header of a request, and what is answered.\<close>

datatype payload = No_payload | Path string | Bytes content | Servers "server_table list" | Files "file_table list"

datatype answer = No_answer | Answer op_hdr | Replies "reply list" | Bytes_answer op_hdr content | Names op_hdr "string list" |
  Server_tables st_msg | File_tables ft_msg

definition with_files :: "(os \<Rightarrow> (os \<times> 'a) option) \<Rightarrow> rfs \<Rightarrow> (rfs \<times> 'a) option" where
  "with_files f s = (case f (rfs_os s) of None \<Rightarrow> None | Some (os, r) \<Rightarrow> Some (s\<lparr>rfs_os := os\<rparr>, r))"

definition path_of :: "payload \<Rightarrow> string" where
  "path_of p = (case p of Path name \<Rightarrow> name | _ \<Rightarrow> [])"

definition bytes_of :: "payload \<Rightarrow> content" where
  "bytes_of p = (case p of Bytes d \<Rightarrow> d | _ \<Rightarrow> [])"

definition servers_of :: "payload \<Rightarrow> server_table list" where
  "servers_of p = (case p of Servers sl \<Rightarrow> sl | _ \<Rightarrow> [])"

definition files_of :: "payload \<Rightarrow> file_table list" where
  "files_of p = (case p of Files fl \<Rightarrow> fl | _ \<Rightarrow> [])"

definition handle_request ::
  "int \<Rightarrow> op_hdr \<Rightarrow> bool \<Rightarrow> string \<Rightarrow> op_hdr \<Rightarrow> payload \<Rightarrow> net \<Rightarrow> (net \<times> answer \<times> thread list) option" where
  "handle_request errno junk bumped host get_hdr p net =
     (let s = the (net host); op = hdr_op get_hdr
      in if op = OP_GET_ST then Some (net, Server_tables (get_st s), [])
         else if op = OP_GET_FT then Some (net, File_tables (get_ft s), [])
         else if op = OP_SET_ST then
           (case set_st (nat (p1 get_hdr), servers_of p) s of None \<Rightarrow> None | Some s \<Rightarrow> Some (net(host \<mapsto> s), Answer (junk\<lparr>hdr_op := OP_SET_ST\<rparr>), []))
         else if op = OP_SET_FT then
           (case set_ft (nat (p1 get_hdr), files_of p) s of None \<Rightarrow> None | Some s \<Rightarrow> Some (net(host \<mapsto> s), Answer (junk\<lparr>hdr_op := OP_SET_FT\<rparr>), []))
         else if op = OP_OPEN then
           (case server_open (select_peer junk) bumped host get_hdr (path_of p) net of None \<Rightarrow> None
            | Some (net, replies, threads) \<Rightarrow> Some (net, Replies replies, threads))
         else if op = OP_READ then
           (case with_files (server_read get_hdr) s of None \<Rightarrow> None | Some (s, put_hdr, d) \<Rightarrow> Some (net(host \<mapsto> s), Bytes_answer put_hdr d, []))
         else if op = OP_WRITE then
           (case with_files (server_write get_hdr (bytes_of p)) s of None \<Rightarrow> None | Some (s, put_hdr) \<Rightarrow> Some (net(host \<mapsto> s), Answer put_hdr, []))
         else if op = OP_SEEK then
           (case with_files (\<lambda>os. Some (server_seek errno get_hdr os)) s of None \<Rightarrow> None | Some (s, put_hdr) \<Rightarrow> Some (net(host \<mapsto> s), Answer put_hdr, []))
         else if op = OP_SCANDIR then
           (case server_scandir get_hdr (rfs_os s) of None \<Rightarrow> None | Some (put_hdr, names) \<Rightarrow> Some (net, Names put_hdr names, []))
         else if op = OP_CLOSE then
           (case server_close host get_hdr s of None \<Rightarrow> None | Some (s, put_hdr, threads) \<Rightarrow> Some (net(host \<mapsto> s), Answer put_hdr, threads))
         else Some (net, Answer (get_hdr\<lparr>hdr_op := - 1\<rparr>), []))"

text \<open>The requests of a connection, up to the one that ends it.\<close>

primrec do_chld ::
  "int \<Rightarrow> op_hdr \<Rightarrow> bool \<Rightarrow> string \<Rightarrow> (op_hdr \<times> payload) list \<Rightarrow> net \<Rightarrow> (net \<times> answer list \<times> thread list) option" where
  "do_chld errno junk bumped host [] net = Some (net, [], [])"
| "do_chld errno junk bumped host (q # qs) net =
     (if hdr_op (fst q) = OP_END then Some (net, [], [])
      else
        (case handle_request errno junk bumped host (fst q) (snd q) net of None \<Rightarrow> None
         | Some (net, a, threads) \<Rightarrow>
             (case do_chld errno junk bumped host qs net of None \<Rightarrow> None
              | Some (net, as, threads') \<Rightarrow> Some (net, a # as, threads @ threads'))))"

section \<open>The client\<close>

text \<open>\<open>conn\<close> is the server at the other end of each connection.\<close>

definition my_fclose :: "op_hdr \<Rightarrow> (int \<Rightarrow> string) \<Rightarrow> u32 \<Rightarrow> net \<Rightarrow> (net \<times> int \<times> thread list) option" where
  "my_fclose junk conn v net = client_close junk (conn (s_fd v)) (r_fd v) net"

text \<open>Writing an element of an array; \<open>None\<close> outside it.\<close>

definition put_at :: "nat \<Rightarrow> 'a \<Rightarrow> 'a list \<Rightarrow> 'a list option" where
  "put_at i x xs = (if i < length xs then Some (xs[i := x]) else None)"

text \<open>The result is the server that was reached and the descriptor there, of which \<open>v_fd\<close> makes a virtual one. The name of another server
  is received in an array of just its length, behind which its end is written: the calls that follow are never made.\<close>

definition my_fopen ::
  "op_hdr \<Rightarrow> bool \<Rightarrow> string \<Rightarrow> string \<Rightarrow> int \<Rightarrow> net \<Rightarrow> (net \<times> (string \<times> int) option \<times> thread list) option" where
  "my_fopen junk bumped s_name path oflag net =
     (if net s_name = None then Some (net, None, [])
      else
        (case server_open (select_peer junk) bumped s_name (junk\<lparr>hdr_op := OP_OPEN, p1 := oflag, p2 := int32 (int (length path))\<rparr>) path net of None \<Rightarrow> None
         | Some (net, replies, threads) \<Rightarrow>
             (case hd replies of (get_hdr, name_buff) \<Rightarrow>
                if hdr_op get_hdr = OP_REDIRECT then
                  (let s_len = length name_buff
                   in case put_at s_len CHR 0x00 name_buff of None \<Rightarrow> None
                      | Some name_buff \<Rightarrow>
                          (let s_name = takeWhile (\<lambda>c. c \<noteq> CHR 0x00) name_buff
                           in if net s_name = None then Some (net, None, threads)
                              else
                                (case client_open (select_peer junk) bumped junk s_name path (oflag OR OP_REDIRECT) net of None \<Rightarrow> None
                                 | Some (net, fd, threads') \<Rightarrow>
                                     Some (net, if fd < 0 then None else Some (s_name, fd), threads @ threads'))))
                else if hdr_op get_hdr \<noteq> OP_OPEN then Some (net, None, threads)
                else Some (net, Some (s_name, p1 get_hdr), threads))))"

lemma my_fopen_redirected:
  assumes "net s_name \<noteq> None"
    and "server_open (select_peer junk) bumped s_name (junk\<lparr>hdr_op := OP_OPEN, p1 := oflag, p2 := int32 (int (length path))\<rparr>) path net
      = Some (net', replies, threads)" and "hdr_op (fst (hd replies)) = OP_REDIRECT"
  shows "my_fopen junk bumped s_name path oflag net = None"
  using assms by (cases "hd replies") (auto simp: my_fopen_def put_at_def Let_def)

end
