(* ===== verification/RfsJoin.thy ===== *)
theory RfsJoin
  imports RfsServer
begin

text \<open>
  Starting one more server of the remote file system (theory \<open>RfsServer\<close>). If the servers that run agree on their tables, and these are
  right, a server that starts and is told of all of them makes all of them, itself included, agree on tables that are right
  again. With three servers running only the one that was entered first hears of the fourth.
\<close>

section \<open>Right tables\<close>

definition file_names :: "rfs \<Rightarrow> string list" where
  "file_names s = map fst (disk (rfs_os s))"

definition entry_ok :: "string list list \<Rightarrow> file_table \<Rightarrow> bool" where
  "entry_ok dirs e \<longleftrightarrow> length (index e) = MAX_SERVERS \<and> tot_idx e \<le> MAX_SERVERS \<and> distinct (take (tot_idx e) (index e)) \<and>
     set (take (tot_idx e) (index e)) = {i. i < length dirs \<and> fname e \<in> set (dirs ! i)}"

definition accurate :: "string list list \<Rightarrow> file_table list \<Rightarrow> bool" where
  "accurate dirs fl \<longleftrightarrow> distinct (map fname fl) \<and> (\<forall>e\<in>set fl. entry_ok dirs e) \<and> fname ` set fl = \<Union> (set ` set dirs)"

text \<open>The tables are \<open>st\<close> and \<open>ft\<close> everywhere.\<close>

definition agree :: "server_table list \<Rightarrow> file_table list \<Rightarrow> net \<Rightarrow> bool" where
  "agree st ft net \<longleftrightarrow> distinct (map sname st) \<and> length st \<le> MAX_SERVERS \<and> length ft \<le> MAX_FILES \<and>
     accurate (map (\<lambda>h. file_names (the (net h))) (map sname st)) ft \<and>
     (\<forall>h\<in>set (map sname st). \<exists>s. net h = Some s \<and> this_host s = h \<and> get_st s = (length st, st) \<and> get_ft s = (length ft, ft) \<and>
        length (server_list s) = MAX_SERVERS \<and> length (file_list s) = MAX_FILES)"

definition consistent :: "string list \<Rightarrow> net \<Rightarrow> bool" where
  "consistent hs net \<longleftrightarrow> (\<exists>st ft. map sname st = hs \<and> agree st ft net)"

lemma consistentI:
  assumes "distinct hs" "length hs \<le> MAX_SERVERS" "map sname st = hs" "length ft \<le> MAX_FILES"
    "accurate (map (\<lambda>h. file_names (the (net h))) hs) ft"
    "\<And>h. h \<in> set hs \<Longrightarrow> \<exists>s. net h = Some s \<and> this_host s = h \<and> get_st s = (length hs, st) \<and> get_ft s = (length ft, ft) \<and>
       length (server_list s) = MAX_SERVERS \<and> length (file_list s) = MAX_FILES"
  shows "consistent hs net"
proof -
  have "length hs = length st" using assms(3) by auto
  then have "agree st ft net" using assms unfolding agree_def by (metis assms(3))
  then show ?thesis using assms(3) unfolding consistent_def by blast
qed

lemma index_of_in:
  assumes "x \<in> set xs"
  shows "0 \<le> index_of x xs" "nat (index_of x xs) < length xs" "xs ! nat (index_of x xs) = x"
proof -
  have "length (takeWhile (\<lambda>y. y \<noteq> x) xs) < length xs" using assms by (induction xs) auto
  then show "0 \<le> index_of x xs" "nat (index_of x xs) < length xs" "xs ! nat (index_of x xs) = x"
    using assms nth_length_takeWhile [of "\<lambda>y. y \<noteq> x" xs] by (simp_all add: index_of_def)
qed

lemma index_of_out: "x \<notin> set xs \<Longrightarrow> index_of x xs = - 1"
  by (simp add: index_of_def)

lemma index_of_last: "x \<notin> set xs \<Longrightarrow> index_of x (xs @ [x]) = int (length xs)"
proof -
  assume "x \<notin> set xs"
  then have "takeWhile (\<lambda>y. y \<noteq> x) xs = xs" by (auto simp: takeWhile_eq_all_conv)
  then show ?thesis by (simp add: index_of_def takeWhile_append)
qed

text \<open>What one file of the new server's directory does to the list of files in use.\<close>

lemma dirs_extend:
  "{i. i < length (dirs @ [ns]) \<and> f \<in> set ((dirs @ [ns]) ! i)} =
   {i. i < length dirs \<and> f \<in> set (dirs ! i)} \<union> (if f \<in> set ns then {length dirs} else {})"
  by (auto simp: nth_append less_Suc_eq)

lemma entry_ok_other:
  "entry_ok (dirs @ [ns]) e \<Longrightarrow> fname e \<in> set ms \<longleftrightarrow> fname e \<in> set ns \<Longrightarrow> entry_ok (dirs @ [ms]) e"
  unfolding entry_ok_def dirs_extend by simp

lemma entry_ok_new_server: "entry_ok dirs e \<Longrightarrow> entry_ok (dirs @ [[]]) e"
  unfolding entry_ok_def dirs_extend by simp

lemma entry_ok_add:
  assumes ok: "entry_ok (dirs @ [ns]) e" and n: "length dirs < MAX_SERVERS" and new: "fname e \<notin> set ns"
  shows "tot_idx e < MAX_SERVERS"
    and "entry_ok (dirs @ [ns @ [fname e]]) (e\<lparr>request := r, tot_idx := Suc (tot_idx e), index := (index e)[tot_idx e := length dirs]\<rparr>)"
proof -
  have idx: "set (take (tot_idx e) (index e)) = {i. i < length dirs \<and> fname e \<in> set (dirs ! i)}"
    using ok new unfolding entry_ok_def dirs_extend by simp
  have "tot_idx e = card (set (take (tot_idx e) (index e)))"
    using ok distinct_card [of "take (tot_idx e) (index e)"] by (auto simp: entry_ok_def)
  then have "tot_idx e = card {i. i < length dirs \<and> fname e \<in> set (dirs ! i)}" unfolding idx .
  also have "\<dots> \<le> card {..<length dirs}" by (intro card_mono) auto
  finally show t: "tot_idx e < MAX_SERVERS" using n by simp
  have "take (Suc (tot_idx e)) ((index e)[tot_idx e := length dirs]) = take (tot_idx e) (index e) @ [length dirs]"
    using t ok by (simp add: take_Suc_conv_app_nth entry_ok_def)
  then show "entry_ok (dirs @ [ns @ [fname e]]) (e\<lparr>request := r, tot_idx := Suc (tot_idx e), index := (index e)[tot_idx e := length dirs]\<rparr>)"
    using t ok idx unfolding entry_ok_def dirs_extend by auto
qed

lemma accurate_new_server: "accurate dirs fl \<Longrightarrow> accurate (dirs @ [[]]) fl"
  by (auto simp: accurate_def entry_ok_new_server)

lemma accurate_add:
  assumes ok: "accurate (dirs @ [names]) fl" and n: "length dirs < MAX_SERVERS"
    and j: "j < length fl" "fname (fl ! j) = name" and new: "name \<notin> set names"
  obtains e where "add_index (length dirs) ((fl ! j)\<lparr>request := 0\<rparr>) = Some e" "accurate (dirs @ [names @ [name]]) (fl[j := e])"
proof -
  let ?e = "fl ! j"
  define e' where "e' = ?e\<lparr>request := 0, tot_idx := Suc (tot_idx ?e), index := (index ?e)[tot_idx ?e := length dirs]\<rparr>"
  have e: "entry_ok (dirs @ [names]) ?e" using ok j by (simp add: accurate_def)
  note e_ok = entry_ok_add [OF e n, unfolded j(2), OF new]
  have names: "map fname (fl[j := e']) = map fname fl"
    using j by (simp add: map_update e'_def list_update_same_conv)
  then have same: "fname ` set (fl[j := e']) = fname ` set fl" by (metis set_map)
  have "entry_ok (dirs @ [names @ [name]]) x" if x: "x \<in> set (fl[j := e'])" for x
  proof (cases "x = e'")
    case False
    obtain k where k: "k < length fl" "k \<noteq> j" "x = fl ! k"
      using x False by (metis in_set_conv_nth length_list_update nth_list_update_eq nth_list_update_neq)
    then have "fname x \<noteq> name"
      using ok j nth_eq_iff_index_eq [of "map fname fl" k j] by (auto simp: accurate_def)
    then show ?thesis using ok k entry_ok_other [of dirs names "fl ! k" "names @ [name]"] by (auto simp: accurate_def)
  qed (use e_ok(2) in \<open>simp add: e'_def\<close>)
  moreover have "name \<in> fname ` set fl" using j by force
  ultimately have "accurate (dirs @ [names @ [name]]) (fl[j := e'])"
    using ok unfolding accurate_def names same by auto
  moreover have "add_index (length dirs) (?e\<lparr>request := 0\<rparr>) = Some e'"
    using e_ok(1) by (simp add: add_index_def e'_def)
  ultimately show ?thesis using that by blast
qed

lemma accurate_fresh:
  assumes ok: "accurate (dirs @ [names]) fl" and n: "length dirs < MAX_SERVERS"
    and new: "name \<notin> fname ` set fl" and e: "length (index e) = MAX_SERVERS"
  shows "accurate (dirs @ [names @ [name]]) (fl @ [e\<lparr>fname := name, request := 0, tot_idx := 1, index := (index e)[0 := length dirs]\<rparr>])"
    (is "accurate _ (fl @ [?e])")
proof -
  have none: "name \<notin> set dir" if "dir \<in> set (dirs @ [names])" for dir
    using ok new that by (auto simp: accurate_def)
  have "{i. i < length dirs \<and> name \<in> set (dirs ! i)} = {}" using none by (auto dest!: nth_mem [of _ dirs])
  moreover obtain i ys where "index e = i # ys" using e by (cases "index e") (auto simp: MAX_SERVERS_def)
  ultimately have "entry_ok (dirs @ [names @ [name]]) ?e"
    using e unfolding entry_ok_def dirs_extend by (auto simp: MAX_SERVERS_def)
  moreover have "entry_ok (dirs @ [names @ [name]]) x" if x: "x \<in> set fl" for x
  proof (rule entry_ok_other)
    show "entry_ok (dirs @ [names]) x" using ok x by (simp add: accurate_def)
    show "fname x \<in> set (names @ [name]) \<longleftrightarrow> fname x \<in> set names" using new x by auto
  qed
  ultimately show ?thesis
    using ok new unfolding accurate_def by auto
qed

text \<open>The directory of the new server, file by file.\<close>

definition files :: "rfs \<Rightarrow> file_table list" where
  "files s = take (total_files s) (file_list s)"

definition files_wf :: "rfs \<Rightarrow> bool" where
  "files_wf s \<longleftrightarrow> length (file_list s) = MAX_FILES \<and> total_files s \<le> MAX_FILES \<and> (\<forall>e\<in>set (file_list s). length (index e) = MAX_SERVERS)"

lemma fill_one_ok:
  assumes ok: "accurate (dirs @ [ns]) (files s)" and wf: "files_wf s" and n: "length dirs < MAX_SERVERS"
    and new: "name \<notin> set ns" and room: "card (insert name (fname ` set (files s))) \<le> MAX_FILES"
  obtains fl k where "fill_one (length dirs) name s = Some (s\<lparr>file_list := fl, total_files := k\<rparr>)"
    "accurate (dirs @ [ns @ [name]]) (files (s\<lparr>file_list := fl, total_files := k\<rparr>))" "files_wf (s\<lparr>file_list := fl, total_files := k\<rparr>)"
proof (cases "name \<in> fname ` set (files s)")
  case True
  let ?j = "nat (get_file_idx s name)"
  have "name \<in> set (map fname (files s))" using True by simp
  note j = index_of_in [OF this, folded get_file_idx_def [of s, folded files_def]]
  have len: "length (files s) = total_files s" using wf by (simp add: files_def files_wf_def)
  have j': "?j < length (files s)" using j(2) by (simp add: get_file_idx_def files_def)
  have nm: "fname (files s ! ?j) = name" using j(3) j' by (simp add: get_file_idx_def files_def)
  obtain e where e: "add_index (length dirs) ((files s ! ?j)\<lparr>request := 0\<rparr>) = Some e" "accurate (dirs @ [ns @ [name]]) ((files s)[?j := e])"
    using accurate_add [OF ok n j' nm new] .
  have nth: "files s ! ?j = file_list s ! ?j" using j' by (simp add: files_def)
  have "?j < length (file_list s)" using j' len wf by (simp add: files_wf_def)
  then have "length (index (file_list s ! ?j)) = MAX_SERVERS" using wf by (simp add: files_wf_def)
  then have "length (index e) = MAX_SERVERS" using e(1) unfolding nth by (auto simp: add_index_def split: if_splits)
  then have "files_wf (s\<lparr>file_list := (file_list s)[?j := e]\<rparr>)"
    using wf set_update_subset_insert [of "file_list s" ?j e] by (auto simp: files_wf_def)
  moreover have "fill_one (length dirs) name s = Some (s\<lparr>file_list := (file_list s)[?j := e]\<rparr>)"
    using j(1) e(1) nth by (simp add: fill_one_def get_file_idx_def files_def)
  moreover have "files (s\<lparr>file_list := (file_list s)[?j := e]\<rparr>) = (files s)[?j := e]"
    by (simp add: files_def take_update_swap)
  ultimately show ?thesis using that [of "total_files s" "(file_list s)[?j := e]"] e(2) by simp
next
  case False
  let ?k = "total_files s"
  let ?e = "(file_list s ! ?k)\<lparr>fname := name, request := 0, tot_idx := 1, index := (index (file_list s ! ?k))[0 := length dirs]\<rparr>"
  let ?s = "s\<lparr>file_list := (file_list s)[?k := ?e], total_files := Suc ?k\<rparr>"
  have len: "length (files s) = ?k" using wf by (simp add: files_def files_wf_def)
  have "distinct (map fname (files s))" using ok by (simp add: accurate_def)
  then have "card (fname ` set (files s)) = ?k" using len distinct_card [of "map fname (files s)"] by simp
  then have k: "?k < MAX_FILES" using room False by simp
  then have idx: "length (index (file_list s ! ?k)) = MAX_SERVERS" using wf by (simp add: files_wf_def)
  have "files ?s = files s @ [?e]" using k wf by (simp add: files_def files_wf_def take_Suc_conv_app_nth)
  then have "accurate (dirs @ [ns @ [name]]) (files ?s)" using accurate_fresh [OF ok n False idx] by simp
  moreover have "get_file_idx s name = - 1"
    using False by (simp add: get_file_idx_def files_def [symmetric] index_of_out)
  then have "fill_one (length dirs) name s = Some ?s" using k by (simp add: fill_one_def Let_def)
  moreover have "files_wf ?s"
    using wf k idx set_update_subset_insert [of "file_list s" ?k ?e] by (auto simp: files_wf_def)
  ultimately show ?thesis using that by blast
qed

lemma fill_all_ok:
  assumes "accurate (dirs @ [ns]) (files s)" "files_wf s" "length dirs < MAX_SERVERS" "distinct (ns @ names)"
    and "card (set names \<union> fname ` set (files s)) \<le> MAX_FILES"
  shows "\<exists>fl k. fill_all (length dirs) names s = Some (s\<lparr>file_list := fl, total_files := k\<rparr>) \<and>
    accurate (dirs @ [ns @ names]) (files (s\<lparr>file_list := fl, total_files := k\<rparr>)) \<and> files_wf (s\<lparr>file_list := fl, total_files := k\<rparr>)"
  using assms
proof (induction names arbitrary: ns s)
  case Nil
  then show ?case by (intro exI [of _ "file_list s"] exI [of _ "total_files s"]) simp
next
  case (Cons name names)
  have "card (insert name (fname ` set (files s))) \<le> card (set (name # names) \<union> fname ` set (files s))"
    by (intro card_mono) auto
  then have room: "card (insert name (fname ` set (files s))) \<le> MAX_FILES" using Cons.prems(5) by simp
  have "name \<notin> set ns" and dist: "distinct ((ns @ [name]) @ names)" using Cons.prems(4) by simp_all
  then obtain fl k where f: "fill_one (length dirs) name s = Some (s\<lparr>file_list := fl, total_files := k\<rparr>)"
      "accurate (dirs @ [ns @ [name]]) (files (s\<lparr>file_list := fl, total_files := k\<rparr>))" "files_wf (s\<lparr>file_list := fl, total_files := k\<rparr>)"
    using fill_one_ok [OF Cons.prems(1-3) _ room] by metis
  have "fname ` set (files (s\<lparr>file_list := fl, total_files := k\<rparr>)) = insert name (fname ` set (files s))"
    using f(2) Cons.prems(1) by (simp add: accurate_def)
  then have "card (set names \<union> fname ` set (files (s\<lparr>file_list := fl, total_files := k\<rparr>))) \<le> MAX_FILES" using Cons.prems(5) by simp
  from Cons.IH [OF f(2,3) Cons.prems(3) dist this] f(1) show ?case by simp
qed

lemma scan_entries_all:
  "length ds + k \<le> MAX_FILES \<Longrightarrow> \<forall>d\<in>set ds. length d < MAX_PATH \<and> d \<noteq> ''.'' \<and> d \<noteq> ''..'' \<Longrightarrow> scan_entries ds k = Some ds"
  by (induction ds arbitrary: k) auto

section \<open>Joining\<close>

definition synced :: "rfs \<Rightarrow> rfs \<Rightarrow> rfs" where
  "synced s r = r\<lparr>total_servers := total_servers s, server_list := take (total_servers s) (server_list s) @ drop (total_servers s) (server_list r),
     total_files := total_files s, file_list := take (total_files s) (file_list s) @ drop (total_files s) (file_list r)\<rparr>"

definition tables_wf :: "rfs \<Rightarrow> bool" where
  "tables_wf s \<longleftrightarrow> length (server_list s) = MAX_SERVERS \<and> length (file_list s) = MAX_FILES \<and>
     total_servers s \<le> MAX_SERVERS \<and> total_files s \<le> MAX_FILES"

lemma synced_simps [simp]:
  "this_host (synced s r) = this_host r" "rfs_os (synced s r) = rfs_os r"
  "tables_wf s \<Longrightarrow> tables_wf r \<Longrightarrow> get_st (synced s r) = get_st s"
  "tables_wf s \<Longrightarrow> tables_wf r \<Longrightarrow> get_ft (synced s r) = get_ft s"
  "tables_wf s \<Longrightarrow> tables_wf r \<Longrightarrow> tables_wf (synced s r)"
  by (simp_all add: synced_def tables_wf_def get_st_def get_ft_def)

lemma update_remote_ok:
  assumes "tables_wf s" "net host = Some r"
  shows "update_remote s host net = Some (net(host \<mapsto> synced s r))"
  using assms
  by (simp add: update_remote_def update_remote_st_def update_remote_ft_def set_st_def set_ft_def synced_def tables_wf_def)

definition host_name :: "string \<Rightarrow> bool" where
  "host_name g \<longleftrightarrow> g \<noteq> [] \<and> hd g \<noteq> CHR ''.'' \<and> length g < MAX_S_NAME"

lemma host_name_dot: "host_name g \<Longrightarrow> g \<noteq> ''.''"
  by (auto simp: host_name_def)

text \<open>The hosts entered after the first: each gets the tables, while there is room for servers.\<close>

lemma main_loop_rest:
  assumes "tables_wf s" "distinct gs" "\<forall>g\<in>set gs. host_name g \<and> (\<exists>r. net g = Some r)"
  shows "main_loop (gs @ [''.'']) True (s, net) =
    Some (s, \<lambda>x. if x \<in> set gs \<and> total_servers s < MAX_SERVERS then map_option (synced s) (net x) else net x)"
  using assms(2,3)
proof (induction gs arbitrary: net)
  case Nil
  then show ?case by (simp add: add_server_def MAX_S_NAME_def)
next
  case (Cons g gs)
  obtain r where r: "net g = Some r" using Cons.prems by auto
  have g: "g \<noteq> ''.''" "length g < MAX_S_NAME" "g \<noteq> []" "hd g \<noteq> CHR ''.''"
    using Cons.prems host_name_dot by (auto simp: host_name_def)
  show ?case
  proof (cases "total_servers s < MAX_SERVERS")
    case True
    have "add_server g True (s, net) = Some (True, s, net(g \<mapsto> synced s r))"
      using g r assms(1) by (simp add: add_server_def update_remote_ok)
    moreover have "main_loop (gs @ [''.'']) True (s, net(g \<mapsto> synced s r)) =
      Some (s, \<lambda>x. if x \<in> set gs \<and> total_servers s < MAX_SERVERS then map_option (synced s) ((net(g \<mapsto> synced s r)) x)
        else (net(g \<mapsto> synced s r)) x)"
      using Cons.prems by (intro Cons.IH) auto
    ultimately show ?thesis using True g r Cons.prems by (auto simp: fun_eq_iff)
  qed simp
qed

text \<open>The new server with its own host and files added.\<close>

definition fresh_server :: "string \<Rightarrow> rfs \<Rightarrow> bool" where
  "fresh_server h s \<longleftrightarrow> this_host s = h \<and> total_servers s = 0 \<and> total_files s = 0 \<and> tables_wf s \<and>
     (\<forall>e\<in>set (file_list s). length (index e) = MAX_SERVERS) \<and>
     distinct (file_names s) \<and> (\<forall>d\<in>set (file_names s). length d < MAX_PATH \<and> d \<noteq> ''.'' \<and> d \<noteq> ''..'')"

lemma fill_file_list_ok:
  assumes acc: "accurate dirs (files s)" and wf: "files_wf s" and n: "length dirs < MAX_SERVERS"
    and me: "get_this_host_idx s = int (length dirs)"
    and names: "distinct (file_names s)" "\<forall>d\<in>set (file_names s). length d < MAX_PATH \<and> d \<noteq> ''.'' \<and> d \<noteq> ''..''"
    and room: "card (set (file_names s) \<union> fname ` set (files s)) \<le> MAX_FILES"
  obtains fl k where "fill_file_list s = Some (s\<lparr>file_list := fl, total_files := k\<rparr>)"
    "accurate (dirs @ [file_names s]) (files (s\<lparr>file_list := fl, total_files := k\<rparr>))" "files_wf (s\<lparr>file_list := fl, total_files := k\<rparr>)"
proof -
  have "length (file_names s) = card (set (file_names s))" using names(1) by (simp add: distinct_card)
  also have "\<dots> \<le> card (set (file_names s) \<union> fname ` set (files s))" by (intro card_mono) auto
  finally have "length (file_names s) + 0 \<le> MAX_FILES" using room by simp
  then have "my_scandir (rfs_os s) = Some (file_names s)"
    using scan_entries_all [of "file_names s" 0] names(2) by (simp add: my_scandir_def file_names_def MAX_FILES_def)
  moreover obtain fl k where "fill_all (length dirs) (file_names s) s = Some (s\<lparr>file_list := fl, total_files := k\<rparr>)"
    "accurate (dirs @ [[] @ file_names s]) (files (s\<lparr>file_list := fl, total_files := k\<rparr>))" "files_wf (s\<lparr>file_list := fl, total_files := k\<rparr>)"
    using fill_all_ok [OF accurate_new_server [OF acc] wf n, of "file_names s"] names(1) room by auto
  ultimately show ?thesis using that me by (simp add: fill_file_list_def)
qed

lemma first_contact:
  assumes new: "fresh_server h s" "h \<notin> set hs" and n: "length hs < MAX_SERVERS" and acc: "accurate dirs ft" "length ft \<le> MAX_FILES"
    and st: "map sname st = hs" "length dirs = length hs"
    and s0: "s0 = (if hs = [] then s else s\<lparr>total_servers := length hs, server_list := st @ drop (length hs) (server_list s)\<rparr>)"
    and s1: "add_this_host s0 = Some s1"
    and s2: "s2 = (if hs = [] then s1 else s1\<lparr>total_files := length ft, file_list := ft @ drop (length ft) (file_list s1)\<rparr>)"
    and empty: "hs = [] \<Longrightarrow> ft = []"
    and room: "card (set (file_names s) \<union> fname ` set ft) \<le> MAX_FILES"
  obtains s' st' where "fill_file_list s2 = Some s'" "tables_wf s'" "this_host s' = h" "rfs_os s' = rfs_os s"
    "get_st s' = (Suc (length hs), st')" "map sname st' = hs @ [h]" "accurate (dirs @ [file_names s]) (files s')"
proof -
  have l: "length st = length hs" using st(1) by auto
  have wf: "length (server_list s) = MAX_SERVERS" "length (file_list s) = MAX_FILES" "total_files s = 0" "total_servers s = 0" "this_host s = h"
    using new(1) by (auto simp: fresh_server_def tables_wf_def)
  define e where "e = (server_list s0 ! length hs)\<lparr>sname := h, sfree := MAX_FREE\<rparr>"
  have s0': "total_servers s0 = length hs" "take (length hs) (server_list s0) = st" "length (server_list s0) = MAX_SERVERS" "this_host s0 = h"
      "file_list s0 = file_list s" "total_files s0 = 0" "rfs_os s0 = rfs_os s"
    using wf n l st by (auto simp: s0)
  then have s1': "s1 = s0\<lparr>server_list := (server_list s0)[length hs := e], total_servers := Suc (length hs)\<rparr>"
    using s1 n by (simp add: add_this_host_def e_def)
  have s2': "this_host s2 = h" "total_servers s2 = Suc (length hs)" "take (Suc (length hs)) (server_list s2) = st @ [e]"
      "length (server_list s2) = MAX_SERVERS" "files s2 = ft" "rfs_os s2 = rfs_os s" "file_names s2 = file_names s"
    using s0' n empty wf by (auto simp: s2 s1' files_def take_Suc_conv_app_nth file_names_def)
  have wf2: "files_wf s2"
    using new(1) acc s0' empty wf by (auto simp: s2 s1' files_wf_def fresh_server_def accurate_def entry_ok_def dest: in_set_dropD)
  have "map sname (take (total_servers s2) (server_list s2)) = hs @ [h]" using s2' st by (simp add: e_def)
  then have me: "get_this_host_idx s2 = int (length dirs)"
    using new(2) st(2) s2'(1) by (simp add: get_this_host_idx_def index_of_last)
  have acc2: "accurate dirs (files s2)" using acc s2' by simp
  have "length dirs < MAX_SERVERS" "distinct (file_names s2)"
    "\<forall>d\<in>set (file_names s2). length d < MAX_PATH \<and> d \<noteq> ''.'' \<and> d \<noteq> ''..''"
    "card (set (file_names s2) \<union> fname ` set (files s2)) \<le> MAX_FILES"
    using n st new(1) room s2'(5,7) by (simp_all add: fresh_server_def)
  from fill_file_list_ok [OF acc2 wf2 this(1) me this(2-4), unfolded s2'(7)]
  obtain fl k where s': "fill_file_list s2 = Some (s2\<lparr>file_list := fl, total_files := k\<rparr>)"
    "accurate (dirs @ [file_names s]) (files (s2\<lparr>file_list := fl, total_files := k\<rparr>))" "files_wf (s2\<lparr>file_list := fl, total_files := k\<rparr>)" .
  have "tables_wf (s2\<lparr>file_list := fl, total_files := k\<rparr>)" using s'(3) s2' n by (simp add: tables_wf_def files_wf_def)
  then show ?thesis
    using that [OF s'(1) _ _ _ _ _ s'(2), of "st @ [e]"] s2' st by (simp add: get_st_def e_def)
qed

text \<open>C3: If the servers that run agree on tables that are right (each file with the servers whose directory has it), a new server
  starts whose directory still fits, and the user enters the names of all, in any order, then the start ends. With at most three servers all of
  them, the new one included, agree again on tables that are right. With four, of those that ran only the one entered first has changed.\<close>

theorem join_consistent:
  assumes ok: "consistent hs net" and new: "fresh_server h s" "h \<notin> set hs" and n: "length hs < MAX_SERVERS"
    and gs: "distinct gs" "set gs = set hs" "\<forall>g\<in>set gs. host_name g"
    and room: "card (set (file_names s) \<union> (\<Union>g\<in>set hs. set (file_names (the (net g))))) \<le> MAX_FILES"
  shows "\<exists>net'. server_main (gs @ [''.'']) (s, net) = Some net' \<and>
    (length hs + 1 < MAX_SERVERS \<longrightarrow> consistent (hs @ [h]) net') \<and>
    (length hs + 1 = MAX_SERVERS \<longrightarrow> (\<forall>g\<in>{h, hd gs}. total_servers (the (net' g)) = MAX_SERVERS) \<and>
       (\<forall>g\<in>set hs - {hd gs}. net' g = net g))"
proof -
  let ?dirs = "map (\<lambda>h. file_names (the (net h))) hs"
  obtain st ft where st0: "map sname st = hs" and ag: "agree st ft net" using ok by (auto simp: consistent_def)
  have l: "length hs = length st" using st0 by auto
  note ag = ag [unfolded agree_def st0, folded l]
  have st: "map sname st = hs" "length ft \<le> MAX_FILES" "accurate ?dirs ft" "distinct hs" using ag st0 by simp_all
  have each: "\<forall>h\<in>set hs. \<exists>s. net h = Some s \<and> this_host s = h \<and> get_st s = (length hs, st) \<and> get_ft s = (length ft, ft) \<and>
           length (server_list s) = MAX_SERVERS \<and> length (file_list s) = MAX_FILES" using ag by blast
  define s0 where "s0 = (if hs = [] then s else s\<lparr>total_servers := length hs, server_list := st @ drop (length hs) (server_list s)\<rparr>)"
  have "total_servers s0 = length hs" using new(1) by (auto simp: s0_def fresh_server_def)
  then obtain s1 where s1: "add_this_host s0 = Some s1" using n by (simp add: add_this_host_def)
  define s2 where "s2 = (if hs = [] then s1 else s1\<lparr>total_files := length ft, file_list := ft @ drop (length ft) (file_list s1)\<rparr>)"
  have names: "fname ` set ft = (\<Union>g\<in>set hs. set (file_names (the (net g))))" using st(3) by (auto simp: accurate_def)
  have empty: "hs = [] \<Longrightarrow> ft = []" using names by simp
  obtain s' st' where s': "fill_file_list s2 = Some s'" "tables_wf s'" "this_host s' = h" "rfs_os s' = rfs_os s"
    "get_st s' = (Suc (length hs), st')" "map sname st' = hs @ [h]" "accurate (?dirs @ [file_names s]) (files s')"
    using first_contact [OF new n st(3,2,1) _ s0_def s1 s2_def empty] room names by auto
  show ?thesis
  proof (cases gs)
    case Nil
    then have hs: "hs = []" using gs by simp
    then have "main_loop [''.''] False (s, net) = Some (s', net)"
      using new(1) s1 s'(1) by (simp add: fresh_server_def s0_def s2_def add_server_def MAX_S_NAME_def MAX_SERVERS_def)
    moreover have "consistent [h] (net(h \<mapsto> s'))"
      using s' hs by (intro consistentI [of _ st' "files s'"]) (simp_all add: MAX_SERVERS_def get_ft_def files_def tables_wf_def file_names_def)
    ultimately show ?thesis using Nil hs s'(3) by (simp add: server_main_def MAX_SERVERS_def)
  next
    case (Cons g gs')
    then have hs: "hs \<noteq> []" "g \<in> set hs" using gs(2) by auto
    then obtain r where r: "net g = Some r" "get_st r = (length hs, st)" "get_ft r = (length ft, ft)" using each by blast
    have g: "g \<noteq> ''.''" "length g < MAX_S_NAME" "g \<noteq> []" "hd g \<noteq> CHR ''.''"
      using Cons gs(3) host_name_dot by (auto simp: host_name_def)
    have "add_server g False (s, net) = Some (True, s', net(g \<mapsto> synced s' r))"
      using r g s1 s'(1,2) hs(1) n st(2)
      by (simp add: add_server_def update_local_st_def update_local_ft_def set_st_def set_ft_def s0_def s2_def update_remote_ok)
    moreover have "0 < MAX_SERVERS" by (simp add: MAX_SERVERS_def)
    ultimately have main: "main_loop (gs @ [''.'']) False (s, net) = main_loop (gs' @ [''.'']) True (s', net(g \<mapsto> synced s' r))"
      using g new(1) Cons by (simp add: fresh_server_def)
    define net1 where "net1 = net(g \<mapsto> synced s' r)"
    let ?net = "\<lambda>x. if x \<in> set gs' \<and> total_servers s' < MAX_SERVERS then map_option (synced s') (net1 x) else net1 x"
    have "main_loop (gs' @ [''.'']) True (s', net1) = Some (s', ?net)"
      using gs Cons each s'(2) by (intro main_loop_rest) (auto simp: net1_def)
    then have res: "server_main (gs @ [''.'']) (s, net) = Some (?net(h \<mapsto> s'))"
      using main s'(3) by (simp add: server_main_def net1_def)
    have ts: "total_servers s' = Suc (length hs)" using s'(5) by (simp add: get_st_def)
    have "consistent (hs @ [h]) (?net(h \<mapsto> s'))" if small: "Suc (length hs) < MAX_SERVERS"
    proof -
      have eq: "(?net(h \<mapsto> s')) x = map_option (synced s') (net x)" if "x \<in> set hs" for x
        using that small new(2) gs Cons r ts by (auto simp: net1_def)
      have dirs: "map (\<lambda>x. file_names (the ((?net(h \<mapsto> s')) x))) (hs @ [h]) = ?dirs @ [file_names s]"
        using each eq s'(4) by (auto simp: file_names_def)
      have each': "\<exists>q. (?net(h \<mapsto> s')) x = Some q \<and> this_host q = x \<and> get_st q = (length (hs @ [h]), st') \<and> get_ft q = (length (files s'), files s') \<and>
          length (server_list q) = MAX_SERVERS \<and> length (file_list q) = MAX_FILES" if "x \<in> set (hs @ [h])" for x
      proof (cases "x = h")
        case True
        then show ?thesis using s' by (auto simp: get_ft_def files_def tables_wf_def)
      next
        case False
        then have x: "x \<in> set hs" using that by simp
        then obtain q where q: "net x = Some q" "this_host q = x" "get_st q = (length hs, st)" "get_ft q = (length ft, ft)"
          "length (server_list q) = MAX_SERVERS" "length (file_list q) = MAX_FILES" using each by blast
        then have "tables_wf q" using st(2) n by (simp add: tables_wf_def get_st_def get_ft_def)
        moreover from this have "tables_wf (synced s' q)" using s'(2) by simp
        ultimately show ?thesis using eq [OF x] q s' by (auto simp: get_ft_def [of s'] files_def tables_wf_def)
      qed
      show ?thesis
      proof (rule consistentI [OF _ _ s'(6) _ _ each'])
        show "accurate (map (\<lambda>x. file_names (the ((?net(h \<mapsto> s')) x))) (hs @ [h])) (files s')" unfolding dirs by (rule s'(7))
      qed (use new(2) st(4) small s'(2) in \<open>simp_all add: files_def tables_wf_def\<close>)
    qed
    then show ?thesis using res ts s'(3) gs Cons new(2) by (auto simp: net1_def synced_def)
  qed
qed

text \<open>Two servers with a file each and one in common, joined by a third.\<close>

definition empty_files :: "file_table list" where
  "empty_files = replicate MAX_FILES \<lparr>tot_idx = 0, request = 0, index = [0, 0, 0, 0], fname = []\<rparr>"

definition empty_servers :: "server_table list" where
  "empty_servers = replicate MAX_SERVERS \<lparr>sfree = 0, fds = replicate MAX_FILES 0, sname = []\<rparr>"

definition server_with :: "string list \<Rightarrow> string \<Rightarrow> rfs" where
  "server_with names h = \<lparr>file_list = empty_files, server_list = empty_servers, total_files = 0, total_servers = 0, this_host = h,
     rfs_os = \<lparr>disk = map (\<lambda>n. (n, [])) names, descr = [Other, Other, Other]\<rparr>\<rparr>"

definition server_a :: rfs where
  "server_a = \<lparr>file_list = empty_files[0 := \<lparr>tot_idx = 1, request = 3, index = [0, 0, 0, 0], fname = ''x''\<rparr>],
     server_list = empty_servers[0 := \<lparr>sfree = 7, fds = replicate MAX_FILES 0, sname = ''a''\<rparr>],
     total_files = 1, total_servers = 1, this_host = ''a'', rfs_os = \<lparr>disk = [(''x'', [1, 2])], descr = [Other, Other, Other]\<rparr>\<rparr>"

theorem join_consistent_witness:
  "\<exists>net'. server_main [''a'', ''.''] (server_with [''x'', ''y''] ''b'', [''a'' \<mapsto> server_a]) = Some net' \<and> consistent [''a'', ''b''] net'"
proof -
  have "{i. i < Suc 0 \<and> ''x'' \<in> set ([[''x'']] ! i)} = {0}" by auto
  then have "accurate [[''x'']] [\<lparr>tot_idx = 1, request = 3, index = [0, 0, 0, 0], fname = ''x''\<rparr>]"
    by (simp add: accurate_def entry_ok_def MAX_SERVERS_def)
  then have "consistent [''a''] [''a'' \<mapsto> server_a]"
    by (intro consistentI [of _ "[\<lparr>sfree = 7, fds = replicate MAX_FILES 0, sname = ''a''\<rparr>]"
          "[\<lparr>tot_idx = 1, request = 3, index = [0, 0, 0, 0], fname = ''x''\<rparr>]"])
       (simp_all add: rfs_sizes server_a_def file_names_def get_st_def get_ft_def empty_files_def empty_servers_def take_update_swap)
  moreover have "fresh_server ''b'' (server_with [''x'', ''y''] ''b'')"
    by (simp add: fresh_server_def server_with_def empty_files_def empty_servers_def tables_wf_def file_names_def rfs_sizes)
  moreover have "card {''x'', ''y''} \<le> MAX_FILES" by (simp add: MAX_FILES_def)
  ultimately show ?thesis
    using join_consistent [of "[''a'']" "[''a'' \<mapsto> server_a]" "''b''" "server_with [''x'', ''y''] ''b''" "[''a'']"]
    by (simp add: rfs_sizes host_name_def file_names_def server_with_def server_a_def insert_commute)
qed

end
