(* ===== verification/RfsPeer.thy ===== *)
theory RfsPeer
  imports RfsOpen RfsJoin
begin

text \<open>
  Where a client that opens a file in the remote file system ends up. The servers agree on right tables (\<open>consistent\<close>, theory \<open>RfsJoin\<close>).
  A file that all of them have is opened at the one that is least busy, whichever the client asked, and they agree again. A file that only
  another than the first server has can be opened nowhere.
\<close>

section \<open>The choice\<close>

lemma most_free_max:
  "0 < n \<Longrightarrow> most_free sl n < n \<and> (\<forall>i<n. sfree (sl ! i) \<le> sfree (sl ! most_free sl n)) \<and>
    (\<forall>i<most_free sl n. sfree (sl ! i) < sfree (sl ! most_free sl n))"
proof (induction n)
  case (Suc n)
  show ?case
  proof (cases "n = 0")
    case False
    then show ?thesis using Suc by (fastforce simp: Let_def less_Suc_eq)
  qed (simp add: Let_def)
qed simp

lemma best_pair_max:
  "(case best_pair sl req n of (max_pair, s) \<Rightarrow>
     0 \<le> max_pair \<and> (\<forall>i<n. sfree (sl ! i) + req \<le> max_pair) \<and>
     (if s < 0 then s = - 1 \<and> max_pair = 0
      else nat s < n \<and> max_pair = sfree (sl ! nat s) + req \<and> 0 < max_pair \<and> (\<forall>i<nat s. sfree (sl ! i) + req < max_pair)))"
proof (induction n)
  case (Suc n)
  obtain mp s where b: "best_pair sl req n = (mp, s)" by force
  have *: "0 \<le> mp" "\<forall>i<n. sfree (sl ! i) + req \<le> mp"
    "if s < 0 then s = - 1 \<and> mp = 0
      else nat s < n \<and> mp = sfree (sl ! nat s) + req \<and> 0 < mp \<and> (\<forall>i<nat s. sfree (sl ! i) + req < mp)"
    using Suc [unfolded b prod.case] by blast+
  show ?case
  proof (cases "mp < sfree (sl ! n) + req")
    case True
    then show ?thesis using * by (auto simp: b less_Suc_eq)
  qed (use * in \<open>auto simp: b less_Suc_eq\<close>)
qed simp

lemma best_pair_cong:
  "(\<And>i. i < n \<Longrightarrow> sl ! i = sl' ! i) \<Longrightarrow> best_pair sl req n = best_pair sl' req n"
  by (induction n) (simp_all split: prod.split)

lemma most_free_cong:
  "(\<And>i. i < n \<Longrightarrow> sl ! i = sl' ! i) \<Longrightarrow> 0 < n \<Longrightarrow> most_free sl n = most_free sl' n"
proof (induction n)
  case (Suc n)
  show ?case
  proof (cases "n = 0")
    case False
    then have "most_free sl n = most_free sl' n" "most_free sl n < n" using Suc most_free_max [of n sl] by auto
    then show ?thesis using Suc.prems by (simp add: Let_def)
  qed (simp add: Let_def)
qed simp

text \<open>Of the servers a file has entries for, by position, the least busy is chosen, and the first of them.\<close>

lemma best_pair_all:
  assumes "0 < n" "0 < sfree (sl ! most_free sl n) + req"
  shows "snd (best_pair sl req n) = int (most_free sl n)"
proof -
  obtain mp s where b: "best_pair sl req n = (mp, s)" by force
  have *: "0 \<le> mp" "\<forall>i<n. sfree (sl ! i) + req \<le> mp"
    "if s < 0 then s = - 1 \<and> mp = 0
      else nat s < n \<and> mp = sfree (sl ! nat s) + req \<and> 0 < mp \<and> (\<forall>i<nat s. sfree (sl ! i) + req < mp)"
    using best_pair_max [where sl = sl and req = req and n = n, unfolded b prod.case] by blast+
  note m = most_free_max [OF assms(1), of sl]
  have "sfree (sl ! most_free sl n) + req \<le> mp" using *(2) m by blast
  then have "0 \<le> s" using *(3) assms(2) by (cases "s < 0") auto
  then have s: "nat s < n" "mp = sfree (sl ! nat s) + req" "\<forall>i<nat s. sfree (sl ! i) + req < mp" using *(3) by auto
  have "\<not> nat s < most_free sl n" using m s(2) *(2) by fastforce
  moreover have "\<not> most_free sl n < nat s" using s m by fastforce
  ultimately show ?thesis using \<open>0 \<le> s\<close> by (simp add: b)
qed

section \<open>Servers that agree\<close>

lemma agree_server:
  assumes "agree st ft net" "i < length st"
  obtains s where "net (sname (st ! i)) = Some s" "this_host s = sname (st ! i)" "tables_wf s"
    "total_servers s = length st" "total_files s = length ft"
    "take (length st) (server_list s) = st" "take (length ft) (file_list s) = ft"
    "\<And>k. k < length st \<Longrightarrow> server_list s ! k = st ! k" "\<And>k. k < length ft \<Longrightarrow> file_list s ! k = ft ! k"
    "get_this_host_idx s = int i"
proof -
  have "sname (st ! i) \<in> set (map sname st)" using assms(2) by simp
  then obtain s where s: "net (sname (st ! i)) = Some s" "this_host s = sname (st ! i)" "get_st s = (length st, st)" "get_ft s = (length ft, ft)"
     "length (server_list s) = MAX_SERVERS" "length (file_list s) = MAX_FILES"
    using assms(1) unfolding agree_def by blast
  have t: "total_servers s = length st" "total_files s = length ft" "take (length st) (server_list s) = st" "take (length ft) (file_list s) = ft"
    using s(3,4) by (auto simp: get_st_def get_ft_def)
  have sl: "server_list s ! k = st ! k" if "k < length st" for k using nth_take [OF that, of "server_list s"] t(3) by simp
  have fl: "file_list s ! k = ft ! k" if "k < length ft" for k using nth_take [OF that, of "file_list s"] t(4) by simp
  have wf: "tables_wf s" using assms(1) s(5,6) t(1,2) by (simp add: tables_wf_def agree_def)
  have "sname (st ! i) \<in> set (map sname st)" using assms(2) by simp
  note fi = index_of_in [OF this]
  have "nat (index_of (sname (st ! i)) (map sname st)) = i"
    using fi(2,3) assms nth_eq_iff_index_eq [of "map sname st" _ i] unfolding agree_def by auto
  then have "get_this_host_idx s = int i" using fi(1) s(2) t by (simp add: get_this_host_idx_def)
  then show ?thesis using that s t sl fl wf by blast
qed

lemma agree_file_idx:
  assumes "agree st ft net" "j < length ft" "take (length ft) (file_list s) = ft" "total_files s = length ft"
  shows "get_file_idx s (fname (ft ! j)) = int j"
proof -
  have "fname (ft ! j) \<in> set (map fname ft)" using assms(2) by simp
  note fi = index_of_in [OF this]
  have "nat (index_of (fname (ft ! j)) (map fname ft)) = j"
    using fi(2,3) assms(1,2) nth_eq_iff_index_eq [of "map fname ft" _ j] unfolding agree_def accurate_def by auto
  then show ?thesis using fi(1) assms(3,4) by (simp add: get_file_idx_def)
qed

section \<open>Descriptors given out\<close>

lemma lowest_free_is_free: "lowest_free s < length (descr s) \<Longrightarrow> descr s ! lowest_free s = Free"
  unfolding lowest_free_def using nth_length_takeWhile [of "\<lambda>e. e \<noteq> Free" "descr s"] by auto

lemma lowest_free_le: "lowest_free s \<le> length (descr s)"
  by (simp add: lowest_free_def length_takeWhile_le)

lemma install_lookup:
  assumes "install e s = (s', fd)"
  shows "0 \<le> fd" "nat fd = lowest_free s" "disk s' = disk s" "nat fd < length (descr s')" "descr s' ! nat fd = e"
    "\<And>k. k < length (descr s) \<Longrightarrow> k \<noteq> nat fd \<Longrightarrow> descr s' ! k = descr s ! k"
  using assms lowest_free_le [of s] by (auto simp: install_def Let_def nth_append split: if_splits)

lemma install_file:
  "install (File name pos mode) s = (s', fd) \<Longrightarrow> lookup_fd fd s' = Some (name, pos, mode)"
  using install_lookup [of "File name pos mode" s s' fd] by (simp add: lookup_fd_def)

lemma sys_open_existing:
  assumes "name \<in> set (map fst (disk s))"
  obtains s' fd where "sys_open name mode s = Inr (s', fd)" "0 \<le> fd" "map fst (disk s') = map fst (disk s)"
    "lookup_fd fd s' = Some (name, 0, mode)" "mode AND O_TRUNC = 0 \<Longrightarrow> disk s' = disk s" "nat fd = lowest_free s"
proof -
  obtain d where d: "map_of (disk s) name = Some d" using assms by (metis map_of_eq_None_iff option.exhaust set_map)
  let ?s = "if mode AND O_TRUNC \<noteq> 0 then s\<lparr>disk := AList.update name [] (disk s)\<rparr> else s"
  have "map fst (AList.update name [] (disk s)) = map fst (disk s)" using assms by (simp add: update_keys)
  then have names: "map fst (disk ?s) = map fst (disk s)" "lowest_free ?s = lowest_free s" by (simp_all add: lowest_free_def)
  obtain s' fd where i: "install (File name 0 mode) ?s = (s', fd)" by force
  have "sys_open name mode s = Inr (s', fd)" using d i by (simp add: sys_open_def)
  then show ?thesis using that install_lookup [OF i] install_file [OF i] names by auto
qed

lemma sys_open_missing:
  "name \<notin> set (map fst (disk s)) \<Longrightarrow> mode AND O_CREAT = 0 \<Longrightarrow> sys_open name mode s = Inl ENOENT"
  by (simp add: sys_open_def flip: map_of_eq_None_iff)

section \<open>After a file was opened\<close>

lemma on_fopen_simps [simp]:
  "total_servers (on_fopen b i j s) = total_servers s" "total_files (on_fopen b i j s) = total_files s"
  "this_host (on_fopen b i j s) = this_host s" "rfs_os (on_fopen b i j s) = rfs_os s"
  "length (file_list (on_fopen b i j s)) = length (file_list s)"
  "total_servers s \<le> length (server_list s) \<Longrightarrow> length (server_list (on_fopen b i j s)) = length (server_list s)"
  by (simp_all add: on_fopen_def Let_def)

lemma map_update_same: "f x = f (xs ! i) \<Longrightarrow> map f (xs[i := x]) = map f xs"
  by (cases "i < length xs") (simp_all add: map_update list_update_same_conv list_update_beyond)

lemma map_changed_front: "(\<And>e. f (g e) = f e) \<Longrightarrow> map f (map g (take n xs) @ drop n xs) = map f xs"
proof -
  assume "\<And>e. f (g e) = f e"
  then have "map f (map g (take n xs) @ drop n xs) = map f (take n xs @ drop n xs)" by (simp only: map_append map_map) (simp add: o_def)
  then show ?thesis by (simp only: append_take_drop_id)
qed

lemma on_fopen_names: "map sname (server_list (on_fopen b i j s)) = map sname (server_list s)"
  unfolding on_fopen_def Let_def by (simp add: map_changed_front map_update_same del: map_append)

definition file_key :: "file_table \<Rightarrow> string \<times> nat \<times> nat list" where
  "file_key e = (fname e, tot_idx e, index e)"

lemma on_fopen_keys: "map file_key (file_list (on_fopen b i j s)) = map file_key (file_list s)"
  by (simp add: on_fopen_def Let_def file_key_def map_update_same)

lemma accurate_cong:
  assumes "map file_key ft' = map file_key ft"
  shows "accurate dirs ft' = accurate dirs ft"
proof -
  have eq: "accurate dirs fl \<longleftrightarrow> distinct (map fst (map file_key fl)) \<and>
      (\<forall>(f, n, idx)\<in>set (map file_key fl). length idx = MAX_SERVERS \<and> n \<le> MAX_SERVERS \<and> distinct (take n idx) \<and>
          set (take n idx) = {i. i < length dirs \<and> f \<in> set (dirs ! i)}) \<and>
      fst ` set (map file_key fl) = \<Union> (set ` set dirs)" for fl
    by (simp add: accurate_def entry_ok_def file_key_def o_def image_image)
  show ?thesis unfolding eq assms ..
qed

lemma update_all_ok:
  assumes "tables_wf s" "distinct (map (\<lambda>i. sname (server_list s ! i)) is)"
    "\<forall>i\<in>set is. int i \<noteq> get_this_host_idx s \<longrightarrow> net (sname (server_list s ! i)) \<noteq> None"
  shows "update_all s is net = Some (\<lambda>x. if \<exists>i\<in>set is. int i \<noteq> get_this_host_idx s \<and> x = sname (server_list s ! i)
    then map_option (synced s) (net x) else net x)"
  using assms(2,3)
proof (induction "is" arbitrary: net)
  case (Cons i "is")
  let ?h = "sname (server_list s ! i)"
  show ?case
  proof (cases "int i = get_this_host_idx s")
    case False
    then obtain r where r: "net ?h = Some r" using Cons.prems by auto
    have "update_all s is (net(?h \<mapsto> synced s r)) = Some (\<lambda>x. if \<exists>i\<in>set is. int i \<noteq> get_this_host_idx s \<and> x = sname (server_list s ! i)
        then map_option (synced s) ((net(?h \<mapsto> synced s r)) x) else (net(?h \<mapsto> synced s r)) x)"
      using Cons.prems by (intro Cons.IH) auto
    moreover have "\<forall>i'\<in>set is. ?h \<noteq> sname (server_list s ! i')" using Cons.prems(1) by force
    ultimately show ?thesis using False r assms(1) by (auto simp: update_remote_ok fun_eq_iff)
  qed (use Cons in auto)
qed simp

lemma host_idx:
  assumes "distinct (map sname st)" "m < length st" "this_host s = sname (st ! m)" "total_servers s = length st"
    "map sname (take (length st) (server_list s)) = map sname st"
  shows "get_this_host_idx s = int m"
proof -
  have "sname (st ! m) \<in> set (map sname st)" using assms(2) by simp
  note fi = index_of_in [OF this]
  have "nat (index_of (sname (st ! m)) (map sname st)) = m"
    using fi(2,3) assms(1,2) nth_eq_iff_index_eq [of "map sname st" _ m] by auto
  then show ?thesis using fi(1) assms(3-5) by (simp add: get_this_host_idx_def)
qed

text \<open>A server that has changed its tables, but not who is where and what is where, makes the others agree.\<close>

lemma agree_sync:
  assumes ag: "agree st ft net" and m: "m < length st" and h: "h = sname (st ! m)"
    and s: "tables_wf s" "this_host s = h" "total_servers s = length st" "total_files s = length ft"
    and names: "map sname (take (length st) (server_list s)) = map sname st"
    and keys: "map file_key (take (length ft) (file_list s)) = map file_key ft"
    and dir: "file_names s = file_names (the (net h))"
  obtains net' where "update_all s [0..<length st] (net(h \<mapsto> s)) = Some net'"
    "agree (take (length st) (server_list s)) (take (length ft) (file_list s)) net'"
    "net' h = Some s" "\<And>x. x \<noteq> h \<Longrightarrow> map_option rfs_os (net' x) = map_option rfs_os (net x)"
proof -
  let ?st = "take (length st) (server_list s)" and ?ft = "take (length ft) (file_list s)"
  define N where "N = (\<lambda>x. if \<exists>i\<in>set [0..<length st]. int i \<noteq> get_this_host_idx s \<and> x = sname (server_list s ! i)
    then map_option (synced s) ((net(h \<mapsto> s)) x) else (net(h \<mapsto> s)) x)"
  have dist: "distinct (map sname st)" using ag by (simp add: agree_def)
  have len: "length ?st = length st" "length ?ft = length ft" using s by (simp_all add: tables_wf_def)
  have nm: "sname (server_list s ! i) = sname (st ! i)" if "i < length st" for i
    using arg_cong [OF names, of "\<lambda>xs. xs ! i"] that len by simp
  have me: "get_this_host_idx s = int m" using host_idx [OF dist m _ s(3) names] s(2) h by simp
  have in_net: "\<exists>r. net (sname (st ! i)) = Some r" if "i < length st" for i using ag that by (auto simp: agree_def)
  have hosts: "map (\<lambda>i. sname (server_list s ! i)) [0..<length st] = map sname st"
    by (rule nth_equalityI) (simp_all add: nm)
  have upd: "update_all s [0..<length st] (net(h \<mapsto> s)) = Some N"
    unfolding N_def
  proof (rule update_all_ok [OF s(1)])
    show "distinct (map (\<lambda>i. sname (server_list s ! i)) [0..<length st])" unfolding hosts by (rule dist)
  qed (use in_net nm in auto)
  have h': "N h = Some s"
  proof -
    have "\<not> (\<exists>i\<in>set [0..<length st]. int i \<noteq> get_this_host_idx s \<and> h = sname (server_list s ! i))"
      using dist m nm h me nth_eq_iff_index_eq [of "map sname st" m] by auto
    then show ?thesis unfolding N_def by auto
  qed
  have other: "N (sname (st ! i)) = map_option (synced s) (net (sname (st ! i)))" if "i < length st" "sname (st ! i) \<noteq> h" for i
  proof -
    have "\<exists>i'\<in>set [0..<length st]. int i' \<noteq> get_this_host_idx s \<and> sname (st ! i) = sname (server_list s ! i')"
      using that nm me h by (intro bexI [of _ i]) auto
    then show ?thesis using that(2) by (simp add: N_def)
  qed
  have each: "\<exists>q. N x = Some q \<and> this_host q = x \<and> get_st q = (length ?st, ?st) \<and> get_ft q = (length ?ft, ?ft) \<and>
      length (server_list q) = MAX_SERVERS \<and> length (file_list q) = MAX_FILES \<and>
      file_names q = file_names (the (net x))" if x: "x \<in> set (map sname st)" for x
  proof (cases "x = h")
    case True
    then show ?thesis using h' s len dir by (auto simp: get_st_def get_ft_def tables_wf_def)
  next
    case False
    obtain i where i: "i < length st" "x = sname (st ! i)" using x by (auto simp: in_set_conv_nth)
    obtain q where q: "net x = Some q" "this_host q = x" "tables_wf q" using agree_server [OF ag i(1)] i(2) by metis
    then have "tables_wf (synced s q)" using s(1) by simp
    then show ?thesis using other [OF i(1)] False i(2) q s len by (auto simp: get_st_def get_ft_def tables_wf_def file_names_def synced_def)
  qed
  then have dirs: "map (\<lambda>h. file_names (the (N h))) (map sname st) = map (\<lambda>h. file_names (the (net h))) (map sname st)"
    by (intro map_cong refl) fastforce
  have "agree ?st ?ft N"
    unfolding agree_def names accurate_cong [OF keys] dirs
  proof (intro conjI ballI)
    show "\<exists>q. N x = Some q \<and> this_host q = x \<and> get_st q = (length ?st, ?st) \<and> get_ft q = (length ?ft, ?ft) \<and>
      length (server_list q) = MAX_SERVERS \<and> length (file_list q) = MAX_FILES" if "x \<in> set (map sname st)" for x
      using each [OF that] by blast
  qed (use ag len in \<open>simp_all add: agree_def\<close>)
  moreover have "map_option rfs_os (N x) = map_option rfs_os (net x)" if "x \<noteq> h" for x
    using that by (simp add: N_def option.map_comp o_def)
  ultimately show ?thesis using that upd h' by blast
qed

section \<open>A file that every server has\<close>

text \<open>Modes a user gives: neither of the bits the servers use among themselves.\<close>

definition user_mode :: "int \<Rightarrow> bool" where
  "user_mode mode \<longleftrightarrow> mode AND O_REPLICATE = 0 \<and> mode AND OP_REDIRECT = 0"

lemma redirect_mode:
  assumes "user_mode mode"
  shows "(mode OR OP_REDIRECT) AND O_REPLICATE = 0" "(mode OR OP_REDIRECT) AND OP_REDIRECT \<noteq> 0" "(mode OR OP_REDIRECT) AND NOT OP_REDIRECT = mode"
proof -
  have "(mode OR OP_REDIRECT) AND O_REPLICATE = (mode AND O_REPLICATE) OR (OP_REDIRECT AND O_REPLICATE)" by (simp add: bit.conj_disj_distrib2)
  then show "(mode OR OP_REDIRECT) AND O_REPLICATE = 0" using assms by (simp add: user_mode_def rfs_codes)
  have "(mode OR OP_REDIRECT) AND OP_REDIRECT = OP_REDIRECT" by (rule bit_eqI) (auto simp: bit_simps)
  then show "(mode OR OP_REDIRECT) AND OP_REDIRECT \<noteq> 0" by (simp add: rfs_codes)
  show "(mode OR OP_REDIRECT) AND NOT OP_REDIRECT = mode"
  proof (rule bit_eqI)
    fix n
    have "\<not> (bit mode n \<and> bit OP_REDIRECT n)" using assms by (metis user_mode_def bit_and_iff bit_0_eq bot_apply bot_bool_def)
    then show "bit ((mode OR OP_REDIRECT) AND NOT OP_REDIRECT) n = bit mode n" by (auto simp: bit_simps)
  qed
qed

text \<open>Opening at the server of the entry \<open>m\<close>, with the updates it sends.\<close>

lemma open_and_update:
  assumes ag: "agree st ft net" and m: "m < length st" and h: "h = sname (st ! m)" and j: "j < length ft" "fname (ft ! j) = path"
    and s: "net h = Some s" and has: "path \<in> set (file_names s)"
  obtains s' fd net' where "open_here path mode (int m) (int j) hdr s = Some (s', hdr\<lparr>hdr_op := OP_OPEN, p1 := fd\<rparr>)"
    "0 \<le> fd" "update_all (on_fopen b m j s') [0..<total_servers (on_fopen b m j s')] (net(h \<mapsto> on_fopen b m j s')) = Some net'"
    "consistent (map sname st) net'" "lookup_fd fd (rfs_os (the (net' h))) = Some (path, 0, mode)"
    "\<And>x. x \<noteq> h \<Longrightarrow> map_option rfs_os (net' x) = map_option rfs_os (net x)"
proof -
  obtain sv where sv: "net h = Some sv" "this_host sv = h" "tables_wf sv" "total_servers sv = length st" "total_files sv = length ft"
    "take (length st) (server_list sv) = st" "take (length ft) (file_list sv) = ft"
    using agree_server [OF ag m] h by metis
  then have s_ok: "this_host s = h" "tables_wf s" "total_servers s = length st" "total_files s = length ft"
    "take (length st) (server_list s) = st" "take (length ft) (file_list s) = ft" using s by simp_all
  obtain os fd where o: "sys_open path mode (rfs_os s) = Inr (os, fd)" "0 \<le> fd" "map fst (disk os) = map fst (disk (rfs_os s))"
    "lookup_fd fd os = Some (path, 0, mode)"
    using sys_open_existing [of path "rfs_os s" mode] has unfolding file_names_def by metis
  define s' where "s' = s\<lparr>rfs_os := os, server_list := (server_list s)[m := (server_list s ! m)\<lparr>fds := (fds (server_list s ! m))[j := fd]\<rparr>]\<rparr>"
  have here: "open_here path mode (int m) (int j) hdr s = Some (s', hdr\<lparr>hdr_op := OP_OPEN, p1 := fd\<rparr>)"
    using o(1) by (simp add: open_here_def s'_def Let_def)
  let ?s = "on_fopen b m j s'"
  have "map sname (server_list ?s) = map sname (server_list s)" by (simp add: on_fopen_names s'_def map_update_same)
  then have names: "map sname (take (length st) (server_list ?s)) = map sname st" by (metis s_ok(5) take_map)
  have "map file_key (file_list ?s) = map file_key (file_list s)" by (simp add: on_fopen_keys s'_def)
  then have keys: "map file_key (take (length ft) (file_list ?s)) = map file_key ft" by (metis s_ok(6) take_map)
  have wf: "tables_wf ?s" using s_ok(2) by (simp add: tables_wf_def s'_def)
  obtain net' where net': "update_all ?s [0..<length st] (net(h \<mapsto> ?s)) = Some net'"
    "agree (take (length st) (server_list ?s)) (take (length ft) (file_list ?s)) net'"
    "net' h = Some ?s" "\<And>x. x \<noteq> h \<Longrightarrow> map_option rfs_os (net' x) = map_option rfs_os (net x)"
    by (rule agree_sync [OF ag m h wf _ _ _ names keys]) (use s s_ok o(3) in \<open>auto simp: s'_def file_names_def\<close>)
  have "consistent (map sname st) net'" unfolding consistent_def using net'(2) names by blast
  then show ?thesis using that here o(2,4) net' s_ok(3) by (simp add: s'_def)
qed

lemma entry_of_all:
  assumes ag: "agree st ft net" and all: "\<forall>h\<in>set (map sname st). path \<in> set (file_names (the (net h)))" and st: "st \<noteq> []"
  obtains j where "j < length ft" "fname (ft ! j) = path" "tot_idx (ft ! j) = length st"
proof -
  let ?dirs = "map (\<lambda>h. file_names (the (net h))) (map sname st)"
  have acc: "accurate ?dirs ft" using ag by (simp add: agree_def)
  have "path \<in> \<Union> (set ` set ?dirs)" using all st by (cases st) auto
  then have "path \<in> fname ` set ft" using acc by (simp add: accurate_def)
  then obtain j where j: "j < length ft" "fname (ft ! j) = path" by (auto simp: in_set_conv_nth)
  then have e: "entry_ok ?dirs (ft ! j)" using acc by (simp add: accurate_def)
  have "{i. i < length ?dirs \<and> path \<in> set (?dirs ! i)} = {..<length st}" using all by auto
  then have "card (set (take (tot_idx (ft ! j)) (index (ft ! j)))) = length st" using e j(2) by (simp add: entry_ok_def)
  moreover have "card (set (take (tot_idx (ft ! j)) (index (ft ! j)))) = tot_idx (ft ! j)"
    using e distinct_card [of "take (tot_idx (ft ! j)) (index (ft ! j))"] by (simp add: entry_ok_def)
  ultimately show ?thesis using that j by simp
qed

lemma select_peer_all:
  assumes ag: "agree st ft net" and i: "i < length st" and j: "j < length ft" "tot_idx (ft ! j) = length st"
    and free: "0 < sfree (st ! most_free st (length st)) + request (ft ! j)"
  shows "select_peer junk (sname (st ! i)) (int j) net = Some (net, int (most_free st (length st)), [])"
proof -
  obtain s where s: "net (sname (st ! i)) = Some s" "total_servers s = length st" "\<And>k. k < length st \<Longrightarrow> server_list s ! k = st ! k"
    "\<And>k. k < length ft \<Longrightarrow> file_list s ! k = ft ! k" "get_this_host_idx s = int i"
    using agree_server [OF ag i] by metis
  have "0 < length st" using i by linarith
  then have "most_free (server_list s) (length st) = most_free st (length st)"
    "best_pair (server_list s) (request (ft ! j)) (length st) = best_pair st (request (ft ! j)) (length st)"
    using most_free_cong [of "length st" "server_list s" st] best_pair_cong [of "length st" "server_list s" st] s(3) by auto
  then show ?thesis
    using s best_pair_all [OF _ free] j \<open>0 < length st\<close> by (simp add: select_peer_def Let_def)
qed

text \<open>C10: The servers agree on right tables, all of them have the file, and not all are exhausted. Some server is at least as free as every other.
  A client that asks this one to open the file has it opened there. A client that asks any other is sent there, and the request that it is to
  make there opens the file; but it is never made, since writing the end of the server's name reaches behind the array it was received in. The
  file is open for what was asked at its beginning, nothing is replicated, and all servers agree again on right tables.\<close>

theorem open_reaches_least_busy:
  assumes ag: "agree st ft net" and i: "i < length st" and all: "\<forall>h\<in>set (map sname st). path \<in> set (file_names (the (net h)))"
    and free: "\<forall>e\<in>set ft. 0 \<le> request e" "\<exists>e\<in>set st. 0 < sfree e" and path: "length DFS + length path < MAX_PATH" and mode: "user_mode mode"
  shows "\<exists>m<length st. \<exists>net' fd. (\<forall>e\<in>set st. sfree e \<le> sfree (st ! m)) \<and>
    (if m = i then my_fopen junk bumped (sname (st ! i)) path mode net = Some (net', Some (sname (st ! m), fd), [])
     else (\<exists>hdr. server_open (select_peer junk) bumped (sname (st ! i)) (junk\<lparr>hdr_op := OP_OPEN, p1 := mode, p2 := int32 (int (length path))\<rparr>) path net
           = Some (net, [(hdr, sname (st ! m))], []) \<and> hdr_op hdr = OP_REDIRECT \<and> p1 hdr = int32 (int (length (sname (st ! m))))) \<and>
       client_open (select_peer junk) bumped junk (sname (st ! m)) path (mode OR OP_REDIRECT) net = Some (net', fd, []) \<and>
       my_fopen junk bumped (sname (st ! i)) path mode net = None) \<and>
    lookup_fd fd (rfs_os (the (net' (sname (st ! m))))) = Some (path, 0, mode) \<and> consistent (map sname st) net'"
proof -
  define m where "m = most_free st (length st)"
  have n: "0 < length st" using i by linarith
  note m = most_free_max [OF n, of st, folded m_def]
  then have most: "\<forall>e\<in>set st. sfree e \<le> sfree (st ! m)" by (auto simp: in_set_conv_nth)
  obtain j where j: "j < length ft" "fname (ft ! j) = path" "tot_idx (ft ! j) = length st"
    using entry_of_all [OF ag all] n by auto
  have "0 < sfree (st ! m)" using most free(2) by (meson order_less_le_trans)
  moreover have "0 \<le> request (ft ! j)" using free(1) j(1) by simp
  ultimately have pos: "0 < sfree (st ! most_free st (length st)) + request (ft ! j)" unfolding m_def by linarith
  note peer = select_peer_all [OF ag i j(1,3) pos, of junk, folded m_def]
  let ?h = "sname (st ! m)" and ?hdr = "junk\<lparr>hdr_op := OP_OPEN, p1 := mode, p2 := int32 (int (length path))\<rparr>"
    and ?hdr' = "junk\<lparr>hdr_op := OP_OPEN, p1 := mode OR OP_REDIRECT, p2 := int32 (int (length path))\<rparr>"
  obtain s where s: "net (sname (st ! i)) = Some s" "total_servers s = length st" "total_files s = length ft"
    "take (length ft) (file_list s) = ft" "\<And>k. k < length st \<Longrightarrow> server_list s ! k = st ! k" "get_this_host_idx s = int i"
    using agree_server [OF ag i] by metis
  obtain sm where sm: "net ?h = Some sm" "total_files sm = length ft" "take (length ft) (file_list sm) = ft" "get_this_host_idx sm = int m"
    using agree_server [OF ag] m by metis
  note idx = agree_file_idx [OF ag j(1), unfolded j(2)]
  have has: "path \<in> set (file_names sm)" using all m sm(1) by (metis image_eqI list.set_map nth_mem option.sel)
  show ?thesis
  proof (cases "i = m")
    case True
    have ss: "sm = s" using s(1) sm(1) True by simp
    obtain s' fd net' where o: "open_here path mode (int m) (int j) ?hdr sm = Some (s', ?hdr\<lparr>hdr_op := OP_OPEN, p1 := fd\<rparr>)"
      "update_all (on_fopen bumped m j s') [0..<total_servers (on_fopen bumped m j s')] (net(?h \<mapsto> on_fopen bumped m j s')) = Some net'"
      "consistent (map sname st) net'" "lookup_fd fd (rfs_os (the (net' ?h))) = Some (path, 0, mode)"
      using open_and_update [OF ag _ refl j(1,2) sm(1) has] m by metis
    have "server_open (select_peer junk) bumped ?h ?hdr path net = Some (net', [(?hdr\<lparr>hdr_op := OP_OPEN, p1 := fd\<rparr>, [])], [])"
      using path mode peer True sm o(1,2) idx [OF sm(3,2)] by (simp add: server_open_def user_mode_def)
    then have "my_fopen junk bumped (sname (st ! i)) path mode net = Some (net', Some (?h, fd), [])"
      using True sm(1) by (simp add: my_fopen_def rfs_codes)
    then show ?thesis using o(3,4) most m True by (intro exI [of _ m] conjI exI [of _ net'] exI [of _ fd]) simp_all
  next
    case False
    obtain s' fd net' where o: "open_here path mode (int m) (int j) ?hdr' sm = Some (s', ?hdr'\<lparr>hdr_op := OP_OPEN, p1 := fd\<rparr>)" "0 \<le> fd"
      "update_all (on_fopen bumped m j s') [0..<total_servers (on_fopen bumped m j s')] (net(?h \<mapsto> on_fopen bumped m j s')) = Some net'"
      "consistent (map sname st) net'" "lookup_fd fd (rfs_os (the (net' ?h))) = Some (path, 0, mode)"
      using open_and_update [OF ag _ refl j(1,2) sm(1) has] m by metis
    have redirect: "server_open (select_peer junk) bumped (sname (st ! i)) ?hdr path net =
        Some (net, [(?hdr\<lparr>hdr_op := OP_REDIRECT, p1 := int32 (int (length ?h))\<rparr>, ?h)], [])"
      using path mode peer False s m idx [OF s(4,3)] by (simp add: server_open_def user_mode_def Let_def)
    have "server_open (select_peer junk) bumped ?h ?hdr' path net = Some (net', [(?hdr'\<lparr>hdr_op := OP_OPEN, p1 := fd\<rparr>, [])], [])"
      using path redirect_mode [OF mode] sm o(1,3) idx [OF sm(3,2)] by (simp add: server_open_def)
    then have "client_open (select_peer junk) bumped junk ?h path (mode OR OP_REDIRECT) net = Some (net', fd, [])"
      by (simp add: client_open_def)
    moreover have "my_fopen junk bumped (sname (st ! i)) path mode net = None"
      by (rule my_fopen_redirected [OF _ redirect]) (use s(1) in simp_all)
    moreover have "\<exists>hdr. server_open (select_peer junk) bumped (sname (st ! i)) ?hdr path net = Some (net, [(hdr, ?h)], []) \<and>
        hdr_op hdr = OP_REDIRECT \<and> p1 hdr = int32 (int (length ?h))"
      using redirect by simp
    ultimately show ?thesis
      using o(4,5) most m False by (intro exI [of _ m] conjI exI [of _ net'] exI [of _ fd]) simp_all
  qed
qed

section \<open>A file that one server has\<close>

lemma entry_of_one:
  assumes ag: "agree st ft net" and k: "k < length st" "path \<in> set (file_names (the (net (sname (st ! k)))))"
    and no: "\<forall>i<length st. i \<noteq> k \<longrightarrow> path \<notin> set (file_names (the (net (sname (st ! i)))))"
  obtains j where "j < length ft" "fname (ft ! j) = path" "tot_idx (ft ! j) = 1"
proof -
  let ?dirs = "map (\<lambda>h. file_names (the (net h))) (map sname st)"
  have acc: "accurate ?dirs ft" using ag by (simp add: agree_def)
  have "path \<in> \<Union> (set ` set ?dirs)" using k by auto
  then have "path \<in> fname ` set ft" using acc by (simp add: accurate_def)
  then obtain j where j: "j < length ft" "fname (ft ! j) = path" by (auto simp: in_set_conv_nth)
  then have e: "entry_ok ?dirs (ft ! j)" using acc by (simp add: accurate_def)
  have "{i. i < length ?dirs \<and> path \<in> set (?dirs ! i)} = {k}" using k no by auto
  then have "set (take (tot_idx (ft ! j)) (index (ft ! j))) = {k}" using e j(2) by (simp add: entry_ok_def)
  moreover have "card (set (take (tot_idx (ft ! j)) (index (ft ! j)))) = tot_idx (ft ! j)"
    using e distinct_card [of "take (tot_idx (ft ! j)) (index (ft ! j))"] by (simp add: entry_ok_def)
  ultimately show ?thesis using that j by simp
qed

lemma open_here_missing:
  assumes "path \<notin> set (file_names s)" "mode AND O_CREAT = 0"
  shows "open_here path mode s_idx f_idx hdr s = Some (s, hdr\<lparr>hdr_op := ERR_OPEN, p1 := ENOENT\<rparr>)"
  using sys_open_missing [of path "rfs_os s" mode] assms by (simp add: open_here_def file_names_def)

text \<open>The first server is the only one that is asked, by its position in the list and not by what is in the list.\<close>

lemma select_peer_one:
  assumes ag: "agree st ft net" and i: "i < length st" and j: "j < length ft" "fname (ft ! j) = path" "tot_idx (ft ! j) = 1"
    and free: "0 < sfree (st ! 0) + request (ft ! j)" and path: "length DFS + length path < MAX_PATH"
    and no: "path \<notin> set (file_names (the (net (sname (st ! 0)))))"
  shows "select_peer junk (sname (st ! i)) (int j) net = Some (net, 0, [])"
proof -
  obtain s where s: "net (sname (st ! i)) = Some s" "total_servers s = length st" "\<And>k. k < length st \<Longrightarrow> server_list s ! k = st ! k"
    "\<And>k. k < length ft \<Longrightarrow> file_list s ! k = ft ! k" "get_this_host_idx s = int i"
    using agree_server [OF ag i] by metis
  have n: "0 < length st" using i by linarith
  note m = most_free_max [OF n, of "server_list s"]
  then obtain q where q: "net (sname (st ! most_free (server_list s) (length st))) = Some q" using agree_server [OF ag] by metis
  have one: "snd (best_pair (server_list s) (request (ft ! j)) (Suc 0)) = 0" using free s(3) [OF n] by simp
  have "replicate_file junk (sname (st ! i)) j (most_free (server_list s) (length st)) net = Some (net, - 2, [])" if "i = 0"
    using s q m j path no that sys_open_missing [of path "rfs_os s" O_RDONLY]
    by (simp add: replicate_file_def file_names_def Let_def rfs_codes)
  then show ?thesis using s one j by (cases "i = 0") (simp_all add: select_peer_def Let_def)
qed

text \<open>The servers agree on right tables, and only one server, not the first, has the file. A client that asks the first one to open it, without
  asking for it to be created, is told that there is no such file, and nothing changes; a client that asks any other, also the one that has it, is
  sent to the first.\<close>

theorem lone_file_unreachable:
  assumes ag: "agree st ft net" and i: "i < length st" and k: "k < length st" "k \<noteq> 0" "path \<in> set (file_names (the (net (sname (st ! k)))))"
    and no: "\<forall>i<length st. i \<noteq> k \<longrightarrow> path \<notin> set (file_names (the (net (sname (st ! i)))))"
    and free: "\<forall>e\<in>set ft. 0 \<le> request e" "0 < sfree (st ! 0)" and path: "length DFS + length path < MAX_PATH"
    and mode: "user_mode mode" "mode AND O_CREAT = 0"
  shows "my_fopen junk bumped (sname (st ! i)) path mode net = (if i = 0 then Some (net, None, []) else None) \<and>
    (i \<noteq> 0 \<longrightarrow> (\<exists>hdr. server_open (select_peer junk) bumped (sname (st ! i)) (junk\<lparr>hdr_op := OP_OPEN, p1 := mode, p2 := int32 (int (length path))\<rparr>) path net
       = Some (net, [(hdr, sname (st ! 0))], []) \<and> hdr_op hdr = OP_REDIRECT) \<and>
     client_open (select_peer junk) bumped junk (sname (st ! 0)) path (mode OR OP_REDIRECT) net = Some (net, - 1, []))"
proof -
  have n: "0 < length st" using i by linarith
  obtain j where j: "j < length ft" "fname (ft ! j) = path" "tot_idx (ft ! j) = 1"
    using entry_of_one [OF ag k(1,3) no] .
  have no0: "path \<notin> set (file_names (the (net (sname (st ! 0)))))" using no n k(2) by metis
  have "0 \<le> request (ft ! j)" using free(1) j(1) by simp
  then have pos: "0 < sfree (st ! 0) + request (ft ! j)" using free(2) by linarith
  note peer = select_peer_one [OF ag i j pos path no0, of junk]
  let ?h = "sname (st ! 0)" and ?hdr = "junk\<lparr>hdr_op := OP_OPEN, p1 := mode, p2 := int32 (int (length path))\<rparr>"
    and ?hdr' = "junk\<lparr>hdr_op := OP_OPEN, p1 := mode OR OP_REDIRECT, p2 := int32 (int (length path))\<rparr>"
  obtain s where s: "net (sname (st ! i)) = Some s" "total_servers s = length st" "total_files s = length ft"
    "take (length ft) (file_list s) = ft" "\<And>k. k < length st \<Longrightarrow> server_list s ! k = st ! k" "get_this_host_idx s = int i"
    using agree_server [OF ag i] by metis
  obtain s0 where s0: "net ?h = Some s0" "total_files s0 = length ft" "take (length ft) (file_list s0) = ft" "get_this_host_idx s0 = int 0"
    using agree_server [OF ag n] by metis
  note idx = agree_file_idx [OF ag j(1), unfolded j(2)]
  have miss: "open_here path mode 0 (int j) hdr s0 = Some (s0, hdr\<lparr>hdr_op := ERR_OPEN, p1 := ENOENT\<rparr>)" for hdr
    using open_here_missing [of path s0 mode] no0 s0(1) mode(2) by simp
  have same: "net(?h \<mapsto> s0) = net" using s0(1) by auto
  have err: "ERR_OPEN \<noteq> OP_OPEN" "ERR_OPEN \<noteq> OP_REDIRECT" by (simp_all add: rfs_codes)
  show ?thesis
  proof (cases "i = 0")
    case True
    have "server_open (select_peer junk) bumped ?h ?hdr path net = Some (net, [(?hdr\<lparr>hdr_op := ERR_OPEN, p1 := ENOENT\<rparr>, [])], [])"
      using path mode peer True s0 miss idx [OF s0(3,2)] same err by (simp add: server_open_def user_mode_def)
    then show ?thesis using True s0(1) err by (simp add: my_fopen_def)
  next
    case False
    have redirect: "server_open (select_peer junk) bumped (sname (st ! i)) ?hdr path net =
        Some (net, [(?hdr\<lparr>hdr_op := OP_REDIRECT, p1 := int32 (int (length ?h))\<rparr>, ?h)], [])"
      using path mode peer False s n idx [OF s(4,3)] by (simp add: server_open_def user_mode_def Let_def)
    have "server_open (select_peer junk) bumped ?h ?hdr' path net = Some (net, [(?hdr'\<lparr>hdr_op := ERR_OPEN, p1 := ENOENT\<rparr>, [])], [])"
      using path redirect_mode [OF mode(1)] s0 miss idx [OF s0(3,2)] same err by (simp add: server_open_def)
    then have "client_open (select_peer junk) bumped junk ?h path (mode OR OP_REDIRECT) net = Some (net, - 1, [])"
      using err by (simp add: client_open_def)
    moreover have "my_fopen junk bumped (sname (st ! i)) path mode net = None"
      by (rule my_fopen_redirected [OF _ redirect]) (use s(1) in simp_all)
    ultimately show ?thesis using redirect False by simp
  qed
qed

section \<open>Two servers\<close>

text \<open>Both have a file \<open>x\<close>; the second, which is less busy, has another, \<open>y\<close>.\<close>

definition two_st :: "server_table list" where
  "two_st = [\<lparr>sfree = 7, fds = replicate MAX_FILES 0, sname = ''a''\<rparr>, \<lparr>sfree = 9, fds = replicate MAX_FILES 0, sname = ''b''\<rparr>]"

definition two_ft :: "file_table list" where
  "two_ft = [\<lparr>tot_idx = 2, request = 1, index = [0, 1, 0, 0], fname = ''x''\<rparr>, \<lparr>tot_idx = 1, request = 0, index = [1, 0, 0, 0], fname = ''y''\<rparr>]"

definition one_of_two :: "string \<Rightarrow> (string \<times> content) list \<Rightarrow> rfs" where
  "one_of_two h fs = \<lparr>file_list = two_ft @ drop 2 empty_files, server_list = two_st @ drop 2 empty_servers, total_files = 2, total_servers = 2,
     this_host = h, rfs_os = \<lparr>disk = fs, descr = [Other, Other, Other]\<rparr>\<rparr>"

definition two_net :: net where
  "two_net = [''a'' \<mapsto> one_of_two ''a'' [(''x'', [1])], ''b'' \<mapsto> one_of_two ''b'' [(''x'', [1]), (''y'', [2])]]"

lemma two_agree: "agree two_st two_ft two_net"
proof -
  let ?dirs = "[[''x''], [''x'', ''y'']]"
  have "{i. i < Suc (Suc 0) \<and> ''x'' \<in> set (?dirs ! i)} = {0, 1}" "{i. i < Suc (Suc 0) \<and> ''y'' \<in> set (?dirs ! i)} = {1}"
    by (auto simp: less_Suc_eq)
  then have "accurate ?dirs two_ft" by (simp add: accurate_def entry_ok_def two_ft_def MAX_SERVERS_def) auto
  moreover have "map (\<lambda>h. file_names (the (two_net h))) (map sname two_st) = ?dirs"
    by (simp add: two_st_def two_net_def one_of_two_def file_names_def)
  ultimately show ?thesis
    unfolding agree_def
    by (simp add: two_st_def two_ft_def two_net_def one_of_two_def get_st_def get_ft_def rfs_sizes empty_files_def empty_servers_def)
qed

theorem open_reaches_least_busy_witness:
  "(\<exists>net' fd. my_fopen \<lparr>hdr_op = 0, p1 = 0, p2 = 0, p3 = 0\<rparr> True ''b'' ''x'' O_RDONLY two_net = Some (net', Some (''b'', fd), [])) \<and>
   my_fopen \<lparr>hdr_op = 0, p1 = 0, p2 = 0, p3 = 0\<rparr> True ''a'' ''x'' O_RDONLY two_net = None"
proof -
  let ?J = "\<lparr>hdr_op = 0, p1 = 0, p2 = 0, p3 = 0\<rparr>"
  have hyps: "\<forall>h\<in>set (map sname two_st). ''x'' \<in> set (file_names (the (two_net h)))" "\<forall>e\<in>set two_ft. 0 \<le> request e"
    "\<exists>e\<in>set two_st. 0 < sfree e" "length DFS + length ''x'' < MAX_PATH" "user_mode O_RDONLY"
    by (simp_all add: two_st_def two_ft_def two_net_def one_of_two_def file_names_def DFS_def MAX_PATH_def user_mode_def O_RDONLY_def)
  have two: "(1 :: nat) < length two_st" "(0 :: nat) < length two_st" by (simp_all add: two_st_def)
  have m: "m = 1" if "m < length two_st" "\<forall>e\<in>set two_st. sfree e \<le> sfree (two_st ! m)" for m
    using that by (auto simp: two_st_def less_Suc_eq)
  have names: "sname (two_st ! 0) = ''a''" "sname (two_st ! 1) = ''b''" by (simp_all add: two_st_def)
  from open_reaches_least_busy [OF two_agree two(1) hyps, of ?J True] m
  have "\<exists>net' fd. my_fopen ?J True ''b'' ''x'' O_RDONLY two_net = Some (net', Some (''b'', fd), [])" by (metis names(2))
  moreover from open_reaches_least_busy [OF two_agree two(2) hyps, of ?J True] m
  have "my_fopen ?J True ''a'' ''x'' O_RDONLY two_net = None" by (metis names(1) zero_neq_one)
  ultimately show ?thesis by blast
qed

theorem lone_file_unreachable_witness:
  "my_fopen \<lparr>hdr_op = 0, p1 = 0, p2 = 0, p3 = 0\<rparr> True ''a'' ''y'' O_RDONLY two_net = Some (two_net, None, [])"
  using lone_file_unreachable [OF two_agree, of 0 1 "''y''" O_RDONLY "\<lparr>hdr_op = 0, p1 = 0, p2 = 0, p3 = 0\<rparr>" True]
  by (simp add: two_st_def two_ft_def two_net_def one_of_two_def file_names_def DFS_def MAX_PATH_def user_mode_def O_RDONLY_def less_Suc_eq)

end
