(* ===== verification/RfsReplica.thy ===== *)
theory RfsReplica
  imports RfsPeer
begin

text \<open>
  Replication in the remote file system: what a replica contains, and what becomes of the servers after a file was written. Closing a file that was open
  for writing replicates it to the servers that have it; there the replica is itself a file that was open for writing, and closing it
  replicates it in turn.

  \<open>rfs_step\<close>: one of the threads that wait makes one round of its loop, \<open>None\<close> if it goes out of bounds.
\<close>

section \<open>Copying\<close>

lemma lookup_fd_iff:
  "lookup_fd fd s = Some (name, pos, mode) \<longleftrightarrow> 0 \<le> fd \<and> nat fd < length (descr s) \<and> descr s ! nat fd = File name pos mode"
  by (auto simp: lookup_fd_def split: descriptor.split)

lemma set_pos_known: "lookup_fd fd s = Some (name, pos, mode) \<Longrightarrow> set_pos fd p s = s\<lparr>descr := (descr s)[nat fd := File name p mode]\<rparr>"
  by (simp add: lookup_fd_iff set_pos_def)

lemma contents_update: "contents name (s\<lparr>disk := AList.update name d (disk s)\<rparr>) = d"
  by (simp add: contents_def update_conv')

text \<open>The part of the new contents before \<open>p\<close> over the old contents.\<close>

definition overlay :: "nat \<Rightarrow> content \<Rightarrow> content \<Rightarrow> content" where
  "overlay p d old = take p d @ drop p old"

lemma write_overlay:
  assumes "p \<le> length d"
  shows "overwrite p (take n (drop p d)) (overlay p d old) = overlay (p + length (take n (drop p d))) d old"
proof (cases "take n (drop p d) = []")
  case False
  have "p + length (take n (drop p d)) \<le> length d" using assms by simp
  then have "take (p + length (take n (drop p d))) d = take p d @ take n (drop p d)"
    by (simp add: take_add min_def)
  then show ?thesis using False assms by (simp add: overwrite_def overlay_def add.commute)
next
  case True
  then show ?thesis unfolding True by (simp add: overwrite_def)
qed

definition with_os :: "rfs \<Rightarrow> (string \<times> content) list \<Rightarrow> descriptor list \<Rightarrow> rfs" where
  "with_os s d ds = s\<lparr>rfs_os := \<lparr>disk = d, descr = ds\<rparr>\<rparr>"

lemma with_os_simps [simp]:
  "rfs_os (with_os s d ds) = \<lparr>disk = d, descr = ds\<rparr>" "this_host (with_os s d ds) = this_host s"
  "file_list (with_os s d ds) = file_list s" "server_list (with_os s d ds) = server_list s"
  "total_files (with_os s d ds) = total_files s" "total_servers (with_os s d ds) = total_servers s"
  "with_os (with_os s d ds) d' ds' = with_os s d' ds'" "get_this_host_idx (with_os s d ds) = get_this_host_idx s"
  "(with_os s d ds)\<lparr>rfs_os := \<lparr>disk = d', descr = ds'\<rparr>\<rparr> = with_os s d' ds'"
  by (simp_all add: with_os_def get_this_host_idx_def)

lemma rfs_commute:
  "s\<lparr>server_list := x, rfs_os := y\<rparr> = s\<lparr>rfs_os := y, server_list := x\<rparr>"
  "s\<lparr>file_list := z, rfs_os := y\<rparr> = s\<lparr>rfs_os := y, file_list := z\<rparr>"
  "s\<lparr>file_list := z, server_list := x\<rparr> = s\<lparr>server_list := x, file_list := z\<rparr>" for s :: rfs
  by (cases s; simp)+

lemma with_os_updates [simp]:
  "(with_os s d ds)\<lparr>file_list := z\<rparr> = with_os (s\<lparr>file_list := z\<rparr>) d ds"
  "(with_os s d ds)\<lparr>server_list := x\<rparr> = with_os (s\<lparr>server_list := x\<rparr>) d ds"
  by (simp_all add: with_os_def rfs_commute)

lemma copy_file_ok:
  assumes ab: "a \<noteq> b" and a: "net a = Some (with_os sa da dsa)" "nat fa < length dsa" "0 \<le> fa" "dsa ! nat fa = File n p O_RDONLY" "map_of da n = Some d"
    and b: "net b = Some (with_os sb db dsb)" "nat fb < length dsb" "0 \<le> fb" "dsb ! nat fb = File n' p (O_CREAT OR O_WRONLY)"
      "map_of db n' = Some (overlay p d old)" and p: "p \<le> length d"
  shows "copy_file junk a fa b fb net = Some (net(a \<mapsto> with_os sa da (dsa[nat fa := File n (length d) O_RDONLY]),
     b \<mapsto> with_os sb (AList.update n' (overlay (length d) d old) db) (dsb[nat fb := File n' (length d) (O_CREAT OR O_WRONLY)])), 0)"
  using a b p
proof (induction "length d - p" arbitrary: net p dsa dsb db rule: less_induct)
  case less
  let ?c = "take BUFF_SIZE (drop p d)"
  let ?p = "p + length ?c"
  let ?dsa = "dsa[nat fa := File n ?p O_RDONLY]" and ?dsb = "dsb[nat fb := File n' ?p (O_CREAT OR O_WRONLY)]"
    and ?db = "AList.update n' (overlay ?p d old) db"
  let ?net = "net(a \<mapsto> with_os sa da ?dsa, b \<mapsto> with_os sb ?db ?dsb)"
  have "\<not> MAX_TRANSFER < BUFF_SIZE" by (simp add: BUFF_SIZE_def MAX_TRANSFER_def)
  moreover from this have "length ?c \<le> MAX_TRANSFER" by simp
  ultimately have small: "\<not> MAX_TRANSFER < BUFF_SIZE" "int32 (int (length ?c)) = int (length ?c)"
    using MAX_TRANSFER_int32 by blast+
  have reading: "sys_read fa BUFF_SIZE (rfs_os (the (net a))) = Inr (\<lparr>disk = da, descr = ?dsa\<rparr>, ?c)"
    using less.prems(1-5)
    by (simp add: sys_read_def lookup_fd_def set_pos_def contents_def Let_def O_RDONLY_def O_WRONLY_def O_ACCMODE_def)
  have "sys_write fb ?c \<lparr>disk = db, descr = dsb\<rparr> = Inr (\<lparr>disk = ?db, descr = ?dsb\<rparr>, int (length ?c))"
    using less.prems(7-11) write_overlay [OF less.prems(11), of BUFF_SIZE old]
    by (simp add: sys_write_def lookup_fd_def set_pos_def contents_def Let_def O_RDONLY_def O_WRONLY_def O_CREAT_def O_ACCMODE_def O_APPEND_def)
  then have writing: "remote_os (client_write junk fb ?c) b (net(a \<mapsto> (the (net a))\<lparr>rfs_os := \<lparr>disk = da, descr = ?dsa\<rparr>\<rparr>)) = Some (?net, int (length ?c))"
    using less.prems(1,6) ab small by (simp add: remote_os_def client_write_def server_write_def Let_def)
  have step: "copy_file junk a fa b fb net = (if length ?c = BUFF_SIZE then copy_file junk a fa b fb ?net else Some (?net, 0))"
    by (subst copy_file.simps) (simp only: reading writing sum.case prod.case option.case, simp)
  show ?case
  proof (cases "length ?c = BUFF_SIZE")
    case True
    have "0 < BUFF_SIZE" by (simp add: BUFF_SIZE_def)
    then have dec: "length d - ?p < length d - p" and le: "?p \<le> length d" using True by auto
    have "copy_file junk a fa b fb ?net = Some (?net(a \<mapsto> with_os sa da (?dsa[nat fa := File n (length d) O_RDONLY]),
      b \<mapsto> with_os sb (AList.update n' (overlay (length d) d old) ?db) (?dsb[nat fb := File n' (length d) (O_CREAT OR O_WRONLY)])), 0)"
      using less.prems ab by (intro less.hyps [OF dec]) (simp_all add: update_conv' le)
    then show ?thesis using step True ab by (simp add: fun_upd_twist update_last)
  next
    case False
    then have "?p = length d" using less.prems(11) by (simp add: min_def split: if_splits)
    then show ?thesis using step False by simp
  qed
qed

section \<open>One replica\<close>

definition lowest :: "descriptor list \<Rightarrow> nat" where
  "lowest ds = length (takeWhile (\<lambda>e. e \<noteq> Free) ds)"

definition given :: "descriptor list \<Rightarrow> descriptor \<Rightarrow> descriptor list" where
  "given ds e = (if lowest ds < length ds then ds[lowest ds := e] else ds @ [e])"

lemma lowest_le: "lowest ds \<le> length ds"
  by (simp add: lowest_def length_takeWhile_le)

lemma given_simps [simp]:
  "lowest ds < length (given ds e)" "given ds e ! lowest ds = e" "(given ds e)[lowest ds := e'] = given ds e'"
  using lowest_le [of ds] by (auto simp: given_def list_update_append nth_append)

lemma install_given: "install e \<lparr>disk = d, descr = ds\<rparr> = (\<lparr>disk = d, descr = given ds e\<rparr>, int (lowest ds))"
  by (simp add: install_def given_def lowest_def lowest_free_def Let_def)

lemma given_Free: "given ds Free = (if Free \<in> set ds then ds else ds @ [Free])"
proof (cases "Free \<in> set ds")
  case True
  then have "lowest ds < length ds" unfolding lowest_def by (induction ds) auto
  moreover from this have "ds ! lowest ds = Free" unfolding lowest_def using nth_length_takeWhile [of "\<lambda>e. e \<noteq> Free" ds] by simp
  ultimately show ?thesis using True by (simp add: given_def) (metis list_update_id)
next
  case False
  then have "lowest ds = length ds" unfolding lowest_def by (induction ds) auto
  then show ?thesis using False by (simp add: given_def)
qed

lemma update_appended: "k \<notin> fst ` set al \<Longrightarrow> AList.update k v (al @ [(k, w)]) = AList.update k v al"
  by (induction al) auto

definition old_contents :: "string \<Rightarrow> (string \<times> content) list \<Rightarrow> content" where
  "old_contents path db = (case map_of db path of None \<Rightarrow> [] | Some c \<Rightarrow> c)"

definition replica_mode :: int where "replica_mode = O_CREAT OR O_WRONLY OR O_REPLICATE"

lemma get_this_host_idx_fds:
  "get_this_host_idx (s\<lparr>server_list := (server_list s)[i := (server_list s ! i)\<lparr>fds := x\<rparr>]\<rparr>) = get_this_host_idx s"
  by (simp add: get_this_host_idx_def map_update_same flip: take_map)

lemma open_for_replica:
  assumes b: "net b = Some (with_os sb db dsb)" and idx: "get_file_idx sb path = int f" "get_this_host_idx sb = int i"
    and path: "length DFS + length path < MAX_PATH"
  obtains db' where "client_open (\<lambda>_ _ _. None) False junk b path replica_mode net =
      Some (net(b \<mapsto> with_os (sb\<lparr>server_list := (server_list sb)[i := (server_list sb ! i)\<lparr>fds := (fds (server_list sb ! i))[f := int (lowest dsb)]\<rparr>]\<rparr>)
         db' (given dsb (File path 0 (O_CREAT OR O_WRONLY)))), int (lowest dsb), [])"
    "map_of db' path = Some (old_contents path db)" "\<And>v. AList.update path v db' = AList.update path v db"
proof -
  let ?db = "if path \<in> fst ` set db then db else db @ [(path, [])]"
  have modes: "replica_mode AND O_REPLICATE \<noteq> 0" "replica_mode AND OP_REDIRECT = 0" "replica_mode AND NOT O_REPLICATE = O_CREAT OR O_WRONLY"
    by (simp_all add: replica_mode_def rfs_codes)
  have idx': "get_file_idx (with_os sb db dsb) path = int f" using idx(1) by (simp add: get_file_idx_def)
  have "sys_open path (O_CREAT OR O_WRONLY) \<lparr>disk = db, descr = dsb\<rparr> =
      Inr (\<lparr>disk = ?db, descr = given dsb (File path 0 (O_CREAT OR O_WRONLY))\<rparr>, int (lowest dsb))"
  proof (cases "map_of db path")
    case None
    then have "path \<notin> fst ` set db" by (simp add: map_of_eq_None_iff)
    then show ?thesis using None by (simp add: sys_open_def install_given rfs_codes)
  next
    case (Some c)
    then have "path \<in> fst ` set db" by (metis map_of_eq_None_iff option.distinct(1))
    then show ?thesis using Some by (simp add: sys_open_def install_given rfs_codes)
  qed
  then have "client_open (\<lambda>_ _ _. None) False junk b path replica_mode net =
      Some (net(b \<mapsto> with_os (sb\<lparr>server_list := (server_list sb)[i := (server_list sb ! i)\<lparr>fds := (fds (server_list sb ! i))[f := int (lowest dsb)]\<rparr>]\<rparr>)
         ?db (given dsb (File path 0 (O_CREAT OR O_WRONLY)))), int (lowest dsb), [])"
    using b idx' idx(2) path modes
    by (simp add: client_open_def server_open_def open_here_def Let_def)
  moreover have "map_of ?db path = Some (old_contents path db)"
  proof (cases "map_of db path")
    case None
    then have "path \<notin> fst ` set db" by (simp add: map_of_eq_None_iff)
    then show ?thesis using None by (simp add: old_contents_def map_add_def)
  next
    case (Some c)
    then have "path \<in> fst ` set db" by (metis map_of_eq_None_iff option.distinct(1))
    then show ?thesis using Some by (simp add: old_contents_def)
  qed
  moreover have "AList.update path v ?db = AList.update path v db" for v by (simp add: update_appended)
  ultimately show ?thesis using that by blast
qed

lemma first_position:
  assumes "f < n" "n \<le> length xs" "\<forall>k<f. xs ! k \<noteq> x"
  shows "length (takeWhile (\<lambda>y. y \<noteq> x) (take n (xs[f := x]))) = f" "x \<in> set (take n (xs[f := x]))"
proof -
  have f: "f < length xs" using assms by linarith
  have "take n (xs[f := x]) = take f xs @ x # drop (Suc f) (take n xs)"
    using assms upd_conv_take_nth_drop [of f "take n xs" x] by (simp add: take_update_swap min_def)
  moreover have "\<forall>y\<in>set (take f xs). y \<noteq> x" using assms(3) f by (fastforce simp: in_set_conv_nth)
  ultimately show "length (takeWhile (\<lambda>y. y \<noteq> x) (take n (xs[f := x]))) = f" "x \<in> set (take n (xs[f := x]))"
    using f by (simp_all add: takeWhile_append2)
qed

lemma freed_close:
  assumes "ds ! k = File n p m" "k < length ds"
  shows "sys_close (int k) \<lparr>disk = d, descr = ds\<rparr> = Inr \<lparr>disk = d, descr = ds[k := Free]\<rparr>"
    "sys_getfl (int k) \<lparr>disk = d, descr = ds\<rparr> = m"
  using assms by (simp_all add: sys_close_def sys_getfl_def lookup_fd_def)

text \<open>A descriptor that was open for writing, recorded for the file \<open>f\<close> and none before: the file is to be replicated.\<close>

lemma close_written:
  assumes ds: "ds ! k = File n p m" "k < length ds" and m: "m \<noteq> - 1" "m AND O_ACCMODE = O_WRONLY"
    and i: "get_this_host_idx s = int i" "i < length (server_list s)"
    and fds: "fds (server_list s ! i) = xs[f := int k]" "f < total_files s" "total_files s \<le> length xs" "\<forall>j<f. xs ! j \<noteq> int k"
  shows "server_close b (hdr\<lparr>p1 := int k\<rparr>) (with_os s d ds) =
    Some (with_os (s\<lparr>server_list := (server_list s)[i := (server_list s ! i)\<lparr>fds := xs[f := 0]\<rparr>]\<rparr>) d (ds[k := Free]), hdr\<lparr>p1 := 0\<rparr>,
      [Thread b (int i) f 0])"
proof -
  have me: "get_this_host_idx (s\<lparr>rfs_os := x\<rparr>) = int i" for x using i(1) by (simp add: get_this_host_idx_def)
  note pos = first_position [OF fds(2-4)]
  have mode: "mode = - 1 \<or> mode AND O_ACCMODE \<noteq> O_WRONLY \<longleftrightarrow> False" if "mode = m" for mode using m that by simp
  show ?thesis
    unfolding server_close_def
    using pos i fds(1) m by (simp add: freed_close [OF ds] Let_def with_os_def me)
qed

lemma replicate_ok:
  assumes ab: "a \<noteq> b" and a: "net a = Some (with_os sa da dsa)" "fname (file_list sa ! f) = path" "map_of da path = Some d"
    and b: "net b = Some (with_os sb db dsb)" "sname (server_list sa ! to) = b" "get_file_idx sb path = int f" "get_this_host_idx sb = int i"
      "i < length (server_list sb)"
    and fds: "f < total_files sb" "total_files sb \<le> length (fds (server_list sb ! i))" "\<forall>j<f. fds (server_list sb ! i) ! j \<noteq> int (lowest dsb)"
    and path: "length DFS + length path < MAX_PATH"
  shows "replicate_file junk a f to net =
    (case add_index to (file_list sa ! f) of None \<Rightarrow> None
     | Some e \<Rightarrow> Some (net(a \<mapsto> with_os (sa\<lparr>file_list := (file_list sa)[f := e]\<rparr>) da (given dsa Free),
         b \<mapsto> with_os (sb\<lparr>server_list := (server_list sb)[i := (server_list sb ! i)\<lparr>fds := (fds (server_list sb ! i))[f := 0]\<rparr>]\<rparr>)
           (AList.update path (d @ drop (length d) (old_contents path db)) db) (given dsb Free)), 0, [Thread b (int i) f 0]))"
proof -
  let ?sb = "sb\<lparr>server_list := (server_list sb)[i := (server_list sb ! i)\<lparr>fds := (fds (server_list sb ! i))[f := int (lowest dsb)]\<rparr>]\<rparr>"
  let ?new = "AList.update path (d @ drop (length d) (old_contents path db)) db"
  let ?W = "O_CREAT OR O_WRONLY"
  let ?net1 = "net(a \<mapsto> with_os sa da (given dsa (File path 0 O_RDONLY)))"
  obtain db' where o: "client_open (\<lambda>_ _ _. None) False junk b path replica_mode ?net1 =
      Some (?net1(b \<mapsto> with_os ?sb db' (given dsb (File path 0 ?W))), int (lowest dsb), [])"
    "map_of db' path = Some (old_contents path db)" "\<And>v. AList.update path v db' = AList.update path v db"
    using open_for_replica [of ?net1 b sb db dsb path f i junk] b ab path by auto
  let ?net2 = "?net1(b \<mapsto> with_os ?sb db' (given dsb (File path 0 ?W)))"
  let ?net3 = "net(a \<mapsto> with_os sa da (given dsa (File path (length d) O_RDONLY)), b \<mapsto> with_os ?sb ?new (given dsb (File path (length d) ?W)))"
  have "copy_file junk a (int (lowest dsa)) b (int (lowest dsb)) ?net2 =
      Some (?net2(a \<mapsto> with_os sa da ((given dsa (File path 0 O_RDONLY))[nat (int (lowest dsa)) := File path (length d) O_RDONLY]),
        b \<mapsto> with_os ?sb (AList.update path (overlay (length d) d (old_contents path db)) db')
          ((given dsb (File path 0 ?W))[nat (int (lowest dsb)) := File path (length d) ?W])), 0)"
    using a o(2) ab by (intro copy_file_ok [OF ab, where p = 0]) (simp_all add: overlay_def)
  then have copy: "copy_file junk a (int (lowest dsa)) b (int (lowest dsb)) ?net2 = Some (?net3, 0)"
    using ab by (simp add: fun_upd_twist overlay_def o(3))
  have "get_this_host_idx ?sb = int i"
    using b(4) by (simp add: get_this_host_idx_fds)
  then have closed: "server_close b (junk\<lparr>hdr_op := OP_CLOSE, p1 := int (lowest dsb)\<rparr>) (with_os ?sb ?new (given dsb (File path (length d) ?W))) =
      Some (with_os (sb\<lparr>server_list := (server_list sb)[i := (server_list sb ! i)\<lparr>fds := (fds (server_list sb ! i))[f := 0]\<rparr>]\<rparr>) ?new (given dsb Free),
        junk\<lparr>hdr_op := OP_CLOSE, p1 := 0\<rparr>, [Thread b (int i) f 0])"
    using close_written [of "given dsb (File path (length d) ?W)" "lowest dsb" path "length d" ?W ?sb i "fds (server_list sb ! i)" f b
        "junk\<lparr>hdr_op := OP_CLOSE\<rparr>" ?new] b(5) fds by (simp add: rfs_codes)
  have closed_a: "sys_close (int (lowest dsa)) \<lparr>disk = da, descr = given dsa (File path (length d) O_RDONLY)\<rparr> = Inr \<lparr>disk = da, descr = given dsa Free\<rparr>"
    by (subst freed_close) simp_all
  have opened: "sys_open path O_RDONLY \<lparr>disk = da, descr = dsa\<rparr> = Inr (\<lparr>disk = da, descr = given dsa (File path 0 O_RDONLY)\<rparr>, int (lowest dsa))"
    using a(3) by (simp add: sys_open_def install_given O_TRUNC_def O_RDONLY_def)
  have "finish_replica junk a (int (lowest dsa)) b (int (lowest dsb)) f to (?net3, 0) =
    (case add_index to (file_list sa ! f) of None \<Rightarrow> None
     | Some e \<Rightarrow> Some (net(a \<mapsto> with_os (sa\<lparr>file_list := (file_list sa)[f := e]\<rparr>) da (given dsa Free),
         b \<mapsto> with_os (sb\<lparr>server_list := (server_list sb)[i := (server_list sb ! i)\<lparr>fds := (fds (server_list sb ! i))[f := 0]\<rparr>]\<rparr>)
           ?new (given dsb Free)), 0, [Thread b (int i) f 0]))"
    using closed closed_a ab
    by (simp add: finish_replica_def client_close_def Let_def fun_upd_twist split: option.split)
  then show ?thesis
    using a(1,2) b(1,2) path ab opened o(1) copy
    by (simp add: replicate_file_def Let_def replica_mode_def [symmetric])
qed

text \<open>C23: The servers agree on right tables, and the server \<open>i\<close> replicates a file of its own to the server \<open>k\<close>. The replica holds the
  file's contents followed by what an older and longer version at \<open>k\<close> had after that length. No other file and no other server
  changes, and \<open>k\<close> is entered in the table of \<open>i\<close>; the server \<open>k\<close> is left with the task of replicating the file in turn.\<close>

theorem replica_contents:
  assumes ag: "agree st ft net" and ik: "i < length st" "k < length st" "i \<noteq> k" and f: "f < length ft" "path = fname (ft ! f)"
    and d: "map_of (disk (rfs_os (the (net (sname (st ! i)))))) path = Some d"
    and old: "old = old_contents path (disk (rfs_os (the (net (sname (st ! k))))))"
    and fds: "length ft \<le> length (fds (st ! k))" "\<forall>j<f. fds (st ! k) ! j \<noteq> int (lowest_free (rfs_os (the (net (sname (st ! k))))))"
    and room: "tot_idx (ft ! f) < MAX_SERVERS" and path: "length DFS + length path < MAX_PATH"
  shows "\<exists>net'. replicate_file junk (sname (st ! i)) f k net = Some (net', 0, [Thread (sname (st ! k)) (int k) f 0]) \<and>
    map_of (disk (rfs_os (the (net' (sname (st ! k)))))) = (map_of (disk (rfs_os (the (net (sname (st ! k)))))))(path \<mapsto> d @ drop (length d) old) \<and>
    disk (rfs_os (the (net' (sname (st ! i))))) = disk (rfs_os (the (net (sname (st ! i))))) \<and>
    index (file_list (the (net' (sname (st ! i)))) ! f) = (index (ft ! f))[tot_idx (ft ! f) := k] \<and>
    (\<forall>x. x \<noteq> sname (st ! i) \<longrightarrow> x \<noteq> sname (st ! k) \<longrightarrow> net' x = net x)"
proof -
  obtain sa where sa: "net (sname (st ! i)) = Some sa" "\<And>k. k < length st \<Longrightarrow> server_list sa ! k = st ! k"
    "\<And>k. k < length ft \<Longrightarrow> file_list sa ! k = ft ! k" "length (file_list sa) = MAX_FILES"
    using agree_server [OF ag ik(1)] unfolding tables_wf_def by metis
  obtain sb where sb: "net (sname (st ! k)) = Some sb" "tables_wf sb" "total_servers sb = length st" "total_files sb = length ft"
    "take (length ft) (file_list sb) = ft" "\<And>k. k < length st \<Longrightarrow> server_list sb ! k = st ! k" "get_this_host_idx sb = int k"
    using agree_server [OF ag ik(2)] by metis
  have wo: "with_os s (disk (rfs_os s)) (descr (rfs_os s)) = s" for s by (simp add: with_os_def)
  have ab: "sname (st ! i) \<noteq> sname (st ! k)"
    using ag ik nth_eq_iff_index_eq [of "map sname st" i k] by (auto simp: agree_def)
  have nm: "fname (file_list sa ! f) = path" "file_list sa ! f = ft ! f" using sa(3) f by simp_all
  have idx: "get_file_idx sb path = int f" using agree_file_idx [OF ag f(1) sb(5,4)] f(2) by simp
  have k: "k < length (server_list sb)" using sb(2,3) ik(2) by (simp add: tables_wf_def)
  have low: "lowest (descr (rfs_os sb)) = lowest_free (rfs_os sb)" by (simp add: lowest_def lowest_free_def)
  obtain e where e: "add_index k (ft ! f) = Some e" "index e = (index (ft ! f))[tot_idx (ft ! f) := k]"
    using room by (simp add: add_index_def)
  have "replicate_file junk (sname (st ! i)) f k net = Some (net(sname (st ! i) \<mapsto>
        with_os (sa\<lparr>file_list := (file_list sa)[f := e]\<rparr>) (disk (rfs_os sa)) (given (descr (rfs_os sa)) Free),
      sname (st ! k) \<mapsto> with_os (sb\<lparr>server_list := (server_list sb)[k := (server_list sb ! k)\<lparr>fds := (fds (server_list sb ! k))[f := 0]\<rparr>]\<rparr>)
        (AList.update path (d @ drop (length d) (old_contents path (disk (rfs_os sb)))) (disk (rfs_os sb))) (given (descr (rfs_os sb)) Free)),
      0, [Thread (sname (st ! k)) (int k) f 0])"
    using replicate_ok [OF ab, of net sa "disk (rfs_os sa)" "descr (rfs_os sa)" f path d sb "disk (rfs_os sb)" "descr (rfs_os sb)" k k junk]
      sa(1,2) sb(1,4,6,7) nm e(1) d fds path ik f(1) idx k by (simp add: wo low)
  then show ?thesis
    using ab sa(1,4) sb(1) e(2) old f(1) ag by (simp add: update_conv' agree_def)
qed

text \<open>The second of two servers has a longer version of \<open>x\<close>: its third byte remains.\<close>

definition stale_net :: net where
  "stale_net = [''a'' \<mapsto> one_of_two ''a'' [(''x'', [1, 2])], ''b'' \<mapsto> one_of_two ''b'' [(''x'', [7, 8, 9]), (''y'', [2])]]"

lemma stale_agree: "agree two_st two_ft stale_net"
proof -
  have "map (\<lambda>h. file_names (the (stale_net h))) (map sname two_st) = map (\<lambda>h. file_names (the (two_net h))) (map sname two_st)"
    by (simp add: two_st_def two_net_def stale_net_def one_of_two_def file_names_def)
  then show ?thesis using two_agree unfolding agree_def
    by (simp add: two_st_def two_net_def stale_net_def one_of_two_def get_st_def get_ft_def)
qed

theorem replica_contents_witness:
  "\<exists>net' threads. replicate_file \<lparr>hdr_op = 0, p1 = 0, p2 = 0, p3 = 0\<rparr> ''a'' 0 1 stale_net = Some (net', 0, threads) \<and>
     map_of (disk (rfs_os (the (net' ''b'')))) ''x'' = Some [1, 2, 9]"
proof -
  let ?J = "\<lparr>hdr_op = 0, p1 = 0, p2 = 0, p3 = 0\<rparr>" and ?a = "sname (two_st ! 0)" and ?b = "sname (two_st ! 1)"
  have names: "?a = ''a''" "?b = ''b''" by (simp_all add: two_st_def)
  have "\<exists>net'. replicate_file ?J ?a 0 1 stale_net = Some (net', 0, [Thread ?b (int 1) 0 0]) \<and>
      map_of (disk (rfs_os (the (net' ?b)))) = (map_of (disk (rfs_os (the (stale_net ?b)))))(''x'' \<mapsto> [1, 2] @ drop (length [1, 2 :: u8]) [7, 8, 9]) \<and>
      disk (rfs_os (the (net' ?a))) = disk (rfs_os (the (stale_net ?a))) \<and>
      index (file_list (the (net' ?a)) ! 0) = (index (two_ft ! 0))[tot_idx (two_ft ! 0) := 1] \<and>
      (\<forall>x. x \<noteq> ?a \<longrightarrow> x \<noteq> ?b \<longrightarrow> net' x = stale_net x)"
    by (rule replica_contents [OF stale_agree])
       (simp_all add: two_st_def two_ft_def stale_net_def one_of_two_def old_contents_def rfs_sizes DFS_def)
  then obtain net' where n: "replicate_file ?J ?a 0 1 stale_net = Some (net', 0, [Thread ?b (int 1) 0 0])"
      "map_of (disk (rfs_os (the (net' ?b)))) = (map_of (disk (rfs_os (the (stale_net ?b)))))(''x'' \<mapsto> [1, 2] @ drop (length [1, 2 :: u8]) [7, 8, 9])"
    by blast
  show ?thesis using n(1) unfolding names by (intro exI conjI) (assumption, simp add: n(2) [unfolded names])
qed

section \<open>After a write\<close>

text \<open>The threads that wait, and their steps.\<close>

inductive rfs_step :: "op_hdr \<Rightarrow> (net \<times> thread list) option \<Rightarrow> (net \<times> thread list) option \<Rightarrow> bool" for junk where
  round: "replicate_round junk t net = Some (net', ts) \<Longrightarrow> rfs_step junk (Some (net, us @ t # vs)) (Some (net', us @ ts @ vs))"
| overrun: "replicate_round junk t net = None \<Longrightarrow> rfs_step junk (Some (net, us @ t # vs)) None"

inductive_cases rfs_step_NoneE: "rfs_step junk None x"

text \<open>Two servers, and a file that both have and know of. The server \<open>i\<close> is the first or the second of \<open>hs\<close>.\<close>

definition end_ok :: "string list \<Rightarrow> string \<Rightarrow> nat \<Rightarrow> nat \<Rightarrow> rfs \<Rightarrow> bool" where
  "end_ok hs path f i s \<longleftrightarrow> this_host s = hs ! i \<and> total_servers s = 2 \<and> map sname (server_list s) = hs @ [[], []] \<and>
     f < total_files s \<and> total_files s \<le> length (file_list s) \<and> get_file_idx s path = int f \<and> fname (file_list s ! f) = path \<and>
     total_files s \<le> length (fds (server_list s ! i)) \<and> (\<forall>k<f. fds (server_list s ! i) ! k = 0) \<and>
     path \<in> fst ` set (disk (rfs_os s)) \<and> descr (rfs_os s) \<noteq> [] \<and> hd (descr (rfs_os s)) \<noteq> Free \<and>
     tot_idx (file_list s ! f) \<le> MAX_SERVERS \<and> 1 - i < tot_idx (file_list s ! f)"

definition pair_ok :: "string list \<Rightarrow> string \<Rightarrow> nat \<Rightarrow> net \<Rightarrow> bool" where
  "pair_ok hs path f net \<longleftrightarrow> length hs = 2 \<and> distinct hs \<and> [] \<notin> set hs \<and> net [] = None \<and> length DFS + length path < MAX_PATH \<and>
     (\<forall>i<2. \<exists>s. net (hs ! i) = Some s \<and> end_ok hs path f i s)"

definition known_at :: "string list \<Rightarrow> nat \<Rightarrow> nat \<Rightarrow> net \<Rightarrow> nat" where
  "known_at hs f i net = tot_idx (file_list (the (net (hs ! i))) ! f)"

lemma with_os_id: "with_os s (disk (rfs_os s)) (descr (rfs_os s)) = s"
  by (simp add: with_os_def)

lemma given_Free_hd: "given ds Free \<noteq> []" "ds \<noteq> [] \<Longrightarrow> hd (given ds Free) = hd ds"
  by (cases ds; simp add: given_Free)+

lemma update_has_key: "k \<in> fst ` set (AList.update k v al)"
  by (induction al) auto

lemma get_file_idx_update:
  "fname e = fname (file_list s ! f) \<Longrightarrow> get_file_idx (s\<lparr>file_list := (file_list s)[f := e]\<rparr>) path = get_file_idx s path"
  by (simp add: get_file_idx_def map_update_same flip: take_map)

lemma get_file_idx_with_os [simp]:
  "get_file_idx (with_os s d ds) path = get_file_idx s path" "get_file_idx (s\<lparr>server_list := x\<rparr>) path = get_file_idx s path"
  by (simp_all add: get_file_idx_def)

lemma lowest_pos: "ds \<noteq> [] \<Longrightarrow> hd ds \<noteq> Free \<Longrightarrow> 0 < lowest ds"
  by (cases ds) (simp_all add: lowest_def)

lemma end_ok_idx:
  assumes "end_ok hs path f i s" "length hs = 2" "distinct hs" "i < 2"
  shows "get_this_host_idx s = int i"
proof -
  have "map sname (take 2 (server_list s)) = hs"
    using assms(1,2) unfolding end_ok_def by (metis append_eq_conv_conj take_map)
  moreover obtain x y where "hs = [x, y]" using assms(2) by (auto simp: numeral_2_eq_2 length_Suc_conv)
  ultimately show ?thesis
    using assms unfolding get_this_host_idx_def end_ok_def by (auto simp: index_of_def less_2_cases_iff)
qed

text \<open>A round that replicates from \<open>i\<close> to the other.\<close>

lemma replica_round:
  assumes ok: "pair_ok hs path f net" and i: "i < 2"
  shows "replicate_round junk (Thread (hs ! i) (int i) f (1 - i)) net = None \<or>
    (\<exists>net'. replicate_round junk (Thread (hs ! i) (int i) f (1 - i)) net =
        Some (net', [Thread (hs ! (1 - i)) (int (1 - i)) f 0, Thread (hs ! i) (int i) f (Suc (1 - i))]) \<and>
      pair_ok hs path f net' \<and> known_at hs f i net' = Suc (known_at hs f i net) \<and> known_at hs f (1 - i) net' = known_at hs f (1 - i) net)"
proof -
  define k where "k = 1 - i"
  have all: "\<forall>i<2. \<exists>s. net (hs ! i) = Some s \<and> end_ok hs path f i s" using ok by (simp add: pair_ok_def)
  have k: "k < 2" "i \<noteq> k" unfolding k_def by arith+
  obtain sa where sa: "net (hs ! i) = Some sa" "end_ok hs path f i sa" using all i by blast
  obtain sb where sb: "net (hs ! k) = Some sb" "end_ok hs path f k sb" using all k(1) by blast
  have hs: "length hs = 2" "distinct hs" "[] \<notin> set hs" "net [] = None" "length DFS + length path < MAX_PATH" using ok by (simp_all add: pair_ok_def)
  have ab: "hs ! i \<noteq> hs ! k" using hs(1,2) i k by (simp add: nth_eq_iff_index_eq)
  obtain d where d: "map_of (disk (rfs_os sa)) path = Some d"
    using sa(2) unfolding end_ok_def by (metis map_of_eq_None_iff not_Some_eq)
  have len: "length (server_list s) = 4" if s: "end_ok hs path f j s" for j s
  proof -
    have m: "map sname (server_list s) = hs @ [[], []]" using s by (simp add: end_ok_def)
    show ?thesis using arg_cong [OF m, of length] hs(1) by simp
  qed
  have "map sname (server_list sa) ! k = hs ! k" using sa(2) hs(1) k unfolding end_ok_def by (simp add: nth_append)
  then have to: "sname (server_list sa ! k) = hs ! k" using len [OF sa(2)] k by simp
  have "0 < lowest (descr (rfs_os sb))" using sb(2) by (simp add: end_ok_def lowest_pos)
  then have fresh: "\<forall>j<f. fds (server_list sb ! k) ! j \<noteq> int (lowest (descr (rfs_os sb)))" using sb(2) by (simp add: end_ok_def)
  let ?new = "AList.update path (d @ drop (length d) (old_contents path (disk (rfs_os sb)))) (disk (rfs_os sb))"
  define sb' where "sb' = with_os (sb\<lparr>server_list := (server_list sb)[k := (server_list sb ! k)\<lparr>fds := (fds (server_list sb ! k))[f := 0]\<rparr>]\<rparr>)
    ?new (given (descr (rfs_os sb)) Free)"
  define sa' where "sa' e = with_os (sa\<lparr>file_list := (file_list sa)[f := e]\<rparr>) (disk (rfs_os sa)) (given (descr (rfs_os sa)) Free)" for e
  have rep: "replicate_file junk (hs ! i) f k net = (case add_index k (file_list sa ! f) of None \<Rightarrow> None
     | Some e \<Rightarrow> Some (net(hs ! i \<mapsto> sa' e, hs ! k \<mapsto> sb'), 0, [Thread (hs ! k) (int k) f 0]))"
    unfolding sa'_def sb'_def
    using replicate_ok [OF ab, of net sa "disk (rfs_os sa)" "descr (rfs_os sa)" f path d sb "disk (rfs_os sb)" "descr (rfs_os sb)" k k junk]
      sa sb(1) d to fresh len [OF sb(2)] k hs(5) end_ok_idx [OF sb(2) hs(1,2)] sb(2)
    by (simp add: with_os_id end_ok_def)
  have round: "replicate_round junk (Thread (hs ! i) (int i) f k) net = (case add_index k (file_list sa ! f) of None \<Rightarrow> None
     | Some e \<Rightarrow> Some (net(hs ! i \<mapsto> sa' e, hs ! k \<mapsto> sb'), [Thread (hs ! k) (int k) f 0, Thread (hs ! i) (int i) f (Suc k)]))"
    using sa k rep by (auto simp: replicate_round_def end_ok_def k_def split: option.split)
  have sb'_ok: "end_ok hs path f k sb'"
    using sb(2) len [OF sb(2)] k
    by (simp add: end_ok_def sb'_def map_update_same update_has_key given_Free_hd)
  have sa'_ok: "end_ok hs path f i (sa' e)" "tot_idx (file_list (sa' e) ! f) = Suc (tot_idx (file_list sa ! f))"
    if e: "add_index k (file_list sa ! f) = Some e" for e
  proof -
    have "fname e = fname (file_list sa ! f)" "tot_idx e = Suc (tot_idx (file_list sa ! f))" "tot_idx e \<le> MAX_SERVERS"
      using e by (auto simp: add_index_def split: if_splits)
    then show "end_ok hs path f i (sa' e)" "tot_idx (file_list (sa' e) ! f) = Suc (tot_idx (file_list sa ! f))"
      using sa(2) by (simp_all add: end_ok_def sa'_def get_file_idx_update given_Free_hd)
  qed
  have "pair_ok hs path f (net(hs ! i \<mapsto> sa' e, hs ! k \<mapsto> sb'))" if e: "add_index k (file_list sa ! f) = Some e" for e
  proof -
    have "\<exists>s. (net(hs ! i \<mapsto> sa' e, hs ! k \<mapsto> sb')) (hs ! j) = Some s \<and> end_ok hs path f j s" if "j < 2" for j
    proof -
      have "j = i \<or> j = k" using that i k by arith
      then show ?thesis using sa'_ok(1) [OF e] sb'_ok ab by auto
    qed
    moreover have "hs ! i \<noteq> []" "hs ! k \<noteq> []" using hs(1,3) i k by (metis nth_mem)+
    ultimately show ?thesis using hs by (simp add: pair_ok_def)
  qed
  then show ?thesis
    unfolding k_def [symmetric] using round sa'_ok sa sb ab by (cases "add_index k (file_list sa ! f)") (simp_all add: known_at_def sb'_def)
qed

text \<open>Every other round.\<close>

lemma other_round:
  assumes ok: "pair_ok hs path f net" and i: "i < 2" and j: "j \<noteq> 1 - i"
  shows "(replicate_round junk (Thread (hs ! i) (int i) f j) net = Some (net, [Thread (hs ! i) (int i) f (Suc j)]) \<and> j < 4) \<or>
    (replicate_round junk (Thread (hs ! i) (int i) f j) net = Some (net, []) \<and> 1 - i < j)"
proof -
  obtain s where s: "net (hs ! i) = Some s" "end_ok hs path f i s" using ok i unfolding pair_ok_def by blast
  consider "j \<ge> tot_idx (file_list s ! f)" | "j < tot_idx (file_list s ! f)" "j = i" | "j < tot_idx (file_list s ! f)" "j \<noteq> i"
    by linarith
  then show ?thesis
  proof cases
    case 1
    then show ?thesis using s by (auto simp: replicate_round_def end_ok_def)
  next
    case 2
    then show ?thesis using s i by (simp add: replicate_round_def end_ok_def)
  next
    case 3
    then have j4: "2 \<le> j" "j < 4" using i j s(2) by (auto simp: end_ok_def MAX_SERVERS_def)
    have m: "map sname (server_list s) = hs @ [[], []]" "length hs = 2" using s(2) ok by (simp_all add: end_ok_def pair_ok_def)
    have "map sname (server_list s) ! j = []" unfolding m(1) using j4 m(2) by (auto simp: nth_append less_Suc_eq numeral_eq_Suc)
    moreover have "j < length (server_list s)" using arg_cong [OF m(1), of length] m(2) j4 by simp
    ultimately have "replicate_file junk (hs ! i) f j net = Some (net, - 1, [])"
      using s ok by (simp add: replicate_file_def pair_ok_def)
    then show ?thesis using 3 s j4 by (simp add: replicate_round_def)
  qed
qed

text \<open>While the servers run there is a thread that is yet to replicate; what is still to be done.\<close>

definition storm :: "string list \<Rightarrow> string \<Rightarrow> nat \<Rightarrow> net \<times> thread list \<Rightarrow> bool" where
  "storm hs path f st \<longleftrightarrow> pair_ok hs path f (fst st) \<and> (\<forall>t\<in>set (snd st). \<exists>i<2. \<exists>j\<le>4. t = Thread (hs ! i) (int i) f j) \<and>
     (\<exists>i<2. \<exists>j\<le>1 - i. Thread (hs ! i) (int i) f j \<in> set (snd st))"

fun rounds_left :: "thread \<Rightarrow> nat" where
  "rounds_left (Thread host s_idx f_idx j) = 5 - j"

definition work_left :: "string list \<Rightarrow> nat \<Rightarrow> net \<times> thread list \<Rightarrow> nat" where
  "work_left hs f st = 5 * (8 - known_at hs f 0 (fst st) - known_at hs f 1 (fst st)) + (\<Sum>t\<leftarrow>snd st. rounds_left t)"

lemma known_at_le: "pair_ok hs path f net \<Longrightarrow> i < 2 \<Longrightarrow> known_at hs f i net \<le> 4"
  unfolding pair_ok_def known_at_def end_ok_def MAX_SERVERS_def by fastforce

lemma storm_round:
  assumes st: "storm hs path f (net, us @ t # vs)" and round: "replicate_round junk t net = Some (net', ts)"
  shows "storm hs path f (net', us @ ts @ vs) \<and> work_left hs f (net', us @ ts @ vs) < work_left hs f (net, us @ t # vs)"
proof -
  have ok: "pair_ok hs path f net" using st by (simp add: storm_def)
  obtain i j where t: "i < 2" "j \<le> 4" "t = Thread (hs ! i) (int i) f j" using st by (auto simp: storm_def)
  show ?thesis
  proof (cases "j = 1 - i")
    case True
    have r: "pair_ok hs path f net'" "known_at hs f i net' = Suc (known_at hs f i net)" "known_at hs f (1 - i) net' = known_at hs f (1 - i) net"
      "ts = [Thread (hs ! (1 - i)) (int (1 - i)) f 0, Thread (hs ! i) (int i) f (Suc j)]"
      using replica_round [OF ok t(1), of junk] round True t(3) by auto
    have "i = 0 \<or> i = 1" using t(1) by auto
    then have "known_at hs f 0 net' + known_at hs f 1 net' = Suc (known_at hs f 0 net + known_at hs f 1 net)" using r(2,3) by auto
    moreover have "known_at hs f 0 net' + known_at hs f 1 net' \<le> 8" using known_at_le [OF r(1), of 0] known_at_le [OF r(1), of 1] by simp
    ultimately have "work_left hs f (net', us @ ts @ vs) < work_left hs f (net, us @ t # vs)"
      using True t(1,3) r(4) by (simp add: work_left_def)
    moreover have "storm hs path f (net', us @ ts @ vs)"
    proof -
      have "\<exists>k<2. \<exists>l\<le>1 - k. Thread (hs ! k) (int k) f l \<in> set (us @ ts @ vs)"
        by (rule exI [of _ "1 - i"]) (use r(4) in auto)
      moreover have "\<exists>k<2. \<exists>l\<le>4. x = Thread (hs ! k) (int k) f l" if "x \<in> set ts" for x
      proof -
        have "x = Thread (hs ! (1 - i)) (int (1 - i)) f 0 \<or> x = Thread (hs ! i) (int i) f (Suc j)" using that r(4) by simp
        then show ?thesis
        proof
          assume "x = Thread (hs ! (1 - i)) (int (1 - i)) f 0"
          then show ?thesis by (intro exI [of _ "1 - i"] conjI exI [of _ 0]) simp_all
        next
          assume "x = Thread (hs ! i) (int i) f (Suc j)"
          then show ?thesis using t(1) True by (intro exI [of _ i] conjI exI [of _ "Suc j"]) simp_all
        qed
      qed
      ultimately show ?thesis using st r(1) by (auto simp: storm_def)
    qed
    ultimately show ?thesis by blast
  next
    case False
    consider "net' = net" "ts = [Thread (hs ! i) (int i) f (Suc j)]" "j < 4" | "net' = net" "ts = []" "1 - i < j"
      using other_round [OF ok t(1) False, of junk] round t(3) by auto
    then show ?thesis
    proof cases
      case 1
      have "\<exists>k<2. \<exists>l\<le>1 - k. Thread (hs ! k) (int k) f l \<in> set (us @ ts @ vs)"
      proof -
        obtain k l where kl: "k < 2" "l \<le> 1 - k" "Thread (hs ! k) (int k) f l \<in> set (us @ t # vs)" using st by (auto simp: storm_def)
        show ?thesis
        proof (cases "Thread (hs ! k) (int k) f l = t \<and> l < 1 - k")
          case True
          then have "k = i" "l = j" using t(3) by simp_all
          then have "Suc j \<le> 1 - i" "Thread (hs ! i) (int i) f (Suc j) \<in> set (us @ ts @ vs)" using True 1(2) by auto
          then show ?thesis using t(1) by blast
        next
          case False2: False
          have "Thread (hs ! k) (int k) f l \<noteq> t" using False2 False kl(2) t(3) by auto
          then show ?thesis using kl by auto
        qed
      qed
      moreover have "\<forall>x\<in>set ts. \<exists>k<2. \<exists>l\<le>4. x = Thread (hs ! k) (int k) f l" using 1 t(1) by auto
      ultimately show ?thesis using st 1 t(3) unfolding storm_def by (auto simp: work_left_def)
    next
      case 2
      have "\<exists>k<2. \<exists>l\<le>1 - k. Thread (hs ! k) (int k) f l \<in> set (us @ ts @ vs)"
        using st 2 t(3) by (fastforce simp: storm_def)
      then show ?thesis using st 2 t(2,3) unfolding storm_def by (auto simp: work_left_def)
    qed
  qed
qed

lemma storm_step:
  assumes st: "storm hs path f st" and step: "rfs_step junk (Some st) x"
  shows "x = None \<or> (\<exists>st'. x = Some st' \<and> storm hs path f st' \<and> work_left hs f st' < work_left hs f st)"
  using step
proof (cases rule: rfs_step.cases)
  case (round t net net' ts us vs)
  then show ?thesis using storm_round [of hs path f net us t vs junk net' ts] st by auto
qed simp

lemma storm_goes_on:
  assumes "storm hs path f st"
  shows "\<exists>y. rfs_step junk (Some st) y"
proof -
  obtain net ts where st: "st = (net, ts)" by force
  have "ts \<noteq> []" using assms by (auto simp: storm_def st)
  then obtain t vs where "ts = [] @ t # vs" by (cases ts) auto
  then show ?thesis unfolding st
    by (cases "replicate_round junk t net") (metis rfs_step.overrun, metis rfs_step.round surj_pair)
qed

lemma storm_run:
  "(rfs_step junk ^^ n) (Some st) x \<Longrightarrow> storm hs path f st \<Longrightarrow>
    x = None \<and> n \<le> work_left hs f st + 1 \<or> (\<exists>st'. x = Some st' \<and> storm hs path f st' \<and> n + work_left hs f st' \<le> work_left hs f st)"
proof (induction n arbitrary: x)
  case (Suc n)
  then obtain y where y: "(rfs_step junk ^^ n) (Some st) y" "rfs_step junk y x" by auto
  from Suc.IH [OF y(1) Suc.prems(2)] show ?case
  proof
    assume "y = None \<and> n \<le> work_left hs f st + 1"
    then show ?thesis using y(2) by (auto elim: rfs_step_NoneE)
  next
    assume "\<exists>st'. y = Some st' \<and> storm hs path f st' \<and> n + work_left hs f st' \<le> work_left hs f st"
    then obtain st' where st': "y = Some st'" "storm hs path f st'" "n + work_left hs f st' \<le> work_left hs f st" by blast
    then show ?thesis using storm_step [OF st'(2)] y(2) by fastforce
  qed
qed (cases st, auto)

text \<open>C22: Two servers have a file, which both know of, and a client closes it at the first of them after having had it open for
  writing. However the threads of the servers take turns, the replication this starts never comes to an end by itself, but within a bounded number of
  steps a server writes outside the table of the file.\<close>

theorem write_ends_in_overrun:
  assumes ok: "pair_ok hs path f net" and s: "net (hs ! 0) = Some s"
    and opened: "lookup_fd (int k) (rfs_os s) = Some (path, pos, mode)" "mode AND O_ACCMODE = O_WRONLY" "mode \<noteq> - 1" "0 < k"
    and recorded: "fds (server_list s ! 0) ! f = int k"
  shows "\<exists>net' r threads. client_close junk (hs ! 0) (int k) net = Some (net', r, threads) \<and>
    (\<forall>n x. (rfs_step junk ^^ n) (Some (net', threads)) x \<longrightarrow>
       n \<le> 46 - 5 * (known_at hs f 0 net + known_at hs f 1 net) \<and> (x = None \<or> (\<exists>y. rfs_step junk x y)))"
proof -
  let ?s = "with_os (s\<lparr>server_list := (server_list s)[0 := (server_list s ! 0)\<lparr>fds := (fds (server_list s ! 0))[f := 0]\<rparr>]\<rparr>)
    (disk (rfs_os s)) ((descr (rfs_os s))[k := Free])"
  let ?net = "net(hs ! 0 \<mapsto> ?s)" and ?ts = "[Thread (hs ! 0) (int 0) f 0]"
  have hs: "length hs = 2" "distinct hs" "[] \<notin> set hs" "net [] = None" "length DFS + length path < MAX_PATH"
    and both: "\<forall>i<2. \<exists>s. net (hs ! i) = Some s \<and> end_ok hs path f i s" using ok by (simp_all add: pair_ok_def)
  have e: "end_ok hs path f 0 s" using both s by (metis option.inject zero_less_numeral)
  obtain s1 where s1: "net (hs ! 1) = Some s1" "end_ok hs path f 1 s1" using both by (metis one_less_numeral_iff semiring_norm(76))
  have fd: "descr (rfs_os s) ! k = File path pos mode" "k < length (descr (rfs_os s))" using opened(1) by (simp_all add: lookup_fd_iff)
  have sl: "server_list s \<noteq> []" using e by (auto simp: end_ok_def)
  have "fds (server_list s ! 0) = (fds (server_list s ! 0))[f := int k]" using recorded by (metis list_update_id)
  then have "server_close (hs ! 0) ((junk\<lparr>hdr_op := OP_CLOSE\<rparr>)\<lparr>p1 := int k\<rparr>) (with_os s (disk (rfs_os s)) (descr (rfs_os s))) =
      Some (?s, (junk\<lparr>hdr_op := OP_CLOSE\<rparr>)\<lparr>p1 := 0\<rparr>, ?ts)"
    using e opened(4) recorded end_ok_idx [OF e hs(1,2)] sl
    by (intro close_written [OF fd opened(3,2)]) (auto simp: end_ok_def)
  then have close: "client_close junk (hs ! 0) (int k) net = Some (?net, p2 junk, ?ts)"
    using s by (simp add: client_close_def with_os_id)
  have ne: "hs ! 0 \<noteq> hs ! 1" using hs(1,2) by (simp add: nth_eq_iff_index_eq)
  have "hd ((descr (rfs_os s))[k := Free]) = hd (descr (rfs_os s))" using opened(4) by (cases "descr (rfs_os s)"; cases k) auto
  then have e': "end_ok hs path f 0 ?s" using e sl by (simp add: end_ok_def map_update_same)
  have ok': "pair_ok hs path f ?net"
    unfolding pair_ok_def
  proof (intro conjI allI impI)
    show "\<exists>q. ?net (hs ! i) = Some q \<and> end_ok hs path f i q" if "i < 2" for i
      using that e' s1 ne by (cases "i = 0") (auto simp: less_2_cases_iff)
    show "?net [] = None" using hs by (metis fun_upd_other nth_mem zero_less_numeral)
  qed (use hs in auto)
  have known_at: "known_at hs f 0 ?net = known_at hs f 0 net" "known_at hs f 1 ?net = known_at hs f 1 net"
    using s ne by (simp_all add: known_at_def)
  have storm: "storm hs path f (?net, ?ts)"
    using ok' by (auto simp: storm_def intro!: exI [of _ 0])
  have work: "work_left hs f (?net, ?ts) + 1 \<le> 46 - 5 * (known_at hs f 0 net + known_at hs f 1 net)"
    using known_at_le [OF ok, of 0] known_at_le [OF ok, of 1] unfolding work_left_def fst_conv known_at by simp
  have "n \<le> 46 - 5 * (known_at hs f 0 net + known_at hs f 1 net) \<and> (x = None \<or> (\<exists>y. rfs_step junk x y))"
    if "(rfs_step junk ^^ n) (Some (?net, ?ts)) x" for n x
    using storm_run [OF that storm] work storm_goes_on by fastforce
  then show ?thesis using close by blast
qed

text \<open>The file \<open>x\<close> of the two servers, open at the first as descriptor 3.\<close>

definition written_st :: "server_table list" where
  "written_st = [\<lparr>sfree = 7, fds = (replicate MAX_FILES 0)[0 := 3], sname = ''a''\<rparr>, \<lparr>sfree = 9, fds = replicate MAX_FILES 0, sname = ''b''\<rparr>]"

definition written_a :: rfs where
  "written_a = \<lparr>file_list = two_ft @ drop 2 empty_files, server_list = written_st @ drop 2 empty_servers, total_files = 2, total_servers = 2,
     this_host = ''a'', rfs_os = \<lparr>disk = [(''x'', [1])], descr = [Other, Other, Other, File ''x'' 1 (O_CREAT OR O_WRONLY)]\<rparr>\<rparr>"

definition written_net :: net where
  "written_net = [''a'' \<mapsto> written_a, ''b'' \<mapsto> (one_of_two ''b'' [(''x'', [1]), (''y'', [2])])\<lparr>server_list := written_st @ drop 2 empty_servers\<rparr>]"

lemma written_pair: "pair_ok [''a'', ''b''] ''x'' 0 written_net"
  unfolding pair_ok_def
proof (intro conjI allI impI)
  have x: "get_file_idx s ''x'' = 0" if "file_list s = two_ft @ drop 2 empty_files" "total_files s = 2" for s
    using that by (simp add: get_file_idx_def two_ft_def index_of_def)
  fix i :: nat
  assume "i < 2"
  then have "i = 0 \<or> i = 1" by auto
  then show "\<exists>s. written_net ([''a'', ''b''] ! i) = Some s \<and> end_ok [''a'', ''b''] ''x'' 0 i s"
    by (elim disjE)
       (simp_all add: written_net_def end_ok_def written_a_def one_of_two_def x written_st_def empty_servers_def empty_files_def
        two_ft_def rfs_sizes numeral_2_eq_2)
qed (simp_all add: written_net_def DFS_def MAX_PATH_def)

theorem write_ends_in_overrun_witness:
  "\<exists>net' r threads. client_close \<lparr>hdr_op = 0, p1 = 0, p2 = 0, p3 = 0\<rparr> ''a'' 3 written_net = Some (net', r, threads) \<and>
    (\<forall>n x. (rfs_step \<lparr>hdr_op = 0, p1 = 0, p2 = 0, p3 = 0\<rparr> ^^ n) (Some (net', threads)) x \<longrightarrow> n \<le> 26)"
proof -
  have "known_at [''a'', ''b''] 0 i written_net = 2" if "i < 2" for i
    using that by (auto simp: known_at_def written_net_def written_a_def one_of_two_def two_ft_def less_2_cases_iff)
  then have "46 - 5 * (known_at [''a'', ''b''] 0 0 written_net + known_at [''a'', ''b''] 0 1 written_net) = 26" by simp
  moreover have "lookup_fd (int 3) (rfs_os written_a) = Some (''x'', 1, O_CREAT OR O_WRONLY)"
    by (simp add: lookup_fd_def written_a_def)
  moreover have "fds (server_list written_a ! 0) ! 0 = int 3" by (simp add: written_a_def written_st_def MAX_FILES_def)
  moreover have "written_net ([''a'', ''b''] ! 0) = Some written_a" by (simp add: written_net_def)
  ultimately show ?thesis
    using write_ends_in_overrun [OF written_pair, of written_a 3 1 "O_CREAT OR O_WRONLY" "\<lparr>hdr_op = 0, p1 = 0, p2 = 0, p3 = 0\<rparr>"]
    by (simp add: rfs_codes) blast
qed

end
