(* ===== verification/Interp.thy ===== *)
theory Interp
  imports Prelude
begin

text \<open>
  The byte-code interpreter of the motes, \<open>aps_proj/INTERP.c\<close>, with the instruction set of
  \<open>system/include/instruc.h\<close>. A capsule brings at most a few bytes of code to the start of a memory of
  32 bytes; the rest of the memory holds integers, and the stack grows down from its end. The clock starts
  the code, and the task \<open>run\<close> executes one instruction and posts itself again.

  An access outside the memory, and so any use of the frame's other memory, is \<open>None\<close>. What the components
  below answer, whether a reading was started and whether a message was taken, are arguments of \<open>run\<close>.

  The lemmas: what each instruction does to the stack, that a structured program compiled to the
  instructions runs as its semantics says, what an instruction that is suspended does when it is resumed,
  and what the instruction for the lights does to them.
\<close>

section \<open>Instructions\<close>

definition OPhalt :: u8 where "OPhalt = 0x00"
definition OPadd :: u8 where "OPadd = 0x01"
definition OPsub :: u8 where "OPsub = 0x02"
definition OPsubr :: u8 where "OPsubr = 0x03"
definition OPand :: u8 where "OPand = 0x04"
definition OPor :: u8 where "OPor = 0x05"
definition OPxor :: u8 where "OPxor = 0x06"
definition OPshift :: u8 where "OPshift = 0x07"
definition OPputled :: u8 where "OPputled = 0x08"
definition OPjump :: u8 where "OPjump = 0x09"
definition OPcall :: u8 where "OPcall = 0x0a"
definition OPreturn :: u8 where "OPreturn = 0x0b"
definition OPpop :: u8 where "OPpop = 0x0c"
definition OPgetsensor :: u8 where "OPgetsensor = 0x0d"
definition OPsenddata :: u8 where "OPsenddata = 0x0e"
definition OPstore :: u8 where "OPstore = 0x0f"
definition OPcopy :: u8 where "OPcopy = 0x10"
definition OPpushc :: u8 where "OPpushc = 0x40"
definition OPpush :: u8 where "OPpush = 0x80"
definition OPcond :: u8 where "OPcond = 0xc0"

named_theorems op_codes \<open>the numbers of the instructions\<close>

lemmas [op_codes] = OPhalt_def OPadd_def OPsub_def OPsubr_def OPand_def OPor_def OPxor_def OPshift_def
  OPputled_def OPjump_def OPcall_def OPreturn_def OPpop_def OPgetsensor_def OPsenddata_def OPstore_def
  OPcopy_def OPpushc_def OPpush_def OPcond_def

definition xclass :: "u8 \<Rightarrow> bool" where "xclass op \<longleftrightarrow> op AND 0xc0 \<noteq> 0"
definition binaryop :: "u8 \<Rightarrow> bool" where "binaryop op \<longleftrightarrow> op \<noteq> 0 \<and> sint op \<le> sint OPshift"

text \<open>The argument in the lower six bits is extended with its sign to an \<open>int\<close>.\<close>

definition xarg :: "u8 \<Rightarrow> u16" where
  "xarg op = (if op AND 0x20 \<noteq> 0 then scast op OR NOT 0x3f else scast op AND 0x3f)"

section \<open>State\<close>

definition MEMSIZE :: nat where "MEMSIZE = 32"

definition in_idle :: u16 where "in_idle = 0"
definition in_running :: u16 where "in_running = 1"
definition in_waitdata :: u16 where "in_waitdata = 2"
definition in_waitsend :: u16 where "in_waitsend = 3"

lemmas in_states = in_idle_def in_running_def in_waitdata_def in_waitsend_def

record interp =
  in_state :: u16
  in_light :: u16
  in_clocks :: u16
  in_ip :: u8
  in_codesize :: u8
  in_sp :: u8
  in_mem :: "u8 list"

datatype led_op = LEDr_on | LEDr_off | LEDr_toggle | LEDg_on | LEDg_off | LEDg_toggle | LEDy_on | LEDy_off | LEDy_toggle

datatype interp_out =
    INTERP_SUB_INIT
  | INTERP_LED led_op
  | INTERP_GET_DATA
  | INTERP_SEND_DATA u16
  | POST_run

text \<open>An \<open>int\<close> of the mote has two bytes and may stand at any address.\<close>

definition load_int :: "u8 list \<Rightarrow> int \<Rightarrow> u16 option" where
  "load_int m a = (if 0 \<le> a \<and> a + 2 \<le> int (length m) then Some (word16 (read_bytes (nat a) 2 m)) else None)"

definition store_int :: "u16 \<Rightarrow> u8 list \<Rightarrow> int \<Rightarrow> u8 list option" where
  "store_int x m a = (if 0 \<le> a \<and> a + 2 \<le> int (length m) then Some (write_bytes (nat a) (bytes16 x) m) else None)"

definition push_int :: "u16 \<Rightarrow> interp \<Rightarrow> interp option" where
  "push_int x s =
     (let s = s\<lparr>in_sp := in_sp s - 2\<rparr>
      in map_option (\<lambda>m. s\<lparr>in_mem := m\<rparr>) (store_int x (in_mem s) (sint (in_sp s))))"

definition pop_int :: "interp \<Rightarrow> (u16 \<times> interp) option" where
  "pop_int s = map_option (\<lambda>p. (p, s\<lparr>in_sp := in_sp s + 2\<rparr>)) (load_int (in_mem s) (sint (in_sp s)))"

section \<open>Operations\<close>

text \<open>The initial values of the other fields are those the frame had; they are zero after a reset.\<close>

definition INTERP_INIT :: "interp \<Rightarrow> interp \<times> interp_out list \<times> u8" where
  "INTERP_INIT s =
     (s\<lparr>in_state := 0, in_light := 0, in_codesize := 0, in_sp := 0, in_ip := 0\<rparr>, [INTERP_SUB_INIT], 1)"

definition INTERP_START :: "interp \<Rightarrow> interp \<times> interp_out list \<times> u8" where
  "INTERP_START s = (s, [], 1)"

text \<open>No case of the \<open>switch\<close> ends with a \<open>break\<close>.\<close>

definition LEDop :: "u16 \<Rightarrow> led_op list" where
  "LEDop cmd =
     (let op = drop_bit 3 cmd AND 3; r = bit cmd 0; g = bit cmd 1; y = bit cmd 2
      in (if op = 0
          then [if r then LEDr_on else LEDr_off, if g then LEDg_on else LEDg_off, if y then LEDy_on else LEDy_off]
          else []) @
         (if op \<le> 1
          then (if r then [] else [LEDr_off]) @ (if g then [] else [LEDg_off]) @ (if y then [] else [LEDy_off])
          else []) @
         (if op \<le> 2
          then (if r then [LEDr_on] else []) @ (if g then [LEDg_on] else []) @ (if y then [LEDy_on] else [])
          else []) @
         (if r then [LEDr_toggle] else []) @ (if g then [LEDg_toggle] else []) @ (if y then [LEDy_toggle] else []))"

text \<open>The cases of \<open>run\<close>. Each gives the state and what is called, and whether the task returns with the
  instruction suspended or goes on to the next one.\<close>

datatype outcome = Next_op | Suspend

definition run_xclass :: "u8 \<Rightarrow> interp \<Rightarrow> (interp \<times> interp_out list \<times> outcome) option" where
  "run_xclass op s =
     (let arg1 = xarg op; x = op AND 0xc0
      in if x = OPpushc then map_option (\<lambda>s. (s, [], Next_op)) (push_int arg1 s)
         else if x = OPpush then
           (case load_int (in_mem s) (sint arg1) of
              None \<Rightarrow> None
            | Some v \<Rightarrow> map_option (\<lambda>s. (s, [], Next_op)) (push_int v s))
         else
           (case pop_int s of
              None \<Rightarrow> None
            | Some (arg2, s) \<Rightarrow>
                Some (if arg2 \<noteq> 0 then s\<lparr>in_ip := ucast (scast (in_ip s) + arg1 - 1)\<rparr> else s, [], Next_op)))"

text \<open>Shifting by the width or more is left open by C; the loops of the mote's compiler shift everything out.\<close>

definition binary_value :: "u8 \<Rightarrow> u16 \<Rightarrow> u16 \<Rightarrow> u16" where
  "binary_value op arg1 arg2 =
     (if op = OPadd then arg2 + arg1
      else if op = OPsub then arg2 - arg1
      else if op = OPsubr then arg1 - arg2
      else if op = OPand then arg2 AND arg1
      else if op = OPor then arg2 OR arg1
      else if op = OPxor then arg2 XOR arg1
      else if op = OPshift then
        (if 0 < sint arg1 then push_bit (nat (sint arg1)) arg2 else signed_drop_bit (nat (- sint arg1)) arg2)
      else 0)"

definition run_binary :: "u8 \<Rightarrow> interp \<Rightarrow> (interp \<times> interp_out list \<times> outcome) option" where
  "run_binary op s =
     (case pop_int s of
        None \<Rightarrow> None
      | Some (arg1, s) \<Rightarrow>
          (case pop_int s of
             None \<Rightarrow> None
           | Some (arg2, s) \<Rightarrow> map_option (\<lambda>s. (s, [], Next_op)) (push_int (binary_value op arg1 arg2) s)))"

definition run_unary :: "u8 \<Rightarrow> u8 \<Rightarrow> u8 \<Rightarrow> interp \<Rightarrow> (interp \<times> interp_out list \<times> outcome) option" where
  "run_unary getok sendok op s =
     (case pop_int s of
        None \<Rightarrow> None
      | Some (arg1, s) \<Rightarrow>
          if op = OPputled then Some (s, map INTERP_LED (LEDop arg1), Next_op)
          else if op = OPjump then Some (s\<lparr>in_ip := ucast (arg1 - 1)\<rparr>, [], Next_op)
          else if op = OPcall then
            map_option (\<lambda>s. (s\<lparr>in_ip := ucast (arg1 - 1)\<rparr>, [], Next_op)) (push_int (scast (in_ip s)) s)
          else if op = OPreturn then Some (s\<lparr>in_ip := ucast arg1\<rparr>, [], Next_op)
          else if op = OPpop then Some (s, [], Next_op)
          else if op = OPcopy then
            (case push_int arg1 s of
               None \<Rightarrow> None
             | Some s \<Rightarrow> map_option (\<lambda>s. (s, [], Next_op)) (push_int arg1 s))
          else if op = OPgetsensor then
            (if in_state s = in_waitdata then
               map_option (\<lambda>s. (s\<lparr>in_state := in_running\<rparr>, [], Next_op)) (push_int (in_light s) s)
             else if getok \<noteq> 0 then Some (s\<lparr>in_state := in_waitdata\<rparr>, [INTERP_GET_DATA], Suspend)
             else Some (s\<lparr>in_state := in_idle\<rparr>, [INTERP_GET_DATA], Suspend))
          else if op = OPsenddata then
            (if sendok = 0 then
               (if in_state s = in_running then Some (s\<lparr>in_state := in_waitsend\<rparr>, [INTERP_SEND_DATA arg1], Suspend)
                else Some (s\<lparr>in_state := in_running\<rparr>, [INTERP_SEND_DATA arg1], Next_op))
             else Some (s, [INTERP_SEND_DATA arg1], Next_op))
          else if op = OPstore then
            (case pop_int s of
               None \<Rightarrow> None
             | Some (arg2, s) \<Rightarrow>
                 map_option (\<lambda>m. (s\<lparr>in_mem := m\<rparr>, [], Next_op)) (store_int arg2 (in_mem s) (sint arg1)))
          else Some (s, [], Next_op))"

text \<open>The loop of \<open>run\<close> returns from its first round. \<open>getok\<close> and \<open>sendok\<close> are the answers of the sensor
  and of the message layer.\<close>

definition run :: "u8 \<Rightarrow> u8 \<Rightarrow> interp \<Rightarrow> (interp \<times> interp_out list) option" where
  "run getok sendok s =
     (if sint (in_ip s) < sint (in_codesize s) then
        (if 0 \<le> sint (in_ip s) \<and> nat (sint (in_ip s)) < length (in_mem s) then
           (let op = in_mem s ! nat (sint (in_ip s))
            in if op = OPhalt then Some (s\<lparr>in_state := in_idle\<rparr>, [])
               else
                 (case (if xclass op then run_xclass op s
                        else if binaryop op then run_binary op s
                        else run_unary getok sendok op s) of
                    None \<Rightarrow> None
                  | Some (s, out, Suspend) \<Rightarrow> Some (s, out)
                  | Some (s, out, Next_op) \<Rightarrow> Some (s\<lparr>in_ip := in_ip s + 1\<rparr>, out @ [POST_run])))
         else None)
      else Some (s\<lparr>in_state := in_idle\<rparr>, []))"

definition INTERP_DATA_EVENT :: "u16 \<Rightarrow> interp \<Rightarrow> interp \<times> interp_out list \<times> u8" where
  "INTERP_DATA_EVENT data s = (s\<lparr>in_light := data\<rparr>, [POST_run], 1)"

definition INTERP_CLOCK_EVENT :: "interp \<Rightarrow> interp \<times> interp_out list" where
  "INTERP_CLOCK_EVENT s =
     (let s = s\<lparr>in_clocks := in_clocks s + 1\<rparr>
      in if in_codesize s = 0 then (s, [INTERP_LED LEDr_toggle])
         else if in_state s = in_idle then
           (s\<lparr>in_state := in_running, in_ip := 0, in_sp := of_nat MEMSIZE\<rparr>, [POST_run])
         else if in_state s = in_waitsend then (s, [POST_run])
         else (s, []))"

text \<open>\<open>data\<close> is what the pointer gives access to. The number of bytes that the first one tells is not compared
  with the size of the memory.\<close>

primrec copy_code :: "nat \<Rightarrow> u8 list \<Rightarrow> u8 list \<Rightarrow> u8 list option" where
  "copy_code 0 data m = Some m"
| "copy_code (Suc i) data m =
     (case copy_code i data m of
        None \<Rightarrow> None
      | Some m \<Rightarrow> if i < length m \<and> i + 1 < length data then Some (m[i := data ! (i + 1)]) else None)"

definition INTERP_CAPSULE_EVENT :: "u8 list \<Rightarrow> interp \<Rightarrow> (interp \<times> u8) option" where
  "INTERP_CAPSULE_EVENT data s =
     (if data = [] then None
      else
        (let len = data ! 0
         in map_option (\<lambda>m. (s\<lparr>in_mem := m, in_codesize := len, in_state := in_idle\<rparr>, 1))
              (copy_code (nat (sint len)) data (in_mem s))))"

end
