(* ===== verification/InterpProg.thy ===== *)
theory InterpProg
  imports Interp
begin

text \<open>
  What the interpreter is for: programs. A small structured language, with variables that are sent and
  stored, is compiled to the instructions, and the interpreter runs the compiled capsule as the semantics of
  the language says. The instructions that call the sensor, jump by computed addresses and light the lights
  are not in the language: theory \<open>InterpFaults\<close> shows why.
\<close>

section \<open>The language\<close>

datatype binop = Add | Sub | Subr | Band | Bor | Bxor | Shl

datatype exp = Const int | Var nat | Bin binop exp exp

datatype stm =
    Store nat exp
  | Send exp
  | Seq stm stm
  | Unless exp stm
  | DoWhile stm exp

text \<open>The meaning of the operators as \<open>instruc.h\<close> has it, of the position below the top and the top.\<close>

fun operate :: "binop \<Rightarrow> u16 \<Rightarrow> u16 \<Rightarrow> u16" where
  "operate Add pos tos = pos + tos"
| "operate Sub pos tos = pos - tos"
| "operate Subr pos tos = tos - pos"
| "operate Band pos tos = pos AND tos"
| "operate Bor pos tos = pos OR tos"
| "operate Bxor pos tos = pos XOR tos"
| "operate Shl pos tos =
     (if 0 < sint tos then push_bit (nat (sint tos)) pos else signed_drop_bit (nat (- sint tos)) pos)"

primrec eval_exp :: "exp \<Rightarrow> (nat \<Rightarrow> u16) \<Rightarrow> u16" where
  "eval_exp (Const c) env = word_of_int c"
| "eval_exp (Var v) env = env v"
| "eval_exp (Bin f a b) env = operate f (eval_exp a env) (eval_exp b env)"

text \<open>A statement turns one assignment of the variables into another and sends values on the way.\<close>

inductive big_step :: "stm \<Rightarrow> (nat \<Rightarrow> u16) \<Rightarrow> u16 list \<Rightarrow> (nat \<Rightarrow> u16) \<Rightarrow> bool" where
  Store: "big_step (Store v e) env [] (env(v := eval_exp e env))"
| Send: "big_step (Send e) env [eval_exp e env] env"
| Seq: "big_step (Seq c d) env (xs @ ys) env''" if "big_step c env xs env'" "big_step d env' ys env''"
| UnlessTrue: "big_step (Unless e c) env [] env" if "eval_exp e env \<noteq> 0"
| UnlessFalse: "big_step (Unless e c) env xs env'" if "eval_exp e env = 0" "big_step c env xs env'"
| DoWhileEnd: "big_step (DoWhile c e) env xs env'" if "big_step c env xs env'" "eval_exp e env' = 0"
| DoWhileLoop: "big_step (DoWhile c e) env (xs @ ys) env''"
    if "big_step c env xs env'" "eval_exp e env' \<noteq> 0" "big_step (DoWhile c e) env' ys env''"

section \<open>Its compilation\<close>

fun opcode :: "binop \<Rightarrow> u8" where
  "opcode Add = OPadd"
| "opcode Sub = OPsub"
| "opcode Subr = OPsubr"
| "opcode Band = OPand"
| "opcode Bor = OPor"
| "opcode Bxor = OPxor"
| "opcode Shl = OPshift"

definition xcode :: "u8 \<Rightarrow> int \<Rightarrow> u8" where "xcode op c = op OR (word_of_int c AND 0x3f)"

text \<open>The variables stand behind the code, from the address \<open>L\<close> on.\<close>

definition var_address :: "nat \<Rightarrow> nat \<Rightarrow> int" where "var_address L v = int (L + 2 * v)"

primrec comp_exp :: "nat \<Rightarrow> exp \<Rightarrow> u8 list" where
  "comp_exp L (Const c) = [xcode OPpushc c]"
| "comp_exp L (Var v) = [xcode OPpush (var_address L v)]"
| "comp_exp L (Bin f a b) = comp_exp L a @ comp_exp L b @ [opcode f]"

primrec comp_stm :: "nat \<Rightarrow> stm \<Rightarrow> u8 list" where
  "comp_stm L (Store v e) = comp_exp L e @ [xcode OPpushc (var_address L v), OPstore]"
| "comp_stm L (Send e) = comp_exp L e @ [OPsenddata]"
| "comp_stm L (Seq c d) = comp_stm L c @ comp_stm L d"
| "comp_stm L (Unless e c) = comp_exp L e @ [xcode OPcond (int (length (comp_stm L c)) + 1)] @ comp_stm L c"
| "comp_stm L (DoWhile c e) = comp_stm L c @ comp_exp L e @ [xcode OPcond (- int (length (comp_stm L c) + length (comp_exp L e)))]"

primrec depth_exp :: "exp \<Rightarrow> nat" where
  "depth_exp (Const c) = 1"
| "depth_exp (Var v) = 1"
| "depth_exp (Bin f a b) = max (depth_exp a) (Suc (depth_exp b))"

primrec depth :: "stm \<Rightarrow> nat" where
  "depth (Store v e) = max (depth_exp e) 2"
| "depth (Send e) = depth_exp e"
| "depth (Seq c d) = max (depth c) (depth d)"
| "depth (Unless e c) = max (depth_exp e) (depth c)"
| "depth (DoWhile c e) = max (depth c) (depth_exp e)"

primrec well_exp :: "nat \<Rightarrow> exp \<Rightarrow> bool" where
  "well_exp nv (Const c) \<longleftrightarrow> - 32 \<le> c \<and> c < 32"
| "well_exp nv (Var v) \<longleftrightarrow> v < nv"
| "well_exp nv (Bin f a b) \<longleftrightarrow> well_exp nv a \<and> well_exp nv b"

primrec well :: "nat \<Rightarrow> stm \<Rightarrow> bool" where
  "well nv (Store v e) \<longleftrightarrow> v < nv \<and> well_exp nv e"
| "well nv (Send e) \<longleftrightarrow> well_exp nv e"
| "well nv (Seq c d) \<longleftrightarrow> well nv c \<and> well nv d"
| "well nv (Unless e c) \<longleftrightarrow> well_exp nv e \<and> well nv c"
| "well nv (DoWhile c e) \<longleftrightarrow> well nv c \<and> well_exp nv e"

text \<open>The capsule of a program: its code knows where it ends.\<close>

definition capsule_code :: "stm \<Rightarrow> u8 list" where
  "capsule_code c = comp_stm (length (comp_stm 0 c)) c"

definition fits :: "nat \<Rightarrow> stm \<Rightarrow> bool" where
  "fits nv c \<longleftrightarrow> well nv c \<and> length (capsule_code c) + 2 * nv + 2 * depth c \<le> MEMSIZE"

lemma length_comp_exp: "length (comp_exp L e) = length (comp_exp 0 e)"
  by (induction e) auto

lemma length_comp: "length (comp_stm L c) = length (comp_stm 0 c)"
  by (induction c) (auto simp: length_comp_exp [of L])

lemma length_capsule_code: "length (capsule_code c) = length (comp_stm 0 c)"
  unfolding capsule_code_def by (rule length_comp)

lemma comp_exp_nonempty: "0 < length (comp_exp L e)"
  by (cases e) auto

section \<open>The instructions of the compiled code\<close>

definition xcode_ok :: "u8 \<Rightarrow> int \<Rightarrow> bool" where
  "xcode_ok op c \<longleftrightarrow> xcode op c \<noteq> OPhalt \<and> xclass (xcode op c) \<and> xcode op c AND 0xc0 = op \<and>
     xarg (xcode op c) = word_of_int c"

lemma xcode_check:
  "list_all (xcode_ok OPpushc) [- 32..31]" "list_all (xcode_ok OPpush) [- 32..31]" "list_all (xcode_ok OPcond) [- 32..31]"
  by (simp_all add: upto.simps xcode_ok_def xcode_def op_codes xclass_def xarg_def)

lemma xcode_facts:
  assumes "- 32 \<le> c" and "c < 32" and "op \<in> {OPpushc, OPpush, OPcond}"
  shows "xcode op c \<noteq> OPhalt" and "xclass (xcode op c)" and "xcode op c AND 0xc0 = op"
    and "xarg (xcode op c) = word_of_int c"
proof -
  have "c \<in> set [- 32..31]" unfolding set_upto using assms by auto
  then have "xcode_ok op c" using xcode_check assms(3) unfolding list_all_iff by blast
  then show "xcode op c \<noteq> OPhalt" and "xclass (xcode op c)" and "xcode op c AND 0xc0 = op"
    and "xarg (xcode op c) = word_of_int c" unfolding xcode_ok_def by blast+
qed

lemma binary_facts:
  "opcode f \<noteq> OPhalt" "\<not> xclass (opcode f)" "binaryop (opcode f)"
  by (cases f; simp add: op_codes xclass_def binaryop_def)+

lemma binary_value_opcode: "binary_value (opcode f) tos pos = operate f pos tos"
  by (cases f) (simp_all add: binary_value_def op_codes)

section \<open>The memory of a running program\<close>

text \<open>Where the top of a stack of \<open>n\<close> integers stands, and the stack, its top first.\<close>

definition stack_edge :: "nat \<Rightarrow> nat" where "stack_edge n = 32 - 2 * n"

primrec stack_at :: "u8 list \<Rightarrow> u16 list \<Rightarrow> bool" where
  "stack_at m [] \<longleftrightarrow> True"
| "stack_at m (x # xs) \<longleftrightarrow> read_bytes (stack_edge (Suc (length xs))) 2 m = bytes16 x \<and> stack_at m xs"

text \<open>The code is \<open>P\<close>, behind it stand \<open>nv\<close> variables, and the next instruction is the one at \<open>i\<close>.\<close>

definition program_at :: "u8 list \<Rightarrow> nat \<Rightarrow> nat \<Rightarrow> (nat \<Rightarrow> u16) \<Rightarrow> u16 list \<Rightarrow> interp \<Rightarrow> bool" where
  "program_at P nv i env stk s \<longleftrightarrow>
     in_state s = in_running \<and> in_codesize s = of_nat (length P) \<and> in_ip s = of_nat i \<and>
     in_sp s = of_nat (stack_edge (length stk)) \<and> length P + 2 * nv + 2 * length stk \<le> 32 \<and>
     length (in_mem s) = 32 \<and> take (length P) (in_mem s) = P \<and>
     (\<forall>v<nv. read_bytes (length P + 2 * v) 2 (in_mem s) = bytes16 (env v)) \<and> stack_at (in_mem s) stk"

lemma stack_edge: "2 * n \<le> 32 \<Longrightarrow> stack_edge n + 2 * n = 32"
  by (simp add: stack_edge_def)

lemma read_other:
  "length m = 32 \<Longrightarrow> i + 2 \<le> 32 \<Longrightarrow> i + 2 \<le> a \<or> a + 2 \<le> i \<Longrightarrow>
   read_bytes i 2 (write_bytes a (bytes16 x) m) = read_bytes i 2 m"
  by (rule read_write_other) auto

lemma read_same: "length m = 32 \<Longrightarrow> a + 2 \<le> 32 \<Longrightarrow> read_bytes a 2 (write_bytes a (bytes16 x) m) = bytes16 x"
  by (rule read_write_same) auto

lemma stack_at_write:
  "a + 2 + 2 * length stk \<le> 32 \<Longrightarrow> length m = 32 \<Longrightarrow> stack_at (write_bytes a (bytes16 x) m) stk = stack_at m stk"
proof (induction stk)
  case (Cons y stk)
  then have "stack_edge (Suc (length stk)) + 2 * Suc (length stk) = 32" by (intro stack_edge) simp
  then show ?case using Cons by (simp add: read_other)
qed simp

lemma take_write: "n \<le> a \<Longrightarrow> take n (write_bytes a bs m) = take n m"
  by (rule nth_equalityI) (auto simp: nth_write_bytes)

lemma sint8_of_nat: "n < 128 \<Longrightarrow> sint (of_nat n :: u8) = int n"
  using sint8_nonneg [of "of_nat n :: u8"] by (simp add: unat_of_nat)

lemma load_int_at: "a + 2 \<le> length m \<Longrightarrow> load_int m (int a) = Some (word16 (read_bytes a 2 m))"
  by (simp add: load_int_def)

lemma store_int_at: "a + 2 \<le> length m \<Longrightarrow> store_int x m (int a) = Some (write_bytes a (bytes16 x) m)"
  by (simp add: store_int_def)

lemma push_int_program_at:
  assumes s: "program_at P nv i env stk s" and room: "length P + 2 * nv + 2 * Suc (length stk) \<le> 32"
  obtains s' where "push_int x s = Some s'" and "program_at P nv i env (x # stk) s'" and "in_ip s' = in_ip s"
proof -
  define a where "a = stack_edge (Suc (length stk))"
  let ?m = "write_bytes a (bytes16 x) (in_mem s)"
  let ?s = "s\<lparr>in_sp := of_nat a, in_mem := ?m\<rparr>"
  have a: "stack_edge (length stk) = a + 2" "a + 2 + 2 * length stk = 32"
    using room stack_edge [of "length stk"] stack_edge [of "Suc (length stk)"] unfolding a_def by auto
  then have sp: "in_sp s - 2 = of_nat a" using s by (simp add: program_at_def)
  have "sint (of_nat a :: u8) = int a" by (rule sint8_of_nat) (use a in simp)
  then have "push_int x s = Some ?s"
    using s a unfolding push_int_def sp by (simp add: Let_def store_int_at program_at_def)
  moreover have "read_bytes (length P + 2 * v) 2 ?m = bytes16 (env v)" if "v < nv" for v
    using s a room that by (subst read_other) (auto simp: program_at_def)
  then have "program_at P nv i env (x # stk) ?s"
    using s room a unfolding program_at_def by (auto simp: stack_at_write take_write read_same simp flip: a_def)
  ultimately show ?thesis by (rule that) simp
qed

lemma pop_program_at:
  assumes s: "program_at P nv i env (x # stk) s"
  obtains s' where "pop_int s = Some (x, s')" and "program_at P nv i env stk s'" and "in_ip s' = in_ip s"
proof -
  define a where "a = stack_edge (Suc (length stk))"
  let ?s = "s\<lparr>in_sp := in_sp s + 2\<rparr>"
  have a: "stack_edge (length stk) = a + 2" "a + 2 + 2 * length stk = 32"
    using s stack_edge [of "length stk"] stack_edge [of "Suc (length stk)"] unfolding a_def program_at_def by auto
  have sp: "in_sp s = of_nat a" "read_bytes a 2 (in_mem s) = bytes16 x"
    using s by (auto simp: program_at_def simp flip: a_def)
  have "sint (of_nat a :: u8) = int a" by (rule sint8_of_nat) (use a in simp)
  then have "pop_int s = Some (x, ?s)"
    using s a unfolding pop_int_def by (simp add: load_int_at program_at_def sp)
  moreover have "program_at P nv i env stk ?s"
    using s a sp(1) unfolding program_at_def by auto
  ultimately show ?thesis by (rule that) simp
qed

lemma load_variable:
  assumes "program_at P nv i env stk s" and "v < nv"
  shows "load_int (in_mem s) (var_address (length P) v) = Some (env v)"
  using assms unfolding program_at_def var_address_def by (subst load_int_at) auto

lemma store_variable:
  assumes s: "program_at P nv i env stk s" and v: "v < nv"
  shows "\<exists>m. store_int x (in_mem s) (var_address (length P) v) = Some m \<and> program_at P nv i (env(v := x)) stk (s\<lparr>in_mem := m\<rparr>)"
proof -
  let ?a = "length P + 2 * v"
  let ?m = "write_bytes ?a (bytes16 x) (in_mem s)"
  have "store_int x (in_mem s) (var_address (length P) v) = Some ?m"
    using s v unfolding program_at_def var_address_def by (subst store_int_at) auto
  moreover have "read_bytes (length P + 2 * u) 2 ?m = bytes16 ((env(v := x)) u)" if "u < nv" for u
  proof (cases "u = v")
    case False
    then have "u + 1 \<le> v \<or> v + 1 \<le> u" by linarith
    then have "length P + 2 * u + 2 \<le> ?a \<or> ?a + 2 \<le> length P + 2 * u" by linarith
    then show ?thesis using s v that False by (subst read_other) (auto simp: program_at_def)
  qed (use s v in \<open>auto simp: program_at_def read_same\<close>)
  moreover have "stack_at ?m stk" using s v by (subst stack_at_write) (auto simp: program_at_def)
  ultimately show ?thesis using s by (auto simp: program_at_def take_write)
qed

lemma program_at_jump: "program_at P nv i env stk s \<Longrightarrow> program_at P nv j env stk (s\<lparr>in_ip := of_nat j\<rparr>)"
  by (simp add: program_at_def)

lemma program_at_next: "program_at P nv i env stk s \<Longrightarrow> program_at P nv (Suc i) env stk (s\<lparr>in_ip := in_ip s + 1\<rparr>)"
  by (simp add: program_at_def)

section \<open>Instructions on the stack\<close>

text \<open>\<open>n\<close> runs of the task, of which the last need not post another.\<close>

primrec go :: "u8 \<Rightarrow> u8 \<Rightarrow> nat \<Rightarrow> interp \<Rightarrow> (interp \<times> interp_out list) option" where
  "go getok sendok 0 s = Some (s, [])"
| "go getok sendok (Suc n) s =
     (case run getok sendok s of
        None \<Rightarrow> None
      | Some (s, out) \<Rightarrow> map_option (\<lambda>(s', out'). (s', out @ out')) (go getok sendok n s))"

fun sent :: "interp_out list \<Rightarrow> u16 list" where
  "sent (INTERP_SEND_DATA x # out) = x # sent out"
| "sent (_ # out) = sent out"
| "sent [] = []"

lemma sent_append [simp]: "sent (xs @ ys) = sent xs @ sent ys"
  by (induction xs rule: sent.induct) auto

lemma go_append:
  "go g k m s = Some (s', out) \<Longrightarrow> go g k n s' = Some (s'', out') \<Longrightarrow> go g k (m + n) s = Some (s'', out @ out')"
  by (induction m arbitrary: s out) (auto split: option.splits)

text \<open>From any state of the first kind the task gets to a state of the second kind, sending \<open>xs\<close>.
  Every run posts the next.\<close>

definition steps_to ::
  "u8 \<Rightarrow> u8 \<Rightarrow> u8 list \<Rightarrow> nat \<Rightarrow> nat \<times> (nat \<Rightarrow> u16) \<times> u16 list \<Rightarrow> u16 list \<Rightarrow> nat \<times> (nat \<Rightarrow> u16) \<times> u16 list \<Rightarrow> bool"
where
  "steps_to g k P nv c xs c' \<longleftrightarrow>
     (case (c, c') of ((i, env, stk), (j, env', stk')) \<Rightarrow>
        \<forall>s. program_at P nv i env stk s \<longrightarrow>
          (\<exists>n s' out. go g k n s = Some (s', out) \<and> program_at P nv j env' stk' s' \<and> sent out = xs \<and>
             length (filter ((=) POST_run) out) = n))"

lemma steps_refl: "steps_to g k P nv c [] c"
  unfolding steps_to_def by (cases c) (auto intro!: exI [of _ "[]"])

lemma steps_trans [trans]:
  assumes "steps_to g k P nv c xs c'" and "steps_to g k P nv c' ys c''"
  shows "steps_to g k P nv c (xs @ ys) c''"
proof -
  obtain i env stk j env' stk' l env'' stk'' where c: "c = (i, env, stk)" "c' = (j, env', stk')" "c'' = (l, env'', stk'')"
    by (metis prod_cases3)
  show ?thesis
    unfolding steps_to_def c prod.case
  proof (intro allI impI)
    fix s assume "program_at P nv i env stk s"
    then obtain n s' out where 1: "go g k n s = Some (s', out)" "program_at P nv j env' stk' s'" "sent out = xs"
      "length (filter ((=) POST_run) out) = n"
      using assms(1) unfolding steps_to_def c by auto
    then obtain m s'' out' where 2: "go g k m s' = Some (s'', out')" "program_at P nv l env'' stk'' s''" "sent out' = ys"
      "length (filter ((=) POST_run) out') = m"
      using assms(2) unfolding steps_to_def c by auto
    show "\<exists>n s' out. go g k n s = Some (s', out) \<and> program_at P nv l env'' stk'' s' \<and> sent out = xs @ ys \<and>
        length (filter ((=) POST_run) out) = n"
      using go_append [OF 1(1) 2(1)] 1 2 by (intro exI [of _ "n + m"] exI) auto
  qed
qed

text \<open>The dispatch on one instruction.\<close>

definition instr :: "u8 \<Rightarrow> u8 \<Rightarrow> u8 \<Rightarrow> interp \<Rightarrow> (interp \<times> interp_out list \<times> outcome) option" where
  "instr g k op s =
     (if xclass op then run_xclass op s else if binaryop op then run_binary op s else run_unary g k op s)"

lemma fetch:
  assumes s: "program_at P nv i env stk s" and i: "i < length P"
  shows "0 \<le> sint (in_ip s)" "nat (sint (in_ip s)) < length (in_mem s)" "sint (in_ip s) < sint (in_codesize s)"
    and "in_mem s ! nat (sint (in_ip s)) = P ! i"
proof -
  have le: "length P \<le> 32" "take (length P) (in_mem s) = P" "length (in_mem s) = 32" using s by (auto simp: program_at_def)
  have ip: "sint (in_ip s) = int i" "sint (in_codesize s) = int (length P)"
    using s i le(1) unfolding program_at_def by (auto intro!: sint8_of_nat)
  have "take (length P) (in_mem s) ! i = in_mem s ! i" using i by simp
  then show "0 \<le> sint (in_ip s)" "nat (sint (in_ip s)) < length (in_mem s)" "sint (in_ip s) < sint (in_codesize s)"
    and "in_mem s ! nat (sint (in_ip s)) = P ! i"
    using ip i le by auto
qed

lemma steps_instr:
  assumes i: "i < length P" "P ! i \<noteq> OPhalt"
    and step: "\<And>s. program_at P nv i env stk s \<Longrightarrow>
      \<exists>s' out. instr g k (P ! i) s = Some (s', out, Next_op) \<and> POST_run \<notin> set out \<and> sent out = xs \<and>
        program_at P nv j env' stk' (s'\<lparr>in_ip := in_ip s' + 1\<rparr>)"
  shows "steps_to g k P nv (i, env, stk) xs (j, env', stk')"
  unfolding steps_to_def prod.case
proof (intro allI impI)
  fix s assume s: "program_at P nv i env stk s"
  from step [OF s] obtain s' out where *: "instr g k (P ! i) s = Some (s', out, Next_op)" "POST_run \<notin> set out"
    "sent out = xs" "program_at P nv j env' stk' (s'\<lparr>in_ip := in_ip s' + 1\<rparr>)" by blast
  have "go g k 1 s = Some (s'\<lparr>in_ip := in_ip s' + 1\<rparr>, out @ [POST_run])"
    using *(1) i fetch [OF s i(1)] unfolding instr_def by (simp add: run_def Let_def)
  moreover have "length (filter ((=) POST_run) (out @ [POST_run])) = 1" using *(2) by (auto simp: filter_empty_conv)
  moreover have "sent (out @ [POST_run]) = xs" using *(3) by simp
  ultimately show "\<exists>n s' out. go g k n s = Some (s', out) \<and> program_at P nv j env' stk' s' \<and> sent out = xs \<and>
      length (filter ((=) POST_run) out) = n"
    using *(4) by blast
qed

lemma steps_const:
  assumes i: "i < length P" "P ! i = xcode OPpushc c" and c: "- 32 \<le> c" "c < 32"
    and room: "length P + 2 * nv + 2 * Suc (length stk) \<le> 32"
  shows "steps_to g k P nv (i, env, stk) [] (Suc i, env, word_of_int c # stk)"
proof (rule steps_instr [OF i(1)])
  have op: "xcode OPpushc c \<noteq> OPhalt" "xclass (xcode OPpushc c)" "xcode OPpushc c AND 0xc0 = OPpushc"
    "xarg (xcode OPpushc c) = word_of_int c" using c by (intro xcode_facts; simp)+
  show "P ! i \<noteq> OPhalt" using op i(2) by simp
  fix s assume "program_at P nv i env stk s"
  then obtain s' where s': "push_int (word_of_int c) s = Some s'" "program_at P nv i env (word_of_int c # stk) s'"
    by (rule push_int_program_at) (use room in auto)
  have "instr g k (P ! i) s = Some (s', [], Next_op)"
    using s'(1) by (simp add: i(2) instr_def op run_xclass_def Let_def)
  then show "\<exists>s' out. instr g k (P ! i) s = Some (s', out, Next_op) \<and> POST_run \<notin> set out \<and> sent out = [] \<and>
      program_at P nv (Suc i) env (word_of_int c # stk) (s'\<lparr>in_ip := in_ip s' + 1\<rparr>)"
    using program_at_next [OF s'(2)] by auto
qed

lemma sint_address: "int a < 32 \<Longrightarrow> sint (word_of_int (int a) :: u16) = int a"
  by (simp add: sint_uint unsigned_of_nat take_bit_nat_eq_self signed_take_bit_int_eq_self)

lemma steps_variable:
  assumes i: "i < length P" "P ! i = xcode OPpush (var_address (length P) v)" and v: "v < nv"
    and room: "length P + 2 * nv + 2 * Suc (length stk) \<le> 32"
  shows "steps_to g k P nv (i, env, stk) [] (Suc i, env, env v # stk)"
proof (rule steps_instr [OF i(1)])
  define a where "a = var_address (length P) v"
  have a: "0 \<le> a" "a < 32" using v room by (simp_all add: a_def var_address_def)
  have op: "xcode OPpush a \<noteq> OPhalt" "xclass (xcode OPpush a)" "xcode OPpush a AND 0xc0 = OPpush"
    "xarg (xcode OPpush a) = word_of_int a" using a by (intro xcode_facts; simp)+
  show "P ! i \<noteq> OPhalt" using op i(2) by (simp add: a_def)
  fix s assume s: "program_at P nv i env stk s"
  then obtain s' where s': "push_int (env v) s = Some s'" "program_at P nv i env (env v # stk) s'"
    by (rule push_int_program_at) (use room in auto)
  have "sint (word_of_int a :: u16) = a" using sint_address [of "nat a"] a by simp
  moreover have "load_int (in_mem s) a = Some (env v)" unfolding a_def by (rule load_variable [OF s v])
  moreover have "OPpush \<noteq> OPpushc" by (simp add: op_codes)
  ultimately have "instr g k (xcode OPpush a) s = Some (s', [], Next_op)"
    using s'(1) by (simp add: instr_def op run_xclass_def Let_def)
  then show "\<exists>s' out. instr g k (P ! i) s = Some (s', out, Next_op) \<and> POST_run \<notin> set out \<and> sent out = [] \<and>
      program_at P nv (Suc i) env (env v # stk) (s'\<lparr>in_ip := in_ip s' + 1\<rparr>)"
    using program_at_next [OF s'(2)] i(2) by (auto simp: a_def)
qed

lemma steps_operator:
  assumes i: "i < length P" "P ! i = opcode f"
  shows "steps_to g k P nv (i, env, tos # pos # stk) [] (Suc i, env, operate f pos tos # stk)"
proof (rule steps_instr [OF i(1)])
  show "P ! i \<noteq> OPhalt" using binary_facts i(2) by simp
  fix s assume s: "program_at P nv i env (tos # pos # stk) s"
  then have room: "length P + 2 * nv + 2 * Suc (length stk) \<le> 32" by (simp add: program_at_def)
  obtain s1 where 1: "pop_int s = Some (tos, s1)" "program_at P nv i env (pos # stk) s1" using s by (rule pop_program_at)
  obtain s2 where 2: "pop_int s1 = Some (pos, s2)" "program_at P nv i env stk s2" using 1(2) by (rule pop_program_at)
  obtain s3 where 3: "push_int (operate f pos tos) s2 = Some s3" "program_at P nv i env (operate f pos tos # stk) s3"
    using 2(2) room by (rule push_int_program_at)
  have "instr g k (P ! i) s = Some (s3, [], Next_op)"
    using 1(1) 2(1) 3(1) by (simp add: i(2) instr_def binary_facts run_binary_def binary_value_opcode)
  then show "\<exists>s' out. instr g k (P ! i) s = Some (s', out, Next_op) \<and> POST_run \<notin> set out \<and> sent out = [] \<and>
      program_at P nv (Suc i) env (operate f pos tos # stk) (s'\<lparr>in_ip := in_ip s' + 1\<rparr>)"
    using program_at_next [OF 3(2)] by auto
qed

lemma unary_facts:
  "\<not> xclass OPstore" "\<not> binaryop OPstore" "\<not> xclass OPsenddata" "\<not> binaryop OPsenddata"
  "OPstore \<noteq> OPputled" "OPstore \<noteq> OPjump" "OPstore \<noteq> OPcall" "OPstore \<noteq> OPreturn" "OPstore \<noteq> OPpop" "OPstore \<noteq> OPcopy" "OPstore \<noteq> OPgetsensor" "OPstore \<noteq> OPsenddata"
  "OPsenddata \<noteq> OPputled" "OPsenddata \<noteq> OPjump" "OPsenddata \<noteq> OPcall" "OPsenddata \<noteq> OPreturn" "OPsenddata \<noteq> OPpop" "OPsenddata \<noteq> OPcopy" "OPsenddata \<noteq> OPgetsensor"
  by (simp_all add: op_codes xclass_def binaryop_def)

lemma steps_store:
  assumes i: "i < length P" "P ! i = OPstore" and v: "v < nv"
  shows "steps_to g k P nv (i, env, word_of_int (var_address (length P) v) # x # stk) [] (Suc i, env(v := x), stk)"
proof (rule steps_instr [OF i(1)])
  show "P ! i \<noteq> OPhalt" using i(2) by (simp add: op_codes)
  let ?a = "var_address (length P) v"
  fix s assume s: "program_at P nv i env (word_of_int ?a # x # stk) s"
  then have a: "0 \<le> ?a" "?a < 32" using v by (simp_all add: var_address_def program_at_def)
  obtain s1 where 1: "pop_int s = Some (word_of_int ?a, s1)" "program_at P nv i env (x # stk) s1" using s by (rule pop_program_at)
  obtain s2 where 2: "pop_int s1 = Some (x, s2)" "program_at P nv i env stk s2" using 1(2) by (rule pop_program_at)
  obtain m where 3: "store_int x (in_mem s2) ?a = Some m" "program_at P nv i (env(v := x)) stk (s2\<lparr>in_mem := m\<rparr>)"
    using store_variable [OF 2(2) v] by blast
  have "sint (word_of_int ?a :: u16) = ?a" using sint_address [of "nat ?a"] a by simp
  then have "instr g k OPstore s = Some (s2\<lparr>in_mem := m\<rparr>, [], Next_op)"
    using 1(1) 2(1) 3(1) by (simp add: instr_def unary_facts run_unary_def)
  then show "\<exists>s' out. instr g k (P ! i) s = Some (s', out, Next_op) \<and> POST_run \<notin> set out \<and> sent out = [] \<and>
      program_at P nv (Suc i) (env(v := x)) stk (s'\<lparr>in_ip := in_ip s' + 1\<rparr>)"
    using program_at_next [OF 3(2)] i(2) by auto
qed

lemma steps_send:
  assumes i: "i < length P" "P ! i = OPsenddata" and k: "k \<noteq> 0"
  shows "steps_to g k P nv (i, env, x # stk) [x] (Suc i, env, stk)"
proof (rule steps_instr [OF i(1)])
  show "P ! i \<noteq> OPhalt" using i(2) by (simp add: op_codes)
  fix s assume s: "program_at P nv i env (x # stk) s"
  obtain s1 where 1: "pop_int s = Some (x, s1)" "program_at P nv i env stk s1" using s by (rule pop_program_at)
  have "instr g k OPsenddata s = Some (s1, [INTERP_SEND_DATA x], Next_op)"
    using 1(1) k by (simp add: instr_def unary_facts run_unary_def)
  then show "\<exists>s' out. instr g k (P ! i) s = Some (s', out, Next_op) \<and> POST_run \<notin> set out \<and> sent out = [x] \<and>
      program_at P nv (Suc i) env stk (s'\<lparr>in_ip := in_ip s' + 1\<rparr>)"
    using program_at_next [OF 1(2)] i(2) by auto
qed

text \<open>The conditional jump is relative to its own place.\<close>

lemma ucast_word_of_int: "(ucast (word_of_int x :: u16) :: u8) = word_of_int x"
  by transfer (simp add: take_bit_take_bit)

lemma jump_word:
  assumes "int i + c = int j"
  shows "(ucast (scast (of_nat i :: u8) + word_of_int c - 1 :: u16) :: u8) + 1 = of_nat j"
proof -
  let ?w = "of_nat i :: u8"
  have "scast ?w + word_of_int c - 1 = (word_of_int (sint ?w + c - 1) :: u16)" by simp
  then have "(ucast (scast ?w + word_of_int c - 1 :: u16) :: u8) = word_of_int (sint ?w + c - 1)"
    by (simp only: ucast_word_of_int)
  then have "(ucast (scast ?w + word_of_int c - 1 :: u16) :: u8) + 1 = word_of_int (int i + c)" by simp
  then show ?thesis using assms by simp
qed

lemma steps_cond:
  assumes i: "i < length P" "P ! i = xcode OPcond c" and c: "- 32 \<le> c" "c < 32" and j: "int i + c = int j"
  shows "steps_to g k P nv (i, env, x # stk) [] (if x = 0 then Suc i else j, env, stk)"
proof (rule steps_instr [OF i(1)])
  have op: "xcode OPcond c \<noteq> OPhalt" "xclass (xcode OPcond c)" "xcode OPcond c AND 0xc0 = OPcond"
    "xarg (xcode OPcond c) = word_of_int c" using c by (intro xcode_facts; simp)+
  show "P ! i \<noteq> OPhalt" using op i(2) by simp
  fix s assume s: "program_at P nv i env (x # stk) s"
  obtain s1 where 1: "pop_int s = Some (x, s1)" "program_at P nv i env stk s1" using s by (rule pop_program_at)
  let ?s = "if x = 0 then s1 else s1\<lparr>in_ip := ucast (scast (in_ip s1) + word_of_int c - 1 :: u16)\<rparr>"
  have ne: "OPcond \<noteq> OPpushc" "OPcond \<noteq> OPpush" by (simp_all add: op_codes)
  have "instr g k (P ! i) s = Some (?s, [], Next_op)"
    using 1(1) by (simp add: i(2) instr_def op ne run_xclass_def Let_def)
  moreover have "program_at P nv j env stk (?s\<lparr>in_ip := in_ip ?s + 1\<rparr>)" if "x \<noteq> 0"
  proof -
    have "in_ip s1 = of_nat i" using 1(2) by (simp add: program_at_def)
    then have "?s\<lparr>in_ip := in_ip ?s + 1\<rparr> = s1\<lparr>in_ip := of_nat j\<rparr>" using that jump_word [OF j] by simp
    then show ?thesis using program_at_jump [OF 1(2)] by simp
  qed
  ultimately show "\<exists>s' out. instr g k (P ! i) s = Some (s', out, Next_op) \<and> POST_run \<notin> set out \<and> sent out = [] \<and>
      program_at P nv (if x = 0 then Suc i else j) env stk (s'\<lparr>in_ip := in_ip s' + 1\<rparr>)"
    using program_at_next [OF 1(2)] by (cases "x = 0") auto
qed

section \<open>Compiled programs\<close>

definition code_at :: "u8 list \<Rightarrow> nat \<Rightarrow> u8 list \<Rightarrow> bool" where
  "code_at P i c \<longleftrightarrow> i + length c \<le> length P \<and> (\<forall>k<length c. P ! (i + k) = c ! k)"

lemma code_at_append: "code_at P i (c @ d) \<longleftrightarrow> code_at P i c \<and> code_at P (i + length c) d"
proof
  assume *: "code_at P i (c @ d)"
  have "P ! (i + length c + k) = d ! k" if "k < length d" for k
    using * that unfolding code_at_def by (auto simp: nth_append add.assoc dest!: spec [of _ "length c + k"])
  moreover have "P ! (i + k) = c ! k" if "k < length c" for k
    using * that unfolding code_at_def by (auto simp: nth_append dest!: spec [of _ k])
  ultimately show "code_at P i c \<and> code_at P (i + length c) d" using * by (auto simp: code_at_def)
next
  assume *: "code_at P i c \<and> code_at P (i + length c) d"
  have "P ! (i + k) = (c @ d) ! k" if "k < length c + length d" for k
  proof (cases "k < length c")
    case False
    then obtain j where "k = length c + j" by (metis le_add_diff_inverse not_le)
    then show ?thesis using * that by (simp add: code_at_def add.assoc)
  qed (use * in \<open>simp add: code_at_def nth_append\<close>)
  then show "code_at P i (c @ d)" using * by (simp add: code_at_def)
qed

lemma code_at_op: "code_at P i [op] \<longleftrightarrow> i < length P \<and> P ! i = op"
  by (auto simp: code_at_def)

lemma code_at_ops: "code_at P i (op # ops) \<longleftrightarrow> i < length P \<and> P ! i = op \<and> code_at P (Suc i) ops"
  using code_at_append [of P i "[op]" ops] by (simp add: code_at_op)

text \<open>An expression leaves its value on the stack.\<close>

lemma comp_exp_steps:
  assumes "code_at P i (comp_exp (length P) e)" and "well_exp nv e"
    and "length P + 2 * nv + 2 * (length stk + depth_exp e) \<le> 32"
  shows "steps_to g k P nv (i, env, stk) [] (i + length (comp_exp (length P) e), env, eval_exp e env # stk)"
  using assms
proof (induction e arbitrary: i stk)
  case (Const c)
  then show ?case by (simp add: code_at_op) (rule steps_const, auto)
next
  case (Var v)
  then show ?case by (simp add: code_at_op) (rule steps_variable, auto)
next
  case (Bin f a b)
  let ?n = "length (comp_exp (length P) a)" and ?m = "length (comp_exp (length P) b)"
  have code: "code_at P i (comp_exp (length P) a)" "code_at P (i + ?n) (comp_exp (length P) b)"
    "i + ?n + ?m < length P" "P ! (i + ?n + ?m) = opcode f"
    using Bin.prems(1) by (auto simp: code_at_append code_at_op add.assoc)
  have "steps_to g k P nv (i, env, stk) [] (i + ?n, env, eval_exp a env # stk)"
    using Bin.prems by (intro Bin.IH(1) code) (auto simp: max_def split: if_splits)
  also have "steps_to g k P nv (i + ?n, env, eval_exp a env # stk) [] (i + ?n + ?m, env, eval_exp b env # eval_exp a env # stk)"
    using Bin.prems by (intro Bin.IH(2) code) (auto simp: max_def split: if_splits)
  also have "steps_to g k P nv (i + ?n + ?m, env, eval_exp b env # eval_exp a env # stk) []
      (Suc (i + ?n + ?m), env, operate f (eval_exp a env) (eval_exp b env) # stk)"
    by (rule steps_operator [OF code(3,4)])
  finally show ?case by (simp add: add.assoc)
qed

text \<open>The branch of a conditional statement, and the end of a round of a loop.\<close>

lemma unless_steps:
  assumes "code_at P i (comp_stm (length P) (Unless e c))" and "well_exp nv e"
    and "length P + 2 * nv + 2 * depth_exp e \<le> 32"
  shows "steps_to g k P nv (i, env, []) []
      (if eval_exp e env = 0 then Suc (i + length (comp_exp (length P) e)) else i + length (comp_stm (length P) (Unless e c)), env, [])"
    and "code_at P (Suc (i + length (comp_exp (length P) e))) (comp_stm (length P) c)"
proof -
  let ?n = "length (comp_exp (length P) e)" and ?m = "length (comp_stm (length P) c)"
  have code: "code_at P i (comp_exp (length P) e)" "i + ?n < length P" "P ! (i + ?n) = xcode OPcond (int ?m + 1)"
    and body: "code_at P (Suc (i + ?n)) (comp_stm (length P) c)"
    using assms(1) by (auto simp: code_at_append code_at_ops)
  then have "i + ?n + 1 + ?m \<le> length P" by (simp add: code_at_def)
  then have m: "int ?m + 1 < 32" using assms(3) comp_exp_nonempty [of "length P" e] by linarith
  have "steps_to g k P nv (i, env, []) [] (i + ?n, env, [eval_exp e env])"
    using assms by (intro comp_exp_steps code) auto
  also have "steps_to g k P nv (i + ?n, env, [eval_exp e env]) []
      (if eval_exp e env = 0 then Suc (i + ?n) else i + ?n + ?m + 1, env, [])"
    using m by (intro steps_cond [OF code(2,3)]) auto
  finally show "steps_to g k P nv (i, env, []) []
      (if eval_exp e env = 0 then Suc (i + ?n) else i + length (comp_stm (length P) (Unless e c)), env, [])"
    by (simp add: add.assoc split: if_splits)
  show "code_at P (Suc (i + ?n)) (comp_stm (length P) c)" by (rule body)
qed

lemma round_steps:
  assumes code: "code_at P i (comp_stm (length P) (DoWhile c e))" and "well_exp nv e"
    and "length P + 2 * nv + 2 * depth_exp e \<le> 32"
    and body: "code_at P i (comp_stm (length P) c) \<Longrightarrow> steps_to g k P nv (i, env, []) xs (i + length (comp_stm (length P) c), env', [])"
  shows "steps_to g k P nv (i, env, []) xs
      (if eval_exp e env' = 0 then i + length (comp_stm (length P) (DoWhile c e)) else i, env', [])"
proof -
  let ?n = "length (comp_stm (length P) c)" and ?m = "length (comp_exp (length P) e)"
  have *: "code_at P i (comp_stm (length P) c)" "code_at P (i + ?n) (comp_exp (length P) e)"
    "i + ?n + ?m < length P" "P ! (i + ?n + ?m) = xcode OPcond (- int (?n + ?m))"
    using code by (auto simp: code_at_append code_at_ops add.assoc)
  have "steps_to g k P nv (i, env, []) xs (i + ?n, env', [])" by (rule body [OF *(1)])
  also have "steps_to g k P nv (i + ?n, env', []) [] (i + ?n + ?m, env', [eval_exp e env'])"
    using assms(2,3) by (intro comp_exp_steps *) auto
  also have "steps_to g k P nv (i + ?n + ?m, env', [eval_exp e env']) []
      (if eval_exp e env' = 0 then Suc (i + ?n + ?m) else i, env', [])"
    using *(3) assms(3) by (intro steps_cond [OF *(3,4)]) auto
  finally show ?thesis by (simp add: add.assoc split: if_splits)
qed

text \<open>A statement leaves the stack as it was.\<close>

lemma comp_steps:
  assumes "big_step c env xs env'" and "k \<noteq> 0"
    and "code_at P i (comp_stm (length P) c)" and "well nv c" and "length P + 2 * nv + 2 * depth c \<le> 32"
  shows "steps_to g k P nv (i, env, []) xs (i + length (comp_stm (length P) c), env', [])"
  using assms(1,3-)
proof (induction arbitrary: i)
  case (Store v e env)
  let ?n = "length (comp_exp (length P) e)" and ?a = "var_address (length P) v"
  have code: "code_at P i (comp_exp (length P) e)" "i + ?n < length P" "P ! (i + ?n) = xcode OPpushc ?a"
    "Suc (i + ?n) < length P" "P ! Suc (i + ?n) = OPstore"
    using Store.prems(1) by (auto simp: code_at_append code_at_ops)
  have "steps_to g k P nv (i, env, []) [] (i + ?n, env, [eval_exp e env])"
    using Store.prems by (intro comp_exp_steps code) auto
  also have "steps_to g k P nv (i + ?n, env, [eval_exp e env]) [] (Suc (i + ?n), env, [word_of_int ?a, eval_exp e env])"
    using Store.prems by (intro steps_const code) (auto simp: var_address_def)
  also have "steps_to g k P nv (Suc (i + ?n), env, [word_of_int ?a, eval_exp e env]) []
      (Suc (Suc (i + ?n)), env(v := eval_exp e env), [])"
    using Store.prems by (intro steps_store code) auto
  finally show ?case by (simp del: fun_upd_apply)
next
  case (Send e env)
  let ?n = "length (comp_exp (length P) e)"
  have code: "code_at P i (comp_exp (length P) e)" "i + ?n < length P" "P ! (i + ?n) = OPsenddata"
    using Send.prems(1) by (auto simp: code_at_append code_at_op)
  have "steps_to g k P nv (i, env, []) [] (i + ?n, env, [eval_exp e env])"
    using Send.prems by (intro comp_exp_steps code) auto
  also have "steps_to g k P nv (i + ?n, env, [eval_exp e env]) [eval_exp e env] (Suc (i + ?n), env, [])"
    by (rule steps_send [OF code(2,3) assms(2)])
  finally show ?case by simp
next
  case (Seq c env xs env' d ys env'')
  let ?n = "length (comp_stm (length P) c)"
  have "steps_to g k P nv (i, env, []) xs (i + ?n, env', [])"
    using Seq.prems by (intro Seq.IH(1)) (auto simp: code_at_append)
  also have "steps_to g k P nv (i + ?n, env', []) ys (i + ?n + length (comp_stm (length P) d), env'', [])"
    using Seq.prems by (intro Seq.IH(2)) (auto simp: code_at_append)
  finally show ?case by (simp add: add.assoc)
next
  case (UnlessTrue e env c)
  then show ?case using unless_steps(1) [of P i e c nv g k env] by (simp del: comp_stm.simps)
next
  case (UnlessFalse e env c xs env')
  have pre: "code_at P i (comp_stm (length P) (Unless e c))" "well_exp nv e" "length P + 2 * nv + 2 * depth_exp e \<le> 32"
    using UnlessFalse.prems by auto
  have "steps_to g k P nv (i, env, []) [] (Suc (i + length (comp_exp (length P) e)), env, [])"
    using unless_steps(1) [OF pre, of g k env] UnlessFalse.hyps(1) by (simp del: comp_stm.simps)
  also have "steps_to g k P nv (Suc (i + length (comp_exp (length P) e)), env, []) xs
      (Suc (i + length (comp_exp (length P) e)) + length (comp_stm (length P) c), env', [])"
    using UnlessFalse.prems by (intro UnlessFalse.IH unless_steps(2) [OF pre]) auto
  finally show ?case by (simp add: add.assoc)
next
  case (DoWhileEnd c env xs env' e)
  have "steps_to g k P nv (i, env, []) xs (if eval_exp e env' = 0 then i + length (comp_stm (length P) (DoWhile c e)) else i, env', [])"
    using DoWhileEnd.prems by (intro round_steps) (auto simp del: comp_stm.simps intro: DoWhileEnd.IH)
  then show ?case using DoWhileEnd.hyps(2) by simp
next
  case (DoWhileLoop c env xs env' e ys env'')
  have "steps_to g k P nv (i, env, []) xs (if eval_exp e env' = 0 then i + length (comp_stm (length P) (DoWhile c e)) else i, env', [])"
    using DoWhileLoop.prems by (intro round_steps) (auto simp del: comp_stm.simps intro: DoWhileLoop.IH(1))
  then have "steps_to g k P nv (i, env, []) xs (i, env', [])" using DoWhileLoop.hyps(2) by simp
  also have "steps_to g k P nv (i, env', []) ys (i + length (comp_stm (length P) (DoWhile c e)), env'', [])"
    using DoWhileLoop.prems by (rule DoWhileLoop.IH(2))
  finally show ?case .
qed

section \<open>A capsule from its arrival to its end\<close>

definition variable :: "nat \<Rightarrow> interp \<Rightarrow> nat \<Rightarrow> u16" where
  "variable L s v = word16 (read_bytes (L + 2 * v) 2 (in_mem s))"

lemma copy_code_take:
  "n \<le> length m \<Longrightarrow> n < length data \<Longrightarrow> copy_code n data m = Some (take n (tl data) @ drop n m)"
proof (induction n)
  case (Suc n)
  then have "take (Suc n) (tl data) = take n (tl data) @ [data ! Suc n]"
    by (subst take_Suc_conv_app_nth) (auto simp: nth_tl)
  moreover have "(take n (tl data) @ drop n m)[n := data ! Suc n] = take n (tl data) @ data ! Suc n # drop (Suc n) m"
    using Suc.prems by (simp add: list_update_append Cons_nth_drop_Suc [symmetric])
  ultimately show ?case using Suc by simp
qed simp

lemma bytes16_word16: "length bs = 2 \<Longrightarrow> bytes16 (word16 bs) = bs"
proof -
  assume "length bs = 2"
  then obtain a b where "bs = [a, b]" by (auto simp: length_Suc_conv numeral_2_eq_2)
  moreover have "\<not> bit a (8 + n)" for n using bit_imp_le_length [of a "8 + n"] by auto
  then have "bytes16 (word16 [a, b]) = [a, b]"
    unfolding bytes16_def word16_def by (auto intro!: bit_word_eqI simp: bit_simps)
  ultimately show ?thesis by simp
qed

lemma comp_nonempty: "0 < length (comp_stm L c)"
  using comp_exp_nonempty by (induction c) auto

text \<open>The state in which the code starts.\<close>

lemma capsule_started:
  assumes c: "fits nv c" and s: "length (in_mem s) = MEMSIZE"
    and P: "P = capsule_code c"
  obtains s1 s2 where "INTERP_CAPSULE_EVENT (of_nat (length P) # P @ rest) s = Some (s1, 1)"
    and "INTERP_CLOCK_EVENT s1 = (s2, [POST_run])" and "program_at P nv 0 (variable (length P) s) [] s2"
proof -
  let ?m = "P @ drop (length P) (in_mem s)"
  let ?s1 = "s\<lparr>in_mem := ?m, in_codesize := of_nat (length P), in_state := in_idle\<rparr>"
  let ?s2 = "?s1\<lparr>in_clocks := in_clocks s + 1, in_state := in_running, in_ip := 0, in_sp := of_nat MEMSIZE\<rparr>"
  have len: "length P + 2 * nv \<le> 32" "0 < length P"
    using c comp_nonempty unfolding fits_def P MEMSIZE_def capsule_code_def by auto
  then have size: "sint (of_nat (length P) :: u8) = int (length P)" by (intro sint8_of_nat) simp
  have nonzero: "of_nat (length P) \<noteq> (0 :: u8)"
  proof
    assume "of_nat (length P) = (0 :: u8)"
    then show False using size len by simp
  qed
  have "INTERP_CAPSULE_EVENT (of_nat (length P) # P @ rest) s = Some (?s1, 1)"
  proof -
    have "copy_code (length P) (of_nat (length P) # P @ rest) (in_mem s) = Some ?m"
      using len s by (subst copy_code_take) (auto simp: MEMSIZE_def)
    then show ?thesis using size by (simp only: INTERP_CAPSULE_EVENT_def Let_def nth_Cons_0 list.distinct if_False nat_int) simp
  qed
  moreover have "INTERP_CLOCK_EVENT ?s1 = (?s2, [POST_run])"
    using nonzero by (simp add: INTERP_CLOCK_EVENT_def Let_def)
  moreover have "read_bytes (length P + 2 * v) 2 ?m = bytes16 (variable (length P) s v)" if "v < nv" for v
  proof -
    have "read_bytes (length P + 2 * v) 2 ?m = read_bytes (length P + 2 * v) 2 (in_mem s)"
      unfolding read_bytes_def using that len s by (intro map_cong refl) (simp add: nth_append MEMSIZE_def add.assoc)
    then show ?thesis by (simp add: variable_def bytes16_word16)
  qed
  then have "program_at P nv 0 (variable (length P) s) [] ?s2"
    using len s by (simp add: program_at_def MEMSIZE_def stack_edge_def)
  ultimately show ?thesis by (rule that)
qed

lemma run_at_end:
  assumes "program_at P nv (length P) env stk s"
  shows "run g k s = Some (s\<lparr>in_state := in_idle\<rparr>, [])"
  using assms by (simp add: run_def program_at_def)

text \<open>C9: A program of the structured language that fits into the memory is loaded as a capsule into an
  interpreter in any state and started by the clock. If its semantics ends, sending some values, then after
  some number of runs of the task, each of which has posted the next, the interpreter is idle, has sent just
  these values in this order, and its variables have the values the semantics gives them. The layer below
  takes every message.\<close>

theorem capsule_runs_program:
  assumes "fits nv c" and "length (in_mem s) = MEMSIZE" and "P = capsule_code c"
    and "big_step c (variable (length P) s) xs env'" and "sendok \<noteq> 0"
  shows "\<exists>s1 s2 n s3 out s4.
    INTERP_CAPSULE_EVENT (of_nat (length P) # P @ rest) s = Some (s1, 1) \<and>
    INTERP_CLOCK_EVENT s1 = (s2, [POST_run]) \<and>
    go getok sendok n s2 = Some (s3, out) \<and> run getok sendok s3 = Some (s4, []) \<and>
    length (filter ((=) POST_run) out) = n \<and> sent out = xs \<and> in_state s4 = in_idle \<and>
    (\<forall>v<nv. variable (length P) s4 v = env' v)"
proof -
  obtain s1 s2 where start: "INTERP_CAPSULE_EVENT (of_nat (length P) # P @ rest) s = Some (s1, 1)"
    "INTERP_CLOCK_EVENT s1 = (s2, [POST_run])" "program_at P nv 0 (variable (length P) s) [] s2"
    using assms(1-3) by (rule capsule_started)
  have P: "comp_stm (length P) c = P" unfolding assms(3) length_capsule_code by (simp add: capsule_code_def)
  have "steps_to getok sendok P nv (0, variable (length P) s, []) xs (0 + length (comp_stm (length P) c), env', [])"
  proof (rule comp_steps [OF assms(4,5)])
    show "code_at P 0 (comp_stm (length P) c)" by (simp add: P code_at_def)
    show "well nv c" "length P + 2 * nv + 2 * depth c \<le> 32"
      using assms(1) by (simp_all add: fits_def MEMSIZE_def assms(3))
  qed
  then obtain n s3 out where go: "go getok sendok n s2 = Some (s3, out)" "program_at P nv (length P) env' [] s3"
    "sent out = xs" "length (filter ((=) POST_run) out) = n"
    using start(3) unfolding steps_to_def P by auto
  have "variable (length P) (s3\<lparr>in_state := in_idle\<rparr>) v = env' v" if "v < nv" for v
    using go(2) that by (simp add: program_at_def variable_def)
  then show ?thesis using start(1,2) go run_at_end [OF go(2)] by (intro exI conjI) auto
qed

text \<open>A program that counts down and sends the numbers.\<close>

definition countdown :: stm where
  "countdown =
     Seq (Store 0 (Const 3))
       (DoWhile (Seq (Send (Var 0)) (Store 0 (Bin Sub (Var 0) (Const 1)))) (Var 0))"

lemma countdown_sends: "big_step countdown env [3, 2, 1] (env(0 := 0))"
proof -
  let ?body = "Seq (Send (Var 0)) (Store 0 (Bin Sub (Var 0) (Const 1)))"
  have body: "big_step ?body (env(0 := x)) [x] (env(0 := x - 1))" for x :: u16
  proof -
    let ?e = "env(0 := x)"
    have "big_step ?body ?e ([eval_exp (Var 0) ?e] @ []) (?e(0 := eval_exp (Bin Sub (Var 0) (Const 1)) ?e))"
      by (rule big_step.Seq [OF big_step.Send big_step.Store])
    then show ?thesis by simp
  qed
  have "big_step (DoWhile ?body (Var 0)) (env(0 := 1)) [1] (env(0 := 0))"
    using big_step.DoWhileEnd [OF body, of "Var 0" 1] by simp
  from big_step.DoWhileLoop [OF body _ _, of "Var 0" 2, simplified, OF this]
  have "big_step (DoWhile ?body (Var 0)) (env(0 := 2)) [2, 1] (env(0 := 0))" by simp
  from big_step.DoWhileLoop [OF body _ _, of "Var 0" 3, simplified, OF this]
  have "big_step (DoWhile ?body (Var 0)) (env(0 := 3)) [3, 2, 1] (env(0 := 0))" by simp
  moreover have "big_step (Store 0 (Const 3)) env [] (env(0 := 3))"
    using big_step.Store [of 0 "Const 3" env] by simp
  ultimately show ?thesis unfolding countdown_def using big_step.Seq by fastforce
qed

definition fresh_interp :: interp where
  "fresh_interp = \<lparr>in_state = 2, in_light = 9, in_clocks = 5, in_ip = 7, in_codesize = 11, in_sp = 20,
     in_mem = replicate 32 0x55\<rparr>"

theorem capsule_runs_program_witness:
  "\<exists>s1 s2 n s3 out s4.
    INTERP_CAPSULE_EVENT (of_nat (length (capsule_code countdown)) # capsule_code countdown @ [0, 0]) fresh_interp = Some (s1, 1) \<and>
    INTERP_CLOCK_EVENT s1 = (s2, [POST_run]) \<and>
    go 1 1 n s2 = Some (s3, out) \<and> run 1 1 s3 = Some (s4, []) \<and>
    length (filter ((=) POST_run) out) = n \<and> sent out = [3, 2, 1] \<and> in_state s4 = in_idle \<and>
    (\<forall>v<1. variable (length (capsule_code countdown)) s4 v =
       ((variable (length (capsule_code countdown)) fresh_interp)(0 := 0)) v)"
proof (rule capsule_runs_program)
  show "fits 1 countdown" by (simp add: fits_def countdown_def capsule_code_def MEMSIZE_def)
  show "length (in_mem fresh_interp) = MEMSIZE" by (simp add: fresh_interp_def MEMSIZE_def)
qed (rule refl countdown_sends one_neq_zero)+

end
