(* ===== verification/InterpFaults.thy ===== *)
theory InterpFaults
  imports InterpProg
begin

text \<open>
  The instructions of the interpreter that are not in the language of \<open>InterpProg\<close>: calls, which work, and
  the two that wait and the one for the lights, which do not do what \<open>instruc.h\<close> tells. A capsule that is
  longer than the memory is written over what follows it.
\<close>

section \<open>Calls\<close>

lemma call_facts:
  "\<not> xclass OPcall" "\<not> binaryop OPcall" "OPcall \<noteq> OPputled" "OPcall \<noteq> OPjump" "OPcall \<noteq> OPhalt"
  "\<not> xclass OPreturn" "\<not> binaryop OPreturn" "OPreturn \<noteq> OPputled" "OPreturn \<noteq> OPjump" "OPreturn \<noteq> OPcall" "OPreturn \<noteq> OPhalt"
  by (simp_all add: op_codes xclass_def binaryop_def)

lemma program_at_ip: "program_at P nv i env stk s \<Longrightarrow> w + 1 = of_nat j \<Longrightarrow> program_at P nv j env stk (s\<lparr>in_ip := w + 1\<rparr>)"
  by (simp add: program_at_def)

lemma ucast_of_nat16: "(ucast (of_nat j :: u16) :: u8) = of_nat j"
  using ucast_word_of_int [of "int j"] by simp

lemma steps_call:
  assumes i: "i < length P" "P ! i = OPcall"
  shows "steps_to g k P nv (i, env, of_nat j # stk) [] (j, env, of_nat i # stk)"
proof (rule steps_instr [OF i(1)])
  show "P ! i \<noteq> OPhalt" by (simp add: i(2) call_facts)
  fix s assume s: "program_at P nv i env (of_nat j # stk) s"
  then have room: "length P + 2 * nv + 2 * Suc (length stk) \<le> 32" by (simp add: program_at_def)
  obtain s1 where 1: "pop_int s = Some (of_nat j, s1)" "program_at P nv i env stk s1" using s by (rule pop_program_at)
  have "i < 128" using i(1) s by (simp add: program_at_def)
  have "scast (in_ip s1) = (of_nat i :: u16)"
  proof -
    have "scast (of_nat i :: u8) = (word_of_int (sint (of_nat i :: u8)) :: u16)" by simp
    then show ?thesis using 1(2) \<open>i < 128\<close> by (simp add: program_at_def sint8_of_nat)
  qed
  then obtain s2 where 2: "push_int (scast (in_ip s1)) s1 = Some s2" "program_at P nv i env (of_nat i # stk) s2"
    using push_int_program_at [OF 1(2) room, of "of_nat i"] by auto
  let ?ip = "ucast (of_nat j - 1 :: u16) :: u8"
  have "?ip + 1 = of_nat j" using ucast_word_of_int [of "int j - 1"] by simp
  then have "program_at P nv j env (of_nat i # stk) (s2\<lparr>in_ip := ?ip + 1\<rparr>)" by (rule program_at_ip [OF 2(2)])
  moreover have "instr g k OPcall s = Some (s2\<lparr>in_ip := ?ip\<rparr>, [], Next_op)"
    using 1(1) 2(1) by (simp add: instr_def call_facts run_unary_def)
  ultimately show "\<exists>s' out. instr g k (P ! i) s = Some (s', out, Next_op) \<and> POST_run \<notin> set out \<and> sent out = [] \<and>
      program_at P nv j env (of_nat i # stk) (s'\<lparr>in_ip := in_ip s' + 1\<rparr>)"
    using i(2) by auto
qed

lemma steps_return:
  assumes l: "l < length P" "P ! l = OPreturn"
  shows "steps_to g k P nv (l, env, of_nat i # stk) [] (Suc i, env, stk)"
proof (rule steps_instr [OF l(1)])
  show "P ! l \<noteq> OPhalt" by (simp add: l(2) call_facts)
  fix s assume s: "program_at P nv l env (of_nat i # stk) s"
  obtain s1 where 1: "pop_int s = Some (of_nat i, s1)" "program_at P nv l env stk s1" using s by (rule pop_program_at)
  have "program_at P nv (Suc i) env stk (s1\<lparr>in_ip := of_nat i + 1\<rparr>)" by (rule program_at_ip [OF 1(2)]) simp
  moreover have "instr g k OPreturn s = Some (s1\<lparr>in_ip := of_nat i\<rparr>, [], Next_op)"
    using 1(1) by (simp add: instr_def call_facts run_unary_def ucast_of_nat16)
  ultimately show "\<exists>s' out. instr g k (P ! l) s = Some (s', out, Next_op) \<and> POST_run \<notin> set out \<and> sent out = [] \<and>
      program_at P nv (Suc i) env stk (s'\<lparr>in_ip := in_ip s' + 1\<rparr>)"
    using l(2) by auto
qed

text \<open>A subroutine that leaves the stack as it found it returns behind its call.\<close>

lemma subroutine_returns:
  assumes "i < length P" "P ! i = OPcall" and "l < length P" "P ! l = OPreturn"
    and "steps_to g k P nv (j, env, of_nat i # stk) xs (l, env', of_nat i # stk)"
  shows "steps_to g k P nv (i, env, of_nat j # stk) xs (Suc i, env', stk)"
  using steps_trans [OF steps_trans [OF steps_call [OF assms(1,2)] assms(5)] steps_return [OF assms(3,4)]] by simp

section \<open>Instructions that wait\<close>

lemma sensor_facts:
  "\<not> xclass OPgetsensor" "\<not> binaryop OPgetsensor" "OPgetsensor \<noteq> OPputled" "OPgetsensor \<noteq> OPjump" "OPgetsensor \<noteq> OPcall"
  "OPgetsensor \<noteq> OPreturn" "OPgetsensor \<noteq> OPpop" "OPgetsensor \<noteq> OPcopy" "OPgetsensor \<noteq> OPhalt" "OPsenddata \<noteq> OPhalt"
  by (simp_all add: op_codes xclass_def binaryop_def)

text \<open>A run when the state of the component is not the running one.\<close>

lemma program_at_waiting: "program_at P nv i env stk s \<Longrightarrow> program_at P nv i env stk (s\<lparr>in_state := x, in_state := in_running\<rparr>)"
  by (simp add: program_at_def)

lemma run_instr:
  assumes "program_at P nv i env stk (s\<lparr>in_state := in_running\<rparr>)" and "i < length P" and "P ! i \<noteq> OPhalt"
  shows "run g k s =
    (case instr g k (P ! i) s of
       None \<Rightarrow> None
     | Some (s, out, Suspend) \<Rightarrow> Some (s, out)
     | Some (s, out, Next_op) \<Rightarrow> Some (s\<lparr>in_ip := in_ip s + 1\<rparr>, out @ [POST_run]))"
  using fetch [OF assms(1,2)] assms(3) by (simp add: run_def instr_def Let_def)

lemma in_state_sp: "s\<lparr>in_state := x, in_sp := y\<rparr> = s\<lparr>in_sp := y, in_state := x\<rparr>"
  by (cases s) simp

lemma pop_state: "pop_int (s\<lparr>in_state := x\<rparr>) = map_option (\<lambda>(p, s). (p, s\<lparr>in_state := x\<rparr>)) (pop_int s)"
  by (simp add: pop_int_def option.map_comp comp_def in_state_sp)

lemma pop_fields: "pop_int s = Some (x, s') \<Longrightarrow> in_state s' = in_state s \<and> in_light s' = in_light s"
  by (auto simp: pop_int_def)

lemma pop_waiting:
  assumes "program_at P nv i env (x # stk) (s\<lparr>in_state := in_running\<rparr>)"
  obtains s' where "pop_int s = Some (x, s')" and "program_at P nv i env stk (s'\<lparr>in_state := in_running\<rparr>)"
    and "in_state s' = in_state s" and "in_light s' = in_light s"
proof -
  obtain t where t: "pop_int (s\<lparr>in_state := in_running\<rparr>) = Some (x, t)" "program_at P nv i env stk t"
    using assms by (rule pop_program_at)
  then obtain s' where s': "pop_int s = Some (x, s')" "t = s'\<lparr>in_state := in_running\<rparr>" by (auto simp: pop_state)
  with t pop_fields [OF s'(1)] show ?thesis by (intro that [of s']) auto
qed

lemma program_at_running: "program_at P nv i env stk s \<Longrightarrow> program_at P nv i env stk (s\<lparr>in_state := in_running\<rparr>)"
  by (simp add: program_at_def)

lemma state_running: "program_at P nv i env stk s \<Longrightarrow> in_state s = in_running"
  by (simp add: program_at_def)

text \<open>A refused message leaves the stack without its value.\<close>

lemma run_refused_send:
  assumes s: "program_at P nv i env (x # stk) s" and i: "i < length P" "P ! i = OPsenddata"
  obtains s' where "run g 0 s = Some (s', [INTERP_SEND_DATA x])" and "in_state s' = in_waitsend"
    and "program_at P nv i env stk (s'\<lparr>in_state := in_running\<rparr>)"
proof -
  obtain s1 where 1: "pop_int s = Some (x, s1)" "program_at P nv i env stk s1" using s by (rule pop_program_at)
  have "run g 0 s = Some (s1\<lparr>in_state := in_waitsend\<rparr>, [INTERP_SEND_DATA x])"
    using i 1 by (simp add: run_instr [OF program_at_running [OF s]] sensor_facts instr_def unary_facts run_unary_def state_running)
  then show ?thesis using program_at_running [OF 1(2)] by - (rule that, assumption, simp_all)
qed

lemma run_resumed_send:
  assumes s: "program_at P nv i env (x # stk) (s\<lparr>in_state := in_running\<rparr>)" and i: "i < length P" "P ! i = OPsenddata" and k: "k \<noteq> 0"
  obtains s' where "run g k s = Some (s', [INTERP_SEND_DATA x, POST_run])" and "in_state s' = in_state s"
    and "program_at P nv (Suc i) env stk (s'\<lparr>in_state := in_running\<rparr>)"
proof -
  obtain s1 where 1: "pop_int s = Some (x, s1)" "program_at P nv i env stk (s1\<lparr>in_state := in_running\<rparr>)" "in_state s1 = in_state s"
    using s by (rule pop_waiting)
  have "run g k s = Some (s1\<lparr>in_ip := in_ip s1 + 1\<rparr>, [INTERP_SEND_DATA x, POST_run])"
    using i 1 k by (simp add: run_instr [OF s] sensor_facts instr_def unary_facts run_unary_def)
  moreover have "program_at P nv (Suc i) env stk (s1\<lparr>in_ip := in_ip s1 + 1, in_state := in_running\<rparr>)"
    using 1(2) by (simp add: program_at_def)
  ultimately show ?thesis using 1(3) by (intro that) auto
qed

lemma run_started_sensor:
  assumes s: "program_at P nv i env (x # stk) s" and i: "i < length P" "P ! i = OPgetsensor" and g: "g \<noteq> 0"
  obtains s' where "run g k s = Some (s', [INTERP_GET_DATA])" and "in_state s' = in_waitdata"
    and "program_at P nv i env stk (s'\<lparr>in_state := in_running\<rparr>)"
proof -
  obtain s1 where 1: "pop_int s = Some (x, s1)" "program_at P nv i env stk s1" using s by (rule pop_program_at)
  have "run g k s = Some (s1\<lparr>in_state := in_waitdata\<rparr>, [INTERP_GET_DATA])"
    using i 1 g state_running [OF 1(2)]
    by (simp add: run_instr [OF program_at_running [OF s]] sensor_facts instr_def run_unary_def) (simp add: in_states)
  then show ?thesis using program_at_running [OF 1(2)] by - (rule that, assumption, simp_all)
qed

lemma in_state_mem: "s\<lparr>in_state := x, in_sp := a, in_mem := m\<rparr> = s\<lparr>in_sp := a, in_mem := m, in_state := x\<rparr>"
  by (cases s) simp

lemma push_state: "push_int v (s\<lparr>in_state := x\<rparr>) = map_option (\<lambda>s. s\<lparr>in_state := x\<rparr>) (push_int v s)"
  by (simp add: push_int_def Let_def option.map_comp comp_def in_state_mem)

lemma run_resumed_sensor:
  assumes s: "program_at P nv i env (x # stk) (s\<lparr>in_state := in_running\<rparr>)" "in_state s = in_waitdata"
    and i: "i < length P" "P ! i = OPgetsensor"
  obtains s' where "run g k s = Some (s', [POST_run])" and "program_at P nv (Suc i) env (in_light s # stk) s'"
proof -
  have room: "length P + 2 * nv + 2 * Suc (length stk) \<le> 32" using s(1) by (simp add: program_at_def)
  obtain s1 where 1: "pop_int s = Some (x, s1)" "program_at P nv i env stk (s1\<lparr>in_state := in_running\<rparr>)"
    "in_state s1 = in_state s" "in_light s1 = in_light s"
    using s(1) by (rule pop_waiting)
  obtain t where t: "push_int (in_light s) (s1\<lparr>in_state := in_running\<rparr>) = Some t" "program_at P nv i env (in_light s # stk) t"
    using 1(2) room by (rule push_int_program_at)
  then obtain s2 where 2: "push_int (in_light s) s1 = Some s2" "t = s2\<lparr>in_state := in_running\<rparr>" by (auto simp: push_state)
  have "run g k s = Some (t\<lparr>in_ip := in_ip t + 1\<rparr>, [POST_run])"
    using i 1 2 s(2) by (simp add: run_instr [OF s(1)] sensor_facts instr_def run_unary_def)
  then show ?thesis using program_at_next [OF t(2)] by (rule that)
qed

lemma run_resumed_empty:
  assumes s: "program_at P nv i env [] (s\<lparr>in_state := in_running\<rparr>)" and i: "i < length P" "P ! i = OPgetsensor"
  shows "run g k s = None"
proof -
  have "in_sp s = 32" "length (in_mem s) = 32" using s by (simp_all add: program_at_def stack_edge_def)
  then have "pop_int s = None" by (simp add: pop_int_def load_int_def)
  then show ?thesis using i by (simp add: run_instr [OF s] sensor_facts instr_def run_unary_def)
qed

text \<open>C29: An instruction that waits takes its operand from the stack again when it is resumed. A message that is
  refused is not sent when the clock lets the task try again: the value below it on the stack is sent, and
  the component stays in the state of waiting although nothing is pending. When the reading of the sensor
  arrives it replaces the value below the operand; where nothing is below it, the task reads behind the end of
  the memory.\<close>

theorem waiting_takes_again:
  assumes s: "program_at P nv i env (x # stk) s" and i: "i < length P" and ok: "getok \<noteq> 0" "sendok \<noteq> 0"
  shows
    "(P ! i = OPsenddata \<and> stk = y # rest \<longrightarrow>
       (\<exists>s1 s2 s3. run getok 0 s = Some (s1, [INTERP_SEND_DATA x]) \<and> INTERP_CLOCK_EVENT s1 = (s2, [POST_run]) \<and>
          run getok sendok s2 = Some (s3, [INTERP_SEND_DATA y, POST_run]) \<and> in_state s3 = in_waitsend \<and>
          program_at P nv (Suc i) env rest (s3\<lparr>in_state := in_running\<rparr>))) \<and>
     (P ! i = OPgetsensor \<longrightarrow>
       (\<exists>s1 s2. run getok sendok s = Some (s1, [INTERP_GET_DATA]) \<and> INTERP_DATA_EVENT d s1 = (s2, [POST_run], 1) \<and>
          (case stk of
             [] \<Rightarrow> run getok sendok s2 = None
           | y # rest \<Rightarrow> \<exists>s3. run getok sendok s2 = Some (s3, [POST_run]) \<and> program_at P nv (Suc i) env (d # rest) s3)))"
proof (intro conjI impI; (elim conjE)?)
  assume send: "P ! i = OPsenddata" "stk = y # rest"
  obtain s1 where 1: "run getok 0 s = Some (s1, [INTERP_SEND_DATA x])" "in_state s1 = in_waitsend"
    "program_at P nv i env (y # rest) (s1\<lparr>in_state := in_running\<rparr>)"
    using s i send(1) unfolding send(2) by (rule run_refused_send)
  let ?s2 = "s1\<lparr>in_clocks := in_clocks s1 + 1\<rparr>"
  have len: "length P \<le> 32" "in_codesize s1 = of_nat (length P)" using 1(3) by (auto simp: program_at_def)
  then have "in_codesize s1 \<noteq> 0" using i sint8_of_nat [of "length P"] by auto
  then have 2: "INTERP_CLOCK_EVENT s1 = (?s2, [POST_run])"
    using 1(2) by (simp add: INTERP_CLOCK_EVENT_def Let_def in_states)
  have "program_at P nv i env (y # rest) (?s2\<lparr>in_state := in_running\<rparr>)" using 1(3) by (simp add: program_at_def)
  then obtain s3 where "run getok sendok ?s2 = Some (s3, [INTERP_SEND_DATA y, POST_run])" "in_state s3 = in_state ?s2"
    "program_at P nv (Suc i) env rest (s3\<lparr>in_state := in_running\<rparr>)"
    using i send(1) ok(2) by (rule run_resumed_send)
  then show "\<exists>s1 s2 s3. run getok 0 s = Some (s1, [INTERP_SEND_DATA x]) \<and> INTERP_CLOCK_EVENT s1 = (s2, [POST_run]) \<and>
      run getok sendok s2 = Some (s3, [INTERP_SEND_DATA y, POST_run]) \<and> in_state s3 = in_waitsend \<and>
      program_at P nv (Suc i) env rest (s3\<lparr>in_state := in_running\<rparr>)"
    using 1(1,2) 2 by auto
next
  assume sensor: "P ! i = OPgetsensor"
  obtain s1 where 1: "run getok sendok s = Some (s1, [INTERP_GET_DATA])" "in_state s1 = in_waitdata"
    "program_at P nv i env stk (s1\<lparr>in_state := in_running\<rparr>)"
    using s i sensor ok(1) by (rule run_started_sensor)
  let ?s2 = "s1\<lparr>in_light := d\<rparr>"
  have h: "program_at P nv i env stk (?s2\<lparr>in_state := in_running\<rparr>)" using 1(3) by (simp add: program_at_def)
  have "case stk of [] \<Rightarrow> run getok sendok ?s2 = None
      | y # rest \<Rightarrow> \<exists>s3. run getok sendok ?s2 = Some (s3, [POST_run]) \<and> program_at P nv (Suc i) env (d # rest) s3"
  proof (cases stk)
    case Nil
    then show ?thesis using run_resumed_empty [OF _ i sensor] h by simp
  next
    case (Cons y rest)
    have "in_state ?s2 = in_waitdata" using 1(2) by simp
    then obtain s3 where "run getok sendok ?s2 = Some (s3, [POST_run])" "program_at P nv (Suc i) env (in_light ?s2 # rest) s3"
      using i sensor by (rule run_resumed_sensor [OF h [unfolded Cons]])
    then show ?thesis using Cons by simp
  qed
  then show "\<exists>s1 s2. run getok sendok s = Some (s1, [INTERP_GET_DATA]) \<and> INTERP_DATA_EVENT d s1 = (s2, [POST_run], 1) \<and>
      (case stk of [] \<Rightarrow> run getok sendok s2 = None
       | y # rest \<Rightarrow> \<exists>s3. run getok sendok s2 = Some (s3, [POST_run]) \<and> program_at P nv (Suc i) env (d # rest) s3)"
    using 1(1) by (auto simp: INTERP_DATA_EVENT_def)
qed

text \<open>A stopped interpreter at an instruction with one or two operands.\<close>

definition waiting_at :: "u8 \<Rightarrow> u8 \<Rightarrow> interp" where
  "waiting_at ip sp = \<lparr>in_state = 1, in_light = 0, in_clocks = 0, in_ip = ip, in_codesize = 2, in_sp = sp,
     in_mem = [OPsenddata, OPgetsensor] @ replicate 26 0 @ [5, 0, 6, 0]\<rparr>"

lemma waiting_at_program_at:
  "program_at [OPsenddata, OPgetsensor] 0 0 env [5, 6] (waiting_at 0 28)"
  "program_at [OPsenddata, OPgetsensor] 0 1 env [6] (waiting_at 1 30)"
  by (simp_all add: program_at_def waiting_at_def in_states stack_edge_def read_bytes_def bytes16_def nth_append upt_rec)

theorem waiting_takes_again_witness:
  "(\<exists>s1 s2 s3. run 1 0 (waiting_at 0 28) = Some (s1, [INTERP_SEND_DATA 5]) \<and>
      INTERP_CLOCK_EVENT s1 = (s2, [POST_run]) \<and> run 1 1 s2 = Some (s3, [INTERP_SEND_DATA 6, POST_run])) \<and>
   (\<exists>s1 s2. run 1 1 (waiting_at 1 30) = Some (s1, [INTERP_GET_DATA]) \<and>
      INTERP_DATA_EVENT 9 s1 = (s2, [POST_run], 1) \<and> run 1 1 s2 = None)"
  using waiting_takes_again [OF waiting_at_program_at(1) [of "\<lambda>_. 0"], of 1 1 6 "[]" 0]
    waiting_takes_again [OF waiting_at_program_at(2) [of "\<lambda>_. 0"], of 1 1 0 "[]" 9]
  by fastforce

section \<open>The lights\<close>

text \<open>Which of the red, the green and the yellow light are on.\<close>

fun light :: "led_op \<Rightarrow> bool \<times> bool \<times> bool \<Rightarrow> bool \<times> bool \<times> bool" where
  "light LEDr_on (r, g, y) = (True, g, y)"
| "light LEDr_off (r, g, y) = (False, g, y)"
| "light LEDr_toggle (r, g, y) = (\<not> r, g, y)"
| "light LEDg_on (r, g, y) = (r, True, y)"
| "light LEDg_off (r, g, y) = (r, False, y)"
| "light LEDg_toggle (r, g, y) = (r, \<not> g, y)"
| "light LEDy_on (r, g, y) = (r, g, True)"
| "light LEDy_off (r, g, y) = (r, g, False)"
| "light LEDy_toggle (r, g, y) = (r, g, \<not> y)"

lemma led_command: "(drop_bit 3 cmd AND 3 :: u16) \<in> {0, 1, 2, 3}"
proof -
  have "drop_bit 3 cmd AND 3 \<le> (3 :: u16)" by (rule word_and_le1)
  then have "unat (drop_bit 3 cmd AND 3 :: u16) \<le> 3" unfolding word_le_nat_alt by simp
  then have "unat (drop_bit 3 cmd AND 3 :: u16) \<in> {0, 1, 2, 3}" by auto
  then show ?thesis by (auto simp: word_unat_eq_iff)
qed

text \<open>C40: What the instruction for the lights does, whatever they were and whatever its operand is. The commands to set
  all lights and to turn some off turn all of them off; the command to turn some on turns these off and leaves the
  others; only the command to toggle does what its name says. So a light that is off can be lit by toggling only.\<close>

theorem lights_only_by_toggle:
  "fold light (LEDop cmd) (r, g, y) =
     (let op = drop_bit 3 cmd AND 3
      in if op = 0 \<or> op = 1 then (False, False, False)
         else if op = 2 then (r \<and> \<not> bit cmd 0, g \<and> \<not> bit cmd 1, y \<and> \<not> bit cmd 2)
         else (r \<noteq> bit cmd 0, g \<noteq> bit cmd 1, y \<noteq> bit cmd 2))"
  using led_command [of cmd] unfolding LEDop_def Let_def
  by (elim insertE emptyE) (simp_all add: word_le_nat_alt)

section \<open>Capsules longer than the memory\<close>

lemma copy_code_overrun: "length m < n \<Longrightarrow> copy_code n data m = None"
proof (induction n)
  case (Suc n)
  show ?case
  proof (cases "length m < n")
    case False
    then have "n = length m" using Suc.prems by simp
    moreover have "length m' = length m" if "copy_code k data m = Some m'" for k m'
      using that by (induction k arbitrary: m') (auto split: option.splits if_splits)
    ultimately show ?thesis by (auto split: option.split)
  qed (use Suc in simp)
qed simp

text \<open>The first byte of a capsule alone decides how far the memory is written.\<close>

lemma capsule_overruns:
  "length (in_mem s) = MEMSIZE \<Longrightarrow> int MEMSIZE < sint len \<Longrightarrow> INTERP_CAPSULE_EVENT (len # code) s = None"
  by (simp add: INTERP_CAPSULE_EVENT_def Let_def copy_code_overrun)

end
