(* ===== verification/MoteGw.thy ===== *)
theory MoteGw
  imports PacketObj UartPacket ActiveMsg SendCoord
begin

text \<open>
  The gateway between the motes and a host, \<open>aps_proj/MOTE_GW.c\<close>, on the two packet layers it is wired to in
  \<open>apps/MOTE_GW.desc\<close>: replies that arrive over the radio go out over the serial line, and every message of the
  serial line goes out over the radio. Four message buffers go around: each layer receives into one, and the
  gateway keeps one for each direction, which it gives to the layer in exchange for the message it forwards.

  The theorem: the four buffers stay different ones, and none is written while it is being sent.
\<close>

section \<open>State and operations\<close>

record mote_gw =
  gw_msg :: ptr
  gw_rfm_msg :: ptr
  gw_send_pending :: u8
  gw_rfm_send_pending :: u8

datatype gw_out =
    MOTE_GW_SUB_INIT
  | MOTE_GW_SUB_UART_INIT
  | MOTE_GW_SUB_UART_TX_PACKET ptr
  | MOTE_GW_PACKET_TX_PACKET ptr
  | Gw_led led_pin

text \<open>The frame has two messages, \<open>data\<close> and \<open>rfm_data\<close>.\<close>

definition MOTE_GW_INIT :: "ptr \<Rightarrow> ptr \<Rightarrow> mote_gw \<Rightarrow> mote_gw \<times> gw_out list \<times> u8" where
  "MOTE_GW_INIT data rfm_data s =
     (s\<lparr>gw_msg := data, gw_rfm_msg := rfm_data, gw_send_pending := 0, gw_rfm_send_pending := 0\<rparr>,
      [Gw_led CLR_GREEN_LED_PIN, MOTE_GW_SUB_INIT, MOTE_GW_SUB_UART_INIT, Gw_led SET_GREEN_LED_PIN], 1)"

definition MOTE_GW_START :: "mote_gw \<Rightarrow> mote_gw \<times> gw_out list \<times> u8" where
  "MOTE_GW_START s = (s, [], 1)"

definition MOTE_GW_SUB_UART_TX_DONE :: "mote_gw \<Rightarrow> mote_gw \<times> gw_out list" where
  "MOTE_GW_SUB_UART_TX_DONE s = (s, [])"

text \<open>\<open>ok\<close> is the answer of the layer a message is given to, \<open>grp\<close> the group the program is built for. The
  result is the buffer the layer below is to receive into.\<close>

definition MOTE_GW_RX_PACKET :: "u8 \<Rightarrow> u8 \<Rightarrow> memory \<Rightarrow> ptr \<Rightarrow> mote_gw \<Rightarrow> mote_gw \<times> gw_out list \<times> ptr" where
  "MOTE_GW_RX_PACKET grp ok mem data s =
     (if gw_send_pending s = 0 \<and> msg_group (mem data) = grp \<and> msg_type (mem data) = REPLY_HANDLER then
        (let tmp = gw_msg s; s = s\<lparr>gw_msg := data\<rparr>
         in if ok \<noteq> 0 then (s\<lparr>gw_send_pending := 1\<rparr>, [MOTE_GW_SUB_UART_TX_PACKET data, Gw_led CLR_RED_LED_PIN], tmp)
            else (s, [MOTE_GW_SUB_UART_TX_PACKET data, Gw_led CLR_YELLOW_LED_PIN], tmp))
      else (s, [], data))"

definition MOTE_GW_TX_PACKET_DONE :: "ptr \<Rightarrow> mote_gw \<Rightarrow> mote_gw \<times> gw_out list \<times> u8" where
  "MOTE_GW_TX_PACKET_DONE data s =
     (if gw_rfm_msg s = data then (s\<lparr>gw_rfm_send_pending := 0\<rparr>, [Gw_led SET_GREEN_LED_PIN], 1) else (s, [], 1))"

definition MOTE_GW_SUB_UART_RX_PACKET :: "u8 \<Rightarrow> ptr \<Rightarrow> mote_gw \<Rightarrow> mote_gw \<times> gw_out list \<times> ptr" where
  "MOTE_GW_SUB_UART_RX_PACKET ok data s =
     (if gw_rfm_send_pending s = 0 then
        (let tmp = gw_rfm_msg s; s = s\<lparr>gw_rfm_msg := data\<rparr>; out = [Gw_led SET_YELLOW_LED_PIN, MOTE_GW_PACKET_TX_PACKET data]
         in if ok \<noteq> 0 then (s\<lparr>gw_rfm_send_pending := 1\<rparr>, out @ [Gw_led CLR_GREEN_LED_PIN], tmp)
            else (s, out @ [Gw_led CLR_YELLOW_LED_PIN], tmp))
      else (s, [Gw_led CLR_YELLOW_LED_PIN], data))"

definition MOTE_GW_SUB_UART_TX_PACKET_DONE :: "ptr \<Rightarrow> mote_gw \<Rightarrow> mote_gw \<times> gw_out list \<times> u8" where
  "MOTE_GW_SUB_UART_TX_PACKET_DONE data s =
     (if gw_msg s = data then (s\<lparr>gw_send_pending := 0\<rparr>, [Gw_led SET_RED_LED_PIN], 1) else (s, [], 1))"

section \<open>The gateway on its layers\<close>

text \<open>The frames of the gateway, of the radio's packet layer and of the serial line's, and the memory.\<close>

type_synonym gateway = "mote_gw \<times> packet \<times> packet \<times> memory"

text \<open>The event of the gateway when a layer has received a message at \<open>p\<close>, with the layer it passes it to. \<open>b\<close> is
  that layer's answer from below to the first byte. The result is the buffer that is given in exchange.\<close>

definition radio_packet :: "u8 \<Rightarrow> u8 \<Rightarrow> ptr \<Rightarrow> memory \<Rightarrow> mote_gw \<times> packet \<Rightarrow> (mote_gw \<times> packet) \<times> ptr" where
  "radio_packet grp b p mem gs =
     (case gs of (g, pu) \<Rightarrow>
        case UART_PACKET_TX_PACKET b p (pu, mem) of ((pu', _), _, ok) \<Rightarrow>
        case MOTE_GW_RX_PACKET grp ok mem p g of (g', out, tmp) \<Rightarrow>
          ((g', if MOTE_GW_SUB_UART_TX_PACKET p \<in> set out then pu' else pu), tmp))"

definition serial_packet :: "u8 \<Rightarrow> ptr \<Rightarrow> memory \<Rightarrow> mote_gw \<times> packet \<Rightarrow> (mote_gw \<times> packet) \<times> ptr" where
  "serial_packet b p mem gs =
     (case gs of (g, pr) \<Rightarrow>
        case PACKET_TX_PACKET b p (pr, mem) of ((pr', _), _, ok) \<Rightarrow>
        case MOTE_GW_SUB_UART_RX_PACKET ok p g of (g', out, tmp) \<Rightarrow>
          ((g', if MOTE_GW_PACKET_TX_PACKET p \<in> set out then pr' else pr), tmp))"

text \<open>A byte completes a message.\<close>

definition completes :: "u8 \<Rightarrow> packet \<Rightarrow> bool" where
  "completes err s \<longleftrightarrow> err = 0 \<and> pk_state s = 5 \<and> size_val (pk_count s + 1) = sizeof_TOS_Msg"

text \<open>The line reports no errors, \<open>UART.c\<close>, and the radio none while it sends.\<close>

inductive gateway_step :: "u8 \<Rightarrow> gateway \<Rightarrow> gateway \<Rightarrow> bool" for grp where
  radio_byte: "err = 0 \<or> pk_state pr \<noteq> 1 \<Longrightarrow>
    PACKET_RX_BYTE_READY (\<lambda>p (s, m). ((s, m), snd (radio_packet grp b p m (g, pu)))) d err (pr, mem) = ((pr', mem'), out, v) \<Longrightarrow>
    gs = (if completes err pr then fst (radio_packet grp b (pk_rec_ptr pr) mem' (g, pu)) else (g, pu)) \<Longrightarrow>
    gateway_step grp (g, pr, pu, mem) (fst gs, pr', snd gs, mem')"
| serial_byte:
    "UART_PACKET_RX_BYTE_READY (\<lambda>p (s, m). ((s, m), snd (serial_packet b p m (g, pr)))) d 0 (pu, mem) = ((pu', mem'), out, v) \<Longrightarrow>
    gs = (if completes 0 pu then fst (serial_packet b (pk_rec_ptr pu) mem' (g, pr)) else (g, pr)) \<Longrightarrow>
    gateway_step grp (g, pr, pu, mem) (fst gs, snd gs, pu', mem')"
| radio_taken: "PACKET_TX_BYTE_READY (\<lambda>_ st. st) success (pr, mem) = ((pr', mem'), out, v) \<Longrightarrow>
    g' = (if success = 0 \<or> pk_state pr = 1 \<and> pk_state pr' = 0 then fst (MOTE_GW_TX_PACKET_DONE (pk_send_ptr pr) g) else g) \<Longrightarrow>
    gateway_step grp (g, pr, pu, mem) (g', pr', pu, mem')"
| serial_taken: "UART_PACKET_TX_BYTE_READY (\<lambda>_ st. st) success (pu, mem) = ((pu', mem'), out, v) \<Longrightarrow>
    g' = (if success = 0 \<or> pk_state pu = 1 \<and> pk_state pu' = 0
          then fst (MOTE_GW_SUB_UART_TX_PACKET_DONE (pk_send_ptr pu) g) else g) \<Longrightarrow>
    gateway_step grp (g, pr, pu, mem) (g', pr, pu', mem')"

section \<open>The buffers\<close>

definition gw_buffers :: "gateway \<Rightarrow> ptr list" where
  "gw_buffers x = (case x of (g, pr, pu, mem) \<Rightarrow> [gw_msg g, gw_rfm_msg g, pk_rec_ptr pr, pk_rec_ptr pu])"

text \<open>A flag is set just while the layer sends the buffer that belongs to it.\<close>

definition gateway_ok :: "gateway \<Rightarrow> bool" where
  "gateway_ok x \<longleftrightarrow>
     (case x of (g, pr, pu, mem) \<Rightarrow>
        distinct (0 # gw_buffers x) \<and>
        (gw_send_pending g \<noteq> 0 \<longleftrightarrow> pk_state pu = 1) \<and> (pk_state pu = 1 \<longrightarrow> pk_send_ptr pu = gw_msg g) \<and>
        (gw_rfm_send_pending g \<noteq> 0 \<longleftrightarrow> pk_state pr = 1) \<and> (pk_state pr = 1 \<longrightarrow> pk_send_ptr pr = gw_rfm_msg g))"

text \<open>What is being sent stays what it is.\<close>

definition untouched :: "gateway \<Rightarrow> gateway \<Rightarrow> bool" where
  "untouched x x' \<longleftrightarrow>
     (case x of (g, pr, pu, mem) \<Rightarrow> case x' of (g', pr', pu', mem') \<Rightarrow>
        (gw_send_pending g \<noteq> 0 \<longrightarrow> gw_msg g' = gw_msg g \<and> mem' (gw_msg g) = mem (gw_msg g)) \<and>
        (gw_rfm_send_pending g \<noteq> 0 \<longrightarrow> gw_rfm_msg g' = gw_rfm_msg g \<and> mem' (gw_rfm_msg g) = mem (gw_rfm_msg g)))"

text \<open>What a byte does to the layer that receives it, and a message to the rest.\<close>

lemma radio_byte_layer:
  assumes "PACKET_RX_BYTE_READY (\<lambda>p (s, m). ((s, m), t p m)) d err (pr, mem) = ((pr', mem'), out, v)"
    and "err = 0 \<or> pk_state pr \<noteq> 1"
  shows "\<And>q. q \<noteq> pk_rec_ptr pr \<Longrightarrow> mem' q = mem q" "pk_state pr' = 1 \<longleftrightarrow> pk_state pr = 1" "pk_send_ptr pr' = pk_send_ptr pr"
    and "pk_rec_ptr pr' =
      (if completes err pr \<and> t (pk_rec_ptr pr) mem' \<noteq> 0 then t (pk_rec_ptr pr) mem' else pk_rec_ptr pr)"
    and "completes err pr \<Longrightarrow> pk_state pr \<noteq> 1"
  using assms by (auto simp: PACKET_RX_BYTE_READY_def completes_def Let_def split: if_splits)

lemma serial_byte_layer:
  assumes "UART_PACKET_RX_BYTE_READY (\<lambda>p (s, m). ((s, m), t p m)) d 0 (pu, mem) = ((pu', mem'), out, v)"
  shows "\<And>q. q \<noteq> pk_rec_ptr pu \<Longrightarrow> mem' q = mem q" "pk_state pu' = 1 \<longleftrightarrow> pk_state pu = 1" "pk_send_ptr pu' = pk_send_ptr pu"
    and "pk_rec_ptr pu' =
      (if completes 0 pu \<and> t (pk_rec_ptr pu) mem' \<noteq> 0 then t (pk_rec_ptr pu) mem' else pk_rec_ptr pu)"
    and "completes 0 pu \<Longrightarrow> pk_state pu \<noteq> 1"
  using assms by (auto simp: UART_PACKET_RX_BYTE_READY_def completes_def Let_def split: if_splits)

definition serves :: "u8 \<Rightarrow> ptr \<Rightarrow> packet \<Rightarrow> bool" where
  "serves pending q s \<longleftrightarrow> (pending \<noteq> 0 \<longleftrightarrow> pk_state s = 1) \<and> (pk_state s = 1 \<longrightarrow> pk_send_ptr s = q)"

lemma uart_tx_serves:
  "UART_PACKET_TX_PACKET b p (pu, mem) = ((pu', mem'), out, ok) \<Longrightarrow> pk_state pu \<noteq> 1 \<Longrightarrow>
    serves (if ok \<noteq> 0 then 1 else 0) p pu' \<and> pk_rec_ptr pu' = pk_rec_ptr pu"
  by (auto simp: UART_PACKET_TX_PACKET_def serves_def Let_def split: if_splits)

lemma packet_tx_serves:
  "PACKET_TX_PACKET b p (pr, mem) = ((pr', mem'), out, ok) \<Longrightarrow> pk_state pr \<noteq> 1 \<Longrightarrow>
    serves (if ok \<noteq> 0 then 1 else 0) p pr' \<and> pk_rec_ptr pr' = pk_rec_ptr pr"
  by (auto simp: PACKET_TX_PACKET_def serves_def Let_def split: if_splits)

lemma radio_packet_cases:
  assumes "serves (gw_send_pending g) (gw_msg g) pu"
  shows "radio_packet grp b p mem (g, pu) = ((g, pu), p) \<or>
    (\<exists>pu' k. gw_send_pending g = 0 \<and> radio_packet grp b p mem (g, pu) = ((g\<lparr>gw_msg := p, gw_send_pending := k\<rparr>, pu'), gw_msg g) \<and>
       serves k p pu' \<and> pk_rec_ptr pu' = pk_rec_ptr pu)"
proof -
  obtain pu' m' o' ok where tx: "UART_PACKET_TX_PACKET b p (pu, mem) = ((pu', m'), o', ok)" by (metis surj_pair)
  show ?thesis
  proof (cases "gw_send_pending g = 0 \<and> msg_group (mem p) = grp \<and> msg_type (mem p) = REPLY_HANDLER")
    case True
    then have "pk_state pu \<noteq> 1" using assms by (simp add: serves_def)
    note s = uart_tx_serves [OF tx this]
    have "radio_packet grp b p mem (g, pu) = ((g\<lparr>gw_msg := p, gw_send_pending := if ok \<noteq> 0 then 1 else 0\<rparr>, pu'), gw_msg g)"
      using True by (cases g) (simp add: radio_packet_def tx MOTE_GW_RX_PACKET_def Let_def)
    then show ?thesis using s True by blast
  qed (auto simp: radio_packet_def tx MOTE_GW_RX_PACKET_def)
qed

lemma serial_packet_cases:
  assumes "serves (gw_rfm_send_pending g) (gw_rfm_msg g) pr"
  shows "serial_packet b p mem (g, pr) = ((g, pr), p) \<or>
    (\<exists>pr' k. gw_rfm_send_pending g = 0 \<and> serial_packet b p mem (g, pr) = ((g\<lparr>gw_rfm_msg := p, gw_rfm_send_pending := k\<rparr>, pr'), gw_rfm_msg g) \<and>
       serves k p pr' \<and> pk_rec_ptr pr' = pk_rec_ptr pr)"
proof -
  obtain pr' m' o' ok where tx: "PACKET_TX_PACKET b p (pr, mem) = ((pr', m'), o', ok)" by (metis surj_pair)
  show ?thesis
  proof (cases "gw_rfm_send_pending g = 0")
    case True
    then have "pk_state pr \<noteq> 1" using assms by (simp add: serves_def)
    note s = packet_tx_serves [OF tx this]
    have "serial_packet b p mem (g, pr) = ((g\<lparr>gw_rfm_msg := p, gw_rfm_send_pending := if ok \<noteq> 0 then 1 else 0\<rparr>, pr'), gw_rfm_msg g)"
      using True by (cases g) (simp add: serial_packet_def tx MOTE_GW_SUB_UART_RX_PACKET_def Let_def)
    then show ?thesis using s True by blast
  qed (simp add: serial_packet_def tx MOTE_GW_SUB_UART_RX_PACKET_def)
qed

text \<open>When the layer that sends reports a byte taken.\<close>

lemma radio_taken_layer:
  "PACKET_TX_BYTE_READY (\<lambda>_ st. st) success (s, mem) = ((s', mem'), out, v) \<Longrightarrow>
    mem' = mem \<and> pk_rec_ptr s' = pk_rec_ptr s \<and> pk_send_ptr s' = pk_send_ptr s \<and>
    (pk_state s' = 1 \<longleftrightarrow> pk_state s = 1 \<and> \<not> (success = 0 \<or> pk_state s = 1 \<and> pk_state s' = 0))"
  by (auto simp: PACKET_TX_BYTE_READY_def Let_def split: if_splits)

lemma serial_taken_layer:
  "UART_PACKET_TX_BYTE_READY (\<lambda>_ st. st) success (s, mem) = ((s', mem'), out, v) \<Longrightarrow>
    mem' = mem \<and> pk_rec_ptr s' = pk_rec_ptr s \<and> pk_send_ptr s' = pk_send_ptr s \<and>
    (pk_state s' = 1 \<longleftrightarrow> pk_state s = 1 \<and> \<not> (success = 0 \<or> pk_state s = 1 \<and> pk_state s' = 0))"
  by (auto simp: UART_PACKET_TX_BYTE_READY_def Let_def split: if_splits)

lemma gateway_ok_serves:
  "gateway_ok (g, pr, pu, mem) \<longleftrightarrow>
     distinct (0 # gw_buffers (g, pr, pu, mem)) \<and> serves (gw_send_pending g) (gw_msg g) pu \<and>
     serves (gw_rfm_send_pending g) (gw_rfm_msg g) pr"
  by (auto simp: gateway_ok_def serves_def)

lemma serves_cong: "pk_state s' = 1 \<longleftrightarrow> pk_state s = 1 \<Longrightarrow> pk_send_ptr s' = pk_send_ptr s \<Longrightarrow> serves k q s' = serves k q s"
  by (auto simp: serves_def)

lemma serves_done:
  "serves k q s \<Longrightarrow> pk_state s' \<noteq> 1 \<Longrightarrow> serves (if q = pk_send_ptr s then 0 else k) q s'"
  by (auto simp: serves_def)

lemma radio_done_fields:
  "fst (MOTE_GW_TX_PACKET_DONE p g) = g\<lparr>gw_rfm_send_pending := if gw_rfm_msg g = p then 0 else gw_rfm_send_pending g\<rparr>"
  by (simp add: MOTE_GW_TX_PACKET_DONE_def)

lemma serial_done_fields:
  "fst (MOTE_GW_SUB_UART_TX_PACKET_DONE p g) = g\<lparr>gw_send_pending := if gw_msg g = p then 0 else gw_send_pending g\<rparr>"
  by (simp add: MOTE_GW_SUB_UART_TX_PACKET_DONE_def)

lemma gateway_step_ok: "gateway_step grp x x' \<Longrightarrow> gateway_ok x \<Longrightarrow> gateway_ok x' \<and> untouched x x' \<and> set (gw_buffers x') = set (gw_buffers x)"
proof (induction rule: gateway_step.induct)
  case (radio_byte err pr b g pu d mem pr' mem' out v gs)
  note layer = radio_byte_layer [OF radio_byte.hyps(2,1)]
  have pre: "distinct (0 # gw_buffers (g, pr, pu, mem))" and ok: "serves (gw_send_pending g) (gw_msg g) pu"
    "serves (gw_rfm_send_pending g) (gw_rfm_msg g) pr'"
    using radio_byte.prems serves_cong [OF layer(2,3)] by (auto simp: gateway_ok_serves)
  have keep: "gateway_ok x \<and> untouched (g, pr, pu, mem) x \<and> set (gw_buffers x) = set (gw_buffers (g, pr, pu, mem))"
    if "gs = (g, pu)" "pk_rec_ptr pr' = pk_rec_ptr pr" "x = (fst gs, pr', snd gs, mem')" for x
    using pre ok that by (simp add: gateway_ok_serves gw_buffers_def untouched_def layer(1))
  show ?case
  proof (cases "completes err pr")
    case True
    from radio_packet_cases [OF ok(1), of grp b "pk_rec_ptr pr" mem']
    consider (kept) "radio_packet grp b (pk_rec_ptr pr) mem' (g, pu) = ((g, pu), pk_rec_ptr pr)"
      | (taken) q k where "gw_send_pending g = 0" "radio_packet grp b (pk_rec_ptr pr) mem' (g, pu) = ((g\<lparr>gw_msg := pk_rec_ptr pr, gw_send_pending := k\<rparr>, q), gw_msg g)"
        "serves k (pk_rec_ptr pr) q" "pk_rec_ptr q = pk_rec_ptr pu" by blast
    then show ?thesis
    proof cases
      case kept
      then show ?thesis using layer(4) True radio_byte.hyps(3) by (intro keep) (simp_all split: if_splits)
    next
      case taken
      have "gs = (g\<lparr>gw_msg := pk_rec_ptr pr, gw_send_pending := k\<rparr>, q)" "pk_rec_ptr pr' = gw_msg g"
        using taken(2) True layer(4) pre radio_byte.hyps(3) by (simp_all add: gw_buffers_def)
      then show ?thesis using taken pre ok
        by (simp add: gateway_ok_serves gw_buffers_def untouched_def layer(1) insert_commute)
    qed
  next
    case False
    then show ?thesis using layer(4) radio_byte.hyps(3) by (intro keep) simp_all
  qed
next
  case (serial_byte b g pr d pu mem pu' mem' out v gs)
  note layer = serial_byte_layer [OF serial_byte.hyps(1)]
  have pre: "distinct (0 # gw_buffers (g, pr, pu, mem))" and ok: "serves (gw_send_pending g) (gw_msg g) pu'"
    "serves (gw_rfm_send_pending g) (gw_rfm_msg g) pr"
    using serial_byte.prems serves_cong [OF layer(2,3)] by (auto simp: gateway_ok_serves)
  have keep: "gateway_ok x \<and> untouched (g, pr, pu, mem) x \<and> set (gw_buffers x) = set (gw_buffers (g, pr, pu, mem))"
    if "gs = (g, pr)" "pk_rec_ptr pu' = pk_rec_ptr pu" "x = (fst gs, snd gs, pu', mem')" for x
    using pre ok that by (simp add: gateway_ok_serves gw_buffers_def untouched_def layer(1))
  show ?case
  proof (cases "completes 0 pu")
    case True
    from serial_packet_cases [OF ok(2), of b "pk_rec_ptr pu" mem']
    consider (kept) "serial_packet b (pk_rec_ptr pu) mem' (g, pr) = ((g, pr), pk_rec_ptr pu)"
      | (taken) q k where "gw_rfm_send_pending g = 0" "serial_packet b (pk_rec_ptr pu) mem' (g, pr) = ((g\<lparr>gw_rfm_msg := pk_rec_ptr pu, gw_rfm_send_pending := k\<rparr>, q), gw_rfm_msg g)"
        "serves k (pk_rec_ptr pu) q" "pk_rec_ptr q = pk_rec_ptr pr" by blast
    then show ?thesis
    proof cases
      case kept
      then show ?thesis using layer(4) True serial_byte.hyps(2) by (intro keep) (simp_all split: if_splits)
    next
      case taken
      have "gs = (g\<lparr>gw_rfm_msg := pk_rec_ptr pu, gw_rfm_send_pending := k\<rparr>, q)" "pk_rec_ptr pu' = gw_rfm_msg g"
        using taken(2) True layer(4) pre serial_byte.hyps(2) by (simp_all add: gw_buffers_def)
      then show ?thesis using taken pre ok
        by (simp add: gateway_ok_serves gw_buffers_def untouched_def layer(1) insert_commute)
    qed
  next
    case False
    then show ?thesis using layer(4) serial_byte.hyps(2) by (intro keep) simp_all
  qed
next
  case (radio_taken success pr mem pr' mem' out v g' g pu)
  note layer = radio_taken_layer [OF radio_taken.hyps(1)]
  let ?done = "success = 0 \<or> pk_state pr = 1 \<and> pk_state pr' = 0"
  have pre: "distinct (0 # gw_buffers (g, pr, pu, mem))" "serves (gw_send_pending g) (gw_msg g) pu"
    "serves (gw_rfm_send_pending g) (gw_rfm_msg g) pr" using radio_taken.prems by (auto simp: gateway_ok_serves)
  have same: "mem' = mem" "pk_rec_ptr pr' = pk_rec_ptr pr" "pk_send_ptr pr' = pk_send_ptr pr" using layer by auto
  have "serves (gw_rfm_send_pending g') (gw_rfm_msg g') pr'"
  proof (cases ?done)
    case True
    then show ?thesis using serves_done [OF pre(3), of pr'] layer unfolding radio_taken.hyps(2) radio_done_fields by simp
  next
    case False
    have "g' = g" unfolding radio_taken.hyps(2) by (rule if_not_P [OF False])
    moreover have "pk_state pr' = 1 \<longleftrightarrow> pk_state pr = 1" using layer False by blast
    ultimately show ?thesis using pre(3) by (simp add: serves_cong [OF _ same(3)])
  qed
  moreover have "gw_msg g' = gw_msg g" "gw_rfm_msg g' = gw_rfm_msg g" "gw_send_pending g' = gw_send_pending g"
    unfolding radio_taken.hyps(2) radio_done_fields by simp_all
  ultimately show ?case using pre(1,2) by (simp add: gateway_ok_serves gw_buffers_def untouched_def same)
next
  case (serial_taken success pu mem pu' mem' out v g' g pr)
  note layer = serial_taken_layer [OF serial_taken.hyps(1)]
  let ?done = "success = 0 \<or> pk_state pu = 1 \<and> pk_state pu' = 0"
  have pre: "distinct (0 # gw_buffers (g, pr, pu, mem))" "serves (gw_send_pending g) (gw_msg g) pu"
    "serves (gw_rfm_send_pending g) (gw_rfm_msg g) pr" using serial_taken.prems by (auto simp: gateway_ok_serves)
  have same: "mem' = mem" "pk_rec_ptr pu' = pk_rec_ptr pu" "pk_send_ptr pu' = pk_send_ptr pu" using layer by auto
  have "serves (gw_send_pending g') (gw_msg g') pu'"
  proof (cases ?done)
    case True
    then show ?thesis using serves_done [OF pre(2), of pu'] layer unfolding serial_taken.hyps(2) serial_done_fields by simp
  next
    case False
    have "g' = g" unfolding serial_taken.hyps(2) by (rule if_not_P [OF False])
    moreover have "pk_state pu' = 1 \<longleftrightarrow> pk_state pu = 1" using layer False by blast
    ultimately show ?thesis using pre(2) by (simp add: serves_cong [OF _ same(3)])
  qed
  moreover have "gw_msg g' = gw_msg g" "gw_rfm_msg g' = gw_rfm_msg g" "gw_rfm_send_pending g' = gw_rfm_send_pending g"
    unfolding serial_taken.hyps(2) serial_done_fields by simp_all
  ultimately show ?case using pre(1,3) by (simp add: gateway_ok_serves gw_buffers_def untouched_def same)
qed

definition gateway_start :: "ptr \<Rightarrow> ptr \<Rightarrow> ptr \<Rightarrow> ptr \<Rightarrow> mote_gw \<Rightarrow> packet \<Rightarrow> packet \<Rightarrow> memory \<Rightarrow> gateway" where
  "gateway_start data rfm_data rbuf ubuf g pr pu mem =
     (fst (MOTE_GW_INIT data rfm_data g), fst (fst (PACKET_INIT rbuf (pr, mem))), fst (fst (UART_PACKET_INIT ubuf (pu, mem))), mem)"

lemma gateway_start_ok:
  "distinct [0, data, rfm_data, rbuf, ubuf] \<Longrightarrow> gateway_ok (gateway_start data rfm_data rbuf ubuf g pr pu mem) \<and>
    set (gw_buffers (gateway_start data rfm_data rbuf ubuf g pr pu mem)) = {data, rfm_data, rbuf, ubuf}"
  by (auto simp: gateway_start_def gateway_ok_def gw_buffers_def MOTE_GW_INIT_def PACKET_INIT_def UART_PACKET_INIT_def)

lemma gateway_reachable:
  assumes "(gateway_step grp)\<^sup>*\<^sup>* x y" and "gateway_ok x"
  shows "gateway_ok y \<and> set (gw_buffers y) = set (gw_buffers x)"
  using assms by (induction rule: rtranclp_induct) (use gateway_step_ok in blast)+

text \<open>C13: However bytes arrive on the gateway's two sides and are taken, in whatever order, and whether a message is
  passed on, refused or dropped: the four message buffers are only exchanged and stay four different ones, one for
  each packet layer to receive into and one for each direction; the flag of a direction is set just while the layer
  is sending the buffer of this direction, so it is not left set behind; and with each step what is being sent
  remains the same buffer with the same contents.\<close>

theorem gateway_buffers:
  assumes "distinct [0, data, rfm_data, rbuf, ubuf]"
    and "(gateway_step grp)\<^sup>*\<^sup>* (gateway_start data rfm_data rbuf ubuf g0 pr0 pu0 mem0) x"
    and "gateway_step grp x (g, pr, pu, mem)"
  shows "distinct [gw_msg g, gw_rfm_msg g, pk_rec_ptr pr, pk_rec_ptr pu] \<and>
    {gw_msg g, gw_rfm_msg g, pk_rec_ptr pr, pk_rec_ptr pu} = {data, rfm_data, rbuf, ubuf} \<and>
    (gw_send_pending g \<noteq> 0 \<longleftrightarrow> pk_state pu = 1) \<and> (gw_rfm_send_pending g \<noteq> 0 \<longleftrightarrow> pk_state pr = 1) \<and>
    untouched x (g, pr, pu, mem)"
proof -
  have "gateway_ok x" "set (gw_buffers x) = {data, rfm_data, rbuf, ubuf}"
    using gateway_reachable [OF assms(2)] gateway_start_ok [OF assms(1)] by auto
  with gateway_step_ok [OF assms(3)] show ?thesis by (simp add: gateway_ok_def gw_buffers_def)
qed

text \<open>A gateway that has just started.\<close>

definition new_gateway :: gateway where
  "new_gateway =
     (\<lparr>gw_msg = 1, gw_rfm_msg = 2, gw_send_pending = 0, gw_rfm_send_pending = 0\<rparr>,
      \<lparr>pk_state = 0, pk_count = 0, pk_rec_ptr = 3, pk_send_ptr = 0\<rparr>,
      \<lparr>pk_state = 0, pk_count = 0, pk_rec_ptr = 4, pk_send_ptr = 0\<rparr>, \<lambda>_. replicate 35 0)"

theorem gateway_buffers_witness:
  "\<exists>g pr pu mem. gateway_step 7 new_gateway (g, pr, pu, mem) \<and> pk_state pu = 5 \<and>
     distinct [gw_msg g, gw_rfm_msg g, pk_rec_ptr pr, pk_rec_ptr pu] \<and> untouched new_gateway (g, pr, pu, mem)"
proof -
  let ?g = "\<lparr>gw_msg = 1, gw_rfm_msg = 2, gw_send_pending = 0, gw_rfm_send_pending = 0\<rparr>"
  let ?pr = "\<lparr>pk_state = 0, pk_count = 0, pk_rec_ptr = 3, pk_send_ptr = 0\<rparr>"
  let ?pu = "\<lparr>pk_state = 0, pk_count = 0, pk_rec_ptr = 4, pk_send_ptr = 0\<rparr>"
  let ?pu' = "\<lparr>pk_state = 5, pk_count = 1, pk_rec_ptr = 4, pk_send_ptr = 0\<rparr>"
  let ?mem = "\<lambda>_. replicate 35 0" and ?mem' = "(\<lambda>_. replicate 35 0)(4 := (replicate 35 0)[0 := 6])"
  have start: "gateway_start 1 2 3 4 ?g ?pr ?pu ?mem = new_gateway"
    by (simp add: new_gateway_def gateway_start_def MOTE_GW_INIT_def PACKET_INIT_def UART_PACKET_INIT_def)
  have "UART_PACKET_RX_BYTE_READY (\<lambda>p (s, m). ((s, m), snd (serial_packet 1 p m (?g, ?pr)))) 6 0 (?pu, ?mem)
      = ((?pu', ?mem'), [], 1)"
    by (simp add: UART_PACKET_RX_BYTE_READY_def)
  from gateway_step.serial_byte [OF this refl, of 7]
  have step: "gateway_step 7 new_gateway (?g, ?pr, ?pu', ?mem')"
    by (simp add: new_gateway_def completes_def)
  have "(gateway_step 7)\<^sup>*\<^sup>* (gateway_start 1 2 3 4 ?g ?pr ?pu ?mem) new_gateway"
    unfolding start by (rule rtranclp.rtrancl_refl)
  from gateway_buffers [OF _ this step] step show ?thesis by (intro exI conjI) simp_all
qed

section \<open>A reply on its way to the host\<close>

text \<open>The whole reply, over both layers: received over the radio at \<open>p\<close> it is sent, and the host's side of the line is
  shown it byte for byte.\<close>

theorem reply_reaches_host:
  assumes "gw_send_pending g = 0" "msg_group (mem p) = grp" "msg_type (mem p) = REPLY_HANDLER"
    and "pk_state pu = 0" "length (mem p) = sizeof_TOS_Msg" "b \<noteq> 0"
    and "pk_state r = 0" "length (rmem (pk_rec_ptr r)) = sizeof_TOS_Msg"
  shows "\<exists>g' pu' d ds st1. radio_packet grp b p mem (g, pu) = ((g', pu'), gw_msg g) \<and> gw_send_pending g' = 1 \<and>
    spool (taken_with (UART_PACKET_TX_BYTE_READY sent 1)) 34 (pu', mem) = (st1, ds) \<and>
    receive_with (UART_PACKET_RX_BYTE_READY upcall) (d # ds) (r, rmem) = uart_deliver upcall (with_message (mem p) (r, rmem))"
proof -
  obtain d st0 ds st1 where *: "UART_PACKET_TX_PACKET b p (pu, mem) = (st0, [PACKET_SUB_TX_BYTES d], 1)"
    "spool (taken_with (UART_PACKET_TX_BYTE_READY sent 1)) 34 st0 = (st1, ds)"
    "receive_with (UART_PACKET_RX_BYTE_READY upcall) (d # ds) (r, rmem) = uart_deliver upcall (with_message (mem p) (r, rmem))"
    using uart_message_roundtrip [where s = pu and mem = mem and msg = p and accepted = b and r = r and rmem = rmem] assms(4-) by blast
  moreover obtain pu' where "st0 = (pu', mem)"
    using *(1) by (auto simp: UART_PACKET_TX_PACKET_def Let_def split: if_splits)
  ultimately show ?thesis using assms(1-3) by (auto simp: radio_packet_def MOTE_GW_RX_PACKET_def Let_def)
qed

end
