(* ===== verification/GwServer.thy ===== *)
theory GwServer
  imports Prelude
begin

text \<open>
  The server on the PC behind the gateway mote, \<open>demo/server.c\<close>, with what it uses of \<open>demo/libmote-gw.c\<close>
  and \<open>demo/uart.c\<close>. Clients connect and register the number of a mote; what they send goes to the serial line,
  and a packet from the line goes to the client registered for its address, or to all.

  A connection, and the serial line, is the list of the pieces in which its bytes arrive; it ends, or fails, with
  the list. A packet is its 35 bytes. An access outside a table is \<open>None\<close>. Which sockets can be written to is an
  argument. A function runs undisturbed where it holds the lock of the table.

  The lemmas: packets are received whole however they are cut, the table refines a map from numbers to
  clients, the search for the start of a packet finds it, and how two threads disturb each other.
\<close>

section \<open>Streams\<close>

definition AM_PKT_LEN :: nat where "AM_PKT_LEN = 35"
definition AM_CLIENT_REG :: u8 where "AM_CLIENT_REG = 0xff"
definition BAD_SOCKET :: int where "BAD_SOCKET = - 1"
definition ADDR_TABLE_SIZE :: nat where "ADDR_TABLE_SIZE = 256"

type_synonym stream = "u8 list list"

text \<open>\<open>read\<close> of a positive number of bytes.\<close>

fun sock_read :: "nat \<Rightarrow> stream \<Rightarrow> u8 list \<times> stream" where
  "sock_read n [] = ([], [])"
| "sock_read n (c # cs) = (take n c, if length c \<le> n then cs else drop n c # cs)"

function gw_read_all :: "nat \<Rightarrow> stream \<Rightarrow> u8 list \<times> stream" where
  "gw_read_all n cs =
     (case sock_read n cs of (b, cs) \<Rightarrow>
        if b = [] then ([], cs)
        else if length b < n then (case gw_read_all (n - length b) cs of (r, cs) \<Rightarrow> (b @ r, cs))
        else (b, cs))"
  by auto
termination by (relation "measure fst") auto

declare gw_read_all.simps [simp del]

text \<open>The buffer keeps what is not overwritten.\<close>

definition recv_tos_msg :: "u8 list \<Rightarrow> stream \<Rightarrow> u8 list \<times> bool \<times> stream" where
  "recv_tos_msg buf cs =
     (case gw_read_all AM_PKT_LEN cs of (b, cs) \<Rightarrow> (b @ drop (length b) buf, length b = AM_PKT_LEN, cs))"

definition recv_uart :: "u8 list \<Rightarrow> stream \<Rightarrow> u8 list \<times> bool \<times> stream" where
  "recv_uart buf cs =
     (case gw_read_all AM_PKT_LEN cs of (b, cs) \<Rightarrow> (b @ drop (length b) buf, length b = AM_PKT_LEN, cs))"

text \<open>The group is set in the caller's packet. The second component is what is written and to where.\<close>

definition send_tos_msg :: "u8 \<Rightarrow> (int \<Rightarrow> bool) \<Rightarrow> int \<Rightarrow> u8 list \<Rightarrow> u8 list \<times> (int \<times> u8 list) list \<times> bool" where
  "send_tos_msg grp alive socket m =
     (let m = m[2 := grp] in if alive socket then (m, [(socket, m)], True) else (m, [], False))"

section \<open>The table of clients\<close>

definition table_at :: "'a list \<Rightarrow> int \<Rightarrow> 'a option" where
  "table_at t i = (if 0 \<le> i \<and> nat i < length t then Some (t ! nat i) else None)"

fun first_at :: "int \<Rightarrow> int \<Rightarrow> int list \<Rightarrow> int" where
  "first_at socket i [] = - 1"
| "first_at socket i (s # ss) = (if s = socket then i else first_at socket (i + 1) ss)"

definition get_mote_id :: "int \<Rightarrow> int list \<Rightarrow> int" where
  "get_mote_id socket t = first_at socket 0 t"

text \<open>\<open>m\<close> is the first packet of a connection, if one came whole.\<close>

definition am_client_reg ::
  "u8 \<Rightarrow> (int \<Rightarrow> bool) \<Rightarrow> int \<Rightarrow> u8 list option \<Rightarrow> int list \<Rightarrow> (int list \<times> (int \<times> u8 list) list \<times> bool) option" where
  "am_client_reg grp alive socket m t =
     (case m of
        None \<Rightarrow> Some (t, [], False)
      | Some am_reg \<Rightarrow>
          if am_reg ! 1 \<noteq> AM_CLIENT_REG then Some (t, [], False)
          else
            (let mote_id = sint (am_reg ! 3)
             in case table_at t mote_id of
                  None \<Rightarrow> None
                | Some s \<Rightarrow>
                    if s \<noteq> BAD_SOCKET then Some (t, [], False)
                    else
                      (case send_tos_msg grp alive socket am_reg of (_, out, ok) \<Rightarrow>
                         if ok then Some (t[nat mote_id := socket], out, True) else Some (t, out, False))))"

definition am_client_dereg :: "int \<Rightarrow> int list \<Rightarrow> int list" where
  "am_client_dereg socket t =
     (let mote_id = get_mote_id socket t
      in if - 1 < mote_id \<and> mote_id < int ADDR_TABLE_SIZE then t[nat mote_id := BAD_SOCKET] else t)"

section \<open>From the line to the clients\<close>

primrec send_to_all :: "u8 \<Rightarrow> (int \<Rightarrow> bool) \<Rightarrow> int list \<Rightarrow> u8 list \<Rightarrow> u8 list \<times> (int \<times> u8 list) list" where
  "send_to_all grp alive [] pkt = (pkt, [])"
| "send_to_all grp alive (s # ss) pkt =
     (if s = BAD_SOCKET then send_to_all grp alive ss pkt
      else
        (case send_tos_msg grp alive s pkt of (pkt, out, _) \<Rightarrow>
           case send_to_all grp alive ss pkt of (pkt, out') \<Rightarrow> (pkt, out @ out')))"

definition route_packet :: "u8 \<Rightarrow> (int \<Rightarrow> bool) \<Rightarrow> int list \<Rightarrow> u8 list \<Rightarrow> (u8 list \<times> (int \<times> u8 list) list) option" where
  "route_packet grp alive t pkt =
     (if pkt ! 0 = TOS_BCAST_ADDR then Some (send_to_all grp alive t pkt)
      else
        (case table_at t (sint (pkt ! 0)) of
           None \<Rightarrow> None
         | Some s \<Rightarrow>
             if s = BAD_SOCKET then Some (pkt, [])
             else (case send_tos_msg grp alive s pkt of (pkt, out, _) \<Rightarrow> Some (pkt, out))))"

text \<open>One round of the loop of \<open>uart_listener\<close>: an error is reported, and the buffer is passed on all the same.\<close>

definition listener_round ::
  "u8 \<Rightarrow> (int \<Rightarrow> bool) \<Rightarrow> int list \<Rightarrow> u8 list \<times> stream \<Rightarrow> ((u8 list \<times> stream) \<times> (int \<times> u8 list) list) option" where
  "listener_round grp alive t st =
     (case st of (pkt, cs) \<Rightarrow> case recv_uart pkt cs of (pkt, _, cs) \<Rightarrow>
        case route_packet grp alive t pkt of None \<Rightarrow> None | Some (pkt, out) \<Rightarrow> Some ((pkt, cs), out))"

text \<open>Where in a packet the first byte equal to the group is, from the third one on.\<close>

definition group_offset :: "u8 \<Rightarrow> u8 list \<Rightarrow> nat option" where
  "group_offset grp pkt = find (\<lambda>i. sint (pkt ! i) = uint grp) [2..<AM_PKT_LEN]"

text \<open>The line was drained before. The result is whether the start of a packet is thought to be found.\<close>

primrec sync_tries :: "nat \<Rightarrow> u8 \<Rightarrow> u8 list \<Rightarrow> stream \<Rightarrow> bool \<times> stream" where
  "sync_tries 0 grp pkt cs = (False, cs)"
| "sync_tries (Suc j) grp pkt cs =
     (case recv_uart pkt cs of (pkt, ok, cs) \<Rightarrow>
        if \<not> ok then (False, cs)
        else if pkt ! 2 = grp then (True, cs)
        else
          (case group_offset grp pkt of
             Some i \<Rightarrow> (True, snd (sock_read (i - 2) cs))
           | None \<Rightarrow> sync_tries j grp pkt cs))"

definition uart_sync :: "u8 \<Rightarrow> u8 list \<Rightarrow> stream \<Rightarrow> bool \<times> stream" where
  "uart_sync grp pkt cs = sync_tries 4 grp pkt cs"

section \<open>From the clients to the line\<close>

lemma sock_read_length: "length (concat (snd (sock_read n cs))) + length (fst (sock_read n cs)) = length (concat cs)"
  by (cases cs) auto

lemma gw_read_all_length: "length (concat (snd (gw_read_all n cs))) + length (fst (gw_read_all n cs)) = length (concat cs)"
proof (induction n cs rule: gw_read_all.induct)
  case (1 n cs)
  obtain b cs' where r: "sock_read n cs = (b, cs')" by force
  then have l: "length (concat cs') + length b = length (concat cs)" using sock_read_length [of n cs] by simp
  show ?case
  proof (cases "b \<noteq> [] \<and> length b < n")
    case True
    obtain q cs'' where q: "gw_read_all (n - length b) cs' = (q, cs'')" by force
    have "gw_read_all n cs = (b @ q, cs'')" using True r q by (subst gw_read_all.simps) simp
    then show ?thesis using 1 [OF r [symmetric]] True q l by simp
  next
    case False
    then show ?thesis using r l by (subst (1 2) gw_read_all.simps) auto
  qed
qed

lemma recv_progress: "(p, True, cs') = recv_tos_msg pkt cs \<Longrightarrow> length (concat cs') < length (concat cs)"
  using gw_read_all_length [of AM_PKT_LEN cs] by (auto simp: recv_tos_msg_def AM_PKT_LEN_def split: prod.splits)

text \<open>The loop of \<open>do_chld\<close> for a registered client: the packets written to the line, of which \<open>uart\<close> tells
  whether this succeeds.\<close>

function serve_client :: "(u8 list \<Rightarrow> bool) \<Rightarrow> u8 list \<Rightarrow> stream \<Rightarrow> u8 list list" where
  "serve_client uart pkt cs =
     (case recv_tos_msg pkt cs of (pkt, ok, cs') \<Rightarrow>
        if ok then if uart pkt then pkt # serve_client uart pkt cs' else [] else [])"
  by auto
termination by (relation "measure (\<lambda>(_, _, cs). length (concat cs))") (auto dest: recv_progress)

declare serve_client.simps [simp del]

section \<open>Packets in pieces\<close>

text \<open>A piece is what one call of \<open>read\<close> can return, so it has some bytes.\<close>

definition pieces :: "stream \<Rightarrow> bool" where "pieces cs \<longleftrightarrow> (\<forall>c \<in> set cs. c \<noteq> [])"

lemma sock_read_pieces:
  "pieces cs \<Longrightarrow> sock_read n cs = (b, cs') \<Longrightarrow> pieces cs' \<and> concat cs = b @ concat cs' \<and> length b \<le> n \<and> (0 < n \<longrightarrow> b = [] \<longrightarrow> cs = [])"
  by (cases cs) (auto simp: pieces_def split: if_splits)

lemma gw_read_all_pieces:
  assumes "pieces cs" and "0 < n"
  shows "\<exists>cs'. gw_read_all n cs = (take n (concat cs), cs') \<and> concat cs' = drop n (concat cs) \<and> pieces cs'"
  using assms
proof (induction n cs rule: gw_read_all.induct)
  case (1 n cs)
  obtain b cs1 where r: "sock_read n cs = (b, cs1)" by force
  then have b: "pieces cs1" "concat cs = b @ concat cs1" "length b \<le> n" "b = [] \<longrightarrow> cs = []"
    using sock_read_pieces [OF 1(2) r] 1(3) by auto
  consider "b = []" | "b \<noteq> []" "length b < n" | "b \<noteq> []" "length b = n" using b(3) by linarith
  then show ?case
  proof cases
    case 1
    then have "cs = []" using b(4) by simp
    then show ?thesis by (simp add: gw_read_all.simps pieces_def)
  next
    case 2
    obtain cs' where *: "gw_read_all (n - length b) cs1 = (take (n - length b) (concat cs1), cs')"
      "concat cs' = drop (n - length b) (concat cs1)" "pieces cs'"
      using "1.IH" [OF r [symmetric] 2 b(1)] 2(2) by auto
    then have "gw_read_all n cs = (b @ take (n - length b) (concat cs1), cs')"
      using r 2 by (subst gw_read_all.simps) simp
    then show ?thesis using * b(2) 2(2) by simp
  next
    case 3
    then have "gw_read_all n cs = (b, cs1)" using r by (subst gw_read_all.simps) simp
    then show ?thesis using b 3 by simp
  qed
qed

lemma recv_whole:
  assumes "pieces cs" and "AM_PKT_LEN \<le> length (concat cs)" and "length buf = AM_PKT_LEN"
  obtains cs' where "recv_tos_msg buf cs = (take AM_PKT_LEN (concat cs), True, cs')"
    and "concat cs' = drop AM_PKT_LEN (concat cs)" and "pieces cs'"
proof -
  have "0 < AM_PKT_LEN" by (simp add: AM_PKT_LEN_def)
  from gw_read_all_pieces [OF assms(1) this] assms show ?thesis by (auto simp: recv_tos_msg_def intro: that)
qed

lemma recv_short:
  assumes "pieces cs" and "length (concat cs) < AM_PKT_LEN"
  shows "fst (snd (recv_tos_msg buf cs)) = False"
proof -
  have "0 < AM_PKT_LEN" by (simp add: AM_PKT_LEN_def)
  from gw_read_all_pieces [OF assms(1) this] assms show ?thesis by (auto simp: recv_tos_msg_def split: prod.split)
qed

lemma recv_uart_eq: "recv_uart = recv_tos_msg"
  by (intro ext) (simp add: recv_uart_def recv_tos_msg_def)

text \<open>What a registered client sends is written to the line packet by packet, however its bytes arrive, and
  the beginning of a packet that never becomes whole is not.\<close>

theorem client_packets_relayed:
  assumes "pieces cs" and "concat cs = concat ms @ rest" and "\<forall>m \<in> set ms. length m = AM_PKT_LEN"
    and "length rest < AM_PKT_LEN" and "length pkt = AM_PKT_LEN"
  shows "serve_client (\<lambda>_. True) pkt cs = ms"
  using assms
proof (induction ms arbitrary: cs pkt)
  case Nil
  then have "length (concat cs) < AM_PKT_LEN" by simp
  from recv_short [OF Nil(1) this, of pkt] show ?case by (subst serve_client.simps) (auto split: prod.split)
next
  case (Cons m ms)
  have "AM_PKT_LEN \<le> length (concat cs)" using Cons.prems(2,3) by simp
  with Cons.prems(1,5) obtain cs' where *: "recv_tos_msg pkt cs = (take AM_PKT_LEN (concat cs), True, cs')"
    "concat cs' = drop AM_PKT_LEN (concat cs)" "pieces cs'" using recv_whole by metis
  have "take AM_PKT_LEN (concat cs) = m" "concat cs' = concat ms @ rest" using * Cons.prems(2,3) by simp_all
  moreover from this have "serve_client (\<lambda>_. True) m cs' = ms"
    using Cons.prems *(3) by (intro Cons.IH) auto
  ultimately show ?case using *(1) by (subst serve_client.simps) simp
qed

section \<open>Finding the start of a packet\<close>

text \<open>Reading starts \<open>k\<close> bytes before the start of a packet, and no byte before its group looks like it. If
  the bytes that are to be skipped arrive in one piece, packets are read from their start again.\<close>

theorem sync_finds_start:
  assumes "pieces cs" and "length pkt = AM_PKT_LEN" and "AM_PKT_LEN \<le> length (concat cs)"
    and k: "0 < k" "k + 2 < AM_PKT_LEN" and here: "sint (concat cs ! (k + 2)) = uint grp"
    and before: "\<And>i. 2 \<le> i \<Longrightarrow> i < k + 2 \<Longrightarrow> concat cs ! i \<noteq> grp"
    and piece: "\<And>c ds. concat (c # ds) = drop AM_PKT_LEN (concat cs) \<Longrightarrow> k \<le> length c"
    and more: "AM_PKT_LEN < length (concat cs)"
  shows "\<exists>cs'. uart_sync grp pkt cs = (True, cs') \<and> concat cs' = drop (AM_PKT_LEN + k) (concat cs)"
proof -
  obtain cs1 where r: "recv_uart pkt cs = (take AM_PKT_LEN (concat cs), True, cs1)"
    "concat cs1 = drop AM_PKT_LEN (concat cs)" "pieces cs1"
    using recv_whole [OF assms(1,3,2)] unfolding recv_uart_eq by metis
  let ?p = "take AM_PKT_LEN (concat cs)"
  have ne: "sint (?p ! i) \<noteq> uint grp" if "2 \<le> i" "i < k + 2" for i
  proof
    assume "sint (?p ! i) = uint grp"
    then have "word_of_int (sint (?p ! i)) = (word_of_int (uint grp) :: u8)" by simp
    then have "?p ! i = grp" by simp
    then show False using before [OF that] that k(2) by simp
  qed
  have "group_offset grp ?p = Some (k + 2)"
    unfolding group_offset_def find_Some_iff
    using k here ne by (intro exI [of _ k]) (auto simp del: upt_Suc)
  moreover have "?p ! 2 \<noteq> grp" using before [of 2] k by simp
  moreover obtain c ds where c: "cs1 = c # ds" using r(2) more by (cases cs1) auto
  moreover have "k \<le> length c" using piece [of c ds] r(2) c by simp
  then have "concat (snd (sock_read k cs1)) = drop k (concat cs1)" using c by auto
  then have "concat (snd (sock_read k cs1)) = drop (AM_PKT_LEN + k) (concat cs)" by (simp add: r(2) add.commute)
  moreover have "uart_sync grp pkt cs = (True, snd (sock_read k cs1))"
    using r(1) calculation(1,2) by (simp add: uart_sync_def numeral_eq_Suc)
  ultimately show ?thesis by blast
qed

section \<open>The table as a map\<close>

definition clients :: "int list \<Rightarrow> nat \<rightharpoonup> int" where
  "clients t i = (if i < length t \<and> t ! i \<noteq> BAD_SOCKET then Some (t ! i) else None)"

lemma first_at_bounds:
  "first_at s i ss = - 1 \<and> s \<notin> set ss \<or>
   (\<exists>k<length ss. first_at s i ss = i + int k \<and> ss ! k = s \<and> (\<forall>j<k. ss ! j \<noteq> s))"
proof (induction ss arbitrary: i)
  case (Cons x xs)
  show ?case
  proof (cases "x = s")
    case False
    from Cons [of "i + 1"] show ?thesis
    proof (elim disjE exE conjE)
      fix k assume k: "k < length xs" "first_at s (i + 1) xs = i + 1 + int k" "xs ! k = s" "\<forall>j<k. xs ! j \<noteq> s"
      then show ?thesis using False
        by (intro disjI2 exI [of _ "Suc k"]) (auto simp: nth_Cons split: nat.split)
    qed (use False in auto)
  qed (auto intro!: exI [of _ 0])
qed simp

lemma table_at_nat: "i < length t \<Longrightarrow> table_at t (int i) = Some (t ! i)"
  by (simp add: table_at_def)

lemma dereg_at: "first_at s 0 t = int k \<Longrightarrow> k < ADDR_TABLE_SIZE \<Longrightarrow> am_client_dereg s t = t[k := BAD_SOCKET]"
  by (simp add: am_client_dereg_def get_mote_id_def Let_def)

text \<open>The specification of a departure: of the numbers for which the socket is registered, the smallest one
  becomes free. A socket that is registered once only takes its own number with it.\<close>

definition departs :: "int \<Rightarrow> (nat \<rightharpoonup> int) \<Rightarrow> nat \<rightharpoonup> int" where
  "departs s M = (\<lambda>i. if M i = Some s \<and> (\<forall>j<i. M j \<noteq> Some s) then None else M i)"

lemma departs_once:
  assumes "M k = Some s" and "\<And>j. M j = Some s \<Longrightarrow> j = k"
  shows "departs s M = M(k := None)"
proof
  fix i
  show "departs s M i = (M(k := None)) i"
  proof (cases "i = k")
    case True
    have "\<forall>j<k. M j \<noteq> Some s" using assms(2) by (metis less_irrefl)
    then show ?thesis unfolding True using assms(1) by (simp add: departs_def)
  next
    case False
    then have "M i \<noteq> Some s" using assms(2) by metis
    then show ?thesis using False by (simp add: departs_def)
  qed
qed

lemma clients_Some: "clients t i = Some x \<longleftrightarrow> i < length t \<and> t ! i = x \<and> x \<noteq> BAD_SOCKET"
  by (auto simp: clients_def)

lemma dereg_clients:
  assumes len: "length t = ADDR_TABLE_SIZE" and s: "s \<noteq> BAD_SOCKET"
  shows "length (am_client_dereg s t) = ADDR_TABLE_SIZE \<and> clients (am_client_dereg s t) = departs s (clients t)"
  using first_at_bounds [of s 0 t]
proof (elim disjE exE conjE)
  assume "first_at s 0 t = - 1" "s \<notin> set t"
  then have "clients t i \<noteq> Some s" for i by (auto simp: clients_Some)
  then have "departs s (clients t) = clients t" by (simp add: departs_def)
  moreover have "am_client_dereg s t = t"
    using \<open>first_at s 0 t = - 1\<close> by (simp add: am_client_dereg_def get_mote_id_def)
  ultimately show ?thesis using len by simp
next
  fix k assume k: "k < length t" "first_at s 0 t = 0 + int k" "t ! k = s" "\<forall>j<k. t ! j \<noteq> s"
  have d: "am_client_dereg s t = t[k := BAD_SOCKET]" using k len by (intro dereg_at) simp_all
  have at: "clients t j \<noteq> Some s" if "j < k" for j using k(4) that by (simp add: clients_Some)
  have "clients t k = Some s" using k s by (simp add: clients_Some)
  have "clients (t[k := BAD_SOCKET]) i = departs s (clients t) i" for i
  proof -
    consider "i = k" | "i < k" | "k < i" by linarith
    then show ?thesis
    proof cases
      case 1
      then show ?thesis using at \<open>clients t k = Some s\<close> k(1) by (simp add: departs_def) (simp add: clients_def)
    next
      case 2
      then show ?thesis using at [OF 2] by (simp add: departs_def) (simp add: clients_def)
    next
      case 3
      then have "departs s (clients t) i = clients t i" using \<open>clients t k = Some s\<close> by (auto simp: departs_def)
      then show ?thesis using 3 by (simp add: clients_def)
    qed
  qed
  then show ?thesis using len by (simp add: d fun_eq_iff)
qed

text \<open>The specification of a registration: it is for a number of seven bits, and takes effect if the number is free
  and the answer to the client can be written. \<open>None\<close> is a number from 128 on, which the code takes as a
  negative index.\<close>

definition registers :: "bool \<Rightarrow> int \<Rightarrow> u8 list option \<Rightarrow> (nat \<rightharpoonup> int) \<Rightarrow> (nat \<rightharpoonup> int) option" where
  "registers ok s m M =
     (case m of
        None \<Rightarrow> Some M
      | Some m \<Rightarrow>
          if m ! 1 \<noteq> AM_CLIENT_REG then Some M
          else if unat (m ! 3) \<ge> 128 then None
          else Some (if M (unat (m ! 3)) = None \<and> ok then M(unat (m ! 3) \<mapsto> s) else M))"

text \<open>An entry at a character.\<close>

lemma table_at_char:
  assumes "length t = ADDR_TABLE_SIZE"
  shows "table_at t (sint (c :: u8)) = (if unat c < 128 then Some (t ! unat c) else None)"
proof (cases "unat c < 128")
  case True
  then have "unat c < length t" using assms by (simp add: ADDR_TABLE_SIZE_def)
  then show ?thesis using True unfolding sint8_nonneg [OF True] by (simp add: table_at_nat del: of_nat_unat)
next
  case False
  have "uint c = sint c mod 256" using uint_sint [of c] by (simp add: take_bit_eq_mod)
  moreover have "sint c < 128" using sint_lt [of c] by simp
  ultimately have "0 \<le> sint c \<Longrightarrow> uint c < 128" by simp
  then have "sint c < 0" using False by (metis int_eq_iff linorder_not_less of_nat_less_iff of_nat_numeral uint_nat)
  then show ?thesis using False by (simp add: table_at_def)
qed

lemma reg_clients:
  assumes len: "length t = ADDR_TABLE_SIZE" and s: "s \<noteq> BAD_SOCKET"
  shows "case am_client_reg grp alive s m t of
      None \<Rightarrow> registers (alive s) s m (clients t) = None
    | Some (t', _, _) \<Rightarrow> length t' = ADDR_TABLE_SIZE \<and> registers (alive s) s m (clients t) = Some (clients t')"
proof (cases m)
  case None
  then show ?thesis using len by (simp add: am_client_reg_def registers_def)
next
  case (Some r)
  let ?i = "unat (r ! 3)"
  show ?thesis
  proof (cases "r ! 1 = AM_CLIENT_REG \<and> ?i < 128")
    case True
    then have i: "?i < length t" using len by (simp add: ADDR_TABLE_SIZE_def)
    have idx: "nat (sint (r ! 3)) = ?i" using True by (simp add: sint8_nonneg nat_int del: of_nat_unat)
    have free: "t ! ?i = BAD_SOCKET \<longleftrightarrow> clients t ?i = None" using i by (simp add: clients_def)
    have "clients (t[?i := s]) = (clients t)(?i \<mapsto> s)"
      using i s by (auto simp: clients_def fun_eq_iff nth_list_update)
    then show ?thesis
      using True len by (simp add: Some am_client_reg_def registers_def Let_def table_at_char [OF len] idx free send_tos_msg_def)
  next
    case False
    then show ?thesis
      using len by (auto simp: Some am_client_reg_def registers_def Let_def table_at_char [OF len])
  qed
qed

text \<open>What the threads of the clients do to the table, each while it holds the lock, in any order: \<open>ok\<close> tells
  whether the answer can be written at that moment. A socket may register several times, leave without having
  registered, and be the socket of a new client before the old one was taken out.\<close>

datatype client_event = Register bool int "u8 list option" | Leave int

primrec event_socket :: "client_event \<Rightarrow> int" where
  "event_socket (Register ok s m) = s"
| "event_socket (Leave s) = s"

primrec table_run :: "u8 \<Rightarrow> client_event list \<Rightarrow> int list \<Rightarrow> int list option" where
  "table_run grp [] t = Some t"
| "table_run grp (e # es) t =
     (case e of
        Register ok s m \<Rightarrow>
          (case am_client_reg grp (\<lambda>_. ok) s m t of None \<Rightarrow> None | Some (t, _, _) \<Rightarrow> table_run grp es t)
      | Leave s \<Rightarrow> table_run grp es (am_client_dereg s t))"

primrec clients_run :: "client_event list \<Rightarrow> (nat \<rightharpoonup> int) \<Rightarrow> (nat \<rightharpoonup> int) option" where
  "clients_run [] M = Some M"
| "clients_run (e # es) M =
     (case e of
        Register ok s m \<Rightarrow> (case registers ok s m M of None \<Rightarrow> None | Some M \<Rightarrow> clients_run es M)
      | Leave s \<Rightarrow> clients_run es (departs s M))"

lemma table_run_clients:
  "length t = ADDR_TABLE_SIZE \<Longrightarrow> \<forall>e \<in> set es. 0 \<le> event_socket e \<Longrightarrow>
   (case table_run grp es t of
      None \<Rightarrow> clients_run es (clients t) = None
    | Some t' \<Rightarrow> length t' = ADDR_TABLE_SIZE \<and> clients_run es (clients t) = Some (clients t'))"
proof (induction es arbitrary: t)
  case (Cons e es)
  show ?case
  proof (cases e)
    case (Register ok s m)
    then have s: "s \<noteq> BAD_SOCKET" using Cons.prems(2) by (auto simp: BAD_SOCKET_def)
    show ?thesis
    proof (cases "am_client_reg grp (\<lambda>_. ok) s m t")
      case None
      then show ?thesis using reg_clients [OF Cons.prems(1) s, where grp = grp and alive = "\<lambda>_. ok" and m = m] by (simp add: Register)
    next
      case (Some r)
      obtain t1 o1 k1 where r: "r = (t1, o1, k1)" by (cases r)
      then have "length t1 = ADDR_TABLE_SIZE" "registers ok s m (clients t) = Some (clients t1)"
        using reg_clients [OF Cons.prems(1) s, where grp = grp and alive = "\<lambda>_. ok" and m = m] Some by simp_all
      then show ?thesis using Cons.IH [of t1] Cons.prems(2) Some r by (simp add: Register split: option.splits)
    qed
  next
    case (Leave s)
    then have "s \<noteq> BAD_SOCKET" using Cons.prems(2) by (auto simp: BAD_SOCKET_def)
    from dereg_clients [OF Cons.prems(1) this] Cons.IH [of "am_client_dereg s t"] Cons.prems(2)
    show ?thesis by (simp add: Leave split: option.splits)
  qed
qed simp

lemma send_to_all_out:
  "snd (send_to_all grp alive t pkt) = map (\<lambda>s. (s, pkt[2 := grp])) (filter (\<lambda>s. s \<noteq> BAD_SOCKET \<and> alive s) t)"
proof (induction t arbitrary: pkt)
  case (Cons s t)
  obtain p out where "send_to_all grp alive t (pkt[2 := grp]) = (p, out)" by force
  then show ?case using Cons [of pkt] Cons [of "pkt[2 := grp]"] by (simp add: send_tos_msg_def Let_def)
qed simp

text \<open>The clients in the order of their numbers.\<close>

definition in_order :: "(nat \<rightharpoonup> int) \<Rightarrow> int list" where
  "in_order M = map (the \<circ> M) (filter (\<lambda>i. M i \<noteq> None) [0..<ADDR_TABLE_SIZE])"

lemma in_order_clients:
  assumes "length t = ADDR_TABLE_SIZE"
  shows "in_order (clients t) = filter (\<lambda>s. s \<noteq> BAD_SOCKET) t"
proof -
  have "filter (\<lambda>s. s \<noteq> BAD_SOCKET) (map ((!) t) [0..<length t])
      = map ((!) t) (filter (\<lambda>i. t ! i \<noteq> BAD_SOCKET) [0..<length t])"
    by (simp only: filter_map comp_def)
  also have "filter (\<lambda>i. t ! i \<noteq> BAD_SOCKET) [0..<length t] = filter (\<lambda>i. clients t i \<noteq> None) [0..<length t]"
    by (rule filter_cong) (auto simp: clients_def)
  also have "map ((!) t) (filter (\<lambda>i. clients t i \<noteq> None) [0..<length t])
      = map (the \<circ> clients t) (filter (\<lambda>i. clients t i \<noteq> None) [0..<length t])"
    by (rule map_cong) (auto simp: clients_def split: if_splits)
  finally show ?thesis unfolding map_nth using assms by (simp add: in_order_def)
qed

lemma route_clients:
  assumes len: "length t = ADDR_TABLE_SIZE"
  shows "map_option snd (route_packet grp alive t pkt) =
    (if pkt ! 0 = TOS_BCAST_ADDR then Some (map (\<lambda>s. (s, pkt[2 := grp])) (filter alive (in_order (clients t))))
     else if unat (pkt ! 0) \<ge> 128 then None
     else Some (case clients t (unat (pkt ! 0)) of None \<Rightarrow> [] | Some s \<Rightarrow> if alive s then [(s, pkt[2 := grp])] else []))"
proof -
  have "unat (pkt ! 0) < 128 \<Longrightarrow> unat (pkt ! 0) < length t" using len by (simp add: ADDR_TABLE_SIZE_def)
  then show ?thesis
    by (auto simp: route_packet_def send_to_all_out in_order_clients [OF len] table_at_char [OF len] send_tos_msg_def clients_def Let_def conj_commute)
qed

lemma empty_table: "length (replicate ADDR_TABLE_SIZE BAD_SOCKET) = ADDR_TABLE_SIZE" "clients (replicate ADDR_TABLE_SIZE BAD_SOCKET) = Map.empty"
  by (auto simp: clients_def)

text \<open>C15: The server's table of sockets implements a map from the numbers of motes to clients. Whatever
  registrations and departures, of whatever sockets and in whatever order, changed the table from the empty one:
  it is the map that the specification gives, in which a registration takes a number that is free and a
  departure frees the smallest number of its socket; a packet from the serial line goes to the client of its
  number, or to nobody if there is none, and a packet for all goes to every client once for each of its numbers,
  in the order of the numbers. The packet is as it came, but for the group, which is set. The numbers are 0 to 127:
  a registration of, and a packet for, a higher number (but for 255, the address of all) reaches outside the
  table, and nothing is claimed of what comes after such a registration.\<close>

theorem packets_reach_clients:
  assumes "\<forall>e \<in> set es. 0 \<le> event_socket e"
  shows "case table_run grp es (replicate ADDR_TABLE_SIZE BAD_SOCKET) of
      None \<Rightarrow> clients_run es Map.empty = None
    | Some t \<Rightarrow> \<exists>M. clients_run es Map.empty = Some M \<and>
        (\<forall>alive pkt. map_option snd (route_packet grp alive t pkt) =
          (if pkt ! 0 = TOS_BCAST_ADDR then Some (map (\<lambda>s. (s, pkt[2 := grp])) (filter alive (in_order M)))
           else if unat (pkt ! 0) \<ge> 128 then None
           else Some (case M (unat (pkt ! 0)) of None \<Rightarrow> [] | Some s \<Rightarrow> if alive s then [(s, pkt[2 := grp])] else [])))"
proof (cases "table_run grp es (replicate ADDR_TABLE_SIZE BAD_SOCKET)")
  case None
  then show ?thesis using table_run_clients [OF empty_table(1) assms, of grp] by (simp add: empty_table(2))
next
  case (Some t)
  then have "length t = ADDR_TABLE_SIZE" "clients_run es Map.empty = Some (clients t)"
    using table_run_clients [OF empty_table(1) assms, of grp] by (simp_all add: empty_table(2))
  then show ?thesis using Some route_clients [of t grp] by simp
qed

text \<open>Two clients, of which the first leaves and another takes its place; the packet is for number 5.\<close>

definition reg_packet :: "u8 \<Rightarrow> u8 list" where
  "reg_packet n = [0, 0xff, 0, n] @ replicate 31 0"

theorem packets_reach_clients_witness:
  "\<exists>t. table_run 7 [Register True 4 (Some (reg_packet 5)), Register True 6 (Some (reg_packet 9)), Leave 4, Register True 8 (Some (reg_packet 5))]
      (replicate ADDR_TABLE_SIZE BAD_SOCKET) = Some t \<and>
    map_option snd (route_packet 7 (\<lambda>_. True) t (5 # replicate 34 0)) = Some [(8, [5, 0, 7] @ replicate 32 0)]"
proof -
  let ?es = "[Register True 4 (Some (reg_packet 5)), Register True 6 (Some (reg_packet 9)), Leave 4, Register True 8 (Some (reg_packet 5))]"
  have "\<forall>e \<in> set ?es. 0 \<le> event_socket e" by simp
  note * = packets_reach_clients [OF this, of 7]
  have "departs 4 [5 \<mapsto> 4, 9 \<mapsto> 6] = [9 \<mapsto> 6]" by (auto simp: departs_def fun_eq_iff)
  then have M: "clients_run ?es Map.empty = Some [9 \<mapsto> 6, 5 \<mapsto> 8]"
    by (simp add: registers_def reg_packet_def AM_CLIENT_REG_def)
  then obtain t where t: "table_run 7 ?es (replicate ADDR_TABLE_SIZE BAD_SOCKET) = Some t"
    using * by (auto split: option.splits)
  have cut: "(5 # replicate 34 0)[2 := 7] = [5, 0, 7] @ replicate 32 (0 :: u8)" by (simp add: numeral_eq_Suc)
  have "(5 :: u8) \<noteq> TOS_BCAST_ADDR" by (simp add: TOS_BCAST_ADDR_def)
  then have "map_option snd (route_packet 7 (\<lambda>_. True) t (5 # replicate 34 0)) = Some [(8, [5, 0, 7] @ replicate 32 0)]"
    using * cut unfolding t M by simp
  then show ?thesis using t by blast
qed

section \<open>Two threads at the same socket\<close>

text \<open>The thread of a connection: accepted, at the end of the loop of \<open>do_chld\<close> or not yet there, and after \<open>close\<close>,
  which gives the number of the socket free, but before the table is changed.\<close>

datatype phase = New | Served | Closed

inductive server_step :: "u8 \<Rightarrow> (int \<Rightarrow> bool) \<Rightarrow> int list \<times> (int \<times> phase) list \<Rightarrow> int list \<times> (int \<times> phase) list \<Rightarrow> bool"
  for grp alive where
  accept: "0 \<le> s \<Longrightarrow> \<forall>(s', p) \<in> set ths. s' = s \<longrightarrow> p = Closed \<Longrightarrow>
    server_step grp alive (t, ths) (t, ths @ [(s, New)])"
| register: "am_client_reg grp alive s m t = Some (t', out, ok) \<Longrightarrow>
    server_step grp alive (t, xs @ (s, New) # ys) (t', xs @ (s, Served) # ys)"
| close: "server_step grp alive (t, xs @ (s, Served) # ys) (t, xs @ (s, Closed) # ys)"
| leave: "server_step grp alive (t, xs @ (s, Closed) # ys) (am_client_dereg s t, xs @ ys)"

text \<open>Every table the threads reach is one of those that registrations and departures in some order reach, so
  what is proved of these holds of the running server.\<close>

lemma table_run_snoc:
  "table_run grp es t = Some t1 \<Longrightarrow> table_run grp (es @ [e]) t = table_run grp [e] t1"
  by (induction es arbitrary: t) (auto split: client_event.splits option.splits prod.splits)

lemma am_client_reg_alive: "am_client_reg grp alive s m t = am_client_reg grp (\<lambda>_. alive s) s m t"
  unfolding am_client_reg_def send_tos_msg_def by (rule refl)

lemma server_tables:
  assumes "(server_step grp alive)\<^sup>*\<^sup>* (t0, []) (t, ths)"
  shows "(\<exists>es. (\<forall>e \<in> set es. 0 \<le> event_socket e) \<and> table_run grp es t0 = Some t) \<and> (\<forall>(s, p) \<in> set ths. 0 \<le> s)"
  using assms
proof (induction rule: rtranclp_induct2)
  case refl
  show ?case by (auto intro!: exI [of _ "[]"])
next
  case (step t ths t' ths')
  from step.IH obtain es where es: "\<forall>e \<in> set es. 0 \<le> event_socket e" "table_run grp es t0 = Some t"
    and s: "\<forall>(s, p) \<in> set ths. 0 \<le> s" by blast
  have more: "\<exists>es. (\<forall>e \<in> set es. 0 \<le> event_socket e) \<and> table_run grp es t0 = Some t'"
    if "table_run grp [e] t = Some t'" "0 \<le> event_socket e" for e
    using that es table_run_snoc [OF es(2), of e] by (intro exI [of _ "es @ [e]"]) auto
  from step.hyps(2) show ?case
  proof cases
    case (register s m out ok xs ys)
    have "table_run grp [Register (alive s) s m] t = Some t'"
      using register(3) am_client_reg_alive [of grp alive s m t] by simp
    then show ?thesis using more [of "Register (alive s) s m"] s register(1,2) by auto
  next
    case (leave xs s ys)
    then show ?thesis using more [of "Leave s"] s by auto
  qed (use es s in auto)
qed

lemma first_at_least:
  assumes "k < length ss" and "ss ! k = s" and "\<And>j. j < k \<Longrightarrow> ss ! j \<noteq> s"
  shows "first_at s i ss = i + int k"
  using first_at_bounds [of s i ss]
proof (elim disjE exE conjE)
  fix k' assume k': "k' < length ss" "first_at s i ss = i + int k'" "ss ! k' = s" "\<forall>j<k'. ss ! j \<noteq> s"
  then have "k' = k" using assms by (metis linorder_neqE_nat)
  then show ?thesis using k'(2) by simp
qed (use assms in \<open>auto simp: in_set_conv_nth\<close>)

text \<open>A registration of a free number.\<close>

lemma reg_free:
  assumes "length t = ADDR_TABLE_SIZE" and "t ! unat (m ! 3) = BAD_SOCKET" and "alive s"
    and "m ! 1 = AM_CLIENT_REG" and "unat (m ! 3) < 128"
  shows "am_client_reg grp alive s (Some m) t = Some (t[unat (m ! 3) := s], [(s, m[2 := grp])], True)"
proof -
  have "table_at t (sint (m ! 3)) = Some BAD_SOCKET" "nat (sint (m ! 3)) = unat (m ! 3)"
    unfolding sint8_nonneg [OF assms(5)] using assms(1,2,5) by (simp_all only: table_at_nat nat_int ADDR_TABLE_SIZE_def)
  then show ?thesis using assms(3,4) by (simp add: am_client_reg_def Let_def send_tos_msg_def)
qed

text \<open>C30: A client that leaves can take another's registration with it. While its thread has closed the socket but not yet
  changed the table, the next client is accepted with the same socket and registers. The thread then searches for the
  socket and removes the smaller of the two numbers: if this is the newcomer's, packets for the newcomer go to nobody, and
  the newcomer gets those for the number of the client that has gone.\<close>

theorem leaving_client_removes_other:
  assumes "0 \<le> s" and "alive s" and "m1 ! 1 = AM_CLIENT_REG" and "m2 ! 1 = AM_CLIENT_REG"
    and "unat (m2 ! 3) < unat (m1 ! 3)" and "unat (m1 ! 3) < 128"
  shows "\<exists>t0 t1 t2 out.
    (server_step grp alive)\<^sup>*\<^sup>* (replicate ADDR_TABLE_SIZE BAD_SOCKET, []) (t0, [(s, Closed), (s, New)]) \<and>
    am_client_reg grp alive s (Some m2) t0 = Some (t1, out, True) \<and>
    server_step grp alive (t0, [(s, Closed), (s, New)]) (t1, [(s, Closed), (s, Served)]) \<and>
    server_step grp alive (t1, [(s, Closed), (s, Served)]) (t2, [(s, Served)]) \<and>
    clients t2 = [unat (m1 ! 3) \<mapsto> s] \<and>
    (\<forall>pkt. unat (pkt ! 0) = unat (m2 ! 3) \<longrightarrow> route_packet grp alive t2 pkt = Some (pkt, [])) \<and>
    (\<forall>pkt. unat (pkt ! 0) = unat (m1 ! 3) \<longrightarrow> route_packet grp alive t2 pkt = Some (pkt[2 := grp], [(s, pkt[2 := grp])]))"
proof -
  let ?a = "unat (m1 ! 3)" and ?b = "unat (m2 ! 3)" and ?t = "replicate ADDR_TABLE_SIZE BAD_SOCKET"
  have lt: "?a < ADDR_TABLE_SIZE" "?b < ADDR_TABLE_SIZE" "?b < 128" using assms(5,6) by (auto simp: ADDR_TABLE_SIZE_def)
  let ?one = "?t[?a := s]"
  have s: "s \<noteq> BAD_SOCKET" using assms(1) by (simp add: BAD_SOCKET_def)
  have "am_client_reg grp alive s (Some m1) ?t = Some (?one, [(s, m1[2 := grp])], True)"
    using assms lt by (intro reg_free) auto
  then have "server_step grp alive (?t, [] @ (s, New) # []) (?one, [] @ (s, Served) # [])"
    by (rule server_step.register)
  moreover have "server_step grp alive (?t, []) (?t, [] @ [(s, New)])" by (rule server_step.accept) (use assms(1) in auto)
  moreover have "server_step grp alive (?one, [] @ (s, Served) # []) (?one, [] @ (s, Closed) # [])" by (rule server_step.close)
  moreover have "server_step grp alive (?one, [(s, Closed)]) (?one, [(s, Closed)] @ [(s, New)])"
    by (rule server_step.accept) (use assms(1) in auto)
  ultimately have reach: "(server_step grp alive)\<^sup>*\<^sup>* (?t, []) (?one, [(s, Closed), (s, New)])"
    by (simp add: rtranclp.rtrancl_into_rtrancl)
  let ?two = "?one[?b := s]"
  have reg: "am_client_reg grp alive s (Some m2) ?one = Some (?two, [(s, m2[2 := grp])], True)"
    using assms lt by (intro reg_free) auto
  have step1: "server_step grp alive (?one, [(s, Closed), (s, New)]) (?two, [(s, Closed), (s, Served)])"
    using server_step.register [OF reg, of "[(s, Closed)]" "[]"] by simp
  have "first_at s 0 ?two = 0 + int ?b"
    using assms(5) lt s by (intro first_at_least) (auto simp: nth_list_update)
  then have "am_client_dereg s ?two = ?two[?b := BAD_SOCKET]"
    by (intro dereg_at) (use lt in simp_all)
  also have "\<dots> = ?one" using assms(5) lt by (intro nth_equalityI) (auto simp: nth_list_update)
  finally have step2: "server_step grp alive (?two, [(s, Closed), (s, Served)]) (?one, [(s, Served)])"
    using server_step.leave [of grp alive ?two "[]" s "[(s, Served)]"] by simp
  have entry: "table_at ?one (sint (pkt ! 0)) = Some (?one ! unat (pkt ! 0))" "pkt ! 0 \<noteq> TOS_BCAST_ADDR"
    if "unat (pkt ! 0) < 128" for pkt :: "u8 list"
  proof -
    have "unat (pkt ! 0) < length ?one" using that by (simp add: ADDR_TABLE_SIZE_def)
    then show "table_at ?one (sint (pkt ! 0)) = Some (?one ! unat (pkt ! 0))"
      unfolding sint8_nonneg [OF that] by (rule table_at_nat)
    show "pkt ! 0 \<noteq> TOS_BCAST_ADDR" using that by (auto simp: TOS_BCAST_ADDR_def)
  qed
  have "clients ?one = [?a \<mapsto> s]" using lt s by (auto simp: clients_def fun_eq_iff)
  moreover have "route_packet grp alive ?one pkt = Some (pkt, [])" if "unat (pkt ! 0) = ?b" for pkt
    using entry [of pkt] that lt assms(5) by (simp add: route_packet_def)
  moreover have "route_packet grp alive ?one pkt = Some (pkt[2 := grp], [(s, pkt[2 := grp])])" if "unat (pkt ! 0) = ?a" for pkt
    using entry [of pkt] that lt assms(2,6) s by (simp add: route_packet_def send_tos_msg_def Let_def)
  ultimately show ?thesis using reach reg step1 step2 by blast
qed

theorem leaving_client_removes_other_witness:
  "\<exists>t0 t1 t2 out.
    (server_step 7 (\<lambda>_. True))\<^sup>*\<^sup>* (replicate ADDR_TABLE_SIZE BAD_SOCKET, []) (t0, [(4, Closed), (4, New)]) \<and>
    am_client_reg 7 (\<lambda>_. True) 4 (Some (reg_packet 3)) t0 = Some (t1, out, True) \<and>
    server_step 7 (\<lambda>_. True) (t0, [(4, Closed), (4, New)]) (t1, [(4, Closed), (4, Served)]) \<and>
    server_step 7 (\<lambda>_. True) (t1, [(4, Closed), (4, Served)]) (t2, [(4, Served)]) \<and>
    clients t2 = [9 \<mapsto> 4]"
  using leaving_client_removes_other [of 4 "\<lambda>_. True" "reg_packet 9" "reg_packet 3" 7]
  by (auto simp: reg_packet_def AM_CLIENT_REG_def)

section \<open>The clients' side\<close>

text \<open>The comparison of two messages: address, type, group and 30 bytes of data.\<close>

definition compare_tos_msg :: "u8 list \<Rightarrow> u8 list \<Rightarrow> int" where
  "compare_tos_msg a b =
     (if a ! 0 \<noteq> b ! 0 \<or> a ! 1 \<noteq> b ! 1 \<or> a ! 2 \<noteq> b ! 2 then - 1
      else if \<exists>i<DATA_LENGTH. a ! (3 + i) \<noteq> b ! (3 + i) then - 1 else 0)"

text \<open>The registration in \<open>client_init\<close>: \<open>junk\<close> is what the two messages on the stack hold, \<open>cs\<close> what the server
  answers. The result is the message sent and whether the client goes on.\<close>

definition client_register :: "u8 \<Rightarrow> int \<Rightarrow> u8 \<Rightarrow> u8 list \<Rightarrow> u8 list \<Rightarrow> stream \<Rightarrow> (int \<times> u8 list) list \<times> bool" where
  "client_register grp gw_socket mote_id junk junk' cs =
     (case send_tos_msg grp (\<lambda>_. True) gw_socket (junk[1 := AM_CLIENT_REG, 3 := mote_id]) of (reg_msg, out, _) \<Rightarrow>
        case recv_tos_msg junk' cs of (ret_msg, _, _) \<Rightarrow> (out, compare_tos_msg ret_msg reg_msg = 0))"

text \<open>A handler may change the packet it is given, and may return a packet to be sent.\<close>

type_synonym am_handler = "u8 list \<Rightarrow> u8 list \<times> u8 list option"

definition reg_am_type :: "u8 \<Rightarrow> am_handler \<Rightarrow> am_handler option list \<Rightarrow> (am_handler option list \<times> int) option" where
  "reg_am_type type h t =
     (case table_at t (sint type) of
        None \<Rightarrow> None
      | Some (Some _) \<Rightarrow> Some (t, - 1)
      | Some None \<Rightarrow> Some (t[nat (sint type) := Some h], 1))"

definition dereg_am_type :: "u8 \<Rightarrow> am_handler option list \<Rightarrow> (am_handler option list \<times> int) option" where
  "dereg_am_type type t =
     (case table_at t (sint type) of None \<Rightarrow> None | Some _ \<Rightarrow> Some (t[nat (sint type) := None], 1))"

text \<open>One round of \<open>type_listener\<close>; \<open>Inl\<close> is the end of the program.\<close>

definition type_round ::
  "u8 \<Rightarrow> (int \<Rightarrow> bool) \<Rightarrow> int \<Rightarrow> am_handler option list \<Rightarrow> u8 list \<times> stream
    \<Rightarrow> (unit + (u8 list \<times> stream) \<times> (int \<times> u8 list) list) option" where
  "type_round grp alive gw_socket t st =
     (case st of (pkt, cs) \<Rightarrow> case recv_tos_msg pkt cs of (pkt, ok, cs) \<Rightarrow>
        if \<not> ok then Some (Inl ())
        else
          (case table_at t (sint (pkt ! 1)) of
             None \<Rightarrow> None
           | Some None \<Rightarrow> Some (Inr ((pkt, cs), []))
           | Some (Some h) \<Rightarrow>
               (case h pkt of
                  (pkt, None) \<Rightarrow> Some (Inr ((pkt, cs), []))
                | (pkt, Some reply) \<Rightarrow>
                    (case send_tos_msg grp alive gw_socket reply of (_, out, ok) \<Rightarrow>
                       Some (if ok then Inr ((pkt, cs), out) else Inl ())))))"

text \<open>The server echoes the registration of a number that is free, and the client goes on.\<close>

lemma compare_refl: "compare_tos_msg m m = 0"
  by (simp add: compare_tos_msg_def)

lemma registered_client_goes_on:
  assumes "length t = ADDR_TABLE_SIZE" and "t ! unat mote_id = BAD_SOCKET" and "unat mote_id < 128" and "alive s"
    and "length junk = AM_PKT_LEN" and "length junk' = AM_PKT_LEN" and "pieces cs"
    and "client_register grp s' mote_id junk junk' cs = (out, ok)"
    and "am_client_reg grp alive s (Some (snd (hd out))) t = Some (t', out', True)" and "concat cs = snd (hd out')"
  shows "ok \<and> t' = t[unat mote_id := s]"
proof -
  let ?m = "junk[1 := AM_CLIENT_REG, 3 := mote_id, 2 := grp]"
  have len: "length ?m = AM_PKT_LEN" using assms(5) by simp
  have out: "out = [(s', ?m)]" using assms(8) by (auto simp: client_register_def send_tos_msg_def Let_def split: prod.splits)
  have m: "?m ! 1 = AM_CLIENT_REG" "?m ! 3 = mote_id" using assms(5) by (simp_all add: AM_PKT_LEN_def)
  have "am_client_reg grp alive s (Some ?m) t = Some (t[unat mote_id := s], [(s, ?m[2 := grp])], True)"
    using assms(1-4) m reg_free [of t ?m alive s grp] by simp
  then have reg: "t' = t[unat mote_id := s]" "concat cs = ?m" using assms(9,10) out by auto
  obtain cs' where "recv_tos_msg junk' cs = (take AM_PKT_LEN (concat cs), True, cs')"
    using recv_whole [OF assms(7) _ assms(6)] reg(2) len by (metis order_refl)
  then have "recv_tos_msg junk' cs = (?m, True, cs')" using reg(2) len by simp
  then show ?thesis
    using assms(8) reg(1) by (auto simp: client_register_def send_tos_msg_def Let_def compare_refl)
qed

text \<open>A packet of a type for which a handler is registered is given to it, and what it returns is sent.\<close>

lemma handler_called:
  assumes "reg_am_type type h t = Some (t', 1)" and "pieces cs" and "AM_PKT_LEN \<le> length (concat cs)"
    and "length pkt = AM_PKT_LEN" and "concat cs ! 1 = type" and "alive s"
  shows "\<exists>cs'. type_round grp alive s t' (pkt, cs) =
    Some (Inr ((fst (h (take AM_PKT_LEN (concat cs))), cs'),
      case snd (h (take AM_PKT_LEN (concat cs))) of None \<Rightarrow> [] | Some r \<Rightarrow> [(s, r[2 := grp])])) \<and>
    concat cs' = drop AM_PKT_LEN (concat cs)"
proof -
  obtain cs' where r: "recv_tos_msg pkt cs = (take AM_PKT_LEN (concat cs), True, cs')" "concat cs' = drop AM_PKT_LEN (concat cs)"
    using recv_whole [OF assms(2,3,4)] by metis
  have "table_at t' (sint type) = Some (Some h)"
    using assms(1) by (auto simp: reg_am_type_def table_at_def split: option.splits if_splits)
  moreover have "take AM_PKT_LEN (concat cs) ! 1 = type" using assms(5) by (simp add: AM_PKT_LEN_def)
  ultimately show ?thesis
    using r assms(6) by (auto simp: type_round_def send_tos_msg_def Let_def split: prod.split option.split)
qed

end
