(* ===== verification/Spec2Isabelle.thy ===== *)
theory Spec2Isabelle
  imports DvNet Sched MessageStack SlipBridge FourB Manchester UartPacket CrcPacket
    TbfPacket TbfNeigh Logger RouteNet RouteStack UdpEcho RfsReplica
    InterpFaults MoteGw GwServer
begin

text \<open>
  A verification development for the ad-hoc positioning system and the mote networking code of
  this repository, \<open>src/rutgers_projs/aps_proj\<close>, of the trajectory-based forwarding of \<open>src/rutgers_projs/tbf_proj\<close>, and of the replicated
  file system of \<open>src/rutgers_projs/OS_course/rfs\<close>. A mote is a small sensor node with an 8-bit processor
  and a radio; its program is a stack of components, each a C file with a frame (its state), commands
  (called from above), events (called from below) and tasks (run later, one at a time, by the scheduler).
  Wiring files (\<open>apps/*.desc\<close>, \<open>system/*.desc\<close>) connect the commands and events of a component to those of others.
  File names below are relative to \<open>aps_proj\<close>, unless they begin with \<open>tbf_proj\<close> or \<open>rfs\<close>.

  \<^bold>\<open>How the code is modelled.\<close> A frame is a record with the fields of the C structure. An operation
  is a function from its arguments and the frame to the new frame, the list of commands it calls and
  events it signals in their order, and its result. The answers of called commands are arguments where
  the operation branches on them; where the layer above may act on the component before a call returns,
  the call is a function argument on the whole state. Messages are byte lists in a memory that maps a
  pointer to its buffer, so that buffers which are exchanged, kept and reused are visible. On the motes
  machine integers are words of the width they have in the build: the positioning components in the PC build
  (\<open>MakefilePC\<close>, \<open>FULLPC\<close>: \<open>int\<close> is 32 bits), the communication layers in the build for the mote (\<open>int\<close> is
  16 bits, \<open>char\<close> a signed byte). Loop indices, and numbers of entries that the code keeps below the size of a
  table, are natural numbers. The programs of the PC hold characters as words of 8 bits; their \<open>int\<close>s (sockets,
  descriptors, sizes, the numbers in the tables of the file system) are integers, which is \<open>int\<close> arithmetic as long as no value
  reaches $2^{31}$: where the code puts a wider value into an \<open>int\<close> of a message of the file system, the conversion to 32 bits is
  written out (\<open>int32\<close> of theory \<open>RfsFiles\<close>), and the counters of its tables, which grow by one with an opened file, are taken not
  to overflow. Where C would read or write outside an object the operation has an
  error value (\<open>None\<close> or \<open>Out_of_bounds\<close>), or takes what lies there as a parameter.

  \<^bold>\<open>The theories.\<close>

  \<^item> \<open>Prelude\<close>: words, C's signed operations, lists updated by index.

  \<^item> Positioning. \<open>Fixpoint\<close> (\<open>system/fixpoint32.c\<close>): each arithmetic operation against the integers, exact
  or with its error bound, and the overflow flag. \<open>LeastSquares\<close> (\<open>system/least_squares-ash.c\<close>): the
  solver against the exact solution. \<open>DvHop\<close> (\<open>DV_HOP-FIXPOINT.c\<close>): a node's table of landmarks as a
  refinement of a map, its invariant, the position iteration, when it stops and a run that does not;
  the iteration is a relation of rounds, without fuel. \<open>SendCoord\<close> (\<open>SEND_COORD_DV.c\<close>): the messages
  of the protocol and the buffer that is not touched while it is sent. \<open>DvNet\<close>: a network of such nodes
  as a step relation; every hop count is the length of a path.

  \<^item> Scheduling. \<open>Sched\<close> (\<open>system/sched.c\<close>): the cyclic task queue, and posting under interrupts, whose outcome is that of the posts one after
  the other; the recursion of \<open>TOS_post\<close> is over the list of interrupts that really happen.

  \<^item> Bytes over the radio. \<open>ByteLink\<close> is their interface, a locale that is interpreted for the three codes
  \<open>SecDed\<close> and \<open>SecDedLink\<close> (\<open>system/SEC_DED_RADIO_BYTE.c\<close>), \<open>FourB\<close> (\<open>system/FOUR_B_RADIO_BYTE.c\<close>) and
  \<open>Manchester\<close> (\<open>system/RADIO_BYTE.c\<close>): the bit events over whole bytes, correction of flipped bits, waiting
  for a free channel.

  \<^item> Packets. \<open>PacketLink\<close> holds the interfaces (a spooler of bytes, a collector of bytes, two parties that
  do not disturb each other); \<open>PacketObj\<close> (\<open>system/PACKETOBJ.c\<close>), \<open>UartPacket\<close> (\<open>system/UART_PACKET.c\<close>) and
  \<open>CrcPacket\<close> (\<open>system/CRCPACKETOBJ.c\<close>) provide them. \<open>RadioStack\<close> puts packets on radio bytes.

  \<^item> Messages. \<open>ActiveMsg\<close> (\<open>system/AM.c\<close>, \<open>system/AM_BASE.c\<close>, \<open>system/AMdispatch.template\<close>): dispatch to
  handlers, one message at a time. \<open>MessageStack\<close>: from a request on one node to the handler on another.

  \<^item> Routing. \<open>AmRoute\<close> (\<open>AM_ROUTE.c\<close>, both builds): the handlers. \<open>RouteNet\<close>: a network of such nodes as a
  step relation, in which the routes form a tree and a reading follows it to the base station, until a route
  expires. \<open>RouteStack\<close>: the handlers on the messaging layer, and how a refused message blocks the node.

  \<^item> Programs. \<open>Interp\<close> (\<open>INTERP.c\<close>, \<open>system/include/instruc.h\<close>): the byte-code interpreter, one instruction in each run
  of its task. \<open>InterpProg\<close>: a structured language with its semantics and its compilation to the instructions, which the
  interpreter executes as the semantics says, in as many runs as it takes, so without fuel. \<open>InterpFaults\<close>: calls, and the
  instructions that do not do what the header tells. \<open>MoteGw\<close> (\<open>MOTE_GW.c\<close>): the gateway of the motes on its two packet layers, as
  a step relation, in which the four message buffers stay apart. \<open>GwServer\<close> (\<open>demo/server.c\<close>, \<open>demo/libmote-gw.c\<close>, \<open>demo/uart.c\<close>): the server
  on the PC behind it, whose table of sockets refines a map under any sequence of registrations and departures, packets that arrive in pieces, and a step relation on its threads
  in which one takes the other's registration away.

  \<^item> Internet protocols. \<open>Slip\<close> (\<open>SLIP.c\<close>): frames on the serial line against RFC 1055. \<open>Inet\<close>
  (\<open>system/include/tos-ipv4.h\<close>): headers and the checksum. \<open>Ipv4\<close> (\<open>IPV4_SIMPLE.c\<close>): datagrams between
  motes. \<open>Udp\<close> (\<open>UDP_IPV4_MOD.c\<close>): ports and a checksum on top of it, through both layers of both motes.
  \<open>UdpEcho\<close> (\<open>UDP_ECHO.c\<close>): a service that answers, and how its answer gets back. \<open>SlipBridge\<close> (\<open>SLIP_BRIDGE.c\<close>): between the serial line and the radio, composed with the two.

  \<^item> The log. \<open>I2c\<close> (\<open>system/I2C_OBJ.c\<close>): the two-wire bus, pin by pin, for any device; each operation is a
  dialogue of starts, stops and bits. \<open>Logger\<close> (\<open>system/LOGGER.c\<close>): lines of 30 bytes in an EEPROM as a
  refinement of a list. The EEPROM is a parameter, the hypothesis \<open>eeprom\<close> what its data sheet says of
  writes and sequential reads within a page of its 8 kilobytes; a device made of bits, which rolls over at the
  end of a page and of the memory, shows that it can hold.

  \<^item> Trajectory-based forwarding, a packet that carries the curve it is to follow as two expressions in a
  parameter. \<open>TbfStack\<close> (\<open>tbf_proj/stack.c\<close>): the bounded stack, a locale for what its users rely on.
  \<open>TbfCalc\<close> (\<open>rpncalc\<close> of \<open>tbf_proj/algo.c\<close>): evaluation of postfix code; pieces of code are composed with
  the relation \<open>runs\<close>. \<open>TbfParse\<close> (\<open>tbf_proj/intopost.c\<close>): from infix text to code; a loop that does not end
  is \<open>None\<close>. \<open>TbfExpr\<close>: expressions, their text, value and code. \<open>TbfTrajectory\<close>: translation and evaluation
  together, and on which texts the translation returns. \<open>TbfPacket\<close> (\<open>dump_traj\<close>, \<open>get_traj\<close>): the code in
  a packet. \<open>TbfNeigh\<close> (the rest of \<open>tbf_proj/algo.c\<close> up to the policies): the table of neighbours as a
  refinement of a map, and its ageing. Floating point is a parameter of these theories.

  \<^item> The replicated file system, servers on several hosts and a client library. \<open>RfsFiles\<close> (\<open>rfs/librfs.c\<close>,
  \<open>rfs/rfs.h\<close>): POSIX files, the messages, and the calls on an open file as a refinement of local calls.
  \<open>RfsServer\<close> (\<open>rfs/server.c\<close>): the tables, how they are sent around, and the start of a server. \<open>RfsJoin\<close>: servers that agree
  on right tables still do when one more starts. \<open>RfsOpen\<close>: opening, closing, replicating, choosing a server, and the
  thread of a connection. \<open>RfsPeer\<close>: which server a client is sent to, where
  it writes outside an array. \<open>RfsReplica\<close>: what a replica contains, and a step relation on the
  threads that replicate, with a measure that bounds their steps. Calls of a server on another are functions on a map from hosts
  to servers; the loop that copies a file is a partial function, shown to return.

  \<^bold>\<open>Not modelled.\<close> Registers and interrupts of the devices (\<open>system/RFM.c\<close>, \<open>UART.c\<close>, \<open>CLOCK.c\<close> and
  others), which appear as the events and commands of the lowest layers; the forwarding policies of \<open>tbf_proj/algo.c\<close>, which
  minimise floating-point distances, and its frame \<open>TBF.c\<close>, which does not compile; the versions with signal strength; earlier and
  floating-point versions of modelled files; demonstration applications; the simulator and the tools,
  which are loops over system calls; the locks of the file system's servers, and its first version
  with a controller, which is not built. Otherwise the
  repository holds third-party code (PuTTY, jCIFS), other languages, and small exercises.
\<close>

end
